(* ===== verification/Prelude.thy ===== *)
theory Prelude
  imports Complex_Main "HOL-Library.AList" "HOL-Library.Monad_Syntax" "HOL-Library.Word"
begin

text \<open>
  Shared vocabulary of the development.  Python values are modelled as follows:
  \<^item> \<open>bytes\<close> is a list of 8-bit words, \<open>int\<close> is unbounded;
  \<^item> a \<open>dict\<close> whose iteration order is observed is an association list, kept in insertion
    order by \<open>AList.update\<close> and \<open>AList.delete\<close>; any other \<open>dict\<close> is a map;
  \<^item> a function of type \<open>'a option\<close> is a computation that may raise one of Python's own
    errors (KeyError, IndexError, StopIteration, ValueError of \<open>max\<close>) or not return: both are
    \<open>None\<close>, so a theorem that the result is \<open>Some\<close> excludes both;
  \<^item> the exceptions the program raises on purpose are values of the datatype \<open>exc\<close>.
\<close>

type_synonym bytes = "8 word list"
type_synonym ('k, 'v) dict = "('k \<times> 'v) list"

named_theorems py_simps "evaluation of the Python operations on concrete and symbolic arguments"

datatype exc =
    MisbehavingError string
  | BTClibValueError string
  | LowWorkHeaderError
  | ChainstateInconsistencyError string
  | InvalidBlockInputError string
  | StoreClosedError
  | IncompatibleStoreError
  | RuntimeError string
  | IndexError
  | KeyError
  | ValueError

section \<open>Python lists\<close>

definition py_nth :: "'a list \<Rightarrow> int \<Rightarrow> 'a option" where
  "py_nth xs i =
     (let n = int (length xs); j = (if i < 0 then n + i else i)
      in if 0 \<le> j \<and> j < n then Some (xs ! nat j) else None)"

definition py_last :: "'a list \<Rightarrow> 'a option" where
  "py_last xs = py_nth xs (- 1)"

definition slice_from :: "'a list \<Rightarrow> int \<Rightarrow> 'a list" where
  \<comment> \<open>\<open>xs[i:]\<close> for a non-negative \<open>i\<close>\<close>
  "slice_from xs i = drop (nat i) xs"

definition slice_to_neg :: "'a list \<Rightarrow> nat \<Rightarrow> 'a list" where
  \<comment> \<open>\<open>xs[:-n]\<close>: the empty list where \<open>n\<close> is 0, \<open>-0\<close> being 0\<close>
  "slice_to_neg xs n = (if n = 0 then [] else take (length xs - n) xs)"

lemma py_nth_nonneg [py_simps]: "0 \<le> i \<Longrightarrow> i < int (length xs) \<Longrightarrow> py_nth xs i = Some (xs ! nat i)"
  by (simp add: py_nth_def Let_def)

lemma py_nth_Some_nonneg:
  "py_nth xs i = Some x \<Longrightarrow> 0 \<le> i \<Longrightarrow> nat i < length xs \<and> xs ! nat i = x"
  by (auto simp: py_nth_def Let_def split: if_splits)

lemma py_last_nonempty [py_simps]: "xs \<noteq> [] \<Longrightarrow> py_last xs = Some (last xs)"
proof -
  assume ne: "xs \<noteq> []"
  then have "nat (int (length xs) - 1) = length xs - 1" by (simp add: nat_diff_distrib)
  with ne show ?thesis by (simp add: py_last_def py_nth_def Let_def last_conv_nth Suc_leI)
qed

lemma py_last_Nil [py_simps]: "py_last [] = None"
  by (simp add: py_last_def py_nth_def)

lemma py_last_Some_iff: "py_last xs = Some x \<longleftrightarrow> xs \<noteq> [] \<and> last xs = x"
  by (cases "xs = []") (simp_all add: py_simps)

section \<open>Loops that may raise\<close>

fun fold_opt :: "('a \<Rightarrow> 's \<Rightarrow> 's option) \<Rightarrow> 'a list \<Rightarrow> 's \<Rightarrow> 's option" where
  "fold_opt f [] s = Some s"
| "fold_opt f (x # xs) s = (case f x s of None \<Rightarrow> None | Some s' \<Rightarrow> fold_opt f xs s')"

lemma fold_opt_append:
  "fold_opt f (xs @ ys) s = (case fold_opt f xs s of None \<Rightarrow> None | Some s' \<Rightarrow> fold_opt f ys s')"
  by (induction xs arbitrary: s) (auto split: option.splits)

text \<open>The loop rule: an invariant kept by every iteration, which does not raise under it.\<close>

lemma fold_opt_invariant:
  assumes "I s"
    and "\<And>x s. x \<in> set xs \<Longrightarrow> I s \<Longrightarrow> \<exists>s'. f x s = Some s' \<and> I s'"
  shows "\<exists>s'. fold_opt f xs s = Some s' \<and> I s'"
  using assms
proof (induction xs arbitrary: s)
  case Nil
  then show ?case by simp
next
  case (Cons x xs)
  from Cons.prems obtain s' where s': "f x s = Some s'" "I s'" by auto
  with Cons.IH [of s'] Cons.prems(2) show ?case by auto
qed

text \<open>The same rule, with the invariant over what is still to be visited.\<close>

lemma fold_opt_invariant_rest:
  assumes "I xs s"
    and "\<And>x ys s. I (x # ys) s \<Longrightarrow> \<exists>s'. f x s = Some s' \<and> I ys s'"
  shows "\<exists>s'. fold_opt f xs s = Some s' \<and> I [] s'"
  using assms(1)
proof (induction xs arbitrary: s)
  case Nil
  then show ?case by simp
next
  case (Cons x xs)
  from assms(2) [OF Cons.prems] obtain s' where "f x s = Some s'" "I xs s'" by auto
  with Cons.IH [of s'] show ?case by auto
qed

text \<open>
  Steps that change a state and may raise: the state is the one left behind, also where they
  raise, since what was changed before the error stays changed.
\<close>

fun fold_exc :: "('a \<Rightarrow> 's \<Rightarrow> 's \<times> (exc + unit)) \<Rightarrow> 'a list \<Rightarrow> 's \<Rightarrow> 's \<times> (exc + unit)" where
  "fold_exc f [] s = (s, Inr ())"
| "fold_exc f (x # xs) s = (case f x s of (s', Inl e) \<Rightarrow> (s', Inl e) | (s', Inr _) \<Rightarrow> fold_exc f xs s')"

lemma fold_exc_append:
  "fold_exc f (xs @ ys) s = (case fold_exc f xs s of (s', Inl e) \<Rightarrow> (s', Inl e) | (s', Inr _) \<Rightarrow> fold_exc f ys s')"
  by (induction xs arbitrary: s) (auto split: prod.splits sum.splits)

text \<open>A relation kept by every iteration, raising or not, relates the first state to the last.\<close>

lemma fold_exc_relates:
  assumes "\<And>s. R s s" "\<And>s t u. R s t \<Longrightarrow> R t u \<Longrightarrow> R s u" "\<And>x s. R s (fst (f x s))"
  shows "R s (fst (fold_exc f xs s))"
proof (induction xs arbitrary: s)
  case (Cons x xs)
  obtain s' r where s': "f x s = (s', r)" by fastforce
  then have "R s s'" using assms(3) [of s x] by simp
  with Cons [of s'] assms(2) s' show ?case by (cases r) auto
qed (simp add: assms(1))

text \<open>An invariant kept by every iteration that does not raise.\<close>

lemma fold_exc_keeps:
  assumes "fold_exc f xs s = (s', Inr ())" "I s"
    and "\<And>x s s'. x \<in> set xs \<Longrightarrow> I s \<Longrightarrow> f x s = (s', Inr ()) \<Longrightarrow> I s'"
  shows "I s'"
  using assms
proof (induction xs arbitrary: s)
  case (Cons x xs)
  obtain s1 r where s1: "f x s = (s1, r)" by fastforce
  then have "r = Inr ()" using Cons.prems(1) by (auto split: sum.splits)
  then have "I s1" "fold_exc f xs s1 = (s', Inr ())" using Cons.prems s1 by (auto split: sum.splits)
  with Cons.IH [of s1] Cons.prems(3) show ?case by auto
qed simp

section \<open>Dictionaries\<close>

definition push_list :: "('k \<rightharpoonup> 'v list) \<Rightarrow> 'k \<Rightarrow> 'v \<Rightarrow> ('k \<rightharpoonup> 'v list)" where
  \<comment> \<open>\<open>d.setdefault(k, []).append(v)\<close>\<close>
  "push_list m k v = m(k \<mapsto> (case m k of None \<Rightarrow> [] | Some xs \<Rightarrow> xs) @ [v])"

definition get_list :: "('k \<rightharpoonup> 'v list) \<Rightarrow> 'k \<Rightarrow> 'v list" where
  \<comment> \<open>\<open>d.get(k, ())\<close>\<close>
  "get_list m k = (case m k of None \<Rightarrow> [] | Some xs \<Rightarrow> xs)"

lemma get_push_list [simp]:
  "get_list (push_list m k v) k' = (if k' = k then get_list m k @ [v] else get_list m k')"
  by (simp add: get_list_def push_list_def)

lemma map_of_AList_update [simp]: "map_of (AList.update k v xs) = (map_of xs)(k \<mapsto> v)"
  by (simp add: update_conv')

lemma map_of_in_dom: "map_of xs k = Some v \<Longrightarrow> k \<in> fst ` set xs"
  by (force dest: map_of_SomeD)

lemma map_of_Some_iff_mem: "distinct (map fst xs) \<Longrightarrow> map_of xs k = Some v \<longleftrightarrow> (k, v) \<in> set xs"
  by (simp add: map_of_eq_Some_iff)

lemma keys_update: "fst ` set (AList.update k v xs) = insert k (fst ` set xs)"
  using dom_update [of k v xs] by (simp add: dom_map_of_conv_image_fst)

end
