(* ===== verification/Key_Value_Store.thy ===== *)
theory Key_Value_Store
  imports Prelude "HOL-Library.List_Lexorder" "HOL-Library.Sublist"
begin

text \<open>
  \<open>KeyValueStore\<close> of \<open>db.py\<close>: the ordered store of octets by octets that holds the block
  index and the UTXO set.  What RocksDB holds is a value: the pairs of a column family in
  ascending bytewise key order.  The class above it is modelled operation by operation: the
  closed flag, the one pending batch, the range delete of \<open>delete_prefix\<close> and the prefix walk
  that stops at the first key without its prefix.  Locking and the reporting of corrupted files
  are not modelled.
\<close>

section \<open>The contents of a column family\<close>

type_synonym pairs = "(bytes \<times> bytes) list"

fun pairs_put :: "bytes \<Rightarrow> bytes \<Rightarrow> pairs \<Rightarrow> pairs" where
  "pairs_put k v [] = [(k, v)]"
| "pairs_put k v ((k', v') # ps) =
     (if k < k' then (k, v) # (k', v') # ps
      else if k = k' then (k, v) # ps
      else (k', v') # pairs_put k v ps)"

definition pairs_delete :: "bytes \<Rightarrow> pairs \<Rightarrow> pairs" where
  "pairs_delete k ps = filter (\<lambda>p. fst p \<noteq> k) ps"

definition pairs_delete_range :: "bytes \<Rightarrow> bytes \<Rightarrow> pairs \<Rightarrow> pairs" where
  "pairs_delete_range lo hi ps = filter (\<lambda>p. \<not> (lo \<le> fst p \<and> fst p < hi)) ps"

definition pairs_ok :: "pairs \<Rightarrow> bool" where
  "pairs_ok ps \<longleftrightarrow> sorted_wrt (<) (map fst ps)"

section \<open>The store\<close>

datatype batch_op =
    BatchPut bytes bytes
  | BatchDelete bytes
  | BatchDeleteRange bytes bytes
  | BatchPutMeta bytes bytes

record kv_store =
  kv_data :: pairs
  kv_meta :: pairs
  pending_batch :: "batch_op list option"
  kv_closed :: bool

definition ensure_open :: "kv_store \<Rightarrow> exc + unit" where
  "ensure_open s = (if kv_closed s then Inl StoreClosedError else Inr ())"

definition kv_get :: "kv_store \<Rightarrow> bytes \<Rightarrow> exc + bytes option" where
  "kv_get s k = (case ensure_open s of Inl e \<Rightarrow> Inl e | Inr _ \<Rightarrow> Inr (map_of (kv_data s) k))"

definition kv_put :: "bytes \<Rightarrow> bytes \<Rightarrow> kv_store \<Rightarrow> exc + kv_store" where
  "kv_put k v s =
     (case ensure_open s of Inl e \<Rightarrow> Inl e
      | Inr _ \<Rightarrow> (case pending_batch s of
           Some b \<Rightarrow> Inr (s\<lparr>pending_batch := Some (b @ [BatchPut k v])\<rparr>)
         | None \<Rightarrow> Inr (s\<lparr>kv_data := pairs_put k v (kv_data s)\<rparr>)))"

definition kv_delete :: "bytes \<Rightarrow> kv_store \<Rightarrow> exc + kv_store" where
  "kv_delete k s =
     (case ensure_open s of Inl e \<Rightarrow> Inl e
      | Inr _ \<Rightarrow> (case pending_batch s of
           Some b \<Rightarrow> Inr (s\<lparr>pending_batch := Some (b @ [BatchDelete k])\<rparr>)
         | None \<Rightarrow> Inr (s\<lparr>kv_data := pairs_delete k (kv_data s)\<rparr>)))"

definition prefix_end :: "bytes \<Rightarrow> exc + bytes" where
  \<comment> \<open>\<open>prefix[:-1] + bytes([prefix[-1] + 1])\<close>\<close>
  "prefix_end p =
     (if p = [] then Inl IndexError
      else if unat (last p) + 1 > 255 then Inl ValueError
      else Inr (butlast p @ [last p + 1]))"

definition kv_delete_prefix :: "bytes \<Rightarrow> kv_store \<Rightarrow> exc + kv_store" where
  "kv_delete_prefix p s =
     (case prefix_end p of Inl e \<Rightarrow> Inl e
      | Inr hi \<Rightarrow> (case ensure_open s of Inl e \<Rightarrow> Inl e
         | Inr _ \<Rightarrow> (case pending_batch s of
              Some b \<Rightarrow> Inr (s\<lparr>pending_batch := Some (b @ [BatchDeleteRange p hi])\<rparr>)
            | None \<Rightarrow> Inr (s\<lparr>kv_data := pairs_delete_range p hi (kv_data s)\<rparr>))))"

definition kv_get_meta :: "kv_store \<Rightarrow> bytes \<Rightarrow> exc + bytes option" where
  "kv_get_meta s k = (case ensure_open s of Inl e \<Rightarrow> Inl e | Inr _ \<Rightarrow> Inr (map_of (kv_meta s) k))"

definition kv_put_meta :: "bytes \<Rightarrow> bytes \<Rightarrow> kv_store \<Rightarrow> exc + kv_store" where
  "kv_put_meta k v s =
     (case ensure_open s of Inl e \<Rightarrow> Inl e
      | Inr _ \<Rightarrow> (case pending_batch s of
           Some b \<Rightarrow> Inr (s\<lparr>pending_batch := Some (b @ [BatchPutMeta k v])\<rparr>)
         | None \<Rightarrow> Inr (s\<lparr>kv_meta := pairs_put k v (kv_meta s)\<rparr>)))"

definition kv_iter :: "kv_store \<Rightarrow> exc + pairs" where
  "kv_iter s = (case ensure_open s of Inl e \<Rightarrow> Inl e | Inr _ \<Rightarrow> Inr (kv_data s))"

fun walk :: "bytes \<Rightarrow> pairs \<Rightarrow> pairs" where
  \<comment> \<open>\<open>_walk\<close>: ends at the first key without the prefix\<close>
  "walk p [] = []"
| "walk p ((k, v) # ps) = (if \<not> prefix p k then [] else (k, v) # walk p ps)"

definition seek :: "bytes \<Rightarrow> pairs \<Rightarrow> pairs" where
  \<comment> \<open>RocksDB's \<open>seek\<close>: the pairs from the first key not below \<open>p\<close> on\<close>
  "seek p ps = dropWhile (\<lambda>q. fst q < p) ps"

definition scan_prefix :: "bytes \<Rightarrow> kv_store \<Rightarrow> exc + pairs" where
  "scan_prefix p s =
     (case ensure_open s of Inl e \<Rightarrow> Inl e | Inr _ \<Rightarrow> Inr (walk p (seek p (kv_data s))))"

fun apply_batch_op :: "batch_op \<Rightarrow> kv_store \<Rightarrow> kv_store" where
  "apply_batch_op (BatchPut k v) s = s\<lparr>kv_data := pairs_put k v (kv_data s)\<rparr>"
| "apply_batch_op (BatchDelete k) s = s\<lparr>kv_data := pairs_delete k (kv_data s)\<rparr>"
| "apply_batch_op (BatchDeleteRange lo hi) s = s\<lparr>kv_data := pairs_delete_range lo hi (kv_data s)\<rparr>"
| "apply_batch_op (BatchPutMeta k v) s = s\<lparr>kv_meta := pairs_put k v (kv_meta s)\<rparr>"

definition write_batch :: "(kv_store \<Rightarrow> exc option \<times> kv_store) \<Rightarrow> kv_store \<Rightarrow> exc option \<times> kv_store" where
  \<comment> \<open>\<open>with store.write_batch(): body\<close>; the body answers what it raised and the store it left\<close>
  "write_batch body s =
     (case ensure_open s of Inl e \<Rightarrow> (Some e, s)
      | Inr _ \<Rightarrow>
         if pending_batch s \<noteq> None then (Some (RuntimeError ''write_batch does not nest''), s)
         else (case body (s\<lparr>pending_batch := Some []\<rparr>) of
             (Some e, s') \<Rightarrow> (Some e, s'\<lparr>pending_batch := None\<rparr>)
           | (None, s') \<Rightarrow>
               (None, fold apply_batch_op (case pending_batch s' of None \<Rightarrow> [] | Some b \<Rightarrow> b)
                        (s'\<lparr>pending_batch := None\<rparr>))))"

definition kv_close :: "kv_store \<Rightarrow> kv_store" where
  "kv_close s = (if kv_closed s then s else s\<lparr>kv_closed := True\<rparr>)"

definition version_key :: bytes where
  \<comment> \<open>\<open>b"schema-version"\<close>\<close>
  "version_key = [115, 99, 104, 101, 109, 97, 45, 118, 101, 114, 115, 105, 111, 110]"

definition schema_version_bytes :: bytes where
  "schema_version_bytes = [0, 0, 0, 1]"

definition check_schema_version :: "kv_store \<Rightarrow> exc option \<times> kv_store" where
  \<comment> \<open>run by \<open>__init__\<close>: a store of another version is closed and refused\<close>
  "check_schema_version s =
     (let stored = map_of (kv_meta s) version_key in
      if stored = Some schema_version_bytes then (None, s)
      else if stored = None \<and> kv_data s = []
        then (None, s\<lparr>kv_meta := pairs_put version_key schema_version_bytes (kv_meta s)\<rparr>)
      else (Some IncompatibleStoreError, kv_close s))"

definition empty_store :: kv_store where
  "empty_store = \<lparr>kv_data = [], kv_meta = [], pending_batch = None, kv_closed = False\<rparr>"

section \<open>Laws of the contents\<close>

lemma map_of_pairs_put: "map_of (pairs_put k v ps) = (map_of ps)(k \<mapsto> v)"
  by (induction k v ps rule: pairs_put.induct) (auto simp: fun_eq_iff)

lemma keys_pairs_put: "fst ` set (pairs_put k v ps) = insert k (fst ` set ps)"
  by (induction k v ps rule: pairs_put.induct) auto

lemma map_of_pairs_delete: "map_of (pairs_delete k ps) = (map_of ps)(k := None)"
  by (induction ps) (auto simp: pairs_delete_def fun_eq_iff)

lemma map_of_pairs_delete_range:
  "map_of (pairs_delete_range lo hi ps) k = (if lo \<le> k \<and> k < hi then None else map_of ps k)"
  by (induction ps) (auto simp: pairs_delete_range_def)

lemma pairs_ok_put: "pairs_ok ps \<Longrightarrow> pairs_ok (pairs_put k v ps)"
proof (induction k v ps rule: pairs_put.induct)
  case (2 k v k' v' ps)
  show ?case
  proof (cases "k' < k")
    case True
    then have "pairs_put k v ((k', v') # ps) = (k', v') # pairs_put k v ps" by auto
    with 2 True show ?thesis
      using keys_pairs_put [of k v ps] by (auto simp: pairs_ok_def)
  next
    case False
    with 2 show ?thesis by (fastforce simp: pairs_ok_def)
  qed
qed (simp add: pairs_ok_def)

lemma pairs_ok_filter: "pairs_ok ps \<Longrightarrow> pairs_ok (filter P ps)"
  by (induction ps) (auto simp: pairs_ok_def)

lemma pairs_ok_distinct: "pairs_ok ps \<Longrightarrow> distinct (map fst ps)"
  by (simp add: pairs_ok_def strict_sorted_iff)

subsection \<open>Prefixes in key order\<close>

lemma prefix_imp_le: "prefix p k \<Longrightarrow> p \<le> (k :: bytes)"
  by (induction p arbitrary: k) (auto simp: prefix_def)

lemma butlast_last_less:
  "(xs @ [a]) \<le> (k :: bytes) \<Longrightarrow> k < xs @ [b] \<Longrightarrow> prefix xs k"
proof (induction xs arbitrary: k)
  case (Cons x xs)
  then obtain y ys where k: "k = y # ys" by (cases k) auto
  with Cons.prems have "x = y" "xs @ [a] \<le> ys" "ys < xs @ [b]" by auto
  with Cons.IH k show ?case by simp
qed simp

text \<open>The keys with a prefix are a contiguous range: from the prefix up to \<open>prefix_end\<close>.\<close>

lemma prefix_range:
  assumes "prefix_end p = Inr hi"
  shows "prefix p k \<longleftrightarrow> p \<le> k \<and> k < hi"
proof -
  from assms obtain xs a where p: "p = xs @ [a]" and a: "unat a + 1 \<le> 255" and hi: "hi = xs @ [a + 1]"
    by (cases p rule: rev_cases) (auto simp: prefix_end_def split: if_splits)
  have sa: "unat (a + 1) = Suc (unat a)"
    using a by (simp add: unat_word_ariths)
  have step: "xs @ c \<le> xs @ d \<longleftrightarrow> c \<le> d" "xs @ c < xs @ d \<longleftrightarrow> c < d" for c d :: bytes
    by (induction xs) auto
  show ?thesis
  proof
    assume "prefix p k"
    then obtain zs where "k = xs @ a # zs" by (auto simp: p prefix_def)
    moreover have "a < a + 1" by (simp add: word_less_nat_alt sa)
    ultimately show "p \<le> k \<and> k < hi" by (simp add: p hi step)
  next
    assume k: "p \<le> k \<and> k < hi"
    with butlast_last_less [of xs a k "a + 1"] obtain zs where zs: "k = xs @ zs"
      by (auto simp: p hi prefix_def)
    with k have "[a] \<le> zs" "zs < [a + 1]" by (simp_all add: p hi step)
    then obtain b bs where b: "zs = b # bs" "\<not> b < a" "b < a + 1"
      by (cases zs) auto
    then have "b = a" by (simp add: word_less_nat_alt sa less_Suc_eq word_unat_eq_iff)
    with zs b show "prefix p k" by (simp add: p)
  qed
qed

lemma prefix_between:
  assumes "p \<le> k" "k \<le> k'" "prefix p k'"
  shows "prefix p (k :: bytes)"
  using assms
proof (induction p arbitrary: k k')
  case (Cons x xs)
  then obtain zs where k': "k' = x # zs" "prefix xs zs" by (cases k') auto
  with Cons.prems obtain ys where "k = x # ys" "xs \<le> ys" "ys \<le> zs" by (cases k) auto
  with Cons.IH k' show ?case by simp
qed simp

lemma walk_eq_filter:
  assumes "pairs_ok ps" "\<forall>q\<in>set ps. p \<le> fst q"
  shows "walk p ps = filter (\<lambda>q. prefix p (fst q)) ps"
  using assms
proof (induction p ps rule: walk.induct)
  case (2 p k v ps)
  show ?case
  proof (cases "prefix p k")
    case True
    with 2 show ?thesis by (simp add: pairs_ok_def)
  next
    case False
    have "\<not> prefix p (fst q)" if "q \<in> set ps" for q
    proof
      assume "prefix p (fst q)"
      moreover have "k \<le> fst q" using 2(2) that by (auto simp: pairs_ok_def)
      ultimately show False using False prefix_between 2(3) by auto
    qed
    with False show ?thesis by (simp add: filter_empty_conv)
  qed
qed simp

lemma seek_eq_filter: "pairs_ok ps \<Longrightarrow> seek p ps = filter (\<lambda>q. p \<le> fst q) ps"
proof (induction ps)
  case (Cons a ps)
  show ?case
  proof (cases "fst a < p")
    case True
    with Cons show ?thesis by (simp add: seek_def pairs_ok_def)
  next
    case False
    then have "p \<le> fst q" if "q \<in> set (a # ps)" for q
      using Cons.prems that by (fastforce simp: pairs_ok_def)
    then have "filter (\<lambda>q. p \<le> fst q) (a # ps) = a # ps" by (simp add: filter_id_conv)
    with False show ?thesis by (simp only: seek_def) simp
  qed
qed (simp add: seek_def)

lemma scan_prefix_filter:
  assumes "pairs_ok (kv_data s)" "\<not> kv_closed s"
  shows "scan_prefix p s = Inr (filter (\<lambda>q. prefix p (fst q)) (kv_data s))"
proof -
  have "walk p (filter (\<lambda>q. p \<le> fst q) (kv_data s))
      = filter (\<lambda>q. prefix p (fst q)) (filter (\<lambda>q. p \<le> fst q) (kv_data s))"
    using assms by (intro walk_eq_filter) (simp_all add: pairs_ok_filter)
  also have "\<dots> = filter (\<lambda>q. prefix p (fst q)) (kv_data s)"
    by (auto simp: filter_filter intro: filter_cong dest: prefix_imp_le)
  finally show ?thesis
    using assms by (simp add: scan_prefix_def ensure_open_def seek_eq_filter)
qed

section \<open>Sequences of writes\<close>

text \<open>What the callers of a batch do inside it: the four writing methods, in any order.\<close>

datatype kv_op =
    WPut bytes bytes
  | WDelete bytes
  | WDeletePrefix bytes
  | WPutMeta bytes bytes

fun kv_write :: "kv_op \<Rightarrow> kv_store \<Rightarrow> exc + kv_store" where
  "kv_write (WPut k v) s = kv_put k v s"
| "kv_write (WDelete k) s = kv_delete k s"
| "kv_write (WDeletePrefix p) s = kv_delete_prefix p s"
| "kv_write (WPutMeta k v) s = kv_put_meta k v s"

fun kv_writes :: "kv_op list \<Rightarrow> kv_store \<Rightarrow> exc option \<times> kv_store" where
  "kv_writes [] s = (None, s)"
| "kv_writes (w # ws) s =
     (case kv_write w s of Inl e \<Rightarrow> (Some e, s) | Inr s' \<Rightarrow> kv_writes ws s')"

lemmas kv_write_defs = kv_put_def kv_delete_def kv_delete_prefix_def kv_put_meta_def ensure_open_def

text \<open>A write in a batch stages exactly one operation, whose effect is that of the direct write.\<close>

lemma kv_write_staged:
  assumes "pending_batch s = Some b" "kv_write w s = Inr s'"
  shows "\<exists>x. s' = s\<lparr>pending_batch := Some (b @ [x])\<rparr>
    \<and> (\<forall>t. kv_closed t = kv_closed s \<longrightarrow> pending_batch t = None \<longrightarrow> kv_write w t = Inr (apply_batch_op x t))"
  using assms by (cases w) (auto simp: kv_write_defs split: sum.splits if_splits)

lemma kv_write_direct:
  assumes "pending_batch s = None" "kv_write w s = Inr s'"
  shows "pending_batch s' = None \<and> kv_closed s' = kv_closed s"
  using assms by (cases w) (auto simp: kv_write_defs split: sum.splits if_splits)

lemma kv_write_error_same:
  assumes "kv_write w s = Inl e" "kv_closed t = kv_closed s"
  shows "kv_write w t = Inl e"
  using assms by (cases w) (auto simp: kv_write_defs split: sum.splits if_splits option.splits)

lemma kv_writes_batch:
  assumes "pending_batch s = Some b" "kv_writes ws s = (r, s')"
  shows "\<exists>xs. s' = s\<lparr>pending_batch := Some (b @ xs)\<rparr>
    \<and> (\<forall>t. kv_closed t = kv_closed s \<longrightarrow> pending_batch t = None \<longrightarrow>
          kv_writes ws t = (r, fold apply_batch_op xs t))"
  using assms
proof (induction ws arbitrary: s b)
  case Nil
  then have "s' = s\<lparr>pending_batch := Some (b @ [])\<rparr>" by simp
  with Nil show ?case by (intro exI [of _ "[]"]) simp
next
  case (Cons w ws)
  show ?case
  proof (cases "kv_write w s")
    case (Inl e)
    with Cons.prems show ?thesis
      by (intro exI [of _ "[]"]) (auto dest: kv_write_error_same)
  next
    case (Inr s1)
    from kv_write_staged [OF Cons.prems(1) Inr] obtain x where
      x: "s1 = s\<lparr>pending_batch := Some (b @ [x])\<rparr>"
      and direct: "\<And>t. kv_closed t = kv_closed s \<Longrightarrow> pending_batch t = None \<Longrightarrow>
                     kv_write w t = Inr (apply_batch_op x t)" by blast
    from Cons.prems(2) Inr have "kv_writes ws s1 = (r, s')" by simp
    with Cons.IH [of s1 "b @ [x]"] x obtain xs where
      xs: "s' = s1\<lparr>pending_batch := Some ((b @ [x]) @ xs)\<rparr>"
      and rest: "\<And>t. kv_closed t = kv_closed s1 \<Longrightarrow> pending_batch t = None \<Longrightarrow>
                   kv_writes ws t = (r, fold apply_batch_op xs t)" by auto
    have "kv_writes (w # ws) t = (r, fold apply_batch_op (x # xs) t)"
      if t: "kv_closed t = kv_closed s" "pending_batch t = None" for t
      using direct [OF t] kv_write_direct [OF t(2) direct [OF t]] rest [of "apply_batch_op x t"] t x
      by simp
    with xs x show ?thesis by (intro exI [of _ "x # xs"]) simp
  qed
qed

lemma fold_apply_batch_op_closed: "kv_closed (fold apply_batch_op xs s) = kv_closed s"
proof (induction xs arbitrary: s)
  case (Cons x xs)
  then show ?case by (cases x) simp_all
qed simp

lemma kv_write_pairs_ok:
  assumes "kv_write w s = Inr s'" "pairs_ok (kv_data s)" "pairs_ok (kv_meta s)"
  shows "pairs_ok (kv_data s') \<and> pairs_ok (kv_meta s')"
  using assms
  by (cases w) (auto simp: kv_write_defs pairs_ok_put pairs_delete_def pairs_delete_range_def
      pairs_ok_filter split: sum.splits if_splits option.splits)

section \<open>The contract a client relies on\<close>

text \<open>
  What the block index needs of a store: a put that succeeds is what a later get of that key
  answers, and no other key changes.
\<close>

locale put_get_store =
  fixes ready :: "'s \<Rightarrow> bool"
    and get :: "'s \<Rightarrow> 'k \<Rightarrow> 'v option"
    and put :: "'k \<Rightarrow> 'v \<Rightarrow> 's \<Rightarrow> 's option"
  assumes put_ready: "ready s \<Longrightarrow> \<exists>s'. put k v s = Some s' \<and> ready s'"
    and get_put: "ready s \<Longrightarrow> put k v s = Some s' \<Longrightarrow> get s' k' = (if k' = k then Some v else get s k')"
begin

lemma put_all:
  assumes "ready s"
  shows "\<exists>s'. fold_opt (\<lambda>p. put (fst p) (snd p)) ps s = Some s' \<and> ready s'
      \<and> (\<forall>k. get s' k = (case map_of (rev ps) k of Some v \<Rightarrow> Some v | None \<Rightarrow> get s k))"
  using assms
proof (induction ps arbitrary: s)
  case Nil
  then show ?case by simp
next
  case (Cons p ps)
  obtain s1 where s1: "put (fst p) (snd p) s = Some s1" "ready s1"
    using put_ready [OF Cons.prems] by blast
  from Cons.IH [OF s1(2)] obtain s2 where
    s2: "fold_opt (\<lambda>p. put (fst p) (snd p)) ps s1 = Some s2" "ready s2"
    "\<forall>k. get s2 k = (case map_of (rev ps) k of Some v \<Rightarrow> Some v | None \<Rightarrow> get s1 k)" by blast
  moreover have "get s1 k = (if k = fst p then Some (snd p) else get s k)" for k
    using get_put [OF Cons.prems s1(1)] .
  ultimately show ?case
    using s1 by (cases p) (auto simp: map_add_def split: option.splits)
qed

end

definition store_open :: "kv_store \<Rightarrow> bool" where
  "store_open s \<longleftrightarrow> \<not> kv_closed s \<and> pending_batch s = None"

definition store_get :: "kv_store \<Rightarrow> bytes \<Rightarrow> bytes option" where
  "store_get s k = map_of (kv_data s) k"

definition store_put :: "bytes \<Rightarrow> bytes \<Rightarrow> kv_store \<Rightarrow> kv_store option" where
  "store_put k v s = (case kv_put k v s of Inl _ \<Rightarrow> None | Inr s' \<Rightarrow> Some s')"

interpretation kv: put_get_store store_open store_get store_put
  by unfold_locales
    (auto simp: store_open_def store_get_def store_put_def kv_put_def ensure_open_def
      map_of_pairs_put)

end
