(* ===== verification/Store_Properties.thy ===== *)
theory Store_Properties
  imports Key_Value_Store
begin

text \<open>
  The properties of the key-value store: what a prefix walk answers, what a prefix delete
  removes, and that a batch is all of its writes or none.
\<close>

definition demo_store :: kv_store where
  "demo_store = \<lparr>kv_data = [([1], [7]), ([2, 5], [8]), ([2, 255], [9]), ([3], [6])], kv_meta = [],
     pending_batch = None, kv_closed = False\<rparr>"

text \<open>A prefix walk of an open store whose pairs are in key order answers exactly the pairs whose
  key has the prefix, in key order, though it looks at no key past the first without it.
\<close>

lemma scan_prefix_exact:
  assumes "pairs_ok (kv_data s)" "\<not> kv_closed s"
  shows "\<exists>ps. scan_prefix p s = Inr ps \<and> sorted_wrt (<) (map fst ps)
    \<and> (\<forall>k v. (k, v) \<in> set ps \<longleftrightarrow> prefix p k \<and> store_get s k = Some v)"
proof -
  let ?ps = "filter (\<lambda>q. prefix p (fst q)) (kv_data s)"
  have "(k, v) \<in> set ?ps \<longleftrightarrow> prefix p k \<and> store_get s k = Some v" for k v
    using map_of_Some_iff_mem [OF pairs_ok_distinct [OF assms(1)], of k v] by (auto simp: store_get_def)
  moreover have "sorted_wrt (<) (map fst ?ps)"
    using pairs_ok_filter [OF assms(1)] by (simp add: pairs_ok_def)
  ultimately show ?thesis using scan_prefix_filter [OF assms] by blast
qed

lemma scan_prefix_exact_witness:
  "\<exists>ps. scan_prefix [2] demo_store = Inr ps \<and> ([2, 255], [9]) \<in> set ps \<and> ([3], [6]) \<notin> set ps"
  using scan_prefix_exact [of demo_store "[2]"]
  by (auto simp: demo_store_def pairs_ok_def store_get_def)

text \<open>
  Deleting a prefix whose last octet is not 255 removes exactly the keys that have it and
  keeps every other pair; the empty prefix and one ending in 255 are refused, before the store is
  touched.
\<close>

lemma delete_prefix_exact:
  "(p \<noteq> [] \<and> last p \<noteq> 255 \<and> store_open s \<longrightarrow>
      (\<exists>s'. kv_delete_prefix p s = Inr s'
         \<and> (\<forall>k. store_get s' k = (if prefix p k then None else store_get s k))))
   \<and> (p = [] \<longrightarrow> kv_delete_prefix p s = Inl IndexError)
   \<and> (p \<noteq> [] \<and> last p = 255 \<longrightarrow> kv_delete_prefix p s = Inl ValueError)"
proof (intro conjI impI)
  assume a: "p \<noteq> [] \<and> last p \<noteq> 255 \<and> store_open s"
  have "unat (last p) \<noteq> 255"
  proof
    assume "unat (last p) = 255"
    then have "of_nat (unat (last p)) = (255 :: 8 word)" by simp
    with a show False by simp
  qed
  moreover have "unat (last p) < 256" using unsigned_less [of "last p"] by simp
  ultimately have e: "prefix_end p = Inr (butlast p @ [last p + 1])"
    using a by (simp add: prefix_end_def)
  with a have "kv_delete_prefix p s = Inr (s\<lparr>kv_data :=
      pairs_delete_range p (butlast p @ [last p + 1]) (kv_data s)\<rparr>)"
    by (simp add: kv_delete_prefix_def ensure_open_def store_open_def)
  with prefix_range [OF e] show "\<exists>s'. kv_delete_prefix p s = Inr s'
         \<and> (\<forall>k. store_get s' k = (if prefix p k then None else store_get s k))"
    by (simp add: store_get_def map_of_pairs_delete_range)
qed (auto simp: kv_delete_prefix_def prefix_end_def)

lemma delete_prefix_exact_witness:
  "\<exists>s'. kv_delete_prefix [2] demo_store = Inr s' \<and> store_get s' [2, 255] = None
     \<and> store_get s' [3] = Some [6]"
  using delete_prefix_exact [of "[2]" demo_store]
  by (auto simp: demo_store_def store_open_def store_get_def)

text \<open>
  C10. A batch of writes on an open store ends as the same writes made one by one directly: the
  same contents where all of them succeed, and where one raises, the same error with the contents
  of the store as they were before the batch.
\<close>

theorem write_batch_all_or_nothing:
  assumes "store_open s" "kv_writes ws s = (r, direct)"
  shows "write_batch (kv_writes ws) s = (case r of None \<Rightarrow> (None, direct) | Some e \<Rightarrow> (Some e, s))"
proof -
  have op: "\<not> kv_closed s" "pending_batch s = None" using assms(1) by (simp_all add: store_open_def)
  obtain r' s' where run: "kv_writes ws (s\<lparr>pending_batch := Some []\<rparr>) = (r', s')" by fastforce
  from kv_writes_batch [OF _ run, of "[]"] obtain xs where
    xs: "s' = s\<lparr>pending_batch := Some xs\<rparr>"
    and direct: "kv_writes ws s = (r', fold apply_batch_op xs s)" using op by auto
  have none: "s\<lparr>pending_batch := None\<rparr> = s" using op(2) by simp
  show ?thesis
    using op run xs direct assms(2)
    by (cases r) (auto simp: write_batch_def ensure_open_def none)
qed

theorem write_batch_all_or_nothing_witness:
  "write_batch (kv_writes [WPut [2] [4], WDeletePrefix [2, 255]]) demo_store = (Some ValueError, demo_store)"
proof -
  have "kv_writes [WPut [2] [4], WDeletePrefix [2, 255]] demo_store
      = (Some ValueError, demo_store\<lparr>kv_data := pairs_put [2] [4] (kv_data demo_store)\<rparr>)"
    by (simp add: demo_store_def kv_put_def kv_delete_prefix_def prefix_end_def ensure_open_def)
  from write_batch_all_or_nothing [OF _ this] show ?thesis
    by (simp add: demo_store_def store_open_def)
qed

text \<open>
  A closed store answers every access with the store's own error, reads, writes, walks and
  batches alike, and is left as it is; closing twice is closing once.
\<close>

lemma closed_store_refuses:
  "(\<forall>k w. kv_get (kv_close s) k = Inl StoreClosedError \<and> kv_get_meta (kv_close s) k = Inl StoreClosedError
      \<and> (\<exists>e. kv_write w (kv_close s) = Inl e))
   \<and> kv_iter (kv_close s) = Inl StoreClosedError
   \<and> scan_prefix p (kv_close s) = Inl StoreClosedError
   \<and> write_batch body (kv_close s) = (Some StoreClosedError, kv_close s)
   \<and> kv_close (kv_close s) = kv_close s"
proof -
  have c: "kv_closed (kv_close s)" by (simp add: kv_close_def)
  have "\<exists>e. kv_write w (kv_close s) = Inl e" for w
    using c by (cases w) (auto simp: kv_write_defs split: sum.splits)
  with c show ?thesis
    by (simp add: kv_get_def kv_get_meta_def kv_iter_def scan_prefix_def write_batch_def ensure_open_def)
      (simp add: kv_close_def)
qed

end
