(* ===== verification/Block_Tree.thy ===== *)
theory Block_Tree
  imports Prelude
begin

text \<open>
  The tree of headers, as an interface.  A provider (the block index) promises that every
  known block but the root has a known parent one height below, and that there is one root.
  The clients (skip pointers, fork points, locators, the availability of a peer's blocks)
  use the lemmas on ancestors and chains proved here once.
\<close>

definition anc_at :: "('h \<Rightarrow> 'h) \<Rightarrow> ('h \<Rightarrow> int) \<Rightarrow> 'h \<Rightarrow> int \<Rightarrow> 'h" where
  \<comment> \<open>the ancestor of \<open>h\<close> at height \<open>k\<close>, by parents alone\<close>
  "anc_at par ht h k = (par ^^ nat (ht h - k)) h"

definition is_anc :: "('h \<Rightarrow> 'h) \<Rightarrow> ('h \<Rightarrow> int) \<Rightarrow> 'h \<Rightarrow> 'h \<Rightarrow> bool" where
  \<comment> \<open>\<open>a\<close> is \<open>h\<close> or one of its ancestors\<close>
  "is_anc par ht a h \<longleftrightarrow> ht a \<le> ht h \<and> anc_at par ht h (ht a) = a"

definition chain_of :: "('h \<Rightarrow> bool) \<Rightarrow> ('h \<Rightarrow> 'h) \<Rightarrow> ('h \<Rightarrow> int) \<Rightarrow> 'h list \<Rightarrow> bool" where
  \<comment> \<open>a list of blocks from the root up, each the parent of the next\<close>
  "chain_of known par ht xs \<longleftrightarrow> xs \<noteq> []
     \<and> (\<forall>i < length xs. known (xs ! i) \<and> ht (xs ! i) = int i)
     \<and> (\<forall>i. Suc i < length xs \<longrightarrow> par (xs ! Suc i) = xs ! i)"

locale block_tree =
  fixes inv :: "'s \<Rightarrow> bool"
    and known :: "'s \<Rightarrow> 'h \<Rightarrow> bool"
    and height :: "'s \<Rightarrow> 'h \<Rightarrow> int"
    and parent :: "'s \<Rightarrow> 'h \<Rightarrow> 'h"
  assumes height_nonneg: "inv s \<Longrightarrow> known s h \<Longrightarrow> 0 \<le> height s h"
    and known_parent: "inv s \<Longrightarrow> known s h \<Longrightarrow> height s h \<noteq> 0 \<Longrightarrow> known s (parent s h)"
    and height_parent: "inv s \<Longrightarrow> known s h \<Longrightarrow> height s h \<noteq> 0 \<Longrightarrow> height s (parent s h) = height s h - 1"
    and root_unique: "inv s \<Longrightarrow> known s h \<Longrightarrow> known s h' \<Longrightarrow> height s h = 0 \<Longrightarrow> height s h' = 0 \<Longrightarrow> h = h'"
begin

lemma anc_self: "anc_at (parent s) (height s) h (height s h) = h"
  by (simp add: anc_at_def)

lemma anc_parent:
  assumes "inv s" "known s h" "0 \<le> k" "k < height s h"
  shows "anc_at (parent s) (height s) h k = anc_at (parent s) (height s) (parent s h) k"
proof -
  from assms have "height s h \<noteq> 0" by simp
  with assms have "nat (height s h - k) = Suc (nat (height s (parent s h) - k))"
    by (simp add: height_parent)
  then show ?thesis by (simp add: anc_at_def funpow_swap1)
qed

lemma anc_known_height:
  assumes "inv s" "known s h" "0 \<le> k" "k \<le> height s h"
  shows "known s (anc_at (parent s) (height s) h k) \<and> height s (anc_at (parent s) (height s) h k) = k"
  using assms(2,4)
proof (induction "nat (height s h - k)" arbitrary: h)
  case 0
  then have "k = height s h" by simp
  with 0 show ?case by (simp add: anc_self)
next
  case (Suc n)
  then have lt: "k < height s h" by simp
  with assms(3) have nz: "height s h \<noteq> 0" by simp
  have "n = nat (height s (parent s h) - k)"
    using Suc.hyps(2) assms(1) Suc.prems nz by (simp add: height_parent)
  with Suc.hyps(1) [of "parent s h"] show ?case
    using assms lt nz Suc.prems by (simp add: anc_parent known_parent height_parent)
qed

lemma anc_anc:
  assumes "inv s" "known s h" "0 \<le> j" "j \<le> k" "k \<le> height s h"
  shows "anc_at (parent s) (height s) (anc_at (parent s) (height s) h k) j
       = anc_at (parent s) (height s) h j"
proof -
  have ht: "height s (anc_at (parent s) (height s) h k) = k"
    using assms anc_known_height by simp
  have "nat (height s h - j) = nat (k - j) + nat (height s h - k)" using assms by simp
  then show ?thesis
    unfolding anc_at_def [of _ _ "anc_at (parent s) (height s) h k"] ht
    by (simp add: anc_at_def funpow_add)
qed

lemma anc_root_eq:
  assumes "inv s" "known s h" "known s h'"
  shows "anc_at (parent s) (height s) h 0 = anc_at (parent s) (height s) h' 0"
  using assms anc_known_height [of s h 0] anc_known_height [of s h' 0]
  by (intro root_unique) (auto intro: height_nonneg)

lemma is_anc_refl: "is_anc (parent s) (height s) h h"
  by (simp add: is_anc_def anc_self)

lemma is_anc_trans:
  assumes "inv s" "known s c" "known s a"
    and "is_anc (parent s) (height s) a b" "is_anc (parent s) (height s) b c" "known s b"
  shows "is_anc (parent s) (height s) a c"
  using assms anc_anc [of s c "height s a" "height s b"] height_nonneg [of s a]
  by (auto simp: is_anc_def)

lemma is_anc_anc:
  assumes "inv s" "known s h" "0 \<le> k" "k \<le> height s h"
  shows "is_anc (parent s) (height s) (anc_at (parent s) (height s) h k) h"
  using assms by (simp add: is_anc_def anc_known_height)

lemma is_anc_parent:
  assumes "inv s" "known s h" "height s h \<noteq> 0"
  shows "is_anc (parent s) (height s) (parent s h) h"
proof -
  from assms have lt: "height s (parent s h) < height s h" by (simp add: height_parent)
  have "0 \<le> height s (parent s h)" using assms by (simp add: height_nonneg known_parent)
  with assms lt anc_parent [of s h "height s (parent s h)"] show ?thesis
    by (simp add: is_anc_def anc_self)
qed

text \<open>An ancestor of \<open>h\<close> is \<open>h\<close> itself or an ancestor of its parent.\<close>

lemma is_anc_cases:
  assumes "inv s" "known s h" "known s a" "is_anc (parent s) (height s) a h" "a \<noteq> h"
  shows "height s h \<noteq> 0 \<and> is_anc (parent s) (height s) a (parent s h)"
proof -
  have ge: "0 \<le> height s a" using assms height_nonneg by blast
  have lt: "height s a < height s h"
    using assms by (metis anc_self is_anc_def order_le_imp_less_or_eq)
  with ge assms anc_parent [of s h "height s a"] show ?thesis
    by (auto simp: is_anc_def height_parent)
qed

text \<open>Where two blocks share an ancestor at a height, they share every one below it.\<close>

lemma anc_eq_below:
  assumes "inv s" "known s a" "known s b" "0 \<le> j" "j \<le> k" "k \<le> height s a" "k \<le> height s b"
    and "anc_at (parent s) (height s) a k = anc_at (parent s) (height s) b k"
  shows "anc_at (parent s) (height s) a j = anc_at (parent s) (height s) b j"
  using assms by (metis anc_anc)

subsection \<open>Chains\<close>

lemma chain_of_anc:
  assumes "inv s" "chain_of (known s) (parent s) (height s) xs" "i < length xs"
  shows "xs ! i = anc_at (parent s) (height s) (last xs) (int i)"
  using assms(3)
proof (induction "length xs - 1 - i" arbitrary: i)
  case 0
  then have i: "i = length xs - 1" by simp
  from assms(2) have ne: "xs \<noteq> []" by (simp add: chain_of_def)
  then have l: "last xs = xs ! i" using i by (simp add: last_conv_nth)
  have "height s (xs ! i) = int i" using assms(2) 0 by (simp add: chain_of_def)
  then show ?case using anc_self [of s "xs ! i"] by (simp add: l)
next
  case (Suc n)
  then have si: "Suc i < length xs" "n = length xs - 1 - Suc i" by simp_all
  have ne: "xs \<noteq> []" using si by auto
  have kl: "known s (last xs)" "height s (last xs) = int (length xs - 1)"
    using assms(2) ne by (auto simp: chain_of_def last_conv_nth)
  have IH: "xs ! Suc i = anc_at (parent s) (height s) (last xs) (int (Suc i))"
    using Suc.hyps(1) si by blast
  have h: "height s (xs ! Suc i) = int (Suc i)" "known s (xs ! Suc i)"
    "parent s (xs ! Suc i) = xs ! i" "height s (xs ! i) = int i"
    using assms(2) si by (auto simp: chain_of_def)
  have "xs ! i = anc_at (parent s) (height s) (xs ! i) (int i)"
    using anc_self [of s "xs ! i"] by (simp add: h)
  also have "\<dots> = anc_at (parent s) (height s) (xs ! Suc i) (int i)"
    using anc_parent [of s "xs ! Suc i" "int i"] assms(1) h by simp
  also have "\<dots> = anc_at (parent s) (height s) (last xs) (int i)"
    using anc_anc [of s "last xs" "int i" "int (Suc i)"] IH kl si assms(1) by simp
  finally show ?case .
qed

lemma chain_of_last:
  assumes "chain_of (known s) (parent s) (height s) xs"
  shows "known s (last xs)" "height s (last xs) = int (length xs) - 1"
proof -
  from assms have "xs \<noteq> []" by (simp add: chain_of_def)
  moreover from this have "int (length xs - 1) = int (length xs) - 1" by (simp add: Suc_leI)
  ultimately show "known s (last xs)" "height s (last xs) = int (length xs) - 1"
    using assms by (auto simp: chain_of_def last_conv_nth)
qed

lemma chain_of_mem_iff:
  assumes "inv s" "chain_of (known s) (parent s) (height s) xs" "known s h"
  shows "h \<in> set xs \<longleftrightarrow> is_anc (parent s) (height s) h (last xs)"
proof
  assume "h \<in> set xs"
  then obtain i where i: "i < length xs" "xs ! i = h" by (auto simp: in_set_conv_nth)
  then have "height s h = int i" using assms(2) by (auto simp: chain_of_def)
  then show "is_anc (parent s) (height s) h (last xs)"
    using chain_of_anc [OF assms(1,2) i(1)] chain_of_last [OF assms(2)] i by (simp add: is_anc_def)
next
  assume a: "is_anc (parent s) (height s) h (last xs)"
  have "0 \<le> height s h" using assms height_nonneg by blast
  moreover have "height s h < int (length xs)"
    using a chain_of_last [OF assms(2)] by (simp add: is_anc_def)
  ultimately have lt: "nat (height s h) < length xs" and e: "int (nat (height s h)) = height s h"
    by simp_all
  have "xs ! nat (height s h) = h"
    using chain_of_anc [OF assms(1,2) lt] a unfolding e is_anc_def by simp
  with lt show "h \<in> set xs" by (metis nth_mem)
qed

lemma chain_of_distinct:
  assumes "chain_of (known s) (parent s) (height s) xs"
  shows "distinct xs"
  unfolding distinct_conv_nth
proof (intro allI impI)
  fix i j assume ij: "i < length xs" "j < length xs" "i \<noteq> j"
  have "height s (xs ! i) = int i" "height s (xs ! j) = int j"
    using assms ij by (simp_all add: chain_of_def)
  with ij show "xs ! i \<noteq> xs ! j" by auto
qed

lemma chain_of_take:
  assumes "chain_of (known s) (parent s) (height s) xs" "0 < n"
  shows "chain_of (known s) (parent s) (height s) (take n xs)"
  using assms by (auto simp: chain_of_def)

lemma chain_of_snoc:
  assumes "chain_of (known s) (parent s) (height s) xs"
    and "known s h" "height s h = int (length xs)" "parent s h = last xs"
  shows "chain_of (known s) (parent s) (height s) (xs @ [h])"
proof -
  have "parent s ((xs @ [h]) ! Suc i) = (xs @ [h]) ! i" if i: "Suc i < length (xs @ [h])" for i
  proof (cases "Suc i < length xs")
    case True
    with assms(1) show ?thesis by (simp add: chain_of_def nth_append)
  next
    case False
    with i have "Suc i = length xs" by simp
    moreover from this have "i = length xs - 1" "xs \<noteq> []" by auto
    ultimately show ?thesis using assms(4) by (simp add: nth_append last_conv_nth)
  qed
  with assms(1-3) show ?thesis by (auto simp: chain_of_def nth_append less_Suc_eq)
qed

text \<open>A chain is determined by its last block.\<close>

lemma chain_of_unique:
  assumes "inv s" "chain_of (known s) (parent s) (height s) xs"
    and "chain_of (known s) (parent s) (height s) ys" "last xs = last ys"
  shows "xs = ys"
proof (rule nth_equalityI)
  show "length xs = length ys"
    using chain_of_last(2) [OF assms(2)] chain_of_last(2) [OF assms(3)] assms(4) by simp
  then show "xs ! i = ys ! i" if "i < length xs" for i
    using that chain_of_anc [OF assms(1,2), of i] chain_of_anc [OF assms(1,3), of i] assms(4) by simp
qed

end

end
