(* ===== verification/Block_Index.thy ===== *)
theory Block_Index
  imports Block_Tree Key_Value_Store
begin

unbundle bit_operations_syntax

text \<open>
  \<open>chainstate/block_index.py\<close>: every header the node has seen, and which chain among them is
  active.  This theory holds the data, the state and the operations; the theories
  Index_Ancestor, Index_Headers and Index_Status hold what is proved of them.

  btclib is a third-party package: what the code calls of it (the proof of work of a header, the
  required target, the median time, a block's work, the wire format of a header) is a field of
  the record \<open>btclib\<close>, an argument of every operation that uses it.  An operation that reads a
  missing key raises KeyError in Python and is \<open>None\<close> here.  Log lines are left out.
\<close>

section \<open>Data\<close>

record header =
  hdr_hash :: bytes
  hdr_prev :: bytes
  hdr_bits :: bytes
  hdr_version :: int
  hdr_timestamp :: real

record consensus =
  bip34_height :: int
  bip66_height :: int
  bip65_height :: int

record chain_params =
  genesis :: header
  pow_limit_bits :: bytes
  consensus_of :: consensus

record btclib =
  valid_pow :: "header \<Rightarrow> bytes \<Rightarrow> bool"
  block_work :: "bytes \<Rightarrow> int"
  next_bits_required :: "header \<Rightarrow> header \<Rightarrow> int \<Rightarrow> (header \<Rightarrow> header option) \<Rightarrow> bytes option"
  median_time_past :: "header \<Rightarrow> int \<Rightarrow> (header \<Rightarrow> header option) \<Rightarrow> int option"
  not_timewarp :: "header \<Rightarrow> header \<Rightarrow> int \<Rightarrow> bool"
  valid_time :: "header \<Rightarrow> real \<Rightarrow> bool"
  header_serialize :: "header \<Rightarrow> bytes"
  header_parse :: "bool \<Rightarrow> bytes \<Rightarrow> (header \<times> bytes) option"
  var_int_serialize :: "int \<Rightarrow> bytes"
  var_int_parse :: "bytes \<Rightarrow> (int \<times> bytes) option"

datatype block_status = ValidHeader | Invalid | Valid | InActiveChain

record block_info =
  bi_header :: header
  bi_index :: int
  bi_status :: block_status
  bi_downloaded :: bool

record block_index =
  db :: kv_store
  chain :: chain_params
  header_dict :: "(bytes, block_info) dict"
  chainwork :: "bytes \<rightharpoonup> int"
  skip :: "bytes \<rightharpoonup> bytes"
  active_chain :: "bytes list"
  block_candidates :: "(bytes \<times> int) list"
  header_index :: "bytes list"
  header_index_pos :: "bytes \<rightharpoonup> int"
  children :: "bytes \<rightharpoonup> bytes list"
  pending :: "(bytes, block_info) dict"
  best_invalid :: "bytes option"
  sequence_id :: "bytes \<rightharpoonup> int"
  next_sequence_id :: int
  precious_sequence_id :: int
  precious_chainwork :: int
  unlinked :: "bytes \<rightharpoonup> bytes list"
  sorted_header_dict :: "bytes list"

section \<open>Headers on their own\<close>

definition calculate_work :: "btclib \<Rightarrow> header \<Rightarrow> int" where
  "calculate_work L h = block_work L (hdr_bits h)"

definition invert_lowest_one :: "int \<Rightarrow> int" where
  "invert_lowest_one n = n AND (n - 1)"

definition skip_height :: "int \<Rightarrow> int" where
  "skip_height height =
     (if height < 2 then 0
      else if height AND 1 \<noteq> 0
        then invert_lowest_one (invert_lowest_one (height - 1)) + 1
      else invert_lowest_one height)"

definition block_time :: "header \<Rightarrow> int" where
  \<comment> \<open>\<open>int(timestamp)\<close> truncates towards zero\<close>
  "block_time h = (if 0 \<le> hdr_timestamp h then \<lfloor>hdr_timestamp h\<rfloor> else \<lceil>hdr_timestamp h\<rceil>)"

definition assert_valid_pow :: "btclib \<Rightarrow> header \<Rightarrow> bytes \<Rightarrow> exc + unit" where
  "assert_valid_pow L h limit =
     (if valid_pow L h limit then Inr () else Inl (MisbehavingError ''high-hash''))"

fun assert_continuous :: "header list \<Rightarrow> exc + unit" where
  "assert_continuous (p # h # hs) =
     (if hdr_prev h \<noteq> hdr_hash p then Inl (MisbehavingError ''non-continuous headers sequence'')
      else assert_continuous (h # hs))"
| "assert_continuous hs = Inr ()"

fun check_pow_loop :: "btclib \<Rightarrow> header list \<Rightarrow> bytes \<Rightarrow> exc + unit" where
  "check_pow_loop L [] limit = Inr ()"
| "check_pow_loop L (h # hs) limit =
     (case assert_valid_pow L h limit of Inl e \<Rightarrow> Inl e | Inr _ \<Rightarrow> check_pow_loop L hs limit)"

definition check_headers_pow :: "btclib \<Rightarrow> header list \<Rightarrow> bytes \<Rightarrow> exc + unit" where
  "check_headers_pow L hs limit =
     (case check_pow_loop L hs limit of Inl e \<Rightarrow> Inl e | Inr _ \<Rightarrow> assert_continuous hs)"

definition hex_digit :: "int \<Rightarrow> char" where
  "hex_digit d = ''0123456789abcdef'' ! nat (d mod 16)"

definition hex8 :: "int \<Rightarrow> string" where
  \<comment> \<open>the format \<open>08x\<close> of a number below \<open>2 ^ 32\<close>\<close>
  "hex8 n = map (\<lambda>i. hex_digit (drop_bit (4 * i) n)) [7, 6, 5, 4, 3, 2, 1, 0]"

fun assert_version :: "int \<Rightarrow> int \<Rightarrow> (int \<times> int) list \<Rightarrow> exc + unit" where
  "assert_version v parent_height [] = Inr ()"
| "assert_version v parent_height ((least, binds_at) # rows) =
     (if v < least \<and> parent_height + 1 \<ge> binds_at
      then Inl (MisbehavingError (''bad-version(0x'' @ hex8 (v AND 0xFFFFFFFF) @ '')''))
      else assert_version v parent_height rows)"

definition assert_valid_in_context ::
  "btclib \<Rightarrow> chain_params \<Rightarrow> header \<Rightarrow> header \<Rightarrow> int \<Rightarrow> (header \<Rightarrow> header option) \<Rightarrow> real \<Rightarrow> exc + unit" where
  "assert_valid_in_context L c h p parent_height parent_of now =
     (case next_bits_required L h p parent_height parent_of of
        None \<Rightarrow> Inl KeyError
      | Some required \<Rightarrow>
        if hdr_bits h \<noteq> required then Inl (MisbehavingError ''bad-diffbits'')
        else (case median_time_past L p parent_height parent_of of
            None \<Rightarrow> Inl KeyError
          | Some median \<Rightarrow>
            if block_time h \<le> median then Inl (MisbehavingError ''time-too-old'')
            else if \<not> not_timewarp L h p parent_height
              then Inl (MisbehavingError ''time-timewarp-attack'')
            else if \<not> valid_time L h now then Inl (BTClibValueError ''time-too-new'')
            else assert_version (hdr_version h) parent_height
                   [(2, bip34_height (consensus_of c)), (3, bip66_height (consensus_of c)),
                    (4, bip65_height (consensus_of c))]))"

section \<open>The stored record\<close>

definition status_number :: "block_status \<Rightarrow> 8 word" where
  "status_number st = (case st of ValidHeader \<Rightarrow> 1 | Invalid \<Rightarrow> 2 | Valid \<Rightarrow> 3 | InActiveChain \<Rightarrow> 4)"

definition status_of_number :: "8 word \<Rightarrow> block_status option" where
  "status_of_number n =
     (if n = 1 then Some ValidHeader else if n = 2 then Some Invalid
      else if n = 3 then Some Valid else if n = 4 then Some InActiveChain else None)"

definition read_byte :: "bytes \<Rightarrow> 8 word \<times> bytes" where
  \<comment> \<open>\<open>int.from_bytes(stream.read(1), "little")\<close>: 0 at the end of the stream\<close>
  "read_byte bs = (case bs of [] \<Rightarrow> (0, []) | b # bs' \<Rightarrow> (b, bs'))"

definition block_info_serialize :: "btclib \<Rightarrow> block_info \<Rightarrow> bytes" where
  "block_info_serialize L bi =
     header_serialize L (bi_header bi) @ var_int_serialize L (bi_index bi)
       @ [status_number (bi_status bi)] @ [if bi_downloaded bi then 1 else 0]"

definition block_info_deserialize :: "btclib \<Rightarrow> bool \<Rightarrow> bytes \<Rightarrow> block_info option" where
  "block_info_deserialize L check_validity data =
     do {
       (h, rest) \<leftarrow> header_parse L check_validity data;
       (i, rest) \<leftarrow> var_int_parse L rest;
       let (st, rest) = read_byte rest;
       st \<leftarrow> status_of_number st;
       let (d, rest) = read_byte rest;
       Some \<lparr>bi_header = h, bi_index = i, bi_status = st, bi_downloaded = (d \<noteq> 0)\<rparr>
     }"

definition blk_prefix :: bytes where
  \<comment> \<open>\<open>b"blkinfo-"\<close>\<close>
  "blk_prefix = [98, 108, 107, 105, 110, 102, 111, 45]"

definition blk_key :: "bytes \<Rightarrow> bytes" where
  "blk_key h = blk_prefix @ h"

definition get_block_info :: "bytes \<Rightarrow> block_index \<Rightarrow> block_info option" where
  "get_block_info h s = map_of (header_dict s) h"

section \<open>Ancestors\<close>

definition jump_ok :: "int \<Rightarrow> int \<Rightarrow> int \<Rightarrow> bool" where
  \<comment> \<open>Core's condition: the skip pointer is followed where the parent's is not a better jump\<close>
  "jump_ok sh shp height \<longleftrightarrow>
     sh = height \<or> (sh > height \<and> \<not> (shp < sh - 2 \<and> shp \<ge> height))"

partial_function (option) ancestor :: "block_index \<Rightarrow> bytes \<Rightarrow> int \<Rightarrow> int \<Rightarrow> bytes option" where
  "ancestor s block walk_height height =
     (if walk_height > height then
        (if skip s block \<noteq> None
            \<and> jump_ok (skip_height walk_height) (skip_height (walk_height - 1)) height
         then do { jump \<leftarrow> skip s block; ancestor s jump (skip_height walk_height) height }
         else do {
           bi \<leftarrow> map_of (header_dict s) block;
           ancestor s (hdr_prev (bi_header bi)) (walk_height - 1) height })
      else Some block)"

definition get_ancestor :: "block_index \<Rightarrow> bytes \<Rightarrow> int \<Rightarrow> bytes option option" where
  "get_ancestor s block_hash height =
     do {
       bi \<leftarrow> map_of (header_dict s) block_hash;
       if height > bi_index bi \<or> height < 0 then Some None
       else do { a \<leftarrow> ancestor s block_hash (bi_index bi) height; Some (Some a) }
     }"

partial_function (option) locator_loop ::
  "block_index \<Rightarrow> bool \<Rightarrow> int \<Rightarrow> int \<Rightarrow> bytes \<Rightarrow> bytes list \<Rightarrow> bytes list option" where
  "locator_loop s on_header_index height step block_hash have =
     (let have = have @ [block_hash] in
      if height = 0 then Some have
      else
        let height = max (height - step) 0 in
        do {
          block_hash \<leftarrow> (if on_header_index then py_nth (header_index s) height
             else Option.bind (get_ancestor s block_hash height) id);
          locator_loop s on_header_index height (if length have > 10 then step * 2 else step)
            block_hash have
        })"

definition locator_entries :: "block_index \<Rightarrow> bytes \<Rightarrow> bytes list option" where
  "locator_entries s block_hash =
     do {
       bi \<leftarrow> map_of (header_dict s) block_hash;
       locator_loop s (header_index_pos s block_hash = Some (bi_index bi)) (bi_index bi) 1 block_hash []
     }"

definition get_block_locator_hashes :: "block_index \<Rightarrow> bytes option \<Rightarrow> bytes list option" where
  "get_block_locator_hashes s start =
     (case start of
        None \<Rightarrow> do { tip \<leftarrow> py_last (header_index s); locator_entries s tip }
      | Some h \<Rightarrow> locator_entries s h)"

partial_function (option) lca_skip :: "block_index \<Rightarrow> bytes \<Rightarrow> bytes \<Rightarrow> (bytes \<times> bytes) option" where
  \<comment> \<open>the inner loop: both skip pointers while they differ\<close>
  "lca_skip s first second =
     (if skip s first \<noteq> skip s second then
        do { first \<leftarrow> skip s first; second \<leftarrow> skip s second; lca_skip s first second }
      else Some (first, second))"

partial_function (option) lca_loop :: "block_index \<Rightarrow> bytes \<Rightarrow> bytes \<Rightarrow> bytes option" where
  "lca_loop s first second =
     (if first \<noteq> second then
        do {
          p \<leftarrow> lca_skip s first second;
          bi \<leftarrow> map_of (header_dict s) (fst p);
          bi' \<leftarrow> map_of (header_dict s) (snd p);
          lca_loop s (hdr_prev (bi_header bi)) (hdr_prev (bi_header bi'))
        }
      else Some first)"

definition last_common_ancestor :: "block_index \<Rightarrow> bytes \<Rightarrow> bytes \<Rightarrow> bytes option" where
  "last_common_ancestor s first second =
     do {
       bi \<leftarrow> map_of (header_dict s) first;
       bi' \<leftarrow> map_of (header_dict s) second;
       let first_height = bi_index bi; second_height = bi_index bi' in
       if first_height > second_height then
         do { first \<leftarrow> ancestor s first first_height second_height; lca_loop s first second }
       else if second_height > first_height then
         do { second \<leftarrow> ancestor s second second_height first_height; lca_loop s first second }
       else lca_loop s first second
     }"

section \<open>Which of two blocks is ahead\<close>

definition seq_less :: "int option \<Rightarrow> int option \<Rightarrow> bool" where
  \<comment> \<open>\<open><\<close> with a missing number read as infinity\<close>
  "seq_less a b = (case a of None \<Rightarrow> False | Some x \<Rightarrow> (case b of None \<Rightarrow> True | Some y \<Rightarrow> x < y))"

definition outranks :: "block_index \<Rightarrow> bytes \<Rightarrow> bytes \<Rightarrow> bool option" where
  "outranks s block_hash other =
     do {
       work \<leftarrow> chainwork s block_hash;
       other_work \<leftarrow> chainwork s other;
       if work \<noteq> other_work then Some (work > other_work)
       else Some (seq_less (sequence_id s block_hash) (sequence_id s other))
     }"

section \<open>Where a block leaves a chain\<close>

partial_function (option) fork_loop ::
  "block_index \<Rightarrow> bytes list \<Rightarrow> bytes \<Rightarrow> bytes list \<Rightarrow> (bytes list \<times> bytes list) option" where
  "fork_loop s ch header_hash fork =
     do {
       bi \<leftarrow> map_of (header_dict s) header_hash;
       let header_hash = hdr_prev (bi_header bi) in
       if bi_index bi \<le> int (length ch) then
         do {
           x \<leftarrow> py_nth ch (bi_index bi - 1);
           if header_hash = x then Some (rev fork, slice_from ch (bi_index bi))
           else fork_loop s ch header_hash (fork @ [header_hash])
         }
       else fork_loop s ch header_hash (fork @ [header_hash])
     }"

definition get_fork_details ::
  "block_index \<Rightarrow> bytes \<Rightarrow> bytes list option \<Rightarrow> (bytes list \<times> bytes list) option" where
  \<comment> \<open>\<open>if not chain\<close> takes the active chain for \<open>None\<close> and for an empty list\<close>
  "get_fork_details s header_hash ch =
     fork_loop s (case ch of None \<Rightarrow> active_chain s | Some xs \<Rightarrow> if xs = [] then active_chain s else xs)
       header_hash [header_hash]"

definition branch_is_downloaded :: "block_index \<Rightarrow> bytes \<Rightarrow> bool option" where
  "branch_is_downloaded s block_hash =
     do {
       (to_add, _) \<leftarrow> get_fork_details s block_hash None;
       fold_opt (\<lambda>h acc. if \<not> acc then Some acc
                         else map_option bi_downloaded (get_block_info h s)) to_add True
     }"

section \<open>Recording a header or a status\<close>

definition record_block_info :: "block_info \<Rightarrow> block_index \<Rightarrow> block_index" where
  "record_block_info bi s =
     (let h = hdr_hash (bi_header bi);
          s = (if map_of (header_dict s) h = None
               then s\<lparr>children := push_list (children s) (hdr_prev (bi_header bi)) h\<rparr> else s)
      in s\<lparr>header_dict := AList.update h bi (header_dict s)\<rparr>)"

definition insert_block_info :: "btclib \<Rightarrow> block_info \<Rightarrow> block_index \<Rightarrow> block_index option" where
  \<comment> \<open>a batch is the store itself, so the write goes to \<open>db\<close> whether or not one is given\<close>
  "insert_block_info L bi s =
     (let s = record_block_info bi s in
      do {
        d \<leftarrow> store_put (blk_key (hdr_hash (bi_header bi))) (block_info_serialize L bi) (db s);
        Some (s\<lparr>db := d\<rparr>)
      })"

definition stage :: "block_info \<Rightarrow> block_index \<Rightarrow> block_index" where
  "stage bi s =
     (let s = record_block_info bi s
      in s\<lparr>pending := AList.update (hdr_hash (bi_header bi)) bi (pending s)\<rparr>)"

definition set_status :: "btclib \<Rightarrow> bytes \<Rightarrow> block_status \<Rightarrow> block_index \<Rightarrow> block_index option" where
  "set_status L block_hash status s =
     do {
       old \<leftarrow> get_block_info block_hash s;
       let bi = old\<lparr>bi_status := status\<rparr> in
       if map_of (pending s) (hdr_hash (bi_header bi)) \<noteq> None then Some (stage bi s)
       else insert_block_info L bi s
     }"

definition stage_status :: "bytes \<Rightarrow> block_status \<Rightarrow> block_index \<Rightarrow> block_index option" where
  "stage_status block_hash status s =
     do { old \<leftarrow> get_block_info block_hash s; Some (stage (old\<lparr>bi_status := status\<rparr>) s) }"

definition write_pending :: "btclib \<Rightarrow> block_index \<Rightarrow> block_index option" where
  \<comment> \<open>\<open>_write\<close>\<close>
  "write_pending L s =
     do {
       d \<leftarrow> fold_opt (\<lambda>p. store_put (fst p) (snd p))
              (map (\<lambda>(h, bi). (blk_key h, block_info_serialize L bi)) (pending s)) (db s);
       Some (s\<lparr>db := d, pending := []\<rparr>)
     }"

definition finalize :: "btclib \<Rightarrow> bool \<Rightarrow> block_index \<Rightarrow> block_index option" where
  \<comment> \<open>inside a caller's batch (\<open>in_batch\<close>), or in a batch of its own\<close>
  "finalize L in_batch s =
     (if in_batch then write_pending L s
      else
        let body = (\<lambda>d. case write_pending L (s\<lparr>db := d\<rparr>) of
                          None \<Rightarrow> (Some StoreClosedError, d) | Some s' \<Rightarrow> (None, db s'))
        in case write_batch body (db s) of
             (Some _, _) \<Rightarrow> None
           | (None, d) \<Rightarrow> Some (s\<lparr>db := d, pending := []\<rparr>))"

section \<open>Sequence numbers\<close>

partial_function (option) link_loop :: "bytes list \<Rightarrow> block_index \<Rightarrow> block_index option" where
  "link_loop queue s =
     (case queue of
        [] \<Rightarrow> Some s
      | current # queue \<Rightarrow>
          link_loop (queue @ get_list (unlinked s) current)
            (s\<lparr>sequence_id := (sequence_id s)(current \<mapsto> next_sequence_id s),
               next_sequence_id := next_sequence_id s + 1,
               unlinked := (unlinked s)(current := None)\<rparr>))"

definition link :: "bytes \<Rightarrow> block_index \<Rightarrow> block_index option" where
  "link block_hash s =
     do {
       bi \<leftarrow> map_of (header_dict s) block_hash;
       let parent = hdr_prev (bi_header bi) in
       if sequence_id s parent = None
       then Some (s\<lparr>unlinked := push_list (unlinked s) parent block_hash\<rparr>)
       else link_loop [block_hash] s
     }"

definition set_downloaded :: "btclib \<Rightarrow> bytes \<Rightarrow> bool \<Rightarrow> block_index \<Rightarrow> block_index option" where
  "set_downloaded L block_hash downloaded s =
     do {
       old \<leftarrow> get_block_info block_hash s;
       let arrived = (downloaded \<and> \<not> bi_downloaded old);
       let bi = old\<lparr>bi_downloaded := downloaded\<rparr>;
       s \<leftarrow> (if map_of (pending s) (hdr_hash (bi_header bi)) \<noteq> None then Some (stage bi s)
             else insert_block_info L bi s);
       if arrived then link block_hash s else Some s
     }"

section \<open>Derived indexes, rebuilt\<close>

definition header_height :: "block_index \<Rightarrow> bytes \<Rightarrow> int" where
  "header_height s h = (case map_of (header_dict s) h of None \<Rightarrow> 0 | Some bi \<Rightarrow> bi_index bi)"

definition by_height :: "block_index \<Rightarrow> bytes list" where
  \<comment> \<open>\<open>sorted(self.header_dict, key=lambda h: self.header_dict[h].index)\<close>\<close>
  "by_height s = sort_key (header_height s) (map fst (header_dict s))"

definition build_skip :: "bytes \<Rightarrow> block_info \<Rightarrow> block_index \<Rightarrow> block_index option" where
  "build_skip block_hash bi s =
     (if bi_index bi \<noteq> 0 then
        do {
          a \<leftarrow> ancestor s (hdr_prev (bi_header bi)) (bi_index bi - 1) (skip_height (bi_index bi));
          Some (s\<lparr>skip := (skip s)(block_hash \<mapsto> a)\<rparr>)
        }
      else Some s)"

definition weigh_invalid :: "bytes \<Rightarrow> block_index \<Rightarrow> block_index option" where
  "weigh_invalid block_hash s =
     (case best_invalid s of
        None \<Rightarrow> Some (s\<lparr>best_invalid := Some block_hash\<rparr>)
      | Some b \<Rightarrow>
          do {
            w \<leftarrow> chainwork s block_hash;
            w' \<leftarrow> chainwork s b;
            Some (if w > w' then s\<lparr>best_invalid := Some block_hash\<rparr> else s)
          })"

definition chainwork_step :: "btclib \<Rightarrow> bytes \<Rightarrow> block_index \<Rightarrow> block_index option" where
  \<comment> \<open>one iteration of \<open>calculate_chainwork\<close>\<close>
  "chainwork_step L block_hash s =
     do {
       bi \<leftarrow> get_block_info block_hash s;
       let prev = hdr_prev (bi_header bi);
       old_work \<leftarrow> (if bi_index bi = 0 then Some 0 else chainwork s prev);
       let s = (if bi_index bi = 0 then s
                else s\<lparr>children := push_list (children s) prev block_hash\<rparr>);
       let work = old_work + calculate_work L (bi_header bi);
       s \<leftarrow> build_skip block_hash bi (s\<lparr>chainwork := (chainwork s)(block_hash \<mapsto> work)\<rparr>);
       if bi_status bi = Invalid then
         (case best_invalid s of
            None \<Rightarrow> Some (s\<lparr>best_invalid := Some block_hash\<rparr>)
          | Some b \<Rightarrow> do { w \<leftarrow> chainwork s b;
                           Some (if work > w then s\<lparr>best_invalid := Some block_hash\<rparr> else s) })
       else Some s
     }"

definition calculate_chainwork :: "btclib \<Rightarrow> block_index \<Rightarrow> block_index option" where
  "calculate_chainwork L s = fold_opt (chainwork_step L) (sorted_header_dict s) s"

definition generate_active_chain :: "block_index \<Rightarrow> block_index" where
  "generate_active_chain s =
     (let chain_dict = fold (\<lambda>(h, bi) d. if bi_status bi = InActiveChain
                                         then AList.update (bi_index bi) h d else d)
                         (header_dict s) []
      in s\<lparr>active_chain := active_chain s
             @ map (\<lambda>i. the (map_of chain_dict i)) (sort (map fst chain_dict))\<rparr>)"

definition load_sequence_step :: "bytes set \<Rightarrow> bytes \<Rightarrow> block_index \<Rightarrow> block_index option" where
  "load_sequence_step active_chain_set block_hash s =
     do {
       bi \<leftarrow> map_of (header_dict s) block_hash;
       let parent = hdr_prev (bi_header bi) in
       if block_hash \<in> active_chain_set
         then Some (s\<lparr>sequence_id := (sequence_id s)(block_hash \<mapsto> 0)\<rparr>)
       else if \<not> bi_downloaded bi then Some s
       else if sequence_id s parent \<noteq> None
         then Some (s\<lparr>sequence_id := (sequence_id s)(block_hash \<mapsto> 1)\<rparr>)
       else Some (s\<lparr>unlinked := push_list (unlinked s) parent block_hash\<rparr>)
     }"

definition load_sequence_ids :: "block_index \<Rightarrow> block_index option" where
  "load_sequence_ids s =
     fold_opt (load_sequence_step (set (active_chain s))) (sorted_header_dict s) s"

definition candidate_step :: "bytes set \<Rightarrow> bytes \<Rightarrow> bytes \<Rightarrow> block_index \<Rightarrow> block_index option" where
  "candidate_step active_chain_set tip block_hash s =
     (if block_hash \<in> active_chain_set then Some s
      else do {
        bi \<leftarrow> get_block_info block_hash s;
        if bi_status bi = Valid \<and> \<not> bi_downloaded bi then Some s
        else if bi_status bi \<noteq> ValidHeader \<and> bi_status bi \<noteq> Valid then Some s
        else do {
          o' \<leftarrow> outranks s block_hash tip;
          if o' then do {
            w \<leftarrow> chainwork s block_hash;
            Some (s\<lparr>block_candidates := block_candidates s @ [(block_hash, w)]\<rparr>) }
          else Some s
        }
      })"

definition generate_block_candidates :: "block_index \<Rightarrow> block_index option" where
  "generate_block_candidates s =
     do {
       tip \<leftarrow> py_last (active_chain s);
       fold_opt (candidate_step (set (active_chain s)) tip) (by_height s) (s\<lparr>block_candidates := []\<rparr>)
     }"

definition positions :: "bytes list \<Rightarrow> bytes \<rightharpoonup> int" where
  \<comment> \<open>\<open>{h: i for i, h in enumerate(xs)}\<close>\<close>
  "positions xs = map_of (rev (zip xs (map int [0..<length xs])))"

fun del_keys :: "bytes list \<Rightarrow> (bytes \<rightharpoonup> int) \<Rightarrow> (bytes \<rightharpoonup> int) option" where
  \<comment> \<open>\<open>del m[k]\<close> for each key, raising KeyError on a missing one\<close>
  "del_keys [] m = Some m"
| "del_keys (k # ks) m = (if m k = None then None else del_keys ks (m(k := None)))"

fun add_positions :: "int \<Rightarrow> bytes list \<Rightarrow> (bytes \<rightharpoonup> int) \<Rightarrow> (bytes \<rightharpoonup> int)" where
  "add_positions base [] m = m"
| "add_positions base (k # ks) m = add_positions (base + 1) ks (m(k \<mapsto> base))"

definition append_header_index :: "bytes \<Rightarrow> block_index \<Rightarrow> block_index" where
  "append_header_index h s =
     (let xs = header_index s @ [h]
      in s\<lparr>header_index := xs, header_index_pos := (header_index_pos s)(h \<mapsto> int (length xs) - 1)\<rparr>)"

definition reorg_header_index :: "bytes \<Rightarrow> block_index \<Rightarrow> block_index option" where
  "reorg_header_index h s =
     do {
       (add, remove) \<leftarrow> get_fork_details s h (Some (header_index s));
       pos \<leftarrow> del_keys remove (header_index_pos s);
       let kept = slice_to_neg (header_index s) (length remove);
       Some (s\<lparr>header_index := kept @ add,
               header_index_pos := add_positions (int (length kept)) add pos\<rparr>)
     }"

definition extend_step :: "bytes \<Rightarrow> bytes set \<times> block_index \<Rightarrow> (bytes set \<times> block_index) option" where
  \<comment> \<open>one iteration of \<open>_extend_header_index\<close>, with its local membership set\<close>
  "extend_step block_hash st =
     (let (header_index_set, s) = st in
      if block_hash \<in> header_index_set then Some st
      else do {
        bi \<leftarrow> get_block_info block_hash s;
        if bi_status bi = Invalid then Some st
        else do {
          best_header \<leftarrow> py_last (header_index s);
          if hdr_prev (bi_header bi) = best_header
            then Some (insert block_hash header_index_set, append_header_index block_hash s)
          else do {
            w \<leftarrow> chainwork s block_hash;
            w' \<leftarrow> chainwork s best_header;
            if w > w' then do {
              s \<leftarrow> reorg_header_index block_hash s;
              Some (set (header_index s), s) }
            else Some st
          }
        }
      })"

definition extend_header_index :: "bytes list \<Rightarrow> block_index \<Rightarrow> block_index option" where
  "extend_header_index candidates s =
     map_option snd (fold_opt extend_step candidates (set (header_index s), s))"

definition reset_header_index :: "block_index \<Rightarrow> block_index" where
  "reset_header_index s =
     s\<lparr>header_index := active_chain s, header_index_pos := positions (active_chain s)\<rparr>"

definition generate_header_index :: "block_index \<Rightarrow> block_index option" where
  "generate_header_index s = extend_header_index (sorted_header_dict s) (reset_header_index s)"

section \<open>Invalidating and reconsidering a block\<close>

partial_function (option) invalidate_loop ::
  "btclib \<Rightarrow> bytes list \<Rightarrow> bytes set \<Rightarrow> block_index \<Rightarrow> (bytes set \<times> block_index) option" where
  "invalidate_loop L to_invalidate invalidated s =
     (if to_invalidate = [] then Some (invalidated, s)
      else
        let current = last to_invalidate in
        do {
          s \<leftarrow> set_status L current Invalid s;
          invalidate_loop L (butlast to_invalidate @ get_list (children s) current)
            (insert current invalidated) s
        })"

definition invalidate :: "btclib \<Rightarrow> bytes \<Rightarrow> block_index \<Rightarrow> block_index option" where
  "invalidate L block_hash s =
     do {
       s \<leftarrow> weigh_invalid block_hash s;
       (invalidated, s) \<leftarrow> invalidate_loop L [block_hash] {} s;
       let s = s\<lparr>block_candidates := filter (\<lambda>(h, w). h \<notin> invalidated) (block_candidates s)\<rparr>;
       if (\<exists>h \<in> set (header_index s). h \<in> invalidated)
       then extend_header_index (by_height s) (reset_header_index s)
       else Some s
     }"

definition shares_lineage :: "block_index \<Rightarrow> bytes \<Rightarrow> bytes \<Rightarrow> int \<Rightarrow> bool option" where
  "shares_lineage s other target target_height =
     do {
       bi \<leftarrow> map_of (header_dict s) other;
       a \<leftarrow> get_ancestor s other target_height;
       if a = Some target then Some True
       else do { b \<leftarrow> get_ancestor s target (bi_index bi); Some (b = Some other) }
     }"

definition reconsider_step :: "btclib \<Rightarrow> bytes \<Rightarrow> int \<Rightarrow> bytes \<times> block_info \<Rightarrow> block_index \<Rightarrow> block_index option" where
  "reconsider_step L block_hash target_height item s =
     (let (other_hash, other_info) = item in
      if bi_status other_info \<noteq> Invalid then Some s
      else do {
        same \<leftarrow> shares_lineage s other_hash block_hash target_height;
        if same then do {
          s \<leftarrow> set_status L other_hash ValidHeader s;
          Some (if Some other_hash = best_invalid s then s\<lparr>best_invalid := None\<rparr> else s) }
        else Some s
      })"

definition reconsider :: "btclib \<Rightarrow> bytes \<Rightarrow> block_index \<Rightarrow> block_index option" where
  "reconsider L block_hash s =
     do {
       bi \<leftarrow> get_block_info block_hash s;
       s \<leftarrow> fold_opt (reconsider_step L block_hash (bi_index bi)) (header_dict s) s;
       s \<leftarrow> generate_block_candidates s;
       extend_header_index (by_height s) (reset_header_index s)
     }"

section \<open>The active chain and its candidates\<close>

definition add_to_active_chain :: "bytes \<Rightarrow> block_index \<Rightarrow> block_index" where
  "add_to_active_chain h s = s\<lparr>active_chain := active_chain s @ [h]\<rparr>"

definition remove_from_active_chain :: "bytes \<Rightarrow> block_index \<Rightarrow> exc + block_index" where
  "remove_from_active_chain h s =
     (case py_last (active_chain s) of
        None \<Rightarrow> Inl IndexError
      | Some tip \<Rightarrow>
          if h \<noteq> tip
          then Inl (ChainstateInconsistencyError ''block_hash is not the active chain's tip'')
          else Inr (s\<lparr>active_chain := butlast (active_chain s)\<rparr>))"

definition precious :: "bytes \<Rightarrow> block_index \<Rightarrow> (bool \<times> block_index) option" where
  "precious block_hash s =
     do {
       tip \<leftarrow> py_last (active_chain s);
       tip_work \<leftarrow> chainwork s tip;
       w \<leftarrow> chainwork s block_hash;
       if w < tip_work then Some (False, s)
       else
         let s = (if tip_work > precious_chainwork s then s\<lparr>precious_sequence_id := - 1\<rparr> else s);
             s = s\<lparr>precious_chainwork := tip_work\<rparr>;
             s = (if sequence_id s block_hash \<noteq> None
                  then s\<lparr>sequence_id := (sequence_id s)(block_hash \<mapsto> precious_sequence_id s)\<rparr> else s);
             s = s\<lparr>precious_sequence_id := precious_sequence_id s - 1\<rparr>
         in do { s \<leftarrow> generate_block_candidates s; Some (True, s) }
     }"

definition py_or :: "bytes option \<Rightarrow> bytes option \<Rightarrow> bytes option" where
  \<comment> \<open>\<open>a or b\<close>: \<open>None\<close> and the empty string are both false\<close>
  "py_or a b = (case a of None \<Rightarrow> b | Some x \<Rightarrow> if x = [] then b else a)"

definition candidate_scan ::
  "block_index \<Rightarrow> bytes \<Rightarrow> bytes \<times> int \<Rightarrow> bytes option \<times> bytes option \<Rightarrow> (bytes option \<times> bytes option) option" where
  \<comment> \<open>one iteration of \<open>get_first_candidate\<close>'s loop over \<open>(first, ready)\<close>\<close>
  "candidate_scan s tip cand acc =
     (let (block_hash, work) = cand; (first, ready) = acc in
      do {
        o' \<leftarrow> outranks s block_hash tip;
        if \<not> o' then Some acc
        else
          let first = py_or first (Some block_hash) in
          do {
            better \<leftarrow> (case ready of
                None \<Rightarrow> Some True
              | Some r \<Rightarrow> do {
                  w \<leftarrow> chainwork s r;
                  if work = w then outranks s block_hash r else Some False });
            ok \<leftarrow> (if better then branch_is_downloaded s block_hash else Some False);
            Some (first, if ok then Some block_hash else ready)
          }
      })"

definition get_first_candidate :: "block_index \<Rightarrow> (block_info option \<times> block_index) option" where
  "get_first_candidate s =
     do {
       tip \<leftarrow> py_last (active_chain s);
       tip_work \<leftarrow> chainwork s tip;
       let s = s\<lparr>block_candidates := dropWhile (\<lambda>(h, w). w < tip_work) (block_candidates s)\<rparr>;
       (first, ready) \<leftarrow> fold_opt (candidate_scan s tip) (take 100 (block_candidates s)) (None, None);
       case py_or ready first of
         None \<Rightarrow> Some (None, s)
       | Some chosen \<Rightarrow> do { bi \<leftarrow> get_block_info chosen s; Some (Some bi, s) }
     }"

definition stored_branch_outranks_tip :: "block_index \<Rightarrow> (bool \<times> block_index) option" where
  "stored_branch_outranks_tip s =
     do {
       (candidate, s) \<leftarrow> get_first_candidate s;
       case candidate of
         None \<Rightarrow> Some (False, s)
       | Some bi \<Rightarrow> do { d \<leftarrow> branch_is_downloaded s (hdr_hash (bi_header bi)); Some (d, s) }
     }"

section \<open>A batch of headers\<close>

definition is_indexed :: "block_index \<Rightarrow> header \<Rightarrow> bool \<Rightarrow> exc + bool" where
  "is_indexed s h punish_cached_invalid =
     (case map_of (header_dict s) (hdr_hash h) of
        None \<Rightarrow> Inr False
      | Some known \<Rightarrow>
          if bi_status known = Invalid then
            (if punish_cached_invalid then Inl (MisbehavingError ''duplicate-invalid'')
             else Inl (BTClibValueError ''duplicate-invalid''))
          else Inr True)"

definition indexed_parent :: "block_index \<Rightarrow> header \<Rightarrow> exc + (header \<times> int) option" where
  "indexed_parent s h =
     (case map_of (header_dict s) (hdr_prev h) of
        None \<Rightarrow> Inr None
      | Some bi \<Rightarrow>
          if bi_status bi = Invalid then Inl (MisbehavingError ''bad-prevblk'')
          else Inr (Some (bi_header bi, bi_index bi)))"

definition grow_header_index :: "header \<Rightarrow> bytes \<Rightarrow> int \<Rightarrow> block_index \<Rightarrow> block_index option" where
  "grow_header_index h header_hash new_work s =
     do {
       best_header \<leftarrow> py_last (header_index s);
       if hdr_prev h = best_header then Some (append_header_index header_hash s)
       else do {
         w \<leftarrow> chainwork s best_header;
         if new_work > w then reorg_header_index header_hash s else Some s
       }
     }"

definition header_parent :: "block_index \<Rightarrow> header \<Rightarrow> header option" where
  \<comment> \<open>the closure \<open>parent_of\<close>\<close>
  "header_parent s h = map_option bi_header (map_of (header_dict s) (hdr_prev h))"

definition index_header ::
  "btclib \<Rightarrow> int \<Rightarrow> header \<Rightarrow> int \<Rightarrow> block_index \<Rightarrow> block_index option" where
  \<comment> \<open>what \<open>_insert_valid_headers\<close> does with a header that passed every check\<close>
  "index_header L current_work h parent_height s =
     do {
       pw \<leftarrow> chainwork s (hdr_prev h);
       let new_work = pw + calculate_work L h;
       let bi = \<lparr>bi_header = h, bi_index = parent_height + 1, bi_status = ValidHeader,
                 bi_downloaded = False\<rparr>;
       s \<leftarrow> insert_block_info L bi s;
       s \<leftarrow> build_skip (hdr_hash h) bi (s\<lparr>chainwork := (chainwork s)(hdr_hash h \<mapsto> new_work)\<rparr>);
       let s = (if new_work > current_work
                then s\<lparr>block_candidates := block_candidates s @ [(hdr_hash h, new_work)]\<rparr> else s);
       grow_header_index h (hdr_hash h) new_work s
     }"

definition insert_header ::
  "btclib \<Rightarrow> real \<Rightarrow> int \<Rightarrow> bool \<Rightarrow> bool \<Rightarrow> header \<Rightarrow> block_index \<Rightarrow> block_index \<times> (exc + unit)" where
  \<comment> \<open>one iteration of \<open>_insert_valid_headers\<close>\<close>
  "insert_header L now current_work punish_cached_invalid min_pow_checked h s =
     (case is_indexed s h punish_cached_invalid of
        Inl e \<Rightarrow> (s, Inl e)
      | Inr True \<Rightarrow> (s, Inr ())
      | Inr False \<Rightarrow>
        (case indexed_parent s h of
           Inl e \<Rightarrow> (s, Inl e)
         | Inr None \<Rightarrow> (s, Inr ())
         | Inr (Some (parent, parent_height)) \<Rightarrow>
           (case assert_valid_in_context L (chain s) h parent parent_height (header_parent s) now of
              Inl e \<Rightarrow> (s, Inl e)
            | Inr _ \<Rightarrow>
              if \<not> min_pow_checked then (s, Inl LowWorkHeaderError)
              else (case index_header L current_work h parent_height s of
                      None \<Rightarrow> (s, Inl KeyError)
                    | Some s' \<Rightarrow> (s', Inr ())))))"

fun insert_valid_headers ::
  "btclib \<Rightarrow> real \<Rightarrow> int \<Rightarrow> bool \<Rightarrow> bool \<Rightarrow> header list \<Rightarrow> block_index \<Rightarrow> block_index \<times> (exc + unit)" where
  "insert_valid_headers L now cw punish mpc [] s = (s, Inr ())"
| "insert_valid_headers L now cw punish mpc (h # hs) s =
     (case insert_header L now cw punish mpc h s of
        (s', Inl e) \<Rightarrow> (s', Inl e)
      | (s', Inr _) \<Rightarrow> insert_valid_headers L now cw punish mpc hs s')"

definition tip_chainwork :: "block_index \<Rightarrow> int option" where
  "tip_chainwork s = Option.bind (py_last (active_chain s)) (chainwork s)"

definition add_headers ::
  "btclib \<Rightarrow> real \<Rightarrow> bool \<Rightarrow> bool \<Rightarrow> header list \<Rightarrow> block_index \<Rightarrow> block_index \<times> (exc + bytes option)" where
  "add_headers L now punish_cached_invalid min_pow_checked hs s =
     (case check_headers_pow L hs (pow_limit_bits (chain s)) of
        Inl e \<Rightarrow> (s, Inl e)
      | Inr _ \<Rightarrow>
        (case tip_chainwork s of
           None \<Rightarrow> (s, Inl KeyError)
         | Some current_work \<Rightarrow>
           (case insert_valid_headers L now current_work punish_cached_invalid min_pow_checked hs s of
              (s', Inl e) \<Rightarrow> (s', Inl e)
            | (s', Inr _) \<Rightarrow>
                (s', Inr (map_option hdr_hash
                   (find (\<lambda>h. map_of (header_dict s') (hdr_hash h) \<noteq> None) (rev hs)))))))"

section \<open>Loading from the store\<close>

fun load_headers :: "btclib \<Rightarrow> pairs \<Rightarrow> block_index \<Rightarrow> exc + block_index" where
  "load_headers L [] s = Inr s"
| "load_headers L ((key, value) # items) s =
     (if take 8 key \<noteq> blk_prefix then Inr s
      else (case block_info_deserialize L False value of
          None \<Rightarrow> Inl ValueError
        | Some bi \<Rightarrow>
            if \<not> valid_pow L (bi_header bi) (pow_limit_bits (chain s))
            then Inl (ChainstateInconsistencyError ''Error loading block database'')
            else load_headers L items
                   (s\<lparr>header_dict := AList.update (hdr_hash (bi_header bi)) bi (header_dict s)\<rparr>)))"

definition derive_indexes :: "btclib \<Rightarrow> block_index \<Rightarrow> block_index option" where
  \<comment> \<open>the rest of \<open>init_from_db\<close>, once every stored header is in \<open>header_dict\<close>\<close>
  "derive_indexes L s =
     do {
       let s = s\<lparr>sorted_header_dict := by_height s\<rparr>;
       s \<leftarrow> calculate_chainwork L s;
       let s = generate_active_chain s;
       s \<leftarrow> load_sequence_ids s;
       s \<leftarrow> generate_block_candidates s;
       s \<leftarrow> generate_header_index s;
       Some (s\<lparr>sorted_header_dict := []\<rparr>)
     }"

definition init_from_db :: "btclib \<Rightarrow> block_index \<Rightarrow> exc + block_index" where
  "init_from_db L s =
     (case kv_iter (db s) of
        Inl e \<Rightarrow> Inl e
      | Inr items \<Rightarrow>
        (case load_headers L items s of
           Inl e \<Rightarrow> Inl e
         | Inr s' \<Rightarrow> (case derive_indexes L s' of None \<Rightarrow> Inl KeyError | Some s'' \<Rightarrow> Inr s'')))"

definition new_block_index :: "kv_store \<Rightarrow> chain_params \<Rightarrow> block_index" where
  \<comment> \<open>the fields \<open>__init__\<close> sets before it calls \<open>init_from_db\<close>\<close>
  "new_block_index d c =
     \<lparr>db = d, chain = c,
      header_dict = [(hdr_hash (genesis c),
         \<lparr>bi_header = genesis c, bi_index = 0, bi_status = InActiveChain, bi_downloaded = True\<rparr>)],
      chainwork = Map.empty, skip = Map.empty, active_chain = [], block_candidates = [],
      header_index = [], header_index_pos = Map.empty, children = Map.empty, pending = [],
      best_invalid = None, sequence_id = Map.empty, next_sequence_id = 2,
      precious_sequence_id = - 1, precious_chainwork = 0, unlinked = Map.empty,
      sorted_header_dict = []\<rparr>"

definition open_block_index :: "btclib \<Rightarrow> kv_store \<Rightarrow> chain_params \<Rightarrow> exc + block_index" where
  "open_block_index L d c = init_from_db L (new_block_index d c)"

fun leave_loop :: "btclib \<Rightarrow> bytes \<Rightarrow> pairs \<Rightarrow> kv_store \<Rightarrow> kv_store option" where
  "leave_loop L genesis_hash [] d = Some d"
| "leave_loop L genesis_hash ((key, value) # items) d =
     do {
       bi \<leftarrow> block_info_deserialize L False value;
       d \<leftarrow> (if bi_status bi = InActiveChain \<and> drop 8 key \<noteq> genesis_hash
             then store_put key (block_info_serialize L (bi\<lparr>bi_status := Valid\<rparr>)) d else Some d);
       leave_loop L genesis_hash items d
     }"

definition leave_active_chain :: "btclib \<Rightarrow> kv_store \<Rightarrow> bytes \<Rightarrow> kv_store option" where
  "leave_active_chain L d genesis_hash =
     (case scan_prefix blk_prefix d of
        Inl _ \<Rightarrow> None
      | Inr items \<Rightarrow> leave_loop L genesis_hash items d)"

text \<open>The loops evaluate by their equations.\<close>

lemmas index_loops [code] =
  ancestor.simps locator_loop.simps lca_skip.simps lca_loop.simps fork_loop.simps link_loop.simps invalidate_loop.simps

end
