(* ===== verification/Index_Ancestor.thy ===== *)
theory Index_Ancestor
  imports Block_Index
begin

unbundle bit_operations_syntax

text \<open>
  What is proved of the walks of the block index: the skip pointers give the ancestor that
  parents alone give, the fork point of two blocks is their highest common ancestor, and a
  locator thins out the ancestors of its block down to genesis.
\<close>

section \<open>The tree of indexed headers\<close>

definition known :: "block_index \<Rightarrow> bytes \<Rightarrow> bool" where
  "known s h \<longleftrightarrow> map_of (header_dict s) h \<noteq> None"

definition blk_parent :: "block_index \<Rightarrow> bytes \<Rightarrow> bytes" where
  "blk_parent s h = (case map_of (header_dict s) h of None \<Rightarrow> [] | Some bi \<Rightarrow> hdr_prev (bi_header bi))"

abbreviation anc :: "block_index \<Rightarrow> bytes \<Rightarrow> int \<Rightarrow> bytes" where
  "anc s \<equiv> anc_at (blk_parent s) (header_height s)"

abbreviation ancestor_of :: "block_index \<Rightarrow> bytes \<Rightarrow> bytes \<Rightarrow> bool" where
  "ancestor_of s \<equiv> is_anc (blk_parent s) (header_height s)"

abbreviation is_chain :: "block_index \<Rightarrow> bytes list \<Rightarrow> bool" where
  "is_chain s \<equiv> chain_of (known s) (blk_parent s) (header_height s)"

definition info_ok :: "block_index \<Rightarrow> bytes \<Rightarrow> block_info \<Rightarrow> bool" where
  "info_ok s h bi \<longleftrightarrow>
     hdr_hash (bi_header bi) = h \<and> 0 \<le> bi_index bi
     \<and> (bi_index bi = 0 \<longleftrightarrow> h = hdr_hash (genesis (chain s)))
     \<and> (bi_index bi \<noteq> 0 \<longrightarrow>
          (\<exists>p. map_of (header_dict s) (hdr_prev (bi_header bi)) = Some p
             \<and> bi_index p = bi_index bi - 1))"

definition tree_ok :: "block_index \<Rightarrow> bool" where
  "tree_ok s \<longleftrightarrow> distinct (map fst (header_dict s)) \<and> known s (hdr_hash (genesis (chain s)))
     \<and> (\<forall>h bi. map_of (header_dict s) h = Some bi \<longrightarrow> info_ok s h bi)"

lemma tree_okD:
  assumes "tree_ok s" "map_of (header_dict s) h = Some bi"
  shows "hdr_hash (bi_header bi) = h" "header_height s h = bi_index bi"
    "blk_parent s h = hdr_prev (bi_header bi)" "0 \<le> bi_index bi"
    "bi_index bi = 0 \<longleftrightarrow> h = hdr_hash (genesis (chain s))"
  using assms by (auto simp: tree_ok_def info_ok_def header_height_def blk_parent_def)

lemma knownE:
  assumes "tree_ok s" "known s h"
  obtains bi where "map_of (header_dict s) h = Some bi" "header_height s h = bi_index bi"
    "blk_parent s h = hdr_prev (bi_header bi)" "hdr_hash (bi_header bi) = h"
  using assms tree_okD by (auto simp: known_def)

interpretation tree: block_tree tree_ok known header_height blk_parent
proof unfold_locales
  fix s h assume s: "tree_ok s" "known s h"
  then obtain bi where bi: "map_of (header_dict s) h = Some bi" by (auto simp: known_def)
  with s have ok: "info_ok s h bi" by (auto simp: tree_ok_def)
  from bi have hh: "header_height s h = bi_index bi" "blk_parent s h = hdr_prev (bi_header bi)"
    by (simp_all add: header_height_def blk_parent_def)
  show "0 \<le> header_height s h" using ok by (simp add: info_ok_def hh)
  have "known s (blk_parent s h) \<and> header_height s (blk_parent s h) = header_height s h - 1"
    if "header_height s h \<noteq> 0"
  proof -
    from that ok obtain p where p: "map_of (header_dict s) (hdr_prev (bi_header bi)) = Some p"
      "bi_index p = bi_index bi - 1" by (auto simp: info_ok_def hh(1))
    then have "header_height s (hdr_prev (bi_header bi)) = bi_index p" by (simp add: header_height_def)
    with p show ?thesis by (simp add: hh known_def)
  qed
  then show "header_height s h \<noteq> 0 \<Longrightarrow> known s (blk_parent s h)"
    "header_height s h \<noteq> 0 \<Longrightarrow> header_height s (blk_parent s h) = header_height s h - 1" by simp_all
next
  fix s h h' assume "tree_ok s" "known s h" "known s h'" "header_height s h = 0" "header_height s h' = 0"
  then show "h = h'" by (metis knownE tree_okD(5))
qed

lemma known_genesis:
  assumes "tree_ok s"
  shows "known s (hdr_hash (genesis (chain s)))" "header_height s (hdr_hash (genesis (chain s))) = 0"
proof -
  show k: "known s (hdr_hash (genesis (chain s)))" using assms by (simp add: tree_ok_def)
  with assms show "header_height s (hdr_hash (genesis (chain s))) = 0"
    by (metis knownE tree_okD(5))
qed

section \<open>Skip pointers\<close>

lemma skip_height_nonneg: "0 \<le> skip_height k"
  by (auto simp: skip_height_def invert_lowest_one_def)

lemma invert_lowest_one_le: "0 \<le> n \<Longrightarrow> invert_lowest_one n \<le> n"
  by (simp add: invert_lowest_one_def AND_upper1)

lemma invert_lowest_one_less: "1 \<le> n \<Longrightarrow> invert_lowest_one n < n"
  using AND_upper2 [of "n - 1" n] by (simp add: invert_lowest_one_def)

lemma invert_lowest_one_nonneg: "0 \<le> n \<Longrightarrow> 0 \<le> invert_lowest_one n"
  by (simp add: invert_lowest_one_def)

lemma skip_height_less:
  assumes "1 \<le> k"
  shows "skip_height k < k"
proof (cases "k < 2 \<or> k AND 1 = 0")
  case True
  with assms show ?thesis by (auto simp: skip_height_def intro: invert_lowest_one_less)
next
  case False
  then have "invert_lowest_one (k - 1) < k - 1" "0 \<le> invert_lowest_one (k - 1)"
    by (auto intro: invert_lowest_one_less invert_lowest_one_nonneg)
  moreover from this have "invert_lowest_one (invert_lowest_one (k - 1)) \<le> invert_lowest_one (k - 1)"
    by (intro invert_lowest_one_le)
  ultimately show ?thesis using False by (simp add: skip_height_def)
qed

text \<open>
  The pointers are right on a set of blocks closed under parents: every indexed block, or those
  a load has been through so far.
\<close>

definition up_closed :: "block_index \<Rightarrow> (bytes \<Rightarrow> bool) \<Rightarrow> bool" where
  "up_closed s P \<longleftrightarrow> (\<forall>h. P h \<longrightarrow> known s h \<and> (header_height s h \<noteq> 0 \<longrightarrow> P (blk_parent s h)))"

definition skip_ok_on :: "block_index \<Rightarrow> (bytes \<Rightarrow> bool) \<Rightarrow> bool" where
  "skip_ok_on s P \<longleftrightarrow> (\<forall>h. P h \<longrightarrow> skip s h =
     (if header_height s h \<noteq> 0 then Some (anc s h (skip_height (header_height s h))) else None))"

definition skip_ok :: "block_index \<Rightarrow> bool" where
  "skip_ok s \<longleftrightarrow> skip_ok_on s (known s)"

lemma up_closed_known: "tree_ok s \<Longrightarrow> up_closed s (known s)"
  by (simp add: up_closed_def tree.known_parent)

lemma up_closed_anc:
  assumes "tree_ok s" "up_closed s P" "P h" "0 \<le> k" "k \<le> header_height s h"
  shows "P (anc s h k)"
  using assms(3,5)
proof (induction "nat (header_height s h - k)" arbitrary: h rule: less_induct)
  case less
  show ?case
  proof (cases "k = header_height s h")
    case True
    with less.prems tree.anc_self [of s h] show ?thesis by simp
  next
    case False
    with less.prems assms(4) have nz: "header_height s h \<noteq> 0" "k < header_height s h" by simp_all
    have k: "known s h" and P: "P (blk_parent s h)"
      using assms(2) less.prems nz by (simp_all add: up_closed_def)
    with assms(1) nz have p: "header_height s (blk_parent s h) = header_height s h - 1"
      by (simp add: tree.height_parent)
    have "P (anc s (blk_parent s h) k)" using less.hyps [of "blk_parent s h"] p P nz by simp
    then show ?thesis using tree.anc_parent [of s h k] assms(1,4) k nz by simp
  qed
qed

lemma ancestor_anc_on:
  assumes "tree_ok s" "up_closed s P" "skip_ok_on s P" "P b" "header_height s b = wh" "0 \<le> k" "k \<le> wh"
  shows "ancestor s b wh k = Some (anc s b k)"
  using assms(4,5,7)
proof (induction "nat wh" arbitrary: b wh rule: less_induct)
  case less
  have kn: "known s b" using assms(2) less.prems by (simp add: up_closed_def)
  show ?case
  proof (cases "k < wh")
    case False
    with less.prems have "k = wh" by simp
    with less.prems tree.anc_self [of s b] show ?thesis by (simp add: ancestor.simps)
  next
    case gt: True
    with assms(6) have nz: "header_height s b \<noteq> 0" "1 \<le> wh" using less.prems by simp_all
    let ?sh = "skip_height wh"
    have sk: "skip s b = Some (anc s b ?sh)" using assms(3) less.prems nz by (simp add: skip_ok_on_def)
    show ?thesis
    proof (cases "jump_ok ?sh (skip_height (wh - 1)) k")
      case True
      then have k: "k \<le> ?sh" by (auto simp: jump_ok_def)
      have sh: "?sh < wh" "0 \<le> ?sh" using skip_height_less skip_height_nonneg nz by simp_all
      then have a: "P (anc s b ?sh)" "header_height s (anc s b ?sh) = ?sh"
        using less.prems assms(1,2) kn up_closed_anc [of s P b ?sh] tree.anc_known_height [of s b ?sh]
        by simp_all
      have "ancestor s (anc s b ?sh) ?sh k = Some (anc s (anc s b ?sh) k)"
        using less.hyps [of ?sh "anc s b ?sh"] a k sh nz by simp
      also have "anc s (anc s b ?sh) k = anc s b k"
        using tree.anc_anc assms(1,6) less.prems kn k sh by simp
      finally show ?thesis using True gt sk by (simp add: ancestor.simps [of s b wh])
    next
      case False
      obtain bi where bi: "map_of (header_dict s) b = Some bi" "blk_parent s b = hdr_prev (bi_header bi)"
        using assms(1) kn by (metis knownE)
      have p: "P (blk_parent s b)" "header_height s (blk_parent s b) = wh - 1"
        using assms(1,2) less.prems nz kn by (simp_all add: up_closed_def tree.height_parent)
      have "ancestor s (blk_parent s b) (wh - 1) k = Some (anc s (blk_parent s b) k)"
        using less.hyps [of "wh - 1" "blk_parent s b"] p gt nz by simp
      also have "anc s (blk_parent s b) k = anc s b k"
        using tree.anc_parent assms(1,6) less.prems kn gt by simp
      finally show ?thesis using False gt bi by (simp add: ancestor.simps [of s b wh])
    qed
  qed
qed

lemma ancestor_anc:
  assumes "tree_ok s" "skip_ok s" "known s b" "header_height s b = wh" "0 \<le> k" "k \<le> wh"
  shows "ancestor s b wh k = Some (anc s b k)"
  using assms ancestor_anc_on [OF assms(1) up_closed_known [OF assms(1)]] by (simp add: skip_ok_def)

lemma get_ancestor_anc:
  assumes "tree_ok s" "skip_ok s" "known s b"
  shows "get_ancestor s b k =
    Some (if 0 \<le> k \<and> k \<le> header_height s b then Some (anc s b k) else None)"
proof -
  from assms obtain bi where bi: "map_of (header_dict s) b = Some bi" "header_height s b = bi_index bi"
    by (metis knownE)
  show ?thesis
  proof (cases "0 \<le> k \<and> k \<le> bi_index bi")
    case True
    then have "ancestor s b (bi_index bi) k = Some (anc s b k)"
      using ancestor_anc assms bi by simp
    with True bi show ?thesis by (simp add: get_ancestor_def)
  next
    case False
    with bi show ?thesis by (auto simp: get_ancestor_def)
  qed
qed

section \<open>The fork point of two blocks\<close>

definition fork_point :: "block_index \<Rightarrow> bytes \<Rightarrow> bytes \<Rightarrow> bytes \<Rightarrow> bool" where
  \<comment> \<open>\<open>c\<close> is the highest common ancestor of \<open>a\<close> and \<open>b\<close>\<close>
  "fork_point s a b c \<longleftrightarrow> known s c \<and> ancestor_of s c a \<and> ancestor_of s c b
     \<and> (\<forall>d. known s d \<longrightarrow> ancestor_of s d a \<longrightarrow> ancestor_of s d b \<longrightarrow> ancestor_of s d c)"

lemma lca_skip_anc:
  assumes "tree_ok s" "skip_ok s" "known s f" "known s g" "header_height s f = header_height s g" "f \<noteq> g"
  shows "\<exists>k. lca_skip s f g = Some (anc s f k, anc s g k) \<and> 0 < k \<and> k \<le> header_height s f
      \<and> anc s f k \<noteq> anc s g k"
  using assms(3-)
proof (induction "nat (header_height s f)" arbitrary: f g rule: less_induct)
  case less
  have pos: "0 < header_height s f"
    using tree.root_unique tree.height_nonneg assms(1) less.prems by (metis less_le)
  show ?case
  proof (cases "skip s f = skip s g")
    case True
    have "anc s f (header_height s f) = f" "anc s g (header_height s f) = g"
      using tree.anc_self [of s f] tree.anc_self [of s g] less.prems(3) by simp_all
    with True less.prems(4) pos show ?thesis
      by (intro exI [of _ "header_height s f"]) (simp add: lca_skip.simps [of s f g])
  next
    case False
    let ?k = "skip_height (header_height s f)"
    let ?f = "anc s f ?k" and ?g = "anc s g ?k"
    have sk: "skip s f = Some ?f" "skip s g = Some ?g"
      using assms(2) less.prems pos by (simp_all add: skip_ok_def skip_ok_on_def)
    have k: "0 \<le> ?k" "?k < header_height s f"
      using skip_height_nonneg skip_height_less pos by simp_all
    have f: "known s ?f \<and> header_height s ?f = ?k" "known s ?g \<and> header_height s ?g = ?k"
      using tree.anc_known_height [of s _ ?k] assms(1) less.prems k by simp_all
    have "?f \<noteq> ?g" using False sk by simp
    then obtain j where j: "lca_skip s ?f ?g = Some (anc s ?f j, anc s ?g j)" "0 < j" "j \<le> ?k"
      "anc s ?f j \<noteq> anc s ?g j"
      using less.hyps [of ?f ?g] f k by auto
    moreover have "anc s ?f j = anc s f j" "anc s ?g j = anc s g j"
      using tree.anc_anc [of s _ j ?k] assms(1) less.prems j k by simp_all
    ultimately show ?thesis
      using False sk k by (intro exI [of _ j]) (simp add: lca_skip.simps [of s f g])
  qed
qed

lemma fork_point_parents:
  assumes "tree_ok s" "known s f" "known s g" "0 < k" "k \<le> header_height s f" "k \<le> header_height s g"
    and "anc s f k \<noteq> anc s g k"
    and "fork_point s (blk_parent s (anc s f k)) (blk_parent s (anc s g k)) c"
  shows "fork_point s f g c"
proof -
  let ?f = "anc s f k" and ?g = "anc s g k"
  have a: "known s ?f" "header_height s ?f = k" "known s ?g" "header_height s ?g = k"
    using assms tree.anc_known_height by simp_all
  have c: "known s c" "ancestor_of s c (blk_parent s ?f)" "ancestor_of s c (blk_parent s ?g)"
    using assms(8) by (simp_all add: fork_point_def)
  have p: "known s (blk_parent s ?f)" "known s (blk_parent s ?g)"
    "ancestor_of s (blk_parent s ?f) ?f" "ancestor_of s (blk_parent s ?g) ?g"
    using assms a by (simp_all add: tree.known_parent tree.is_anc_parent)
  have up: "ancestor_of s ?f f" "ancestor_of s ?g g"
    using assms by (simp_all add: tree.is_anc_anc)
  have "ancestor_of s c f" "ancestor_of s c g"
    using tree.is_anc_trans assms(1-3) a c p up by metis+
  moreover have "ancestor_of s d c" if d: "known s d" "ancestor_of s d f" "ancestor_of s d g" for d
  proof -
    have nn: "0 \<le> header_height s d" using tree.height_nonneg assms(1) d by blast
    have dk: "header_height s d < k"
    proof (rule ccontr)
      assume "\<not> header_height s d < k"
      then have "anc s (anc s f (header_height s d)) k = ?f" "anc s (anc s g (header_height s d)) k = ?g"
        using d assms(1-4) tree.anc_anc [of s f k "header_height s d"]
          tree.anc_anc [of s g k "header_height s d"] by (simp_all add: is_anc_def)
      then have "?f = anc s d k" "?g = anc s d k" using d by (simp_all add: is_anc_def)
      with assms(7) show False by simp
    qed
    have "ancestor_of s d (blk_parent s ?f)" "ancestor_of s d (blk_parent s ?g)"
      using d dk nn a assms(1-6) tree.anc_anc [of s f "header_height s d" k]
        tree.anc_anc [of s g "header_height s d" k]
        tree.anc_parent [of s ?f "header_height s d"] tree.anc_parent [of s ?g "header_height s d"]
      by (simp_all add: is_anc_def tree.height_parent)
    with d assms(8) show ?thesis by (simp add: fork_point_def)
  qed
  ultimately show ?thesis using c by (simp add: fork_point_def)
qed

lemma lca_loop_fork_point:
  assumes "tree_ok s" "skip_ok s" "known s f" "known s g" "header_height s f = header_height s g"
  shows "\<exists>c. lca_loop s f g = Some c \<and> fork_point s f g c"
  using assms(3-)
proof (induction "nat (header_height s f)" arbitrary: f g rule: less_induct)
  case less
  show ?case
  proof (cases "f = g")
    case True
    with less.prems show ?thesis by (simp add: lca_loop.simps fork_point_def tree.is_anc_refl)
  next
    case False
    from lca_skip_anc [OF assms(1,2) less.prems False] obtain k where
      k: "lca_skip s f g = Some (anc s f k, anc s g k)" "0 < k" "k \<le> header_height s f"
      "anc s f k \<noteq> anc s g k" by blast
    let ?f = "anc s f k" and ?g = "anc s g k"
    have a: "known s ?f" "header_height s ?f = k" "known s ?g" "header_height s ?g = k"
      using assms(1) less.prems k tree.anc_known_height by simp_all
    obtain bf bg where b: "map_of (header_dict s) ?f = Some bf" "blk_parent s ?f = hdr_prev (bi_header bf)"
      "map_of (header_dict s) ?g = Some bg" "blk_parent s ?g = hdr_prev (bi_header bg)"
      using assms(1) a by (metis knownE)
    have p: "known s (blk_parent s ?f)" "header_height s (blk_parent s ?f) = k - 1"
      "known s (blk_parent s ?g)" "header_height s (blk_parent s ?g) = k - 1"
      using assms(1) a k by (simp_all add: tree.known_parent tree.height_parent)
    then obtain c where c: "lca_loop s (blk_parent s ?f) (blk_parent s ?g) = Some c"
      "fork_point s (blk_parent s ?f) (blk_parent s ?g) c"
      using less.hyps [of "blk_parent s ?f" "blk_parent s ?g"] k by auto
    have "lca_loop s f g = Some c" using False k b c(1) by (simp add: lca_loop.simps [of s f g])
    moreover have "fork_point s f g c"
      using fork_point_parents [of s f g k c] assms(1) less.prems k c(2) by simp
    ultimately show ?thesis by blast
  qed
qed

lemma fork_point_lower:
  assumes "tree_ok s" "known s f" "known s g" "0 \<le> header_height s g"
    and "header_height s g \<le> header_height s f"
    and "fork_point s (anc s f (header_height s g)) g c"
  shows "fork_point s f g c"
proof -
  let ?k = "header_height s g"
  let ?f = "anc s f ?k"
  have a: "known s ?f" "header_height s ?f = ?k" "ancestor_of s ?f f"
    using assms tree.anc_known_height tree.is_anc_anc by simp_all
  have d: "ancestor_of s d ?f" if "known s d" "ancestor_of s d f" "ancestor_of s d g" for d
    using that assms a tree.anc_anc [of s f "header_height s d" ?k] tree.height_nonneg [of s d]
    by (simp add: is_anc_def)
  have "ancestor_of s c f"
    using tree.is_anc_trans [of s f c ?f] assms a by (simp add: fork_point_def)
  with assms(6) d show ?thesis by (auto simp: fork_point_def)
qed

lemma fork_point_commute: "fork_point s f g c = fork_point s g f c"
  by (auto simp: fork_point_def)

lemma last_common_ancestor_fork_point:
  assumes "tree_ok s" "skip_ok s" "known s a" "known s b"
  shows "\<exists>c. last_common_ancestor s a b = Some c \<and> fork_point s a b c"
proof -
  obtain ba bb where bi: "map_of (header_dict s) a = Some ba" "header_height s a = bi_index ba"
    "map_of (header_dict s) b = Some bb" "header_height s b = bi_index bb"
    using assms by (metis knownE)
  have nn: "0 \<le> header_height s a" "0 \<le> header_height s b"
    using assms tree.height_nonneg by blast+
  consider "header_height s a > header_height s b" | "header_height s b > header_height s a"
    | "header_height s a = header_height s b" by linarith
  then show ?thesis
  proof cases
    case 1
    let ?a = "anc s a (header_height s b)"
    have k: "known s ?a \<and> header_height s ?a = header_height s b"
      using assms 1 nn tree.anc_known_height by simp
    then obtain c where c: "lca_loop s ?a b = Some c" "fork_point s ?a b c"
      using lca_loop_fork_point assms by blast
    have "ancestor s a (bi_index ba) (bi_index bb) = Some ?a"
      using ancestor_anc [of s a "bi_index ba" "bi_index bb"] assms 1 nn bi by simp
    with 1 bi c(1) have "last_common_ancestor s a b = Some c" by (simp add: last_common_ancestor_def)
    with fork_point_lower [of s a b c] assms 1 nn c(2) show ?thesis by simp
  next
    case 2
    let ?b = "anc s b (header_height s a)"
    have k: "known s ?b \<and> header_height s ?b = header_height s a"
      using assms 2 nn tree.anc_known_height by simp
    then obtain c where c: "lca_loop s a ?b = Some c" "fork_point s a ?b c"
      using lca_loop_fork_point [of s a ?b] assms by auto
    have "ancestor s b (bi_index bb) (bi_index ba) = Some ?b"
      using ancestor_anc [of s b "bi_index bb" "bi_index ba"] assms 2 nn bi by simp
    with 2 bi c(1) have "last_common_ancestor s a b = Some c" by (simp add: last_common_ancestor_def)
    with fork_point_lower [of s b a c] assms 2 nn c(2) show ?thesis
      by (simp add: fork_point_commute)
  next
    case 3
    with lca_loop_fork_point [of s a b] assms bi show ?thesis
      by (simp add: last_common_ancestor_def)
  qed
qed

lemma fork_point_unique:
  assumes "tree_ok s" "known s a" "fork_point s a b c" "fork_point s a b d"
  shows "c = d"
proof -
  have "ancestor_of s c d" "ancestor_of s d c" using assms by (simp_all add: fork_point_def)
  then show ?thesis using tree.anc_self [of s c] by (simp add: is_anc_def) (metis order_antisym tree.anc_self)
qed

section \<open>Locators\<close>

definition header_index_ok :: "block_index \<Rightarrow> bool" where
  "header_index_ok s \<longleftrightarrow> is_chain s (header_index s)
     \<and> (\<forall>h i. header_index_pos s h = Some i \<longleftrightarrow>
          0 \<le> i \<and> i < int (length (header_index s)) \<and> header_index s ! nat i = h)"

text \<open>The heights a locator visits: one apart at first, then twice as far apart each time.\<close>

function locator_heights :: "int \<Rightarrow> int \<Rightarrow> nat \<Rightarrow> int list" where
  "locator_heights height step n =
     (if height \<le> 0 \<or> step \<le> 0 then [height]
      else height # locator_heights (max (height - step) 0)
                      (if Suc n > 10 then step * 2 else step) (Suc n))"
  by pat_completeness auto
termination by (relation "measure (\<lambda>(height, _). nat height)") auto

declare locator_heights.simps [simp del]

lemma on_header_index_anc:
  assumes "tree_ok s" "header_index_ok s" "header_index_pos s h = Some (header_height s h)" "known s h"
    and "0 \<le> k" "k \<le> header_height s h"
  shows "py_nth (header_index s) k = Some (anc s h k)"
proof -
  let ?xs = "header_index s"
  have ch: "is_chain s ?xs" using assms by (simp add: header_index_ok_def)
  have l: "header_height s h < int (length ?xs)" "?xs ! nat (header_height s h) = h"
    using assms by (auto simp: header_index_ok_def)
  have hn: "0 \<le> header_height s h" using assms by simp
  have "known s (last ?xs)" "header_height s (last ?xs) = int (length ?xs) - 1"
    using tree.chain_of_last ch by blast+
  then have "anc s (anc s (last ?xs) (header_height s h)) k = anc s (last ?xs) k"
    using assms l by (intro tree.anc_anc) simp_all
  moreover have "anc s (last ?xs) (header_height s h) = h"
    using tree.chain_of_anc [OF assms(1) ch, of "nat (header_height s h)"] l hn by simp
  moreover have "?xs ! nat k = anc s (last ?xs) k"
    using tree.chain_of_anc [OF assms(1) ch, of "nat k"] l assms by simp
  ultimately show ?thesis using l assms by (simp add: py_simps)
qed

lemma locator_loop_heights:
  assumes "tree_ok s" "skip_ok s" "known s h"
    and "on \<Longrightarrow> header_index_ok s \<and> header_index_pos s h = Some (header_height s h)"
    and "0 \<le> k" "k \<le> header_height s h" "1 \<le> step"
  shows "locator_loop s on k step (anc s h k) have =
         Some (have @ map (anc s h) (locator_heights k step (length have)))"
  using assms(5-)
proof (induction "nat k" arbitrary: k step "have" rule: less_induct)
  case less
  show ?case
  proof (cases "k = 0")
    case True
    then show ?thesis by (simp add: locator_loop.simps [of s on] locator_heights.simps Let_def)
  next
    case False
    let ?k = "max (k - step) 0"
    let ?step = "if 10 < Suc (length have) then step * 2 else step"
    have lt: "0 \<le> ?k" "?k < k" "?k \<le> header_height s h" using False less.prems by auto
    have kk: "known s (anc s h k) \<and> header_height s (anc s h k) = k"
      using assms less.prems tree.anc_known_height by simp
    have step: "(if on then py_nth (header_index s) ?k
        else Option.bind (get_ancestor s (anc s h k) ?k) id) = Some (anc s h ?k)"
    proof (cases on)
      case True
      with assms(4) on_header_index_anc [of s h ?k] assms(1,3) lt show ?thesis by simp
    next
      case off: False
      have "anc s (anc s h k) ?k = anc s h ?k"
        using tree.anc_anc [of s h ?k k] assms less.prems lt by simp
      with off get_ancestor_anc [of s "anc s h k" ?k] kk assms(1,2) lt show ?thesis by simp
    qed
    have "locator_loop s on ?k ?step (anc s h ?k) (have @ [anc s h k])
        = Some ((have @ [anc s h k]) @ map (anc s h) (locator_heights ?k ?step (Suc (length have))))"
      using less.hyps [of ?k ?step "have @ [anc s h k]"] lt less.prems by auto
    moreover have "locator_loop s on k step (anc s h k) have
        = locator_loop s on ?k ?step (anc s h ?k) (have @ [anc s h k])"
      using False step by (simp add: locator_loop.simps [of s on k] Let_def)
    ultimately show ?thesis
      using False less.prems by (simp add: locator_heights.simps [of k])
  qed
qed

lemma locator_entries_heights:
  assumes "tree_ok s" "skip_ok s" "header_index_ok s" "known s h"
  shows "locator_entries s h = Some (map (anc s h) (locator_heights (header_height s h) 1 0))"
proof -
  obtain bi where bi: "map_of (header_dict s) h = Some bi" "header_height s h = bi_index bi"
    using assms by (metis knownE)
  have "0 \<le> header_height s h" using assms tree.height_nonneg by blast
  moreover have "anc s h (bi_index bi) = h" using tree.anc_self [of s h] bi by simp
  ultimately show ?thesis
    using locator_loop_heights [of s h "header_index_pos s h = Some (bi_index bi)" "bi_index bi" 1 "[]"]
      assms bi by (simp add: locator_entries_def)
qed

lemma locator_heights_shape:
  assumes "0 \<le> k" "1 \<le> step"
  shows "hd (locator_heights k step n) = k \<and> last (locator_heights k step n) = 0
    \<and> locator_heights k step n \<noteq> [] \<and> sorted_wrt (>) (locator_heights k step n)
    \<and> (\<forall>j\<in>set (locator_heights k step n). 0 \<le> j \<and> j \<le> k)"
  using assms
proof (induction k step n rule: locator_heights.induct)
  case (1 height step n)
  show ?case
  proof (cases "height = 0")
    case True
    then show ?thesis by (simp add: locator_heights.simps)
  next
    case False
    let ?rest = "locator_heights (max (height - step) 0)
                      (if Suc n > 10 then step * 2 else step) (Suc n)"
    have e: "locator_heights height step n = height # ?rest"
      using False "1.prems" by (simp add: locator_heights.simps [of height])
    have IH: "last ?rest = 0 \<and> ?rest \<noteq> [] \<and> sorted_wrt (>) ?rest
      \<and> (\<forall>j\<in>set ?rest. 0 \<le> j \<and> j \<le> max (height - step) 0)"
      using "1.IH" False "1.prems" by auto
    have lt: "max (height - step) 0 < height" using False "1.prems" by simp
    have j: "0 \<le> j \<and> j < height" if "j \<in> set ?rest" for j
      using IH that lt by (meson le_less_trans)
    then have "sorted_wrt (>) (height # ?rest)" using IH by simp
    moreover have "0 \<le> j \<and> j \<le> height" if "j \<in> set (height # ?rest)" for j
      using j that "1.prems"(1) by (metis less_imp_le order_refl set_ConsD)
    moreover have "last (height # ?rest) = 0" using IH by simp
    ultimately show ?thesis unfolding e by (metis list.distinct(1) list.sel(1))
  qed
qed

end
