(* ===== verification/Index_Chains.thy ===== *)
theory Index_Chains
  imports Index_Ancestor
begin

text \<open>
  Chains of blocks: the position table of the best header chain, where a block leaves a chain
  (\<open>get_fork_details\<close>), and the reorganisation of the best header chain onto another branch.
\<close>

section \<open>Frames and extensions\<close>

lemma same_tree:
  assumes "header_dict s' = header_dict s"
  shows "known s' = known s" "blk_parent s' = blk_parent s" "header_height s' = header_height s"
  using assms by (auto simp: fun_eq_iff known_def blk_parent_def header_height_def)

lemma same_tree_ok:
  assumes "header_dict s' = header_dict s" "chain s' = chain s"
  shows "tree_ok s' = tree_ok s"
  using assms same_tree(1) [OF assms(1)] by (simp add: tree_ok_def info_ok_def)

definition tree_extends :: "block_index \<Rightarrow> block_index \<Rightarrow> bool" where
  "tree_extends s s' \<longleftrightarrow> (\<forall>h. known s h \<longrightarrow> known s' h
     \<and> header_height s' h = header_height s h \<and> blk_parent s' h = blk_parent s h)"

lemma anc_extends:
  assumes "tree_ok s" "tree_extends s s'" "known s h" "0 \<le> k" "k \<le> header_height s h"
  shows "anc s' h k = anc s h k"
  using assms(3,5)
proof (induction "nat (header_height s h - k)" arbitrary: h rule: less_induct)
  case less
  have e: "header_height s' h = header_height s h" "blk_parent s' h = blk_parent s h"
    using assms(2) less.prems by (simp_all add: tree_extends_def)
  show ?case
  proof (cases "k = header_height s h")
    case True
    with e show ?thesis by (simp add: anc_at_def)
  next
    case False
    with less.prems assms(4) have nz: "header_height s h \<noteq> 0" "k < header_height s h" by simp_all
    let ?p = "blk_parent s h"
    have p: "known s ?p" "header_height s ?p = header_height s h - 1"
      using assms(1) less.prems nz by (simp_all add: tree.known_parent tree.height_parent)
    then have ep: "header_height s' ?p = header_height s ?p"
      using assms(2) by (simp add: tree_extends_def)
    have n: "nat (header_height s h - k) = Suc (nat (header_height s ?p - k))"
      using nz p by simp
    have "anc s' h k = anc s' ?p k"
      using n e ep by (simp add: anc_at_def funpow_swap1)
    also have "\<dots> = anc s ?p k" using less.hyps [of ?p] p nz by simp
    also have "\<dots> = anc s h k" using tree.anc_parent [of s h k] assms(1,4) less.prems nz by simp
    finally show ?thesis .
  qed
qed

lemma is_chain_extends:
  assumes "tree_extends s s'" "is_chain s xs"
  shows "is_chain s' xs"
  using assms by (auto simp: chain_of_def tree_extends_def)

section \<open>Positions\<close>

definition pos_of :: "bytes list \<Rightarrow> (bytes \<rightharpoonup> int) \<Rightarrow> bool" where
  "pos_of xs m \<longleftrightarrow> (\<forall>h i. m h = Some i \<longleftrightarrow> 0 \<le> i \<and> i < int (length xs) \<and> xs ! nat i = h)"

lemma header_index_ok_alt:
  "header_index_ok s \<longleftrightarrow> is_chain s (header_index s) \<and> pos_of (header_index s) (header_index_pos s)"
  by (simp add: header_index_ok_def pos_of_def)

lemma pos_of_Nil: "pos_of [] Map.empty"
  by (simp add: pos_of_def)

lemma pos_of_None_iff: "pos_of xs m \<Longrightarrow> m h = None \<longleftrightarrow> h \<notin> set xs"
proof -
  assume p: "pos_of xs m"
  have "(\<exists>i. m h = Some i) \<longleftrightarrow> h \<in> set xs"
  proof
    assume "h \<in> set xs"
    then obtain j where "j < length xs" "xs ! j = h" by (auto simp: in_set_conv_nth)
    then have "m h = Some (int j)" using p by (simp add: pos_of_def)
    then show "\<exists>i. m h = Some i" by blast
  next
    assume "\<exists>i. m h = Some i"
    then show "h \<in> set xs" using p by (auto simp: pos_of_def nat_less_iff)
  qed
  then show ?thesis by auto
qed

lemma pos_of_snoc:
  assumes "pos_of xs m" "h \<notin> set xs"
  shows "pos_of (xs @ [h]) (m(h \<mapsto> int (length xs)))"
proof -
  have none: "m h = None" using pos_of_None_iff assms by blast
  have "(m(h \<mapsto> int (length xs))) g = Some i \<longleftrightarrow>
    0 \<le> i \<and> i < int (length (xs @ [h])) \<and> (xs @ [h]) ! nat i = g" for g i
  proof (cases "0 \<le> i \<and> i < int (length xs)")
    case True
    then have lt: "nat i < length xs" by (simp add: nat_less_iff)
    with True assms show ?thesis
      by (cases "g = h") (auto simp: pos_of_def nth_append)
  next
    case False
    then have "m g \<noteq> Some i" using assms(1) by (auto simp: pos_of_def)
    with False show ?thesis by (auto simp: nth_append nat_less_iff)
  qed
  then show ?thesis by (simp add: pos_of_def)
qed

lemma pos_of_butlast:
  assumes "pos_of (xs @ [h]) m" "h \<notin> set xs"
  shows "pos_of xs (m(h := None))"
proof -
  have "(m(h := None)) g = Some i \<longleftrightarrow> 0 \<le> i \<and> i < int (length xs) \<and> xs ! nat i = g" for g i
  proof (cases "0 \<le> i \<and> i < int (length xs)")
    case True
    then have lt: "nat i < length xs" by (simp add: nat_less_iff)
    with assms(2) have "xs ! nat i \<noteq> h" by auto
    with True lt assms(1) show ?thesis by (auto simp: pos_of_def nth_append)
  next
    case False
    have "m g = Some i \<Longrightarrow> g = h"
    proof -
      assume "m g = Some i"
      then have "0 \<le> i" "i < int (length (xs @ [h]))" "(xs @ [h]) ! nat i = g"
        using assms(1) by (auto simp: pos_of_def)
      moreover from this False have "i = int (length xs)" by simp
      ultimately show "g = h" by simp
    qed
    with False show ?thesis by auto
  qed
  then show ?thesis by (simp add: pos_of_def)
qed

lemma add_positions_pos_of:
  assumes "pos_of xs m" "distinct (xs @ ys)"
  shows "pos_of (xs @ ys) (add_positions (int (length xs)) ys m)"
  using assms
proof (induction ys arbitrary: xs m)
  case (Cons y ys)
  then have "pos_of (xs @ [y]) (m(y \<mapsto> int (length xs)))" by (simp add: pos_of_snoc)
  with Cons.IH [of "xs @ [y]"] Cons.prems(2) show ?case by (simp add: add.commute)
qed simp

lemma del_keys_restrict:
  assumes "distinct ys" "\<forall>y\<in>set ys. m y \<noteq> None"
  shows "del_keys ys m = Some (m |` (- set ys))"
  using assms
proof (induction ys arbitrary: m)
  case (Cons y ys)
  have "del_keys ys (m(y := None)) = Some ((m(y := None)) |` (- set ys))"
    by (rule Cons.IH) (use Cons.prems in auto)
  moreover have "(m(y := None)) |` (- set ys) = m |` (- set (y # ys))"
    by (auto simp: restrict_map_def fun_eq_iff)
  moreover have "del_keys (y # ys) m = del_keys ys (m(y := None))" using Cons.prems by auto
  ultimately show ?case by (simp only:)
qed (simp add: restrict_map_def)

lemma pos_of_restrict:
  assumes "pos_of (xs @ ys) m" "distinct (xs @ ys)"
  shows "pos_of xs (m |` (- set ys))"
  using assms
proof (induction ys arbitrary: m rule: rev_induct)
  case Nil
  then show ?case by (simp add: restrict_map_def)
next
  case (snoc y ys)
  then have p: "pos_of (xs @ ys) (m(y := None))" by (intro pos_of_butlast) auto
  have "pos_of xs ((m(y := None)) |` (- set ys))"
    by (rule snoc.IH [OF p]) (use snoc.prems(2) in simp)
  moreover have "(m(y := None)) |` (- set ys) = m |` (- set (ys @ [y]))"
    by (auto simp: restrict_map_def fun_eq_iff)
  ultimately show ?case by (simp only:)
qed

lemma del_keys_pos_of:
  assumes "pos_of xs m" "distinct xs"
  shows "\<exists>m'. del_keys (drop n xs) m = Some m' \<and> pos_of (take n xs) m'"
proof -
  have "\<forall>y\<in>set (drop n xs). m y \<noteq> None"
    using pos_of_None_iff [OF assms(1)] by (auto dest: in_set_dropD)
  then have "del_keys (drop n xs) m = Some (m |` (- set (drop n xs)))"
    using assms(2) by (intro del_keys_restrict) auto
  moreover have "pos_of (take n xs) (m |` (- set (drop n xs)))"
    using assms by (intro pos_of_restrict) simp_all
  ultimately show ?thesis by blast
qed

lemma add_positions_Nil_map_of:
  "distinct xs \<Longrightarrow> add_positions b xs m = m ++ map_of (zip xs (map (\<lambda>i. b + int i) [0..<length xs]))"
proof (induction xs arbitrary: b m)
  case (Cons x xs)
  have e: "map (\<lambda>i. b + int i) [0..<length (x # xs)] = b # map (\<lambda>i. (b + 1) + int i) [0..<length xs]"
    by (simp add: map_upt_Suc add.assoc del: upt_Suc)
  let ?M = "map_of (zip xs (map (\<lambda>i. (b + 1) + int i) [0..<length xs]))"
  have "x \<notin> dom ?M"
    using Cons.prems by (auto simp: dom_map_of_conv_image_fst dest: set_zip_leftD)
  then have u: "(m(x \<mapsto> b)) ++ ?M = (m ++ ?M)(x \<mapsto> b)" by (rule map_add_upd_left)
  have "add_positions (b + 1) xs (m(x \<mapsto> b)) = (m(x \<mapsto> b)) ++ ?M"
    by (rule Cons.IH) (use Cons.prems in simp)
  then have "add_positions b (x # xs) m = (m(x \<mapsto> b)) ++ ?M" by (simp only: add_positions.simps)
  also have "\<dots> = m ++ map_of (zip (x # xs) (b # map (\<lambda>i. (b + 1) + int i) [0..<length xs]))"
    by (simp only: u zip_Cons_Cons map_of.simps fst_conv snd_conv map_add_upd)
  finally show ?case by (simp only: e)
qed simp

lemma positions_pos_of:
  assumes "distinct xs"
  shows "pos_of xs (positions xs)"
proof -
  have d: "distinct (map fst (zip xs (map int [0..<length xs])))" using assms by simp
  then have "positions xs = map_of (zip xs (map int [0..<length xs]))"
    unfolding positions_def
    by (metis map_of_inject_set distinct_rev rev_map set_rev)
  also have "\<dots> = add_positions 0 xs Map.empty"
    using add_positions_Nil_map_of [OF assms, of 0 Map.empty] by simp
  finally show ?thesis using add_positions_pos_of [OF pos_of_Nil, of xs] assms by simp
qed

section \<open>Where a block leaves a chain\<close>

text \<open>
  The result is the branch from just above the fork point up to the block, and what of the chain
  it replaces: \<open>k\<close> is the lowest height of the branch.
\<close>

definition leaves_at :: "block_index \<Rightarrow> bytes list \<Rightarrow> bytes \<Rightarrow> int \<Rightarrow> bool" where
  "leaves_at s xs h k \<longleftrightarrow> 1 \<le> k \<and> k \<le> header_height s h \<and> k \<le> int (length xs)
     \<and> anc s h (k - 1) = xs ! nat (k - 1)
     \<and> (\<forall>j. k < j \<and> j \<le> header_height s h \<and> j \<le> int (length xs) \<longrightarrow> anc s h (j - 1) \<noteq> xs ! nat (j - 1))"

lemma chain_root:
  assumes "tree_ok s" "is_chain s xs" "known s h"
  shows "xs ! 0 = anc s h 0" "known s (xs ! 0)"
proof -
  have ne: "xs \<noteq> []" using assms(2) by (simp add: chain_of_def)
  then have k: "known s (xs ! 0)" "header_height s (xs ! 0) = 0"
    using assms(2) by (auto simp: chain_of_def)
  have "known s (anc s h 0) \<and> header_height s (anc s h 0) = 0"
    using assms tree.height_nonneg by (intro tree.anc_known_height) auto
  with k assms(1) show "xs ! 0 = anc s h 0" "known s (xs ! 0)"
    using tree.root_unique by blast+
qed

lemma fork_loop_leaves_at:
  assumes "tree_ok s" "is_chain s xs" "known s h" "1 \<le> header_height s h"
  shows "\<exists>k. leaves_at s xs h k \<and> fork_loop s xs h fork
     = Some (map (anc s h) [k..header_height s h - 1] @ rev fork, drop (nat k) xs)"
  using assms(3,4)
proof (induction "nat (header_height s h)" arbitrary: h fork rule: less_induct)
  case less
  let ?j = "header_height s h" and ?p = "blk_parent s h"
  obtain bi where bi: "map_of (header_dict s) h = Some bi" "?j = bi_index bi" "?p = hdr_prev (bi_header bi)"
    using assms(1) less.prems by (metis knownE)
  have p: "known s ?p" "header_height s ?p = ?j - 1"
    using assms(1) less.prems by (simp_all add: tree.known_parent tree.height_parent)
  have ap: "anc s h (?j - 1) = ?p"
    using tree.anc_parent [of s h "?j - 1"] tree.anc_self [of s ?p] assms(1) less.prems p by simp
  have ne: "xs \<noteq> []" using assms(2) by (simp add: chain_of_def)
  show ?case
  proof (cases "?j \<le> int (length xs) \<and> ?p = xs ! nat (?j - 1)")
    case True
    then have "py_nth xs (?j - 1) = Some ?p" using less.prems by (simp add: py_simps)
    then have "fork_loop s xs h fork = Some (rev fork, drop (nat ?j) xs)"
      using True bi by (simp add: fork_loop.simps [of s xs h] slice_from_def)
    moreover have "leaves_at s xs h ?j" unfolding leaves_at_def using True less.prems ap by auto
    ultimately show ?thesis by (intro exI [of _ ?j]) simp
  next
    case False
    have "?j \<noteq> 1"
    proof
      assume "?j = 1"
      then have "?p = xs ! 0"
        using chain_root [OF assms(1,2), of h] less.prems ap by simp
      with \<open>?j = 1\<close> False ne show False by (simp add: Suc_leI)
    qed
    with less.prems have j2: "2 \<le> ?j" by simp
    have step: "fork_loop s xs h fork = fork_loop s xs ?p (fork @ [?p])"
      using False bi less.prems by (auto simp: fork_loop.simps [of s xs h] py_simps Let_def)
    obtain k where k: "leaves_at s xs ?p k"
      "fork_loop s xs ?p (fork @ [?p]) = Some (map (anc s ?p) [k..?j - 2] @ rev (fork @ [?p]), drop (nat k) xs)"
      using less.hyps [of ?p "fork @ [?p]"] p j2 by auto
    have same: "anc s h i = anc s ?p i" if "0 \<le> i" "i < ?j" for i
      using tree.anc_parent [of s h i] assms(1) less.prems that by simp
    have kb: "1 \<le> k" "k \<le> ?j - 1" using k(1) p by (simp_all add: leaves_at_def)
    have "leaves_at s xs h k"
      unfolding leaves_at_def
    proof (intro conjI allI impI)
      show "1 \<le> k" "k \<le> ?j" "k \<le> int (length xs)" using k(1) p by (simp_all add: leaves_at_def)
      show "anc s h (k - 1) = xs ! nat (k - 1)"
        using same [of "k - 1"] k(1) kb by (simp add: leaves_at_def)
      fix i assume i: "k < i \<and> i \<le> ?j \<and> i \<le> int (length xs)"
      show "anc s h (i - 1) \<noteq> xs ! nat (i - 1)"
      proof (cases "i = ?j")
        case True
        with False i ap show ?thesis by auto
      next
        case ne: False
        with i have "i \<le> header_height s ?p" using p by simp
        with i k(1) same [of "i - 1"] kb show ?thesis by (simp add: leaves_at_def)
      qed
    qed
    moreover have "map (anc s h) [k..?j - 1] = map (anc s ?p) [k..?j - 2] @ [?p]"
    proof -
      have "[k..?j - 1] = [k..?j - 2] @ [?j - 1]" using kb upto_rec2 [of k "?j - 1"] by simp
      with same kb ap show ?thesis by simp
    qed
    ultimately show ?thesis using step k(2) by (intro exI [of _ k]) simp
  qed
qed

lemma get_fork_details_leaves_at:
  assumes "tree_ok s" "is_chain s xs" "known s h" "1 \<le> header_height s h"
    and "xs = (case ch of None \<Rightarrow> active_chain s | Some ys \<Rightarrow> if ys = [] then active_chain s else ys)"
  shows "\<exists>k. leaves_at s xs h k \<and> get_fork_details s h ch
     = Some (map (anc s h) [k..header_height s h], drop (nat k) xs)"
proof -
  obtain k where k: "leaves_at s xs h k"
    "fork_loop s xs h [h] = Some (map (anc s h) [k..header_height s h - 1] @ [h], drop (nat k) xs)"
    using fork_loop_leaves_at [OF assms(1-4), of "[h]"] by auto
  have "[k..header_height s h] = [k..header_height s h - 1] @ [header_height s h]"
    using k(1) upto_rec2 [of k "header_height s h"] by (simp add: leaves_at_def)
  then have "map (anc s h) [k..header_height s h] = map (anc s h) [k..header_height s h - 1] @ [h]"
    by (simp add: tree.anc_self)
  with k assms(5) show ?thesis by (auto simp: get_fork_details_def split: option.splits)
qed

text \<open>The chain of a block, and the chain a reorganisation leaves.\<close>

lemma is_chain_anc:
  assumes "tree_ok s" "known s h"
  shows "is_chain s (map (anc s h) [0..header_height s h])"
proof -
  have nn: "0 \<le> header_height s h" using assms tree.height_nonneg by blast
  have len: "length [0..header_height s h] = nat (header_height s h + 1)" using nn by simp
  have nth: "[0..header_height s h] ! i = int i" if "i < nat (header_height s h + 1)" for i
    using that nth_upto [of 0 i "header_height s h"] by simp
  show ?thesis
    unfolding chain_of_def
  proof (intro conjI allI impI)
    show "map (anc s h) [0..header_height s h] \<noteq> []" using nn by simp
    fix i assume "i < length (map (anc s h) [0..header_height s h])"
    then have i: "i < nat (header_height s h + 1)" using len by simp
    then show "known s (map (anc s h) [0..header_height s h] ! i)"
      "header_height s (map (anc s h) [0..header_height s h] ! i) = int i"
      using tree.anc_known_height [of s h "int i"] assms nth len by simp_all
  next
    fix i assume "Suc i < length (map (anc s h) [0..header_height s h])"
    then have i: "Suc i < nat (header_height s h + 1)" using len by simp
    let ?a = "anc s h (int (Suc i))"
    have a: "known s ?a \<and> header_height s ?a = int (Suc i)"
      using assms i by (intro tree.anc_known_height) simp_all
    have "anc s ?a (int i) = anc s h (int i)"
      using tree.anc_anc [of s h "int i" "int (Suc i)"] assms i by simp
    moreover have "anc s ?a (int i) = blk_parent s ?a"
      using tree.anc_parent [of s ?a "int i"] tree.anc_self [of s "blk_parent s ?a"]
        tree.height_parent [of s ?a] a assms(1) by simp
    ultimately show "blk_parent s (map (anc s h) [0..header_height s h] ! Suc i)
        = map (anc s h) [0..header_height s h] ! i"
      using nth [of i] nth [of "Suc i"] i len by simp
  qed
qed

lemma kept_and_added:
  assumes "tree_ok s" "is_chain s xs" "known s h" "leaves_at s xs h k"
  shows "take (nat k) xs @ map (anc s h) [k..header_height s h] = map (anc s h) [0..header_height s h]"
proof -
  have k: "1 \<le> k" "k \<le> header_height s h" "k \<le> int (length xs)" "anc s h (k - 1) = xs ! nat (k - 1)"
    using assms(4) by (simp_all add: leaves_at_def)
  have len: "nat k \<le> length xs" using k by simp
  let ?ys = "take (nat k) xs"
  have ys: "is_chain s ?ys" using tree.chain_of_take assms(2) k by simp
  have l: "last ?ys = xs ! nat (k - 1)"
    using k len by (subst last_conv_nth) (auto simp: nat_diff_distrib)
  have "?ys = map (anc s h) [0..k - 1]"
  proof (rule nth_equalityI)
    show "length ?ys = length (map (anc s h) [0..k - 1])" using len k by simp
    fix i assume i: "i < length ?ys"
    then have ik: "i < nat k" by simp
    have "?ys ! i = anc s (anc s h (k - 1)) (int i)"
      using tree.chain_of_anc [OF assms(1) ys i] l k by simp
    also have "\<dots> = anc s h (int i)" using tree.anc_anc [of s h "int i" "k - 1"] assms k ik by simp
    finally show "?ys ! i = map (anc s h) [0..k - 1] ! i" using ik k by simp
  qed
  moreover have "[0..header_height s h] = [0..k - 1] @ [k..header_height s h]"
    using upto_split1 [of 0 k "header_height s h"] k by simp
  ultimately show ?thesis by simp
qed

lemma reorg_header_index_ok:
  assumes "tree_ok s" "header_index_ok s" "known s h" "h \<notin> set (header_index s)"
    and "\<not> ancestor_of s (last (header_index s)) h"
  shows "\<exists>xs m. reorg_header_index h s = Some (s\<lparr>header_index := xs, header_index_pos := m\<rparr>)
     \<and> xs = map (anc s h) [0..header_height s h] \<and> pos_of xs m"
proof -
  let ?xs = "header_index s"
  have ch: "is_chain s ?xs" and pos: "pos_of ?xs (header_index_pos s)"
    using assms(2) by (simp_all add: header_index_ok_alt)
  have ne: "?xs \<noteq> []" using ch by (simp add: chain_of_def)
  have h1: "1 \<le> header_height s h"
  proof (rule ccontr)
    assume "\<not> 1 \<le> header_height s h"
    then have "header_height s h = 0" using tree.height_nonneg [of s h] assms by simp
    then have "h = ?xs ! 0" using chain_root [OF assms(1) ch assms(3)] tree.anc_self [of s h] by simp
    with ne assms(4) show False by simp
  qed
  obtain k where k: "leaves_at s ?xs h k"
    "get_fork_details s h (Some ?xs) = Some (map (anc s h) [k..header_height s h], drop (nat k) ?xs)"
    using get_fork_details_leaves_at [OF assms(1) ch assms(3) h1, of "Some ?xs"] ne by auto
  have short: "nat k < length ?xs"
  proof (rule ccontr)
    assume "\<not> nat k < length ?xs"
    then have kl: "k = int (length ?xs)" using k(1) by (auto simp: leaves_at_def)
    then have "nat (k - 1) = length ?xs - 1" by (simp add: nat_diff_distrib)
    then have "anc s h (k - 1) = last ?xs" using k(1) ne by (simp add: leaves_at_def last_conv_nth)
    moreover have "header_height s (last ?xs) = k - 1" using tree.chain_of_last(2) [OF ch] kl by simp
    ultimately show False using assms(5) k(1) by (simp add: is_anc_def leaves_at_def)
  qed
  have dist: "distinct ?xs" using tree.chain_of_distinct ch by blast
  obtain m where m: "del_keys (drop (nat k) ?xs) (header_index_pos s) = Some m" "pos_of (take (nat k) ?xs) m"
    using del_keys_pos_of [OF pos dist] by blast
  have kept: "slice_to_neg ?xs (length (drop (nat k) ?xs)) = take (nat k) ?xs"
    using short by (simp add: slice_to_neg_def)
  let ?ys = "map (anc s h) [0..header_height s h]"
  have ys: "take (nat k) ?xs @ map (anc s h) [k..header_height s h] = ?ys"
    using kept_and_added assms(1,3) ch k(1) by blast
  have "distinct ?ys" using tree.chain_of_distinct is_chain_anc assms(1,3) by blast
  then have "pos_of ?ys (add_positions (int (length (take (nat k) ?xs))) (map (anc s h) [k..header_height s h]) m)"
    using add_positions_pos_of [OF m(2), of "map (anc s h) [k..header_height s h]"] ys by simp
  moreover have "reorg_header_index h s = Some (s\<lparr>header_index := ?ys, header_index_pos :=
      add_positions (int (length (take (nat k) ?xs))) (map (anc s h) [k..header_height s h]) m\<rparr>)"
    unfolding reorg_header_index_def k(2) using m(1) kept ys by simp
  ultimately show ?thesis by blast
qed

end
