(* ===== verification/Index_Headers.thy ===== *)
theory Index_Headers
  imports Index_Chains
begin

text \<open>
  The invariant of the block index, and \<open>add_headers\<close> under it: an accepted batch leaves the best
  header chain ending at a header of the most work among those not marked invalid, every
  header's work the sum of its ancestors', its skip pointer the right one, no valid header on
  an invalid one, and the stored record of every header the one in memory.
\<close>

section \<open>The invariant\<close>

definition cw :: "block_index \<Rightarrow> bytes \<Rightarrow> int" where
  "cw s h = (case chainwork s h of None \<Rightarrow> 0 | Some w \<Rightarrow> w)"

definition invalid :: "block_index \<Rightarrow> bytes \<Rightarrow> bool" where
  "invalid s h \<longleftrightarrow> map_option bi_status (map_of (header_dict s) h) = Some Invalid"

definition work_at :: "btclib \<Rightarrow> block_index \<Rightarrow> bytes \<Rightarrow> int" where
  "work_at L s h = (case map_of (header_dict s) h of None \<Rightarrow> 0 | Some bi \<Rightarrow> calculate_work L (bi_header bi))"

definition work_ok :: "btclib \<Rightarrow> block_index \<Rightarrow> bool" where
  "work_ok L s \<longleftrightarrow> (\<forall>h. chainwork s h \<noteq> None \<longleftrightarrow> known s h)
     \<and> (\<forall>h. known s h \<longrightarrow> 0 < work_at L s h
          \<and> cw s h = (if header_height s h = 0 then 0 else cw s (blk_parent s h)) + work_at L s h)"

definition children_ok :: "block_index \<Rightarrow> bool" where
  "children_ok s \<longleftrightarrow> (\<forall>p. distinct (get_list (children s) p)
     \<and> set (get_list (children s) p) = {c. known s c \<and> header_height s c \<noteq> 0 \<and> blk_parent s c = p})"

definition status_ok :: "block_index \<Rightarrow> bool" where
  "status_ok s \<longleftrightarrow> (\<forall>h. known s h \<longrightarrow> header_height s h \<noteq> 0 \<longrightarrow> invalid s (blk_parent s h) \<longrightarrow> invalid s h)"

definition active_ok :: "block_index \<Rightarrow> bool" where
  "active_ok s \<longleftrightarrow> is_chain s (active_chain s) \<and> (\<forall>h\<in>set (active_chain s). \<not> invalid s h)"

definition best_tip :: "block_index \<Rightarrow> bool" where
  \<comment> \<open>the best header chain holds no invalid block and ends at one of the most work\<close>
  "best_tip s \<longleftrightarrow> (\<forall>h\<in>set (header_index s). \<not> invalid s h)
     \<and> (\<forall>h. known s h \<longrightarrow> \<not> invalid s h \<longrightarrow> cw s h \<le> cw s (last (header_index s)))"

definition store_ok :: "btclib \<Rightarrow> block_index \<Rightarrow> bool" where
  "store_ok L s \<longleftrightarrow> store_open (db s) \<and> distinct (map fst (pending s))
     \<and> (\<forall>h bi. map_of (pending s) h = Some bi \<longrightarrow> map_of (header_dict s) h = Some bi)
     \<and> (\<forall>h bi. map_of (header_dict s) h = Some bi \<longrightarrow> map_of (pending s) h = None \<longrightarrow>
          h \<noteq> hdr_hash (genesis (chain s)) \<longrightarrow>
          store_get (db s) (blk_key h) = Some (block_info_serialize L bi))"

definition base_ok :: "btclib \<Rightarrow> block_index \<Rightarrow> bool" where
  "base_ok L s \<longleftrightarrow> tree_ok s \<and> skip_ok s \<and> work_ok L s \<and> children_ok s \<and> status_ok s
     \<and> active_ok s \<and> store_ok L s"

definition index_ok :: "btclib \<Rightarrow> block_index \<Rightarrow> bool" where
  "index_ok L s \<longleftrightarrow> base_ok L s \<and> header_index_ok s \<and> best_tip s"

lemmas base_parts = base_ok_def work_ok_def children_ok_def status_ok_def active_ok_def

lemma index_ok_base: "index_ok L s \<Longrightarrow> base_ok L s"
  by (simp add: index_ok_def)

lemma index_ok_tree: "index_ok L s \<Longrightarrow> tree_ok s"
  by (simp add: index_ok_def base_ok_def)

section \<open>Work along a chain\<close>

lemma cw_parent_less:
  assumes "tree_ok s" "work_ok L s" "known s h" "header_height s h \<noteq> 0"
  shows "cw s (blk_parent s h) < cw s h"
  using assms by (auto simp: work_ok_def)

lemma cw_anc_le:
  assumes "tree_ok s" "work_ok L s" "known s h" "0 \<le> k" "k \<le> header_height s h"
  shows "cw s (anc s h k) \<le> cw s h \<and> (k < header_height s h \<longrightarrow> cw s (anc s h k) < cw s h)"
  using assms(3,5)
proof (induction "nat (header_height s h - k)" arbitrary: h rule: less_induct)
  case less
  show ?case
  proof (cases "k = header_height s h")
    case True
    with tree.anc_self [of s h] show ?thesis by simp
  next
    case False
    with less.prems assms(4) have nz: "header_height s h \<noteq> 0" "k < header_height s h" by simp_all
    have p: "known s (blk_parent s h)" "header_height s (blk_parent s h) = header_height s h - 1"
      using assms(1) less.prems nz by (simp_all add: tree.known_parent tree.height_parent)
    have "cw s (anc s (blk_parent s h) k) \<le> cw s (blk_parent s h)"
      using less.hyps [of "blk_parent s h"] p nz by simp
    also have "\<dots> < cw s h" using cw_parent_less assms(1,2) less.prems nz by blast
    finally have "cw s (anc s (blk_parent s h) k) < cw s h" .
    with tree.anc_parent [of s h k] assms(1,4) less.prems nz show ?thesis by simp
  qed
qed

lemma cw_sum:
  assumes "tree_ok s" "work_ok L s" "known s h"
  shows "cw s h = (\<Sum>k\<in>{0..header_height s h}. work_at L s (anc s h k))"
  using assms(3)
proof (induction "nat (header_height s h)" arbitrary: h rule: less_induct)
  case less
  have nn: "0 \<le> header_height s h" using assms less.prems tree.height_nonneg by blast
  have rec: "cw s h = (if header_height s h = 0 then 0 else cw s (blk_parent s h)) + work_at L s h"
    using assms(2) less.prems by (simp add: work_ok_def)
  have self: "anc s h (header_height s h) = h" by (rule tree.anc_self)
  show ?case
  proof (cases "header_height s h = 0")
    case True
    with rec self show ?thesis by simp
  next
    case False
    let ?p = "blk_parent s h" and ?j = "header_height s h"
    have p: "known s ?p" "header_height s ?p = ?j - 1"
      using assms(1) less.prems False by (simp_all add: tree.known_parent tree.height_parent)
    have "{0..?j} = insert ?j {0..?j - 1}" using nn False by auto
    then have "(\<Sum>k\<in>{0..?j}. work_at L s (anc s h k))
        = work_at L s h + (\<Sum>k\<in>{0..?j - 1}. work_at L s (anc s h k))" by (simp add: self)
    also have "(\<Sum>k\<in>{0..?j - 1}. work_at L s (anc s h k)) = (\<Sum>k\<in>{0..?j - 1}. work_at L s (anc s ?p k))"
      using tree.anc_parent [of s h] assms(1) less.prems by (intro sum.cong) auto
    also have "\<dots> = cw s ?p" using less.hyps [of ?p] p nn False by simp
    finally show ?thesis using rec False by simp
  qed
qed

lemma chainwork_cw:
  assumes "work_ok L s" "known s h"
  shows "chainwork s h = Some (cw s h)"
proof -
  have "chainwork s h \<noteq> None" using assms by (simp add: work_ok_def)
  then show ?thesis by (auto simp: cw_def)
qed

section \<open>Ancestors of valid blocks are valid\<close>

lemma invalid_known: "invalid s h \<Longrightarrow> known s h"
  by (auto simp: invalid_def known_def)

lemma invalid_descendant:
  assumes "tree_ok s" "status_ok s" "known s h" "0 \<le> k" "k \<le> header_height s h" "invalid s (anc s h k)"
  shows "invalid s h"
  using assms(3,5,6)
proof (induction "nat (header_height s h - k)" arbitrary: h rule: less_induct)
  case less
  show ?case
  proof (cases "k = header_height s h")
    case True
    with less.prems tree.anc_self [of s h] show ?thesis by simp
  next
    case False
    with less.prems assms(4) have nz: "header_height s h \<noteq> 0" "k < header_height s h" by simp_all
    have p: "known s (blk_parent s h)" "header_height s (blk_parent s h) = header_height s h - 1"
      using assms(1) less.prems nz by (simp_all add: tree.known_parent tree.height_parent)
    have "invalid s (anc s (blk_parent s h) k)"
      using tree.anc_parent [of s h k] assms(1,4) less.prems nz by simp
    then have "invalid s (blk_parent s h)" using less.hyps [of "blk_parent s h"] p nz by simp
    with assms(2) less.prems(1) nz show ?thesis by (auto simp: status_ok_def)
  qed
qed

text \<open>
  A valid block with more work than the best header, every other valid block having at most the
  best header's, and whose parent is not the best header, does not descend from it: so a
  reorganisation of the best header chain always replaces at least one block.
\<close>

lemma not_above_tip:
  assumes "tree_ok s" "status_ok s" "work_ok L s" "is_chain s xs" "known s h" "\<not> invalid s h"
    and "blk_parent s h \<noteq> last xs" "h \<notin> set xs"
    and "\<forall>g. known s g \<longrightarrow> \<not> invalid s g \<longrightarrow> g \<noteq> h \<longrightarrow> header_height s g < header_height s h \<longrightarrow> cw s g \<le> cw s (last xs)"
  shows "\<not> ancestor_of s (last xs) h"
proof
  let ?t = "last xs"
  let ?k = "header_height s ?t + 1"
  assume a: "ancestor_of s ?t h"
  have t: "known s ?t" "0 \<le> header_height s ?t"
    using tree.chain_of_last(1) [OF assms(4)] tree.height_nonneg assms(1) by blast+
  have "h \<noteq> ?t" using assms(4,8) by (auto simp: chain_of_def)
  then have up: "header_height s h \<noteq> 0 \<and> ancestor_of s ?t (blk_parent s h)"
    using tree.is_anc_cases [OF assms(1,5) t(1) a] by blast
  then have le: "header_height s ?t \<le> header_height s h - 1"
    using tree.height_parent [of s h] assms(1,5) by (simp add: is_anc_def)
  have "header_height s ?t \<noteq> header_height s h - 1"
  proof
    assume "header_height s ?t = header_height s h - 1"
    then have e: "header_height s ?t = header_height s (blk_parent s h)"
      using up tree.height_parent [of s h] assms(1,5) by simp
    from up have "anc s (blk_parent s h) (header_height s ?t) = ?t" by (simp add: is_anc_def)
    then have "blk_parent s h = ?t" unfolding e by (simp only: tree.anc_self)
    with assms(7) show False by simp
  qed
  with le have k: "0 \<le> ?k" "?k < header_height s h" using t by simp_all
  let ?g = "anc s h ?k"
  have g: "known s ?g" "header_height s ?g = ?k" using tree.anc_known_height assms(1,5) k by simp_all
  have "anc s ?g (header_height s ?t) = ?t"
    using tree.anc_anc [of s h "header_height s ?t" ?k] assms(1,5) k t a by (simp add: is_anc_def)
  then have "cw s ?t < cw s ?g" using cw_anc_le [OF assms(1,3) g(1), of "header_height s ?t"] t g by simp
  moreover have "\<not> invalid s ?g" using invalid_descendant assms(1,2,5,6) k by (meson less_imp_le)
  moreover have "?g \<noteq> h" using g k by auto
  ultimately show False using assms(9) g k by fastforce
qed

section \<open>A new header\<close>

lemma new_header_tree:
  assumes "tree_ok s" "\<not> known s (hdr_hash h)" "map_of (header_dict s) (hdr_prev h) = Some p"
    and "bi = \<lparr>bi_header = h, bi_index = bi_index p + 1, bi_status = st, bi_downloaded = dl\<rparr>"
    and "header_dict s' = AList.update (hdr_hash h) bi (header_dict s)" "chain s' = chain s"
  shows "tree_ok s'" "tree_extends s s'" "known s' x \<longleftrightarrow> x = hdr_hash h \<or> known s x"
    "header_height s' (hdr_hash h) = header_height s (hdr_prev h) + 1"
    "blk_parent s' (hdr_hash h) = hdr_prev h" "known s (hdr_prev h)"
    "0 \<le> header_height s (hdr_prev h)" "hdr_prev h \<noteq> hdr_hash h"
proof -
  show k: "known s' x \<longleftrightarrow> x = hdr_hash h \<or> known s x" for x
    using assms(5) by (auto simp: known_def)
  show pk: "known s (hdr_prev h)" using assms(3) by (simp add: known_def)
  then show pn: "hdr_prev h \<noteq> hdr_hash h" using assms(2) by auto
  show "0 \<le> header_height s (hdr_prev h)" using pk assms(1) tree.height_nonneg by blast
  have pi: "0 \<le> bi_index p" using tree_okD(4) [OF assms(1,3)] .
  show ext: "tree_extends s s'"
    using assms(2,5) by (auto simp: tree_extends_def known_def header_height_def blk_parent_def)
  show "header_height s' (hdr_hash h) = header_height s (hdr_prev h) + 1" "blk_parent s' (hdr_hash h) = hdr_prev h"
    using assms(3-5) by (simp_all add: header_height_def blk_parent_def)
  have "distinct (map fst (header_dict s'))"
    using assms(1,5) by (simp add: tree_ok_def distinct_update)
  moreover have "known s' (hdr_hash (genesis (chain s')))" using assms(1,6) k known_genesis by simp
  moreover have "info_ok s' x i" if "map_of (header_dict s') x = Some i" for x i
  proof (cases "x = hdr_hash h")
    case True
    have "x \<noteq> hdr_hash (genesis (chain s'))" using True assms(1,2,6) known_genesis by auto
    with True that assms(3-5) pi pn show ?thesis by (auto simp: info_ok_def)
  next
    case False
    then have old: "map_of (header_dict s) x = Some i" using that assms(5) by (simp add:)
    with assms(1) have "info_ok s x i" by (auto simp: tree_ok_def)
    then show ?thesis using assms(2,5,6) by (auto simp: info_ok_def known_def)
  qed
  ultimately show "tree_ok s'" by (simp add: tree_ok_def)
qed

text \<open>The state in which \<open>_grow_header_index\<close> finds the index, once \<open>h\<close> is indexed.\<close>

lemma indexed_base:
  assumes "base_ok L s" "\<not> known s (hdr_hash h)" "map_of (header_dict s) (hdr_prev h) = Some p"
    and "bi_status p \<noteq> Invalid" "0 < calculate_work L h" "hdr_hash h \<noteq> hdr_prev h"
    and "bi = \<lparr>bi_header = h, bi_index = bi_index p + 1, bi_status = ValidHeader, bi_downloaded = False\<rparr>"
  shows "\<exists>d sk.
     insert_block_info L bi s = Some ((record_block_info bi s)\<lparr>db := d\<rparr>)
     \<and> (let s2 = (record_block_info bi s)\<lparr>db := d,
              chainwork := (chainwork s)(hdr_hash h \<mapsto> cw s (hdr_prev h) + calculate_work L h)\<rparr>
        in build_skip (hdr_hash h) bi s2 = Some (s2\<lparr>skip := sk\<rparr>)
           \<and> base_ok L (s2\<lparr>skip := sk\<rparr>))"
proof -
  let ?h = "hdr_hash h" and ?p = "hdr_prev h"
  note parts = assms(1) [unfolded base_ok_def]
  have bf: "bi_header bi = h" "bi_index bi = bi_index p + 1" "bi_status bi = ValidHeader"
    by (simp_all add: assms(7))
  let ?s1 = "record_block_info bi s"
  have rec: "?s1 = s\<lparr>children := push_list (children s) ?p ?h,
      header_dict := AList.update ?h bi (header_dict s)\<rparr>"
    using assms(2) bf by (simp add: record_block_info_def known_def Let_def)
  have hb: "hdr_hash (bi_header bi) = ?h" using bf by simp
  have open_db: "store_open (db s)" using parts by (simp add: store_ok_def)
  obtain d where d: "store_put (blk_key ?h) (block_info_serialize L bi) (db s) = Some d" "store_open d"
    using kv.put_ready [OF open_db] by blast
  have get_d: "store_get d (blk_key x) = (if x = ?h then Some (block_info_serialize L bi) else store_get (db s) (blk_key x))" for x
    using kv.get_put [OF open_db d(1)] by (simp add: blk_key_def)
  let ?s2 = "?s1\<lparr>db := d, chainwork := (chainwork s)(?h \<mapsto> cw s ?p + calculate_work L h)\<rparr>"
  have ins: "insert_block_info L bi s = Some (?s1\<lparr>db := d\<rparr>)"
    using d(1) hb by (simp add: insert_block_info_def rec Let_def)
  have hd2: "header_dict ?s2 = AList.update ?h bi (header_dict s)" "chain ?s2 = chain s"
    by (simp_all add: rec)
  note nt = new_header_tree [OF conjunct1 [OF parts] assms(2,3,7) hd2]
  have skip_old: "skip_ok_on ?s2 (known s)"
    unfolding skip_ok_on_def
  proof (intro allI impI)
    fix x assume x: "known s x"
    have e: "header_height ?s2 x = header_height s x" using nt(2) x by (simp add: tree_extends_def)
    have nn: "0 \<le> header_height s x" using parts x tree.height_nonneg by blast
    have "anc ?s2 x (skip_height (header_height s x)) = anc s x (skip_height (header_height s x))"
      if "header_height s x \<noteq> 0"
      using that nn parts x nt(2) skip_height_less [of "header_height s x"] skip_height_nonneg
      by (intro anc_extends) auto
    moreover have "skip ?s2 x = skip s x" by (simp add: rec)
    ultimately show "skip ?s2 x = (if header_height ?s2 x \<noteq> 0
        then Some (anc ?s2 x (skip_height (header_height ?s2 x))) else None)"
      using parts x e by (simp add: skip_ok_def skip_ok_on_def)
  qed
  have up: "up_closed ?s2 (known s)"
    using nt(2,3) parts tree.known_parent [of s] by (auto simp: up_closed_def tree_extends_def)
  let ?k = "skip_height (header_height s ?p + 1)"
  have kb: "0 \<le> ?k" "?k \<le> header_height s ?p"
    using skip_height_nonneg skip_height_less [of "header_height s ?p + 1"] nt(7) by simp_all
  have hp: "header_height s ?p = bi_index p" using assms(3) by (simp add: header_height_def)
  have hp2: "header_height ?s2 ?p = header_height s ?p" using nt(2,6) by (simp add: tree_extends_def)
  have "ancestor ?s2 ?p (header_height s ?p) ?k = Some (anc ?s2 ?p ?k)"
    using ancestor_anc_on [OF nt(1) up skip_old nt(6) hp2 kb] .
  then have bs: "build_skip ?h bi ?s2 = Some (?s2\<lparr>skip := (skip s)(?h \<mapsto> anc ?s2 ?p ?k)\<rparr>)"
    using bf nt(7) hp by (simp add: build_skip_def rec)
  let ?s3 = "?s2\<lparr>skip := (skip s)(?h \<mapsto> anc ?s2 ?p ?k)\<rparr>"
  have st: "known ?s3 = known ?s2" "blk_parent ?s3 = blk_parent ?s2" "header_height ?s3 = header_height ?s2"
    by (rule same_tree, simp)+
  have t3: "tree_ok ?s3" using nt(1) same_tree_ok [of ?s3 ?s2] by simp
  have inv3: "invalid ?s3 x \<longleftrightarrow> invalid s x" if "x \<noteq> ?h" for x
    using that by (simp add: invalid_def hd2(1) rec)
  have inv_new: "\<not> invalid ?s3 ?h" using bf by (simp add: invalid_def rec)
  have old: "known s x \<Longrightarrow> header_height ?s3 x = header_height s x \<and> blk_parent ?s3 x = blk_parent s x" for x
    using nt(2) st by (simp add: tree_extends_def)
  have not_h: "known s x \<Longrightarrow> x \<noteq> ?h" for x using assms(2) by auto
  have "skip_ok ?s3"
    unfolding skip_ok_def skip_ok_on_def
  proof (intro allI impI)
    fix x assume "known ?s3 x"
    then consider "x = ?h" | "known s x" "x \<noteq> ?h" using nt(3) st not_h by auto
    then show "skip ?s3 x = (if header_height ?s3 x \<noteq> 0
        then Some (anc ?s3 x (skip_height (header_height ?s3 x))) else None)"
    proof cases
      case 1
      have "anc ?s3 ?h ?k = anc ?s3 ?p ?k"
        using tree.anc_parent [of ?s3 ?h ?k] t3 nt(3,4,5) st kb by simp
      with 1 nt(4,7) st show ?thesis by simp
    next
      case 2
      with skip_old st show ?thesis by (simp add: skip_ok_on_def rec)
    qed
  qed
  moreover have "work_ok L ?s3"
  proof -
    have cw3: "cw ?s3 x = (if x = ?h then cw s ?p + calculate_work L h else cw s x)" for x
      by (simp add: cw_def)
    have wk: "work_at L ?s3 x = (if x = ?h then calculate_work L h else work_at L s x)" for x
      using bf by (simp add: work_at_def hd2(1) rec)
    have "chainwork ?s3 x \<noteq> None \<longleftrightarrow> known ?s3 x" for x
      using parts nt(3) st by (simp add: work_ok_def)
    moreover have "0 < work_at L ?s3 x \<and> cw ?s3 x =
        (if header_height ?s3 x = 0 then 0 else cw ?s3 (blk_parent ?s3 x)) + work_at L ?s3 x"
      if "known ?s3 x" for x
    proof (cases "x = ?h")
      case True
      with nt(4,5,7,8) st assms(5) cw3 wk show ?thesis by simp
    next
      case False
      then have x: "known s x" using that nt(3) st by simp
      then have "blk_parent s x \<noteq> ?h" if "header_height s x \<noteq> 0"
        using that parts tree.known_parent not_h by blast
      with x False old cw3 wk parts show ?thesis by (simp add: work_ok_def)
    qed
    ultimately show ?thesis by (simp add: work_ok_def)
  qed
  moreover have "children_ok ?s3"
    unfolding children_ok_def
  proof (intro allI conjI)
    fix x
    have ch: "children ?s3 = push_list (children s) ?p ?h" by (simp add: rec)
    have c: "distinct (get_list (children s) x)"
      "set (get_list (children s) x) = {c. known s c \<and> header_height s c \<noteq> 0 \<and> blk_parent s c = x}"
      using parts by (simp_all add: children_ok_def)
    then have "?h \<notin> set (get_list (children s) x)" using assms(2) by simp
    with c(1) show "distinct (get_list (children ?s3) x)" by (cases "x = ?p") (simp_all add: ch)
    show "set (get_list (children ?s3) x) = {c. known ?s3 c \<and> header_height ?s3 c \<noteq> 0 \<and> blk_parent ?s3 c = x}"
    proof (rule set_eqI)
      fix y
      have "y \<in> set (get_list (children ?s3) x) \<longleftrightarrow> (x = ?p \<and> y = ?h) \<or> y \<in> set (get_list (children s) x)"
        by (auto simp: ch)
      also have "\<dots> \<longleftrightarrow> known ?s3 y \<and> header_height ?s3 y \<noteq> 0 \<and> blk_parent ?s3 y = x"
        using c(2) nt(3-5,7) st old not_h by (cases "y = ?h") auto
      finally show "y \<in> set (get_list (children ?s3) x) \<longleftrightarrow>
          y \<in> {c. known ?s3 c \<and> header_height ?s3 c \<noteq> 0 \<and> blk_parent ?s3 c = x}" by simp
    qed
  qed
  moreover have "status_ok ?s3"
    unfolding status_ok_def
  proof (intro allI impI)
    fix x assume x: "known ?s3 x" "header_height ?s3 x \<noteq> 0" "invalid ?s3 (blk_parent ?s3 x)"
    have "\<not> invalid s ?p" using assms(3,4) by (simp add: invalid_def)
    then have "x \<noteq> ?h" using x nt(5,8) st inv3 by auto
    then have k: "known s x" "header_height s x \<noteq> 0" using x nt(3) st old by auto
    then have "blk_parent s x \<noteq> ?h" using parts tree.known_parent not_h by blast
    with x k old inv3 not_h parts show "invalid ?s3 x" by (auto simp: status_ok_def)
  qed
  moreover have "active_ok ?s3"
  proof -
    have ext3: "tree_extends s ?s3" using nt(2) st by (simp add: tree_extends_def)
    have ac: "active_chain ?s3 = active_chain s" by (simp add: rec)
    have "is_chain ?s3 (active_chain s)" using is_chain_extends ext3 parts by (simp add: active_ok_def)
    moreover have "known s x" if "x \<in> set (active_chain s)" for x
      using parts that by (auto simp: active_ok_def chain_of_def in_set_conv_nth)
    ultimately show ?thesis using inv3 not_h parts by (auto simp: active_ok_def ac)
  qed
  moreover have "store_ok L ?s3"
  proof -
    have pend: "\<forall>x i. map_of (pending s) x = Some i \<longrightarrow> map_of (header_dict s) x = Some i"
      using parts by (simp add: store_ok_def)
    have "map_of (pending s) ?h = None"
    proof (cases "map_of (pending s) ?h")
      case (Some i)
      with pend have "map_of (header_dict s) ?h = Some i" by blast
      with assms(2) show ?thesis by (simp add: known_def)
    qed
    with parts d(2) get_d show ?thesis
      using assms(2) by (auto simp: store_ok_def hd2 rec known_def)
  qed
  ultimately have "base_ok L ?s3" using t3 by (simp add: base_ok_def)
  with ins bs show ?thesis by (intro exI [of _ d] exI) (simp add: Let_def)
qed

section \<open>The best header chain after a new header\<close>

text \<open>The three fields the rest of the work writes are read by no part of \<open>base_ok\<close>.\<close>

lemma base_ok_frame:
  assumes "header_dict s' = header_dict s" "chain s' = chain s" "skip s' = skip s"
    and "chainwork s' = chainwork s" "children s' = children s" "active_chain s' = active_chain s"
    and "db s' = db s" "pending s' = pending s"
  shows "base_ok L s' = base_ok L s"
proof -
  have i: "invalid s' = invalid s" "cw s' = cw s" "work_at L s' = work_at L s"
    using assms(1,4) by (auto simp: fun_eq_iff invalid_def cw_def work_at_def)
  note t = same_tree [OF assms(1)] same_tree_ok [OF assms(1,2)]
  show ?thesis
    by (simp add: base_ok_def skip_ok_def skip_ok_on_def work_ok_def children_ok_def status_ok_def
        active_ok_def store_ok_def t i assms)
qed

lemma grow_ok:
  assumes base: "base_ok L s" and hi: "header_index_ok s" and h: "known s hh" "\<not> invalid s hh"
    "hh = hdr_hash h" "blk_parent s hh = hdr_prev h" "hh \<notin> set (header_index s)" "header_height s hh \<noteq> 0"
    and clean: "\<forall>x\<in>set (header_index s). \<not> invalid s x"
    and best: "\<forall>g. known s g \<longrightarrow> \<not> invalid s g \<longrightarrow> g \<noteq> hh \<longrightarrow> cw s g \<le> cw s (last (header_index s))"
    and w: "w = cw s hh"
  shows "\<exists>xs m. grow_header_index h hh w s = Some (s\<lparr>header_index := xs, header_index_pos := m\<rparr>)
    \<and> index_ok L (s\<lparr>header_index := xs, header_index_pos := m\<rparr>)"
proof -
  let ?xs = "header_index s" and ?t = "last (header_index s)"
  have ok: "tree_ok s" "work_ok L s" "status_ok s" using base by (simp_all add: base_ok_def)
  have ch: "is_chain s ?xs" and pos: "pos_of ?xs (header_index_pos s)"
    using hi by (simp_all add: header_index_ok_alt)
  have ne: "?xs \<noteq> []" using ch by (simp add: chain_of_def)
  have t: "known s ?t" "header_height s ?t = int (length ?xs) - 1" using tree.chain_of_last [OF ch] .
  have frame: "base_ok L (s\<lparr>header_index := xs, header_index_pos := m\<rparr>)" for xs m
    using base base_ok_frame [of "s\<lparr>header_index := xs, header_index_pos := m\<rparr>" s L] by simp
  have final: "index_ok L (s\<lparr>header_index := xs, header_index_pos := m\<rparr>)"
    if "is_chain s xs" "pos_of xs m" "\<forall>x\<in>set xs. \<not> invalid s x"
      "\<forall>g. known s g \<longrightarrow> \<not> invalid s g \<longrightarrow> cw s g \<le> cw s (last xs)" for xs m
  proof -
    let ?s = "s\<lparr>header_index := xs, header_index_pos := m\<rparr>"
    have e: "known ?s = known s" "blk_parent ?s = blk_parent s" "header_height ?s = header_height s"
      by (rule same_tree, simp)+
    have "invalid ?s = invalid s" "cw ?s = cw s" by (auto simp: fun_eq_iff invalid_def cw_def)
    with that frame e show ?thesis by (simp add: index_ok_def header_index_ok_alt best_tip_def)
  qed
  have wt: "chainwork s ?t = Some (cw s ?t)" using chainwork_cw ok t by blast
  have lst: "py_last ?xs = Some ?t" using ne by (simp add: py_simps)
  consider "hdr_prev h = ?t" | "hdr_prev h \<noteq> ?t" "w > cw s ?t" | "hdr_prev h \<noteq> ?t" "w \<le> cw s ?t"
    by linarith
  then show ?thesis
  proof cases
    case 1
    let ?m = "(header_index_pos s)(hh \<mapsto> int (length ?xs))"
    have g: "grow_header_index h hh w s = Some (s\<lparr>header_index := ?xs @ [hh], header_index_pos := ?m\<rparr>)"
      using 1 lst by (simp add: grow_header_index_def append_header_index_def Let_def)
    have "header_height s hh = int (length ?xs)"
      using tree.height_parent [of s hh] ok h t 1 by simp
    then have "is_chain s (?xs @ [hh])" using ch h 1 by (intro tree.chain_of_snoc) simp_all
    moreover have "pos_of (?xs @ [hh]) ?m" using pos h(5) by (rule pos_of_snoc)
    moreover have "cw s ?t < cw s hh" using cw_parent_less [OF ok(1,2) h(1,6)] h(4) 1 by simp
    ultimately have "index_ok L (s\<lparr>header_index := ?xs @ [hh], header_index_pos := ?m\<rparr>)"
      using clean best h(2) by (intro final) (auto intro: order_trans less_imp_le)
    with g show ?thesis by blast
  next
    case 2
    have "\<not> ancestor_of s ?t hh"
      using not_above_tip [OF ok(1,3,2) ch h(1,2)] 2 h best by auto
    then obtain xs m where r: "reorg_header_index hh s = Some (s\<lparr>header_index := xs, header_index_pos := m\<rparr>)"
      "xs = map (anc s hh) [0..header_height s hh]" "pos_of xs m"
      using reorg_header_index_ok [OF ok(1) hi h(1,5)] by blast
    have nn: "0 \<le> header_height s hh" using ok h tree.height_nonneg by blast
    have chx: "is_chain s xs" using is_chain_anc ok h r(2) by simp
    have lx: "last xs = hh"
      using nn upto_rec2 [of 0 "header_height s hh"] by (simp add: r(2) tree.anc_self)
    have "\<not> invalid s x" if "x \<in> set xs" for x
      using that r(2) invalid_descendant [OF ok(1,3) h(1)] h(2) by auto
    moreover have "\<forall>g. known s g \<longrightarrow> \<not> invalid s g \<longrightarrow> cw s g \<le> cw s (last xs)"
    proof (intro allI impI)
      fix g assume "known s g" "\<not> invalid s g"
      with best 2 w show "cw s g \<le> cw s (last xs)" by (cases "g = hh") (auto simp: lx)
    qed
    ultimately have "index_ok L (s\<lparr>header_index := xs, header_index_pos := m\<rparr>)"
      using chx r(3) by (intro final) blast+
    moreover have "grow_header_index h hh w s = Some (s\<lparr>header_index := xs, header_index_pos := m\<rparr>)"
      using 2 lst wt r(1) by (simp add: grow_header_index_def)
    ultimately show ?thesis by blast
  next
    case 3
    have g: "grow_header_index h hh w s = Some (s\<lparr>header_index := ?xs, header_index_pos := header_index_pos s\<rparr>)"
      using 3 lst wt by (simp add: grow_header_index_def)
    have "index_ok L (s\<lparr>header_index := ?xs, header_index_pos := header_index_pos s\<rparr>)"
      using ch pos clean best 3 w by (intro final) auto
    with g show ?thesis by blast
  qed
qed

section \<open>Indexing one header\<close>

definition indexes_more :: "block_index \<Rightarrow> block_index \<Rightarrow> bool" where
  \<comment> \<open>nothing indexed before is lost or changed, and the active chain stays\<close>
  "indexes_more s s' \<longleftrightarrow> chain s' = chain s \<and> active_chain s' = active_chain s
     \<and> best_invalid s' = best_invalid s \<and> pending s' = pending s \<and> sequence_id s' = sequence_id s
     \<and> next_sequence_id s' = next_sequence_id s \<and> unlinked s' = unlinked s
     \<and> (\<forall>h bi. map_of (header_dict s) h = Some bi \<longrightarrow> map_of (header_dict s') h = Some bi)"

lemma indexes_more_refl: "indexes_more s s"
  by (simp add: indexes_more_def)

lemma indexes_more_trans: "indexes_more s t \<Longrightarrow> indexes_more t u \<Longrightarrow> indexes_more s u"
  by (simp add: indexes_more_def)

lemma index_header_ok:
  assumes ok: "index_ok L s" and new: "\<not> known s (hdr_hash h)"
    and p: "map_of (header_dict s) (hdr_prev h) = Some p" "bi_status p \<noteq> Invalid"
    and pos: "0 < calculate_work L h"
  shows "\<exists>s'. index_header L current_work h (bi_index p) s = Some s' \<and> index_ok L s'
    \<and> indexes_more s s' \<and> known s' (hdr_hash h)"
proof -
  let ?h = "hdr_hash h"
  let ?bi = "\<lparr>bi_header = h, bi_index = bi_index p + 1, bi_status = ValidHeader, bi_downloaded = False\<rparr>"
  have base: "base_ok L s" and hi: "header_index_ok s" and best: "best_tip s"
    using ok by (simp_all add: index_ok_def)
  have tree: "tree_ok s" "work_ok L s" using base by (simp_all add: base_ok_def)
  have pk: "known s (hdr_prev h)" using p by (simp add: known_def)
  with new have pne: "?h \<noteq> hdr_prev h" by auto
  obtain d sk where ins: "insert_block_info L ?bi s = Some ((record_block_info ?bi s)\<lparr>db := d\<rparr>)"
    and bs: "build_skip ?h ?bi ((record_block_info ?bi s)\<lparr>db := d,
              chainwork := (chainwork s)(?h \<mapsto> cw s (hdr_prev h) + calculate_work L h)\<rparr>)
            = Some ((record_block_info ?bi s)\<lparr>db := d,
              chainwork := (chainwork s)(?h \<mapsto> cw s (hdr_prev h) + calculate_work L h), skip := sk\<rparr>)"
    and b3: "base_ok L ((record_block_info ?bi s)\<lparr>db := d,
              chainwork := (chainwork s)(?h \<mapsto> cw s (hdr_prev h) + calculate_work L h), skip := sk\<rparr>)"
    using indexed_base [OF base new p pos pne refl] by (auto simp: Let_def)
  have rec: "record_block_info ?bi s = s\<lparr>children := push_list (children s) (hdr_prev h) ?h,
      header_dict := AList.update ?h ?bi (header_dict s)\<rparr>"
    using new by (simp add: record_block_info_def known_def Let_def)
  let ?w = "cw s (hdr_prev h) + calculate_work L h"
  let ?s3 = "(record_block_info ?bi s)\<lparr>db := d, chainwork := (chainwork s)(?h \<mapsto> ?w), skip := sk\<rparr>"
  let ?c = "if ?w > current_work then block_candidates s @ [(?h, ?w)] else block_candidates s"
  let ?s4 = "?s3\<lparr>block_candidates := ?c\<rparr>"
  have run: "index_header L current_work h (bi_index p) s = grow_header_index h ?h ?w ?s4"
    using chainwork_cw [OF tree(2) pk] ins bs
    by (auto simp: index_header_def rec Let_def)
  have hd4: "header_dict ?s4 = AList.update ?h ?bi (header_dict s)" "chain ?s4 = chain s"
    by (simp_all add: rec)
  note nt = new_header_tree [OF tree(1) new p(1) refl hd4]
  have base4: "base_ok L ?s4" using b3 base_ok_frame [of ?s4 ?s3 L] by simp
  have hx: "header_index ?s4 = header_index s" "header_index_pos ?s4 = header_index_pos s"
    by (simp_all add: rec)
  have kx: "known s x" if "x \<in> set (header_index s)" for x
    using that hi by (auto simp: header_index_ok_def chain_of_def in_set_conv_nth)
  have hi4: "header_index_ok ?s4"
    using hi is_chain_extends nt(2) by (simp only: header_index_ok_alt hx)
  have inv4: "invalid ?s4 x \<longleftrightarrow> x \<noteq> ?h \<and> invalid s x" for x
    using new invalid_known by (auto simp: invalid_def rec known_def)
  have cw4: "cw ?s4 x = (if x = ?h then ?w else cw s x)" for x by (simp add: cw_def)
  have lk: "known s (last (header_index s))"
    using hi tree.chain_of_last by (auto simp: header_index_ok_def)
  have "\<exists>xs m. grow_header_index h ?h ?w ?s4 = Some (?s4\<lparr>header_index := xs, header_index_pos := m\<rparr>)
    \<and> index_ok L (?s4\<lparr>header_index := xs, header_index_pos := m\<rparr>)"
  proof (rule grow_ok [OF base4 hi4])
    show "known ?s4 ?h" "blk_parent ?s4 ?h = hdr_prev h" "header_height ?s4 ?h \<noteq> 0"
      using nt(3,4,5,7) by simp_all
    show "\<not> invalid ?s4 ?h" using inv4 by simp
    show "?h \<notin> set (header_index ?s4)" using kx new hx by auto
    show "\<forall>x\<in>set (header_index ?s4). \<not> invalid ?s4 x" using best inv4 hx by (simp add: best_tip_def)
    show "\<forall>g. known ?s4 g \<longrightarrow> \<not> invalid ?s4 g \<longrightarrow> g \<noteq> ?h \<longrightarrow> cw ?s4 g \<le> cw ?s4 (last (header_index ?s4))"
      using best nt(3) inv4 cw4 lk new hx by (auto simp: best_tip_def)
    show "?w = cw ?s4 ?h" using cw4 by simp
  qed simp
  then obtain xs m where
    g: "grow_header_index h ?h ?w ?s4 = Some (?s4\<lparr>header_index := xs, header_index_pos := m\<rparr>)"
    "index_ok L (?s4\<lparr>header_index := xs, header_index_pos := m\<rparr>)" by blast
  let ?s5 = "?s4\<lparr>header_index := xs, header_index_pos := m\<rparr>"
  have "indexes_more s ?s5" using new by (auto simp: indexes_more_def rec known_def)
  moreover have "known ?s5 ?h" by (simp add: known_def rec)
  ultimately show ?thesis using run g by auto
qed

section \<open>A batch\<close>

definition work_positive :: "btclib \<Rightarrow> chain_params \<Rightarrow> bool" where
  \<comment> \<open>a header whose proof of work meets the chain's limit represents some work\<close>
  "work_positive L c \<longleftrightarrow> (\<forall>h. valid_pow L h (pow_limit_bits c) \<longrightarrow> 0 < block_work L (hdr_bits h))"

lemma insert_header_ok:
  assumes "index_ok L s" "0 < calculate_work L h"
    and "insert_header L now current_work punish mpc h s = (s', r)"
  shows "index_ok L s' \<and> indexes_more s s'"
proof (cases "s' = s")
  case True
  with assms show ?thesis by (simp add: indexes_more_refl)
next
  case False
  with assms(3) obtain parent parent_height where
    ix: "is_indexed s h punish = Inr False"
    and ip: "indexed_parent s h = Inr (Some (parent, parent_height))"
    and go: "index_header L current_work h parent_height s = Some s'"
    by (auto simp: insert_header_def split: sum.splits bool.splits option.splits if_splits)
  from ix have "\<not> known s (hdr_hash h)"
    by (auto simp: is_indexed_def known_def split: option.splits if_splits)
  moreover from ip obtain p where p: "map_of (header_dict s) (hdr_prev h) = Some p"
    "bi_status p \<noteq> Invalid" "parent_height = bi_index p"
    by (auto simp: indexed_parent_def split: option.splits if_splits)
  ultimately show ?thesis
    using index_header_ok [OF assms(1) _ p(1,2) assms(2), of current_work] go p(3) by auto
qed

lemma insert_valid_headers_ok:
  assumes "index_ok L s" "\<forall>h\<in>set hs. 0 < calculate_work L h"
    and "insert_valid_headers L now current_work punish mpc hs s = (s', r)"
  shows "index_ok L s' \<and> indexes_more s s'"
  using assms
proof (induction hs arbitrary: s)
  case Nil
  then show ?case by (simp add: indexes_more_refl)
next
  case (Cons h hs)
  obtain s1 r1 where step: "insert_header L now current_work punish mpc h s = (s1, r1)" by fastforce
  have s1: "index_ok L s1 \<and> indexes_more s s1"
    using insert_header_ok [OF Cons.prems(1) _ step] Cons.prems(2) by simp
  show ?case
  proof (cases r1)
    case (Inl e)
    with Cons.prems(3) step s1 show ?thesis by simp
  next
    case (Inr u)
    with Cons.prems(3) step have "insert_valid_headers L now current_work punish mpc hs s1 = (s', r)"
      by simp
    with Cons.IH [of s1] s1 Cons.prems(2) show ?thesis using indexes_more_trans by auto
  qed
qed

lemma check_pow_loop_all: "check_pow_loop L hs limit = Inr () \<Longrightarrow> \<forall>h\<in>set hs. valid_pow L h limit"
  by (induction hs) (auto simp: assert_valid_pow_def split: if_splits)

lemma check_headers_pow_all:
  "check_headers_pow L hs limit = Inr u \<Longrightarrow> \<forall>h\<in>set hs. valid_pow L h limit"
  using check_pow_loop_all by (auto simp: check_headers_pow_def split: sum.splits)

lemma add_headers_ok:
  assumes "index_ok L s" "work_positive L (chain s)"
    and "add_headers L now punish mpc hs s = (s', r)"
  shows "index_ok L s' \<and> indexes_more s s'"
proof (cases "s' = s")
  case True
  with assms show ?thesis by (simp add: indexes_more_refl)
next
  case False
  with assms(3) obtain u current_work r' where
    pow: "check_headers_pow L hs (pow_limit_bits (chain s)) = Inr u"
    and go: "insert_valid_headers L now current_work punish mpc hs s = (s', r')"
    by (auto simp: add_headers_def split: sum.splits option.splits prod.splits)
  have "\<forall>h\<in>set hs. 0 < calculate_work L h"
    using check_headers_pow_all [OF pow] assms(2) by (simp add: work_positive_def calculate_work_def)
  with insert_valid_headers_ok [OF assms(1) _ go] show ?thesis by blast
qed

end
