(* ===== verification/Index_Load.thy ===== *)
theory Index_Load
  imports Index_Headers
begin

text \<open>
  Opening the index: a fresh datadir gives an index of genesis alone under the invariant, and a
  concrete library and chain on which the properties are exercised.
\<close>

section \<open>A fresh index\<close>

definition genesis_index :: "btclib \<Rightarrow> kv_store \<Rightarrow> chain_params \<Rightarrow> block_index" where
  "genesis_index L d c =
     (let g = hdr_hash (genesis c) in
      (new_block_index d c)\<lparr>chainwork := [g \<mapsto> calculate_work L (genesis c)],
        active_chain := [g], header_index := [g], header_index_pos := [g \<mapsto> 0],
        sequence_id := [g \<mapsto> 0]\<rparr>)"

lemma open_fresh:
  assumes "store_open d" "kv_data d = []"
  shows "open_block_index L d c = Inr (genesis_index L d c)"
proof -
  let ?g = "hdr_hash (genesis c)"
  let ?s0 = "new_block_index d c"
  have it: "kv_iter (db ?s0) = Inr []"
    using assms by (simp add: kv_iter_def ensure_open_def store_open_def new_block_index_def)
  have bh: "by_height s = [?g]" if "header_dict s = header_dict ?s0" for s
    using that by (simp add: by_height_def new_block_index_def)
  have "derive_indexes L ?s0 = Some (genesis_index L d c)"
    by (simp add: derive_indexes_def bh calculate_chainwork_def chainwork_step_def get_block_info_def
        build_skip_def generate_active_chain_def load_sequence_ids_def load_sequence_step_def
        generate_block_candidates_def candidate_step_def generate_header_index_def
        reset_header_index_def extend_header_index_def extend_step_def positions_def
        genesis_index_def py_simps Let_def)
      (simp add: new_block_index_def by_height_def candidate_step_def extend_step_def
          load_sequence_step_def py_simps)
  with it show ?thesis by (simp add: open_block_index_def init_from_db_def)
qed

lemma genesis_index_ok:
  assumes "store_open d" "0 < calculate_work L (genesis c)"
  shows "index_ok L (genesis_index L d c)"
proof -
  let ?g = "hdr_hash (genesis c)" and ?s = "genesis_index L d c"
  have hd: "header_dict ?s = [(?g, \<lparr>bi_header = genesis c, bi_index = 0, bi_status = InActiveChain,
      bi_downloaded = True\<rparr>)]" "chain ?s = c"
    by (simp_all add: genesis_index_def new_block_index_def Let_def)
  have k: "known ?s x \<longleftrightarrow> x = ?g" for x by (simp add: known_def hd)
  have h: "header_height ?s x = 0" for x by (simp add: header_height_def hd)
  have tree: "tree_ok ?s" by (auto simp: tree_ok_def known_def info_ok_def hd)
  have chain: "is_chain ?s [?g]" by (simp add: chain_of_def k h)
  have inv: "\<not> invalid ?s x" for x by (simp add: invalid_def hd)
  have fields: "active_chain ?s = [?g]" "header_index ?s = [?g]" "header_index_pos ?s = [?g \<mapsto> 0]"
    "skip ?s = Map.empty" "chainwork ?s = [?g \<mapsto> calculate_work L (genesis c)]"
    "children ?s = Map.empty" "pending ?s = []" "db ?s = d"
    by (simp_all add: genesis_index_def new_block_index_def Let_def)
  have "work_ok L ?s"
    using assms(2) by (auto simp: work_ok_def k h cw_def work_at_def fields hd)
  moreover have "store_ok L ?s" using assms(1) by (auto simp: store_ok_def fields hd split: if_splits)
  moreover have "header_index_ok ?s"
    using chain by (auto simp: header_index_ok_def fields)
  ultimately show ?thesis
    using tree chain inv
    by (simp add: index_ok_def base_ok_def skip_ok_def skip_ok_on_def children_ok_def status_ok_def
        active_ok_def best_tip_def fields h k get_list_def)
qed

section \<open>A concrete chain\<close>

text \<open>
  An instance of the library's calls and a header at each of a few hashes, on which the
  hypotheses of the properties are met: every header is worth one unit of work.
\<close>

definition demo_lib :: btclib where
  "demo_lib =
     \<lparr>valid_pow = (\<lambda>h limit. True), block_work = (\<lambda>bits. 1),
      next_bits_required = (\<lambda>h p k parent_of. Some [29]), median_time_past = (\<lambda>p k parent_of. Some 0),
      not_timewarp = (\<lambda>h p k. True), valid_time = (\<lambda>h now. True),
      header_serialize = hdr_hash, header_parse = (\<lambda>v bs. None),
      var_int_serialize = (\<lambda>i. []), var_int_parse = (\<lambda>bs. None)\<rparr>"

definition demo_header :: "8 word \<Rightarrow> 8 word \<Rightarrow> header" where
  "demo_header h p = \<lparr>hdr_hash = [h], hdr_prev = [p], hdr_bits = [29], hdr_version = 4, hdr_timestamp = 1\<rparr>"

definition demo_chain :: chain_params where
  "demo_chain = \<lparr>genesis = demo_header 0 255, pow_limit_bits = [29],
     consensus_of = \<lparr>bip34_height = 0, bip66_height = 0, bip65_height = 0\<rparr>\<rparr>"

definition demo_index :: block_index where
  "demo_index = genesis_index demo_lib empty_store demo_chain"

definition demo_run :: "header list \<Rightarrow> block_index" where
  "demo_run hs = fst (add_headers demo_lib 2 False True hs demo_index)"

lemma demo_index_ok: "index_ok demo_lib demo_index"
  unfolding demo_index_def
  by (rule genesis_index_ok) (simp_all add: store_open_def empty_store_def calculate_work_def demo_lib_def)

lemma demo_work_positive: "work_positive demo_lib c"
  by (simp add: work_positive_def demo_lib_def)

lemma demo_run_ok: "index_ok demo_lib (demo_run hs)"
  unfolding demo_run_def
  using add_headers_ok [OF demo_index_ok demo_work_positive, of 2 False True hs] by (metis prod.collapse)

text \<open>Genesis 0, with the branches 1, 2 and 3, 4, 5 on it.\<close>

definition demo_forked :: block_index where
  "demo_forked = fst (add_headers demo_lib 2 False True
     [demo_header 3 0, demo_header 4 3, demo_header 5 4] (demo_run [demo_header 1 0, demo_header 2 1]))"

lemma demo_forked_ok: "index_ok demo_lib demo_forked"
  unfolding demo_forked_def
  using add_headers_ok [OF demo_run_ok demo_work_positive] by (metis prod.collapse)

end
