(* ===== verification/Index_Rebuild.thy ===== *)
theory Index_Rebuild
  imports Index_Status
begin

text \<open>
  The best header chain rebuilt from the active chain, which \<open>invalidate\<close>, \<open>reconsider\<close> and a
  load all do: every header in order of height either extends it, moves it or is passed over,
  and the result ends at a header of the most work among those not invalid.
\<close>

section \<open>One header\<close>

lemma with_header_index:
  assumes "s' = s\<lparr>header_index := xs, header_index_pos := m\<rparr>"
  shows "known s' = known s" "blk_parent s' = blk_parent s" "header_height s' = header_height s"
    "invalid s' = invalid s" "cw s' = cw s" "header_index s' = xs" "header_index_pos s' = m"
    "base_ok L s' = base_ok L s" "active_chain s' = active_chain s" "header_dict s' = header_dict s"
    "header_index_ok s' \<longleftrightarrow> is_chain s xs \<and> pos_of xs m"
proof -
  have d: "header_dict s' = header_dict s" using assms by simp
  show t: "known s' = known s" "blk_parent s' = blk_parent s" "header_height s' = header_height s"
    using same_tree [OF d] by simp_all
  show "invalid s' = invalid s" "cw s' = cw s" using assms by (auto simp: fun_eq_iff invalid_def cw_def)
  show "base_ok L s' = base_ok L s" using assms by (intro base_ok_frame) simp_all
  show "header_index_ok s' \<longleftrightarrow> is_chain s xs \<and> pos_of xs m"
    unfolding header_index_ok_alt t using assms by simp
qed (use assms in simp_all)

lemma in_chain_cw_le:
  assumes "tree_ok s" "work_ok L s" "is_chain s xs" "h \<in> set xs"
  shows "cw s h \<le> cw s (last xs)"
proof -
  have k: "known s h" using assms(3,4) by (auto simp: chain_of_def in_set_conv_nth)
  then have a: "ancestor_of s h (last xs)" using tree.chain_of_mem_iff [OF assms(1,3)] assms(4) by blast
  have "0 \<le> header_height s h" using assms(1) k tree.height_nonneg by blast
  then show ?thesis
    using cw_anc_le [OF assms(1,2) tree.chain_of_last(1) [OF assms(3)], of "header_height s h"] a
    by (simp add: is_anc_def)
qed

lemma extend_step_ok:
  assumes base: "base_ok L s" and hi: "header_index_ok s" and h: "known s h"
    and clean: "\<forall>x\<in>set (header_index s). \<not> invalid s x"
    and best: "\<forall>g. known s g \<longrightarrow> \<not> invalid s g \<longrightarrow> header_height s g < header_height s h \<longrightarrow>
                  cw s g \<le> cw s (last (header_index s))"
  shows "\<exists>xs m. extend_step h (set (header_index s), s)
       = Some (set xs, s\<lparr>header_index := xs, header_index_pos := m\<rparr>)
     \<and> is_chain s xs \<and> pos_of xs m \<and> (\<forall>x\<in>set xs. \<not> invalid s x)
     \<and> cw s (last (header_index s)) \<le> cw s (last xs) \<and> (\<not> invalid s h \<longrightarrow> cw s h \<le> cw s (last xs))"
proof -
  let ?xs = "header_index s" and ?t = "last (header_index s)"
  have ok: "tree_ok s" "work_ok L s" "status_ok s" using base by (simp_all add: base_ok_def)
  have ch: "is_chain s ?xs" and pos: "pos_of ?xs (header_index_pos s)"
    using hi by (simp_all add: header_index_ok_alt)
  have ne: "?xs \<noteq> []" using ch by (simp add: chain_of_def)
  have t: "known s ?t" using tree.chain_of_last(1) [OF ch] .
  have lst: "py_last ?xs = Some ?t" using ne by (simp add: py_simps)
  have id: "s = s\<lparr>header_index := ?xs, header_index_pos := header_index_pos s\<rparr>" by simp
  obtain bi where bi: "map_of (header_dict s) h = Some bi" "blk_parent s h = hdr_prev (bi_header bi)"
    using ok(1) h by (metis knownE)
  have inv_iff: "bi_status bi = Invalid \<longleftrightarrow> invalid s h" using bi(1) by (simp add: invalid_def)
  show ?thesis
  proof (cases "h \<in> set ?xs \<or> invalid s h")
    case True
    then have "extend_step h (set ?xs, s) = Some (set ?xs, s)"
      using bi inv_iff by (auto simp: extend_step_def get_block_info_def)
    moreover have "h \<in> set ?xs \<Longrightarrow> cw s h \<le> cw s ?t" using in_chain_cw_le ok ch by blast
    ultimately show ?thesis
      using True ch pos clean by (intro exI [of _ ?xs] exI [of _ "header_index_pos s"]) auto
  next
    case False
    then have nin: "h \<notin> set ?xs" and val: "\<not> invalid s h" by simp_all
    have nz: "header_height s h \<noteq> 0"
    proof
      assume z: "header_height s h = 0"
      have "h = ?xs ! 0" using chain_root [OF ok(1) ch h] tree.anc_self [of s h] z by simp
      with ne nin show False by simp
    qed
    consider "hdr_prev (bi_header bi) = ?t" | "hdr_prev (bi_header bi) \<noteq> ?t" "cw s h > cw s ?t"
      | "hdr_prev (bi_header bi) \<noteq> ?t" "cw s h \<le> cw s ?t" by linarith
    then show ?thesis
    proof cases
      case 1
      let ?m = "(header_index_pos s)(h \<mapsto> int (length ?xs))"
      have "extend_step h (set ?xs, s) = Some (insert h (set ?xs), append_header_index h s)"
        using 1 lst bi nin val inv_iff by (simp add: extend_step_def get_block_info_def)
      moreover have "append_header_index h s = s\<lparr>header_index := ?xs @ [h], header_index_pos := ?m\<rparr>"
        by (simp add: append_header_index_def Let_def)
      moreover have "header_height s h = int (length ?xs)"
        using tree.height_parent [of s h] tree.chain_of_last(2) [OF ch] ok h bi nz 1 by simp
      then have "is_chain s (?xs @ [h])" using ch h bi 1 by (intro tree.chain_of_snoc) simp_all
      moreover have "pos_of (?xs @ [h]) ?m" using pos nin by (rule pos_of_snoc)
      moreover have "cw s ?t < cw s h" using cw_parent_less [OF ok(1,2) h nz] bi 1 by simp
      ultimately show ?thesis
        using clean val by (intro exI [of _ "?xs @ [h]"] exI [of _ ?m]) auto
    next
      case 2
      have w: "chainwork s h = Some (cw s h)" "chainwork s ?t = Some (cw s ?t)"
        using chainwork_cw ok(2) h t by blast+
      have "\<not> ancestor_of s ?t h"
        using not_above_tip [OF ok(1,3,2) ch h val] 2 bi nin best by auto
      then obtain xs m where r: "reorg_header_index h s = Some (s\<lparr>header_index := xs, header_index_pos := m\<rparr>)"
        "xs = map (anc s h) [0..header_height s h]" "pos_of xs m"
        using reorg_header_index_ok [OF ok(1) hi h nin] by blast
      have nn: "0 \<le> header_height s h" using ok h tree.height_nonneg by blast
      have lx: "last xs = h"
        using nn upto_rec2 [of 0 "header_height s h"] by (simp add: r(2) tree.anc_self)
      have "is_chain s xs" using is_chain_anc ok h r(2) by simp
      moreover have "\<forall>x\<in>set xs. \<not> invalid s x"
        using r(2) invalid_descendant [OF ok(1,3) h] val by auto
      moreover have "extend_step h (set ?xs, s) = Some (set xs, s\<lparr>header_index := xs, header_index_pos := m\<rparr>)"
        using 2 lst bi nin val inv_iff w r(1) by (simp add: extend_step_def get_block_info_def)
      ultimately show ?thesis using r(3) 2 lx by (intro exI [of _ xs] exI [of _ m]) simp
    next
      case 3
      have w: "chainwork s h = Some (cw s h)" "chainwork s ?t = Some (cw s ?t)"
        using chainwork_cw ok(2) h t by blast+
      have "extend_step h (set ?xs, s) = Some (set ?xs, s)"
        using 3 lst bi nin val inv_iff w by (simp add: extend_step_def get_block_info_def)
      then show ?thesis
        using 3 ch pos clean by (intro exI [of _ ?xs] exI [of _ "header_index_pos s"]) simp
    qed
  qed
qed

section \<open>Every header\<close>

definition rebuilt :: "block_index \<Rightarrow> bytes list \<Rightarrow> bytes set \<times> block_index \<Rightarrow> bool" where
  \<comment> \<open>the loop's invariant, with \<open>rest\<close> the headers still to come\<close>
  "rebuilt s rest st \<longleftrightarrow> (\<exists>xs m. st = (set xs, s\<lparr>header_index := xs, header_index_pos := m\<rparr>)
     \<and> is_chain s xs \<and> pos_of xs m \<and> (\<forall>x\<in>set xs. \<not> invalid s x)
     \<and> (\<forall>g. known s g \<longrightarrow> \<not> invalid s g \<longrightarrow> g \<notin> set rest \<longrightarrow> cw s g \<le> cw s (last xs)))
   \<and> sorted (map (header_height s) rest) \<and> (\<forall>g\<in>set rest. known s g)"

lemma rebuilt_step:
  assumes base: "base_ok L s" and inv: "rebuilt s (h # rest) st"
  shows "\<exists>st'. extend_step h st = Some st' \<and> rebuilt s rest st'"
proof -
  from inv obtain xs m where st: "st = (set xs, s\<lparr>header_index := xs, header_index_pos := m\<rparr>)"
    and x: "is_chain s xs" "pos_of xs m" "\<forall>x\<in>set xs. \<not> invalid s x"
      "\<forall>g. known s g \<longrightarrow> \<not> invalid s g \<longrightarrow> g \<notin> set (h # rest) \<longrightarrow> cw s g \<le> cw s (last xs)"
    and r: "sorted (map (header_height s) (h # rest))" "\<forall>g\<in>set (h # rest). known s g"
    unfolding rebuilt_def by blast
  let ?t = "s\<lparr>header_index := xs, header_index_pos := m\<rparr>"
  note w = with_header_index [OF refl [of ?t]]
  have "\<forall>g. known s g \<longrightarrow> \<not> invalid s g \<longrightarrow> header_height s g < header_height s h \<longrightarrow> cw s g \<le> cw s (last xs)"
    using x(4) r(1) by fastforce
  then obtain xs' m' where e: "extend_step h (set xs, ?t)
      = Some (set xs', ?t\<lparr>header_index := xs', header_index_pos := m'\<rparr>)"
    "is_chain s xs'" "pos_of xs' m'" "\<forall>x\<in>set xs'. \<not> invalid s x"
    "cw s (last xs) \<le> cw s (last xs')" "\<not> invalid s h \<longrightarrow> cw s h \<le> cw s (last xs')"
    using extend_step_ok [of L ?t h] base x r(2) by (auto simp: w)
  have "\<forall>g. known s g \<longrightarrow> \<not> invalid s g \<longrightarrow> g \<notin> set rest \<longrightarrow> cw s g \<le> cw s (last xs')"
    using x(4) e(5,6) by (metis order_trans set_ConsD)
  moreover have "sorted (map (header_height s) rest)" "\<forall>g\<in>set rest. known s g" using r by simp_all
  ultimately have "rebuilt s rest (set xs', s\<lparr>header_index := xs', header_index_pos := m'\<rparr>)"
    unfolding rebuilt_def using e(2-4) by blast
  moreover have "extend_step h st = Some (set xs', s\<lparr>header_index := xs', header_index_pos := m'\<rparr>)"
    using e(1) unfolding st by simp
  ultimately show ?thesis by blast
qed

lemma extend_header_index_best:
  assumes base: "base_ok L s" and cand: "sorted (map (header_height s) cs)" "set cs = {h. known s h}"
    and hi: "header_index s = active_chain s" "header_index_pos s = positions (active_chain s)"
  shows "\<exists>s'. extend_header_index cs s = Some s' \<and> index_ok L s'
     \<and> (\<exists>xs m. s' = s\<lparr>header_index := xs, header_index_pos := m\<rparr>)"
proof -
  have ac: "is_chain s (active_chain s)" "\<forall>h\<in>set (active_chain s). \<not> invalid s h"
    using base by (simp_all add: base_ok_def active_ok_def)
  have "pos_of (active_chain s) (positions (active_chain s))"
    using positions_pos_of tree.chain_of_distinct ac(1) by blast
  moreover have "(set (header_index s), s) = (set (active_chain s),
      s\<lparr>header_index := active_chain s, header_index_pos := positions (active_chain s)\<rparr>)"
    using hi by simp
  ultimately have "rebuilt s cs (set (header_index s), s)"
    using ac cand unfolding rebuilt_def by blast
  then obtain st where st: "fold_opt extend_step cs (set (header_index s), s) = Some st" "rebuilt s [] st"
    using fold_opt_invariant_rest [of "rebuilt s" cs _ extend_step] rebuilt_step [OF base] by blast
  then obtain xs m where x: "snd st = s\<lparr>header_index := xs, header_index_pos := m\<rparr>"
    "is_chain s xs" "pos_of xs m" "\<forall>x\<in>set xs. \<not> invalid s x"
    "\<forall>g. known s g \<longrightarrow> \<not> invalid s g \<longrightarrow> cw s g \<le> cw s (last xs)"
    unfolding rebuilt_def by auto
  note w = with_header_index [OF x(1)]
  have "index_ok L (snd st)" 
    unfolding index_ok_def best_tip_def w using base x(2-) by simp
  with st(1) x(1) show ?thesis by (auto simp: extend_header_index_def)
qed

lemma by_height_sorted: "sorted (map (header_height s) (by_height s))" "set (by_height s) = {h. known s h}"
proof -
  show "sorted (map (header_height s) (by_height s))" by (simp add: by_height_def)
  have "map_of (header_dict s) h \<noteq> None \<longleftrightarrow> h \<in> fst ` set (header_dict s)" for h
    by (simp add: map_of_eq_None_iff)
  then show "set (by_height s) = {h. known s h}" by (auto simp: by_height_def known_def)
qed

lemma rebuild_ok:
  assumes "base_ok L s"
  shows "\<exists>s' xs m. extend_header_index (by_height s) (reset_header_index s) = Some s' \<and> index_ok L s'
     \<and> s' = s\<lparr>header_index := xs, header_index_pos := m\<rparr>"
proof -
  let ?r = "reset_header_index s"
  have rr: "?r = s\<lparr>header_index := active_chain s, header_index_pos := positions (active_chain s)\<rparr>"
    by (simp add: reset_header_index_def)
  note w = with_header_index [OF rr]
  have "\<exists>s'. extend_header_index (by_height s) ?r = Some s' \<and> index_ok L s'
      \<and> (\<exists>xs m. s' = ?r\<lparr>header_index := xs, header_index_pos := m\<rparr>)"
    using assms by_height_sorted [of s] by (intro extend_header_index_best) (simp_all add: w)
  then show ?thesis by (auto simp: rr)
qed

end
