(* ===== verification/Index_Marks.thy ===== *)
theory Index_Marks
  imports Index_Rebuild
begin

text \<open>
  \<open>invalidate\<close> and \<open>reconsider\<close> as wholes, and the candidates \<open>reconsider\<close> and a load rebuild.
\<close>

section \<open>Candidates\<close>

definition ahead :: "block_index \<Rightarrow> bytes \<Rightarrow> bytes \<Rightarrow> bool" where
  "ahead s a b \<longleftrightarrow> cw s a > cw s b \<or> (cw s a = cw s b \<and> seq_less (sequence_id s a) (sequence_id s b))"

lemma outranks_ahead:
  "work_ok L s \<Longrightarrow> known s a \<Longrightarrow> known s b \<Longrightarrow> outranks s a b = Some (ahead s a b)"
  by (auto simp: outranks_def ahead_def chainwork_cw)

definition may_connect :: "block_index \<Rightarrow> bytes \<Rightarrow> bool" where
  \<comment> \<open>a header not checked yet, or a checked block whose data is here\<close>
  "may_connect s h \<longleftrightarrow> (\<exists>bi. map_of (header_dict s) h = Some bi
     \<and> (bi_status bi = ValidHeader \<or> (bi_status bi = Valid \<and> bi_downloaded bi)))"

lemma candidate_steps:
  assumes "work_ok L s" "known s tip" "\<forall>h\<in>set hs. known s h"
  shows "fold_opt (candidate_step A tip) hs (s\<lparr>block_candidates := c\<rparr>)
     = Some (s\<lparr>block_candidates := c @ map (\<lambda>h. (h, cw s h))
         (filter (\<lambda>h. h \<notin> A \<and> may_connect s h \<and> ahead s h tip) hs)\<rparr>)"
  using assms(3)
proof (induction hs arbitrary: c)
  case (Cons h hs)
  let ?s = "s\<lparr>block_candidates := c\<rparr>"
  have k: "known s h" using Cons.prems by simp
  then obtain bi where bi: "map_of (header_dict s) h = Some bi" by (auto simp: known_def)
  have o: "outranks ?s h tip = Some (ahead s h tip)"
    using outranks_ahead [OF assms(1) k assms(2)] by (simp add: outranks_def cong: if_cong)
  have w: "chainwork s h = Some (cw s h)" using chainwork_cw assms(1) k by blast
  have "candidate_step A tip h ?s = Some (s\<lparr>block_candidates := c @ (if h \<notin> A \<and> may_connect s h \<and> ahead s h tip
      then [(h, cw s h)] else [])\<rparr>)"
    using o w bi by (cases "bi_status bi") (auto simp: candidate_step_def get_block_info_def may_connect_def)
  with Cons show ?case by simp
qed simp

definition candidates_of :: "block_index \<Rightarrow> (bytes \<times> int) list" where
  "candidates_of s = map (\<lambda>h. (h, cw s h)) (filter (\<lambda>h. h \<notin> set (active_chain s) \<and> may_connect s h
     \<and> ahead s h (last (active_chain s))) (by_height s))"

lemma generate_block_candidates_eq:
  assumes "base_ok L s"
  shows "generate_block_candidates s = Some (s\<lparr>block_candidates := candidates_of s\<rparr>)"
proof -
  have ac: "is_chain s (active_chain s)" "work_ok L s" using assms by (simp_all add: base_ok_def active_ok_def)
  have "active_chain s \<noteq> []" using ac(1) by (simp add: chain_of_def)
  then show ?thesis
    using candidate_steps [OF ac(2) tree.chain_of_last(1) [OF ac(1)], of "by_height s" "set (active_chain s)" "[]"]
      by_height_sorted(2) [of s]
    by (simp add: generate_block_candidates_def candidates_of_def py_simps)
qed

section \<open>Invalidating a block\<close>

definition marked_ok :: "block_index \<Rightarrow> bool" where
  "marked_ok s \<longleftrightarrow> (\<forall>b. best_invalid s = Some b \<longrightarrow> known s b)"

lemma active_descendants:
  assumes "base_ok L s" "known s h" "h \<notin> set (active_chain s)"
  shows "descendants s h \<inter> set (active_chain s) = {}"
proof -
  have ac: "tree_ok s" "is_chain s (active_chain s)" using assms(1) by (simp_all add: base_ok_def active_ok_def)
  have "h \<in> set (active_chain s)" if "x \<in> descendants s h" "x \<in> set (active_chain s)" for x
  proof -
    have x: "known s x" "ancestor_of s h x" using that(1) by (simp_all add: descendants_def)
    then have "ancestor_of s x (last (active_chain s))" using tree.chain_of_mem_iff [OF ac] that(2) by blast
    then have "ancestor_of s h (last (active_chain s))"
      using tree.is_anc_trans [of s "last (active_chain s)" h x] ac(1) x assms(2) tree.chain_of_last(1) [OF ac(2)]
      by blast
    with tree.chain_of_mem_iff [OF ac assms(2)] show ?thesis by simp
  qed
  with assms(3) show ?thesis by blast
qed

lemma descendants_parent:
  assumes "tree_ok s" "known s h" "known s x" "header_height s x \<noteq> 0" "blk_parent s x \<in> descendants s h"
  shows "x \<in> descendants s h"
  using assms tree.is_anc_trans [of s x h "blk_parent s x"] tree.is_anc_parent [of s x]
  by (auto simp: descendants_def)

lemma restatus_base:
  assumes "base_ok L s" "restatus s s' (descendants s h) Invalid" "store_ok L s'" "known s h"
    and "h \<notin> set (active_chain s)"
  shows "base_ok L s'"
proof -
  have sh: "same_shape s s'" using assms(2) by (simp add: restatus_def)
  note t = same_shape_tree [OF sh] and i = restatus_invalid [OF assms(2)]
  have b: "tree_ok s" "status_ok s" "active_ok s" using assms(1) by (simp_all add: base_ok_def)
  have "status_ok s'"
    unfolding status_ok_def t
  proof (intro allI impI)
    fix x assume x: "known s x" "header_height s x \<noteq> 0" "invalid s' (blk_parent s x)"
    show "invalid s' x"
    proof (cases "blk_parent s x \<in> descendants s h")
      case True
      then show ?thesis using descendants_parent [OF b(1) assms(4) x(1,2)] x(1) by (simp add: i)
    next
      case False
      then have "invalid s (blk_parent s x)" using x(3) by (simp add: i)
      then have "invalid s x" using b(2) x(1,2) by (simp add: status_ok_def)
      then show ?thesis using x(1) by (simp add: i)
    qed
  qed
  moreover have "\<forall>x\<in>set (active_chain s). \<not> invalid s' x"
    using active_descendants [OF assms(1,4,5)] b(3) by (auto simp: i active_ok_def)
  ultimately show ?thesis using base_ok_shape [OF sh assms(1,3)] by blast
qed

lemma weigh_invalid_ok:
  assumes "work_ok L s" "marked_ok s" "known s h"
  shows "\<exists>b. weigh_invalid h s = Some (s\<lparr>best_invalid := b\<rparr>) \<and> (\<forall>x. b = Some x \<longrightarrow> known s x)"
proof (cases "best_invalid s")
  case None
  with assms show ?thesis by (intro exI [of _ "Some h"]) (simp add: weigh_invalid_def)
next
  case (Some x)
  then have k: "known s x" using assms(2) by (simp add: marked_ok_def)
  have e: "s\<lparr>best_invalid := Some x\<rparr> = s" using Some by simp
  have "weigh_invalid h s = Some (s\<lparr>best_invalid := if cw s h > cw s x then Some h else Some x\<rparr>)"
    using Some assms(3) k chainwork_cw [OF assms(1)] e by (simp add: weigh_invalid_def)
  with assms(3) k show ?thesis by (intro exI [of _ "if cw s h > cw s x then Some h else Some x"]) simp
qed

definition status_marked :: "block_index \<Rightarrow> block_index \<Rightarrow> bytes set \<Rightarrow> block_status \<Rightarrow> bool" where
  "status_marked s s' D st \<longleftrightarrow> chain s' = chain s \<and> active_chain s' = active_chain s
     \<and> (\<forall>h. map_of (header_dict s') h =
          (if h \<in> D then map_option (bi_status_update (\<lambda>_. st)) (map_of (header_dict s) h)
           else map_of (header_dict s) h))"

lemma invalidate_ok:
  assumes ok: "index_ok L s" and m: "marked_ok s" and h: "known s h" "h \<notin> set (active_chain s)"
  shows "\<exists>s'. invalidate L h s = Some s' \<and> index_ok L s' \<and> marked_ok s'
     \<and> status_marked s s' (descendants s h) Invalid
     \<and> block_candidates s' = filter (\<lambda>c. fst c \<notin> descendants s h) (block_candidates s)"
proof -
  have base: "base_ok L s" and hi: "header_index_ok s" and bt: "best_tip s"
    using ok by (simp_all add: index_ok_def)
  have wk: "work_ok L s" using base by (simp add: base_ok_def)
  obtain b where b: "weigh_invalid h s = Some (s\<lparr>best_invalid := b\<rparr>)" "\<forall>x. b = Some x \<longrightarrow> known s x"
    using weigh_invalid_ok [OF wk m h(1)] by blast
  let ?s0 = "s\<lparr>best_invalid := b\<rparr>"
  have sh0: "same_shape s ?s0" by (simp add: same_shape_def same_headers_def)
  note t0 = same_shape_tree [OF sh0]
  have base0: "base_ok L ?s0" using base base_ok_frame [of ?s0 s L] by simp
  have d0: "descendants ?s0 h = descendants s h" by (simp add: descendants_def t0)
  obtain s1 where s1: "invalidate_loop L [h] {} ?s0 = Some (descendants s h, s1)" "store_ok L s1"
    "restatus ?s0 s1 (descendants s h) Invalid" "same_rest ?s0 s1"
    using invalidate_loop_marks [of L ?s0 h] base0 h(1) d0 by (auto simp: marking_def base_ok_def t0)
  have base1: "base_ok L s1"
    using restatus_base [OF base0 _ s1(2), of h] s1(3) h by (simp add: d0 t0)
  have sh1: "same_shape ?s0 s1" using s1(3) by (simp add: restatus_def)
  note t1 = same_shape_tree [OF sh1] and f1 = same_shapeD [OF sh1] and i1 = restatus_invalid [OF s1(3)]
  let ?c = "filter (\<lambda>(x, w). x \<notin> descendants s h) (block_candidates s1)"
  let ?s2 = "s1\<lparr>block_candidates := ?c\<rparr>"
  have base2: "base_ok L ?s2" using base1 base_ok_frame [of ?s2 s1 L] by simp
  have c2: "?c = filter (\<lambda>c. fst c \<notin> descendants s h) (block_candidates s)"
    using s1(4) by (simp add: same_rest_def case_prod_unfold)
  have bi2: "best_invalid s1 = b" using s1(4) by (simp add: same_rest_def)
  have mark: "status_marked s ?s2 (descendants s h) Invalid" "known ?s2 = known s"
    using s1(3) f1 t1(1) t0(1) by (auto simp: status_marked_def restatus_def known_def fun_eq_iff)
  have hx: "header_index ?s2 = header_index s" using f1 by simp
  show ?thesis
  proof (cases "\<exists>x\<in>set (header_index s). x \<in> descendants s h")
    case True
    obtain s' xs mm where s': "extend_header_index (by_height ?s2) (reset_header_index ?s2) = Some s'"
      "index_ok L s'" "s' = ?s2\<lparr>header_index := xs, header_index_pos := mm\<rparr>"
      using rebuild_ok [OF base2] by blast
    have "invalidate L h s = Some s'" using True b(1) s1(1) s'(1) hx by (simp add: invalidate_def)
    moreover have "marked_ok s'" "status_marked s s' (descendants s h) Invalid" "block_candidates s' = ?c"
      using s'(3) mark b(2) bi2 by (auto simp: marked_ok_def status_marked_def known_def)
    ultimately show ?thesis using s'(2) c2 by metis
  next
    case False
    have "invalidate L h s = Some ?s2" using False b(1) s1(1) hx by (simp add: invalidate_def)
    moreover have "index_ok L ?s2"
    proof -
      have i2: "invalid ?s2 x = invalid s1 x" for x by (simp add: invalid_def)
      have cw2: "cw ?s2 = cw s" using t0 t1 by (simp add: cw_def fun_eq_iff)
      have "invalid ?s0 x = invalid s x" for x by (simp add: invalid_def)
      then have "best_tip ?s2"
        using bt False by (auto simp: best_tip_def i2 i1 hx cw2 mark t0)
      moreover have "same_shape s ?s2"
        using same_shape_trans [OF sh0 sh1] by (simp add: same_shape_def same_headers_def)
      then have "header_index_ok ?s2" using header_index_ok_shape hi by blast
      ultimately show ?thesis using base2 by (simp add: index_ok_def)
    qed
    moreover have "marked_ok ?s2" using b(2) bi2 mark(2) by (simp add: marked_ok_def)
    ultimately show ?thesis using mark(1) c2 by (intro exI [of _ ?s2]) simp
  qed
qed

section \<open>Reconsidering a block\<close>

definition lineage :: "block_index \<Rightarrow> bytes \<Rightarrow> bytes set" where
  "lineage s h = {x. known s x \<and> (ancestor_of s h x \<or> ancestor_of s x h)}"

lemma shares_lineage_iff:
  assumes "tree_ok s" "skip_ok s" "known s x" "known s h"
  shows "shares_lineage s x h (header_height s h) = Some (x \<in> lineage s h)"
proof -
  obtain bi where bi: "map_of (header_dict s) x = Some bi" "header_height s x = bi_index bi"
    using assms by (metis knownE)
  have nn: "0 \<le> header_height s h" "0 \<le> header_height s x"
    using assms tree.height_nonneg by blast+
  show ?thesis
    using get_ancestor_anc [OF assms(1-3), of "header_height s h"]
      get_ancestor_anc [OF assms(1,2,4), of "header_height s x"] bi nn assms(3)
    by (auto simp: shares_lineage_def lineage_def is_anc_def)
qed

text \<open>The state between two iterations: what of the lineage has been visited is cleared.\<close>

definition clearing :: "btclib \<Rightarrow> block_index \<Rightarrow> bytes \<Rightarrow> (bytes \<times> block_info) list \<Rightarrow> block_index \<Rightarrow> bool" where
  "clearing L s h rest t \<longleftrightarrow> store_ok L t \<and> marked_ok t \<and> distinct (map fst rest)
     \<and> set rest \<subseteq> set (header_dict s)
     \<and> restatus s t {x. x \<in> lineage s h \<and> invalid s x \<and> x \<notin> fst ` set rest} ValidHeader"

lemma restatus_best_invalid: "restatus s (u\<lparr>best_invalid := b\<rparr>) D st \<longleftrightarrow> restatus s u D st"
  unfolding restatus_def same_shape_def same_headers_def by simp

lemma reconsider_step_clears:
  assumes base: "base_ok L s" and h: "known s h" and inv: "clearing L s h (p # rest) t"
  shows "\<exists>t'. reconsider_step L h (header_height s h) p t = Some t' \<and> clearing L s h rest t'"
proof -
  obtain x i where p: "p = (x, i)" by fastforce
  have ok: "tree_ok s" "skip_ok s" using base by (simp_all add: base_ok_def)
  let ?D = "\<lambda>r. {y. y \<in> lineage s h \<and> invalid s y \<and> y \<notin> fst ` set r}"
  have t: "store_ok L t" "marked_ok t" "restatus s t (?D (p # rest)) ValidHeader"
    and d: "distinct (map fst rest)" "x \<notin> fst ` set rest" "set rest \<subseteq> set (header_dict s)"
    using inv by (auto simp: clearing_def p)
  have xi: "map_of (header_dict s) x = Some i"
    using inv ok(1) map_of_Some_iff_mem [of "header_dict s" x i] by (auto simp: clearing_def p tree_ok_def)
  then have kx: "known s x" "invalid s x \<longleftrightarrow> bi_status i = Invalid" by (simp_all add: known_def invalid_def)
  have sh: "same_shape s t" using t(3) by (simp add: restatus_def)
  note tt = same_shape_tree [OF sh]
  have tok: "tree_ok t" using same_shape_tree_ok [OF sh ok(1)] .
  have tskip: "skip_ok t" using ok(2) same_shapeD(3) [OF sh] by (simp add: skip_ok_def skip_ok_on_def tt)
  have lin: "shares_lineage t x h (header_height s h) = Some (x \<in> lineage s h)"
    using shares_lineage_iff [OF tok tskip, of x h] kx(1) h by (simp add: tt lineage_def)
  show ?thesis
  proof (cases "invalid s x \<and> x \<in> lineage s h")
    case False
    then have "reconsider_step L h (header_height s h) p t = Some t"
      using lin kx(2) by (auto simp: reconsider_step_def p)
    moreover have "?D (p # rest) = ?D rest" using False d(2) by (auto simp: p)
    ultimately show ?thesis using t d unfolding clearing_def by auto
  next
    case True
    obtain u where u: "set_status L x ValidHeader t = Some u" "store_ok L u" "restatus t u {x} ValidHeader"
      "same_rest t u"
      using set_status_spec [OF tok t(1), of x ValidHeader] kx(1) tt by auto
    let ?v = "if Some x = best_invalid u then u\<lparr>best_invalid := None\<rparr> else u"
    have "reconsider_step L h (header_height s h) p t = Some ?v"
      using True lin kx(2) u(1) by (auto simp: reconsider_step_def p)
    moreover have "restatus s u (?D rest) ValidHeader"
    proof -
      have "?D (p # rest) \<union> {x} = ?D rest" using True d(2) by (auto simp: p)
      with restatus_trans [OF t(3) u(3)] show ?thesis by simp
    qed
    then have "restatus s ?v (?D rest) ValidHeader" by (simp add: restatus_best_invalid)
    moreover have "store_ok L ?v" using u(2) by (simp add: store_ok_def)
    moreover have "marked_ok ?v"
    proof -
      have "known u = known t" using same_shape_tree(1) u(3) by (simp add: restatus_def)
      moreover have "known (u\<lparr>best_invalid := None\<rparr>) = known u" by (simp add: known_def fun_eq_iff)
      ultimately show ?thesis using t(2) u(4) by (simp add: marked_ok_def same_rest_def)
    qed
    ultimately show ?thesis using d unfolding clearing_def by blast
  qed
qed

lemma lineage_status_ok:
  assumes "tree_ok s" "status_ok s" "known s h"
    and "same_shape s t" "\<And>x. invalid t x \<longleftrightarrow> invalid s x \<and> x \<notin> lineage s h"
  shows "status_ok t"
  unfolding status_ok_def same_shape_tree [OF assms(4)] assms(5)
proof (intro allI impI conjI)
  fix x assume x: "known s x" "header_height s x \<noteq> 0"
    "invalid s (blk_parent s x) \<and> blk_parent s x \<notin> lineage s h"
  then show "invalid s x" using assms(2) by (simp add: status_ok_def)
  have p: "known s (blk_parent s x)" "ancestor_of s (blk_parent s x) x"
    using x assms(1) by (simp_all add: tree.known_parent tree.is_anc_parent)
  show "x \<notin> lineage s h"
  proof
    assume "x \<in> lineage s h"
    then consider "ancestor_of s x h" | "ancestor_of s h x" "x \<noteq> h"
      using tree.is_anc_refl [of s h] by (auto simp: lineage_def)
    then have "ancestor_of s (blk_parent s x) h \<or> ancestor_of s h (blk_parent s x)"
      using tree.is_anc_trans [of s h "blk_parent s x" x] tree.is_anc_cases [of s x h] assms(1,3) x p
      by (cases) auto
    with x(3) p show False by (auto simp: lineage_def)
  qed
qed

lemma reconsider_ok:
  assumes ok: "index_ok L s" and m: "marked_ok s" and h: "known s h"
  shows "\<exists>s'. reconsider L h s = Some s' \<and> index_ok L s' \<and> marked_ok s'
     \<and> status_marked s s' {x. x \<in> lineage s h \<and> invalid s x} ValidHeader
     \<and> block_candidates s' = candidates_of s'"
proof -
  have base: "base_ok L s" using ok by (simp add: index_ok_def)
  then have b: "tree_ok s" "status_ok s" "active_ok s" by (simp_all add: base_ok_def)
  obtain bi where bi: "map_of (header_dict s) h = Some bi" "header_height s h = bi_index bi"
    using b(1) h by (metis knownE)
  let ?D = "{x. x \<in> lineage s h \<and> invalid s x}"
  have none: "{x. x \<in> lineage s h \<and> invalid s x \<and> x \<notin> fst ` set (header_dict s)} = {}"
    by (auto simp: lineage_def known_def dest: map_of_in_dom)
  have "clearing L s h (header_dict s) s"
    using base b(1) m by (simp add: clearing_def none restatus_empty base_ok_def tree_ok_def)
  then obtain t where t: "fold_opt (reconsider_step L h (header_height s h)) (header_dict s) s = Some t"
    "clearing L s h [] t"
    using fold_opt_invariant_rest [of "clearing L s h" "header_dict s" s] reconsider_step_clears [OF base h]
    by blast
  then have t': "store_ok L t" "marked_ok t" "restatus s t ?D ValidHeader" by (simp_all add: clearing_def)
  have sh: "same_shape s t" using t'(3) by (simp add: restatus_def)
  have inv: "invalid t x \<longleftrightarrow> invalid s x \<and> x \<notin> lineage s h" for x
    using restatus_invalid [OF t'(3), of x] by auto
  have "base_ok L t"
    using base_ok_shape [OF sh base t'(1) lineage_status_ok [OF b(1,2) h sh inv]] b(3) inv
    by (simp add: active_ok_def)
  then have base2: "base_ok L (t\<lparr>block_candidates := candidates_of t\<rparr>)"
    and gen: "generate_block_candidates t = Some (t\<lparr>block_candidates := candidates_of t\<rparr>)"
    using base_ok_frame [of "t\<lparr>block_candidates := candidates_of t\<rparr>" t L] generate_block_candidates_eq
    by auto
  let ?u = "t\<lparr>block_candidates := candidates_of t\<rparr>"
  obtain s' xs mm where s': "extend_header_index (by_height ?u) (reset_header_index ?u) = Some s'"
    "index_ok L s'" "s' = ?u\<lparr>header_index := xs, header_index_pos := mm\<rparr>"
    using rebuild_ok [OF base2] by blast
  have "reconsider L h s = Some s'"
    using bi t(1) gen s'(1) by (simp add: reconsider_def get_block_info_def)
  moreover have "marked_ok s'" using t'(2) s'(3) by (simp add: marked_ok_def known_def)
  moreover have "status_marked s s' ?D ValidHeader"
    using t'(3) same_shapeD [OF sh] s'(3) by (simp add: status_marked_def restatus_def)
  moreover have "block_candidates s' = candidates_of s'"
  proof -
    have "header_height s' = header_height t" "cw s' = cw t"
      using s'(3) by (auto simp: header_height_def cw_def fun_eq_iff)
    then show ?thesis
      using s'(3) by (simp add: candidates_of_def by_height_def may_connect_def ahead_def)
  qed
  ultimately show ?thesis using s'(2) by blast
qed

end
