(* ===== verification/Index_Reach.thy ===== *)
theory Index_Reach
  imports Index_Marks
begin

text \<open>
  The index over time: \<open>finalize\<close> makes the store hold what memory holds, the active chain grows
  and shrinks at its tip, and every index the operations reach is under the invariant.
\<close>

section \<open>Writing what is staged\<close>

lemma puts_as_writes:
  "fold_opt (\<lambda>p. store_put (fst p) (snd p)) ps d = Some d'
     \<longleftrightarrow> kv_writes (map (\<lambda>p. WPut (fst p) (snd p)) ps) d = (None, d')"
  by (induction ps arbitrary: d) (auto simp: store_put_def split: sum.splits)

lemma puts_in_batch:
  assumes "store_open d" "fold_opt (\<lambda>p. store_put (fst p) (snd p)) ps d = Some d'"
  shows "\<exists>xs. fold_opt (\<lambda>p. store_put (fst p) (snd p)) ps (d\<lparr>pending_batch := Some []\<rparr>)
      = Some (d\<lparr>pending_batch := Some xs\<rparr>) \<and> d' = fold apply_batch_op xs d"
proof -
  let ?ws = "map (\<lambda>p. WPut (fst p) (snd p)) ps"
  have op: "\<not> kv_closed d" "pending_batch d = None" using assms(1) by (simp_all add: store_open_def)
  obtain r t where t: "kv_writes ?ws (d\<lparr>pending_batch := Some []\<rparr>) = (r, t)" by fastforce
  obtain xs where xs: "t = d\<lparr>pending_batch := Some xs\<rparr>" "kv_writes ?ws d = (r, fold apply_batch_op xs d)"
    using kv_writes_batch [OF _ t, of "[]"] op by auto
  have "kv_writes ?ws d = (None, d')" using assms(2) puts_as_writes by blast
  with xs t puts_as_writes show ?thesis by auto
qed

definition staged :: "btclib \<Rightarrow> block_index \<Rightarrow> pairs" where
  "staged L s = map (\<lambda>(h, bi). (blk_key h, block_info_serialize L bi)) (pending s)"

lemma map_of_keyed:
  "map_of (map (\<lambda>(h, bi). (blk_key h, f bi)) xs) (blk_key h) = map_option f (map_of xs h)"
  by (induction xs) (auto simp: blk_key_def)

lemma map_of_staged:
  assumes "distinct (map fst (pending s))"
  shows "map_of (rev (staged L s)) (blk_key h) = map_option (block_info_serialize L) (map_of (pending s) h)"
proof -
  have "map fst (staged L s) = map blk_key (map fst (pending s))"
    by (simp add: staged_def case_prod_unfold)
  then have d: "distinct (map fst (staged L s))"
    using assms by (simp add: distinct_map inj_on_def blk_key_def del: map_map)
  have "map_of (staged L s) (blk_key h) = map_option (block_info_serialize L) (map_of (pending s) h)"
    unfolding staged_def by (rule map_of_keyed)
  with d show ?thesis by (metis distinct_rev map_of_inject_set rev_map set_rev)
qed

text \<open>
  \<open>finalize\<close> with a batch of its own succeeds, leaves nothing staged and the record of every
  header in the store; memory is as before.
\<close>

lemma finalize_stores:
  assumes "store_ok L s"
  shows "\<exists>d. finalize L False s = Some (s\<lparr>db := d, pending := []\<rparr>) \<and> store_open d
     \<and> (\<forall>h bi. map_of (header_dict s) h = Some bi \<longrightarrow> h \<noteq> hdr_hash (genesis (chain s)) \<longrightarrow>
          store_get d (blk_key h) = Some (block_info_serialize L bi))
     \<and> (\<forall>k. (\<forall>h. k \<noteq> blk_key h) \<longrightarrow> store_get d k = store_get (db s) k)"
proof -
  have op: "store_open (db s)" and dp: "distinct (map fst (pending s))"
    and sub: "\<And>h bi. map_of (pending s) h = Some bi \<Longrightarrow> map_of (header_dict s) h = Some bi"
    and st: "\<And>h bi. map_of (header_dict s) h = Some bi \<Longrightarrow> map_of (pending s) h = None \<Longrightarrow>
          h \<noteq> hdr_hash (genesis (chain s)) \<Longrightarrow> store_get (db s) (blk_key h) = Some (block_info_serialize L bi)"
    using assms by (simp_all add: store_ok_def)
  obtain d where d: "fold_opt (\<lambda>p. store_put (fst p) (snd p)) (staged L s) (db s) = Some d" "store_open d"
    "\<And>k. store_get d k = (case map_of (rev (staged L s)) k of Some v \<Rightarrow> Some v | None \<Rightarrow> store_get (db s) k)"
    using kv.put_all [OF op, of "staged L s"] by auto
  obtain xs where xs: "fold_opt (\<lambda>p. store_put (fst p) (snd p)) (staged L s) ((db s)\<lparr>pending_batch := Some []\<rparr>)
      = Some ((db s)\<lparr>pending_batch := Some xs\<rparr>)" "d = fold apply_batch_op xs (db s)"
    using puts_in_batch [OF op d(1)] by blast
  have cl: "\<not> kv_closed (db s)" "pending_batch (db s) = None" using op by (simp_all add: store_open_def)
  have back': "(db s)\<lparr>pending_batch := None\<rparr> = db s" using cl(2) by simp
  have "finalize L False s = Some (s\<lparr>db := d, pending := []\<rparr>)"
    using xs cl by (simp add: finalize_def write_pending_def write_batch_def ensure_open_def
        staged_def back')
  moreover have "store_get d (blk_key h) = Some (block_info_serialize L bi)"
    if "map_of (header_dict s) h = Some bi" "h \<noteq> hdr_hash (genesis (chain s))" for h bi
    using that d(3) map_of_staged [OF dp, where L = L and h = h] sub [of h] st [of h bi]
    by (cases "map_of (pending s) h") auto
  moreover have "store_get d k = store_get (db s) k" if "\<forall>h. k \<noteq> blk_key h" for k
  proof -
    have "k \<notin> fst ` set (rev (staged L s))" using that by (auto simp: staged_def)
    then have "map_of (rev (staged L s)) k = None" by (simp add: map_of_eq_None_iff)
    with d(3) show ?thesis by simp
  qed
  ultimately show ?thesis using d(2) by blast
qed

lemma finalize_ok:
  assumes "index_ok L s"
  shows "\<exists>s'. finalize L False s = Some s' \<and> index_ok L s' \<and> pending s' = []"
proof -
  have base: "base_ok L s" using assms by (simp add: index_ok_def)
  obtain d where d: "finalize L False s = Some (s\<lparr>db := d, pending := []\<rparr>)" "store_open d"
     "\<forall>h bi. map_of (header_dict s) h = Some bi \<longrightarrow> h \<noteq> hdr_hash (genesis (chain s)) \<longrightarrow>
          store_get d (blk_key h) = Some (block_info_serialize L bi)"
    using finalize_stores [of L s] base by (auto simp: base_ok_def)
  let ?s = "s\<lparr>db := d, pending := []\<rparr>"
  have sh: "same_shape s ?s" by (simp add: same_shape_def same_headers_def)
  have i: "invalid ?s = invalid s" by (simp add: invalid_def fun_eq_iff)
  note t = same_shape_tree [OF sh]
  have so: "store_ok L ?s" using d(2,3) by (simp add: store_ok_def)
  have sk: "status_ok ?s" using base by (simp add: base_ok_def status_ok_def i t)
  have ac: "\<forall>h\<in>set (active_chain s). \<not> invalid ?s h" using base by (simp add: base_ok_def active_ok_def i)
  have "base_ok L ?s" using base_ok_shape [OF sh base so sk ac] .
  moreover have "header_index_ok ?s" using assms header_index_ok_shape [OF sh] by (simp add: index_ok_def)
  moreover have "best_tip ?s" using assms by (simp add: index_ok_def best_tip_def i t)
  ultimately show ?thesis using d(1) by (simp add: index_ok_def)
qed

section \<open>The tip of the active chain\<close>

lemma active_chain_frame:
  assumes "index_ok L s" "is_chain s xs" "\<forall>h\<in>set xs. \<not> invalid s h"
  shows "index_ok L (s\<lparr>active_chain := xs\<rparr>)"
proof -
  let ?s = "s\<lparr>active_chain := xs\<rparr>"
  have d: "header_dict ?s = header_dict s" "chain ?s = chain s" by simp_all
  note t = same_tree [OF d(1)] same_tree_ok [OF d]
  have i: "invalid ?s = invalid s" "cw ?s = cw s" "work_at L ?s = work_at L s"
    by (simp_all add: invalid_def cw_def work_at_def fun_eq_iff)
  have "base_ok L ?s"
    using assms unfolding index_ok_def base_ok_def skip_ok_def skip_ok_on_def work_ok_def children_ok_def
      status_ok_def active_ok_def t i by (simp add: store_ok_def)
  moreover have "header_index_ok ?s" "best_tip ?s"
    using assms(1) unfolding index_ok_def header_index_ok_alt best_tip_def t i by simp_all
  ultimately show ?thesis by (simp add: index_ok_def)
qed

lemma add_to_active_chain_ok:
  assumes "index_ok L s" "known s h" "\<not> invalid s h" "header_height s h \<noteq> 0"
    and "blk_parent s h = last (active_chain s)"
  shows "index_ok L (add_to_active_chain h s)"
proof -
  have ac: "tree_ok s" "is_chain s (active_chain s)" "\<forall>h\<in>set (active_chain s). \<not> invalid s h"
    using assms(1) by (simp_all add: index_ok_def base_ok_def active_ok_def)
  have "header_height s h = int (length (active_chain s))"
    using tree.height_parent [of s h] tree.chain_of_last(2) [OF ac(2)] ac(1) assms by simp
  then have "is_chain s (active_chain s @ [h])" using ac(2) assms by (intro tree.chain_of_snoc) simp_all
  then show ?thesis
    unfolding add_to_active_chain_def using active_chain_frame [OF assms(1)] ac(3) assms(3) by auto
qed

lemma remove_from_active_chain_spec:
  assumes "index_ok L s"
  shows "remove_from_active_chain h s =
    (if h = last (active_chain s) then Inr (s\<lparr>active_chain := butlast (active_chain s)\<rparr>)
     else Inl (ChainstateInconsistencyError ''block_hash is not the active chain's tip''))
   \<and> (2 \<le> length (active_chain s) \<longrightarrow> index_ok L (s\<lparr>active_chain := butlast (active_chain s)\<rparr>))"
proof -
  have ac: "is_chain s (active_chain s)" "\<forall>h\<in>set (active_chain s). \<not> invalid s h"
    using assms by (simp_all add: index_ok_def base_ok_def active_ok_def)
  have ne: "active_chain s \<noteq> []" using ac(1) by (simp add: chain_of_def)
  have "index_ok L (s\<lparr>active_chain := butlast (active_chain s)\<rparr>)" if "2 \<le> length (active_chain s)"
  proof -
    have "is_chain s (take (length (active_chain s) - 1) (active_chain s))"
      using tree.chain_of_take [OF ac(1)] that by simp
    then have "is_chain s (butlast (active_chain s))" by (simp add: butlast_conv_take)
    then show ?thesis using active_chain_frame [OF assms] ac(2) by (auto dest: in_set_butlastD)
  qed
  with ne show ?thesis by (simp add: remove_from_active_chain_def py_simps)
qed

section \<open>Every index reached\<close>

text \<open>
  The operations that change the index, with what their callers see to: a block joins the active
  chain on its tip and is not invalid; a status is set to other than invalid on a block off the
  invalid branches; a block is invalidated once it is off the active chain.
\<close>

inductive index_step :: "btclib \<Rightarrow> block_index \<Rightarrow> block_index \<Rightarrow> bool" for L where
  headers: "add_headers L now punish mpc hs s = (s', r) \<Longrightarrow> index_step L s s'"
| invalid_block: "invalidate L h s = Some s' \<Longrightarrow> known s h \<Longrightarrow> h \<notin> set (active_chain s) \<Longrightarrow> index_step L s s'"
| reconsidered: "reconsider L h s = Some s' \<Longrightarrow> known s h \<Longrightarrow> index_step L s s'"
| status_set: "set_status L h st s = Some s' \<Longrightarrow> known s h \<Longrightarrow> \<not> invalid s h \<Longrightarrow> st \<noteq> Invalid \<Longrightarrow> index_step L s s'"
| status_staged: "stage_status h st s = Some s' \<Longrightarrow> known s h \<Longrightarrow> \<not> invalid s h \<Longrightarrow> st \<noteq> Invalid \<Longrightarrow> index_step L s s'"
| finalized: "finalize L False s = Some s' \<Longrightarrow> index_step L s s'"
| connected: "known s h \<Longrightarrow> \<not> invalid s h \<Longrightarrow> header_height s h \<noteq> 0 \<Longrightarrow> blk_parent s h = last (active_chain s) \<Longrightarrow>
    index_step L s (add_to_active_chain h s)"
| disconnected: "2 \<le> length (active_chain s) \<Longrightarrow> remove_from_active_chain h s = Inr s' \<Longrightarrow> index_step L s s'"
| candidates: "generate_block_candidates s = Some s' \<Longrightarrow> index_step L s s'"

inductive_cases index_stepE: "index_step L s s'"

inductive index_reach :: "btclib \<Rightarrow> block_index \<Rightarrow> block_index \<Rightarrow> bool" for L where
  start: "index_reach L s s"
| more: "index_reach L s t \<Longrightarrow> index_step L t u \<Longrightarrow> index_reach L s u"

lemma restatus_valid_ok:
  assumes ok: "index_ok L s" "marked_ok s" and so: "store_ok L s'"
    and r: "restatus s s' {h} st" "same_rest s s'" and st: "known s h" "\<not> invalid s h" "st \<noteq> Invalid"
  shows "index_ok L s' \<and> marked_ok s'"
proof -
  have sh: "same_shape s s'" using r(1) by (simp add: restatus_def)
  note t = same_shape_tree [OF sh] and f = same_shapeD [OF sh]
  have i: "invalid s' = invalid s" using restatus_invalid [OF r(1)] st by (auto simp: fun_eq_iff)
  have base: "base_ok L s" using ok(1) by (simp add: index_ok_def)
  have sk: "status_ok s'" using base by (simp add: base_ok_def status_ok_def i t)
  have ac: "\<forall>x\<in>set (active_chain s). \<not> invalid s' x" using base by (simp add: base_ok_def active_ok_def i)
  have "base_ok L s'" using base_ok_shape [OF sh base so sk ac] .
  moreover have "header_index_ok s'" using ok(1) header_index_ok_shape [OF sh] by (simp add: index_ok_def)
  moreover have "best_tip s'" using ok(1) by (simp add: index_ok_def best_tip_def i t f)
  moreover have "marked_ok s'" using ok(2) r(2) by (simp add: marked_ok_def same_rest_def t)
  ultimately show ?thesis by (simp add: index_ok_def)
qed

lemma candidates_ok:
  assumes "index_ok L s" "marked_ok s"
  shows "index_ok L (s\<lparr>block_candidates := c\<rparr>) \<and> marked_ok (s\<lparr>block_candidates := c\<rparr>)"
proof -
  let ?s = "s\<lparr>block_candidates := c\<rparr>"
  have b: "base_ok L ?s" using assms(1) base_ok_frame [of ?s s L] by (simp add: index_ok_def)
  have sh: "same_shape s ?s" by (simp add: same_shape_def same_headers_def)
  have "invalid ?s = invalid s" by (simp add: invalid_def fun_eq_iff)
  then show ?thesis
    using b assms header_index_ok_shape [OF sh] same_shape_tree [OF sh]
    by (simp add: index_ok_def best_tip_def marked_ok_def)
qed

lemma index_step_ok:
  assumes "index_step L s s'" "index_ok L s" "marked_ok s" "work_positive L (chain s)"
  shows "index_ok L s' \<and> marked_ok s' \<and> chain s' = chain s"
proof -
  have p: "tree_ok s" "store_ok L s" "base_ok L s" using assms(2) by (simp_all add: index_ok_def base_ok_def)
  from assms(1) show ?thesis
  proof cases
    case (headers now punish mpc hs r)
    then have "index_ok L s' \<and> indexes_more s s'" using add_headers_ok assms(2,4) by blast
    moreover from this have "known s x \<Longrightarrow> known s' x" for x by (auto simp: known_def indexes_more_def)
    ultimately show ?thesis using assms(3) by (simp add: indexes_more_def marked_ok_def)
  next
    case (invalid_block h)
    then show ?thesis using invalidate_ok [OF assms(2,3), of h] by (auto simp: status_marked_def)
  next
    case (reconsidered h)
    then show ?thesis using reconsider_ok [OF assms(2,3), of h] by (auto simp: status_marked_def)
  next
    case (status_set h st)
    then obtain so: "store_ok L s'" and r: "restatus s s' {h} st" and rr: "same_rest s s'"
      using set_status_spec [OF p(1,2), of h st] by auto
    have "chain s' = chain s" using r by (simp add: restatus_def same_shape_def)
    then show ?thesis
      using restatus_valid_ok [OF assms(2,3) so r rr status_set(2-4)] by simp
  next
    case (status_staged h st)
    then obtain so: "store_ok L s'" and r: "restatus s s' {h} st" and rr: "same_rest s s'"
      using stage_status_spec [OF p(1,2), of h st] by auto
    have "chain s' = chain s" using r by (simp add: restatus_def same_shape_def)
    then show ?thesis
      using restatus_valid_ok [OF assms(2,3) so r rr status_staged(2-4)] by simp
  next
    case finalized
    obtain d where "s' = s\<lparr>db := d, pending := []\<rparr>" using finalize_stores [OF p(2)] finalized by auto
    with finalize_ok [OF assms(2)] finalized assms(3) show ?thesis by (auto simp: marked_ok_def known_def)
  next
    case (connected h)
    with add_to_active_chain_ok [OF assms(2)] assms(3) show ?thesis
      by (auto simp: marked_ok_def known_def add_to_active_chain_def)
  next
    case (disconnected h)
    with remove_from_active_chain_spec [OF assms(2), of h] assms(3) show ?thesis
      by (auto simp: marked_ok_def known_def split: if_splits)
  next
    case candidates
    with generate_block_candidates_eq [OF p(3)] candidates_ok [OF assms(2,3)] show ?thesis by auto
  qed
qed

lemma index_reach_ok:
  assumes "index_reach L s s'" "index_ok L s" "marked_ok s" "work_positive L (chain s)"
  shows "index_ok L s' \<and> marked_ok s' \<and> chain s' = chain s"
  using assms
proof (induction rule: index_reach.induct)
  case (more s t u)
  then show ?case using index_step_ok [of L t u] by simp
qed simp

end
