(* ===== verification/Index_Properties.thy ===== *)
theory Index_Properties
  imports Index_Load Index_Reach
begin

text \<open>
  The properties of the block index that its readers rely on, each over any index under the
  invariant \<open>index_ok\<close>, with a concrete index on which its hypotheses hold.
\<close>

section \<open>Headers\<close>

text \<open>
  C1. A batch of headers, whatever it holds and however it ends, keeps the invariant of the
  index: the best header chain is the ancestors of its tip from genesis up, holds no block marked
  invalid, and no valid indexed header has more work than its tip.  Nothing indexed before is
  lost or changed.
\<close>

theorem add_headers_best_chain:
  assumes "index_ok L s" "work_positive L (chain s)"
    and "add_headers L now punish mpc hs s = (s', r)"
  shows "index_ok L s'
    \<and> (let t = last (header_index s') in
         header_index s' = map (anc s' t) [0..header_height s' t]
         \<and> (\<forall>h\<in>set (header_index s'). \<not> invalid s' h)
         \<and> (\<forall>h. known s' h \<longrightarrow> \<not> invalid s' h \<longrightarrow> cw s' h \<le> cw s' t))
    \<and> (\<forall>h bi. map_of (header_dict s) h = Some bi \<longrightarrow> map_of (header_dict s') h = Some bi)"
proof -
  have ok: "index_ok L s'" and more: "indexes_more s s'" using add_headers_ok assms by blast+
  let ?t = "last (header_index s')"
  have t: "tree_ok s'" "is_chain s' (header_index s')" "best_tip s'"
    using ok by (simp_all add: index_ok_def base_ok_def header_index_ok_def)
  have k: "known s' ?t" using tree.chain_of_last(1) [OF t(2)] .
  have l: "last (map (anc s' ?t) [0..header_height s' ?t]) = ?t"
    using tree.height_nonneg [OF t(1) k] tree.anc_self [of s' ?t]
    by (simp add: last_map upto_rec2)
  have "header_index s' = map (anc s' ?t) [0..header_height s' ?t]"
    using tree.chain_of_unique [OF t(1,2) is_chain_anc [OF t(1) k]] l by simp
  with ok more t show ?thesis by (simp add: Let_def best_tip_def indexes_more_def)
qed

theorem add_headers_best_chain_witness:
  "index_ok demo_lib (fst (add_headers demo_lib 2 False True [demo_header 6 5] demo_forked))"
  using add_headers_best_chain [OF demo_forked_ok demo_work_positive, of 2 False True "[demo_header 6 5]"]
  by (metis prod.collapse)

text \<open>
  C9. A batch with a header whose proof of work misses the limit, or whose headers do not follow
  one another, is refused as misbehaviour before anything is stored; and a batch whose minimum
  work is not checked yet stores nothing either.
\<close>

lemma assert_continuous_broken:
  "assert_continuous hs = Inr () \<Longrightarrow> Suc i < length hs \<Longrightarrow> hdr_prev (hs ! Suc i) = hdr_hash (hs ! i)"
proof (induction hs arbitrary: i rule: assert_continuous.induct)
  case (1 p h hs)
  then show ?case by (cases i) (auto split: if_splits)
qed auto

lemma assert_continuous_error:
  "assert_continuous hs = Inl e \<Longrightarrow> e = MisbehavingError ''non-continuous headers sequence''"
  by (induction hs rule: assert_continuous.induct) (auto split: if_splits)

lemma check_pow_loop_error:
  "check_pow_loop L hs limit = Inl e \<Longrightarrow> e = MisbehavingError ''high-hash''"
  by (induction hs) (auto simp: assert_valid_pow_def split: if_splits)

lemma unchecked_work_stores_nothing:
  "fst (insert_valid_headers L now w punish False hs s) = s"
proof (induction hs)
  case (Cons h hs)
  have "fst (insert_header L now w punish False h s) = s"
    by (auto simp: insert_header_def split: sum.splits bool.splits option.splits)
  then obtain r where "insert_header L now w punish False h s = (s, r)" by (metis prod.collapse)
  with Cons show ?case by (cases r) simp_all
qed simp

theorem add_headers_refusals:
  "((\<exists>h\<in>set hs. \<not> valid_pow L h (pow_limit_bits (chain s)))
      \<or> (\<exists>i. Suc i < length hs \<and> hdr_prev (hs ! Suc i) \<noteq> hdr_hash (hs ! i))
    \<longrightarrow> (\<exists>why. add_headers L now punish mpc hs s = (s, Inl (MisbehavingError why))))
   \<and> fst (add_headers L now punish False hs s) = s"
proof (intro conjI impI)
  assume bad: "(\<exists>h\<in>set hs. \<not> valid_pow L h (pow_limit_bits (chain s)))
      \<or> (\<exists>i. Suc i < length hs \<and> hdr_prev (hs ! Suc i) \<noteq> hdr_hash (hs ! i))"
  let ?c = "check_headers_pow L hs (pow_limit_bits (chain s))"
  have "?c \<noteq> Inr u" for u
    using bad check_headers_pow_all [of L hs "pow_limit_bits (chain s)"] assert_continuous_broken [of hs]
    by (auto simp: check_headers_pow_def split: sum.splits)
  then obtain e where e: "?c = Inl e" by (cases ?c) auto
  then have "\<exists>why. e = MisbehavingError why"
    by (auto simp: check_headers_pow_def split: sum.splits
        dest: check_pow_loop_error assert_continuous_error)
  with e show "\<exists>why. add_headers L now punish mpc hs s = (s, Inl (MisbehavingError why))"
    by (auto simp: add_headers_def)
next
  show "fst (add_headers L now punish False hs s) = s"
    using unchecked_work_stores_nothing [of L now _ punish hs s]
    by (auto simp: add_headers_def split: sum.splits option.splits prod.splits) (metis fst_conv)+
qed

theorem add_headers_refusals_witness:
  "\<exists>why. add_headers demo_lib 2 True True [demo_header 6 5, demo_header 7 1] demo_forked
     = (demo_forked, Inl (MisbehavingError why))"
  using add_headers_refusals [of "[demo_header 6 5, demo_header 7 1]" demo_lib demo_forked 2 True True]
  by (simp add: demo_header_def)

text \<open>The chain work of an indexed block is the sum of the work of its ancestors from genesis up
  to and with itself, so it grows strictly along every branch.
\<close>

lemma chainwork_is_sum:
  assumes "index_ok L s" "known s h"
  shows "chainwork s h = Some (\<Sum>k\<in>{0..header_height s h}. work_at L s (anc s h k))
    \<and> (\<forall>k. 0 \<le> k \<longrightarrow> k < header_height s h \<longrightarrow> cw s (anc s h k) < cw s h)"
proof -
  have ok: "tree_ok s" "work_ok L s" using assms(1) by (simp_all add: index_ok_def base_ok_def)
  show ?thesis
    using chainwork_cw [OF ok(2) assms(2)] cw_sum [OF ok assms(2)] cw_anc_le [OF ok assms(2)] by simp
qed

lemma chainwork_is_sum_witness:
  "chainwork demo_forked [5] = Some (\<Sum>k\<in>{0..3}. work_at demo_lib demo_forked (anc demo_forked [5] k))"
proof -
  have "known demo_forked [5]" "header_height demo_forked [5] = 3" by code_simp+
  with chainwork_is_sum [OF demo_forked_ok, of "[5]"] show ?thesis by simp
qed

section \<open>Walks\<close>

text \<open>
  C8. \<open>get_ancestor\<close> answers, through the skip pointers, the block that following parents alone
  reaches at the height asked for; \<open>None\<close> where the height is negative or above the block's; and
  it always returns, without a KeyError.
\<close>

theorem get_ancestor_is_parent_walk:
  assumes "index_ok L s" "known s h"
  shows "get_ancestor s h k = Some
    (if 0 \<le> k \<and> k \<le> header_height s h then Some ((blk_parent s ^^ nat (header_height s h - k)) h)
     else None)"
  using get_ancestor_anc [of s h k] assms by (simp add: index_ok_def base_ok_def anc_at_def)

theorem get_ancestor_is_parent_walk_witness:
  "get_ancestor demo_forked [5] 1 = Some (Some [3]) \<and> get_ancestor demo_forked [5] 4 = Some None"
proof -
  have k: "known demo_forked [5]" "header_height demo_forked [5] = 3"
    "(blk_parent demo_forked ^^ 2) [5] = [3]" by code_simp+
  with get_ancestor_is_parent_walk [OF demo_forked_ok k(1)] show ?thesis by simp
qed

text \<open>
  C5. \<open>last_common_ancestor\<close> of two indexed blocks returns, and its answer is a common ancestor
  of both of which every other common ancestor is an ancestor.
\<close>

theorem last_common_ancestor_highest:
  assumes "index_ok L s" "known s a" "known s b"
  shows "\<exists>c. last_common_ancestor s a b = Some c \<and> known s c
    \<and> ancestor_of s c a \<and> ancestor_of s c b
    \<and> (\<forall>d. known s d \<longrightarrow> ancestor_of s d a \<longrightarrow> ancestor_of s d b \<longrightarrow> ancestor_of s d c)"
  using last_common_ancestor_fork_point [of s a b] assms
  by (simp add: index_ok_def base_ok_def fork_point_def)

theorem last_common_ancestor_highest_witness:
  "\<exists>c. last_common_ancestor demo_forked [2] [5] = Some c \<and> ancestor_of demo_forked c [2]"
proof -
  have "known demo_forked [2]" "known demo_forked [5]" by code_simp+
  with last_common_ancestor_highest [OF demo_forked_ok, of "[2]" "[5]"] show ?thesis by blast
qed

text \<open>
  A locator returns: it is the block itself, then ancestors of it at strictly falling
  heights, down to genesis.
\<close>

lemma locator_thins_to_genesis:
  assumes "index_ok L s" "known s h"
  shows "\<exists>ks. locator_entries s h = Some (map (anc s h) ks) \<and> sorted_wrt (>) ks
    \<and> ks \<noteq> [] \<and> hd ks = header_height s h \<and> last ks = 0
    \<and> hd (map (anc s h) ks) = h \<and> last (map (anc s h) ks) = hdr_hash (genesis (chain s))"
proof -
  let ?ks = "locator_heights (header_height s h) 1 0"
  have ok: "tree_ok s" "skip_ok s" "header_index_ok s"
    using assms(1) by (simp_all add: index_ok_def base_ok_def)
  have nn: "0 \<le> header_height s h" using tree.height_nonneg ok(1) assms(2) by blast
  have sh: "hd ?ks = header_height s h" "last ?ks = 0" "?ks \<noteq> []" "sorted_wrt (>) ?ks"
    using locator_heights_shape [OF nn, of 1 0] by simp_all
  have "anc s h 0 = hdr_hash (genesis (chain s))"
    using tree.anc_known_height [OF ok(1) assms(2) order_refl nn] known_genesis [OF ok(1)]
      tree.root_unique [OF ok(1)] by metis
  with sh show ?thesis
    using locator_entries_heights [OF ok assms(2)] tree.anc_self [of s h]
    by (intro exI [of _ ?ks]) (simp add: hd_map last_map)
qed

lemma locator_thins_to_genesis_witness:
  "\<exists>ks. locator_entries demo_forked [5] = Some (map (anc demo_forked [5]) ks) \<and> hd ks = 3"
proof -
  have "known demo_forked [5]" "header_height demo_forked [5] = 3" by code_simp+
  with locator_thins_to_genesis [OF demo_forked_ok, of "[5]"] show ?thesis by auto
qed

text \<open>
  C7. \<open>get_fork_details\<close> of a block off the active chain returns what a reorganisation onto it
  takes: the blocks to add, in order from just above the fork point, and the blocks of the active
  chain to remove.  The blocks kept, followed by those added, are the whole chain of the block.
\<close>

lemma get_fork_details_splits:
  assumes "index_ok L s" "known s h" "1 \<le> header_height s h"
  shows "\<exists>k to_add to_remove. get_fork_details s h None = Some (to_add, to_remove)
    \<and> active_chain s = take k (active_chain s) @ to_remove
    \<and> take k (active_chain s) @ to_add = map (anc s h) [0..header_height s h]
    \<and> 1 \<le> k \<and> (\<forall>j. k < j \<and> j \<le> nat (header_height s h) \<and> j \<le> length (active_chain s)
          \<longrightarrow> anc s h (int j - 1) \<noteq> active_chain s ! (j - 1))"
proof -
  have ok: "tree_ok s" "is_chain s (active_chain s)"
    using assms(1) by (simp_all add: index_ok_def base_ok_def active_ok_def)
  obtain k where k: "leaves_at s (active_chain s) h k"
    "get_fork_details s h None = Some (map (anc s h) [k..header_height s h], drop (nat k) (active_chain s))"
    using get_fork_details_leaves_at [OF ok assms(2,3), of None] by auto
  have k1: "1 \<le> k" using k(1) by (simp add: leaves_at_def)
  have "anc s h (int j - 1) \<noteq> active_chain s ! (j - 1)"
    if "nat k < j" "j \<le> nat (header_height s h)" "j \<le> length (active_chain s)" for j
  proof -
    have "k < int j" "int j \<le> header_height s h" "nat (int j - 1) = j - 1" using that by auto
    with k(1) that(3) show ?thesis unfolding leaves_at_def by (metis of_nat_le_iff)
  qed
  with k k1 kept_and_added [OF ok assms(2) k(1)] show ?thesis
    by (intro exI [of _ "nat k"] exI) auto
qed

lemma get_fork_details_splits_witness:
  "\<exists>k to_add to_remove. get_fork_details demo_forked [5] None = Some (to_add, to_remove)
    \<and> take k (active_chain demo_forked) @ to_add = map (anc demo_forked [5]) [0..3]"
proof -
  have "known demo_forked [5]" "header_height demo_forked [5] = 3" by code_simp+
  with get_fork_details_splits [OF demo_forked_ok, of "[5]"] show ?thesis by auto
qed

section \<open>Opening\<close>

text \<open>
  On a fresh datadir, opening the index succeeds and gives the index of genesis alone: one
  header chain, one active chain, under the invariant.
\<close>

lemma open_fresh_datadir:
  assumes "store_open d" "kv_data d = []" "0 < calculate_work L (genesis c)"
  shows "\<exists>s. open_block_index L d c = Inr s \<and> index_ok L s
    \<and> active_chain s = [hdr_hash (genesis c)] \<and> header_index s = [hdr_hash (genesis c)]"
  using open_fresh [OF assms(1,2)] genesis_index_ok [OF assms(1,3)]
  by (simp add: genesis_index_def Let_def)

lemma open_fresh_datadir_witness:
  "\<exists>s. open_block_index demo_lib empty_store demo_chain = Inr s \<and> active_chain s = [[0]]"
  using open_fresh_datadir [of empty_store demo_lib demo_chain]
  by (auto simp: store_open_def empty_store_def calculate_work_def demo_lib_def demo_chain_def demo_header_def)

section \<open>Statuses\<close>

text \<open>
  C3. \<open>invalidate\<close> of an indexed block off the active chain returns; it marks the block and
  exactly its descendants invalid, drops exactly those from the candidates, changes no other
  record, and leaves the best header chain ending at a most-work header among those still valid.
\<close>

theorem invalidate_marks_descendants:
  assumes "index_ok L s" "marked_ok s" "known s h" "h \<notin> set (active_chain s)"
  shows "\<exists>s'. invalidate L h s = Some s' \<and> index_ok L s'
    \<and> (\<forall>x. map_of (header_dict s') x =
         (if known s x \<and> ancestor_of s h x
          then map_option (\<lambda>bi. bi\<lparr>bi_status := Invalid\<rparr>) (map_of (header_dict s) x)
          else map_of (header_dict s) x))
    \<and> block_candidates s' = filter (\<lambda>c. \<not> (known s (fst c) \<and> ancestor_of s h (fst c))) (block_candidates s)
    \<and> active_chain s' = active_chain s
    \<and> (\<forall>x. known s' x \<longrightarrow> \<not> invalid s' x \<longrightarrow> cw s' x \<le> cw s' (last (header_index s')))"
  using invalidate_ok [OF assms]
  by (auto simp: status_marked_def descendants_def index_ok_def best_tip_def)

lemma demo_forked_marked: "marked_ok demo_forked"
proof -
  have "best_invalid demo_forked = None" by code_simp
  then show ?thesis by (simp add: marked_ok_def)
qed

theorem invalidate_marks_descendants_witness:
  "\<exists>s'. invalidate demo_lib [4] demo_forked = Some s' \<and> index_ok demo_lib s'
     \<and> map_option bi_status (map_of (header_dict s') [5]) = Some Invalid
     \<and> map_option bi_status (map_of (header_dict s') [3]) = Some ValidHeader"
proof -
  have k: "known demo_forked [4]" "[4] \<notin> set (active_chain demo_forked)"
    "known demo_forked [5] \<and> ancestor_of demo_forked [4] [5]"
    "\<not> (known demo_forked [3] \<and> ancestor_of demo_forked [4] [3])"
    "map_option bi_status (map_of (header_dict demo_forked) [3]) = Some ValidHeader"
    "map_of (header_dict demo_forked) [5] \<noteq> None" by code_simp+
  then obtain bi where "map_of (header_dict demo_forked) [5] = Some bi" by auto
  with invalidate_marks_descendants [OF demo_forked_ok demo_forked_marked k(1,2)] k(3-5)
  show ?thesis by auto
qed

text \<open>
  C4. \<open>reconsider\<close> of an indexed block returns; it clears the mark of exactly the invalid blocks
  among its ancestors, its descendants and itself, changes no other record, rebuilds the
  candidates whole, and leaves no valid block on an invalid one and the best header chain ending
  at a most-work valid header.
\<close>

theorem reconsider_clears_lineage:
  assumes "index_ok L s" "marked_ok s" "known s h"
  shows "\<exists>s'. reconsider L h s = Some s' \<and> index_ok L s' \<and> marked_ok s'
    \<and> (\<forall>x. map_of (header_dict s') x =
         (if invalid s x \<and> (ancestor_of s h x \<or> ancestor_of s x h)
          then map_option (\<lambda>bi. bi\<lparr>bi_status := ValidHeader\<rparr>) (map_of (header_dict s) x)
          else map_of (header_dict s) x))
    \<and> (\<forall>x w. (x, w) \<in> set (block_candidates s') \<longleftrightarrow> known s' x \<and> w = cw s' x
         \<and> x \<notin> set (active_chain s') \<and> may_connect s' x \<and> ahead s' x (last (active_chain s')))"
proof -
  obtain s' where s': "reconsider L h s = Some s'" "index_ok L s'" "marked_ok s'"
    "status_marked s s' {x. x \<in> lineage s h \<and> invalid s x} ValidHeader"
    "block_candidates s' = candidates_of s'"
    using reconsider_ok [OF assms] by blast
  have "x \<in> lineage s h \<and> invalid s x \<longleftrightarrow> invalid s x \<and> (ancestor_of s h x \<or> ancestor_of s x h)" for x
    using invalid_known by (auto simp: lineage_def)
  moreover have "set (by_height s') = {x. known s' x}" by (rule by_height_sorted(2))
  ultimately show ?thesis
    using s' by (intro exI [of _ s']) (auto simp: status_marked_def candidates_of_def)
qed

theorem reconsider_clears_lineage_witness:
  "\<exists>s'. reconsider demo_lib [4] (the (invalidate demo_lib [3] demo_forked)) = Some s' \<and> index_ok demo_lib s'"
proof -
  have k: "known demo_forked [3]" "[3] \<notin> set (active_chain demo_forked)" by code_simp+
  obtain s where s: "invalidate demo_lib [3] demo_forked = Some s" "index_ok demo_lib s" "marked_ok s"
    using invalidate_ok [OF demo_forked_ok demo_forked_marked k] by blast
  have "known (the (invalidate demo_lib [3] demo_forked)) [4]" by code_simp
  with s reconsider_clears_lineage [OF s(2,3), of "[4]"] show ?thesis by auto
qed

text \<open>
  C5. \<open>finalize\<close> with a batch of its own returns; afterwards nothing is staged, the store holds
  the record of every header but genesis as memory has it (an invalidation of a staged block
  included), and no key of another kind has changed.
\<close>

lemma finalize_writes_all:
  assumes "index_ok L s"
  shows "\<exists>s'. finalize L False s = Some s' \<and> pending s' = [] \<and> header_dict s' = header_dict s
    \<and> (\<forall>h bi. map_of (header_dict s) h = Some bi \<longrightarrow> h \<noteq> hdr_hash (genesis (chain s)) \<longrightarrow>
         store_get (db s') (blk_key h) = Some (block_info_serialize L bi))
    \<and> (\<forall>k. (\<forall>h. k \<noteq> blk_key h) \<longrightarrow> store_get (db s') k = store_get (db s) k)"
proof -
  have "store_ok L s" using assms by (simp add: index_ok_def base_ok_def)
  from finalize_stores [OF this] show ?thesis by fastforce
qed

lemma finalize_writes_all_witness:
  "\<exists>s'. finalize demo_lib False demo_forked = Some s' \<and> pending s' = []"
  using finalize_writes_all [OF demo_forked_ok] by blast



end
