(* ===== verification/Bit_Masks.thy ===== *)
theory Bit_Masks
  imports Prelude "HOL-Library.Word"
begin

unbundle bit_operations_syntax

text \<open>
  Integers read by their bits: what Python's \<open>bit_length\<close> and \<open>bit_count\<close> answer, the loop that takes
  the lowest set bit until none is left, and masks that stand for finite sets of positions.  A mask is
  never negative: the loop over a negative number would not end.
\<close>

section \<open>The lowest bit\<close>

fun bit_length :: "int \<Rightarrow> int" where
  \<comment> \<open>\<open>int.bit_length\<close> of a number not negative\<close>
  "bit_length n = (if n \<le> 0 then 0 else 1 + bit_length (n div 2))"

declare bit_length.simps [simp del]

fun bit_count :: "int \<Rightarrow> int" where
  \<comment> \<open>\<open>int.bit_count\<close> of a number not negative\<close>
  "bit_count n = (if n \<le> 0 then 0 else n mod 2 + bit_count (n div 2))"

declare bit_count.simps [simp del]

lemma lowest_bit: "0 < n \<Longrightarrow> \<exists>b. n AND (- n) = 2 ^ b \<and> bit n b \<and> (\<forall>i<b. \<not> bit n i)" for n :: int
proof (induction "nat n" arbitrary: n rule: less_induct)
  case less
  note and_rec = and_int.rec [of n "- n"]
  show ?case
  proof (cases "even n")
    case True
    then obtain m where m: "n = 2 * m" by blast
    then have "0 < m" "nat m < nat n" using less.prems by simp_all
    with less.hyps [of m] obtain b where b: "m AND (- m) = 2 ^ b" "bit m b" "\<forall>i<b. \<not> bit m i" by blast
    have "(- n) div 2 = - m" using m by simp
    then have "n AND (- n) = 2 * (m AND (- m))" using m by (subst and_rec) simp
    with b m show ?thesis by (intro exI [of _ "Suc b"]) (auto simp: bit_double_iff)
  next
    case False
    then obtain m where m: "n = 2 * m + 1" by (metis oddE)
    then have "(- n) div 2 = NOT m" by (simp add: not_int_def)
    then have "n AND (- n) = 1" using m False by (subst and_rec) simp
    with False show ?thesis by (intro exI [of _ 0]) (simp add: bit_0)
  qed
qed

lemma low_bit: "0 < n \<Longrightarrow> \<exists>b. n AND (- n) = 2 ^ b \<and> bit n b" for n :: int
  using lowest_bit by blast

lemma bit_length_power: "bit_length (2 ^ b) = int b + 1"
proof (induction b)
  case 0
  then show ?case by (simp add: bit_length.simps)
next
  case (Suc b)
  then show ?case by (subst bit_length.simps) simp
qed

lemma clear_bit:
  fixes n :: int
  assumes "0 \<le> n" "bit n b"
  shows "bit (n XOR 2 ^ b) i \<longleftrightarrow> bit n i \<and> i \<noteq> b" "0 \<le> n XOR 2 ^ b" "n XOR 2 ^ b < n"
proof -
  have e: "n XOR 2 ^ b = unset_bit b n"
    by (rule bit_eqI) (use assms(2) in \<open>auto simp: bit_xor_iff bit_exp_iff bit_unset_bit_iff\<close>)
  show "bit (n XOR 2 ^ b) i \<longleftrightarrow> bit n i \<and> i \<noteq> b" unfolding e by (auto simp: bit_unset_bit_iff)
  show "0 \<le> n XOR 2 ^ b" using assms(1) by (simp add: e)
  have "unset_bit b n = n - 2 ^ b" using assms(2) by (simp add: unset_bit_eq)
  then show "n XOR 2 ^ b < n" by (simp add: e)
qed

lemma bits_below: "n < 2 ^ k \<Longrightarrow> 0 \<le> n \<Longrightarrow> bit n b \<Longrightarrow> b < k" for n :: int
proof (rule ccontr)
  assume a: "n < 2 ^ k" "0 \<le> n" "bit n b" "\<not> b < k"
  then have "take_bit k n = n" by (simp add: take_bit_int_eq_self)
  then have "bit (take_bit k n) b" using a(3) by simp
  with a(4) show False by (simp add: bit_take_bit_iff)
qed

section \<open>The positions of a mask\<close>

function bits_of :: "int \<Rightarrow> int list" where
  "bits_of m =
     (if m \<le> 0 then []
      else let low = m AND - m in (bit_length low - 1) # bits_of (m XOR low))"
  by pat_completeness auto
termination
proof (relation "measure nat")
  fix m low :: int
  assume a: "\<not> m \<le> 0" "low = m AND - m"
  then obtain b where "m AND - m = 2 ^ b" "bit m b" using lowest_bit [of m] by auto
  then show "(m XOR low, m) \<in> measure nat" using a clear_bit(3) [of m b] by simp
qed simp

declare bits_of.simps [simp del]

definition first_position :: "int \<Rightarrow> int" where
  \<comment> \<open>of a mask that is not empty\<close>
  "first_position m = bit_length (m AND - m) - 1"

definition bit_set :: "int \<Rightarrow> nat set" where
  "bit_set m = {i. bit m i}"

lemma bit_set_finite: "0 \<le> m \<Longrightarrow> finite (bit_set m)"
proof -
  assume m: "0 \<le> m"
  have "int (nat m) < 2 ^ nat m" by (rule of_nat_less_two_power)
  then have "bit_set m \<subseteq> {..<nat m}" using bits_below [of m "nat m"] m by (auto simp: bit_set_def)
  then show ?thesis by (rule finite_subset) simp
qed

lemma bits_of_props:
  assumes "0 \<le> m"
  shows "sorted_wrt (<) (bits_of m) \<and> set (bits_of m) = int ` bit_set m"
  using assms
proof (induction m rule: bits_of.induct)
  case (1 m)
  show ?case
  proof (cases "m = 0")
    case True
    then show ?thesis by (simp add: bits_of.simps bit_set_def)
  next
    case False
    then have pos: "0 < m" using 1(2) by simp
    obtain b where b: "m AND - m = 2 ^ b" "bit m b" "\<And>i. i < b \<Longrightarrow> \<not> bit m i" using lowest_bit [OF pos] by blast
    note cl = clear_bit [OF 1(2) b(2)]
    have ih: "sorted_wrt (<) (bits_of (m XOR 2 ^ b))" "set (bits_of (m XOR 2 ^ b)) = int ` bit_set (m XOR 2 ^ b)"
      using 1(1) [OF _ refl] pos b(1) cl(2) by simp_all
    have e: "bits_of m = int b # bits_of (m XOR 2 ^ b)" using pos b(1) by (simp add: bits_of.simps [of m] bit_length_power)
    have "bit_set m = insert b (bit_set (m XOR 2 ^ b))" using b(2) cl(1) by (auto simp: bit_set_def)
    moreover have "b < i" if "i \<in> bit_set (m XOR 2 ^ b)" for i
      using that cl(1) b(3) [of i] by (auto simp: bit_set_def intro: le_neq_trans leI)
    ultimately show ?thesis using ih e by auto
  qed
qed

lemma bits_of_sorted: "0 \<le> m \<Longrightarrow> sorted_wrt (<) (bits_of m)" "0 \<le> m \<Longrightarrow> set (bits_of m) = int ` bit_set m"
  using bits_of_props by blast+

lemma bits_of_distinct: "0 \<le> m \<Longrightarrow> distinct (bits_of m)"
  using bits_of_sorted(1) strict_sorted_iff by blast

lemma bits_of_zero [simp]: "bits_of 0 = []"
  by (simp add: bits_of.simps)

lemma bit_count_card:
  assumes "0 \<le> m"
  shows "bit_count m = int (card (bit_set m))"
  using assms
proof (induction m rule: bit_count.induct)
  case (1 m)
  show ?case
  proof (cases "m \<le> 0")
    case True
    then show ?thesis using 1(2) by (simp add: bit_count.simps bit_set_def)
  next
    case False
    then have ih: "bit_count (m div 2) = int (card (bit_set (m div 2)))" using 1 by simp
    have fin: "finite (bit_set (m div 2))" using 1(2) by (intro bit_set_finite) simp
    have "bit_set m = (if odd m then {0} else {}) \<union> Suc ` bit_set (m div 2)"
    proof (rule set_eqI)
      fix i
      show "i \<in> bit_set m \<longleftrightarrow> i \<in> (if odd m then {0} else {}) \<union> Suc ` bit_set (m div 2)"
        by (cases i) (auto simp: bit_set_def bit_0 bit_Suc)
    qed
    then have "card (bit_set m) = (if odd m then 1 else 0) + card (bit_set (m div 2))"
      using fin by (auto simp: card_image card_insert_if image_iff)
    moreover have "bit_count m = m mod 2 + bit_count (m div 2)" using False by (simp add: bit_count.simps [of m])
    moreover have "m mod 2 = (if odd m then 1 else 0)" by (simp add: odd_iff_mod_2_eq_one)
    ultimately show ?thesis using ih by simp
  qed
qed

lemma first_position_lowest:
  assumes "0 < m"
  shows "first_position m \<in> int ` bit_set m" "0 \<le> first_position m" "m AND - m = 2 ^ nat (first_position m)"
proof -
  obtain b where "m AND - m = 2 ^ b" "bit m b" using lowest_bit [OF assms] by blast
  then show "first_position m \<in> int ` bit_set m" "0 \<le> first_position m" "m AND - m = 2 ^ nat (first_position m)"
    by (simp_all add: first_position_def bit_length_power bit_set_def)
qed

lemma first_position_below:
  assumes "0 < m" "i \<in> bit_set m"
  shows "first_position m \<le> int i"
proof -
  obtain b where b: "m AND - m = 2 ^ b" "\<forall>i<b. \<not> bit m i" using lowest_bit [OF assms(1)] by blast
  then have "b \<le> i" using assms(2) by (force simp: bit_set_def not_less [symmetric])
  then show ?thesis by (simp add: first_position_def b(1) bit_length_power)
qed

section \<open>Masks as sets\<close>

lemma bit_set_ops:
  "bit_set (a OR b) = bit_set a \<union> bit_set b" "bit_set (a AND b) = bit_set a \<inter> bit_set b"
  "bit_set (NOT b) = - bit_set b" "bit_set 0 = {}" "bit_set (push_bit n 1) = {n}" "bit_set (2 ^ n) = {n}"
  by (auto simp: bit_set_def bit_or_iff bit_and_iff bit_not_iff bit_push_bit_iff bit_exp_iff bit_1_iff)

lemma bit_set_eq: "bit_set a = bit_set b \<longleftrightarrow> a = b"
  by (auto simp: bit_set_def set_eq_iff intro: bit_eqI)

lemma bit_set_empty: "bit_set m = {} \<longleftrightarrow> m = 0"
  using bit_set_eq [of m 0] bit_set_ops(4) by simp

lemma mask_nonneg:
  fixes a b :: int
  shows "0 \<le> a \<Longrightarrow> 0 \<le> b \<Longrightarrow> 0 \<le> a OR b" "0 \<le> a \<Longrightarrow> 0 \<le> a AND b" "0 \<le> (push_bit n 1 :: int)"
  by simp_all

lemma drop_bit_odd: "(drop_bit n m AND 1 = 0) \<longleftrightarrow> \<not> bit m n" for m :: int
  by (simp add: and_one_eq even_drop_bit_iff_not_bit odd_iff_mod_2_eq_one [symmetric] flip: even_iff_mod_2_eq_zero)

end
