(* ===== verification/Version_Bits.thy ===== *)
theory Version_Bits
  imports Index_Headers Bit_Masks "HOL-Library.List_Lexorder" "HOL-Library.Char_ord"
begin

unbundle bit_operations_syntax

text \<open>
  \<open>versionbits.py\<close>: the state of each version bit this node knows no deployment for, period by
  period, with the states at a period boundary cached under the hash of its last block.  The
  theory holds the model; Version_Bits_Proofs holds what is proved of it.
\<close>

section \<open>States and deployments\<close>

datatype vb_state = Defined | Started | LockedIn | Active | Failed

record deployment =
  dep_name :: string
  dep_bit :: int
  start_time :: int
  timeout_at :: int
  min_activation_height :: int

definition no_timeout :: int where "no_timeout = 2 ^ 63 - 1"

definition top_bits :: int where "top_bits = 0x20000000"
definition top_mask :: int where "top_mask = 0xE0000000"

definition deployments_of :: "string \<Rightarrow> deployment list" where
  "deployments_of name =
     (if name = ''mainnet'' then
        [\<lparr>dep_name = ''taproot'', dep_bit = 2, start_time = 1619222400, timeout_at = 1628640000,
          min_activation_height = 709632\<rparr>]
      else if name = ''testnet'' then
        [\<lparr>dep_name = ''taproot'', dep_bit = 2, start_time = 1619222400, timeout_at = 1628640000,
          min_activation_height = 0\<rparr>]
      else if name = ''regtest'' then
        [\<lparr>dep_name = ''testdummy'', dep_bit = 28, start_time = 0, timeout_at = no_timeout,
          min_activation_height = 0\<rparr>]
      else [])"

definition warning_deployment :: deployment where
  "warning_deployment = \<lparr>dep_name = '''', dep_bit = - 1, start_time = 0, timeout_at = no_timeout,
     min_activation_height = 0\<rparr>"

fun advance :: "vb_state \<Rightarrow> int \<Rightarrow> int \<Rightarrow> int \<Rightarrow> int \<Rightarrow> deployment \<Rightarrow> vb_state" where
  "advance Defined count threshold mtp height d =
     (if mtp \<ge> start_time d then Started else Defined)"
| "advance Started count threshold mtp height d =
     (if count \<ge> threshold then LockedIn else if mtp \<ge> timeout_at d then Failed else Started)"
| "advance LockedIn count threshold mtp height d =
     (if height + 1 \<ge> min_activation_height d then Active else LockedIn)"
| "advance st count threshold mtp height d = st"

record boundary =
  warning :: "vb_state list"
  deployments :: "vb_state list"

record unknown_activations =
  period :: int
  threshold :: int
  min_height :: int
  known_deployments :: "deployment list"
  always_active :: "string list"
  cache :: "bytes option \<rightharpoonup> boundary"

definition first_boundary :: "deployment list \<Rightarrow> boundary" where
  "first_boundary ds = \<lparr>warning = replicate 29 Defined, deployments = replicate (length ds) Defined\<rparr>"

definition new_unknown_activations :: "string \<Rightarrow> int \<Rightarrow> unknown_activations" where
  \<comment> \<open>\<open>__init__\<close>, of the chain's name and its \<open>min_bip9_warning_height\<close>\<close>
  "new_unknown_activations name min_bip9_warning_height =
     (let p = (if name = ''regtest'' then 144 else 2016); ds = deployments_of name in
      \<lparr>period = p, threshold = (if name = ''mainnet'' then 1815 else p * 3 div 4),
       min_height = min_bip9_warning_height, known_deployments = ds,
       always_active = (if name \<in> {''regtest'', ''signet'', ''testnet4''} then [''taproot''] else []),
       cache = [None \<mapsto> first_boundary ds]\<rparr>)"

section \<open>Counting the signals of a period\<close>

definition bump :: "int \<Rightarrow> int list \<Rightarrow> int list option" where
  \<comment> \<open>\<open>counts[bit] += 1\<close>\<close>
  "bump i xs = (if 0 \<le> i \<and> i < int (length xs) then Some (xs[nat i := xs ! nat i + 1]) else None)"

partial_function (option) signal_loop ::
  "bool \<Rightarrow> int list \<Rightarrow> int \<Rightarrow> int list \<times> int list \<Rightarrow> (int list \<times> int list) option" where
  "signal_loop warn ks signals acc =
     (if signals = 0 then Some acc
      else
        let low = signals AND (- signals);
            bit = bit_length low - 1
        in do {
          counts \<leftarrow> bump bit (fst acc);
          warning_counts \<leftarrow> (if warn \<and> bit \<notin> set ks then bump bit (snd acc) else Some (snd acc));
          signal_loop warn ks (signals XOR low) (counts, warning_counts)
        })"

lemmas vb_loops [code] = signal_loop.simps

definition count_version :: "bool \<Rightarrow> int list \<Rightarrow> int \<Rightarrow> int list \<times> int list \<Rightarrow> (int list \<times> int list) option" where
  \<comment> \<open>the body of the loop over a period's blocks\<close>
  "count_version warn ks raw acc =
     (let version = raw AND 0xFFFFFFFF in
      if version AND top_mask \<noteq> top_bits then Some acc
      else signal_loop warn ks (version AND NOT top_mask) acc)"

definition count_block ::
  "block_index \<Rightarrow> int \<Rightarrow> int list \<Rightarrow> int \<Rightarrow> int list \<times> int list \<Rightarrow> (int list \<times> int list) option" where
  "count_block s min_h ks height acc =
     do {
       h \<leftarrow> py_nth (active_chain s) height;
       bi \<leftarrow> map_of (header_dict s) h;
       count_version (height \<ge> min_h) ks (hdr_version (bi_header bi)) acc
     }"

definition known_bits :: "deployment list \<Rightarrow> vb_state list \<Rightarrow> int list" where
  "known_bits ds sts = map (dep_bit \<circ> fst) (filter (\<lambda>p. snd p \<in> {Started, LockedIn}) (zip ds sts))"

section \<open>The states at a boundary\<close>

definition cache_at :: "block_index \<Rightarrow> int \<Rightarrow> unknown_activations \<Rightarrow> boundary option" where
  \<comment> \<open>\<open>self._cache[active_chain[end] if end >= 0 else None]\<close>\<close>
  "cache_at s end u =
     (if end \<ge> 0 then do { h \<leftarrow> py_nth (active_chain s) end; cache u (Some h) } else cache u None)"

definition next_boundary ::
  "unknown_activations \<Rightarrow> int \<Rightarrow> int \<Rightarrow> int list \<times> int list \<Rightarrow> boundary \<Rightarrow> boundary option" where
  \<comment> \<open>the record \<open>_period_ending_at\<close> returns; both \<open>zip\<close>s are strict\<close>
  "next_boundary u end mtp counts previous =
     (if length (warning previous) \<noteq> length (snd counts)
         \<or> length (known_deployments u) \<noteq> length (deployments previous) then None
      else do {
        cs \<leftarrow> those (map (\<lambda>d. py_nth (fst counts) (dep_bit d)) (known_deployments u));
        Some \<lparr>warning = map (\<lambda>(st, c). advance st c (threshold u) mtp end warning_deployment)
                (zip (warning previous) (snd counts)),
              deployments = map (\<lambda>(d, st, c). advance st c (threshold u) mtp end d)
                (zip (known_deployments u) (zip (deployments previous) cs))\<rparr>
      })"

definition period_ending_at :: "btclib \<Rightarrow> block_index \<Rightarrow> int \<Rightarrow> unknown_activations \<Rightarrow> boundary option" where
  "period_ending_at L s end u =
     (let previous_end = end - period u in
      do {
        previous \<leftarrow> cache_at s previous_end u;
        h \<leftarrow> py_nth (active_chain s) end;
        bi \<leftarrow> map_of (header_dict s) h;
        mtp \<leftarrow> median_time_past L (bi_header bi) end (header_parent s);
        let ks = known_bits (known_deployments u) (deployments previous);
        counts \<leftarrow> (if length (known_deployments u) \<noteq> length (deployments previous) then None
           else if end \<ge> min_height u \<or> ks \<noteq> []
             then fold_opt (count_block s (min_height u) ks) [previous_end + 1..end]
                    (replicate 29 0, replicate 29 0)
           else Some (replicate 29 0, replicate 29 0));
        next_boundary u end mtp counts previous
      })"

partial_function (option) missing_loop :: "block_index \<Rightarrow> unknown_activations \<Rightarrow> int \<Rightarrow> int list \<Rightarrow> int list option" where
  \<comment> \<open>the boundaries from the last one down that are not cached\<close>
  "missing_loop s u cached missing =
     (if cached < 0 then Some missing
      else do {
        h \<leftarrow> py_nth (active_chain s) cached;
        if cache u (Some h) \<noteq> None then Some missing
        else missing_loop s u (cached - period u) (missing @ [cached])
      })"

lemmas vb_loops' [code] = missing_loop.simps

definition fill_cache :: "btclib \<Rightarrow> block_index \<Rightarrow> int \<Rightarrow> unknown_activations \<Rightarrow> unknown_activations option" where
  "fill_cache L s end u =
     do {
       h \<leftarrow> py_nth (active_chain s) end;
       b \<leftarrow> period_ending_at L s end u;
       Some (u\<lparr>cache := (cache u)(Some h \<mapsto> b)\<rparr>)
     }"

definition boundary_at ::
  "btclib \<Rightarrow> block_index \<Rightarrow> int option \<Rightarrow> unknown_activations \<Rightarrow> (boundary \<times> unknown_activations) option" where
  \<comment> \<open>\<open>_boundary\<close>\<close>
  "boundary_at L s height u =
     (let height = (case height of None \<Rightarrow> int (length (active_chain s)) - 1 | Some h \<Rightarrow> h);
          last = height - ((height + 1) mod period u)
      in do {
        missing \<leftarrow> missing_loop s u last [];
        u \<leftarrow> fold_opt (fill_cache L s) (rev missing) u;
        b \<leftarrow> cache_at s last u;
        Some (b, u)
      })"

definition vb_check ::
  "btclib \<Rightarrow> block_index \<Rightarrow> int option \<Rightarrow> unknown_activations \<Rightarrow> ((int \<times> bool) list \<times> unknown_activations) option" where
  "vb_check L s height u =
     do {
       (b, u) \<leftarrow> boundary_at L s height u;
       Some (map (\<lambda>(i, st). (i, st = Active))
               (filter (\<lambda>(i, st). st \<in> {Active, LockedIn})
                 (zip (map int [0..<length (warning b)]) (warning b))), u)
     }"

record deployment_status =
  block_version :: int
  signalling :: "(string, int) dict"
  locked_in :: "(string, int) dict"
  active_names :: "string list"

definition status_step ::
  "(string, deployment \<times> vb_state) dict \<Rightarrow> string \<Rightarrow> deployment_status \<Rightarrow> deployment_status option" where
  "status_step found name r =
     do {
       (d, st) \<leftarrow> map_of found name;
       let r = (if st \<in> {Started, LockedIn}
                then r\<lparr>block_version := block_version r OR (2 ^ nat (dep_bit d))\<rparr> else r);
       Some (case st of
           Started \<Rightarrow> r\<lparr>signalling := AList.update name (dep_bit d) (signalling r)\<rparr>
         | LockedIn \<Rightarrow> r\<lparr>locked_in := AList.update name (dep_bit d) (locked_in r)\<rparr>
         | Active \<Rightarrow> r\<lparr>active_names := active_names r @ [name]\<rparr>
         | _ \<Rightarrow> r)
     }"

definition vb_status ::
  "btclib \<Rightarrow> block_index \<Rightarrow> unknown_activations \<Rightarrow> (deployment_status \<times> unknown_activations) option" where
  "vb_status L s u =
     do {
       (b, u) \<leftarrow> boundary_at L s None u;
       found \<leftarrow> (if length (known_deployments u) \<noteq> length (deployments b) then None
          else Some (fold (\<lambda>(d, st). AList.update (dep_name d) (d, st))
                       (zip (known_deployments u) (deployments b)) []));
       r \<leftarrow> fold_opt (status_step found) (sort (map fst found))
              \<lparr>block_version = top_bits, signalling = [], locked_in = [], active_names = always_active u\<rparr>;
       Some (r\<lparr>active_names := sort (active_names r)\<rparr>, u)
     }"

end
