(* ===== verification/Version_Bits_Proofs.thy ===== *)
theory Version_Bits_Proofs
  imports Version_Bits
begin

unbundle bit_operations_syntax

text \<open>
  What is proved of the version bits: the loop over the set bits of a version counts each of them
  once, and the cached states are those of a recursion over the periods of the chain that caches
  nothing.
\<close>

section \<open>The loop over the set bits\<close>

definition add_bits :: "(nat \<Rightarrow> bool) \<Rightarrow> int list \<Rightarrow> int list" where
  "add_bits P xs = map (\<lambda>b. xs ! b + (if P b then 1 else 0)) [0..<length xs]"

lemma bump_add_bits: "b < length xs \<Longrightarrow> bump (int b) xs = Some (add_bits (\<lambda>i. i = b) xs)"
  by (auto simp: bump_def add_bits_def nth_list_update intro!: nth_equalityI)

lemma add_bits_add_bits:
  "(\<And>i. \<not> (P i \<and> Q i)) \<Longrightarrow> add_bits Q (add_bits P xs) = add_bits (\<lambda>i. P i \<or> Q i) xs"
  by (auto simp: add_bits_def intro!: nth_equalityI)

lemma add_bits_none: "(\<And>i. i < length xs \<Longrightarrow> \<not> P i) \<Longrightarrow> add_bits P xs = xs"
  by (auto simp: add_bits_def intro!: nth_equalityI)

lemma signal_loop_counts:
  assumes "0 \<le> n" "n < 2 ^ 29" "length c = 29" "length w = 29"
  shows "signal_loop warn ks n (c, w)
    = Some (add_bits (bit n) c, add_bits (\<lambda>b. bit n b \<and> warn \<and> int b \<notin> set ks) w)"
  using assms
proof (induction "nat n" arbitrary: n c w rule: less_induct)
  case less
  show ?case
  proof (cases "n = 0")
    case True
    then show ?thesis by (simp add: signal_loop.simps add_bits_none)
  next
    case False
    then obtain b where b: "n AND (- n) = 2 ^ b" "bit n b" using low_bit [of n] less.prems by auto
    have b29: "b < 29" using bits_below b(2) less.prems by blast
    let ?n = "n XOR 2 ^ b"
    let ?c = "add_bits (\<lambda>i. i = b) c" and ?w = "add_bits (\<lambda>i. i = b \<and> warn \<and> int b \<notin> set ks) w"
    have n: "0 \<le> ?n" "?n < n" "\<And>i. bit ?n i \<longleftrightarrow> bit n i \<and> i \<noteq> b"
      using clear_bit less.prems(1) b(2) by blast+
    have w: "bump (int b) w = Some (add_bits (\<lambda>i. i = b) w)" "bump (int b) c = Some ?c"
      using bump_add_bits less.prems b29 by simp_all
    have "signal_loop warn ks n (c, w) = signal_loop warn ks ?n (?c, ?w)"
      using False b(1) w
      by (subst signal_loop.simps) (cases "warn \<and> int b \<notin> set ks"; auto simp: Let_def bit_length_power add_bits_none)
    also have "\<dots> = Some (add_bits (bit ?n) ?c, add_bits (\<lambda>b. bit ?n b \<and> warn \<and> int b \<notin> set ks) ?w)"
      using n less.prems False by (intro less.hyps) (simp_all add: add_bits_def)
    also have "add_bits (bit ?n) ?c = add_bits (bit n) c"
    proof -
      have "add_bits (bit ?n) ?c = add_bits (\<lambda>i. i = b \<or> bit ?n i) c"
        using n(3) by (intro add_bits_add_bits) auto
      also have "(\<lambda>i. i = b \<or> bit ?n i) = bit n" using n(3) b(2) by auto
      finally show ?thesis .
    qed
    also have "add_bits (\<lambda>b. bit ?n b \<and> warn \<and> int b \<notin> set ks) ?w
        = add_bits (\<lambda>b. bit n b \<and> warn \<and> int b \<notin> set ks) w"
    proof -
      have "add_bits (\<lambda>i. bit ?n i \<and> warn \<and> int i \<notin> set ks) ?w
          = add_bits (\<lambda>i. (i = b \<and> warn \<and> int b \<notin> set ks) \<or> (bit ?n i \<and> warn \<and> int i \<notin> set ks)) w"
        using n(3) by (intro add_bits_add_bits) auto
      also have "(\<lambda>i. (i = b \<and> warn \<and> int b \<notin> set ks) \<or> (bit ?n i \<and> warn \<and> int i \<notin> set ks))
          = (\<lambda>i. bit n i \<and> warn \<and> int i \<notin> set ks)" using n(3) b(2) by auto
      finally show ?thesis .
    qed
    finally show ?thesis .
  qed
qed

text \<open>A version signals a bit below 29 where its top three bits are 001 and the bit is set.\<close>

definition signals :: "int \<Rightarrow> nat \<Rightarrow> bool" where
  "signals v b \<longleftrightarrow> bit v 29 \<and> \<not> bit v 30 \<and> \<not> bit v 31 \<and> bit v b"

lemma bit_top_mask: "bit top_mask i \<longleftrightarrow> i = 29 \<or> i = 30 \<or> i = 31"
proof -
  have t: "top_mask = push_bit 29 (mask 3)" by (simp add: top_mask_def push_bit_eq_mult mask_eq_exp_minus_1)
  have "bit top_mask i \<longleftrightarrow> 29 \<le> i \<and> i - 29 < 3"
    unfolding t bit_push_bit_iff bit_mask_iff by auto
  then show ?thesis by auto
qed

lemma top_bits_iff:
  "(v AND 0xFFFFFFFF) AND top_mask = top_bits \<longleftrightarrow> bit v 29 \<and> \<not> bit v 30 \<and> \<not> bit v 31"
proof -
  have "(v AND 0xFFFFFFFF) AND top_mask = v AND top_mask"
    by (simp add: and.assoc top_mask_def)
  also have "v AND top_mask = top_bits \<longleftrightarrow> (\<forall>i. bit v i \<and> bit top_mask i \<longleftrightarrow> i = 29)"
  proof -
    have t: "top_bits = 2 ^ 29" by (simp add: top_bits_def)
    have "bit top_bits i \<longleftrightarrow> i = 29" for i unfolding t bit_exp_iff by auto
    then show ?thesis by (auto simp: bit_eq_iff bit_and_iff)
  qed
  also have "\<dots> \<longleftrightarrow> bit v 29 \<and> \<not> bit v 30 \<and> \<not> bit v 31"
    unfolding bit_top_mask by (auto dest: spec [of _ 29] spec [of _ 30] spec [of _ 31])
  finally show ?thesis .
qed

lemma signal_bits:
  assumes "bit v 29" "\<not> bit v 30" "\<not> bit v 31"
  shows "0 \<le> (v AND 0xFFFFFFFF) AND NOT top_mask" "(v AND 0xFFFFFFFF) AND NOT top_mask < 2 ^ 29"
    "b < 29 \<Longrightarrow> bit ((v AND 0xFFFFFFFF) AND NOT top_mask) b \<longleftrightarrow> bit v b"
proof -
  let ?n = "(v AND 0xFFFFFFFF) AND NOT top_mask"
  have m: "(0xFFFFFFFF :: int) = mask 32" by (simp add: mask_eq_exp_minus_1)
  have b: "bit ?n i \<longleftrightarrow> bit v i \<and> i < 29" for i
    unfolding m by (auto simp: bit_and_iff bit_not_iff bit_mask_iff bit_top_mask)
  show "0 \<le> ?n" by simp
  have "?n = take_bit 29 v" by (rule bit_eqI) (auto simp: b bit_take_bit_iff)
  then show "?n < 2 ^ 29" using take_bit_int_less_exp [of 29 v] by simp
  show "b < 29 \<Longrightarrow> bit ?n b \<longleftrightarrow> bit v b" by (simp add: b)
qed

lemma add_bits_cong: "(\<And>b. b < length xs \<Longrightarrow> P b = Q b) \<Longrightarrow> add_bits P xs = add_bits Q xs"
  by (simp add: add_bits_def)

lemma count_version_counts:
  assumes "length c = 29" "length w = 29"
  shows "count_version warn ks v (c, w)
    = Some (add_bits (signals v) c, add_bits (\<lambda>b. signals v b \<and> warn \<and> int b \<notin> set ks) w)"
proof (cases "bit v 29 \<and> \<not> bit v 30 \<and> \<not> bit v 31")
  case False
  then have "\<not> signals v b" for b by (auto simp: signals_def)
  with False show ?thesis
    using top_bits_iff [of v] by (auto simp: count_version_def Let_def add_bits_none)
next
  case True
  let ?n = "(v AND 0xFFFFFFFF) AND NOT top_mask"
  have n: "0 \<le> ?n" "?n < 2 ^ 29" "\<And>b. b < 29 \<Longrightarrow> bit ?n b \<longleftrightarrow> signals v b"
    using signal_bits True by (auto simp: signals_def)
  have "count_version warn ks v (c, w) = signal_loop warn ks ?n (c, w)"
    using True top_bits_iff [of v] by (simp add: count_version_def Let_def)
  also have "\<dots> = Some (add_bits (bit ?n) c, add_bits (\<lambda>b. bit ?n b \<and> warn \<and> int b \<notin> set ks) w)"
    using signal_loop_counts [OF n(1,2) assms] .
  also have "add_bits (bit ?n) c = add_bits (signals v) c" using n(3) assms by (intro add_bits_cong) simp
  also have "add_bits (\<lambda>b. bit ?n b \<and> warn \<and> int b \<notin> set ks) w
      = add_bits (\<lambda>b. signals v b \<and> warn \<and> int b \<notin> set ks) w"
    using n(3) assms by (intro add_bits_cong) simp
  finally show ?thesis .
qed

section \<open>A period\<close>

definition version_at :: "block_index \<Rightarrow> bytes \<Rightarrow> int" where
  "version_at s h = (case map_of (header_dict s) h of None \<Rightarrow> 0 | Some bi \<Rightarrow> hdr_version (bi_header bi))"

definition signalled :: "block_index \<Rightarrow> bytes list \<Rightarrow> (int \<Rightarrow> bool) \<Rightarrow> int list \<Rightarrow> nat \<Rightarrow> int" where
  \<comment> \<open>how many of the blocks at the heights \<open>hs\<close> of the chain \<open>xs\<close> signal the bit, of those that count\<close>
  "signalled s xs counted hs b =
     int (length (filter (\<lambda>i. counted i \<and> signals (version_at s (xs ! nat i)) b) hs))"

definition tally :: "(nat \<Rightarrow> int) \<Rightarrow> int list \<Rightarrow> int list" where
  "tally f xs = map (\<lambda>b. xs ! b + f b) [0..<length xs]"

lemma tally_zero: "tally f (replicate n 0) = map f [0..<n]"
  by (simp add: tally_def)

lemma tally_add_bits:
  "tally (\<lambda>b. if P b then 1 + f b else f b) xs = tally f (add_bits P xs)"
  by (simp add: tally_def add_bits_def)

lemma count_blocks:
  assumes "is_chain s (active_chain s)" "\<forall>i\<in>set hs. 0 \<le> i \<and> i < int (length (active_chain s))"
    and "length c = 29" "length w = 29"
  shows "fold_opt (count_block s m ks) hs (c, w)
    = Some (tally (signalled s (active_chain s) (\<lambda>_. True) hs) c,
            tally (\<lambda>b. signalled s (active_chain s) (\<lambda>i. m \<le> i \<and> int b \<notin> set ks) hs b) w)"
  using assms(2-)
proof (induction hs arbitrary: c w)
  case Nil
  then show ?case using map_nth [of c] map_nth [of w] by (simp add: tally_def signalled_def)
next
  case (Cons i hs)
  let ?h = "active_chain s ! nat i"
  have i: "0 \<le> i" "i < int (length (active_chain s))" using Cons.prems by simp_all
  have "known s ?h" using assms(1) i by (auto simp: chain_of_def)
  then obtain bi where bi: "map_of (header_dict s) ?h = Some bi" by (auto simp: known_def)
  let ?v = "version_at s ?h"
  have "count_block s m ks i (c, w) = Some (add_bits (signals ?v) c,
      add_bits (\<lambda>b. signals ?v b \<and> m \<le> i \<and> int b \<notin> set ks) w)"
    using count_version_counts [OF Cons.prems(2,3)] i bi
    by (simp add: count_block_def py_simps version_at_def)
  then have "fold_opt (count_block s m ks) (i # hs) (c, w) = fold_opt (count_block s m ks) hs
      (add_bits (signals ?v) c, add_bits (\<lambda>b. signals ?v b \<and> m \<le> i \<and> int b \<notin> set ks) w)"
    by simp
  also have "\<dots> = Some (tally (signalled s (active_chain s) (\<lambda>_. True) hs) (add_bits (signals ?v) c),
      tally (\<lambda>b. signalled s (active_chain s) (\<lambda>i. m \<le> i \<and> int b \<notin> set ks) hs b)
        (add_bits (\<lambda>b. signals ?v b \<and> m \<le> i \<and> int b \<notin> set ks) w))"
    using Cons.prems by (intro Cons.IH) (simp_all add: add_bits_def)
  also have "tally (signalled s (active_chain s) (\<lambda>_. True) hs) (add_bits (signals ?v) c)
      = tally (signalled s (active_chain s) (\<lambda>_. True) (i # hs)) c"
    by (simp add: tally_def add_bits_def signalled_def)
  also have "tally (\<lambda>b. signalled s (active_chain s) (\<lambda>i. m \<le> i \<and> int b \<notin> set ks) hs b)
        (add_bits (\<lambda>b. signals ?v b \<and> m \<le> i \<and> int b \<notin> set ks) w)
      = tally (\<lambda>b. signalled s (active_chain s) (\<lambda>i. m \<le> i \<and> int b \<notin> set ks) (i # hs) b) w"
    by (auto simp: tally_def add_bits_def signalled_def)
  finally show ?case .
qed

section \<open>The recursion over periods\<close>

definition mtp_at :: "btclib \<Rightarrow> block_index \<Rightarrow> bytes \<Rightarrow> int" where
  "mtp_at L s h = (case map_of (header_dict s) h of None \<Rightarrow> 0
     | Some bi \<Rightarrow> (case median_time_past L (bi_header bi) (bi_index bi) (header_parent s) of
                     None \<Rightarrow> 0 | Some t \<Rightarrow> t))"

definition period_after ::
  "btclib \<Rightarrow> block_index \<Rightarrow> unknown_activations \<Rightarrow> bytes list \<Rightarrow> int \<Rightarrow> boundary \<Rightarrow> boundary" where
  \<comment> \<open>the states after the period that ends at the height \<open>e\<close>, from those before it\<close>
  "period_after L s u xs e prev =
     (let hs = [e - period u + 1..e]; ks = known_bits (known_deployments u) (deployments prev);
          mtp = mtp_at L s (xs ! nat e)
      in \<lparr>warning = map (\<lambda>b. advance (warning prev ! b)
              (signalled s xs (\<lambda>i. min_height u \<le> i \<and> int b \<notin> set ks) hs b)
              (threshold u) mtp e warning_deployment) [0..<29],
          deployments = map (\<lambda>(d, st). advance st (signalled s xs (\<lambda>_. True) hs (nat (dep_bit d)))
              (threshold u) mtp e d) (zip (known_deployments u) (deployments prev))\<rparr>)"

fun vb_ref :: "btclib \<Rightarrow> block_index \<Rightarrow> unknown_activations \<Rightarrow> bytes list \<Rightarrow> nat \<Rightarrow> boundary" where
  "vb_ref L s u xs 0 = first_boundary (known_deployments u)"
| "vb_ref L s u xs (Suc k) = period_after L s u xs (int (Suc k) * period u - 1) (vb_ref L s u xs k)"

lemma vb_ref_lengths:
  "length (warning (vb_ref L s u xs k)) = 29
   \<and> length (deployments (vb_ref L s u xs k)) = length (known_deployments u)"
  by (induction k) (simp_all add: first_boundary_def period_after_def Let_def)

lemma vb_ref_cache [simp]: "vb_ref L s (u\<lparr>cache := c\<rparr>) xs k = vb_ref L s u xs k"
  by (induction k) (simp_all add: period_after_def Let_def)

definition activations_ok :: "unknown_activations \<Rightarrow> bool" where
  "activations_ok u \<longleftrightarrow> 0 < period u \<and> (\<forall>d\<in>set (known_deployments u). 0 \<le> dep_bit d \<and> dep_bit d < 29)"

definition mtp_defined :: "btclib \<Rightarrow> block_index \<Rightarrow> bool" where
  \<comment> \<open>the median time past of every indexed header can be computed from the index\<close>
  "mtp_defined L s \<longleftrightarrow> (\<forall>h bi. map_of (header_dict s) h = Some bi \<longrightarrow>
     median_time_past L (bi_header bi) (bi_index bi) (header_parent s) \<noteq> None)"

lemma mtp_at_defined:
  "mtp_defined L s \<Longrightarrow> map_of (header_dict s) h = Some bi \<Longrightarrow>
   median_time_past L (bi_header bi) (bi_index bi) (header_parent s) = Some (mtp_at L s h)"
  by (auto simp: mtp_defined_def mtp_at_def split: option.splits)

text \<open>A signal not counted belongs to a deployment that is not started, which reads no count.\<close>

lemma advance_uncounted: "st \<noteq> Started \<Longrightarrow> advance st c t m e d = advance st c' t m e d"
  by (cases st) auto

lemma those_map_Some: "\<forall>x\<in>set xs. f x = Some (g x) \<Longrightarrow> those (map f xs) = Some (map g xs)"
  by (induction xs) auto

lemma next_boundary_period:
  assumes "activations_ok u" "length (warning prev) = 29" "length (deployments prev) = length (known_deployments u)"
    and "length c = 29" "length w = 29"
  shows "next_boundary u e mtp (c, w) prev = Some
    \<lparr>warning = map (\<lambda>b. advance (warning prev ! b) (w ! b) (threshold u) mtp e warning_deployment) [0..<29],
     deployments = map (\<lambda>(d, st). advance st (c ! nat (dep_bit d)) (threshold u) mtp e d)
        (zip (known_deployments u) (deployments prev))\<rparr>"
proof -
  have "those (map (\<lambda>d. py_nth c (dep_bit d)) (known_deployments u))
      = Some (map (\<lambda>d. c ! nat (dep_bit d)) (known_deployments u))"
    using assms(1,4) by (intro those_map_Some) (auto simp: activations_ok_def py_simps)
  moreover have "map (\<lambda>(st, c). advance st c (threshold u) mtp e warning_deployment) (zip (warning prev) w)
      = map (\<lambda>b. advance (warning prev ! b) (w ! b) (threshold u) mtp e warning_deployment) [0..<29]"
    using assms by (intro nth_equalityI) simp_all
  moreover have "map (\<lambda>(d, st, c). advance st c (threshold u) mtp e d)
        (zip (known_deployments u) (zip (deployments prev) (map (\<lambda>d. c ! nat (dep_bit d)) (known_deployments u))))
      = map (\<lambda>(d, st). advance st (c ! nat (dep_bit d)) (threshold u) mtp e d)
          (zip (known_deployments u) (deployments prev))"
    using assms(3) by (intro nth_equalityI) simp_all
  ultimately show ?thesis using assms by (simp add: next_boundary_def)
qed

lemma period_steps:
  assumes "(0 :: int) < p"
  shows "0 \<le> int k * p" "int (Suc k) * p = int k * p + p"
  using assms by (simp_all add: distrib_right)

lemma period_ending_at_ref:
  assumes ok: "activations_ok u" "mtp_defined L s" "tree_ok s" "is_chain s (active_chain s)"
    and e: "e = int (Suc k) * period u - 1" "e < int (length (active_chain s))"
    and prev: "cache_at s (e - period u) u = Some (vb_ref L s u (active_chain s) k)"
  shows "period_ending_at L s e u = Some (vb_ref L s u (active_chain s) (Suc k))"
proof -
  let ?xs = "active_chain s" and ?prev = "vb_ref L s u (active_chain s) k"
  let ?lo = "e - period u + 1" and ?ks = "known_bits (known_deployments u) (deployments ?prev)"
  have p: "0 < period u" using ok(1) by (simp add: activations_ok_def)
  have lo: "0 \<le> ?lo" "0 \<le> e" using e(1) period_steps [OF p, of k] p by linarith+
  have "known s (?xs ! nat e) \<and> header_height s (?xs ! nat e) = e"
    using ok(4) e(2) lo(2) by (auto simp: chain_of_def)
  then obtain bi where bi: "map_of (header_dict s) (?xs ! nat e) = Some bi" "bi_index bi = e"
    using ok(3) by (metis knownE)
  have mtp: "median_time_past L (bi_header bi) e (header_parent s) = Some (mtp_at L s (?xs ! nat e))"
    using mtp_at_defined [OF ok(2) bi(1)] bi(2) by simp
  note len = vb_ref_lengths [of L s u ?xs k]
  let ?C = "\<lambda>b. signalled s ?xs (\<lambda>_. True) [?lo..e] b"
  let ?W = "\<lambda>b. signalled s ?xs (\<lambda>i. min_height u \<le> i \<and> int b \<notin> set ?ks) [?lo..e] b"
  have ref: "vb_ref L s u ?xs (Suc k) = \<lparr>warning = map (\<lambda>b. advance (warning ?prev ! b) (?W b) (threshold u)
        (mtp_at L s (?xs ! nat e)) e warning_deployment) [0..<29],
      deployments = map (\<lambda>(d, st). advance st (?C (nat (dep_bit d))) (threshold u)
        (mtp_at L s (?xs ! nat e)) e d) (zip (known_deployments u) (deployments ?prev))\<rparr>"
    by (simp only: vb_ref.simps period_after_def Let_def e(1))
  obtain c w where counts: "(if e \<ge> min_height u \<or> ?ks \<noteq> []
        then fold_opt (count_block s (min_height u) ?ks) [?lo..e] (replicate 29 0, replicate 29 0)
        else Some (replicate 29 0, replicate 29 0)) = Some (c, w)"
    and len_cw: "length c = 29" "length w = 29"
    and cw: "\<And>b. b < 29 \<Longrightarrow> w ! b = ?W b" "\<And>b. b < 29 \<Longrightarrow> ?ks = [] \<or> c ! b = ?C b"
  proof (cases "e \<ge> min_height u \<or> ?ks \<noteq> []")
    case True
    have "fold_opt (count_block s (min_height u) ?ks) [?lo..e] (replicate 29 0, replicate 29 0)
        = Some (tally ?C (replicate 29 0), tally ?W (replicate 29 0))"
      using lo e(2) by (intro count_blocks [OF ok(4)]) auto
    with True show ?thesis by (intro that [of "map ?C [0..<29]" "map ?W [0..<29]"]) (simp_all add: tally_zero)
  next
    case False
    then have "?W b = 0" for b by (auto simp: signalled_def filter_empty_conv)
    with False show ?thesis by (intro that [of "replicate 29 0" "replicate 29 0"]) simp_all
  qed
  have dep: "advance st (c ! nat (dep_bit d)) t m e d = advance st (?C (nat (dep_bit d))) t m e d"
    if "(d, st) \<in> set (zip (known_deployments u) (deployments ?prev))" for d st t m
  proof (cases "st = Started")
    case True
    with that have "dep_bit d \<in> set ?ks" by (force simp: known_bits_def)
    then have "?ks \<noteq> []" by auto
    moreover have "d \<in> set (known_deployments u)" by (rule set_zip_leftD [OF that])
    then have "nat (dep_bit d) < 29" using ok(1) by (auto simp: activations_ok_def nat_less_iff)
    ultimately show ?thesis using cw(2) by auto
  qed (rule advance_uncounted)
  have "next_boundary u e (mtp_at L s (?xs ! nat e)) (c, w) ?prev = Some (vb_ref L s u ?xs (Suc k))"
    unfolding ref using next_boundary_period [OF ok(1) _ _ len_cw] len cw(1) dep by auto
  then show ?thesis
    using prev lo e(2) bi mtp counts len
    by (simp add: period_ending_at_def py_simps Let_def)
qed

section \<open>The cache\<close>

lemma vb_ref_prefix:
  assumes "0 < period u" "\<And>i. 0 \<le> i \<Longrightarrow> i < int k * period u \<Longrightarrow> xs ! nat i = ys ! nat i"
  shows "vb_ref L s u xs k = vb_ref L s u ys k"
  using assms(2)
proof (induction k)
  case (Suc k)
  let ?e = "int (Suc k) * period u - 1"
  note st = period_steps [OF assms(1), of k]
  have IH: "vb_ref L s u xs k = vb_ref L s u ys k"
  proof (rule Suc.IH)
    fix i assume "0 \<le> i" "i < int k * period u"
    then show "xs ! nat i = ys ! nat i" using st assms(1) by (intro Suc.prems) linarith+
  qed
  have same: "xs ! nat i = ys ! nat i" if "?e - period u + 1 \<le> i" "i \<le> ?e" for i
    using that st by (intro Suc.prems) linarith+
  have "signalled s xs P [?e - period u + 1..?e] b = signalled s ys P [?e - period u + 1..?e] b" for P b
    unfolding signalled_def using same
    by (intro arg_cong [of _ _ "\<lambda>x. int (length x)"] filter_cong refl) simp
  moreover have "xs ! nat ?e = ys ! nat ?e" using assms(1) by (intro same) simp_all
  ultimately show ?case unfolding vb_ref.simps period_after_def Let_def IH by simp
qed simp

definition branch :: "block_index \<Rightarrow> bytes \<Rightarrow> bytes list" where
  "branch s h = map (anc s h) [0..header_height s h]"

definition cache_ok :: "btclib \<Rightarrow> block_index \<Rightarrow> unknown_activations \<Rightarrow> bool" where
  \<comment> \<open>each cached boundary holds the states the recursion gives on its block's own branch\<close>
  "cache_ok L s u \<longleftrightarrow> cache u None = Some (first_boundary (known_deployments u))
     \<and> (\<forall>h b. cache u (Some h) = Some b \<longrightarrow> known s h
          \<and> (\<exists>k. 0 < k \<and> header_height s h + 1 = int k * period u \<and> b = vb_ref L s u (branch s h) k))"

lemma vb_ref_branch:
  assumes "tree_ok s" "is_chain s (active_chain s)" "0 < period u"
    and "0 < k" "int k * period u \<le> int (length (active_chain s))" "h = active_chain s ! nat (int k * period u - 1)"
  shows "vb_ref L s u (branch s h) k = vb_ref L s u (active_chain s) k"
    "known s h" "header_height s h = int k * period u - 1"
proof -
  let ?xs = "active_chain s" and ?e = "int k * period u - 1"
  have "1 * 1 \<le> int k * period u" using assms(3,4) by (intro mult_mono) simp_all
  then have e: "0 \<le> ?e" "?e < int (length ?xs)" using assms(5) by simp_all
  show h: "known s h" "header_height s h = ?e"
    using assms(2,6) e by (auto simp: chain_of_def)
  have t: "is_chain s (take (nat ?e + 1) ?xs)" using tree.chain_of_take [OF assms(2)] by simp
  have "take (nat ?e + 1) ?xs \<noteq> []" using e by auto
  moreover have "length (take (nat ?e + 1) ?xs) = nat ?e + 1" using e by simp
  ultimately have l: "last (take (nat ?e + 1) ?xs) = h"
    using assms(6) by (simp add: last_conv_nth)
  show "vb_ref L s u (branch s h) k = vb_ref L s u ?xs k"
  proof (rule vb_ref_prefix [OF assms(3)])
    fix i assume i: "0 \<le> i" "i < int k * period u"
    then have lt: "nat i < length (take (nat ?e + 1) ?xs)" using e by (simp add: nat_less_iff)
    have "branch s h ! nat i = anc s h i" using i h(2) by (simp add: branch_def)
    also have "\<dots> = ?xs ! nat i"
      using tree.chain_of_anc [OF assms(1) t lt] l lt i by simp
    finally show "branch s h ! nat i = ?xs ! nat i" .
  qed
qed

lemma cache_hit:
  assumes "cache_ok L s u" "tree_ok s" "is_chain s (active_chain s)" "0 < period u"
    and "int k * period u \<le> int (length (active_chain s))"
    and "cache_at s (int k * period u - 1) u = Some b"
  shows "b = vb_ref L s u (active_chain s) k"
proof (cases "k = 0")
  case True
  with assms(1,6) show ?thesis by (simp add: cache_at_def cache_ok_def)
next
  case False
  let ?e = "int k * period u - 1" and ?h = "active_chain s ! nat (int k * period u - 1)"
  have "1 * 1 \<le> int k * period u" using assms(4) False by (intro mult_mono) simp_all
  then have e: "0 \<le> ?e" "?e < int (length (active_chain s))" using assms(5) by simp_all
  then have c: "cache u (Some ?h) = Some b" using assms(6) by (simp add: cache_at_def py_simps)
  note r = vb_ref_branch [OF assms(2-4) _ assms(5) refl]
  obtain j where j: "header_height s ?h + 1 = int j * period u" "b = vb_ref L s u (branch s ?h) j"
    using assms(1) c by (auto simp: cache_ok_def)
  have "int j * period u = int k * period u" using j(1) r(3) False by linarith
  then have "int j = int k" using assms(4) by (metis mult_right_cancel order_less_irrefl)
  then have "j = k" by simp
  with j(2) r(1) [of L] False show ?thesis by simp
qed

lemma missing_loop_result:
  assumes "cache_ok L s u" "tree_ok s" "is_chain s (active_chain s)" "0 < period u"
    and "int k * period u \<le> int (length (active_chain s))"
  shows "\<exists>j\<le>k. missing_loop s u (int k * period u - 1) acc
      = Some (acc @ map (\<lambda>i. int (Suc i) * period u - 1) (rev [j..<k]))
    \<and> cache_at s (int j * period u - 1) u = Some (vb_ref L s u (active_chain s) j)"
  using assms(5)
proof (induction k arbitrary: acc)
  case 0
  with assms(1) show ?case by (simp add: missing_loop.simps cache_at_def cache_ok_def)
next
  case (Suc k)
  let ?e = "int (Suc k) * period u - 1"
  note st = period_steps [OF assms(4), of k]
  have e: "0 \<le> ?e" "?e < int (length (active_chain s))" "?e - period u = int k * period u - 1"
    "int k * period u \<le> int (length (active_chain s))"
    using Suc.prems assms(4) st by linarith+
  let ?h = "active_chain s ! nat ?e"
  have nth: "py_nth (active_chain s) ?e = Some ?h" using e by (simp add: py_simps)
  show ?case
  proof (cases "cache u (Some ?h)")
    case (Some b)
    then have c: "cache_at s ?e u = Some b" using e(1) nth by (simp add: cache_at_def)
    have "missing_loop s u ?e acc = Some acc"
      using e(1) nth Some by (subst missing_loop.simps) simp
    then show ?thesis
      using cache_hit [OF assms(1-4) Suc.prems c] c by (intro exI [of _ "Suc k"]) simp
  next
    case None
    obtain j where j: "j \<le> k" "missing_loop s u (int k * period u - 1) (acc @ [?e])
        = Some ((acc @ [?e]) @ map (\<lambda>i. int (Suc i) * period u - 1) (rev [j..<k]))"
      "cache_at s (int j * period u - 1) u = Some (vb_ref L s u (active_chain s) j)"
      using Suc.IH [OF e(4), of "acc @ [?e]"] by blast
    have "missing_loop s u ?e acc = missing_loop s u (int k * period u - 1) (acc @ [?e])"
      using e(1) nth None by (subst missing_loop.simps) (simp add: e(3) del: of_nat_Suc)
    with j show ?thesis by (intro exI [of _ j]) simp
  qed
qed

lemma fill_missing:
  assumes "activations_ok u" "mtp_defined L s" "tree_ok s" "is_chain s (active_chain s)"
    and "cache_ok L s u" "j \<le> k" "int k * period u \<le> int (length (active_chain s))"
    and "cache_at s (int j * period u - 1) u = Some (vb_ref L s u (active_chain s) j)"
  shows "\<exists>c. fold_opt (fill_cache L s) (map (\<lambda>i. int (Suc i) * period u - 1) [j..<k]) u = Some (u\<lparr>cache := c\<rparr>)
    \<and> cache_ok L s (u\<lparr>cache := c\<rparr>)
    \<and> cache_at s (int k * period u - 1) (u\<lparr>cache := c\<rparr>) = Some (vb_ref L s u (active_chain s) k)"
  using assms(6,7)
proof (induction k rule: dec_induct)
  case base
  have "u\<lparr>cache := cache u\<rparr> = u" by simp
  with assms(5,8) show ?case by (intro exI [of _ "cache u"]) simp
next
  case (step k)
  have p: "0 < period u" using assms(1) by (simp add: activations_ok_def)
  have kp: "int k * period u \<le> int (length (active_chain s))"
    using step.prems p period_steps [OF p, of k] by linarith
  obtain c where c: "fold_opt (fill_cache L s) (map (\<lambda>i. int (Suc i) * period u - 1) [j..<k]) u = Some (u\<lparr>cache := c\<rparr>)"
    "cache_ok L s (u\<lparr>cache := c\<rparr>)"
    "cache_at s (int k * period u - 1) (u\<lparr>cache := c\<rparr>) = Some (vb_ref L s u (active_chain s) k)"
    using step.IH [OF kp] by blast
  let ?u = "u\<lparr>cache := c\<rparr>" and ?e = "int (Suc k) * period u - 1"
  let ?h = "active_chain s ! nat ?e" and ?r = "vb_ref L s u (active_chain s) (Suc k)"
  have e: "0 \<le> ?e" "?e < int (length (active_chain s))" "?e - period u = int k * period u - 1"
    using step.prems p period_steps [OF p, of k] by linarith+
  have nth: "py_nth (active_chain s) ?e = Some ?h" using e by (simp add: py_simps)
  have per: "period_ending_at L s ?e ?u = Some ?r"
  proof -
    have ac: "activations_ok ?u" "period ?u = period u" using assms(1) by (simp_all add: activations_ok_def)
    have pe: "?e = int (Suc k) * period ?u - 1" using ac(2) by (simp only:)
    have "cache_at s (?e - period ?u) ?u = Some (vb_ref L s ?u (active_chain s) k)"
      using c(3) unfolding ac(2) e(3) vb_ref_cache .
    from period_ending_at_ref [OF ac(1) assms(2-4) pe e(2) this] show ?thesis
      by (simp only: vb_ref_cache)
  qed
  let ?c = "c(Some ?h \<mapsto> ?r)"
  have fill: "fill_cache L s ?e ?u = Some (u\<lparr>cache := ?c\<rparr>)"
    using nth per by (simp add: fill_cache_def)
  note b = vb_ref_branch [OF assms(3,4) p _ step.prems refl]
  have "cache_ok L s (u\<lparr>cache := ?c\<rparr>)"
    unfolding cache_ok_def
  proof (intro conjI allI impI)
    show "cache (u\<lparr>cache := ?c\<rparr>) None = Some (first_boundary (known_deployments (u\<lparr>cache := ?c\<rparr>)))"
      using c(2) by (simp add: cache_ok_def)
    fix h x assume h: "cache (u\<lparr>cache := ?c\<rparr>) (Some h) = Some x"
    have new: "known s ?h" "header_height s ?h + 1 = int (Suc k) * period u"
      "?r = vb_ref L s u (branch s ?h) (Suc k)" using b by simp_all
    have "known s h \<and> (\<exists>k>0. header_height s h + 1 = int k * period u \<and> x = vb_ref L s u (branch s h) k)"
    proof (cases "h = ?h")
      case True
      with h new show ?thesis by (intro conjI exI [of _ "Suc k"]) simp_all
    next
      case False
      with h c(2) show ?thesis by (simp add: cache_ok_def)
    qed
    then show "known s h" "\<exists>k>0. header_height s h + 1 = int k * period (u\<lparr>cache := ?c\<rparr>)
        \<and> x = vb_ref L s (u\<lparr>cache := ?c\<rparr>) (branch s h) k" by simp_all
  qed
  moreover have "cache_at s ?e (u\<lparr>cache := ?c\<rparr>) = Some ?r" using e(1) nth by (simp add: cache_at_def)
  moreover have "fold_opt (fill_cache L s) (map (\<lambda>i. int (Suc i) * period u - 1) [j..<Suc k]) u
      = Some (u\<lparr>cache := ?c\<rparr>)"
    using c(1) fill step.hyps(1) by (simp add: fold_opt_append del: of_nat_Suc vb_ref.simps)
  ultimately show ?case by blast
qed

lemma boundary_at_ref:
  assumes "activations_ok u" "mtp_defined L s" "tree_ok s" "is_chain s (active_chain s)" "cache_ok L s u"
    and "height = (case ho of None \<Rightarrow> int (length (active_chain s)) - 1 | Some h \<Rightarrow> h)"
    and "- 1 \<le> height" "height < int (length (active_chain s))"
  shows "\<exists>c. boundary_at L s ho u
      = Some (vb_ref L s u (active_chain s) (nat ((height + 1) div period u)), u\<lparr>cache := c\<rparr>)
    \<and> cache_ok L s (u\<lparr>cache := c\<rparr>)"
proof -
  let ?k = "nat ((height + 1) div period u)"
  have p: "0 < period u" using assms(1) by (simp add: activations_ok_def)
  have dm: "(height + 1) div period u * period u + (height + 1) mod period u = height + 1"
    by simp
  have k: "int ?k = (height + 1) div period u" using assms(7) p by (simp add: pos_imp_zdiv_nonneg_iff)
  then have last: "height - (height + 1) mod period u = int ?k * period u - 1" using dm unfolding k by linarith
  have "0 \<le> (height + 1) mod period u" using p by simp
  then have le: "int ?k * period u \<le> int (length (active_chain s))" using dm assms(8) unfolding k by linarith
  obtain j where j: "j \<le> ?k" "missing_loop s u (int ?k * period u - 1) []
      = Some (map (\<lambda>i. int (Suc i) * period u - 1) (rev [j..<?k]))"
    "cache_at s (int j * period u - 1) u = Some (vb_ref L s u (active_chain s) j)"
    using missing_loop_result [OF assms(5,3,4) p le, of "[]"] by auto
  obtain c where "fold_opt (fill_cache L s) (map (\<lambda>i. int (Suc i) * period u - 1) [j..<?k]) u = Some (u\<lparr>cache := c\<rparr>)"
    "cache_ok L s (u\<lparr>cache := c\<rparr>)"
    "cache_at s (int ?k * period u - 1) (u\<lparr>cache := c\<rparr>) = Some (vb_ref L s u (active_chain s) ?k)"
    using fill_missing [OF assms(1-5) j(1) le j(3)] by blast
  with j(2) last assms(6) show ?thesis
    by (intro exI [of _ c]) (simp add: boundary_at_def Let_def rev_map)
qed

end
