(* ===== verification/Version_Bits_Properties.thy ===== *)
theory Version_Bits_Properties
  imports Version_Bits_Proofs Index_Load
begin

unbundle bit_operations_syntax

text \<open>
  The properties of the version bits: the warning \<open>check\<close> gives, the states it rests on, and the
  version \<open>status\<close> puts in a block.
\<close>

section \<open>A concrete chain\<close>

definition demo_tip :: block_index where
  "demo_tip = fold add_to_active_chain [[3], [4], [5]] demo_forked"

definition demo_activations :: unknown_activations where
  "demo_activations = \<lparr>period = 2, threshold = 2, min_height = 0, known_deployments = deployments_of ''regtest'',
     always_active = [], cache = [None \<mapsto> first_boundary (deployments_of ''regtest'')]\<rparr>"

lemma demo_tip_tree: "tree_ok demo_tip" "is_chain demo_tip (active_chain demo_tip)" "mtp_defined demo_lib demo_tip"
proof -
  have d: "header_dict demo_tip = header_dict demo_forked" "chain demo_tip = chain demo_forked"
    "active_chain demo_tip = active_chain demo_forked @ [[3], [4], [5]]"
    by (simp_all add: demo_tip_def add_to_active_chain_def)
  show "tree_ok demo_tip" using same_tree_ok [OF d(1,2)] index_ok_tree [OF demo_forked_ok] by simp
  have "header_index demo_forked = active_chain demo_forked @ [[3], [4], [5]]" by code_simp
  moreover have "is_chain demo_forked (header_index demo_forked)"
    using demo_forked_ok by (simp add: index_ok_def header_index_ok_def)
  ultimately show "is_chain demo_tip (active_chain demo_tip)" using same_tree [OF d(1)] d(3) by simp
  show "mtp_defined demo_lib demo_tip" by (simp add: mtp_defined_def demo_lib_def)
qed

lemma demo_activations_ok: "activations_ok demo_activations" "cache_ok demo_lib s demo_activations"
  by (simp_all add: activations_ok_def demo_activations_def deployments_of_def cache_ok_def)

section \<open>The warning\<close>

text \<open>
  C11. \<open>check\<close> returns, whatever is in the cache for this index: it answers, in bit order, the bits
  that are locked in or active by the recursion over the periods of the active chain that caches
  nothing, and leaves every cached boundary right for its own block's branch, so a reorganisation
  may reuse it.
\<close>

theorem check_is_uncached_recursion:
  assumes "activations_ok u" "mtp_defined L s" "tree_ok s" "is_chain s (active_chain s)" "cache_ok L s u"
    and "height = (case ho of None \<Rightarrow> int (length (active_chain s)) - 1 | Some h \<Rightarrow> h)"
    and "- 1 \<le> height" "height < int (length (active_chain s))"
  shows "\<exists>bits u'. vb_check L s ho u = Some (bits, u') \<and> cache_ok L s u'
    \<and> sorted_wrt (<) (map fst bits)
    \<and> (\<forall>b a. (int b, a) \<in> set bits \<longleftrightarrow> b < 29
         \<and> (let st = warning (vb_ref L s u (active_chain s) (nat ((height + 1) div period u))) ! b
            in (st = Active \<and> a) \<or> (st = LockedIn \<and> \<not> a)))"
proof -
  let ?r = "vb_ref L s u (active_chain s) (nat ((height + 1) div period u))"
  obtain c where c: "boundary_at L s ho u = Some (?r, u\<lparr>cache := c\<rparr>)" "cache_ok L s (u\<lparr>cache := c\<rparr>)"
    using boundary_at_ref [OF assms] by blast
  have len: "length (warning ?r) = 29" using vb_ref_lengths by blast
  let ?z = "zip (map int [0..<29]) (warning ?r)"
  let ?bits = "map (\<lambda>(i, st). (i, st = Active)) (filter (\<lambda>(i, st). st \<in> {Active, LockedIn}) ?z)"
  have run: "vb_check L s ho u = Some (?bits, u\<lparr>cache := c\<rparr>)" using c(1) len by (simp add: vb_check_def)
  have mem: "(int b, st) \<in> set ?z \<longleftrightarrow> b < 29 \<and> warning ?r ! b = st" for b st
    using len by (auto simp: in_set_zip intro!: exI [of _ b])
  have "map fst ?bits = map fst (filter (\<lambda>(i, st). st \<in> {Active, LockedIn}) ?z)"
    by (simp add: case_prod_unfold comp_def)
  moreover have "sorted_wrt (<) (map fst ?z)" using len by (simp add: sorted_wrt_map sorted_wrt_upt)
  then have "sorted_wrt (<) (map fst (filter (\<lambda>(i, st). st \<in> {Active, LockedIn}) ?z))"
    by (simp add: sorted_wrt_map sorted_wrt_filter)
  ultimately have "sorted_wrt (<) (map fst ?bits)" by (simp only:)
  moreover have "(int b, a) \<in> set ?bits \<longleftrightarrow> b < 29
      \<and> ((warning ?r ! b = Active \<and> a) \<or> (warning ?r ! b = LockedIn \<and> \<not> a))" for b a
  proof -
    have "(int b, a) \<in> set ?bits \<longleftrightarrow> (\<exists>st. (int b, st) \<in> set ?z \<and> st \<in> {Active, LockedIn} \<and> a = (st = Active))"
      by force
    then show ?thesis unfolding mem by auto
  qed
  ultimately show ?thesis using run c(2) by (intro exI [of _ ?bits] exI [of _ "u\<lparr>cache := c\<rparr>"]) (simp add: Let_def)
qed

theorem check_is_uncached_recursion_witness:
  "\<exists>bits u'. vb_check demo_lib demo_tip None demo_activations = Some (bits, u') \<and> cache_ok demo_lib demo_tip u'"
proof -
  have "active_chain demo_tip = [[0], [3], [4], [5]]" by code_simp
  with check_is_uncached_recursion [OF demo_activations_ok(1) demo_tip_tree(3,1,2) demo_activations_ok(2), of 3 None]
  show ?thesis by auto
qed

text \<open>The history of an unknown bit: it is locked in after a period exactly when it was started
  and enough of that period's blocks signalled it; one period later it is active; and once active
  it stays so.
\<close>

lemma unknown_bit_history:
  assumes "b < 29" "0 < period u"
  shows "(let st = \<lambda>j. warning (vb_ref L s u xs j) ! b;
              count = \<lambda>j. signalled s xs (\<lambda>i. min_height u \<le> i \<and>
                  int b \<notin> set (known_bits (known_deployments u) (deployments (vb_ref L s u xs j))))
                [int j * period u..int (Suc j) * period u - 1] b
          in (st (Suc k) = LockedIn \<longleftrightarrow> st k = Started \<and> threshold u \<le> count k)
             \<and> (st (Suc k) = Active \<longleftrightarrow> st k = LockedIn \<or> st k = Active)
             \<and> (st k = Active \<longrightarrow> st (k + n) = Active))"
proof -
  let ?st = "\<lambda>j. warning (vb_ref L s u xs j) ! b"
  let ?count = "\<lambda>j. signalled s xs (\<lambda>i. min_height u \<le> i \<and>
      int b \<notin> set (known_bits (known_deployments u) (deployments (vb_ref L s u xs j))))
    [int j * period u..int (Suc j) * period u - 1] b"
  have step: "?st (Suc j) = advance (?st j) (?count j) (threshold u)
      (mtp_at L s (xs ! nat (int (Suc j) * period u - 1))) (int (Suc j) * period u - 1) warning_deployment" for j
  proof -
    have "int (Suc j) * period u - 1 - period u + 1 = int j * period u"
      using period_steps(2) [OF assms(2), of j] by linarith
    with assms(1) show ?thesis by (simp add: period_after_def Let_def del: of_nat_Suc)
  qed
  have e: "0 \<le> int (Suc j) * period u" for j using assms(2) by simp
  have "?st (Suc j) = LockedIn \<longleftrightarrow> ?st j = Started \<and> threshold u \<le> ?count j" for j
    unfolding step using e [of j] by (cases "?st j") (simp_all add: warning_deployment_def)
  moreover have act: "?st (Suc j) = Active \<longleftrightarrow> ?st j = LockedIn \<or> ?st j = Active" for j
    unfolding step using e [of j] by (cases "?st j") (simp_all add: warning_deployment_def)
  moreover have "?st k = Active \<longrightarrow> ?st (k + n) = Active"
  proof (induction n)
    case (Suc n)
    then show ?case using act [of "k + n"] by (simp only: add_Suc_right) blast
  qed simp
  ultimately show ?thesis unfolding Let_def by blast
qed

lemma unknown_bit_history_witness:
  "warning (vb_ref demo_lib demo_tip demo_activations [[0], [3], [4], [5]] 2) ! 1 \<noteq> Active"
proof -
  have "warning (vb_ref demo_lib demo_tip demo_activations [[0], [3], [4], [5]] 1) ! 1 = Started" by code_simp
  then show ?thesis
    using unknown_bit_history [of 1 demo_activations demo_lib demo_tip "[[0], [3], [4], [5]]" 1]
    by (simp add: Let_def numeral_2_eq_2 demo_activations_def)
qed

text \<open>
  The count of a block's version adds one to each bit below 29 that is set in it, where the
  top three bits are 001, and nothing otherwise; the warning's count leaves out a known
  deployment's bit and a block below the warning height.
\<close>

lemma version_counted_once:
  assumes "length c = 29" "length w = 29"
  shows "\<exists>c' w'. count_version warn ks v (c, w) = Some (c', w') \<and> length c' = 29 \<and> length w' = 29
    \<and> (\<forall>b < 29. c' ! b = c ! b + (if signals v b then 1 else 0)
         \<and> w' ! b = w ! b + (if signals v b \<and> warn \<and> int b \<notin> set ks then 1 else 0))"
  using count_version_counts [OF assms] assms by (auto simp: add_bits_def)

lemma version_counted_once_witness:
  "\<exists>c' w'. count_version True [1] 0x20000006 (replicate 29 0, replicate 29 0) = Some (c', w')
    \<and> c' ! 1 = 1 \<and> w' ! 1 = 0 \<and> w' ! 2 = 1 \<and> w' ! 3 = 0"
proof -
  have s: "signals 0x20000006 1" "signals 0x20000006 2" "\<not> signals 0x20000006 3"
    by (simp_all add: signals_def bit_iff_odd)
  show ?thesis
    using version_counted_once [of "replicate 29 0" "replicate 29 0" True "[1]" "0x20000006"] s by auto
qed

end
