(* ===== verification/Chain_Sync.thy ===== *)
theory Chain_Sync
  imports Index_Headers
begin

text \<open>
  \<open>p2p/chain_sync.py\<close>: whether an outbound peer keeps up with this node's chain.  A call reads the
  block index and the connection and answers the connection it leaves and what it did to the peer:
  asked it for headers from a locator, or stopped it.  The log lines are left out.
\<close>

section \<open>The state of a connection\<close>

record chain_sync_state =
  timeout :: real
  work_header :: "bytes option"
  sent_getheaders :: bool
  protect :: bool

definition new_chain_sync_state :: chain_sync_state where
  "new_chain_sync_state = \<lparr>timeout = 0, work_header = None, sent_getheaders = False, protect = False\<rparr>"

record sync_conn =
  conn_id :: int
  automatic :: bool
  feeler :: bool
  block_relay :: bool
  is_connected :: bool
  best_known :: "bytes option"
  chain_sync :: chain_sync_state

datatype sync_action = SendGetheaders "bytes list" | StopPeer

definition chain_sync_timeout :: real where "chain_sync_timeout = 20 * 60"
definition headers_response_time :: real where "headers_response_time = 2 * 60"
definition max_outbound_peers_to_protect :: int where "max_outbound_peers_to_protect = 4"

definition outbound_or_block_relay :: "sync_conn \<Rightarrow> bool" where
  "outbound_or_block_relay c \<longleftrightarrow> automatic c \<and> \<not> feeler c"

definition full_outbound :: "sync_conn \<Rightarrow> bool" where
  "full_outbound c \<longleftrightarrow> automatic c \<and> \<not> block_relay c \<and> \<not> feeler c"

definition sync_locator :: "block_index \<Rightarrow> bytes \<Rightarrow> bytes list option" where
  "sync_locator s start = locator_entries s start"

definition work_or_none :: "block_index \<Rightarrow> bytes option \<Rightarrow> int option" where
  \<comment> \<open>\<open>-1 if best_known is None else chainwork[best_known]\<close>\<close>
  "work_or_none s best = (case best of None \<Rightarrow> Some (- 1) | Some h \<Rightarrow> chainwork s h)"

section \<open>The three checks\<close>

definition new_deadline_due :: "block_index \<Rightarrow> chain_sync_state \<Rightarrow> bytes option \<Rightarrow> int \<Rightarrow> bool option" where
  \<comment> \<open>no deadline is set, or the peer has reached the work of the tip it was measured against\<close>
  "new_deadline_due s st best best_work =
     (if timeout st = 0 then Some True
      else case work_header st of
        None \<Rightarrow> Some False
      | Some w \<Rightarrow> if best = None then Some False else map_option (\<lambda>x. best_work \<ge> x) (chainwork s w))"

definition parent_locator :: "block_index \<Rightarrow> bytes option \<Rightarrow> bytes list option" where
  \<comment> \<open>the locator of the parent of the tip measured against, empty where that is genesis\<close>
  "parent_locator s wh =
     do {
       h \<leftarrow> wh;
       info \<leftarrow> map_of (header_dict s) h;
       if bi_index info > 0 then sync_locator s (hdr_prev (bi_header info)) else Some []
     }"

definition consider_eviction ::
  "block_index \<Rightarrow> int set \<Rightarrow> real \<Rightarrow> sync_conn \<Rightarrow> (sync_conn \<times> sync_action list) option" where
  "consider_eviction s headers_sync_timeouts now c =
     (let st = chain_sync c in
      if protect st \<or> \<not> outbound_or_block_relay c then Some (c, [])
      else if conn_id c \<notin> headers_sync_timeouts then Some (c, [])
      else do {
        tip \<leftarrow> py_last (active_chain s);
        best_work \<leftarrow> work_or_none s (best_known c);
        tip_work \<leftarrow> chainwork s tip;
        if best_work \<ge> tip_work then
          Some (if timeout st \<noteq> 0
                then c\<lparr>chain_sync := st\<lparr>timeout := 0, work_header := None, sent_getheaders := False\<rparr>\<rparr>
                else c, [])
        else do {
          reached \<leftarrow> new_deadline_due s st (best_known c) best_work;
          if reached then
            Some (c\<lparr>chain_sync := st\<lparr>timeout := now + chain_sync_timeout, work_header := Some tip,
                                     sent_getheaders := False\<rparr>\<rparr>, [])
          else if timeout st > 0 \<and> now > timeout st then
            (if sent_getheaders st then Some (c, [StopPeer])
             else do {
               locator \<leftarrow> parent_locator s (work_header st);
               Some (c\<lparr>chain_sync := st\<lparr>sent_getheaders := True, timeout := now + headers_response_time\<rparr>\<rparr>,
                     [SendGetheaders locator])
             })
          else Some (c, [])
        }
      })"

definition disconnect_if_insufficient_work ::
  "block_index \<Rightarrow> bool \<Rightarrow> int \<Rightarrow> sync_conn \<Rightarrow> (bool \<times> sync_action list) option" where
  "disconnect_if_insufficient_work s is_initial_block_download minimum_chain_work c =
     (if \<not> is_initial_block_download \<or> \<not> outbound_or_block_relay c then Some (False, [])
      else case best_known c of
          None \<Rightarrow> Some (False, [])
        | Some h \<Rightarrow> do {
            w \<leftarrow> chainwork s h;
            if w \<ge> minimum_chain_work then Some (False, []) else Some (True, [StopPeer])
          })"

definition protect_if_caught_up :: "block_index \<Rightarrow> sync_conn list \<Rightarrow> sync_conn \<Rightarrow> sync_conn option" where
  \<comment> \<open>\<open>connections\<close> are those held, the connection itself among them\<close>
  "protect_if_caught_up s connections c =
     (case best_known c of
        None \<Rightarrow> Some c
      | Some h \<Rightarrow>
        if protect (chain_sync c) \<or> \<not> full_outbound c then Some c
        else if \<not> is_connected c then Some c
        else if int (length (filter (protect \<circ> chain_sync) connections)) \<ge> max_outbound_peers_to_protect
          then Some c
        else do {
          w \<leftarrow> chainwork s h;
          tip \<leftarrow> py_last (active_chain s);
          tip_work \<leftarrow> chainwork s tip;
          Some (if w \<ge> tip_work then c\<lparr>chain_sync := (chain_sync c)\<lparr>protect := True\<rparr>\<rparr> else c)
        })"

section \<open>A peer's history\<close>

text \<open>
  The calls made for one peer, in order: the index each finds, the time, the best block the peer
  was known to have, and whether this node has started syncing headers from it.
\<close>

record sync_call =
  at_index :: block_index
  at_time :: real
  at_best :: "bytes option"
  at_started :: bool

definition call_eviction :: "sync_call \<Rightarrow> sync_conn \<Rightarrow> (sync_conn \<times> sync_action list) option" where
  "call_eviction e c =
     consider_eviction (at_index e) (if at_started e then {conn_id c} else {}) (at_time e)
       (c\<lparr>best_known := at_best e\<rparr>)"

fun sync_history :: "sync_call list \<Rightarrow> sync_conn \<Rightarrow> (sync_conn \<times> sync_action list) option" where
  "sync_history [] c = Some (c, [])"
| "sync_history (e # es) c =
     (case call_eviction e c of
        None \<Rightarrow> None
      | Some (c', acts) \<Rightarrow> map_option (\<lambda>(c'', acts'). (c'', acts @ acts')) (sync_history es c'))"

definition call_tip :: "sync_call \<Rightarrow> bytes" where
  "call_tip e = last (active_chain (at_index e))"

definition call_work :: "sync_call \<Rightarrow> int" where
  \<comment> \<open>the work of the peer's best known block, \<open>-1\<close> where it has none\<close>
  "call_work e = (case at_best e of None \<Rightarrow> - 1 | Some h \<Rightarrow> cw (at_index e) h)"

definition call_ok :: "btclib \<Rightarrow> sync_call \<Rightarrow> bool" where
  "call_ok L e \<longleftrightarrow> index_ok L (at_index e) \<and> 0 < at_time e
     \<and> (\<forall>h. at_best e = Some h \<longrightarrow> known (at_index e) h)"

definition keeps_headers :: "sync_call list \<Rightarrow> bool" where
  \<comment> \<open>no header an index knows is forgotten by a later one, nor its work changed\<close>
  "keeps_headers es \<longleftrightarrow> (\<forall>j k h. j \<le> k \<longrightarrow> k < length es \<longrightarrow> known (at_index (es ! j)) h \<longrightarrow>
     known (at_index (es ! k)) h \<and> cw (at_index (es ! k)) h = cw (at_index (es ! j)) h)"

section \<open>One call\<close>

lemma cw_positive:
  assumes "tree_ok s" "work_ok L s" "known s h"
  shows "0 < cw s h"
proof -
  have nn: "0 \<le> header_height s h" using assms tree.height_nonneg by blast
  let ?r = "anc s h 0"
  have r: "known s ?r" "header_height s ?r = 0" using tree.anc_known_height [of s h 0] assms nn by simp_all
  have "cw s ?r = work_at L s ?r" "0 < work_at L s ?r" using assms(2) r by (simp_all add: work_ok_def)
  then show ?thesis using cw_anc_le [OF assms order_refl nn] by simp
qed

text \<open>The deadline a call leaves, by what the call finds.\<close>

definition idle_call :: "sync_call \<Rightarrow> sync_conn \<Rightarrow> bool" where
  "idle_call e c \<longleftrightarrow> protect (chain_sync c) \<or> \<not> outbound_or_block_relay c \<or> \<not> at_started e"

definition caught_up :: "sync_call \<Rightarrow> bool" where
  "caught_up e \<longleftrightarrow> call_work e \<ge> cw (at_index e) (call_tip e)"

definition reached_old_tip :: "sync_call \<Rightarrow> chain_sync_state \<Rightarrow> bool" where
  "reached_old_tip e st \<longleftrightarrow> timeout st = 0 \<or> (\<exists>w. work_header st = Some w \<and> call_work e \<ge> cw (at_index e) w)"

definition state_after :: "sync_call \<Rightarrow> sync_conn \<Rightarrow> chain_sync_state" where
  "state_after e c =
     (let st = chain_sync c in
      if idle_call e c then st
      else if caught_up e then
        (if timeout st \<noteq> 0 then st\<lparr>timeout := 0, work_header := None, sent_getheaders := False\<rparr> else st)
      else if reached_old_tip e st then
        st\<lparr>timeout := at_time e + chain_sync_timeout, work_header := Some (call_tip e), sent_getheaders := False\<rparr>
      else if timeout st > 0 \<and> at_time e > timeout st \<and> \<not> sent_getheaders st then
        st\<lparr>sent_getheaders := True, timeout := at_time e + headers_response_time\<rparr>
      else st)"

definition stops :: "sync_call \<Rightarrow> sync_conn \<Rightarrow> bool" where
  "stops e c \<longleftrightarrow> \<not> idle_call e c \<and> \<not> caught_up e \<and> \<not> reached_old_tip e (chain_sync c)
     \<and> timeout (chain_sync c) > 0 \<and> at_time e > timeout (chain_sync c) \<and> sent_getheaders (chain_sync c)"

definition deadline_ok :: "block_index \<Rightarrow> chain_sync_state \<Rightarrow> bool" where
  "deadline_ok s st \<longleftrightarrow> (timeout st \<noteq> 0 \<longrightarrow> (\<exists>w. work_header st = Some w \<and> known s w))
     \<and> (timeout st = 0 \<longrightarrow> work_header st = None \<and> \<not> sent_getheaders st)"

lemma call_eviction_spec:
  assumes "call_ok L e" "deadline_ok (at_index e) (chain_sync c)"
  shows "\<exists>c' acts. call_eviction e c = Some (c', acts) \<and> chain_sync c' = state_after e c
    \<and> conn_id c' = conn_id c \<and> automatic c' = automatic c \<and> feeler c' = feeler c \<and> block_relay c' = block_relay c
    \<and> (StopPeer \<in> set acts \<longleftrightarrow> stops e c)"
proof -
  let ?s = "at_index e" and ?st = "chain_sync c" and ?t = "call_tip e"
  have ok: "tree_ok ?s" "work_ok L ?s" "skip_ok ?s" "header_index_ok ?s" "is_chain ?s (active_chain ?s)"
    using assms(1) by (simp_all add: call_ok_def index_ok_def base_ok_def active_ok_def)
  have tip: "py_last (active_chain ?s) = Some ?t" "known ?s ?t"
    using ok(5) tree.chain_of_last(1) by (auto simp: call_tip_def py_simps chain_of_def)
  have tw: "chainwork ?s ?t = Some (cw ?s ?t)" using chainwork_cw ok(2) tip(2) by blast
  have bw: "work_or_none ?s (at_best e) = Some (call_work e)"
    using assms(1) chainwork_cw [OF ok(2)] by (auto simp: work_or_none_def call_work_def call_ok_def split: option.splits)
  have out: "outbound_or_block_relay (c\<lparr>best_known := b\<rparr>) = outbound_or_block_relay c" for b
    by (simp add: outbound_or_block_relay_def)
  show ?thesis
  proof (cases "idle_call e c \<or> caught_up e")
    case True
    then show ?thesis
      using tip(1) tw bw out
      by (auto simp: call_eviction_def consider_eviction_def idle_call_def caught_up_def state_after_def stops_def Let_def)
  next
    case False
    then have act: "\<not> protect ?st" "outbound_or_block_relay c" "at_started e" "\<not> call_work e \<ge> cw ?s ?t"
      by (simp_all add: idle_call_def caught_up_def)
    have old: "new_deadline_due ?s ?st (at_best e) (call_work e) = Some (reached_old_tip e ?st)"
    proof (cases "timeout ?st = 0")
      case nz: False
      then obtain w where w: "work_header ?st = Some w" "known ?s w" using assms(2) by (auto simp: deadline_ok_def)
      have "chainwork ?s w = Some (cw ?s w)" "0 < cw ?s w"
        using chainwork_cw cw_positive ok(1,2) w(2) by blast+
      with w(1) nz show ?thesis
        by (auto simp: new_deadline_due_def reached_old_tip_def call_work_def split: option.splits)
    qed (simp add: reached_old_tip_def new_deadline_due_def)
    note run = call_eviction_def consider_eviction_def state_after_def stops_def
    have facts: "idle_call e c = False" "caught_up e = False" using False by simp_all
    show ?thesis
    proof (cases "reached_old_tip e ?st")
      case True
      then show ?thesis
        using act tip(1) tw bw out old facts by (simp add: run Let_def)
    next
      case nr: False
      then obtain w where w: "work_header ?st = Some w" "known ?s w" "timeout ?st \<noteq> 0"
        using assms(2) by (auto simp: deadline_ok_def reached_old_tip_def)
      then obtain bi where bi: "map_of (header_dict ?s) w = Some bi" "header_height ?s w = bi_index bi"
        "blk_parent ?s w = hdr_prev (bi_header bi)" using ok(1) by (metis knownE)
      have "\<exists>l. parent_locator ?s (work_header ?st) = Some l"
        using locator_entries_heights [OF ok(1,3,4)] tree.known_parent [of ?s w] ok(1) w(1,2) bi
        by (auto simp: sync_locator_def parent_locator_def)
      then obtain l where l: "parent_locator ?s (work_header ?st) = Some l" by blast
      show ?thesis
      proof (cases "timeout ?st > 0 \<and> at_time e > timeout ?st \<and> \<not> sent_getheaders ?st")
        case True
        then show ?thesis
          using act tip(1) tw bw out old facts nr l by (simp add: run Let_def)
      next
        case False
        then show ?thesis
          using act tip(1) tw bw out old facts nr l by (auto simp: run Let_def)
      qed
    qed
  qed
qed

section \<open>The deadline of a peer, and what led to it\<close>

definition behind_since :: "sync_call list \<Rightarrow> nat \<Rightarrow> bool" where
  \<comment> \<open>from the call \<open>j\<close> on, the peer's best block never had the work of the tip of that call\<close>
  "behind_since es j \<longleftrightarrow> (\<forall>k. j \<le> k \<longrightarrow> k < length es \<longrightarrow> at_started (es ! k) \<longrightarrow>
     call_work (es ! k) < cw (at_index (es ! k)) (call_tip (es ! j)))"

definition waits_since :: "sync_call list \<Rightarrow> chain_sync_state \<Rightarrow> nat \<Rightarrow> bool" where
  "waits_since es st j \<longleftrightarrow> j < length es \<and> at_started (es ! j) \<and> work_header st = Some (call_tip (es ! j))
     \<and> behind_since es j
     \<and> (if sent_getheaders st
        then \<exists>i. j < i \<and> i < length es \<and> at_time (es ! i) > at_time (es ! j) + chain_sync_timeout
               \<and> timeout st = at_time (es ! i) + headers_response_time
        else timeout st = at_time (es ! j) + chain_sync_timeout)"

definition history_ok :: "sync_call list \<Rightarrow> sync_conn \<Rightarrow> bool" where
  "history_ok es c \<longleftrightarrow>
     (if timeout (chain_sync c) = 0 then work_header (chain_sync c) = None \<and> \<not> sent_getheaders (chain_sync c)
      else \<not> protect (chain_sync c) \<and> outbound_or_block_relay c \<and> (\<exists>j. waits_since es (chain_sync c) j))"

lemma known_tip:
  assumes "call_ok L e"
  shows "known (at_index e) (call_tip e)"
  using assms tree.chain_of_last(1)
  by (auto simp: call_ok_def call_tip_def index_ok_def base_ok_def active_ok_def)

lemma history_deadline_ok:
  assumes "history_ok es c" "\<forall>x\<in>set (es @ [e]). call_ok L x" "keeps_headers (es @ [e])"
  shows "deadline_ok (at_index e) (chain_sync c)"
proof (cases "timeout (chain_sync c) = 0")
  case True
  with assms(1) show ?thesis by (simp add: history_ok_def deadline_ok_def)
next
  case False
  then obtain j where j: "j < length es" "work_header (chain_sync c) = Some (call_tip (es ! j))"
    using assms(1) by (auto simp: history_ok_def waits_since_def)
  have "call_ok L (es ! j)" using j(1) assms(2) by simp
  then have "known (at_index (es ! j)) (call_tip (es ! j))" by (rule known_tip)
  moreover have "j \<le> length es" "length es < length (es @ [e])" using j(1) by simp_all
  ultimately have "known (at_index e) (call_tip (es ! j))"
    using assms(3) j(1) unfolding keeps_headers_def by (metis nth_append nth_append_length)
  with j(2) False show ?thesis by (simp add: deadline_ok_def)
qed

lemma behind_snoc:
  assumes "behind_since es j" "j < length es" "at_started e \<Longrightarrow> call_work e < cw (at_index e) (call_tip (es ! j))"
  shows "behind_since (es @ [e]) j"
  using assms by (auto simp: behind_since_def nth_append less_Suc_eq)

lemma waits_snoc:
  assumes "waits_since es st j" "at_started e \<Longrightarrow> call_work e < cw (at_index e) (call_tip (es ! j))"
  shows "waits_since (es @ [e]) st j"
proof -
  have j: "j < length es" using assms(1) by (simp add: waits_since_def)
  then have ej: "(es @ [e]) ! j = es ! j" by (simp add: nth_append)
  have b: "behind_since (es @ [e]) j" using behind_snoc [OF _ j assms(2)] assms(1) by (simp add: waits_since_def)
  show ?thesis
  proof (cases "sent_getheaders st")
    case True
    then obtain i where i: "j < i" "i < length es" "at_time (es ! i) > at_time (es ! j) + chain_sync_timeout"
      "timeout st = at_time (es ! i) + headers_response_time" using assms(1) by (auto simp: waits_since_def)
    then have "(es @ [e]) ! i = es ! i" by (simp add: nth_append)
    with i True b ej j assms(1) show ?thesis
      unfolding waits_since_def by (intro conjI) (auto intro!: exI [of _ i])
  next
    case False
    with b ej j assms(1) show ?thesis by (simp add: waits_since_def)
  qed
qed

lemma history_step:
  assumes h: "history_ok es c" and e: "call_ok L e"
    and c': "chain_sync c' = state_after e c" "automatic c' = automatic c" "feeler c' = feeler c"
  shows "history_ok (es @ [e]) c'"
proof -
  let ?st = "chain_sync c"
  have out: "outbound_or_block_relay c' = outbound_or_block_relay c"
    using c' by (simp add: outbound_or_block_relay_def)
  have now: "at_time e + chain_sync_timeout \<noteq> 0" "at_time e + headers_response_time \<noteq> 0"
    using e by (simp_all add: call_ok_def chain_sync_timeout_def headers_response_time_def)
  consider "idle_call e c" | "\<not> idle_call e c" "caught_up e"
    | "\<not> idle_call e c" "\<not> caught_up e" "reached_old_tip e ?st"
    | "\<not> idle_call e c" "\<not> caught_up e" "\<not> reached_old_tip e ?st" by blast
  then show ?thesis
  proof cases
    case 1
    then have st: "chain_sync c' = ?st" using c'(1) by (simp add: state_after_def)
    show ?thesis
    proof (cases "timeout ?st = 0")
      case True
      with h st show ?thesis by (simp add: history_ok_def)
    next
      case False
      then have "\<not> at_started e" using 1 h by (auto simp: idle_call_def history_ok_def)
      with False h st out show ?thesis by (auto simp: history_ok_def dest: waits_snoc)
    qed
  next
    case 2
    with h c'(1) show ?thesis
      by (cases "timeout ?st = 0") (simp_all add: history_ok_def state_after_def Let_def)
  next
    case 3
    have "behind_since (es @ [e]) (length es)"
      unfolding behind_since_def
    proof (intro allI impI)
      fix k assume "length es \<le> k" "k < length (es @ [e])"
      then have "k = length es" by simp
      with 3(2) show "call_work ((es @ [e]) ! k) < cw (at_index ((es @ [e]) ! k)) (call_tip ((es @ [e]) ! length es))"
        by (simp add: caught_up_def)
    qed
    then have "waits_since (es @ [e]) (chain_sync c') (length es)"
      using 3 c'(1) by (simp add: waits_since_def state_after_def idle_call_def)
    moreover have "timeout (chain_sync c') \<noteq> 0" using 3 c'(1) now(1) by (simp add: state_after_def)
    moreover have "\<not> protect (chain_sync c')" "outbound_or_block_relay c'"
      using 3 c'(1) out by (simp_all add: state_after_def idle_call_def)
    ultimately show ?thesis by (auto simp: history_ok_def)
  next
    case 4
    then have nz: "timeout ?st \<noteq> 0" by (simp add: reached_old_tip_def)
    with h obtain j where w: "waits_since es ?st j" by (auto simp: history_ok_def)
    then have j: "j < length es" "work_header ?st = Some (call_tip (es ! j))" by (simp_all add: waits_since_def)
    have lt: "call_work e < cw (at_index e) (call_tip (es ! j))" using 4(3) j(2) by (auto simp: reached_old_tip_def)
    have idle: "\<not> protect ?st" "outbound_or_block_relay c" using 4(1) by (simp_all add: idle_call_def)
    show ?thesis
    proof (cases "timeout ?st > 0 \<and> at_time e > timeout ?st \<and> \<not> sent_getheaders ?st")
      case True
      then have st: "chain_sync c' = ?st\<lparr>sent_getheaders := True, timeout := at_time e + headers_response_time\<rparr>"
        using 4 c'(1) by (simp add: state_after_def)
      have "timeout ?st = at_time (es ! j) + chain_sync_timeout" using w True by (simp add: waits_since_def)
      then have "at_time e > at_time (es ! j) + chain_sync_timeout" using True by simp
      moreover have "behind_since (es @ [e]) j" using behind_snoc [OF _ j(1) lt] w by (simp add: waits_since_def)
      moreover have "at_started (es ! j)" using w by (simp add: waits_since_def)
      ultimately have "waits_since (es @ [e]) (chain_sync c') j"
        unfolding waits_since_def st using j
        by (simp add: nth_append exI [of _ "length es"])
      then show ?thesis using st idle out now(2) by (auto simp: history_ok_def)
    next
      case False
      then have st: "chain_sync c' = ?st" using 4 c'(1) by (auto simp: state_after_def Let_def)
      with waits_snoc [OF w lt] nz idle out show ?thesis by (auto simp: history_ok_def)
    qed
  qed
qed

lemma sync_history_snoc:
  "sync_history (es @ [e]) c = (case sync_history es c of None \<Rightarrow> None
     | Some (c', acts) \<Rightarrow> map_option (\<lambda>(c'', acts'). (c'', acts @ acts')) (call_eviction e c'))"
  by (induction es arbitrary: c)
    (auto simp: option.map_comp comp_def case_prod_unfold option.map_ident split: option.splits prod.splits)

lemma keeps_headers_prefix:
  assumes "keeps_headers (es @ [e])"
  shows "keeps_headers es"
  unfolding keeps_headers_def
proof (intro allI impI)
  fix j k h assume a: "j \<le> k" "k < length es" "known (at_index (es ! j)) h"
  then have "known (at_index ((es @ [e]) ! j)) h" "k < length (es @ [e])" by (simp_all add: nth_append)
  with assms a(1) have "known (at_index ((es @ [e]) ! k)) h
      \<and> cw (at_index ((es @ [e]) ! k)) h = cw (at_index ((es @ [e]) ! j)) h"
    unfolding keeps_headers_def by blast
  with a show "known (at_index (es ! k)) h \<and> cw (at_index (es ! k)) h = cw (at_index (es ! j)) h"
    by (simp add: nth_append)
qed

lemma sync_history_ok:
  assumes "\<forall>x\<in>set es. call_ok L x" "keeps_headers es" "chain_sync c = new_chain_sync_state"
  shows "\<exists>c' acts. sync_history es c = Some (c', acts) \<and> history_ok es c'
    \<and> automatic c' = automatic c \<and> feeler c' = feeler c"
  using assms(1,2)
proof (induction es rule: rev_induct)
  case Nil
  with assms(3) show ?case by (simp add: history_ok_def new_chain_sync_state_def)
next
  case (snoc e es)
  have keeps: "keeps_headers es" using keeps_headers_prefix snoc.prems(2) by blast
  obtain c1 acts where c1: "sync_history es c = Some (c1, acts)" "history_ok es c1"
    "automatic c1 = automatic c" "feeler c1 = feeler c"
    using snoc.IH snoc.prems(1) keeps by auto
  have e: "call_ok L e" using snoc.prems(1) by simp
  obtain c2 acts' where c2: "call_eviction e c1 = Some (c2, acts')" "chain_sync c2 = state_after e c1"
    "automatic c2 = automatic c1" "feeler c2 = feeler c1"
    using call_eviction_spec [OF e history_deadline_ok [OF c1(2) snoc.prems]] by blast
  with c1 history_step [OF c1(2) e c2(2-4)] show ?case by (simp add: sync_history_snoc)
qed

end
