(* ===== verification/Chain_Sync_Properties.thy ===== *)
theory Chain_Sync_Properties
  imports Chain_Sync Index_Load
begin

text \<open>
  The properties of the chain sync checks: no peer is dropped that kept up, and no more than four
  are exempt.
\<close>

definition demo_conn :: sync_conn where
  "demo_conn = \<lparr>conn_id = 7, automatic = True, feeler = False, block_relay = False, is_connected = True,
     best_known = None, chain_sync = new_chain_sync_state\<rparr>"

definition demo_call :: "real \<Rightarrow> bytes option \<Rightarrow> sync_call" where
  "demo_call t best = \<lparr>at_index = demo_forked, at_time = t, at_best = best, at_started = True\<rparr>"



text \<open>
  \<open>protect_if_caught_up\<close> never leaves more than four of the connections held protected, and
  protects one only where it is a connected full outbound peer whose best block has at least the
  work of the tip; a protected peer is never stopped by \<open>consider_eviction\<close>.
\<close>

lemma at_most_four_protected:
  assumes "i < length cs" "length (filter (protect \<circ> chain_sync) cs) \<le> 4"
    and "protect_if_caught_up s cs (cs ! i) = Some c"
  shows "length (filter (protect \<circ> chain_sync) (cs[i := c])) \<le> 4
    \<and> (protect (chain_sync c) \<and> \<not> protect (chain_sync (cs ! i)) \<longrightarrow>
         full_outbound (cs ! i) \<and> is_connected (cs ! i)
         \<and> (\<exists>h w t. best_known (cs ! i) = Some h \<and> chainwork s h = Some w
              \<and> chainwork s (last (active_chain s)) = Some t \<and> t \<le> w))
    \<and> (protect (chain_sync c) \<longrightarrow> consider_eviction s ts now c = Some (c, []))"
proof -
  let ?n = "\<lambda>xs. length (filter (protect \<circ> chain_sync) xs)"
  have split: "cs = take i cs @ cs ! i # drop (Suc i) cs" using assms(1) by (simp add: id_take_nth_drop)
  have upd: "cs[i := c] = take i cs @ c # drop (Suc i) cs" using assms(1) by (simp add: upd_conv_take_nth_drop)
  have n: "?n cs = ?n (take i cs) + ?n (drop (Suc i) cs) + (if protect (chain_sync (cs ! i)) then 1 else 0)"
    by (subst split) simp
  have n': "?n (cs[i := c]) = ?n (take i cs) + ?n (drop (Suc i) cs) + (if protect (chain_sync c) then 1 else 0)"
    by (simp add: upd)
  have new: "full_outbound (cs ! i) \<and> is_connected (cs ! i) \<and> ?n cs < 4
      \<and> (\<exists>h w t. best_known (cs ! i) = Some h \<and> chainwork s h = Some w
              \<and> chainwork s (last (active_chain s)) = Some t \<and> t \<le> w)"
    if "protect (chain_sync c)" "\<not> protect (chain_sync (cs ! i))"
    using assms(3) that
    by (auto simp: protect_if_caught_up_def max_outbound_peers_to_protect_def bind_eq_Some_conv py_last_Some_iff
        split: option.splits if_splits)
  have "?n (cs[i := c]) \<le> 4" using n n' new assms(2) by (cases "protect (chain_sync c)"; cases "protect (chain_sync (cs ! i))") auto
  with new show ?thesis by (auto simp: consider_eviction_def Let_def)
qed

lemma at_most_four_protected_witness:
  "length (filter (protect \<circ> chain_sync) [demo_conn, demo_conn]) \<le> 4
   \<and> length (filter (protect \<circ> chain_sync) ([demo_conn, demo_conn][0 := demo_conn])) \<le> 4"
proof -
  have "protect_if_caught_up demo_forked [demo_conn, demo_conn] ([demo_conn, demo_conn] ! 0) = Some demo_conn"
    by (simp add: protect_if_caught_up_def demo_conn_def)
  moreover have "length (filter (protect \<circ> chain_sync) [demo_conn, demo_conn]) \<le> 4" by simp
  ultimately show ?thesis
    using at_most_four_protected [of 0 "[demo_conn, demo_conn]" demo_forked demo_conn] by simp
qed

text \<open>
  During the initial download, a peer is dropped for insufficient work exactly where it is an
  automatic outbound one whose best known block has less than the minimum chain work; outside the
  initial download none is.
\<close>

lemma insufficient_work_drops:
  assumes "index_ok L s" "\<And>h. best_known c = Some h \<Longrightarrow> known s h"
  shows "\<exists>dropped acts. disconnect_if_insufficient_work s ibd minimum c = Some (dropped, acts)
    \<and> (dropped \<longleftrightarrow> StopPeer \<in> set acts)
    \<and> (dropped \<longleftrightarrow> ibd \<and> automatic c \<and> \<not> feeler c \<and> (\<exists>h. best_known c = Some h \<and> cw s h < minimum))"
proof -
  have w: "work_ok L s" using assms(1) by (simp add: index_ok_def base_ok_def)
  show ?thesis
  proof (cases "best_known c")
    case (Some h)
    then have "chainwork s h = Some (cw s h)" using chainwork_cw [OF w] assms(2) by blast
    with Some show ?thesis by (auto simp: disconnect_if_insufficient_work_def outbound_or_block_relay_def)
  qed (simp add: disconnect_if_insufficient_work_def)
qed

lemma insufficient_work_drops_witness:
  "\<exists>acts. disconnect_if_insufficient_work demo_forked True 3 (demo_conn\<lparr>best_known := Some [1]\<rparr>) = Some (True, acts)"
proof -
  have "known demo_forked [1]" "cw demo_forked [1] = 2" by code_simp+
  with insufficient_work_drops [OF demo_forked_ok, of "demo_conn\<lparr>best_known := Some [1]\<rparr>" True 3]
  show ?thesis by (auto simp: demo_conn_def)
qed

end
