(* ===== verification/Utxo_Index.thy ===== *)
theory Utxo_Index
  imports Key_Value_Store
begin

unbundle bit_operations_syntax

text \<open>
  \<open>chainstate/utxo_index.py\<close>, with the coin and the undo record of \<open>block_db\<close>: the outputs a spend
  may reference, staged in memory over the store until \<open>finalize\<close>, with the log \<open>rollback\<close> undoes
  a failed trial by.  This theory holds the data and the operations; Utxo_View and Utxo_Undo hold
  what is proved of them.

  btclib is a parameter, the record \<open>utxo_lib\<close>: the wire format of an outpoint and of an output,
  the compact sizes, the gate on unspendable scripts, and the running commitment to the set, whose
  own type \<open>'m\<close> is left open.  Python's \<open>set\<close> is a set; where one is iterated, to write it out, the
  order does not matter and is that of the keys here.
\<close>

section \<open>Data\<close>

record tx_out =
  out_value :: int
  out_script :: bytes

record out_point =
  op_txid :: bytes
  op_index :: nat

record coin =
  coin_out :: tx_out
  coin_height :: int
  coin_coinbase :: bool

record block_tx =
  tx_id :: bytes
  tx_vin :: "out_point list"
  tx_vout :: "tx_out list"

record raw_block =
  raw_hash :: bytes
  raw_txs :: "block_tx list"

record rev_block =
  rev_hash :: bytes
  to_add :: "(out_point \<times> coin) list"
  to_remove :: "out_point list"

record 'm utxo_lib =
  op_serialize :: "out_point \<Rightarrow> bytes"
  op_parse :: "bytes \<Rightarrow> (out_point \<times> bytes) option"
  txout_serialize :: "tx_out \<Rightarrow> bytes"
  txout_parse :: "bytes \<Rightarrow> (tx_out \<times> bytes) option"
  size_serialize :: "int \<Rightarrow> bytes"
  size_parse :: "bytes \<Rightarrow> (int \<times> bytes) option"
  is_unspendable :: "bytes \<Rightarrow> bool"
  stats_insert :: "bytes \<Rightarrow> coin \<Rightarrow> 'm \<Rightarrow> 'm"
  stats_remove :: "bytes \<Rightarrow> coin \<Rightarrow> 'm \<Rightarrow> 'm"
  stats_empty :: 'm
  stats_serialize :: "'m \<Rightarrow> bytes"
  stats_deserialize :: "bytes \<Rightarrow> 'm"

section \<open>The stored records\<close>

definition coin_serialize :: "'m utxo_lib \<Rightarrow> coin \<Rightarrow> bytes" where
  "coin_serialize L c =
     (let packed = push_bit 1 (coin_height c) OR (if coin_coinbase c then 1 else 0)
      in size_serialize L packed @ txout_serialize L (coin_out c))"

definition coin_read :: "'m utxo_lib \<Rightarrow> bytes \<Rightarrow> (coin \<times> bytes) option" where
  "coin_read L bs =
     do {
       (packed, rest) \<leftarrow> size_parse L bs;
       (t, rest) \<leftarrow> txout_parse L rest;
       Some (\<lparr>coin_out = t, coin_height = drop_bit 1 packed, coin_coinbase = (packed AND 1 \<noteq> 0)\<rparr>, rest)
     }"

definition coin_parse :: "'m utxo_lib \<Rightarrow> bytes \<Rightarrow> coin option" where
  "coin_parse L bs = map_option fst (coin_read L bs)"

definition rev_block_serialize :: "'m utxo_lib \<Rightarrow> rev_block \<Rightarrow> bytes" where
  "rev_block_serialize L r =
     rev_hash r
       @ size_serialize L (int (length (to_add r)))
       @ concat (map (\<lambda>(p, c). op_serialize L p @ coin_serialize L c) (to_add r))
       @ size_serialize L (int (length (to_remove r)))
       @ concat (map (op_serialize L) (to_remove r))"

fun read_many :: "(bytes \<Rightarrow> ('a \<times> bytes) option) \<Rightarrow> nat \<Rightarrow> bytes \<Rightarrow> ('a list \<times> bytes) option" where
  "read_many p 0 bs = Some ([], bs)"
| "read_many p (Suc n) bs =
     do { (x, rest) \<leftarrow> p bs; (xs, rest) \<leftarrow> read_many p n rest; Some (x # xs, rest) }"

definition read_undo_coin :: "'m utxo_lib \<Rightarrow> bytes \<Rightarrow> ((out_point \<times> coin) \<times> bytes) option" where
  "read_undo_coin L bs =
     do { (p, rest) \<leftarrow> op_parse L bs; (c, rest) \<leftarrow> coin_read L rest; Some ((p, c), rest) }"

definition rev_block_deserialize :: "'m utxo_lib \<Rightarrow> bytes \<Rightarrow> rev_block option" where
  "rev_block_deserialize L data =
     do {
       let h = take 32 data;
       (n, rest) \<leftarrow> size_parse L (drop 32 data);
       (adds, rest) \<leftarrow> read_many (read_undo_coin L) (nat n) rest;
       (m, rest) \<leftarrow> size_parse L rest;
       (removes, rest) \<leftarrow> read_many (op_parse L) (nat m) rest;
       Some \<lparr>rev_hash = h, to_add = adds, to_remove = removes\<rparr>
     }"

definition bip30_unspendable_originals :: "(int \<times> bytes) set" where
  "bip30_unspendable_originals =
     {(91722, [0x00, 0x00, 0x00, 0x00, 0x00, 0x02, 0x71, 0xa2, 0xdc, 0x26, 0xe7, 0x66, 0x7f, 0x84, 0x19, 0xf2,
               0xe1, 0x54, 0x16, 0xdc, 0x69, 0x55, 0xe5, 0xa6, 0xc6, 0xcd, 0xf3, 0xf2, 0x57, 0x4d, 0xd0, 0x8e]),
      (91812, [0x00, 0x00, 0x00, 0x00, 0x00, 0x0a, 0xf0, 0xae, 0xd4, 0x79, 0x2b, 0x1a, 0xce, 0xe3, 0xd9, 0x66,
               0xaf, 0x36, 0xcf, 0x5d, 0xef, 0x14, 0x93, 0x5d, 0xb8, 0xde, 0x83, 0xd6, 0xf9, 0x30, 0x6f, 0x2f])}"

definition is_bip30_unspendable :: "int \<Rightarrow> bytes \<Rightarrow> bool" where
  "is_bip30_unspendable height block_hash \<longleftrightarrow> (height, block_hash) \<in> bip30_unspendable_originals"

definition utxo_prefix :: bytes where
  \<comment> \<open>\<open>b"utxo-"\<close>\<close>
  "utxo_prefix = [117, 116, 120, 111, 45]"

definition utxo_key :: "bytes \<Rightarrow> bytes" where
  "utxo_key k = utxo_prefix @ k"

definition coin_stats_key :: bytes where
  \<comment> \<open>\<open>b"coinstats"\<close>\<close>
  "coin_stats_key = [99, 111, 105, 110, 115, 116, 97, 116, 115]"

section \<open>The index\<close>

datatype undo_entry =
    UndoUpdated bytes "coin option"
  | UndoRemoved bytes bool
  | UndoStored bytes bool
  | UndoStats bool bytes coin

record 'm utxo_index =
  utxo_db :: kv_store
  removed_utxos :: "bytes set"
  updated_utxo_set :: "(bytes, coin) dict"
  stored_utxos :: "bytes set"
  undo_log :: "undo_entry list"
  coin_stats :: 'm

definition open_utxo_index :: "'m utxo_lib \<Rightarrow> kv_store \<Rightarrow> exc + 'm utxo_index" where
  \<comment> \<open>\<open>__init__\<close>\<close>
  "open_utxo_index L d =
     (case kv_get_meta d coin_stats_key of
        Inl e \<Rightarrow> Inl e
      | Inr stats \<Rightarrow> Inr \<lparr>utxo_db = d, removed_utxos = {}, updated_utxo_set = [], stored_utxos = {},
          undo_log = [],
          coin_stats = (case stats of None \<Rightarrow> stats_empty L | Some v \<Rightarrow> stats_deserialize L v)\<rparr>)"

definition bip30_violation :: "bytes \<Rightarrow> 'm utxo_index \<Rightarrow> exc + bool" where
  "bip30_violation k u =
     (if k \<in> removed_utxos u then Inr False
      else if map_of (updated_utxo_set u) k \<noteq> None then Inr True
      else (case kv_get (utxo_db u) (utxo_key k) of
              Inl e \<Rightarrow> Inl e | Inr v \<Rightarrow> Inr (v \<noteq> None \<and> v \<noteq> Some [])))"

definition created_points :: "block_tx \<Rightarrow> out_point list" where
  \<comment> \<open>the outpoints of a transaction's outputs, in order\<close>
  "created_points tx = map (\<lambda>i. \<lparr>op_txid = tx_id tx, op_index = i\<rparr>) [0..<length (tx_vout tx)]"

fun check_bip30_points :: "'m utxo_lib \<Rightarrow> out_point list \<Rightarrow> 'm utxo_index \<Rightarrow> exc + unit" where
  "check_bip30_points L [] u = Inr ()"
| "check_bip30_points L (p # ps) u =
     (case bip30_violation (op_serialize L p) u of
        Inl e \<Rightarrow> Inl e
      | Inr True \<Rightarrow> Inl (InvalidBlockInputError ''bad-txns-BIP30'')
      | Inr False \<Rightarrow> check_bip30_points L ps u)"

definition check_bip30 :: "'m utxo_lib \<Rightarrow> raw_block \<Rightarrow> 'm utxo_index \<Rightarrow> exc + unit" where
  "check_bip30 L b u = check_bip30_points L (concat (map created_points (raw_txs b))) u"

definition trial_mark :: "'m utxo_index \<Rightarrow> nat" where
  "trial_mark u = length (undo_log u)"

definition put_coin :: "bytes \<Rightarrow> coin \<Rightarrow> 'm utxo_index \<Rightarrow> 'm utxo_index" where
  "put_coin k c u =
     u\<lparr>undo_log := undo_log u @ [UndoUpdated k (map_of (updated_utxo_set u) k)],
       updated_utxo_set := AList.update k c (updated_utxo_set u)\<rparr>"

definition pop_coin :: "bytes \<Rightarrow> 'm utxo_index \<Rightarrow> (coin \<times> 'm utxo_index) option" where
  "pop_coin k u =
     (case map_of (updated_utxo_set u) k of
        None \<Rightarrow> None
      | Some c \<Rightarrow> Some (c, u\<lparr>updated_utxo_set := AList.delete k (updated_utxo_set u),
                             undo_log := undo_log u @ [UndoUpdated k (Some c)]\<rparr>))"

definition mark_removed :: "bytes \<Rightarrow> 'm utxo_index \<Rightarrow> 'm utxo_index" where
  "mark_removed k u =
     u\<lparr>undo_log := undo_log u @ [UndoRemoved k (k \<in> removed_utxos u)],
       removed_utxos := insert k (removed_utxos u)\<rparr>"

definition log_and_set_stored :: "bytes \<Rightarrow> bool \<Rightarrow> 'm utxo_index \<Rightarrow> 'm utxo_index" where
  "log_and_set_stored k present u =
     u\<lparr>undo_log := undo_log u @ [UndoStored k (k \<in> stored_utxos u)],
       stored_utxos := (if present then insert k (stored_utxos u) else stored_utxos u - {k})\<rparr>"

definition unmark_removed :: "bytes \<Rightarrow> 'm utxo_index \<Rightarrow> 'm utxo_index" where
  "unmark_removed k u =
     (let u = (if k \<in> removed_utxos u then log_and_set_stored k True u else u)
      in u\<lparr>undo_log := undo_log u @ [UndoRemoved k (k \<in> removed_utxos u)],
           removed_utxos := removed_utxos u - {k}\<rparr>)"

definition spend_staged :: "bytes \<Rightarrow> 'm utxo_index \<Rightarrow> (coin \<times> 'm utxo_index) option" where
  "spend_staged k u =
     (case pop_coin k u of
        None \<Rightarrow> None
      | Some (c, u) \<Rightarrow>
          Some (c, if k \<in> stored_utxos u then mark_removed k (log_and_set_stored k False u) else u))"

definition stored_prevout :: "'m utxo_lib \<Rightarrow> bytes \<Rightarrow> 'm utxo_index \<Rightarrow> exc + coin option" where
  "stored_prevout L k u =
     (case kv_get (utxo_db u) (utxo_key k) of
        Inl e \<Rightarrow> Inl e
      | Inr None \<Rightarrow> Inr None
      | Inr (Some v) \<Rightarrow> Inr (coin_parse L v))"

definition hash_insert :: "'m utxo_lib \<Rightarrow> bytes \<Rightarrow> coin \<Rightarrow> 'm utxo_index \<Rightarrow> 'm utxo_index" where
  "hash_insert L k c u =
     u\<lparr>coin_stats := stats_insert L k c (coin_stats u), undo_log := undo_log u @ [UndoStats True k c]\<rparr>"

definition hash_remove :: "'m utxo_lib \<Rightarrow> bytes \<Rightarrow> coin \<Rightarrow> 'm utxo_index \<Rightarrow> 'm utxo_index" where
  "hash_remove L k c u =
     u\<lparr>coin_stats := stats_remove L k c (coin_stats u), undo_log := undo_log u @ [UndoStats False k c]\<rparr>"

definition stage_creation :: "'m utxo_lib \<Rightarrow> bytes \<Rightarrow> coin \<Rightarrow> bool \<Rightarrow> 'm utxo_index \<Rightarrow> bool \<times> 'm utxo_index" where
  "stage_creation L k c hash_it u =
     (if is_unspendable L (out_script (coin_out c)) then (False, u)
      else
        let u = put_coin k c (unmark_removed k u)
        in (True, if hash_it then hash_insert L k c u else u))"

definition stage_added ::
  "'m utxo_lib \<Rightarrow> bool \<Rightarrow> out_point \<times> coin \<Rightarrow> out_point list \<times> 'm utxo_index \<Rightarrow> out_point list \<times> 'm utxo_index" where
  "stage_added L hash_it pc st =
     (let (p, c) = pc; (added, u) = st;
          (staged, u) = stage_creation L (op_serialize L p) c hash_it u
      in (if staged then added @ [p] else added, u))"

definition flush_bound :: nat where
  "flush_bound = 500000"

definition should_flush :: "'m utxo_index \<Rightarrow> bool" where
  "should_flush u \<longleftrightarrow> card (removed_utxos u) + length (updated_utxo_set u) \<ge> flush_bound"

section \<open>Connecting a block\<close>

definition created_coins :: "int \<Rightarrow> bool \<Rightarrow> block_tx \<Rightarrow> (out_point \<times> coin) list" where
  \<comment> \<open>what the two creation loops run over\<close>
  "created_coins height coinbase tx =
     zip (created_points tx)
       (map (\<lambda>t. \<lparr>coin_out = t, coin_height = height, coin_coinbase = coinbase\<rparr>) (tx_vout tx))"

record 'm connecting =
  con_index :: "'m utxo_index"
  con_removed :: "(out_point \<times> coin) list"
  con_added :: "out_point list"
  con_prevs :: "coin list"
  con_done :: "(coin list \<times> block_tx) list"

definition take_prevout ::
  "'m utxo_lib \<Rightarrow> bytes \<Rightarrow> 'm utxo_index \<Rightarrow> exc + coin \<times> 'm utxo_index" where
  \<comment> \<open>the coin an input spends, and the index with it taken out\<close>
  "take_prevout L k u =
     (if k \<in> removed_utxos u then Inl (InvalidBlockInputError ''prevout already spent in this batch'')
      else if map_of (updated_utxo_set u) k \<noteq> None then
        (case spend_staged k u of None \<Rightarrow> Inl KeyError | Some r \<Rightarrow> Inr r)
      else (case stored_prevout L k u of
              Inl e \<Rightarrow> Inl e
            | Inr None \<Rightarrow> Inl (InvalidBlockInputError ''prevout not found'')
            | Inr (Some c) \<Rightarrow> Inr (c, mark_removed k u)))"

definition spend_input :: "'m utxo_lib \<Rightarrow> out_point \<Rightarrow> 'm connecting \<Rightarrow> 'm connecting \<times> (exc + unit)" where
  "spend_input L p st =
     (let k = op_serialize L p in
      case take_prevout L k (con_index st) of
        Inl e \<Rightarrow> (st, Inl e)
      | Inr (c, u) \<Rightarrow>
          (st\<lparr>con_index := hash_remove L k c u, con_removed := con_removed st @ [(p, c)],
              con_prevs := con_prevs st @ [c]\<rparr>, Inr ()))"

definition create_outputs :: "'m utxo_lib \<Rightarrow> int \<Rightarrow> bool \<Rightarrow> bool \<Rightarrow> block_tx \<Rightarrow> 'm connecting \<Rightarrow> 'm connecting" where
  "create_outputs L height coinbase hash_it tx st =
     (let (added, u) = fold (stage_added L hash_it) (created_coins height coinbase tx)
                         (con_added st, con_index st)
      in st\<lparr>con_index := u, con_added := added\<rparr>)"

definition connect_tx :: "'m utxo_lib \<Rightarrow> int \<Rightarrow> block_tx \<Rightarrow> 'm connecting \<Rightarrow> 'm connecting \<times> (exc + unit)" where
  "connect_tx L height tx st =
     (case fold_exc (spend_input L) (tx_vin tx) (st\<lparr>con_prevs := []\<rparr>) of
        (st, Inl e) \<Rightarrow> (st, Inl e)
      | (st, Inr _) \<Rightarrow>
          let st = create_outputs L height False True tx st
          in (st\<lparr>con_done := con_done st @ [(con_prevs st, tx)]\<rparr>, Inr ()))"

definition add_block ::
  "'m utxo_lib \<Rightarrow> raw_block \<Rightarrow> int \<Rightarrow> bool \<Rightarrow> 'm utxo_index \<Rightarrow>
   'm utxo_index \<times> (exc + (coin list \<times> block_tx) list \<times> rev_block)" where
  "add_block L b height bip30 u =
     (case (if bip30 then check_bip30 L b u else Inr ()) of
        Inl e \<Rightarrow> (u, Inl e)
      | Inr _ \<Rightarrow>
        (case raw_txs b of
           [] \<Rightarrow> (u, Inl IndexError)
         | coinbase # txs \<Rightarrow>
           let skip_coinbase_hash = is_bip30_unspendable height (raw_hash b);
               st = create_outputs L height True (\<not> skip_coinbase_hash) coinbase
                      \<lparr>con_index = u, con_removed = [], con_added = [], con_prevs = [], con_done = []\<rparr>
           in (case fold_exc (connect_tx L height) txs st of
                 (st, Inl e) \<Rightarrow> (con_index st, Inl e)
               | (st, Inr _) \<Rightarrow>
                   (con_index st, Inr (con_done st, \<lparr>rev_hash = raw_hash b, to_add = con_removed st,
                                                     to_remove = con_added st\<rparr>)))))"

section \<open>Disconnecting a block\<close>

definition restore_prevout :: "'m utxo_lib \<Rightarrow> bytes \<Rightarrow> out_point \<times> coin \<Rightarrow> 'm utxo_index \<Rightarrow> 'm utxo_index" where
  "restore_prevout L block_hash pc u =
     (let (p, c) = pc; k = op_serialize L p; u = put_coin k c (unmark_removed k u)
      in if \<not> (coin_coinbase c \<and> is_bip30_unspendable (coin_height c) block_hash)
         then hash_insert L k c u else u)"

definition drop_output :: "'m utxo_lib \<Rightarrow> bytes \<Rightarrow> out_point \<Rightarrow> 'm utxo_index \<Rightarrow> 'm utxo_index \<times> (exc + unit)" where
  "drop_output L block_hash p u =
     (let k = op_serialize L p;
          taken =
            (if k \<in> removed_utxos u then Inl (ChainstateInconsistencyError ''output already removed'')
             else if map_of (updated_utxo_set u) k \<noteq> None then
               (case spend_staged k u of None \<Rightarrow> Inl KeyError | Some r \<Rightarrow> Inr r)
             else (case kv_get (utxo_db u) (utxo_key k) of
                     Inl e \<Rightarrow> Inl e
                   | Inr v \<Rightarrow>
                       if v = None \<or> v = Some [] then Inl (ChainstateInconsistencyError ''output not found'')
                       else (case Option.bind v (coin_parse L) of
                               None \<Rightarrow> Inl (ChainstateInconsistencyError ''stored utxo- record failed to parse'')
                             | Some c \<Rightarrow> Inr (c, mark_removed k u))))
      in case taken of
           Inl e \<Rightarrow> (u, Inl e)
         | Inr (c, u) \<Rightarrow>
             (if \<not> (coin_coinbase c \<and> is_bip30_unspendable (coin_height c) block_hash)
              then hash_remove L k c u else u, Inr ()))"

definition apply_rev_block :: "'m utxo_lib \<Rightarrow> rev_block \<Rightarrow> 'm utxo_index \<Rightarrow> 'm utxo_index \<times> (exc + unit)" where
  "apply_rev_block L r u =
     fold_exc (drop_output L (rev_hash r)) (to_remove r)
       (fold (restore_prevout L (rev_hash r)) (to_add r) u)"

section \<open>Reading, writing out, rolling back\<close>

definition get_coin :: "'m utxo_lib \<Rightarrow> bytes \<Rightarrow> 'm utxo_index \<Rightarrow> exc + coin option" where
  "get_coin L k u =
     (case map_of (updated_utxo_set u) k of
        Some c \<Rightarrow> Inr (Some c)
      | None \<Rightarrow> if k \<in> removed_utxos u then Inr None else stored_prevout L k u)"

definition utxo_writes :: "'m utxo_lib \<Rightarrow> 'm utxo_index \<Rightarrow> kv_op list" where
  \<comment> \<open>the writes of \<open>finalize\<close>, in order\<close>
  "utxo_writes L u =
     map (\<lambda>k. WDelete (utxo_key k)) (sorted_list_of_set (removed_utxos u))
       @ map (\<lambda>(k, c). WPut (utxo_key k) (coin_serialize L c)) (updated_utxo_set u)
       @ [WPutMeta coin_stats_key (stats_serialize L (coin_stats u))]"

definition utxo_finalize :: "'m utxo_lib \<Rightarrow> 'm utxo_index \<Rightarrow> 'm utxo_index \<times> (exc + unit)" where
  \<comment> \<open>a batch is the store itself, so the writes go to \<open>utxo_db\<close> whether or not one is given\<close>
  "utxo_finalize L u =
     (case kv_writes (utxo_writes L u) (utxo_db u) of
        (Some e, d) \<Rightarrow> (u\<lparr>utxo_db := d\<rparr>, Inl e)
      | (None, d) \<Rightarrow>
          (u\<lparr>utxo_db := d, removed_utxos := {}, updated_utxo_set := [], stored_utxos := {}, undo_log := []\<rparr>, Inr ()))"

definition utxo_wipe :: "'m utxo_lib \<Rightarrow> kv_store \<Rightarrow> exc option \<times> kv_store" where
  "utxo_wipe L d = kv_writes [WDeletePrefix utxo_prefix, WPutMeta coin_stats_key (stats_serialize L (stats_empty L))] d"

definition undo_one :: "'m utxo_lib \<Rightarrow> undo_entry \<Rightarrow> 'm utxo_index \<Rightarrow> 'm utxo_index" where
  "undo_one L entry u =
     (case entry of
        UndoStats was_insert k c \<Rightarrow>
          u\<lparr>coin_stats := (if was_insert then stats_remove L k c (coin_stats u) else stats_insert L k c (coin_stats u))\<rparr>
      | UndoRemoved k prior \<Rightarrow>
          u\<lparr>removed_utxos := (if prior then insert k (removed_utxos u) else removed_utxos u - {k})\<rparr>
      | UndoStored k prior \<Rightarrow>
          u\<lparr>stored_utxos := (if prior then insert k (stored_utxos u) else stored_utxos u - {k})\<rparr>
      | UndoUpdated k None \<Rightarrow> u\<lparr>updated_utxo_set := AList.delete k (updated_utxo_set u)\<rparr>
      | UndoUpdated k (Some c) \<Rightarrow> u\<lparr>updated_utxo_set := AList.update k c (updated_utxo_set u)\<rparr>)"

function rollback :: "'m utxo_lib \<Rightarrow> nat \<Rightarrow> 'm utxo_index \<Rightarrow> 'm utxo_index" where
  "rollback L mark u =
     (if length (undo_log u) > mark
      then rollback L mark (undo_one L (last (undo_log u)) (u\<lparr>undo_log := butlast (undo_log u)\<rparr>))
      else u)"
  by pat_completeness auto

lemma undo_one_log [simp]: "undo_log (undo_one L e u) = undo_log u"
  by (auto simp: undo_one_def split: undo_entry.splits option.splits)

termination rollback
  by (relation "measure (\<lambda>(L, mark, u). length (undo_log u))") auto

declare rollback.simps [simp del]

definition utxo_cursor :: "'m utxo_index \<Rightarrow> exc + pairs" where
  "utxo_cursor u = scan_prefix utxo_prefix (utxo_db u)"

end
