(* ===== verification/Utxo_View.thy ===== *)
theory Utxo_View
  imports Utxo_Index
begin

text \<open>
  What the UTXO index stands for: a map from serialized outpoints to coins, the \<open>view\<close>, read
  through the staged changes over the store.  The invariant \<open>utxo_ok\<close> of the four staging
  containers, and each operation as the map-level step it makes on the view.
\<close>

section \<open>The view and the invariant\<close>

definition stored_coin :: "'m utxo_lib \<Rightarrow> kv_store \<Rightarrow> bytes \<Rightarrow> coin option" where
  "stored_coin L d k = Option.bind (store_get d (utxo_key k)) (coin_parse L)"

definition utxo_view :: "'m utxo_lib \<Rightarrow> 'm utxo_index \<Rightarrow> bytes \<Rightarrow> coin option" where
  "utxo_view L u k =
     (case map_of (updated_utxo_set u) k of
        Some c \<Rightarrow> Some c
      | None \<Rightarrow> if k \<in> removed_utxos u then None else stored_coin L (utxo_db u) k)"

definition records_ok :: "'m utxo_lib \<Rightarrow> kv_store \<Rightarrow> bool" where
  \<comment> \<open>every stored coin parses; no record is empty\<close>
  "records_ok L d \<longleftrightarrow> (\<forall>k v. store_get d (utxo_key k) = Some v \<longrightarrow> v \<noteq> [] \<and> coin_parse L v \<noteq> None)"

definition staged :: "'m utxo_index \<Rightarrow> bytes set" where
  "staged u = dom (map_of (updated_utxo_set u))"

definition on_disk :: "'m utxo_index \<Rightarrow> bytes \<Rightarrow> bool" where
  "on_disk u k \<longleftrightarrow> store_get (utxo_db u) (utxo_key k) \<noteq> None"

text \<open>
  A key is \<open>touched\<close> where staging a coin under it cannot hide a stored record nothing accounts
  for: it is staged already, or marked removed, or not in the store.
\<close>

definition touched :: "'m utxo_index \<Rightarrow> bytes \<Rightarrow> bool" where
  "touched u k \<longleftrightarrow> k \<in> staged u \<or> k \<in> removed_utxos u \<or> \<not> on_disk u k"

definition utxo_ok :: "'m utxo_lib \<Rightarrow> 'm utxo_index \<Rightarrow> bool" where
  "utxo_ok L u \<longleftrightarrow>
     store_open (utxo_db u) \<and> records_ok L (utxo_db u)
     \<and> distinct (map fst (updated_utxo_set u)) \<and> finite (removed_utxos u)
     \<and> removed_utxos u \<inter> staged u = {}
     \<and> stored_utxos u \<subseteq> staged u
     \<and> (\<forall>k\<in>removed_utxos u. on_disk u k)
     \<and> (\<forall>k\<in>staged u. k \<in> stored_utxos u \<longleftrightarrow> on_disk u k)"

named_theorems utxo_defs "the containers of the UTXO index, opened"

lemmas [utxo_defs] = utxo_view_def staged_def on_disk_def touched_def utxo_ok_def

lemma stored_prevout_view:
  assumes "store_open (utxo_db u)"
  shows "stored_prevout L k u = Inr (stored_coin L (utxo_db u) k)"
  using assms
  by (auto simp: stored_prevout_def kv_get_def ensure_open_def store_open_def stored_coin_def store_get_def
      split: option.splits)

lemma get_coin_view: "utxo_ok L u \<Longrightarrow> get_coin L k u = Inr (utxo_view L u k)"
  by (auto simp: get_coin_def utxo_view_def stored_prevout_view utxo_ok_def split: option.splits)

lemma stored_coin_None: "records_ok L d \<Longrightarrow> stored_coin L d k = None \<longleftrightarrow> store_get d (utxo_key k) = None"
  by (cases "store_get d (utxo_key k)") (auto simp: stored_coin_def records_ok_def)

lemma absent_touched: "utxo_ok L u \<Longrightarrow> utxo_view L u k = None \<Longrightarrow> touched u k"
  by (auto simp: utxo_defs stored_coin_None split: option.splits if_splits)

lemma bip30_violation_view:
  assumes "utxo_ok L u"
  shows "bip30_violation k u = Inr (utxo_view L u k \<noteq> None)"
proof -
  have o: "\<not> kv_closed (utxo_db u)" "records_ok L (utxo_db u)" using assms by (auto simp: utxo_ok_def store_open_def)
  have "v \<noteq> [] \<and> coin_parse L v \<noteq> None" if "map_of (kv_data (utxo_db u)) (utxo_key k) = Some v" for v
    using o(2) that by (auto simp: records_ok_def store_get_def)
  moreover have "removed_utxos u \<inter> staged u = {}" using assms by (simp add: utxo_ok_def)
  ultimately show ?thesis
    using o(1) by (auto simp: bip30_violation_def kv_get_def ensure_open_def utxo_view_def stored_coin_def
        store_get_def staged_def split: option.splits)
qed

section \<open>One coin staged, one coin taken\<close>

text \<open>What a step of the index keeps: the invariant, the store, and every touched key.\<close>

definition stepped :: "'m utxo_lib \<Rightarrow> 'm utxo_index \<Rightarrow> 'm utxo_index \<Rightarrow> bool" where
  "stepped L u u' \<longleftrightarrow> utxo_ok L u' \<and> utxo_db u' = utxo_db u \<and> (\<forall>k. touched u k \<longrightarrow> touched u' k)"

lemma stepped_refl: "utxo_ok L u \<Longrightarrow> stepped L u u"
  by (simp add: stepped_def)

lemma stepped_trans: "stepped L u v \<Longrightarrow> stepped L v w \<Longrightarrow> stepped L u w"
  by (simp add: stepped_def)

lemma stepped_ok: "stepped L u v \<Longrightarrow> utxo_ok L v"
  by (simp add: stepped_def)

definition restage :: "bytes \<Rightarrow> coin \<Rightarrow> 'm utxo_index \<Rightarrow> 'm utxo_index" where
  \<comment> \<open>the pair of calls every creation and every restoration makes\<close>
  "restage k c u = put_coin k c (unmark_removed k u)"

lemma restage_sel:
  "utxo_db (restage k c u) = utxo_db u"
  "removed_utxos (restage k c u) = removed_utxos u - {k}"
  "updated_utxo_set (restage k c u) = AList.update k c (updated_utxo_set u)"
  "stored_utxos (restage k c u) = (if k \<in> removed_utxos u then insert k (stored_utxos u) else stored_utxos u)"
  "coin_stats (restage k c u) = coin_stats u"
  by (simp_all add: restage_def put_coin_def unmark_removed_def log_and_set_stored_def Let_def)

lemma staged_restage: "staged (restage k c u) = insert k (staged u)"
  by (auto simp: staged_def restage_sel)

lemma on_disk_restage: "on_disk (restage k c u) = on_disk u"
  by (simp add: on_disk_def restage_sel fun_eq_iff)

lemma restage_steps:
  assumes "utxo_ok L u" "touched u k"
  shows "stepped L u (restage k c u)" "utxo_view L (restage k c u) = (utxo_view L u)(k \<mapsto> c)"
proof -
  have "j \<in> stored_utxos (restage k c u) \<longleftrightarrow> on_disk u j" if "j \<in> staged (restage k c u)" for j
    using that assms by (auto simp: staged_restage restage_sel utxo_ok_def touched_def)
  then show "stepped L u (restage k c u)"
    using assms
    by (auto simp: stepped_def utxo_ok_def touched_def staged_restage on_disk_restage restage_sel
        distinct_update)
  show "utxo_view L (restage k c u) = (utxo_view L u)(k \<mapsto> c)"
    by (auto simp: utxo_view_def restage_sel fun_eq_iff split: option.splits)
qed

text \<open>Taking the coin of a key the view holds, as a spend and as the drop of an output both do.\<close>

definition taken :: "'m utxo_lib \<Rightarrow> bytes \<Rightarrow> 'm utxo_index \<Rightarrow> (coin \<times> 'm utxo_index) option" where
  "taken L k u =
     (if k \<in> removed_utxos u then None
      else if k \<in> staged u then spend_staged k u
      else map_option (\<lambda>c. (c, mark_removed k u)) (stored_coin L (utxo_db u) k))"

lemma taken_None:
  assumes "utxo_ok L u"
  shows "taken L k u = None \<longleftrightarrow> utxo_view L u k = None"
  using assms by (auto simp: taken_def utxo_defs spend_staged_def pop_coin_def split: option.splits)

lemma spend_staged_sel:
  assumes "spend_staged k u = Some (c, u')"
  shows "map_of (updated_utxo_set u) k = Some c" "utxo_db u' = utxo_db u"
    "updated_utxo_set u' = AList.delete k (updated_utxo_set u)"
    "stored_utxos u' = stored_utxos u - {k}" "coin_stats u' = coin_stats u"
    "removed_utxos u' = (if k \<in> stored_utxos u then insert k (removed_utxos u) else removed_utxos u)"
  using assms
  by (auto simp: spend_staged_def pop_coin_def mark_removed_def log_and_set_stored_def split: option.splits if_splits)

lemma taken_steps:
  assumes "utxo_ok L u" "taken L k u = Some (c, u')"
  shows "utxo_view L u k = Some c" "stepped L u u'" "utxo_view L u' = (utxo_view L u)(k := None)"
    "coin_stats u' = coin_stats u"
proof -
  have nr: "k \<notin> removed_utxos u" using assms(2) by (auto simp: taken_def split: if_splits)
  have ok: "removed_utxos u \<inter> staged u = {}" "stored_utxos u \<subseteq> staged u"
    "\<And>j. j \<in> removed_utxos u \<Longrightarrow> on_disk u j" "\<And>j. j \<in> staged u \<Longrightarrow> j \<in> stored_utxos u \<longleftrightarrow> on_disk u j"
    using assms(1) by (auto simp: utxo_ok_def)
  have "utxo_view L u k = Some c \<and> stepped L u u' \<and> utxo_view L u' = (utxo_view L u)(k := None)
      \<and> coin_stats u' = coin_stats u"
  proof (cases "k \<in> staged u")
    case True
    with assms(2) nr have sp: "spend_staged k u = Some (c, u')" by (simp add: taken_def)
    note sel = spend_staged_sel [OF sp]
    have m: "map_of (updated_utxo_set u') = (map_of (updated_utxo_set u))(k := None)"
      using sel(3) by (simp add: delete_conv')
    have st: "staged u' = staged u - {k}" by (auto simp: staged_def m split: if_splits)
    have od: "on_disk u' = on_disk u" by (simp add: on_disk_def sel fun_eq_iff)
    have kod: "k \<in> stored_utxos u \<longleftrightarrow> on_disk u k" using ok(4) True by blast
    have "utxo_ok L u'" using assms(1) ok kod by (auto simp: utxo_ok_def st od sel distinct_delete)
    moreover have "touched u' j" if "touched u j" for j
      using that kod by (auto simp: touched_def st od sel)
    moreover have "stored_coin L (utxo_db u) k = None" if "\<not> on_disk u k"
      using that assms(1) by (simp add: on_disk_def stored_coin_None utxo_ok_def)
    ultimately show ?thesis
      using sel kod by (auto simp: stepped_def utxo_view_def delete_conv' fun_eq_iff split: option.splits if_splits)
  next
    case False
    with assms(2) nr have u': "u' = mark_removed k u" and c: "stored_coin L (utxo_db u) k = Some c"
      by (auto simp: taken_def)
    have kod: "on_disk u k" using c by (cases "store_get (utxo_db u) (utxo_key k)") (auto simp: on_disk_def stored_coin_def)
    have sel: "staged u' = staged u" "on_disk u' = on_disk u" "removed_utxos u' = insert k (removed_utxos u)"
      "stored_utxos u' = stored_utxos u" "updated_utxo_set u' = updated_utxo_set u" "utxo_db u' = utxo_db u"
      "coin_stats u' = coin_stats u"
      by (simp_all add: u' mark_removed_def staged_def on_disk_def fun_eq_iff)
    have "utxo_ok L u'" using assms(1) ok kod False by (auto simp: utxo_ok_def sel)
    moreover have "touched u' j" if "touched u j" for j using that by (auto simp: touched_def sel)
    moreover have "map_of (updated_utxo_set u) k = None" using False by (auto simp: staged_def)
    ultimately show ?thesis
      using sel nr c by (auto simp: stepped_def utxo_view_def fun_eq_iff split: option.splits)
  qed
  then show "utxo_view L u k = Some c" "stepped L u u'" "utxo_view L u' = (utxo_view L u)(k := None)"
    "coin_stats u' = coin_stats u" by blast+
qed

lemma take_prevout_taken:
  assumes "utxo_ok L u"
  shows "(case taken L k u of
      None \<Rightarrow> \<exists>m. take_prevout L k u = Inl (InvalidBlockInputError m)
    | Some r \<Rightarrow> take_prevout L k u = Inr r)"
  using assms
  by (auto simp: taken_def take_prevout_def staged_def stored_prevout_view utxo_ok_def
      spend_staged_def pop_coin_def split: option.splits)

text \<open>The running commitment moves, and nothing else does.\<close>

lemma hash_sel [simp]:
  "utxo_view L (hash_insert L k c u) = utxo_view L u" "utxo_view L (hash_remove L k c u) = utxo_view L u"
  "utxo_ok L (hash_insert L' k c u) = utxo_ok L u" "utxo_ok L (hash_remove L' k c u) = utxo_ok L u"
  "touched (hash_insert L k c u) = touched u" "touched (hash_remove L k c u) = touched u"
  "utxo_db (hash_insert L k c u) = utxo_db u" "utxo_db (hash_remove L k c u) = utxo_db u"
  "coin_stats (hash_insert L k c u) = stats_insert L k c (coin_stats u)"
  "coin_stats (hash_remove L k c u) = stats_remove L k c (coin_stats u)"
  by (auto simp: hash_insert_def hash_remove_def utxo_defs fun_eq_iff split: option.splits)

lemma hash_steps [simp]:
  "stepped L u (hash_insert L' k c v) = stepped L u v" "stepped L u (hash_remove L' k c v) = stepped L u v"
  by (simp_all add: stepped_def)

section \<open>The map-level specification of a block\<close>

fun spec_create :: "'m utxo_lib \<Rightarrow> (out_point \<times> coin) list \<Rightarrow> (bytes \<rightharpoonup> coin) \<Rightarrow> (bytes \<rightharpoonup> coin)" where
  "spec_create L [] m = m"
| "spec_create L ((p, c) # pcs) m =
     spec_create L pcs (if is_unspendable L (out_script (coin_out c)) then m else m(op_serialize L p \<mapsto> c))"

fun spec_spend :: "'m utxo_lib \<Rightarrow> out_point list \<Rightarrow> (bytes \<rightharpoonup> coin) \<Rightarrow> ((bytes \<rightharpoonup> coin) \<times> coin list) option" where
  "spec_spend L [] m = Some (m, [])"
| "spec_spend L (p # ps) m =
     (case m (op_serialize L p) of
        None \<Rightarrow> None
      | Some c \<Rightarrow> (case spec_spend L ps (m(op_serialize L p := None)) of
           None \<Rightarrow> None | Some (m', cs) \<Rightarrow> Some (m', c # cs)))"

fun spec_txs ::
  "'m utxo_lib \<Rightarrow> int \<Rightarrow> block_tx list \<Rightarrow> (bytes \<rightharpoonup> coin) \<Rightarrow> ((bytes \<rightharpoonup> coin) \<times> (coin list \<times> block_tx) list) option" where
  "spec_txs L height [] m = Some (m, [])"
| "spec_txs L height (tx # txs) m =
     (case spec_spend L (tx_vin tx) m of
        None \<Rightarrow> None
      | Some (m', cs) \<Rightarrow>
        (case spec_txs L height txs (spec_create L (created_coins height False tx) m') of
           None \<Rightarrow> None | Some (m'', rest) \<Rightarrow> Some (m'', (cs, tx) # rest)))"

definition block_points :: "raw_block \<Rightarrow> out_point list" where
  "block_points b = concat (map created_points (raw_txs b))"

definition spec_block ::
  "'m utxo_lib \<Rightarrow> raw_block \<Rightarrow> int \<Rightarrow> (bytes \<rightharpoonup> coin) \<Rightarrow> ((bytes \<rightharpoonup> coin) \<times> (coin list \<times> block_tx) list) option" where
  "spec_block L b height m =
     spec_txs L height (tl (raw_txs b)) (spec_create L (created_coins height True (hd (raw_txs b))) m)"

section \<open>The implementation takes the steps of the specification\<close>

lemma stage_added_step:
  assumes "utxo_ok L u" "touched u (op_serialize L p)" "stage_added L h (p, c) (added, u) = (added', u')"
  shows "stepped L u u'" "utxo_view L u' = spec_create L [(p, c)] (utxo_view L u)"
    "added' = added @ (if is_unspendable L (out_script (coin_out c)) then [] else [p])"
  using assms restage_steps [OF assms(1,2), of c]
  by (auto simp: stage_added_def stage_creation_def restage_def [symmetric] Let_def stepped_refl split: if_splits)

lemma spec_create_append: "spec_create L (xs @ ys) m = spec_create L ys (spec_create L xs m)"
  by (induction L xs m rule: spec_create.induct) simp_all

lemma stage_added_all:
  assumes "utxo_ok L u" "\<forall>(p, c)\<in>set pcs. touched u (op_serialize L p)"
    and "fold (stage_added L h) pcs (added, u) = (added', u')"
  shows "stepped L u u' \<and> utxo_view L u' = spec_create L pcs (utxo_view L u)"
  using assms
proof (induction pcs arbitrary: u added)
  case Nil
  then show ?case by (simp add: stepped_refl)
next
  case (Cons pc pcs)
  obtain p c where pc: "pc = (p, c)" by fastforce
  obtain a1 u1 where u1: "stage_added L h pc (added, u) = (a1, u1)" by fastforce
  have t: "touched u (op_serialize L p)" using Cons.prems(2) pc by auto
  note st = stage_added_step [OF Cons.prems(1) t u1 [unfolded pc]]
  have "\<forall>(p, c)\<in>set pcs. touched u1 (op_serialize L p)"
    using Cons.prems(2) st(1) by (auto simp: stepped_def)
  moreover have "fold (stage_added L h) pcs (a1, u1) = (added', u')" using Cons.prems(3) u1 by simp
  ultimately have "stepped L u1 u' \<and> utxo_view L u' = spec_create L pcs (utxo_view L u1)"
    using Cons.IH st(1) stepped_ok by blast
  then show ?case using st(1,2) pc stepped_trans by fastforce
qed

lemma create_outputs_steps:
  assumes "utxo_ok L (con_index st)" "\<forall>(p, c)\<in>set (created_coins height cb tx). touched (con_index st) (op_serialize L p)"
  shows "stepped L (con_index st) (con_index (create_outputs L height cb h tx st))"
    "utxo_view L (con_index (create_outputs L height cb h tx st))
       = spec_create L (created_coins height cb tx) (utxo_view L (con_index st))"
    "con_prevs (create_outputs L height cb h tx st) = con_prevs st"
    "con_done (create_outputs L height cb h tx st) = con_done st"
proof -
  obtain a u where r: "fold (stage_added L h) (created_coins height cb tx) (con_added st, con_index st) = (a, u)"
    by fastforce
  from stage_added_all [OF assms r]
  show "stepped L (con_index st) (con_index (create_outputs L height cb h tx st))"
    "utxo_view L (con_index (create_outputs L height cb h tx st))
       = spec_create L (created_coins height cb tx) (utxo_view L (con_index st))"
    "con_prevs (create_outputs L height cb h tx st) = con_prevs st"
    "con_done (create_outputs L height cb h tx st) = con_done st"
    by (simp_all add: create_outputs_def r)
qed

definition refused_input :: "exc \<Rightarrow> bool" where
  "refused_input e \<longleftrightarrow> (\<exists>m. e = InvalidBlockInputError m)"

lemma spend_input_step:
  assumes "utxo_ok L (con_index st)"
  shows "(case utxo_view L (con_index st) (op_serialize L p) of
      None \<Rightarrow> \<exists>e. spend_input L p st = (st, Inl e) \<and> refused_input e
    | Some c \<Rightarrow> \<exists>st'. spend_input L p st = (st', Inr ()) \<and> stepped L (con_index st) (con_index st')
         \<and> utxo_view L (con_index st') = (utxo_view L (con_index st))(op_serialize L p := None)
         \<and> con_prevs st' = con_prevs st @ [c] \<and> con_done st' = con_done st)"
proof (cases "taken L (op_serialize L p) (con_index st)")
  case None
  with assms have "utxo_view L (con_index st) (op_serialize L p) = None" by (simp add: taken_None)
  then show ?thesis
    using take_prevout_taken [OF assms, of "op_serialize L p"] None
    by (auto simp: spend_input_def Let_def refused_input_def)
next
  case (Some r)
  obtain c u where r: "r = (c, u)" by fastforce
  note t = taken_steps [OF assms Some [unfolded r]]
  have tp: "take_prevout L (op_serialize L p) (con_index st) = Inr (c, u)"
    using take_prevout_taken [OF assms, of "op_serialize L p"] Some r by simp
  have run: "spend_input L p st
      = (st\<lparr>con_index := hash_remove L (op_serialize L p) c u, con_removed := con_removed st @ [(p, c)],
           con_prevs := con_prevs st @ [c]\<rparr>, Inr ())"
    by (simp add: spend_input_def tp)
  show ?thesis unfolding run t(1) using t(2,3) by simp
qed

lemma spend_inputs_steps:
  assumes "utxo_ok L (con_index st)"
  shows "(case spec_spend L ps (utxo_view L (con_index st)) of
      None \<Rightarrow> \<exists>st' e. fold_exc (spend_input L) ps st = (st', Inl e) \<and> refused_input e
         \<and> stepped L (con_index st) (con_index st')
    | Some (m, cs) \<Rightarrow> \<exists>st'. fold_exc (spend_input L) ps st = (st', Inr ()) \<and> stepped L (con_index st) (con_index st')
         \<and> utxo_view L (con_index st') = m \<and> con_prevs st' = con_prevs st @ cs \<and> con_done st' = con_done st)"
  using assms
proof (induction ps arbitrary: st)
  case Nil
  then show ?case by (simp add: stepped_refl)
next
  case (Cons p ps)
  let ?v = "utxo_view L (con_index st)"
  show ?case
  proof (cases "?v (op_serialize L p)")
    case None
    then show ?thesis using spend_input_step [OF Cons.prems, of p] Cons.prems by (auto simp: stepped_refl)
  next
    case (Some c)
    then obtain s1 where s1: "spend_input L p st = (s1, Inr ())" "stepped L (con_index st) (con_index s1)"
      "utxo_view L (con_index s1) = ?v(op_serialize L p := None)" "con_prevs s1 = con_prevs st @ [c]"
      "con_done s1 = con_done st"
      using spend_input_step [OF Cons.prems, of p] by auto
    have ih: "(case spec_spend L ps (?v(op_serialize L p := None)) of
        None \<Rightarrow> \<exists>st' e. fold_exc (spend_input L) ps s1 = (st', Inl e) \<and> refused_input e
           \<and> stepped L (con_index s1) (con_index st')
      | Some (m, cs) \<Rightarrow> \<exists>st'. fold_exc (spend_input L) ps s1 = (st', Inr ()) \<and> stepped L (con_index s1) (con_index st')
           \<and> utxo_view L (con_index st') = m \<and> con_prevs st' = con_prevs s1 @ cs \<and> con_done st' = con_done s1)"
      using Cons.IH [OF stepped_ok [OF s1(2)]] unfolding s1(3) .
    have run: "fold_exc (spend_input L) (p # ps) st = fold_exc (spend_input L) ps s1" using s1(1) by simp
    show ?thesis
    proof (cases "spec_spend L ps (?v(op_serialize L p := None))")
      case None
      with ih obtain t e where t: "fold_exc (spend_input L) ps s1 = (t, Inl e)" "refused_input e"
        "stepped L (con_index s1) (con_index t)" by auto
      have "spec_spend L (p # ps) ?v = None" using None Some by simp
      with t run stepped_trans [OF s1(2) t(3)] show ?thesis by simp
    next
      case r: (Some r)
      obtain m cs where m: "r = (m, cs)" by fastforce
      with ih r obtain t where t: "fold_exc (spend_input L) ps s1 = (t, Inr ())"
        "stepped L (con_index s1) (con_index t)" "utxo_view L (con_index t) = m"
        "con_prevs t = con_prevs s1 @ cs" "con_done t = con_done s1" by auto
      have "spec_spend L (p # ps) ?v = Some (m, c # cs)" using r m Some by simp
      with t run stepped_trans [OF s1(2) t(2)] s1(4,5) show ?thesis by simp
    qed
  qed
qed

lemma connect_txs_steps:
  assumes "utxo_ok L (con_index st)"
    and "\<forall>tx\<in>set txs. \<forall>p\<in>set (created_points tx). touched (con_index st) (op_serialize L p)"
  shows "(case spec_txs L height txs (utxo_view L (con_index st)) of
      None \<Rightarrow> \<exists>st' e. fold_exc (connect_tx L height) txs st = (st', Inl e) \<and> refused_input e
         \<and> stepped L (con_index st) (con_index st')
    | Some (m, ds) \<Rightarrow> \<exists>st'. fold_exc (connect_tx L height) txs st = (st', Inr ())
         \<and> stepped L (con_index st) (con_index st')
         \<and> utxo_view L (con_index st') = m \<and> con_done st' = con_done st @ ds)"
  using assms
proof (induction txs arbitrary: st)
  case Nil
  then show ?case by (simp add: stepped_refl)
next
  case (Cons tx txs)
  let ?v = "utxo_view L (con_index st)" and ?st = "st\<lparr>con_prevs := []\<rparr>"
  have sp: "(case spec_spend L (tx_vin tx) ?v of
      None \<Rightarrow> \<exists>st' e. fold_exc (spend_input L) (tx_vin tx) ?st = (st', Inl e) \<and> refused_input e
         \<and> stepped L (con_index st) (con_index st')
    | Some (m, cs) \<Rightarrow> \<exists>st'. fold_exc (spend_input L) (tx_vin tx) ?st = (st', Inr ())
         \<and> stepped L (con_index st) (con_index st')
         \<and> utxo_view L (con_index st') = m \<and> con_prevs st' = cs \<and> con_done st' = con_done st)"
    using spend_inputs_steps [of L ?st "tx_vin tx"] Cons.prems(1)
    by (cases "spec_spend L (tx_vin tx) ?v") auto
  show ?case
  proof (cases "spec_spend L (tx_vin tx) ?v")
    case None
    with sp show ?thesis by (fastforce simp: connect_tx_def)
  next
    case (Some r)
    obtain m cs where r: "r = (m, cs)" by fastforce
    with sp Some obtain s1 where s1: "fold_exc (spend_input L) (tx_vin tx) ?st = (s1, Inr ())"
      "stepped L (con_index st) (con_index s1)" "utxo_view L (con_index s1) = m" "con_prevs s1 = cs"
      "con_done s1 = con_done st" by auto
    let ?s2 = "create_outputs L height False True tx s1"
    let ?s3 = "?s2\<lparr>con_done := con_done ?s2 @ [(con_prevs ?s2, tx)]\<rparr>"
    have "touched (con_index s1) (op_serialize L p)" if "(p, c) \<in> set (created_coins height False tx)" for p c
    proof -
      have "p \<in> set (created_points tx)" using that by (auto simp: created_coins_def dest: set_zip_leftD)
      then show ?thesis using Cons.prems(2) s1(2) by (auto simp: stepped_def)
    qed
    then have t: "\<forall>(p, c)\<in>set (created_coins height False tx). touched (con_index s1) (op_serialize L p)" by blast
    note co = create_outputs_steps [OF stepped_ok [OF s1(2)] t, of True]
    have run: "connect_tx L height tx st = (?s3, Inr ())" by (simp add: connect_tx_def s1(1) Let_def)
    have st2: "stepped L (con_index st) (con_index ?s3)" using s1(2) co(1) stepped_trans by fastforce
    have tt: "\<forall>tx\<in>set txs. \<forall>p\<in>set (created_points tx). touched (con_index ?s3) (op_serialize L p)"
      using Cons.prems(2) st2 by (auto simp: stepped_def)
    have v3: "utxo_view L (con_index ?s3) = spec_create L (created_coins height False tx) m"
      and d3: "con_done ?s3 = con_done st @ [(cs, tx)]" using co s1 by simp_all
    let ?m = "spec_create L (created_coins height False tx) m"
    note ih = Cons.IH [OF stepped_ok [OF st2] tt, unfolded v3 d3]
    have run': "fold_exc (connect_tx L height) (tx # txs) st = fold_exc (connect_tx L height) txs ?s3"
      using run by simp
    show ?thesis
    proof (cases "spec_txs L height txs ?m")
      case None
      with ih obtain t e where t: "fold_exc (connect_tx L height) txs ?s3 = (t, Inl e)" "refused_input e"
        "stepped L (con_index ?s3) (con_index t)" by auto
      have "spec_txs L height (tx # txs) ?v = None" using None Some r by simp
      with t run' stepped_trans [OF st2 t(3)] show ?thesis by simp
    next
      case q: (Some q)
      obtain n ds where n: "q = (n, ds)" by fastforce
      with ih q obtain t where t: "fold_exc (connect_tx L height) txs ?s3 = (t, Inr ())"
        "stepped L (con_index ?s3) (con_index t)" "utxo_view L (con_index t) = n"
        "con_done t = con_done st @ [(cs, tx)] @ ds" by auto
      have "spec_txs L height (tx # txs) ?v = Some (n, (cs, tx) # ds)" using q n Some r by simp
      with t run' stepped_trans [OF st2 t(2)] show ?thesis by simp
    qed
  qed
qed

lemma check_bip30_view:
  assumes "utxo_ok L u"
  shows "check_bip30 L b u =
    (if \<exists>p\<in>set (block_points b). utxo_view L u (op_serialize L p) \<noteq> None
     then Inl (InvalidBlockInputError ''bad-txns-BIP30'') else Inr ())"
proof -
  have "check_bip30_points L ps u =
      (if \<exists>p\<in>set ps. utxo_view L u (op_serialize L p) \<noteq> None
       then Inl (InvalidBlockInputError ''bad-txns-BIP30'') else Inr ())" for ps
  proof (induction ps)
    case (Cons p ps)
    then show ?case
      by (cases "utxo_view L u (op_serialize L p) = None") (simp_all add: bip30_violation_view [OF assms])
  qed simp
  then show ?thesis by (simp add: check_bip30_def block_points_def)
qed

text \<open>A block whose outputs may be staged: under \<open>bip30\<close> the check guarantees it.\<close>

definition may_stage :: "'m utxo_lib \<Rightarrow> raw_block \<Rightarrow> 'm utxo_index \<Rightarrow> bool" where
  "may_stage L b u \<longleftrightarrow> (\<forall>p\<in>set (block_points b). touched u (op_serialize L p))"

lemma add_block_steps:
  assumes "utxo_ok L u" "raw_txs b \<noteq> []" "may_stage L b u"
    and "bip30 \<longrightarrow> (\<forall>p\<in>set (block_points b). utxo_view L u (op_serialize L p) = None)"
  shows "(case spec_block L b height (utxo_view L u) of
      None \<Rightarrow> \<exists>u' e. add_block L b height bip30 u = (u', Inl e) \<and> refused_input e \<and> stepped L u u'
    | Some (m, ds) \<Rightarrow> \<exists>u' r. add_block L b height bip30 u = (u', Inr (ds, r)) \<and> stepped L u u' \<and> utxo_view L u' = m)"
proof -
  obtain cb txs where txs: "raw_txs b = cb # txs" using assms(2) by (cases "raw_txs b") auto
  let ?h = "\<not> is_bip30_unspendable height (raw_hash b)"
  let ?s0 = "\<lparr>con_index = u, con_removed = [], con_added = [], con_prevs = [], con_done = []\<rparr>"
  let ?st = "create_outputs L height True ?h cb ?s0"
  have tp: "\<forall>tx\<in>set (raw_txs b). \<forall>p\<in>set (created_points tx). touched u (op_serialize L p)"
    using assms(3) by (auto simp: may_stage_def block_points_def)
  have "\<forall>(p, c)\<in>set (created_coins height True cb). touched (con_index ?s0) (op_serialize L p)"
    using tp txs by (auto simp: created_coins_def dest!: set_zip_leftD)
  note co = create_outputs_steps [of L ?s0, OF _ this, of ?h]
  have ok: "utxo_ok L (con_index ?s0)" using assms(1) by simp
  have st: "stepped L u (con_index ?st)" using co(1) [OF ok] by simp
  have v: "utxo_view L (con_index ?st) = spec_create L (created_coins height True cb) (utxo_view L u)"
    using co(2) [OF ok] by simp
  have d: "con_done ?st = []" using co(4) [OF ok] by simp
  have "\<forall>tx\<in>set txs. \<forall>p\<in>set (created_points tx). touched (con_index ?st) (op_serialize L p)"
    using tp txs st by (auto simp: stepped_def)
  note ct = connect_txs_steps [OF stepped_ok [OF st] this, unfolded v d, of height]
  have pre: "(if bip30 then check_bip30 L b u else Inr ()) = Inr ()"
    using assms(4) by (auto simp: check_bip30_view [OF assms(1)])
  have sb: "spec_block L b height (utxo_view L u)
      = spec_txs L height txs (spec_create L (created_coins height True cb) (utxo_view L u))"
    by (simp add: spec_block_def txs)
  have run: "add_block L b height bip30 u =
      (case fold_exc (connect_tx L height) txs ?st of
         (st, Inl e) \<Rightarrow> (con_index st, Inl e)
       | (st, Inr _) \<Rightarrow> (con_index st, Inr (con_done st, \<lparr>rev_hash = raw_hash b, to_add = con_removed st,
                                                      to_remove = con_added st\<rparr>)))"
    by (simp add: add_block_def pre txs Let_def)
  show ?thesis
  proof (cases "spec_txs L height txs (spec_create L (created_coins height True cb) (utxo_view L u))")
    case None
    with ct obtain t e where "fold_exc (connect_tx L height) txs ?st = (t, Inl e)" "refused_input e"
      "stepped L (con_index ?st) (con_index t)" by auto
    then show ?thesis unfolding sb None using run stepped_trans [OF st] by simp
  next
    case (Some r)
    obtain m ds where r: "r = (m, ds)" by fastforce
    with ct Some obtain t where "fold_exc (connect_tx L height) txs ?st = (t, Inr ())"
      "stepped L (con_index ?st) (con_index t)" "utxo_view L (con_index t) = m" "con_done t = ds" by auto
    then show ?thesis unfolding sb Some r using run stepped_trans [OF st] by simp
  qed
qed

end
