(* ===== verification/Utxo_Undo.thy ===== *)
theory Utxo_Undo
  imports Utxo_View
begin

text \<open>
  Disconnecting a block: what \<open>add_block\<close> records in the undo block is enough for
  \<open>apply_rev_block\<close> to bring back the coins and the running commitment, whatever was connected,
  disconnected or written out in between, as long as the set is the one the block left.
\<close>

section \<open>What the undo block would restore\<close>

definition exempt :: "bytes \<Rightarrow> coin \<Rightarrow> bool" where
  "exempt block_hash c \<longleftrightarrow> coin_coinbase c \<and> is_bip30_unspendable (coin_height c) block_hash"

definition restored :: "'m utxo_lib \<Rightarrow> (out_point \<times> coin) list \<Rightarrow> (bytes \<rightharpoonup> coin) \<Rightarrow> (bytes \<rightharpoonup> coin)" where
  "restored L rm m = fold (\<lambda>(p, c) m. m(op_serialize L p \<mapsto> c)) rm m"

definition restored_stats :: "'m utxo_lib \<Rightarrow> (out_point \<times> coin) list \<Rightarrow> 'm \<Rightarrow> 'm" where
  "restored_stats L rm s = fold (\<lambda>(p, c). stats_insert L (op_serialize L p) c) rm s"

definition drop_stats :: "'m utxo_lib \<Rightarrow> bytes \<Rightarrow> (bytes \<rightharpoonup> coin) \<Rightarrow> out_point \<Rightarrow> 'm \<Rightarrow> 'm" where
  "drop_stats L h m p s =
     (let c = the (m (op_serialize L p)) in if exempt h c then s else stats_remove L (op_serialize L p) c s)"

definition stats_laws :: "'m utxo_lib \<Rightarrow> bool" where
  \<comment> \<open>the commitment is order-free, and a removal undoes an insertion\<close>
  "stats_laws L \<longleftrightarrow>
     (\<forall>k c k' c' s. stats_insert L k c (stats_insert L k' c' s) = stats_insert L k' c' (stats_insert L k c s))
     \<and> (\<forall>k c k' c' s. stats_remove L k c (stats_insert L k' c' s) = stats_insert L k' c' (stats_remove L k c s))
     \<and> (\<forall>k c s. stats_remove L k c (stats_insert L k c s) = s)"

lemma stats_lawsD:
  assumes "stats_laws L"
  shows "stats_insert L k c (stats_insert L k' c' s) = stats_insert L k' c' (stats_insert L k c s)"
    "stats_remove L k c (stats_insert L k' c' s) = stats_insert L k' c' (stats_remove L k c s)"
    "stats_remove L k c (stats_insert L k c s) = s" "stats_insert L k c (stats_remove L k c s) = s"
  using assms unfolding stats_laws_def by metis+

lemma restored_map_add: "restored L rm m = m ++ map_of (rev (map (\<lambda>(p, c). (op_serialize L p, c)) rm))"
proof (induction rm rule: rev_induct)
  case (snoc a rm)
  obtain p c where a: "a = (p, c)" by fastforce
  have "restored L (rm @ [a]) m = (restored L rm m)(op_serialize L p \<mapsto> c)" by (simp add: restored_def a)
  then show ?case unfolding snoc by (auto simp: a fun_eq_iff map_add_def)
qed (simp add: restored_def)

lemma map_of_restored_None:
  "map_of (rev (map (\<lambda>(p, c). (op_serialize L p, c)) rm)) k = None \<longleftrightarrow> k \<notin> (\<lambda>(p, c). op_serialize L p) ` set rm"
  by (force simp: map_of_eq_None_iff)

lemma restored_None: "restored L rm m k = None \<longleftrightarrow> m k = None \<and> k \<notin> (\<lambda>(p, c). op_serialize L p) ` set rm"
  by (auto simp: restored_map_add map_of_restored_None)

lemma restored_append: "restored L (rm @ [(p, c)]) m = (restored L rm m)(op_serialize L p \<mapsto> c)"
  by (simp add: restored_def)

lemma restored_other: "k \<notin> (\<lambda>(p, c). op_serialize L p) ` set rm \<Longrightarrow> restored L rm m k = m k"
  unfolding map_of_restored_None [symmetric] restored_map_add by (simp add: map_add_def)

lemma restored_upd: "restored L rm (m(k := x)) j = (if j = k \<and> k \<notin> (\<lambda>(p, c). op_serialize L p) ` set rm then x else restored L rm m j)"
  unfolding map_of_restored_None [symmetric] restored_map_add by (auto simp: map_add_def split: option.splits)

lemma restored_stats_insert:
  "stats_laws L \<Longrightarrow> restored_stats L rm (stats_insert L k c s) = stats_insert L k c (restored_stats L rm s)"
  by (induction rm arbitrary: s) (auto simp: restored_stats_def stats_lawsD(1) [of L _ _ k])

lemma restored_stats_remove:
  "stats_laws L \<Longrightarrow> restored_stats L rm (stats_remove L k c s) = stats_remove L k c (restored_stats L rm s)"
  by (induction rm arbitrary: s) (auto simp: restored_stats_def stats_lawsD(2) [symmetric])

lemma drop_stats_insert:
  "stats_laws L \<Longrightarrow> fold (drop_stats L h m) ps (stats_insert L k c s) = stats_insert L k c (fold (drop_stats L h m) ps s)"
  by (induction ps arbitrary: s) (auto simp: drop_stats_def Let_def stats_lawsD(2))

section \<open>The commitment to a set of coins\<close>

definition commitment :: "'m utxo_lib \<Rightarrow> (bytes \<rightharpoonup> coin) \<Rightarrow> 'm" where
  \<comment> \<open>the coins of the set inserted one by one, in any order\<close>
  "commitment L m = Finite_Set.fold (\<lambda>k. stats_insert L k (the (m k))) (stats_empty L) (dom m)"

lemma commitment_insert:
  assumes "stats_laws L" "finite (dom m)" "m k = None"
  shows "commitment L (m(k \<mapsto> c)) = stats_insert L k c (commitment L m)"
proof -
  let ?f = "\<lambda>j. stats_insert L j (the ((m(k \<mapsto> c)) j))"
  have comm: "comp_fun_commute_on UNIV ?f"
    using stats_lawsD(1) [OF assms(1)] by unfold_locales (auto simp: fun_eq_iff)
  have "commitment L (m(k \<mapsto> c)) = Finite_Set.fold ?f (stats_empty L) (insert k (dom m))"
    by (simp add: commitment_def)
  also have "\<dots> = ?f k (Finite_Set.fold ?f (stats_empty L) (dom m))"
    using assms(2,3) by (intro comp_fun_commute_on.fold_insert [OF comm]) auto
  also have "Finite_Set.fold ?f (stats_empty L) (dom m) = commitment L m"
    unfolding commitment_def
    by (intro Finite_Set.fold_cong [where S = UNIV] comp_fun_commute_on.intro)
      (use assms stats_lawsD(1) [OF assms(1)] in \<open>auto simp: fun_eq_iff\<close>)
  finally show ?thesis unfolding fun_upd_same option.sel .
qed

lemma commitment_remove:
  assumes "stats_laws L" "finite (dom m)" "m k = Some c"
  shows "commitment L (m(k := None)) = stats_remove L k c (commitment L m)"
proof -
  have "(m(k := None))(k \<mapsto> c) = m" using assms(3) by auto
  with commitment_insert [OF assms(1), of "m(k := None)" k c] assms(2)
  have "commitment L m = stats_insert L k c (commitment L (m(k := None)))" by simp
  then show ?thesis by (simp add: stats_lawsD(3) [OF assms(1)])
qed

lemma finite_view: "finite (dom (utxo_view L u))"
proof (rule finite_subset)
  show "dom (utxo_view L u) \<subseteq> staged u \<union> utxo_key -` dom (store_get (utxo_db u))"
    by (auto simp: utxo_view_def staged_def stored_coin_def split: option.splits if_splits bind_splits)
  have "inj utxo_key" by (auto simp: inj_def utxo_key_def)
  moreover have "store_get (utxo_db u) = map_of (kv_data (utxo_db u))" by (simp add: store_get_def fun_eq_iff)
  ultimately show "finite (staged u \<union> utxo_key -` dom (store_get (utxo_db u)))"
    by (simp add: staged_def finite_dom_map_of finite_vimageI)
qed

section \<open>The invariant of \<open>add_block\<close>\<close>

definition undo_good :: "'m utxo_lib \<Rightarrow> bytes \<Rightarrow> (bytes \<rightharpoonup> coin) \<Rightarrow> (out_point \<times> coin) list \<Rightarrow> out_point list \<Rightarrow> bool" where
  \<comment> \<open>what is created is new and distinct, and no coin of an exempt coinbase is spent\<close>
  "undo_good L h m0 rm added \<longleftrightarrow>
     distinct (map (op_serialize L) added) \<and> (\<forall>p\<in>set added. m0 (op_serialize L p) = None)
     \<and> (\<forall>(p, c)\<in>set rm. \<not> exempt h c)"

definition undo_inv ::
  "'m utxo_lib \<Rightarrow> bytes \<Rightarrow> (bytes \<rightharpoonup> coin) \<Rightarrow> 'm \<Rightarrow> (out_point \<times> coin) list \<Rightarrow> out_point list \<Rightarrow> 'm utxo_index \<Rightarrow> bool" where
  "undo_inv L h m0 s0 rm added u \<longleftrightarrow>
     (let m = utxo_view L u; r = restored L rm m in
      utxo_ok L u \<and> (\<forall>(p, c)\<in>set rm. m (op_serialize L p) = None)
      \<and> (\<forall>p\<in>set added. r (op_serialize L p) \<noteq> None)
      \<and> (\<forall>k. k \<notin> op_serialize L ` set added \<longrightarrow> r k = m0 k)
      \<and> fold (drop_stats L h r) added (restored_stats L rm (coin_stats u)) = s0
      \<and> (s0 = commitment L m0 \<and> h \<notin> snd ` bip30_unspendable_originals \<longrightarrow> coin_stats u = commitment L m))"

lemma undo_inv_spend:
  assumes "stats_laws L" "undo_inv L h m0 s0 rm added u"
    and "taken L (op_serialize L p) u = Some (c, u')"
  shows "undo_inv L h m0 s0 (rm @ [(p, c)]) added (hash_remove L (op_serialize L p) c u')"
proof -
  let ?k = "op_serialize L p" and ?m = "utxo_view L u"
  have ok: "utxo_ok L u" using assms(2) by (simp add: undo_inv_def Let_def)
  note t = taken_steps [OF ok assms(3)]
  have nk: "?k \<notin> (\<lambda>(p, c). op_serialize L p) ` set rm"
    using assms(2) t(1) by (fastforce simp: undo_inv_def Let_def)
  have r: "restored L (rm @ [(p, c)]) (?m(?k := None)) = restored L rm ?m"
    using restored_other [OF nk, of ?m] t(1) by (auto simp: restored_append restored_upd fun_eq_iff)
  have s: "restored_stats L (rm @ [(p, c)]) (stats_remove L ?k c (coin_stats u)) = restored_stats L rm (coin_stats u)"
    using restored_stats_remove [OF assms(1), of rm ?k c "coin_stats u"] stats_lawsD(4) [OF assms(1)]
    by (simp add: restored_stats_def)
  have cm: "commitment L (?m(?k := None)) = stats_remove L ?k c (commitment L ?m)"
    using commitment_remove [OF assms(1) finite_view t(1)] .
  have "utxo_ok L u'" using t(2) stepped_ok by blast
  moreover have "\<forall>(p, c)\<in>set rm. ?m (op_serialize L p) = None" using assms(2) by (simp add: undo_inv_def Let_def)
  then have "\<forall>(p', c')\<in>set (rm @ [(p, c)]). (?m(?k := None)) (op_serialize L p') = None" by auto
  ultimately show ?thesis
    using assms(2) unfolding undo_inv_def Let_def hash_sel t(3,4) r s cm by metis
qed

lemma undo_inv_create:
  assumes "stats_laws L" "undo_inv L h m0 s0 rm added u" "hash_it \<longleftrightarrow> \<not> exempt h c"
    and "op_serialize L p \<notin> op_serialize L ` set added" "m0 (op_serialize L p) = None"
  shows "undo_inv L h m0 s0 rm (added @ [p])
    (if hash_it then hash_insert L (op_serialize L p) c (restage (op_serialize L p) c u)
     else restage (op_serialize L p) c u)" (is "undo_inv L h m0 s0 rm _ ?u")
proof -
  let ?k = "op_serialize L p" and ?m = "utxo_view L u" and ?r = "restored L rm (utxo_view L u)"
  have ok: "utxo_ok L u" using assms(2) by (simp add: undo_inv_def Let_def)
  have "?r ?k = None" using assms(2,4,5) by (simp add: undo_inv_def Let_def)
  then have mk: "?m ?k = None" and nk: "?k \<notin> (\<lambda>(p, c). op_serialize L p) ` set rm"
    unfolding restored_None by blast+
  note st = restage_steps [OF ok absent_touched [OF ok mk], of c]
  have r: "restored L rm (?m(?k \<mapsto> c)) = ?r(?k \<mapsto> c)"
    using nk by (auto simp: restored_upd fun_eq_iff)
  have same: "fold (drop_stats L h (?r(?k \<mapsto> c))) added s = fold (drop_stats L h ?r) added s" for s
    using assms(4) by (intro fold_cong) (auto simp: drop_stats_def image_iff fun_eq_iff)
  have s: "fold (drop_stats L h (?r(?k \<mapsto> c))) (added @ [p]) (restored_stats L rm (coin_stats ?u))
      = fold (drop_stats L h ?r) added (restored_stats L rm (coin_stats u))"
    using assms(3)
    by (simp add: same restage_sel restored_stats_insert [OF assms(1)] drop_stats_insert [OF assms(1)]
        drop_stats_def [of L h _ p] stats_lawsD(3) [OF assms(1)])
  have v: "utxo_view L ?u = ?m(?k \<mapsto> c)" using st(2) by simp
  have "coin_stats ?u = commitment L (?m(?k \<mapsto> c))"
    if "h \<notin> snd ` bip30_unspendable_originals" "coin_stats u = commitment L ?m"
  proof -
    have "hash_it" using that(1) assms(3) by (auto simp: exempt_def is_bip30_unspendable_def image_iff)
    then show ?thesis
      using that(2) commitment_insert [OF assms(1) finite_view mk] by (simp add: restage_sel)
  qed
  then have cm: "s0 = commitment L m0 \<and> h \<notin> snd ` bip30_unspendable_originals
      \<longrightarrow> coin_stats ?u = commitment L (?m(?k \<mapsto> c))"
    using assms(2) by (auto simp: undo_inv_def Let_def)
  have "utxo_ok L ?u" using st(1) stepped_ok by simp
  moreover have "op_serialize L q \<noteq> ?k" if "(q, c') \<in> set rm" for q c' using nk that by force
  then have "\<forall>(q, c')\<in>set rm. (?m(?k \<mapsto> c)) (op_serialize L q) = None"
    using assms(2) by (auto simp: undo_inv_def Let_def)
  moreover have "\<forall>q\<in>set (added @ [p]). (?r(?k \<mapsto> c)) (op_serialize L q) \<noteq> None"
    "\<forall>j. j \<notin> op_serialize L ` set (added @ [p]) \<longrightarrow> (?r(?k \<mapsto> c)) j = m0 j"
    using assms(2) by (auto simp: undo_inv_def Let_def)
  ultimately show ?thesis
    using assms(2) cm unfolding undo_inv_def Let_def v r s by blast
qed

definition undo_keeps ::
  "'m utxo_lib \<Rightarrow> bytes \<Rightarrow> (bytes \<rightharpoonup> coin) \<Rightarrow> 'm \<Rightarrow> (out_point \<times> coin) list \<Rightarrow> out_point list \<Rightarrow> 'm utxo_index \<Rightarrow> bool" where
  "undo_keeps L h m0 s0 rm added u \<longleftrightarrow> (undo_good L h m0 rm added \<longrightarrow> undo_inv L h m0 s0 rm added u)"

lemma undo_keeps_stage:
  assumes "stats_laws L" "undo_keeps L h m0 s0 rm added u" "\<forall>(p, c)\<in>set pcs. hash_it \<longleftrightarrow> \<not> exempt h c"
    and "fold (stage_added L hash_it) pcs (added, u) = (added', u')"
  shows "undo_keeps L h m0 s0 rm added' u'"
  using assms(2-)
proof (induction pcs arbitrary: added u)
  case (Cons pc pcs)
  obtain p c where pc: "pc = (p, c)" by fastforce
  obtain a1 u1 where s: "stage_added L hash_it pc (added, u) = (a1, u1)" by fastforce
  have "undo_keeps L h m0 s0 rm a1 u1"
  proof (cases "is_unspendable L (out_script (coin_out c))")
    case True
    with s Cons.prems(1) show ?thesis by (simp add: stage_added_def stage_creation_def pc)
  next
    case False
    let ?u = "if hash_it then hash_insert L (op_serialize L p) c (restage (op_serialize L p) c u)
      else restage (op_serialize L p) c u"
    have eq: "a1 = added @ [p]" "u1 = ?u"
      using s False by (auto simp: stage_added_def stage_creation_def pc Let_def restage_def split: if_splits)
    have h: "hash_it \<longleftrightarrow> \<not> exempt h c" using Cons.prems(2) pc by simp
    show ?thesis
    proof (unfold undo_keeps_def eq, intro impI)
      assume g: "undo_good L h m0 rm (added @ [p])"
      then have "undo_good L h m0 rm added" by (auto simp: undo_good_def)
      then have "undo_inv L h m0 s0 rm added u" using Cons.prems(1) by (simp add: undo_keeps_def)
      from undo_inv_create [OF assms(1) this h] g
      show "undo_inv L h m0 s0 rm (added @ [p]) ?u" by (auto simp: undo_good_def)
    qed
  qed
  moreover have "fold (stage_added L hash_it) pcs (a1, u1) = (added', u')" using Cons.prems(3) s by simp
  ultimately show ?case using Cons.IH Cons.prems(2) by auto
qed simp

definition undo_con :: "'m utxo_lib \<Rightarrow> bytes \<Rightarrow> (bytes \<rightharpoonup> coin) \<Rightarrow> 'm \<Rightarrow> 'm connecting \<Rightarrow> bool" where
  "undo_con L h m0 s0 st \<longleftrightarrow> undo_keeps L h m0 s0 (con_removed st) (con_added st) (con_index st)"

lemma undo_con_spend:
  assumes "stats_laws L" "undo_con L h m0 s0 st" "spend_input L p st = (st', Inr ())"
  shows "undo_con L h m0 s0 st'"
proof (unfold undo_con_def undo_keeps_def, intro impI)
  assume g: "undo_good L h m0 (con_removed st') (con_added st')"
  obtain c u where tp: "take_prevout L (op_serialize L p) (con_index st) = Inr (c, u)"
    and st': "st' = st\<lparr>con_index := hash_remove L (op_serialize L p) c u,
        con_removed := con_removed st @ [(p, c)], con_prevs := con_prevs st @ [c]\<rparr>"
    using assms(3) by (auto simp: spend_input_def Let_def split: sum.splits)
  have "undo_good L h m0 (con_removed st) (con_added st)" using g st' by (simp add: undo_good_def)
  then have inv: "undo_inv L h m0 s0 (con_removed st) (con_added st) (con_index st)"
    using assms(2) by (simp add: undo_con_def undo_keeps_def)
  then have "utxo_ok L (con_index st)" by (simp add: undo_inv_def Let_def)
  from take_prevout_taken [OF this, of "op_serialize L p"] tp
  have "taken L (op_serialize L p) (con_index st) = Some (c, u)" by (auto split: option.splits)
  from undo_inv_spend [OF assms(1) inv this] st'
  show "undo_inv L h m0 s0 (con_removed st') (con_added st') (con_index st')" by simp
qed

lemma undo_con_create:
  assumes "stats_laws L" "undo_con L h m0 s0 st" "hash_it \<longleftrightarrow> \<not> (cb \<and> is_bip30_unspendable height h)"
  shows "undo_con L h m0 s0 (create_outputs L height cb hash_it tx st)"
proof -
  obtain a u where r: "fold (stage_added L hash_it) (created_coins height cb tx) (con_added st, con_index st) = (a, u)"
    by fastforce
  have "\<forall>(p, c)\<in>set (created_coins height cb tx). hash_it \<longleftrightarrow> \<not> exempt h c"
    using assms(3) by (auto simp: created_coins_def exempt_def dest!: set_zip_rightD)
  from undo_keeps_stage [OF assms(1) _ this r] assms(2) show ?thesis
    by (simp add: undo_con_def create_outputs_def r)
qed

lemma undo_con_connect:
  assumes "stats_laws L" "undo_con L h m0 s0 st" "connect_tx L height tx st = (st', Inr ())"
  shows "undo_con L h m0 s0 st'"
proof -
  obtain s1 where s1: "fold_exc (spend_input L) (tx_vin tx) (st\<lparr>con_prevs := []\<rparr>) = (s1, Inr ())"
    and st': "st' = (let s = create_outputs L height False True tx s1 in s\<lparr>con_done := con_done s @ [(con_prevs s, tx)]\<rparr>)"
    using assms(3) by (auto simp: connect_tx_def Let_def split: prod.splits sum.splits)
  have "undo_con L h m0 s0 s1"
    using s1
  proof (rule fold_exc_keeps)
    show "undo_con L h m0 s0 (st\<lparr>con_prevs := []\<rparr>)" using assms(2) by (simp add: undo_con_def)
  qed (rule undo_con_spend [OF assms(1)])
  from undo_con_create [OF assms(1) this, of True False height tx] show ?thesis
    by (simp add: st' undo_con_def Let_def)
qed

lemma add_block_undo_inv:
  assumes "stats_laws L" "utxo_ok L u" "add_block L b height bip30 u = (u1, Inr (ds, r))"
  shows "rev_hash r = raw_hash b \<and> undo_keeps L (raw_hash b) (utxo_view L u) (coin_stats u) (to_add r) (to_remove r) u1"
proof -
  let ?s0 = "\<lparr>con_index = u, con_removed = [], con_added = [], con_prevs = [], con_done = []\<rparr>"
  obtain cb txs where txs: "raw_txs b = cb # txs"
    using assms(3) by (cases "raw_txs b") (auto simp: add_block_def split: sum.splits if_splits)
  let ?st = "create_outputs L height True (\<not> is_bip30_unspendable height (raw_hash b)) cb ?s0"
  obtain t where t: "fold_exc (connect_tx L height) txs ?st = (t, Inr ())" "u1 = con_index t"
    "r = \<lparr>rev_hash = raw_hash b, to_add = con_removed t, to_remove = con_added t\<rparr>"
  proof -
    have "(if bip30 then check_bip30 L b u else Inr ()) = Inr ()"
      using assms(3) by (cases "if bip30 then check_bip30 L b u else Inr ()") (auto simp: add_block_def)
    then have run: "add_block L b height bip30 u =
      (case fold_exc (connect_tx L height) txs ?st of
         (st, Inl e) \<Rightarrow> (con_index st, Inl e)
       | (st, Inr _) \<Rightarrow> (con_index st, Inr (con_done st, \<lparr>rev_hash = raw_hash b, to_add = con_removed st,
                                                      to_remove = con_added st\<rparr>)))"
      by (simp add: add_block_def txs Let_def)
    obtain t q where t: "fold_exc (connect_tx L height) txs ?st = (t, q)" by fastforce
    show ?thesis
    proof (cases q)
      case (Inl e)
      then show ?thesis using assms(3) unfolding run t by simp
    next
      case (Inr x)
      then show ?thesis using that [of t] assms(3) t unfolding run by simp
    qed
  qed
  have "undo_con L (raw_hash b) (utxo_view L u) (coin_stats u) ?s0"
    using assms(2) by (simp add: undo_con_def undo_keeps_def undo_inv_def restored_def restored_stats_def Let_def)
  then have st: "undo_con L (raw_hash b) (utxo_view L u) (coin_stats u) ?st"
    by (rule undo_con_create [OF assms(1)]) simp
  have "undo_con L (raw_hash b) (utxo_view L u) (coin_stats u) t"
    using t(1) st by (rule fold_exc_keeps) (rule undo_con_connect [OF assms(1)])
  then show ?thesis by (simp add: t undo_con_def)
qed

section \<open>Applying the undo block\<close>

lemma restore_prevout_restage:
  "restore_prevout L h (p, c) u =
     (if exempt h c then restage (op_serialize L p) c u
      else hash_insert L (op_serialize L p) c (restage (op_serialize L p) c u))"
  by (simp add: restore_prevout_def restage_def exempt_def Let_def)

lemma restore_all:
  assumes "utxo_ok L u" "\<forall>(p, c)\<in>set rm. touched u (op_serialize L p) \<and> \<not> exempt h c"
  shows "stepped L u (fold (restore_prevout L h) rm u)
    \<and> utxo_view L (fold (restore_prevout L h) rm u) = restored L rm (utxo_view L u)
    \<and> coin_stats (fold (restore_prevout L h) rm u) = restored_stats L rm (coin_stats u)"
  using assms
proof (induction rm arbitrary: u)
  case Nil
  then show ?case by (simp add: stepped_refl restored_def restored_stats_def)
next
  case (Cons pc rm)
  obtain p c where pc: "pc = (p, c)" by fastforce
  let ?k = "op_serialize L p" and ?u = "restore_prevout L h pc u"
  have n: "touched u ?k" "\<not> exempt h c" using Cons.prems(2) pc by auto
  note st = restage_steps [OF Cons.prems(1) n(1), of c]
  have u: "?u = hash_insert L ?k c (restage ?k c u)" using n(2) by (simp add: pc restore_prevout_restage)
  have su: "stepped L u ?u" "utxo_view L ?u = (utxo_view L u)(?k \<mapsto> c)"
    "coin_stats ?u = stats_insert L ?k c (coin_stats u)"
    using st by (simp_all add: u restage_sel)
  have "\<forall>(p, c)\<in>set rm. touched ?u (op_serialize L p) \<and> \<not> exempt h c"
    using Cons.prems(2) su(1) by (auto simp: stepped_def)
  note ih = Cons.IH [OF stepped_ok [OF su(1)] this]
  have r: "restored L (pc # rm) (utxo_view L u) = restored L rm ((utxo_view L u)(?k \<mapsto> c))"
    "restored_stats L (pc # rm) (coin_stats u) = restored_stats L rm (stats_insert L ?k c (coin_stats u))"
    by (simp_all add: restored_def restored_stats_def pc)
  have "fold (restore_prevout L h) (pc # rm) u = fold (restore_prevout L h) rm ?u" by simp
  then show ?case using ih stepped_trans [OF su(1)] unfolding r su(2,3) by metis
qed

lemma drop_output_taken:
  assumes "utxo_ok L u"
  shows "(case taken L (op_serialize L p) u of
      None \<Rightarrow> \<exists>m. drop_output L h p u = (u, Inl (ChainstateInconsistencyError m))
    | Some (c, u') \<Rightarrow>
        drop_output L h p u = (if exempt h c then u' else hash_remove L (op_serialize L p) c u', Inr ()))"
proof -
  let ?k = "op_serialize L p"
  have o: "\<not> kv_closed (utxo_db u)" "records_ok L (utxo_db u)" using assms by (auto simp: utxo_ok_def store_open_def)
  have v: "v \<noteq> [] \<and> coin_parse L v \<noteq> None" if "map_of (kv_data (utxo_db u)) (utxo_key ?k) = Some v" for v
    using o(2) that by (auto simp: records_ok_def store_get_def)
  show ?thesis
  proof (cases "?k \<in> removed_utxos u")
    case True
    then show ?thesis by (simp add: taken_def drop_output_def)
  next
    case False
    show ?thesis
    proof (cases "?k \<in> staged u")
      case True
      then obtain c where "map_of (updated_utxo_set u) ?k = Some c" by (auto simp: staged_def)
      then show ?thesis
        using False True by (simp add: taken_def drop_output_def spend_staged_def pop_coin_def exempt_def Let_def)
    next
      case ns: False
      then have m: "map_of (updated_utxo_set u) ?k = None" by (auto simp: staged_def)
      show ?thesis
      proof (cases "map_of (kv_data (utxo_db u)) (utxo_key ?k)")
        case None
        then show ?thesis
          using False ns m o(1)
          by (simp add: taken_def drop_output_def kv_get_def ensure_open_def stored_coin_def store_get_def Let_def)
      next
        case (Some w)
        with v obtain c where "w \<noteq> []" "coin_parse L w = Some c" by auto
        then show ?thesis
          using False ns m o(1) Some
          by (simp add: taken_def drop_output_def kv_get_def ensure_open_def stored_coin_def store_get_def exempt_def Let_def)
      qed
    qed
  qed
qed

lemma drop_output_step:
  assumes "utxo_ok L u" "utxo_view L u (op_serialize L p) \<noteq> None"
  shows "\<exists>u'. drop_output L h p u = (u', Inr ()) \<and> stepped L u u'
    \<and> utxo_view L u' = (utxo_view L u)(op_serialize L p := None)
    \<and> coin_stats u' = drop_stats L h (utxo_view L u) p (coin_stats u)"
proof -
  have "taken L (op_serialize L p) u \<noteq> None" using taken_None [OF assms(1)] assms(2) by simp
  then obtain c u' where t: "taken L (op_serialize L p) u = Some (c, u')" by fastforce
  note st = taken_steps [OF assms(1) t]
  show ?thesis
    using drop_output_taken [OF assms(1), where p = p and h = h] t st by (simp add: drop_stats_def)
qed

lemma drop_all:
  assumes "utxo_ok L u" "distinct (map (op_serialize L) ps)" "\<forall>p\<in>set ps. utxo_view L u (op_serialize L p) \<noteq> None"
  shows "\<exists>u'. fold_exc (drop_output L h) ps u = (u', Inr ()) \<and> stepped L u u'
    \<and> utxo_view L u' = (\<lambda>k. if k \<in> op_serialize L ` set ps then None else utxo_view L u k)
    \<and> coin_stats u' = fold (drop_stats L h (utxo_view L u)) ps (coin_stats u)"
  using assms
proof (induction ps arbitrary: u)
  case Nil
  then show ?case by (simp add: stepped_refl)
next
  case (Cons p ps)
  let ?m = "utxo_view L u"
  obtain u1 where u1: "drop_output L h p u = (u1, Inr ())" "stepped L u u1"
    "utxo_view L u1 = ?m(op_serialize L p := None)" "coin_stats u1 = drop_stats L h ?m p (coin_stats u)"
    using drop_output_step [OF Cons.prems(1), where p = p and h = h] Cons.prems(3) by auto
  have "\<forall>q\<in>set ps. utxo_view L u1 (op_serialize L q) \<noteq> None"
    using Cons.prems(2,3) u1(3) by (auto simp: image_iff)
  with Cons.IH [OF stepped_ok [OF u1(2)]] Cons.prems(2)
  obtain u2 where u2: "fold_exc (drop_output L h) ps u1 = (u2, Inr ())" "stepped L u1 u2"
    "utxo_view L u2 = (\<lambda>k. if k \<in> op_serialize L ` set ps then None else utxo_view L u1 k)"
    "coin_stats u2 = fold (drop_stats L h (utxo_view L u1)) ps (coin_stats u1)" by auto
  have "fold (drop_stats L h (utxo_view L u1)) ps s = fold (drop_stats L h ?m) ps s" for s
    using Cons.prems(2) by (intro fold_cong) (auto simp: u1(3) drop_stats_def image_iff fun_eq_iff)
  with u1 u2 stepped_trans [OF u1(2) u2(2)] show ?case
    by (intro exI [of _ u2]) (auto simp: fun_eq_iff)
qed

lemma undo_restores:
  assumes "undo_inv L h m0 s0 (to_add r) (to_remove r) u1" "undo_good L h m0 (to_add r) (to_remove r)" "rev_hash r = h"
    and "utxo_ok L u2" "utxo_view L u2 = utxo_view L u1" "coin_stats u2 = coin_stats u1"
  shows "\<exists>u3. apply_rev_block L r u2 = (u3, Inr ()) \<and> stepped L u2 u3 \<and> utxo_view L u3 = m0 \<and> coin_stats u3 = s0"
proof -
  let ?r = "restored L (to_add r) (utxo_view L u2)"
  have inv: "\<forall>(p, c)\<in>set (to_add r). utxo_view L u2 (op_serialize L p) = None"
    "\<forall>p\<in>set (to_remove r). ?r (op_serialize L p) \<noteq> None"
    "\<forall>k. k \<notin> op_serialize L ` set (to_remove r) \<longrightarrow> ?r k = m0 k"
    "fold (drop_stats L h ?r) (to_remove r) (restored_stats L (to_add r) (coin_stats u2)) = s0"
    using assms(1) unfolding undo_inv_def Let_def assms(5,6) by blast+
  have "\<forall>(p, c)\<in>set (to_add r). touched u2 (op_serialize L p) \<and> \<not> exempt h c"
    using inv(1) assms(2) absent_touched [OF assms(4)] by (fastforce simp: undo_good_def)
  note ra = restore_all [OF assms(4) this]
  let ?u = "fold (restore_prevout L h) (to_add r) u2"
  have ok: "utxo_ok L ?u" and v: "utxo_view L ?u = ?r"
    and s: "coin_stats ?u = restored_stats L (to_add r) (coin_stats u2)" using ra stepped_ok by blast+
  have "distinct (map (op_serialize L) (to_remove r))" using assms(2) by (simp add: undo_good_def)
  from drop_all [OF ok this, of h] obtain u3 where
    u3: "fold_exc (drop_output L h) (to_remove r) ?u = (u3, Inr ())" "stepped L ?u u3"
      "utxo_view L u3 = (\<lambda>k. if k \<in> op_serialize L ` set (to_remove r) then None else ?r k)"
      "coin_stats u3 = s0"
    using inv(2,4) unfolding v s by blast
  have "utxo_view L u3 = m0"
    using inv(3) assms(2) by (auto simp: u3(3) undo_good_def fun_eq_iff)
  moreover have "stepped L u2 u3" using ra u3(2) stepped_trans by blast
  ultimately show ?thesis using u3 assms(3) by (simp add: apply_rev_block_def)
qed

section \<open>What the undo block removes\<close>

definition block_coins :: "raw_block \<Rightarrow> int \<Rightarrow> (out_point \<times> coin) list" where
  "block_coins b height =
     created_coins height True (hd (raw_txs b)) @ concat (map (created_coins height False) (tl (raw_txs b)))"

definition spendable :: "'m utxo_lib \<Rightarrow> (out_point \<times> coin) list \<Rightarrow> out_point list" where
  "spendable L pcs = map fst (filter (\<lambda>(p, c). \<not> is_unspendable L (out_script (coin_out c))) pcs)"

lemma stage_added_points:
  "fst (fold (stage_added L h) pcs (added, u)) = added @ spendable L pcs"
proof (induction pcs arbitrary: added u)
  case (Cons pc pcs)
  obtain p c where pc: "pc = (p, c)" by fastforce
  obtain a1 u1 where s: "stage_added L h pc (added, u) = (a1, u1)" by fastforce
  then have "a1 = added @ spendable L [pc]"
    by (auto simp: pc stage_added_def stage_creation_def spendable_def Let_def split: if_splits)
  with Cons [of a1 u1] s show ?case by (simp add: spendable_def)
qed (simp add: spendable_def)

lemma create_outputs_added:
  "con_added (create_outputs L height cb h tx st) = con_added st @ spendable L (created_coins height cb tx)"
  using stage_added_points [of L h "created_coins height cb tx" "con_added st" "con_index st"]
  by (simp add: create_outputs_def case_prod_unfold Let_def)

lemma spend_inputs_added:
  assumes "fold_exc (spend_input L) ps st = (st', Inr ())"
  shows "con_added st' = con_added st"
  using assms
proof (rule fold_exc_keeps [where I = "\<lambda>s. con_added s = con_added st"])
  fix p s s' assume "con_added s = con_added st" "spend_input L p s = (s', Inr ())"
  then show "con_added s' = con_added st" by (auto simp: spend_input_def Let_def split: sum.splits)
qed simp

lemma connect_txs_added:
  assumes "fold_exc (connect_tx L height) txs st = (st', Inr ())"
  shows "con_added st' = con_added st @ spendable L (concat (map (created_coins height False) txs))"
  using assms
proof (induction txs arbitrary: st)
  case (Cons tx txs)
  obtain s1 r where s1: "fold_exc (spend_input L) (tx_vin tx) (st\<lparr>con_prevs := []\<rparr>) = (s1, r)" by fastforce
  show ?case
  proof (cases r)
    case (Inr x)
    let ?s2 = "create_outputs L height False True tx s1"
    have "connect_tx L height tx st = (?s2\<lparr>con_done := con_done ?s2 @ [(con_prevs ?s2, tx)]\<rparr>, Inr ())"
      using s1 Inr by (simp add: connect_tx_def Let_def)
    then have "fold_exc (connect_tx L height) txs (?s2\<lparr>con_done := con_done ?s2 @ [(con_prevs ?s2, tx)]\<rparr>) = (st', Inr ())"
      using Cons.prems by simp
    from Cons.IH [OF this] spend_inputs_added [of L "tx_vin tx" "st\<lparr>con_prevs := []\<rparr>" s1] s1 Inr
    show ?thesis by (simp add: create_outputs_added spendable_def)
  next
    case (Inl e)
    then show ?thesis using Cons.prems s1 by (simp add: connect_tx_def)
  qed
qed (simp add: spendable_def)

lemma add_block_removes:
  assumes "add_block L b height bip30 u = (u1, Inr (ds, r))"
  shows "to_remove r = spendable L (block_coins b height)"
proof -
  have pre: "(if bip30 then check_bip30 L b u else Inr ()) = Inr ()"
    using assms by (cases "if bip30 then check_bip30 L b u else Inr ()") (auto simp: add_block_def)
  show ?thesis
  proof (cases "raw_txs b")
    case (Cons cb txs)
    let ?s0 = "\<lparr>con_index = u, con_removed = [], con_added = [], con_prevs = [], con_done = []\<rparr>"
    let ?st = "create_outputs L height True (\<not> is_bip30_unspendable height (raw_hash b)) cb ?s0"
    obtain t q where t: "fold_exc (connect_tx L height) txs ?st = (t, q)" by fastforce
    show ?thesis
    proof (cases q)
      case (Inr x)
      then have "to_remove r = con_added t" using assms by (auto simp: add_block_def pre Cons Let_def t)
      also have "\<dots> = spendable L (block_coins b height)"
        using connect_txs_added [of L height txs ?st t] t Inr
        by (simp add: create_outputs_added block_coins_def Cons spendable_def)
      finally show ?thesis .
    qed (use assms in \<open>auto simp: add_block_def pre Cons Let_def t\<close>)
  qed (use assms in \<open>auto simp: add_block_def pre\<close>)
qed

lemma block_coins_points: "raw_txs b \<noteq> [] \<Longrightarrow> map fst (block_coins b height) = block_points b"
proof -
  have "map fst (created_coins height cb tx) = created_points tx" for cb tx
    by (simp add: created_coins_def created_points_def)
  then show "raw_txs b \<noteq> [] \<Longrightarrow> map fst (block_coins b height) = block_points b"
    by (cases "raw_txs b") (simp_all add: block_coins_def block_points_def map_concat comp_def)
qed

lemma spendable_distinct:
  "distinct (map (op_serialize L) (map fst pcs)) \<Longrightarrow> distinct (map (op_serialize L) (spendable L pcs))"
  by (induction pcs) (auto simp: spendable_def)

lemma spendable_subset: "set (spendable L pcs) \<subseteq> fst ` set pcs"
  by (auto simp: spendable_def)

lemma add_block_nonempty: "add_block L b height bip30 u = (u1, Inr x) \<Longrightarrow> raw_txs b \<noteq> []"
  by (auto simp: add_block_def split: sum.splits if_splits)

text \<open>The block whose outputs are new and distinct, and spend no exempt coin, is undone.\<close>

lemma add_block_undo_good:
  assumes "add_block L b height bip30 u = (u1, Inr (ds, r))"
    and "distinct (map (op_serialize L) (block_points b))"
    and "\<forall>p\<in>set (block_points b). utxo_view L u (op_serialize L p) = None"
    and "\<forall>(p, c)\<in>set (to_add r). \<not> exempt (raw_hash b) c"
  shows "undo_good L (raw_hash b) (utxo_view L u) (to_add r) (to_remove r)"
proof -
  have pts: "map fst (block_coins b height) = block_points b"
    using block_coins_points [OF add_block_nonempty [OF assms(1)]] .
  have "distinct (map (op_serialize L) (to_remove r))"
    using spendable_distinct [of L "block_coins b height"] assms(2) unfolding pts add_block_removes [OF assms(1)] by blast
  moreover have "set (to_remove r) \<subseteq> set (block_points b)"
    using spendable_subset [of L "block_coins b height"] unfolding add_block_removes [OF assms(1)] pts [symmetric]
    by simp
  ultimately show ?thesis using assms(3,4) by (auto simp: undo_good_def)
qed

end
