(* ===== verification/Utxo_Rollback.thy ===== *)
theory Utxo_Rollback
  imports Utxo_Undo
begin

text \<open>
  The undo log: every operation of the UTXO index, also one that raises half way, leaves the log
  extended by entries that, undone last first, bring the index back.
\<close>

definition same_sets :: "'m utxo_index \<Rightarrow> 'm utxo_index \<Rightarrow> bool" where
  \<comment> \<open>equal but for the log; a dict is the map it is\<close>
  "same_sets u v \<longleftrightarrow>
     utxo_db u = utxo_db v \<and> removed_utxos u = removed_utxos v \<and> stored_utxos u = stored_utxos v
     \<and> map_of (updated_utxo_set u) = map_of (updated_utxo_set v) \<and> coin_stats u = coin_stats v"

definition undo_all :: "'m utxo_lib \<Rightarrow> undo_entry list \<Rightarrow> 'm utxo_index \<Rightarrow> 'm utxo_index" where
  "undo_all L es u = fold (undo_one L) (rev es) u"

definition keys_distinct :: "'m utxo_index \<Rightarrow> bool" where
  "keys_distinct u \<longleftrightarrow> distinct (map fst (updated_utxo_set u))"

definition logged :: "'m utxo_lib \<Rightarrow> 'm utxo_index \<Rightarrow> 'm utxo_index \<Rightarrow> bool" where
  "logged L u v \<longleftrightarrow>
     (\<exists>es. undo_log v = undo_log u @ es \<and> same_sets (undo_all L es v) u)
     \<and> (keys_distinct u \<longrightarrow> keys_distinct v)"

lemma undo_all_simps [simp]: "undo_all L [] u = u" "undo_all L (es @ fs) u = undo_all L es (undo_all L fs u)"
  "undo_all L [e] u = undo_one L e u"
  by (simp_all add: undo_all_def)

lemma undo_one_same: "same_sets u v \<Longrightarrow> same_sets (undo_one L e u) (undo_one L e v)"
  by (auto simp: same_sets_def undo_one_def delete_conv' split: undo_entry.splits option.splits)

lemma undo_all_same: "same_sets u v \<Longrightarrow> same_sets (undo_all L es u) (undo_all L es v)"
  by (induction es arbitrary: u v rule: rev_induct) (auto simp: undo_one_same)

lemma undo_one_set_log: "undo_one L e (u\<lparr>undo_log := l\<rparr>) = (undo_one L e u)\<lparr>undo_log := l\<rparr>"
  by (auto simp: undo_one_def split: undo_entry.splits option.splits)

lemma undo_all_log [simp]: "undo_log (undo_all L es u) = undo_log u"
  by (induction es arbitrary: u rule: rev_induct) auto

lemma undo_one_keys: "keys_distinct u \<Longrightarrow> keys_distinct (undo_one L e u)"
  by (auto simp: keys_distinct_def undo_one_def distinct_update distinct_delete split: undo_entry.splits option.splits)

lemma rollback_undo_all:
  assumes "undo_log v = l @ es"
  shows "rollback L (length l) v = (undo_all L es v)\<lparr>undo_log := l\<rparr>"
  using assms
proof (induction es arbitrary: v rule: rev_induct)
  case Nil
  then have "v\<lparr>undo_log := l\<rparr> = v" by simp
  with Nil show ?case by (simp add: rollback.simps)
next
  case (snoc e es)
  let ?v = "undo_one L e (v\<lparr>undo_log := l @ es\<rparr>)"
  have "rollback L (length l) v = rollback L (length l) ?v"
    using snoc.prems by (subst rollback.simps) (simp add: butlast_append)
  also have "\<dots> = (undo_all L es ?v)\<lparr>undo_log := l\<rparr>" by (rule snoc.IH) simp
  also have "\<dots> = (undo_all L es (undo_one L e v))\<lparr>undo_log := l\<rparr>"
  proof -
    have "undo_all L fs (u\<lparr>undo_log := l'\<rparr>) = (undo_all L fs u)\<lparr>undo_log := l'\<rparr>" for fs u l'
      by (induction fs arbitrary: u rule: rev_induct) (simp_all add: undo_one_set_log)
    then show ?thesis by (simp add: undo_one_set_log)
  qed
  finally show ?case by simp
qed

lemma same_sets_refl [simp]: "same_sets u u"
  by (simp add: same_sets_def)

lemma same_sets_trans: "same_sets u v \<Longrightarrow> same_sets v w \<Longrightarrow> same_sets u w"
  by (simp add: same_sets_def)

lemma logged_refl [simp]: "logged L u u"
  by (auto simp: logged_def intro: exI [of _ "[]"])

lemma logged_trans:
  assumes "logged L u v" "logged L v w"
  shows "logged L u w"
proof -
  obtain es fs where e: "undo_log v = undo_log u @ es" "same_sets (undo_all L es v) u"
    and f: "undo_log w = undo_log v @ fs" "same_sets (undo_all L fs w) v"
    using assms by (auto simp: logged_def)
  have "same_sets (undo_all L (es @ fs) w) u"
    using same_sets_trans [OF undo_all_same [OF f(2)] e(2)] by simp
  with e(1) f(1) assms show ?thesis by (auto simp: logged_def intro!: exI [of _ "es @ fs"])
qed

lemma logged_one:
  assumes "undo_log v = undo_log u @ [e]" "same_sets (undo_one L e v) u" "keys_distinct u \<Longrightarrow> keys_distinct v"
  shows "logged L u v"
  using assms by (auto simp: logged_def intro!: exI [of _ "[e]"])

text \<open>Each logging operation is undone by the one entry it appends.\<close>

lemma put_coin_logged: "logged L u (put_coin k c u)"
  by (rule logged_one [where e = "UndoUpdated k (map_of (updated_utxo_set u) k)"])
    (auto simp: put_coin_def same_sets_def undo_one_def delete_conv' keys_distinct_def distinct_update fun_eq_iff
      split: option.splits)

lemma pop_coin_logged:
  assumes "pop_coin k u = Some (c, v)"
  shows "logged L u v"
proof -
  have m: "map_of (updated_utxo_set u) k = Some c" and v: "v = u\<lparr>updated_utxo_set := AList.delete k (updated_utxo_set u),
      undo_log := undo_log u @ [UndoUpdated k (Some c)]\<rparr>"
    using assms by (auto simp: pop_coin_def split: option.splits)
  show ?thesis
    by (rule logged_one [where e = "UndoUpdated k (Some c)"])
      (use m in \<open>auto simp: v same_sets_def undo_one_def delete_conv' keys_distinct_def distinct_delete fun_eq_iff\<close>)
qed

lemma mark_removed_logged: "logged L u (mark_removed k u)"
  by (rule logged_one [where e = "UndoRemoved k (k \<in> removed_utxos u)"])
    (auto simp: mark_removed_def same_sets_def undo_one_def keys_distinct_def)

lemma set_stored_logged: "logged L u (log_and_set_stored k present u)"
  by (rule logged_one [where e = "UndoStored k (k \<in> stored_utxos u)"])
    (auto simp: log_and_set_stored_def same_sets_def undo_one_def keys_distinct_def)

lemma unmark_removed_logged: "logged L u (unmark_removed k u)"
proof -
  let ?u = "if k \<in> removed_utxos u then log_and_set_stored k True u else u"
  have "logged L ?u (unmark_removed k u)"
    by (rule logged_one [where e = "UndoRemoved k (k \<in> removed_utxos ?u)"])
      (auto simp: unmark_removed_def Let_def same_sets_def undo_one_def keys_distinct_def)
  moreover have "logged L u ?u" by (simp add: set_stored_logged)
  ultimately show ?thesis using logged_trans by blast
qed

lemma hash_logged:
  assumes "stats_laws L"
  shows "logged L u (hash_insert L k c u)" "logged L u (hash_remove L k c u)"
  by (rule logged_one [where e = "UndoStats True k c"] logged_one [where e = "UndoStats False k c"];
      simp add: hash_insert_def hash_remove_def same_sets_def undo_one_def keys_distinct_def stats_lawsD [OF assms])+

lemma spend_staged_logged:
  assumes "spend_staged k u = Some (c, v)"
  shows "logged L u v"
proof -
  obtain w where w: "pop_coin k u = Some (c, w)"
    and v: "v = (if k \<in> stored_utxos w then mark_removed k (log_and_set_stored k False w) else w)"
    using assms by (auto simp: spend_staged_def split: option.splits)
  have "logged L w v" unfolding v by (auto intro: logged_trans [OF set_stored_logged mark_removed_logged])
  then show ?thesis using logged_trans [OF pop_coin_logged [OF w]] by blast
qed

lemma restage_logged: "logged L u (restage k c u)"
  using logged_trans [OF unmark_removed_logged put_coin_logged] by (simp add: restage_def)

section \<open>Whole blocks\<close>

lemma take_prevout_logged: "take_prevout L k u = Inr (c, v) \<Longrightarrow> logged L u v"
  by (auto simp: take_prevout_def mark_removed_logged spend_staged_logged split: if_splits option.splits sum.splits)

lemma stage_added_logged:
  assumes "stats_laws L"
  shows "logged L (snd st) (snd (stage_added L h pc st))"
proof -
  obtain p c a u where x: "pc = (p, c)" "st = (a, u)" by fastforce
  have "logged L u (hash_insert L (op_serialize L p) c (restage (op_serialize L p) c u))"
    using logged_trans [OF restage_logged hash_logged(1) [OF assms]] .
  then show ?thesis
    by (auto simp: x stage_added_def stage_creation_def Let_def restage_logged restage_def [symmetric])
qed

lemma create_outputs_logged:
  assumes "stats_laws L"
  shows "logged L (con_index st) (con_index (create_outputs L height cb h tx st))"
proof -
  have "logged L (snd s) (snd (fold (stage_added L h) pcs s))" for pcs and s :: "out_point list \<times> 'a utxo_index"
  proof (induction pcs arbitrary: s)
    case (Cons pc pcs)
    show ?case using logged_trans [OF stage_added_logged [OF assms, of s h pc] Cons] by simp
  qed simp
  from this [of "(con_added st, con_index st)" "created_coins height cb tx"]
  show ?thesis by (simp add: create_outputs_def case_prod_unfold Let_def)
qed

lemma spend_input_logged:
  assumes "stats_laws L"
  shows "logged L (con_index st) (con_index (fst (spend_input L p st)))"
proof (cases "take_prevout L (op_serialize L p) (con_index st)")
  case (Inr r)
  obtain c u where r: "r = (c, u)" by fastforce
  have "logged L (con_index st) (hash_remove L (op_serialize L p) c u)"
    using logged_trans [OF take_prevout_logged hash_logged(2) [OF assms]] Inr r by blast
  then show ?thesis by (simp add: spend_input_def Inr r)
qed (simp add: spend_input_def)

lemma connect_tx_logged:
  assumes "stats_laws L"
  shows "logged L (con_index st) (con_index (fst (connect_tx L height tx st)))"
proof -
  let ?st = "st\<lparr>con_prevs := []\<rparr>"
  have "logged L (con_index ?st) (con_index (fst (fold_exc (spend_input L) (tx_vin tx) ?st)))"
    by (rule fold_exc_relates [where R = "\<lambda>s t. logged L (con_index s) (con_index t)"])
      (auto intro: logged_trans spend_input_logged [OF assms])
  moreover obtain s1 r where s1: "fold_exc (spend_input L) (tx_vin tx) ?st = (s1, r)" by fastforce
  ultimately have l: "logged L (con_index st) (con_index s1)" by simp
  show ?thesis
    using l logged_trans [OF l create_outputs_logged [OF assms, of s1 height False True tx]]
    by (cases r) (simp_all add: connect_tx_def s1 Let_def)
qed

lemma add_block_logged:
  assumes "stats_laws L"
  shows "logged L u (fst (add_block L b height bip30 u))"
proof (cases "if bip30 then check_bip30 L b u else Inr ()")
  case (Inl e)
  then show ?thesis by (simp add: add_block_def)
next
  case (Inr x)
  show ?thesis
  proof (cases "raw_txs b")
    case Nil
    then show ?thesis using Inr by (simp add: add_block_def)
  next
    case (Cons cb txs)
    let ?s0 = "\<lparr>con_index = u, con_removed = [], con_added = [], con_prevs = [], con_done = []\<rparr>"
    let ?st = "create_outputs L height True (\<not> is_bip30_unspendable height (raw_hash b)) cb ?s0"
    have "logged L (con_index ?st) (con_index (fst (fold_exc (connect_tx L height) txs ?st)))"
      by (rule fold_exc_relates [where R = "\<lambda>s t. logged L (con_index s) (con_index t)"])
        (auto intro: logged_trans connect_tx_logged [OF assms])
    moreover obtain t r where t: "fold_exc (connect_tx L height) txs ?st = (t, r)" by fastforce
    ultimately have "logged L u (con_index t)"
      using logged_trans [OF create_outputs_logged [OF assms, of ?s0]] by simp
    then show ?thesis using Inr by (cases r) (simp_all add: add_block_def Cons Let_def t)
  qed
qed

lemma restore_prevout_logged:
  assumes "stats_laws L"
  shows "logged L u (restore_prevout L h pc u)"
  using logged_trans [OF restage_logged hash_logged(1) [OF assms]]
  by (cases pc) (auto simp: restore_prevout_restage restage_logged)

lemma drop_output_logged:
  assumes "stats_laws L"
  shows "logged L u (fst (drop_output L h p u))"
proof -
  obtain r where r: "drop_output L h p u =
      (case r of Inl e \<Rightarrow> (u, Inl e)
       | Inr (c, v) \<Rightarrow> (if \<not> (coin_coinbase c \<and> is_bip30_unspendable (coin_height c) h)
           then hash_remove L (op_serialize L p) c v else v, Inr ()))"
    and l: "\<And>c v. r = Inr (c, v) \<Longrightarrow> logged L u v"
  proof -
    let ?k = "op_serialize L p"
    let ?r = "if ?k \<in> removed_utxos u then Inl (ChainstateInconsistencyError ''output already removed'')
             else if map_of (updated_utxo_set u) ?k \<noteq> None then
               (case spend_staged ?k u of None \<Rightarrow> Inl KeyError | Some r \<Rightarrow> Inr r)
             else (case kv_get (utxo_db u) (utxo_key ?k) of
                     Inl e \<Rightarrow> Inl e
                   | Inr v \<Rightarrow>
                       if v = None \<or> v = Some [] then Inl (ChainstateInconsistencyError ''output not found'')
                       else (case Option.bind v (coin_parse L) of
                               None \<Rightarrow> Inl (ChainstateInconsistencyError ''stored utxo- record failed to parse'')
                             | Some c \<Rightarrow> Inr (c, mark_removed ?k u)))"
    have "logged L u v" if "?r = Inr (c, v)" for c v
      using that by (auto simp: mark_removed_logged spend_staged_logged split: if_splits option.splits sum.splits)
    then show ?thesis using that [of ?r] unfolding drop_output_def Let_def by blast
  qed
  show ?thesis
  proof (cases r)
    case (Inr x)
    obtain c v where x: "x = (c, v)" by fastforce
    show ?thesis using l [of c v] logged_trans [OF l hash_logged(2) [OF assms]] by (simp add: r Inr x)
  qed (simp add: r)
qed

lemma apply_rev_block_logged:
  assumes "stats_laws L"
  shows "logged L u (fst (apply_rev_block L r u))"
proof -
  have "logged L u (fold (restore_prevout L h) pcs u)" for pcs h
  proof (induction pcs arbitrary: u)
    case (Cons pc pcs)
    show ?case using logged_trans [OF restore_prevout_logged [OF assms] Cons] by simp
  qed simp
  moreover have "logged L v (fst (fold_exc (drop_output L (rev_hash r)) (to_remove r) v))" for v
    by (rule fold_exc_relates [where R = "logged L"]) (auto intro: logged_trans drop_output_logged [OF assms])
  ultimately show ?thesis unfolding apply_rev_block_def using logged_trans by blast
qed

section \<open>A trial\<close>

datatype trial = Connect raw_block int bool | Disconnect rev_block

fun run_trial :: "'m utxo_lib \<Rightarrow> trial \<Rightarrow> 'm utxo_index \<Rightarrow> 'm utxo_index \<times> (exc + unit)" where
  "run_trial L (Connect b height bip30) u =
     (case add_block L b height bip30 u of (u', Inl e) \<Rightarrow> (u', Inl e) | (u', Inr _) \<Rightarrow> (u', Inr ()))"
| "run_trial L (Disconnect r) u = apply_rev_block L r u"

lemma run_trial_logged:
  assumes "stats_laws L"
  shows "logged L u (fst (run_trial L t u))"
proof (cases t)
  case (Connect b height bip30)
  then show ?thesis using add_block_logged [OF assms, of u b height bip30] by (auto split: prod.splits sum.splits)
next
  case (Disconnect r)
  then show ?thesis by (simp add: apply_rev_block_logged [OF assms])
qed

lemma trials_logged: "stats_laws L \<Longrightarrow> logged L u (fst (fold_exc (run_trial L) ts u))"
  by (rule fold_exc_relates [where R = "logged L"]) (auto intro: logged_trans run_trial_logged)

lemma undo_all_keys: "keys_distinct u \<Longrightarrow> keys_distinct (undo_all L es u)"
  by (induction es arbitrary: u rule: rev_induct) (auto simp: undo_one_keys)

lemma same_sets_view: "same_sets u v \<Longrightarrow> utxo_view L u = utxo_view L v"
  by (auto simp: same_sets_def utxo_view_def fun_eq_iff split: option.splits)

lemma same_sets_ok: "same_sets u v \<Longrightarrow> utxo_ok L v \<Longrightarrow> keys_distinct u \<Longrightarrow> utxo_ok L u"
  by (auto simp: same_sets_def utxo_ok_def keys_distinct_def staged_def on_disk_def)

lemma rollback_logged:
  assumes "logged L u v"
  shows "same_sets (rollback L (length (undo_log u)) v) u" "undo_log (rollback L (length (undo_log u)) v) = undo_log u"
    "keys_distinct u \<longrightarrow> keys_distinct (rollback L (length (undo_log u)) v)"
proof -
  obtain es where es: "undo_log v = undo_log u @ es" "same_sets (undo_all L es v) u"
    using assms by (auto simp: logged_def)
  note rb = rollback_undo_all [OF es(1), of L]
  show "same_sets (rollback L (length (undo_log u)) v) u" "undo_log (rollback L (length (undo_log u)) v) = undo_log u"
    using es(2) by (simp_all add: rb same_sets_def)
  show "keys_distinct u \<longrightarrow> keys_distinct (rollback L (length (undo_log u)) v)"
    using assms undo_all_keys [of v L es] by (simp add: rb logged_def keys_distinct_def)
qed

end
