(* ===== verification/Utxo_Flush.thy ===== *)
theory Utxo_Flush
  imports Utxo_Rollback
begin

text \<open>
  Writing the staged changes out: what the store holds after \<open>finalize\<close> is what the view was, and
  the wire format of a coin and of an undo block is read back.
\<close>

section \<open>The writes of a flush\<close>

lemma kv_writes_append:
  "kv_writes (xs @ ys) s = (case kv_writes xs s of (Some e, s') \<Rightarrow> (Some e, s') | (None, s') \<Rightarrow> kv_writes ys s')"
  by (induction xs arbitrary: s) (auto split: sum.splits prod.splits option.splits)

lemma kv_deletes:
  assumes "store_open d"
  shows "\<exists>d'. kv_writes (map (\<lambda>k. WDelete (f k)) ks) d = (None, d') \<and> store_open d' \<and> kv_meta d' = kv_meta d
    \<and> (\<forall>x. store_get d' x = (if x \<in> f ` set ks then None else store_get d x))"
  using assms
proof (induction ks arbitrary: d)
  case (Cons k ks)
  let ?d = "d\<lparr>kv_data := pairs_delete (f k) (kv_data d)\<rparr>"
  have "kv_delete (f k) d = Inr ?d" "store_open ?d"
    using Cons.prems by (simp_all add: kv_delete_def ensure_open_def store_open_def)
  moreover have "store_get ?d x = (if x = f k then None else store_get d x)" for x
    by (simp add: store_get_def map_of_pairs_delete)
  ultimately show ?case using Cons.IH [of ?d] by auto
qed simp

lemma kv_puts:
  assumes "store_open d"
  shows "\<exists>d'. kv_writes (map (\<lambda>(k, v). WPut (f k) (g v)) ps) d = (None, d') \<and> store_open d' \<and> kv_meta d' = kv_meta d
    \<and> (\<forall>x. store_get d' x = (case map_of (rev (map (\<lambda>(k, v). (f k, g v)) ps)) x of Some v \<Rightarrow> Some v | None \<Rightarrow> store_get d x))"
  using assms
proof (induction ps arbitrary: d)
  case (Cons p ps)
  obtain k v where p: "p = (k, v)" by fastforce
  let ?d = "d\<lparr>kv_data := pairs_put (f k) (g v) (kv_data d)\<rparr>"
  have put: "kv_put (f k) (g v) d = Inr ?d" "store_open ?d"
    using Cons.prems by (simp_all add: kv_put_def ensure_open_def store_open_def)
  have g: "store_get ?d x = (if x = f k then Some (g v) else store_get d x)" for x
    by (simp add: store_get_def map_of_pairs_put)
  from Cons.IH [OF put(2)] obtain d' where
    d': "kv_writes (map (\<lambda>(k, v). WPut (f k) (g v)) ps) ?d = (None, d')" "store_open d'" "kv_meta d' = kv_meta d"
    "\<And>x. store_get d' x = (case map_of (rev (map (\<lambda>(k, v). (f k, g v)) ps)) x of Some v \<Rightarrow> Some v | None \<Rightarrow> store_get ?d x)"
    by auto
  have "store_get d' x = (case map_of (rev (map (\<lambda>(k, v). (f k, g v)) (p # ps))) x of Some v \<Rightarrow> Some v | None \<Rightarrow> store_get d x)" for x
    using d'(4) [of x] by (auto simp: p g map_add_def split: option.splits)
  then show ?case using d'(1,2,3) put(1) by (auto simp: p)
qed simp

lemma inj_utxo_key: "utxo_key j = utxo_key k \<longleftrightarrow> j = k"
  by (simp add: utxo_key_def)

lemma map_of_rev_distinct: "distinct (map fst ps) \<Longrightarrow> map_of (rev ps) = map_of ps"
  by (simp add: map_of_inject_set distinct_rev rev_map [symmetric])

lemma map_of_mapped:
  assumes "distinct (map fst ps)"
  shows "map_of (rev (map (\<lambda>(k, c). (utxo_key k, g c)) ps)) (utxo_key k) = map_option g (map_of ps k)"
    and "\<forall>k. x \<noteq> utxo_key k \<Longrightarrow> map_of (rev (map (\<lambda>(k, c). (utxo_key k, g c)) ps)) x = None"
proof -
  let ?q = "map (\<lambda>(k, c). (utxo_key k, g c)) ps"
  have "map fst ?q = map utxo_key (map fst ps)" by (induction ps) auto
  then have "distinct (map fst ?q)" using assms by (simp add: distinct_map inj_on_def inj_utxo_key)
  then have r: "map_of (rev ?q) = map_of ?q" by (rule map_of_rev_distinct)
  have "map_of ?q (utxo_key k) = map_option g (map_of ps k)" by (induction ps) (auto simp: inj_utxo_key)
  then show "map_of (rev ?q) (utxo_key k) = map_option g (map_of ps k)" by (simp add: r)
  assume "\<forall>k. x \<noteq> utxo_key k"
  then have "map_of ?q x = None" by (induction ps) auto
  then show "map_of (rev ?q) x = None" by (simp add: r)
qed

lemma flush_store:
  assumes "utxo_ok L u"
  shows "\<exists>d. kv_writes (utxo_writes L u) (utxo_db u) = (None, d) \<and> store_open d
    \<and> map_of (kv_meta d) coin_stats_key = Some (stats_serialize L (coin_stats u))
    \<and> (\<forall>x. (\<forall>k. x \<noteq> utxo_key k) \<longrightarrow> store_get d x = store_get (utxo_db u) x)
    \<and> (\<forall>k. store_get d (utxo_key k) =
          (case map_of (updated_utxo_set u) k of
             Some c \<Rightarrow> Some (coin_serialize L c)
           | None \<Rightarrow> if k \<in> removed_utxos u then None else store_get (utxo_db u) (utxo_key k)))"
proof -
  have o: "store_open (utxo_db u)" "finite (removed_utxos u)" "distinct (map fst (updated_utxo_set u))"
    using assms by (simp_all add: utxo_ok_def)
  obtain d1 where d1: "kv_writes (map (\<lambda>k. WDelete (utxo_key k)) (sorted_list_of_set (removed_utxos u))) (utxo_db u) = (None, d1)"
    "store_open d1" "\<And>x. store_get d1 x = (if x \<in> utxo_key ` removed_utxos u then None else store_get (utxo_db u) x)"
    using kv_deletes [OF o(1), of utxo_key "sorted_list_of_set (removed_utxos u)"] o(2) by auto
  obtain d2 where d2: "kv_writes (map (\<lambda>(k, c). WPut (utxo_key k) (coin_serialize L c)) (updated_utxo_set u)) d1 = (None, d2)"
    "store_open d2"
    "\<And>x. store_get d2 x = (case map_of (rev (map (\<lambda>(k, c). (utxo_key k, coin_serialize L c)) (updated_utxo_set u))) x of
            Some v \<Rightarrow> Some v | None \<Rightarrow> store_get d1 x)"
    using kv_puts [OF d1(2), of utxo_key "coin_serialize L" "updated_utxo_set u"] by auto
  let ?d = "d2\<lparr>kv_meta := pairs_put coin_stats_key (stats_serialize L (coin_stats u)) (kv_meta d2)\<rparr>"
  have "kv_put_meta coin_stats_key (stats_serialize L (coin_stats u)) d2 = Inr ?d"
    using d2(2) by (simp add: kv_put_meta_def ensure_open_def store_open_def)
  then have "kv_writes (utxo_writes L u) (utxo_db u) = (None, ?d)"
    using d1(1) d2(1) by (simp add: utxo_writes_def kv_writes_append)
  moreover have "store_get ?d x = store_get (utxo_db u) x" if "\<forall>k. x \<noteq> utxo_key k" for x
  proof -
    have "store_get ?d x = store_get d2 x" by (simp add: store_get_def)
    then show ?thesis using that map_of_mapped(2) [OF o(3), of x "coin_serialize L"] by (auto simp: d1(3) d2(3))
  qed
  moreover have "store_get ?d (utxo_key k) = (case map_of (updated_utxo_set u) k of
             Some c \<Rightarrow> Some (coin_serialize L c)
           | None \<Rightarrow> if k \<in> removed_utxos u then None else store_get (utxo_db u) (utxo_key k))" for k
  proof -
    have "store_get ?d (utxo_key k) = store_get d2 (utxo_key k)" by (simp add: store_get_def)
    moreover have "utxo_key k \<in> utxo_key ` removed_utxos u \<longleftrightarrow> k \<in> removed_utxos u" by (auto simp: inj_utxo_key)
    ultimately show ?thesis
      using map_of_mapped(1) [OF o(3), of "coin_serialize L" k] by (auto simp: d1(3) d2(3) split: option.splits)
  qed
  ultimately show ?thesis using d2(2) by (intro exI [of _ ?d]) (simp add: map_of_pairs_put store_open_def)
qed

definition coin_codec :: "'m utxo_lib \<Rightarrow> coin \<Rightarrow> bool" where
  "coin_codec L c \<longleftrightarrow> coin_serialize L c \<noteq> [] \<and> coin_parse L (coin_serialize L c) = Some c"

lemma finalize_view:
  assumes "utxo_ok L u" "\<forall>(k, c)\<in>set (updated_utxo_set u). coin_codec L c"
  shows "\<exists>d. utxo_finalize L u = (u\<lparr>utxo_db := d, removed_utxos := {}, updated_utxo_set := [],
        stored_utxos := {}, undo_log := []\<rparr>, Inr ())
    \<and> store_open d \<and> records_ok L d
    \<and> map_of (kv_meta d) coin_stats_key = Some (stats_serialize L (coin_stats u))
    \<and> (\<forall>x. (\<forall>k. x \<noteq> utxo_key k) \<longrightarrow> store_get d x = store_get (utxo_db u) x)
    \<and> (\<forall>k. stored_coin L d k = utxo_view L u k)"
proof -
  obtain d where d: "kv_writes (utxo_writes L u) (utxo_db u) = (None, d)" "store_open d"
    "map_of (kv_meta d) coin_stats_key = Some (stats_serialize L (coin_stats u))"
    "\<forall>x. (\<forall>k. x \<noteq> utxo_key k) \<longrightarrow> store_get d x = store_get (utxo_db u) x"
    and get: "\<And>k. store_get d (utxo_key k) =
          (case map_of (updated_utxo_set u) k of
             Some c \<Rightarrow> Some (coin_serialize L c)
           | None \<Rightarrow> if k \<in> removed_utxos u then None else store_get (utxo_db u) (utxo_key k))"
    using flush_store [OF assms(1)] by blast
  have codec: "coin_codec L c" if "map_of (updated_utxo_set u) k = Some c" for k c
    using assms(2) map_of_SomeD [OF that] by blast
  have "records_ok L (utxo_db u)" using assms(1) by (simp add: utxo_ok_def)
  then have "records_ok L d"
    using codec by (auto simp: records_ok_def get coin_codec_def split: option.splits if_splits)
  moreover have "stored_coin L d k = utxo_view L u k" for k
    using codec [of k] by (auto simp: stored_coin_def get utxo_view_def coin_codec_def split: option.splits)
  ultimately show ?thesis using d by (auto simp: utxo_finalize_def)
qed

section \<open>Records that are read back\<close>

definition wire_laws :: "'m utxo_lib \<Rightarrow> int \<Rightarrow> (out_point \<Rightarrow> bool) \<Rightarrow> (tx_out \<Rightarrow> bool) \<Rightarrow> bool" where
  \<comment> \<open>btclib reads back what it wrote, a count up to its cap, and leaves what follows unread\<close>
  "wire_laws L cap okp okt \<longleftrightarrow>
     (\<forall>n r. 0 \<le> n \<and> n \<le> cap \<longrightarrow> size_serialize L n \<noteq> [] \<and> size_parse L (size_serialize L n @ r) = Some (n, r))
     \<and> (\<forall>t r. okt t \<longrightarrow> txout_parse L (txout_serialize L t @ r) = Some (t, r))
     \<and> (\<forall>p r. okp p \<longrightarrow> op_parse L (op_serialize L p @ r) = Some (p, r))"

lemma packed_coin:
  "drop_bit 1 (push_bit 1 h OR (if cb then 1 else (0::int))) = h"
  "((push_bit 1 h OR (if cb then 1 else (0::int))) AND 1 \<noteq> 0) = cb"
proof -
  have "push_bit 1 h OR (if cb then 1 else (0::int)) = 2 * h + (if cb then 1 else 0)"
    by (simp add: push_bit_eq_mult or_one_eq mult.commute)
  then show "drop_bit 1 (push_bit 1 h OR (if cb then 1 else (0::int))) = h"
    "((push_bit 1 h OR (if cb then 1 else (0::int))) AND 1 \<noteq> 0) = cb"
    by (auto simp: drop_bit_eq_div and_one_eq)
qed

lemma packed_bounds: "0 \<le> h \<Longrightarrow> 2 * h + 1 \<le> cap \<Longrightarrow> 0 \<le> push_bit 1 h OR (if cb then 1 else (0::int))
    \<and> push_bit 1 h OR (if cb then 1 else (0::int)) \<le> cap"
  by (auto simp: push_bit_eq_mult or_one_eq)

lemma coin_read_serialize:
  assumes "wire_laws L cap okp okt" "okt (coin_out c)" "0 \<le> coin_height c" "2 * coin_height c + 1 \<le> cap"
  shows "coin_read L (coin_serialize L c @ r) = Some (c, r)"
  using assms packed_bounds [OF assms(3,4), of "coin_coinbase c"] packed_coin [of "coin_height c" "coin_coinbase c"]
  unfolding wire_laws_def coin_read_def coin_serialize_def Let_def by simp

lemma read_many_concat:
  assumes "\<And>x r. x \<in> set xs \<Longrightarrow> p (s x @ r) = Some (x, r)"
  shows "read_many p (length xs) (concat (map s xs) @ r) = Some (xs, r)"
  using assms by (induction xs) auto

lemma rev_block_round_trip_aux:
  assumes "wire_laws L cap okp okt" "length (rev_hash r) = 32"
    and "\<forall>(p, c)\<in>set (to_add r). okp p \<and> okt (coin_out c) \<and> 0 \<le> coin_height c \<and> 2 * coin_height c + 1 \<le> cap"
    and "\<forall>p\<in>set (to_remove r). okp p" "int (length (to_add r)) \<le> cap" "int (length (to_remove r)) \<le> cap"
  shows "rev_block_deserialize L (rev_block_serialize L r) = Some r"
proof -
  let ?adds = "concat (map (\<lambda>(p, c). op_serialize L p @ coin_serialize L c) (to_add r))"
    and ?removes = "concat (map (op_serialize L) (to_remove r))"
  have size: "size_parse L (size_serialize L (int (length xs)) @ r) = Some (int (length xs), r)"
    if "int (length xs) \<le> cap" for xs :: "'b list" and r
    using assms(1) that by (simp add: wire_laws_def)
  have op: "op_parse L (op_serialize L p @ r) = Some (p, r)" if "okp p" for p r
    using assms(1) that by (simp add: wire_laws_def)
  have adds: "read_many (read_undo_coin L) (length (to_add r)) (?adds @ rest) = Some (to_add r, rest)" for rest
  proof (rule read_many_concat)
    fix x rest assume "x \<in> set (to_add r)"
    then show "read_undo_coin L ((case x of (p, c) \<Rightarrow> op_serialize L p @ coin_serialize L c) @ rest) = Some (x, rest)"
      using assms(3) coin_read_serialize [OF assms(1)] by (fastforce simp: read_undo_coin_def op)
  qed
  have removes: "read_many (op_parse L) (length (to_remove r)) (?removes @ rest) = Some (to_remove r, rest)" for rest
    by (rule read_many_concat) (use assms(4) op in auto)
  have "rev_block_deserialize L (rev_block_serialize L r)
      = Some \<lparr>rev_hash = rev_hash r, to_add = to_add r, to_remove = to_remove r\<rparr>"
    using assms(2) adds removes [of "[]"] size [OF assms(5)] size [OF assms(6)]
    by (simp add: rev_block_deserialize_def rev_block_serialize_def Let_def)
  then show ?thesis by simp
qed

end
