(* ===== verification/Utxo_Properties.thy ===== *)
theory Utxo_Properties
  imports Utxo_Flush
begin

text \<open>
  The properties of the UTXO index, over a small concrete btclib for the witnesses: counts in
  unary, octets behind their length, and a sum as the commitment.
\<close>

section \<open>A concrete library and two blocks\<close>

definition unary :: "nat \<Rightarrow> bytes" where
  "unary n = replicate n 1 @ [0]"

fun read_unary :: "bytes \<Rightarrow> (nat \<times> bytes) option" where
  "read_unary [] = None"
| "read_unary (x # xs) = (if x = 0 then Some (0, xs) else map_option (\<lambda>(n, r). (Suc n, r)) (read_unary xs))"

definition counted :: "bytes \<Rightarrow> bytes" where
  "counted bs = unary (length bs) @ bs"

definition read_counted :: "bytes \<Rightarrow> (bytes \<times> bytes) option" where
  "read_counted bs = map_option (\<lambda>(n, r). (take n r, drop n r)) (read_unary bs)"

definition demo_weight :: "bytes \<Rightarrow> coin \<Rightarrow> int" where
  "demo_weight k c = int (length k) + 1000 * out_value (coin_out c)"

definition demo_coins :: "int utxo_lib" where
  "demo_coins =
     \<lparr>op_serialize = \<lambda>p. counted (op_txid p) @ unary (op_index p),
      op_parse = \<lambda>bs. do { (t, r) \<leftarrow> read_counted bs; (i, r) \<leftarrow> read_unary r; Some (\<lparr>op_txid = t, op_index = i\<rparr>, r) },
      txout_serialize = \<lambda>t. unary (nat (out_value t)) @ counted (out_script t),
      txout_parse = \<lambda>bs. do { (v, r) \<leftarrow> read_unary bs; (s, r) \<leftarrow> read_counted r; Some (\<lparr>out_value = int v, out_script = s\<rparr>, r) },
      size_serialize = \<lambda>n. unary (nat n),
      size_parse = \<lambda>bs. map_option (\<lambda>(n, r). (int n, r)) (read_unary bs),
      is_unspendable = \<lambda>s. s = [106],
      stats_insert = \<lambda>k c s. s + demo_weight k c,
      stats_remove = \<lambda>k c s. s - demo_weight k c,
      stats_empty = 0,
      stats_serialize = \<lambda>s. unary (nat s),
      stats_deserialize = \<lambda>bs. case read_unary bs of Some (n, _) \<Rightarrow> int n | None \<Rightarrow> 0\<rparr>"

lemma read_unary_unary [simp]: "read_unary (unary n @ r) = Some (n, r)"
  by (induction n) (auto simp: unary_def)

lemma read_counted_counted [simp]: "read_counted (counted bs @ r) = Some (bs, r)"
  by (simp add: read_counted_def counted_def)

lemma demo_wire: "wire_laws demo_coins cap (\<lambda>p. True) (\<lambda>t. 0 \<le> out_value t)"
  by (auto simp: wire_laws_def demo_coins_def) (simp add: unary_def)

lemma demo_stats: "stats_laws demo_coins"
  by (simp add: stats_laws_def demo_coins_def)

definition demo_block1 :: raw_block where
  "demo_block1 = \<lparr>raw_hash = [1], raw_txs =
     [\<lparr>tx_id = [1], tx_vin = [], tx_vout = [\<lparr>out_value = 5, out_script = [7]\<rparr>, \<lparr>out_value = 0, out_script = [106]\<rparr>]\<rparr>]\<rparr>"

definition demo_block2 :: raw_block where
  \<comment> \<open>spends the first coin, and an output of its own\<close>
  "demo_block2 = \<lparr>raw_hash = [2], raw_txs =
     [\<lparr>tx_id = [2], tx_vin = [], tx_vout = [\<lparr>out_value = 5, out_script = [7]\<rparr>]\<rparr>,
      \<lparr>tx_id = [3], tx_vin = [\<lparr>op_txid = [1], op_index = 0\<rparr>],
         tx_vout = [\<lparr>out_value = 2, out_script = [8]\<rparr>, \<lparr>out_value = 3, out_script = [9]\<rparr>]\<rparr>,
      \<lparr>tx_id = [4], tx_vin = [\<lparr>op_txid = [3], op_index = 0\<rparr>], tx_vout = [\<lparr>out_value = 2, out_script = [8]\<rparr>]\<rparr>]\<rparr>"

definition demo_utxo0 :: "int utxo_index" where
  "demo_utxo0 = \<lparr>utxo_db = empty_store, removed_utxos = {}, updated_utxo_set = [], stored_utxos = {},
     undo_log = [], coin_stats = 0\<rparr>"

lemma demo_utxo0_ok: "utxo_ok demo_coins demo_utxo0" "open_utxo_index demo_coins empty_store = Inr demo_utxo0"
  by (simp_all add: utxo_ok_def demo_utxo0_def empty_store_def store_open_def records_ok_def store_get_def staged_def
      open_utxo_index_def kv_get_meta_def ensure_open_def demo_coins_def)

section \<open>Connecting\<close>

text \<open>
  C13. \<open>add_block\<close> refines the block on the map of unspent coins: with the duplicate check on, a block
  that creates an outpoint still unspent is refused and nothing is staged; otherwise the block
  takes the coins its inputs name, in order, each one once, and adds its spendable outputs, and is
  refused exactly where one of its inputs names no coin of the set at that moment.  The staging
  invariant is kept on every branch, also where the block is refused half way.
\<close>

theorem add_block_refines:
  assumes "utxo_ok L u" "raw_txs b \<noteq> []" "bip30 \<or> may_stage L b u"
  shows "if bip30 \<and> (\<exists>p\<in>set (block_points b). utxo_view L u (op_serialize L p) \<noteq> None)
    then add_block L b height bip30 u = (u, Inl (InvalidBlockInputError ''bad-txns-BIP30''))
    else (case spec_block L b height (utxo_view L u) of
        None \<Rightarrow> \<exists>u' m. add_block L b height bip30 u = (u', Inl (InvalidBlockInputError m)) \<and> utxo_ok L u'
      | Some (m, ds) \<Rightarrow> \<exists>u' r. add_block L b height bip30 u = (u', Inr (ds, r)) \<and> utxo_ok L u' \<and> utxo_view L u' = m)"
proof (cases "bip30 \<and> (\<exists>p\<in>set (block_points b). utxo_view L u (op_serialize L p) \<noteq> None)")
  case True
  then show ?thesis by (simp add: add_block_def check_bip30_view [OF assms(1)])
next
  case False
  have "may_stage L b u" using assms(3) False absent_touched [OF assms(1)] by (auto simp: may_stage_def)
  from add_block_steps [OF assms(1,2) this, of bip30 height] False show ?thesis
    by (auto simp: stepped_def refused_input_def split: option.splits)
qed

theorem add_block_refines_witness:
  "\<exists>u' r ds. add_block demo_coins demo_block1 1 True demo_utxo0 = (u', Inr (ds, r)) \<and> utxo_ok demo_coins u'
     \<and> utxo_view demo_coins u' (op_serialize demo_coins \<lparr>op_txid = [1], op_index = 0\<rparr>) \<noteq> None
     \<and> utxo_view demo_coins u' (op_serialize demo_coins \<lparr>op_txid = [1], op_index = 1\<rparr>) = None"
proof -
  let ?k = "\<lambda>i. op_serialize demo_coins \<lparr>op_txid = [1], op_index = i\<rparr>"
  have v: "utxo_view demo_coins demo_utxo0 = Map.empty"
    by (simp add: utxo_view_def demo_utxo0_def empty_store_def stored_coin_def store_get_def fun_eq_iff)
  have ne: "raw_txs demo_block1 \<noteq> []" by (simp add: demo_block1_def)
  obtain m ds where sp: "spec_block demo_coins demo_block1 1 Map.empty = Some (m, ds)"
    and m: "m (?k 0) \<noteq> None" "m (?k 1) = None"
  proof -
    have "(case spec_block demo_coins demo_block1 1 Map.empty of None \<Rightarrow> False
      | Some (m, ds) \<Rightarrow> m (?k 0) \<noteq> None \<and> m (?k 1) = None)" by code_simp
    then show ?thesis using that by (auto split: option.splits)
  qed
  from add_block_refines [OF demo_utxo0_ok(1) ne, of True 1] m show ?thesis by (auto simp: v sp)
qed

section \<open>Disconnecting\<close>

definition demo_utxo1 :: "int utxo_index" where
  "demo_utxo1 = fst (add_block demo_coins demo_block1 1 True demo_utxo0)"

definition demo_utxo2 :: "int utxo_index" where
  "demo_utxo2 = fst (add_block demo_coins demo_block2 2 True demo_utxo1)"

lemma add_block_ok:
  assumes "utxo_ok L u" "raw_txs b \<noteq> []"
  shows "utxo_ok L (fst (add_block L b height True u))"
proof (cases "\<exists>p\<in>set (block_points b). utxo_view L u (op_serialize L p) \<noteq> None")
  case True
  then show ?thesis using assms by (simp add: add_block_def check_bip30_view)
next
  case False
  then have "may_stage L b u" using absent_touched [OF assms(1)] by (auto simp: may_stage_def)
  from add_block_steps [OF assms this, of True height] False show ?thesis
    by (auto simp: stepped_def split: option.splits)
qed

lemma add_block_absent:
  assumes "utxo_ok L u" "add_block L b height True u = (u1, Inr x)"
  shows "\<forall>p\<in>set (block_points b). utxo_view L u (op_serialize L p) = None"
  using assms by (auto simp: add_block_def check_bip30_view split: if_splits)

lemma demo_utxo_ok: "utxo_ok demo_coins demo_utxo1" "utxo_ok demo_coins demo_utxo2"
  unfolding demo_utxo1_def demo_utxo2_def
  by (intro add_block_ok demo_utxo0_ok; simp add: demo_block1_def demo_block2_def)+

lemma demo_added2:
  "\<exists>ds r. add_block demo_coins demo_block2 2 True demo_utxo1 = (demo_utxo2, Inr (ds, r))
     \<and> length (to_add r) = 2 \<and> length (to_remove r) = 4"
proof -
  obtain u q where q: "add_block demo_coins demo_block2 2 True demo_utxo1 = (u, q)" by fastforce
  have "(case snd (add_block demo_coins demo_block2 2 True demo_utxo1) of
      Inl e \<Rightarrow> False | Inr (ds, r) \<Rightarrow> length (to_add r) = 2 \<and> length (to_remove r) = 4)" by code_simp
  with q show ?thesis by (auto simp: demo_utxo2_def split: sum.splits)
qed

lemma demo_points2: "distinct (map (op_serialize demo_coins) (block_points demo_block2))"
  by code_simp

lemma demo_not_exempt: "\<not> exempt (raw_hash demo_block2) c" "raw_hash demo_block2 \<notin> snd ` bip30_unspendable_originals"
  by (simp_all add: exempt_def is_bip30_unspendable_def bip30_unspendable_originals_def demo_block2_def)

text \<open>
  C14. A connected block whose outputs are new and distinct is undone: applied to any later index
  that holds the set of coins the block left, staged or written out, its undo block raises nothing
  and brings back exactly the coins and the running commitment there were before the block.
\<close>

theorem block_is_undone:
  assumes "stats_laws L" "utxo_ok L u" "add_block L b height bip30 u = (u1, Inr (ds, r))"
    and "distinct (map (op_serialize L) (block_points b))"
    and "\<forall>p\<in>set (block_points b). utxo_view L u (op_serialize L p) = None"
    and "\<forall>(p, c)\<in>set (to_add r). \<not> exempt (raw_hash b) c"
    and "utxo_ok L u2" "utxo_view L u2 = utxo_view L u1" "coin_stats u2 = coin_stats u1"
  shows "\<exists>u3. apply_rev_block L r u2 = (u3, Inr ()) \<and> utxo_ok L u3
    \<and> utxo_view L u3 = utxo_view L u \<and> coin_stats u3 = coin_stats u"
proof -
  have good: "undo_good L (raw_hash b) (utxo_view L u) (to_add r) (to_remove r)"
    by (rule add_block_undo_good [OF assms(3-6)])
  have inv: "rev_hash r = raw_hash b"
    "undo_inv L (raw_hash b) (utxo_view L u) (coin_stats u) (to_add r) (to_remove r) u1"
    using add_block_undo_inv [OF assms(1-3)] good by (auto simp: undo_keeps_def)
  from undo_restores [OF inv(2) good inv(1) assms(7-9)] show ?thesis by (auto simp: stepped_def)
qed

theorem block_is_undone_witness:
  "\<exists>u3 r. apply_rev_block demo_coins r demo_utxo2 = (u3, Inr ()) \<and> length (to_add r) = 2
     \<and> utxo_view demo_coins u3 = utxo_view demo_coins demo_utxo1"
proof -
  obtain ds r where r: "add_block demo_coins demo_block2 2 True demo_utxo1 = (demo_utxo2, Inr (ds, r))"
    "length (to_add r) = 2" using demo_added2 by blast
  from block_is_undone [OF demo_stats demo_utxo_ok(1) r(1) demo_points2
      add_block_absent [OF demo_utxo_ok(1) r(1)] _ demo_utxo_ok(2) refl refl] demo_not_exempt r(2)
  show ?thesis by auto
qed

text \<open>
  C15. Whatever a trial did, any sequence of blocks connected and disconnected that may end in an
  error half way through a block, rolling back to the mark taken before it leaves the index as it
  was: the same staged changes, the same commitment, the same log and so the same set of coins.
\<close>

theorem rollback_undoes_trial:
  assumes "stats_laws L" "utxo_ok L u"
  shows "let w = rollback L (trial_mark u) (fst (fold_exc (run_trial L) ts u)) in
    utxo_ok L w \<and> utxo_view L w = utxo_view L u \<and> coin_stats w = coin_stats u
    \<and> removed_utxos w = removed_utxos u \<and> stored_utxos w = stored_utxos u
    \<and> map_of (updated_utxo_set w) = map_of (updated_utxo_set u)
    \<and> undo_log w = undo_log u \<and> utxo_db w = utxo_db u"
proof -
  let ?v = "fst (fold_exc (run_trial L) ts u)"
  note rb = rollback_logged [OF trials_logged [OF assms(1), of u ts]]
  have "keys_distinct u" using assms(2) by (simp add: utxo_ok_def keys_distinct_def)
  with rb same_sets_ok [OF rb(1) assms(2)] same_sets_view [OF rb(1), of L] show ?thesis
    by (simp add: Let_def trial_mark_def same_sets_def)
qed

theorem rollback_undoes_trial_witness:
  "utxo_view demo_coins (rollback demo_coins (trial_mark demo_utxo1)
      (fst (fold_exc (run_trial demo_coins) [Connect demo_block2 2 True, Connect demo_block2 3 True] demo_utxo1)))
   = utxo_view demo_coins demo_utxo1"
  using rollback_undoes_trial [OF demo_stats demo_utxo_ok(1)] unfolding Let_def by blast

section \<open>The running commitment\<close>

text \<open>
  C17. Outside the two blocks of 2010 history exempts, the running commitment stays the commitment to
  the set: connecting a block whose outputs are distinct moves it from the coins before to the
  coins after, as if every coin of the set had been inserted afresh.
\<close>

theorem commitment_follows_set:
  assumes "stats_laws L" "utxo_ok L u" "coin_stats u = commitment L (utxo_view L u)"
    and "add_block L b height True u = (u1, Inr (ds, r))"
    and "distinct (map (op_serialize L) (block_points b))" "raw_hash b \<notin> snd ` bip30_unspendable_originals"
  shows "coin_stats u1 = commitment L (utxo_view L u1) \<and> finite (dom (utxo_view L u1))"
proof -
  have "\<not> exempt (raw_hash b) c" for c using assms(6) by (force simp: exempt_def is_bip30_unspendable_def)
  then have "undo_good L (raw_hash b) (utxo_view L u) (to_add r) (to_remove r)"
    using add_block_undo_good [OF assms(4,5) add_block_absent [OF assms(2,4)]] by blast
  then show ?thesis
    using add_block_undo_inv [OF assms(1,2,4)] assms(3,6) finite_view by (auto simp: undo_keeps_def undo_inv_def Let_def)
qed

lemma demo_commitment1: "coin_stats demo_utxo1 = commitment demo_coins (utxo_view demo_coins demo_utxo1)"
proof -
  have "undo_log demo_utxo1 = undo_log demo_utxo1" by simp
  have m: "updated_utxo_set demo_utxo1 = [(op_serialize demo_coins \<lparr>op_txid = [1], op_index = 0\<rparr>,
      \<lparr>coin_out = \<lparr>out_value = 5, out_script = [7]\<rparr>, coin_height = 1, coin_coinbase = True\<rparr>)]"
    "coin_stats demo_utxo1 = 5004" "kv_data (utxo_db demo_utxo1) = []"
    by code_simp+
  let ?k = "op_serialize demo_coins \<lparr>op_txid = [1], op_index = 0\<rparr>"
    and ?c = "\<lparr>coin_out = \<lparr>out_value = 5, out_script = [7]\<rparr>, coin_height = 1, coin_coinbase = True\<rparr>"
  have "utxo_view demo_coins demo_utxo1 = Map.empty(?k \<mapsto> ?c)"
    by (auto simp: utxo_view_def m stored_coin_def store_get_def fun_eq_iff)
  moreover have "commitment demo_coins (Map.empty(?k \<mapsto> ?c)) = stats_insert demo_coins ?k ?c (commitment demo_coins Map.empty)"
    by (rule commitment_insert [OF demo_stats]) simp_all
  moreover have "commitment demo_coins Map.empty = 0" by (simp add: commitment_def demo_coins_def)
  moreover have "stats_insert demo_coins ?k ?c 0 = 5004" by code_simp
  ultimately show ?thesis using m(2) by (simp del: fun_upd_apply)
qed

theorem commitment_follows_set_witness:
  "coin_stats demo_utxo2 = commitment demo_coins (utxo_view demo_coins demo_utxo2)"
proof -
  obtain ds r where r: "add_block demo_coins demo_block2 2 True demo_utxo1 = (demo_utxo2, Inr (ds, r))"
    using demo_added2 by blast
  from commitment_follows_set [OF demo_stats demo_utxo_ok(1) demo_commitment1 r demo_points2 demo_not_exempt(2)]
  show ?thesis by blast
qed

section \<open>Writing out and reading back\<close>

text \<open>
  C16. Writing everything staged out changes no coin: the call succeeds, nothing is left staged, the
  index is the one reopening the store gives, with the same set of coins and the same commitment,
  and no key of the store outside the coins' own is touched.
\<close>

theorem finalize_keeps_view:
  assumes "utxo_ok L u" "\<forall>(k, c)\<in>set (updated_utxo_set u). coin_codec L c"
    and "stats_deserialize L (stats_serialize L (coin_stats u)) = coin_stats u"
  shows "\<exists>u'. utxo_finalize L u = (u', Inr ()) \<and> utxo_ok L u' \<and> open_utxo_index L (utxo_db u') = Inr u'
    \<and> utxo_view L u' = utxo_view L u \<and> coin_stats u' = coin_stats u
    \<and> (\<forall>x. (\<forall>k. x \<noteq> utxo_key k) \<longrightarrow> store_get (utxo_db u') x = store_get (utxo_db u) x)"
proof -
  obtain d where d: "utxo_finalize L u = (u\<lparr>utxo_db := d, removed_utxos := {}, updated_utxo_set := [],
        stored_utxos := {}, undo_log := []\<rparr>, Inr ())" "store_open d" "records_ok L d"
    "map_of (kv_meta d) coin_stats_key = Some (stats_serialize L (coin_stats u))"
    "\<forall>x. (\<forall>k. x \<noteq> utxo_key k) \<longrightarrow> store_get d x = store_get (utxo_db u) x"
    "\<forall>k. stored_coin L d k = utxo_view L u k" using finalize_view [OF assms(1,2)] by blast
  let ?u = "u\<lparr>utxo_db := d, removed_utxos := {}, updated_utxo_set := [], stored_utxos := {}, undo_log := []\<rparr>"
  have "utxo_ok L ?u" using d(2,3) by (simp add: utxo_ok_def staged_def)
  moreover have "open_utxo_index L d = Inr ?u"
    using d(2,4) assms(3) by (simp add: open_utxo_index_def kv_get_meta_def ensure_open_def store_open_def)
  moreover have "utxo_view L ?u = utxo_view L u" using d(6) by (simp add: utxo_view_def fun_eq_iff)
  ultimately show ?thesis using d(1,5) by (intro exI [of _ ?u]) simp
qed

lemma demo_codec:
  assumes "0 \<le> out_value (coin_out c)" "0 \<le> coin_height c"
  shows "coin_codec demo_coins c"
proof -
  have "coin_parse demo_coins (coin_serialize demo_coins c) = Some c"
    using coin_read_serialize [OF demo_wire assms order_refl, of "[]"] by (simp add: coin_parse_def)
  moreover have "coin_serialize demo_coins c \<noteq> []" by (simp add: coin_serialize_def demo_coins_def unary_def Let_def)
  ultimately show ?thesis by (simp add: coin_codec_def)
qed

theorem finalize_keeps_view_witness:
  "\<exists>u'. utxo_finalize demo_coins demo_utxo2 = (u', Inr ()) \<and> open_utxo_index demo_coins (utxo_db u') = Inr u'
     \<and> utxo_view demo_coins u' = utxo_view demo_coins demo_utxo2"
proof -
  have "list_all (\<lambda>(k, c). 0 \<le> out_value (coin_out c) \<and> 0 \<le> coin_height c)
      (updated_utxo_set demo_utxo2)" by code_simp
  then have "\<forall>(k, c)\<in>set (updated_utxo_set demo_utxo2). coin_codec demo_coins c"
    using demo_codec by (auto simp: list_all_iff)
  moreover have s: "coin_stats demo_utxo2 = 10013" by code_simp
  have "stats_deserialize demo_coins (stats_serialize demo_coins n) = n" if "0 \<le> n" for n
    using that read_unary_unary [of "nat n" "[]"] by (simp add: demo_coins_def)
  with s have "stats_deserialize demo_coins (stats_serialize demo_coins (coin_stats demo_utxo2)) = coin_stats demo_utxo2" by simp
  ultimately show ?thesis using finalize_keeps_view [OF demo_utxo_ok(2)] by blast
qed

text \<open>An undo block is read back from its octets: the block hash, every restored coin with its
  height and its coinbase bit, and every output to remove, in order, as far as the counts btclib reads
  go.
\<close>

lemma rev_block_round_trip:
  assumes "wire_laws L cap okp okt" "length (rev_hash r) = 32"
    and "\<forall>(p, c)\<in>set (to_add r). okp p \<and> okt (coin_out c) \<and> 0 \<le> coin_height c \<and> 2 * coin_height c + 1 \<le> cap"
    and "\<forall>p\<in>set (to_remove r). okp p" "int (length (to_add r)) \<le> cap" "int (length (to_remove r)) \<le> cap"
  shows "rev_block_deserialize L (rev_block_serialize L r) = Some r"
  by (rule rev_block_round_trip_aux [OF assms])

lemma rev_block_round_trip_witness:
  "rev_block_deserialize demo_coins (rev_block_serialize demo_coins
     \<lparr>rev_hash = replicate 32 3, to_add = [(\<lparr>op_txid = [1], op_index = 2\<rparr>,
        \<lparr>coin_out = \<lparr>out_value = 4, out_script = [9]\<rparr>, coin_height = 7, coin_coinbase = True\<rparr>)], to_remove = []\<rparr>)
   = Some \<lparr>rev_hash = replicate 32 3, to_add = [(\<lparr>op_txid = [1], op_index = 2\<rparr>,
        \<lparr>coin_out = \<lparr>out_value = 4, out_script = [9]\<rparr>, coin_height = 7, coin_coinbase = True\<rparr>)], to_remove = []\<rparr>"
  by (rule rev_block_round_trip [OF demo_wire [of 15]]) simp_all

section \<open>A coin overwritten where it is stored\<close>

text \<open>
  Without the duplicate check, as for the two blocks of \<open>Chain.consensus.bip30_exceptions\<close>, an
  outpoint that is unspent in the store may be created again.  \<open>_unmark_removed\<close> then does not put
  it into \<open>_stored_utxos\<close>, since it was not marked removed, so spending the new coin before the
  next flush marks nothing removed and the record of the overwritten coin is read again.
\<close>

text \<open>
  C18. Where an outpoint is unspent in the store and neither staged nor marked removed, staging a new
  coin under it and spending that coin before a flush leaves the index answering the coin that was
  overwritten, as if neither had happened.
\<close>

theorem overwritten_coin_resurfaces:
  assumes "utxo_ok L u" "stored_coin L (utxo_db u) k = Some old" "k \<notin> staged u" "k \<notin> removed_utxos u"
  shows "\<exists>u'. spend_staged k (put_coin k c (unmark_removed k u)) = Some (c, u') \<and> get_coin L k u' = Inr (Some old)"
proof -
  have "k \<notin> stored_utxos u" using assms(1,3) by (auto simp: utxo_ok_def)
  then have "k \<notin> stored_utxos (restage k c u)" "k \<notin> removed_utxos (restage k c u)"
    "map_of (updated_utxo_set (restage k c u)) k = Some c"
    using assms(4) by (simp_all add: restage_sel)
  then obtain u' where u': "spend_staged k (restage k c u) = Some (c, u')" by (auto simp: spend_staged_def pop_coin_def)
  note sel = spend_staged_sel [OF u']
  have d: "utxo_db u' = utxo_db u" "removed_utxos u' = removed_utxos u - {k}" "map_of (updated_utxo_set u') k = None"
    using sel assms(3,4) \<open>k \<notin> stored_utxos (restage k c u)\<close> by (simp_all add: restage_sel delete_conv')
  have "store_open (utxo_db u')" using assms(1) by (simp add: d(1) utxo_ok_def)
  then have "get_coin L k u' = Inr (Some old)"
    using assms(2,4) d by (simp add: get_coin_def stored_prevout_view)
  then show ?thesis using u' by (simp add: restage_def)
qed

theorem overwritten_coin_resurfaces_witness:
  "\<exists>u u' c. get_coin demo_coins [1, 1, 0, 0] u = Inr (Some c)
     \<and> spend_staged [1, 1, 0, 0] (put_coin [1, 1, 0, 0] (c\<lparr>coin_height := 9\<rparr>) (unmark_removed [1, 1, 0, 0] u))
        = Some (c\<lparr>coin_height := 9\<rparr>, u')
     \<and> get_coin demo_coins [1, 1, 0, 0] u' = Inr (Some c)"
proof -
  let ?k = "[1, 1, 0, 0] :: bytes"
  let ?c = "\<lparr>coin_out = \<lparr>out_value = 5, out_script = [7]\<rparr>, coin_height = 1, coin_coinbase = True\<rparr>"
  let ?u = "\<lparr>utxo_db = empty_store\<lparr>kv_data := [(utxo_key ?k, coin_serialize demo_coins ?c)]\<rparr>, removed_utxos = {},
      updated_utxo_set = [], stored_utxos = {}, undo_log = [], coin_stats = 0 :: int\<rparr>"
  have c: "coin_codec demo_coins ?c" by (rule demo_codec) simp_all
  have ok: "utxo_ok demo_coins ?u"
    using c by (simp add: utxo_ok_def empty_store_def store_open_def records_ok_def store_get_def staged_def
        inj_utxo_key coin_codec_def)
  have st: "stored_coin demo_coins (utxo_db ?u) ?k = Some ?c"
    using c by (simp add: stored_coin_def store_get_def coin_codec_def)
  have "?k \<notin> staged ?u" "?k \<notin> removed_utxos ?u" by (simp_all add: staged_def)
  from overwritten_coin_resurfaces [OF ok st this, of "?c\<lparr>coin_height := 9\<rparr>"] obtain u' where
    u': "spend_staged ?k (put_coin ?k (?c\<lparr>coin_height := 9\<rparr>) (unmark_removed ?k ?u)) = Some (?c\<lparr>coin_height := 9\<rparr>, u')"
      "get_coin demo_coins ?k u' = Inr (Some ?c)" by blast
  have "get_coin demo_coins ?k ?u = Inr (Some ?c)" using st by (simp add: get_coin_view [OF ok] utxo_view_def)
  with u' show ?thesis by blast
qed

end
