(* ===== verification/Block_Store.thy ===== *)
theory Block_Store
  imports Utxo_Index
begin

text \<open>
  \<open>BlockDB\<close> of \<open>block_db/__init__.py\<close> and the readers of \<open>stored_block.py\<close>: blocks and undo blocks
  appended to numbered files, with their locations in a key-value store of their own.  The directory
  is a map from file names to contents, a file name its octets; the two open handles are the names they
  are open on, and opening one creates the file.  Every operation is a function to an \<open>option\<close>: \<open>None\<close>
  is a KeyError, a parse that fails, a closed store or an undo block of a block not held.  Locking is left out.
\<close>

section \<open>What btclib answers\<close>

record 'm block_lib =
  bk_coins :: "'m utxo_lib"
  long_parse :: "bytes \<Rightarrow> (int \<times> bytes) option"
    \<comment> \<open>\<open>var_int.parse\<close> with the cap of eight octets\<close>
  block_octets :: "raw_block \<Rightarrow> bytes"
  block_of :: "bytes \<Rightarrow> raw_block option"
  header_of :: "bytes \<Rightarrow> (bytes \<times> bool) option"
    \<comment> \<open>the hash of the header the octets start with, and whether its proof of work holds\<close>
  signet_ok :: "bytes \<Rightarrow> bool"
    \<comment> \<open>the solution of a signet block; true on every other chain\<close>

section \<open>Names and locations\<close>

fun decimal :: "nat \<Rightarrow> bytes" where
  "decimal n = (if n < 10 then [48 + of_nat n] else decimal (n div 10) @ [48 + of_nat (n mod 10)])"

declare decimal.simps [simp del]

definition decimal6 :: "nat \<Rightarrow> bytes" where
  \<comment> \<open>\<open>f"{n:06d}"\<close>\<close>
  "decimal6 n = replicate (6 - length (decimal n)) 48 @ decimal n"

definition blk_suffix :: bytes where
  \<comment> \<open>\<open>.blk\<close>\<close>
  "blk_suffix = [46, 98, 108, 107]"

definition rev_suffix :: bytes where
  \<comment> \<open>\<open>.rev\<close>\<close>
  "rev_suffix = [46, 114, 101, 118]"

definition blk_name :: "nat \<Rightarrow> bytes" where
  "blk_name n = decimal6 n @ blk_suffix"

definition rev_name :: "nat \<Rightarrow> bytes" where
  "rev_name n = decimal6 n @ rev_suffix"

definition stem :: "bytes \<Rightarrow> bytes" where
  \<comment> \<open>\<open>Path(name).stem\<close> of a name with a dot past its start\<close>
  "stem name = (let r = dropWhile (\<lambda>c. c \<noteq> 46) (rev name) in if r = [] then name else rev (tl r))"

definition decimal_value :: "bytes \<Rightarrow> nat option" where
  \<comment> \<open>\<open>int(...)\<close> of decimal digits\<close>
  "decimal_value ds =
     (if ds \<noteq> [] \<and> (\<forall>d\<in>set ds. 48 \<le> d \<and> d \<le> 57) then Some (foldl (\<lambda>n d. 10 * n + unat (d - 48)) 0 ds) else None)"

record block_location =
  loc_filename :: bytes
  loc_index :: nat
  loc_size :: nat

record file_metadata =
  fm_filename :: bytes
  fm_size :: nat

definition location_serialize :: "'m block_lib \<Rightarrow> block_location \<Rightarrow> bytes" where
  "location_serialize K l =
     (let L = bk_coins K
      in size_serialize L (int (length (loc_filename l))) @ loc_filename l
           @ size_serialize L (int (loc_index l)) @ size_serialize L (int (loc_size l)))"

definition location_deserialize :: "'m block_lib \<Rightarrow> bytes \<Rightarrow> block_location option" where
  "location_deserialize K data =
     do {
       (n, rest) \<leftarrow> size_parse (bk_coins K) data;
       let filename = take (nat n) rest;
       (i, rest) \<leftarrow> long_parse K (drop (nat n) rest);
       (len, _) \<leftarrow> long_parse K rest;
       Some \<lparr> loc_filename = filename, loc_index = nat i, loc_size = nat len \<rparr>
     }"

definition metadata_serialize :: "'m block_lib \<Rightarrow> file_metadata \<Rightarrow> bytes" where
  "metadata_serialize K m =
     size_serialize (bk_coins K) (int (length (fm_filename m))) @ fm_filename m
       @ size_serialize (bk_coins K) (int (fm_size m))"

definition metadata_deserialize :: "'m block_lib \<Rightarrow> bytes \<Rightarrow> file_metadata option" where
  "metadata_deserialize K data =
     do {
       (n, rest) \<leftarrow> size_parse (bk_coins K) data;
       let filename = take (nat n) rest;
       (len, _) \<leftarrow> long_parse K (drop (nat n) rest);
       Some \<lparr> fm_filename = filename, fm_size = nat len \<rparr>
     }"

section \<open>The state\<close>

record block_store =
  bs_db :: kv_store
  bs_disk :: "bytes \<rightharpoonup> bytes"
  bs_files :: "(bytes, file_metadata) dict"
  bs_blocks :: "(bytes, block_location) dict"
  bs_rev_patches :: "(bytes, block_location) dict"
  bs_live :: "(bytes, nat) dict"
  bs_pruned_up_to :: int
  bs_pending :: "(bytes, rev_block) dict"
  bs_open_block :: "bytes option"
  bs_open_rev :: "bytes option"
  bs_file_index :: nat

definition db_put :: "bytes \<Rightarrow> bytes \<Rightarrow> block_store \<Rightarrow> block_store option" where
  "db_put k v s = (case kv_put k v (bs_db s) of Inl _ \<Rightarrow> None | Inr d \<Rightarrow> Some (s\<lparr> bs_db := d \<rparr>))"

definition db_delete :: "bytes \<Rightarrow> block_store \<Rightarrow> block_store option" where
  "db_delete k s = (case kv_delete k (bs_db s) of Inl _ \<Rightarrow> None | Inr d \<Rightarrow> Some (s\<lparr> bs_db := d \<rparr>))"

definition count_up :: "bytes \<Rightarrow> (bytes, nat) dict \<Rightarrow> (bytes, nat) dict" where
  \<comment> \<open>\<open>live[name] = live.get(name, 0) + 1\<close>\<close>
  "count_up name live = AList.update name ((case map_of live name of None \<Rightarrow> 0 | Some n \<Rightarrow> n) + 1) live"

definition count_live :: "block_store \<Rightarrow> block_store" where
  "count_live s =
     s\<lparr> bs_live := fold (\<lambda>l. count_up (loc_filename l)) (map snd (bs_blocks s) @ map snd (bs_rev_patches s)) [] \<rparr>"

definition is_current :: "block_store \<Rightarrow> bytes \<Rightarrow> bool" where
  "is_current s name \<longleftrightarrow> stem name = decimal6 (bs_file_index s)"

definition unlink_file :: "bytes \<Rightarrow> block_store \<Rightarrow> block_store option" where
  "unlink_file name s =
     do {
       let s = s\<lparr> bs_disk := (bs_disk s)(name := None) \<rparr>;
       s \<leftarrow> (if name \<in> fst ` set (bs_files s) then Some (s\<lparr> bs_files := AList.delete name (bs_files s) \<rparr>) else None);
       db_delete (102 # name) s
     }"

definition sweep_empty_files :: "block_store \<Rightarrow> block_store option" where
  "sweep_empty_files s =
     fold_opt (\<lambda>name s. if name \<notin> fst ` set (bs_live s) \<and> \<not> is_current s name then unlink_file name s else Some s)
       (map fst (bs_files s)) s"

definition load_entry :: "'m block_lib \<Rightarrow> bytes \<times> bytes \<Rightarrow> block_store \<Rightarrow> block_store option" where
  \<comment> \<open>one turn of the loop over the store; the first octets are f, b, r, and the whole keys i and p\<close>
  "load_entry K kv s =
     (let (key, value) = kv
      in if take 1 key = [102] then do { m \<leftarrow> metadata_deserialize K value; Some (s\<lparr> bs_files := AList.update (drop 1 key) m (bs_files s) \<rparr>) }
         else if take 1 key = [98] then do { l \<leftarrow> location_deserialize K value; Some (s\<lparr> bs_blocks := AList.update (drop 1 key) l (bs_blocks s) \<rparr>) }
         else if take 1 key = [114] then do { l \<leftarrow> location_deserialize K value; Some (s\<lparr> bs_rev_patches := AList.update (drop 1 key) l (bs_rev_patches s) \<rparr>) }
         else if key = [105] then do { (i, _) \<leftarrow> long_parse K value; Some (s\<lparr> bs_file_index := nat i \<rparr>) }
         else if key = [112] then do { (p, _) \<leftarrow> long_parse K value; Some (s\<lparr> bs_pruned_up_to := p - 1 \<rparr>) }
         else Some s)"

definition load_block_store :: "'m block_lib \<Rightarrow> block_store \<Rightarrow> block_store option" where
  \<comment> \<open>\<open>init_from_db\<close>\<close>
  "load_block_store K s =
     (case kv_iter (bs_db s) of
        Inl _ \<Rightarrow> None
      | Inr ps \<Rightarrow> do { s \<leftarrow> fold_opt (load_entry K) ps s; sweep_empty_files (count_live s) })"

definition open_block_store :: "'m block_lib \<Rightarrow> kv_store \<Rightarrow> (bytes \<rightharpoonup> bytes) \<Rightarrow> block_store option" where
  \<comment> \<open>\<open>__init__\<close> on a directory\<close>
  "open_block_store K d disk =
     load_block_store K
       \<lparr> bs_db = d, bs_disk = disk, bs_files = [], bs_blocks = [], bs_rev_patches = [], bs_live = [],
         bs_pruned_up_to = - 1, bs_pending = [], bs_open_block = None, bs_open_rev = None, bs_file_index = 0 \<rparr>"

definition wipe_undo :: "block_store \<Rightarrow> block_store option" where
  "wipe_undo s =
     (case kv_delete_prefix [114] (bs_db s) of
        Inl _ \<Rightarrow> None
      | Inr d \<Rightarrow> sweep_empty_files (count_live (s\<lparr> bs_db := d, bs_rev_patches := [] \<rparr>)))"

definition close_block_store :: "block_store \<Rightarrow> block_store" where
  "close_block_store s = s\<lparr> bs_db := kv_close (bs_db s) \<rparr>"

section \<open>Files\<close>

definition touch :: "bytes \<Rightarrow> (bytes \<rightharpoonup> bytes) \<Rightarrow> (bytes \<rightharpoonup> bytes)" where
  \<comment> \<open>\<open>open("a+b")\<close> on a name\<close>
  "touch name disk = (case disk name of None \<Rightarrow> disk(name \<mapsto> []) | Some _ \<Rightarrow> disk)"

definition get_block_file :: "bytes \<Rightarrow> block_store \<Rightarrow> block_store" where
  "get_block_file name s =
     (if bs_open_block s = Some name then s
      else s\<lparr> bs_disk := touch name (bs_disk s), bs_open_block := Some name \<rparr>)"

definition get_rev_file :: "bytes \<Rightarrow> block_store \<Rightarrow> block_store" where
  "get_rev_file name s =
     (if bs_open_rev s = Some name then s
      else s\<lparr> bs_disk := touch name (bs_disk s), bs_open_rev := Some name \<rparr>)"

definition put_metadata :: "'m block_lib \<Rightarrow> file_metadata \<Rightarrow> block_store \<Rightarrow> block_store option" where
  \<comment> \<open>\<open>files[name] = metadata\<close> and its record\<close>
  "put_metadata K m s =
     db_put (102 # fm_filename m) (metadata_serialize K m) (s\<lparr> bs_files := AList.update (fm_filename m) m (bs_files s) \<rparr>)"

definition file_bound :: nat where
  \<comment> \<open>\<open>128 * 1000 ** 2\<close>\<close>
  "file_bound = 128000000"

definition find_block_file :: "'m block_lib \<Rightarrow> block_store \<Rightarrow> (bytes \<times> block_store) option" where
  "find_block_file K s =
     do {
       full \<leftarrow> (if bs_file_index s = 0 then Some True
                else do { m \<leftarrow> map_of (bs_files s) (blk_name (bs_file_index s)); Some (fm_size m > file_bound) });
       s \<leftarrow> (if full then do {
                let i = bs_file_index s + 1;
                s \<leftarrow> put_metadata K \<lparr> fm_filename = blk_name i, fm_size = 0 \<rparr> (s\<lparr> bs_file_index := i \<rparr>);
                db_put [105] (size_serialize (bk_coins K) (int i)) s
              }
              else Some s);
       let name = blk_name (bs_file_index s);
       Some (name, get_block_file name s)
     }"

definition find_rev_file :: "'m block_lib \<Rightarrow> nat \<Rightarrow> block_store \<Rightarrow> (bytes \<times> block_store) option" where
  "find_rev_file K file_index s =
     do {
       let name = rev_name file_index;
       s \<leftarrow> (if name \<notin> fst ` set (bs_files s) then put_metadata K \<lparr> fm_filename = name, fm_size = 0 \<rparr> s else Some s);
       Some (name, get_rev_file name s)
     }"

definition append_file :: "bytes \<Rightarrow> bytes \<Rightarrow> block_store \<Rightarrow> block_store option" where
  \<comment> \<open>\<open>write\<close> to a handle open for appending: the octets go to the end of the file\<close>
  "append_file name data s = do { old \<leftarrow> bs_disk s name; Some (s\<lparr> bs_disk := (bs_disk s)(name \<mapsto> old @ data) \<rparr>) }"

definition add_data_to_file :: "'m block_lib \<Rightarrow> bytes \<Rightarrow> bytes \<Rightarrow> block_store \<Rightarrow> ((nat \<times> nat) \<times> block_store) option" where
  "add_data_to_file K name data s =
     do {
       s \<leftarrow> append_file name data s;
       m \<leftarrow> map_of (bs_files s) name;
       s \<leftarrow> put_metadata K (m\<lparr> fm_size := fm_size m + length data \<rparr>) s;
       Some ((fm_size m, length data), s)
     }"

definition get_data_from_file :: "bytes \<Rightarrow> nat \<Rightarrow> nat \<Rightarrow> block_store \<Rightarrow> bytes option" where
  "get_data_from_file name i n s = do { content \<leftarrow> bs_disk s name; Some (take n (drop i content)) }"

section \<open>Blocks and undo blocks\<close>

definition store_block :: "'m block_lib \<Rightarrow> raw_block \<Rightarrow> block_store \<Rightarrow> block_store option" where
  \<comment> \<open>\<open>add_block\<close>\<close>
  "store_block K b s =
     (if raw_hash b \<in> fst ` set (bs_blocks s) then Some s
      else do {
        let data = block_octets K b;
        (name, s) \<leftarrow> find_block_file K s;
        ((i, len), s) \<leftarrow> add_data_to_file K name data s;
        let loc = \<lparr> loc_filename = name, loc_index = i, loc_size = len \<rparr>;
        s \<leftarrow> db_put (98 # raw_hash b) (location_serialize K loc) (s\<lparr> bs_blocks := AList.update (raw_hash b) loc (bs_blocks s) \<rparr>);
        Some (s\<lparr> bs_live := count_up name (bs_live s) \<rparr>)
      })"

definition add_rev_block :: "rev_block \<Rightarrow> block_store \<Rightarrow> block_store" where
  "add_rev_block r s =
     (if rev_hash r \<in> fst ` set (bs_rev_patches s) \<or> rev_hash r \<in> fst ` set (bs_pending s) then s
      else s\<lparr> bs_pending := AList.update (rev_hash r) r (bs_pending s) \<rparr>)"

definition write_rev :: "'m block_lib \<Rightarrow> bytes \<times> rev_block \<Rightarrow> block_store \<Rightarrow> block_store option" where
  "write_rev K hr s =
     do {
       let (h, r) = hr;
       held \<leftarrow> map_of (bs_blocks s) h;
       file_index \<leftarrow> decimal_value (stem (loc_filename held));
       let data = rev_block_serialize (bk_coins K) r;
       (name, s) \<leftarrow> find_rev_file K file_index s;
       ((i, len), s) \<leftarrow> add_data_to_file K name data s;
       let loc = \<lparr> loc_filename = name, loc_index = i, loc_size = len \<rparr>;
       s \<leftarrow> db_put (114 # h) (location_serialize K loc) (s\<lparr> bs_rev_patches := AList.update h loc (bs_rev_patches s) \<rparr>);
       Some (s\<lparr> bs_live := count_up name (bs_live s) \<rparr>)
     }"

definition finalize_revs :: "'m block_lib \<Rightarrow> block_store \<Rightarrow> block_store option" where
  \<comment> \<open>\<open>finalize\<close>\<close>
  "finalize_revs K s = do { s \<leftarrow> fold_opt (write_rev K) (bs_pending s) s; Some (s\<lparr> bs_pending := [] \<rparr>) }"

definition rollback_revs :: "block_store \<Rightarrow> block_store" where
  \<comment> \<open>\<open>rollback\<close>\<close>
  "rollback_revs s = s\<lparr> bs_pending := [] \<rparr>"

definition has_block :: "bytes \<Rightarrow> block_store \<Rightarrow> bool" where
  "has_block h s \<longleftrightarrow> h \<in> fst ` set (bs_blocks s)"

definition get_raw_block :: "bytes \<Rightarrow> block_store \<Rightarrow> (bytes option \<times> block_store) option" where
  "get_raw_block h s =
     (case map_of (bs_blocks s) h of
        None \<Rightarrow> Some (None, s)
      | Some l \<Rightarrow> do {
          let s = get_block_file (loc_filename l) s;
          data \<leftarrow> get_data_from_file (loc_filename l) (loc_index l) (loc_size l) s;
          Some (Some data, s)
        })"

definition get_block :: "'m block_lib \<Rightarrow> bytes \<Rightarrow> block_store \<Rightarrow> (raw_block option \<times> block_store) option" where
  "get_block K h s =
     do {
       (data, s) \<leftarrow> get_raw_block h s;
       case data of None \<Rightarrow> Some (None, s) | Some octets \<Rightarrow> do { b \<leftarrow> block_of K octets; Some (Some b, s) }
     }"

definition stored_tx_count :: "'m block_lib \<Rightarrow> bytes \<Rightarrow> block_store \<Rightarrow> (int option \<times> block_store) option" where
  \<comment> \<open>\<open>tx_count\<close>: eighty octets of header and at most nine of a count\<close>
  "stored_tx_count K h s =
     (case map_of (bs_blocks s) h of
        None \<Rightarrow> Some (None, s)
      | Some l \<Rightarrow> do {
          let s = get_block_file (loc_filename l) s;
          head \<leftarrow> get_data_from_file (loc_filename l) (loc_index l) (min (loc_size l) (80 + 9)) s;
          (n, _) \<leftarrow> size_parse (bk_coins K) (drop 80 head);
          Some (Some n, s)
        })"

definition get_rev_block :: "'m block_lib \<Rightarrow> bytes \<Rightarrow> block_store \<Rightarrow> (rev_block option \<times> block_store) option" where
  "get_rev_block K h s =
     (case map_of (bs_rev_patches s) h of
        None \<Rightarrow> Some (None, s)
      | Some l \<Rightarrow> do {
          let s = get_rev_file (loc_filename l) s;
          data \<leftarrow> get_data_from_file (loc_filename l) (loc_index l) (loc_size l) s;
          r \<leftarrow> rev_block_deserialize (bk_coins K) data;
          Some (Some r, s)
        })"

section \<open>Pruning\<close>

definition release :: "bytes \<Rightarrow> bool \<Rightarrow> block_store \<Rightarrow> block_store option" where
  "release name is_block s =
     (let remaining = int (case map_of (bs_live s) name of None \<Rightarrow> 0 | Some n \<Rightarrow> n) - 1
      in if remaining > 0 then Some (s\<lparr> bs_live := AList.update name (nat remaining) (bs_live s) \<rparr>)
         else let s = s\<lparr> bs_live := AList.delete name (bs_live s) \<rparr>
              in if is_current s name then Some s
                 else unlink_file name
                        (if \<not> is_block \<and> bs_open_rev s = Some name then s\<lparr> bs_open_rev := None \<rparr> else s))"

definition delete_block :: "bytes \<Rightarrow> block_store \<Rightarrow> block_store option" where
  "delete_block h s =
     (case map_of (bs_blocks s) h of
        None \<Rightarrow> Some s
      | Some l \<Rightarrow> do {
          s \<leftarrow> db_delete (98 # h) (s\<lparr> bs_blocks := AList.delete h (bs_blocks s) \<rparr>);
          release (loc_filename l) True s
        })"

definition delete_rev_block :: "bytes \<Rightarrow> block_store \<Rightarrow> block_store option" where
  "delete_rev_block h s =
     (case map_of (bs_rev_patches s) h of
        None \<Rightarrow> Some s
      | Some l \<Rightarrow> do {
          s \<leftarrow> db_delete (114 # h) (s\<lparr> bs_rev_patches := AList.delete h (bs_rev_patches s) \<rparr>);
          release (loc_filename l) False s
        })"

definition prune_block :: "(int \<Rightarrow> bytes option) \<Rightarrow> int \<Rightarrow> block_store \<Rightarrow> block_store option" where
  "prune_block hash_at_height height s =
     do { h \<leftarrow> hash_at_height height; s \<leftarrow> delete_block h s; delete_rev_block h s }"

definition prune_up_to :: "'m block_lib \<Rightarrow> int \<Rightarrow> (int \<Rightarrow> bytes option) \<Rightarrow> block_store \<Rightarrow> block_store option" where
  "prune_up_to K target_height hash_at_height s =
     (if target_height \<le> bs_pruned_up_to s then Some s
      else do {
        s \<leftarrow> fold_opt (prune_block hash_at_height) [bs_pruned_up_to s + 1..target_height] s;
        db_put [112] (size_serialize (bk_coins K) (target_height + 1)) (s\<lparr> bs_pruned_up_to := target_height \<rparr>)
      })"

definition current_usage :: "block_store \<Rightarrow> nat" where
  "current_usage s = sum_list (map (\<lambda>(_, m). fm_size m) (bs_files s))"

section \<open>Checked reads\<close>

definition read_checked :: "'m block_lib \<Rightarrow> bytes \<Rightarrow> block_store \<Rightarrow> ((exc + bytes option) \<times> block_store) option" where
  \<comment> \<open>\<open>stored_block._read\<close>: the octets where the header they start with is the one asked for\<close>
  "read_checked K h s =
     do {
       (data, s) \<leftarrow> get_raw_block h s;
       Some (case data of
           None \<Rightarrow> Inr None
         | Some octets \<Rightarrow>
             (case header_of K octets of
                None \<Rightarrow> Inl (BTClibValueError ''header'')
              | Some (hash, pow_ok) \<Rightarrow>
                  if \<not> pow_ok then Inl (BTClibValueError ''proof of work'')
                  else if \<not> signet_ok K octets then Inl (BTClibValueError ''signet solution'')
                  else if hash \<noteq> h then Inl (BTClibValueError ''stored block hash'')
                  else Inr (Some octets)), s)
     }"

definition read_checked_block :: "'m block_lib \<Rightarrow> bytes \<Rightarrow> block_store \<Rightarrow> ((exc + raw_block option) \<times> block_store) option" where
  "read_checked_block K h s =
     do {
       (r, s) \<leftarrow> read_checked K h s;
       Some (case r of
           Inl e \<Rightarrow> Inl e
         | Inr None \<Rightarrow> Inr None
         | Inr (Some octets) \<Rightarrow> (case block_of K octets of None \<Rightarrow> Inl (BTClibValueError ''block'') | Some b \<Rightarrow> Inr (Some b)), s)
     }"

definition read_held_block :: "'m block_lib \<Rightarrow> bytes \<Rightarrow> block_store \<Rightarrow> ((exc + raw_block option) \<times> block_store) option" where
  "read_held_block K h s =
     do {
       (r, s) \<leftarrow> read_checked_block K h s;
       Some (case r of
           Inl (BTClibValueError m) \<Rightarrow> Inl (ChainstateInconsistencyError (''cannot read block from the store: '' @ m))
         | _ \<Rightarrow> r, s)
     }"

end
