(* ===== verification/Block_Store_Files.thy ===== *)
theory Block_Store_Files
  imports Block_Store "HOL-Library.Multiset"
begin

text \<open>
  The files of the block store: their names are told apart and read back, and the invariant of the
  store, that its records in the database are those in memory, every file as long as recorded and every
  location inside its file, through opening a file and appending to one.
\<close>

section \<open>Names\<close>

lemma digit_value: "n < 10 \<Longrightarrow> 48 \<le> (48 + of_nat n :: 8 word) \<and> (48 + of_nat n :: 8 word) \<le> 57 \<and> unat ((48 + of_nat n :: 8 word) - 48) = n"
  by (auto simp: word_le_nat_alt unat_word_ariths unat_of_nat take_bit_nat_def)

lemma decimal_digits: "\<forall>d\<in>set (decimal n). 48 \<le> d \<and> d \<le> 57"
proof (induction n rule: decimal.induct)
  case (1 n)
  then show ?case using digit_value [of n] digit_value [of "n mod 10"]
    by (subst decimal.simps) (auto simp del: decimal.simps)
qed

lemma decimal_reads: "foldl (\<lambda>n d. 10 * n + unat (d - 48)) 0 (decimal n) = n"
proof (induction n rule: decimal.induct)
  case (1 n)
  show ?case
  proof (cases "n < 10")
    case True
    then show ?thesis using digit_value [of n] by (subst decimal.simps) simp
  next
    case False
    with 1 have "foldl (\<lambda>n d. 10 * n + unat (d - 48)) 0 (decimal (n div 10)) = n div 10" by blast
    then show ?thesis using False digit_value [of "n mod 10"] by (subst decimal.simps) simp
  qed
qed

lemma decimal_nonempty: "decimal n \<noteq> []"
  by (subst decimal.simps) simp

lemma leading_zeros: "foldl (\<lambda>n d. 10 * n + unat (d - 48)) (0::nat) (replicate k (48 :: 8 word) @ ds) = foldl (\<lambda>n d. 10 * n + unat (d - 48)) 0 ds"
  by (induction k) simp_all

lemma decimal6_reads: "decimal_value (decimal6 n) = Some n"
proof -
  have "\<forall>d\<in>set (decimal6 n). 48 \<le> d \<and> d \<le> 57" using decimal_digits [of n] by (auto simp: decimal6_def)
  then show ?thesis using decimal_nonempty [of n] leading_zeros [of _ "decimal n"] decimal_reads [of n]
    by (simp add: decimal_value_def decimal6_def)
qed

lemma decimal6_inj: "decimal6 m = decimal6 n \<longleftrightarrow> m = n"
  using decimal6_reads by (metis option.inject)

lemma no_dot: "46 \<notin> set (decimal6 n)"
proof
  assume "46 \<in> set (decimal6 n)"
  then have "48 \<le> (46 :: 8 word)" using decimal_digits [of n] by (auto simp: decimal6_def)
  then show False by simp
qed

lemma stem_name:
  assumes "46 \<notin> set ys"
  shows "stem (xs @ 46 # ys) = xs"
proof -
  have "dropWhile (\<lambda>c. c \<noteq> 46) (rev ys @ 46 # rev xs) = 46 # rev xs"
    using assms by (induction "rev ys" arbitrary: ys) (auto simp: dropWhile_append)
  then show ?thesis by (simp add: stem_def)
qed

lemma stem_names [simp]: "stem (blk_name n) = decimal6 n" "stem (rev_name n) = decimal6 n"
  using stem_name [of "[98, 108, 107]" "decimal6 n"] stem_name [of "[114, 101, 118]" "decimal6 n"]
  by (simp_all add: blk_name_def rev_name_def blk_suffix_def rev_suffix_def)

lemma names_apart [simp]: "blk_name m = blk_name n \<longleftrightarrow> m = n" "rev_name m = rev_name n \<longleftrightarrow> m = n"
  "blk_name m \<noteq> rev_name n" "rev_name n \<noteq> blk_name m"
proof -
  show "blk_name m = blk_name n \<longleftrightarrow> m = n" "rev_name m = rev_name n \<longleftrightarrow> m = n"
    using decimal6_inj [of m n] by (simp_all add: blk_name_def rev_name_def)
  have "last (blk_name m) \<noteq> last (rev_name n)" by (simp add: blk_name_def rev_name_def blk_suffix_def rev_suffix_def)
  then show "blk_name m \<noteq> rev_name n" "rev_name n \<noteq> blk_name m" by metis+
qed

lemma current_names [simp]: "is_current s (blk_name n) \<longleftrightarrow> n = bs_file_index s" "is_current s (rev_name n) \<longleftrightarrow> n = bs_file_index s"
  by (simp_all add: is_current_def decimal6_inj)

section \<open>The invariant\<close>

definition location_data :: "block_store \<Rightarrow> block_location \<Rightarrow> bytes" where
  "location_data s l = take (loc_size l) (drop (loc_index l) (the (bs_disk s (loc_filename l))))"

definition db_mirrors :: "'m block_lib \<Rightarrow> block_store \<Rightarrow> bool" where
  \<comment> \<open>the records of the store are those of the memory\<close>
  "db_mirrors K s \<longleftrightarrow>
     store_open (bs_db s) \<and> pairs_ok (kv_data (bs_db s))
     \<and> (\<forall>n. store_get (bs_db s) (102 # n) = map_option (metadata_serialize K) (map_of (bs_files s) n))
     \<and> (\<forall>h. store_get (bs_db s) (98 # h) = map_option (location_serialize K) (map_of (bs_blocks s) h))
     \<and> (\<forall>h. store_get (bs_db s) (114 # h) = map_option (location_serialize K) (map_of (bs_rev_patches s) h))
     \<and> store_get (bs_db s) [105] = (if bs_file_index s = 0 then None else Some (size_serialize (bk_coins K) (int (bs_file_index s))))
     \<and> store_get (bs_db s) [112] = (if bs_pruned_up_to s = - 1 then None else Some (size_serialize (bk_coins K) (bs_pruned_up_to s + 1)))
     \<and> - 1 \<le> bs_pruned_up_to s"

definition file_number :: "block_store \<Rightarrow> nat \<Rightarrow> bool" where
  "file_number s i \<longleftrightarrow> 0 < i \<and> i \<le> bs_file_index s"

definition files_hold :: "block_store \<Rightarrow> bool" where
  \<comment> \<open>the directory holds the files recorded, each as long as recorded\<close>
  "files_hold s \<longleftrightarrow>
     distinct (map fst (bs_files s)) \<and> dom (bs_disk s) = fst ` set (bs_files s)
     \<and> (\<forall>n m. map_of (bs_files s) n = Some m \<longrightarrow>
          fm_filename m = n \<and> length (the (bs_disk s n)) = fm_size m \<and> (\<exists>i. file_number s i \<and> (n = blk_name i \<or> n = rev_name i)))
     \<and> (0 < bs_file_index s \<longrightarrow> blk_name (bs_file_index s) \<in> dom (bs_disk s))"

definition located :: "block_store \<Rightarrow> (nat \<Rightarrow> bytes) \<Rightarrow> (bytes, block_location) dict \<Rightarrow> bool" where
  \<comment> \<open>every location lies inside a file of the right kind\<close>
  "located s name d \<longleftrightarrow>
     distinct (map fst d)
     \<and> (\<forall>l\<in>snd ` set d. \<exists>i c. file_number s i \<and> loc_filename l = name i \<and> bs_disk s (name i) = Some c
          \<and> loc_index l + loc_size l \<le> length c)"

definition file_names :: "block_store \<Rightarrow> bytes multiset" where
  "file_names s = image_mset (\<lambda>p. loc_filename (snd p)) (mset (bs_blocks s) + mset (bs_rev_patches s))"

definition live_counts :: "block_store \<Rightarrow> bool" where
  "live_counts s \<longleftrightarrow>
     distinct (map fst (bs_live s))
     \<and> (\<forall>n. map_of (bs_live s) n = (if n \<in># file_names s then Some (count (file_names s) n) else None))"

definition handles_ok :: "block_store \<Rightarrow> bool" where
  \<comment> \<open>an open \<open>.rev\<close> file is on the disk; an open \<open>.blk\<close> file may have been unlinked\<close>
  "handles_ok s \<longleftrightarrow>
     (\<forall>n. bs_open_block s = Some n \<longrightarrow> (\<exists>i. file_number s i \<and> n = blk_name i))
     \<and> (\<forall>n. bs_open_rev s = Some n \<longrightarrow> (\<exists>i. n = rev_name i) \<and> n \<in> dom (bs_disk s))"

definition pending_ok :: "block_store \<Rightarrow> bool" where
  "pending_ok s \<longleftrightarrow>
     distinct (map fst (bs_pending s)) \<and> (\<forall>(h, r)\<in>set (bs_pending s). rev_hash r = h)
     \<and> fst ` set (bs_pending s) \<inter> fst ` set (bs_rev_patches s) = {}"

definition bs_ok :: "'m block_lib \<Rightarrow> block_store \<Rightarrow> bool" where
  "bs_ok K s \<longleftrightarrow>
     db_mirrors K s \<and> files_hold s \<and> located s blk_name (bs_blocks s) \<and> located s rev_name (bs_rev_patches s)
     \<and> live_counts s \<and> handles_ok s \<and> pending_ok s"

definition raw_view :: "block_store \<Rightarrow> bytes \<Rightarrow> bytes option" where
  \<comment> \<open>the octets held under a hash\<close>
  "raw_view s h = map_option (location_data s) (map_of (bs_blocks s) h)"

definition rev_view :: "block_store \<Rightarrow> bytes \<Rightarrow> bytes option" where
  "rev_view s h = map_option (location_data s) (map_of (bs_rev_patches s) h)"

definition keeps_views :: "block_store \<Rightarrow> block_store \<Rightarrow> bool" where
  \<comment> \<open>what is held under each hash, what waits to be written, and how far is pruned\<close>
  "keeps_views s s' \<longleftrightarrow> raw_view s' = raw_view s \<and> rev_view s' = rev_view s \<and> bs_pending s' = bs_pending s
     \<and> bs_pruned_up_to s' = bs_pruned_up_to s"

lemma keeps_views_refl: "keeps_views s s"
  by (simp add: keeps_views_def)

lemma keeps_views_trans: "keeps_views s t \<Longrightarrow> keeps_views t u \<Longrightarrow> keeps_views s u"
  by (simp add: keeps_views_def)

section \<open>The store below\<close>

lemma db_put_ok:
  assumes "store_open (bs_db s)" "pairs_ok (kv_data (bs_db s))"
  shows "\<exists>d. db_put k v s = Some (s\<lparr> bs_db := d \<rparr>) \<and> store_open d \<and> pairs_ok (kv_data d)
    \<and> (\<forall>x. store_get d x = (if x = k then Some v else store_get (bs_db s) x))"
  using assms by (auto simp: db_put_def kv_put_def ensure_open_def store_open_def store_get_def map_of_pairs_put pairs_ok_put)

lemma db_delete_ok:
  assumes "store_open (bs_db s)" "pairs_ok (kv_data (bs_db s))"
  shows "\<exists>d. db_delete k s = Some (s\<lparr> bs_db := d \<rparr>) \<and> store_open d \<and> pairs_ok (kv_data d)
    \<and> (\<forall>x. store_get d x = (if x = k then None else store_get (bs_db s) x))"
proof -
  let ?d = "(bs_db s)\<lparr> kv_data := pairs_delete k (kv_data (bs_db s)) \<rparr>"
  have "db_delete k s = Some (s\<lparr> bs_db := ?d \<rparr>)"
    using assms by (simp add: db_delete_def kv_delete_def ensure_open_def store_open_def)
  moreover have "store_open ?d" "\<forall>x. store_get ?d x = (if x = k then None else store_get (bs_db s) x)"
    using assms by (simp_all add: store_open_def store_get_def map_of_pairs_delete)
  moreover have "pairs_ok (kv_data ?d)" using assms by (simp add: pairs_delete_def pairs_ok_filter)
  ultimately show ?thesis by blast
qed

section \<open>Files that only grow\<close>

definition grows :: "block_store \<Rightarrow> block_store \<Rightarrow> bool" where
  "grows s s' \<longleftrightarrow> bs_file_index s \<le> bs_file_index s' \<and> (\<forall>n c. bs_disk s n = Some c \<longrightarrow> (\<exists>x. bs_disk s' n = Some (c @ x)))"

lemma located_grows:
  assumes "located s name d" "grows s s'"
  shows "located s' name d" "\<forall>l\<in>snd ` set d. location_data s' l = location_data s l"
proof -
  have "\<exists>i c. file_number s' i \<and> loc_filename l = name i \<and> bs_disk s' (name i) = Some c \<and> loc_index l + loc_size l \<le> length c
      \<and> location_data s' l = location_data s l" if l: "l \<in> snd ` set d" for l
  proof -
    obtain i c where ic: "file_number s i" "loc_filename l = name i" "bs_disk s (name i) = Some c" "loc_index l + loc_size l \<le> length c"
      using assms(1) l unfolding located_def by blast
    obtain x where x: "bs_disk s' (name i) = Some (c @ x)" using assms(2) ic(3) unfolding grows_def by blast
    have "file_number s' i" using ic(1) assms(2) by (auto simp: file_number_def grows_def)
    then show ?thesis using ic x by (intro exI [of _ i] exI [of _ "c @ x"]) (auto simp: location_data_def)
  qed
  then show "located s' name d" "\<forall>l\<in>snd ` set d. location_data s' l = location_data s l"
    using assms(1) unfolding located_def by blast+
qed

lemma map_of_snd: "map_of d h = Some l \<Longrightarrow> l \<in> snd ` set d"
  by (force dest: map_of_SomeD)

lemma grows_views:
  assumes "located s blk_name (bs_blocks s)" "located s rev_name (bs_rev_patches s)" "grows s s'"
    and "bs_blocks s' = bs_blocks s" "bs_rev_patches s' = bs_rev_patches s"
    and "bs_pending s' = bs_pending s" "bs_pruned_up_to s' = bs_pruned_up_to s"
  shows "keeps_views s s'"
  using located_grows(2) [OF assms(1,3)] located_grows(2) [OF assms(2,3)] assms(4-)
  by (auto simp: keeps_views_def raw_view_def rev_view_def fun_eq_iff map_option_case split: option.splits dest: map_of_snd)

lemma touch_held: "n \<in> dom d \<Longrightarrow> touch n d = d"
  by (auto simp: touch_def)

lemma get_file_held:
  assumes "n \<in> dom (bs_disk s)"
  shows "get_block_file n s = s\<lparr> bs_open_block := Some n \<rparr>" "get_rev_file n s = s\<lparr> bs_open_rev := Some n \<rparr>"
  using assms by (simp_all add: get_block_file_def get_rev_file_def touch_held)

lemma handle_frame:
  "db_mirrors K (s\<lparr> bs_open_block := x \<rparr>) = db_mirrors K s" "files_hold (s\<lparr> bs_open_block := x \<rparr>) = files_hold s"
  "located (s\<lparr> bs_open_block := x \<rparr>) name d = located s name d" "live_counts (s\<lparr> bs_open_block := x \<rparr>) = live_counts s"
  "pending_ok (s\<lparr> bs_open_block := x \<rparr>) = pending_ok s" "db_mirrors K (s\<lparr> bs_open_rev := x \<rparr>) = db_mirrors K s"
  "files_hold (s\<lparr> bs_open_rev := x \<rparr>) = files_hold s" "located (s\<lparr> bs_open_rev := x \<rparr>) name d = located s name d"
  "live_counts (s\<lparr> bs_open_rev := x \<rparr>) = live_counts s" "pending_ok (s\<lparr> bs_open_rev := x \<rparr>) = pending_ok s"
  by (simp_all add: db_mirrors_def files_hold_def located_def live_counts_def file_names_def pending_ok_def file_number_def)

lemma open_handles_ok:
  assumes "bs_ok K s"
  shows "file_number s i \<Longrightarrow> bs_ok K (s\<lparr> bs_open_block := Some (blk_name i) \<rparr>)"
    and "rev_name i \<in> dom (bs_disk s) \<Longrightarrow> bs_ok K (s\<lparr> bs_open_rev := Some (rev_name i) \<rparr>)"
  using assms by (auto simp: bs_ok_def handle_frame handles_ok_def file_number_def)

lemma open_handles_views: "keeps_views s (s\<lparr> bs_open_block := x \<rparr>)" "keeps_views s (s\<lparr> bs_open_rev := x \<rparr>)"
  by (simp_all add: keeps_views_def raw_view_def rev_view_def location_data_def fun_eq_iff map_option_case split: option.splits)

text \<open>Recording the length of a file, a new one of no octets or one just appended to.\<close>

lemma record_file_ok:
  assumes ok: "bs_ok K s" and n: "n = blk_name i \<or> n = rev_name i" "0 < i" "i \<le> fi" "bs_file_index s \<le> fi"
    and last: "fi = bs_file_index s \<or> n = blk_name fi"
    and disk: "bs_disk t = (bs_disk s)(n \<mapsto> (case bs_disk s n of None \<Rightarrow> [] | Some c \<Rightarrow> c) @ x)"
    and t: "t = s\<lparr> bs_disk := bs_disk t, bs_file_index := fi, bs_files := AList.update n \<lparr> fm_filename = n, fm_size = length (the (bs_disk t n)) \<rparr> (bs_files s),
              bs_db := bs_db t \<rparr>"
    and db: "store_open (bs_db t)" "pairs_ok (kv_data (bs_db t))"
      "\<And>k. store_get (bs_db t) k = (if k = 102 # n then Some (metadata_serialize K \<lparr> fm_filename = n, fm_size = length (the (bs_disk t n)) \<rparr>)
         else if k = [105] then (if fi = 0 then None else Some (size_serialize (bk_coins K) (int fi))) else store_get (bs_db s) k)"
  shows "bs_ok K t \<and> keeps_views s t \<and> n \<in> dom (bs_disk t)"
proof -
  have f: "bs_files t = AList.update n \<lparr> fm_filename = n, fm_size = length (the (bs_disk t n)) \<rparr> (bs_files s)" "bs_file_index t = fi"
    "bs_blocks t = bs_blocks s" "bs_rev_patches t = bs_rev_patches s" "bs_live t = bs_live s" "bs_pending t = bs_pending s"
    "bs_pruned_up_to t = bs_pruned_up_to s" "bs_open_block t = bs_open_block s" "bs_open_rev t = bs_open_rev s"
    by (subst t, simp)+
  have old: "db_mirrors K s" "files_hold s" "located s blk_name (bs_blocks s)" "located s rev_name (bs_rev_patches s)"
    "live_counts s" "handles_ok s" "pending_ok s" using ok by (simp_all add: bs_ok_def)
  have g: "grows s t" using n(4) by (auto simp: grows_def f(2) disk)
  have "db_mirrors K t" using old(1) db by (auto simp: db_mirrors_def f)
  moreover have "files_hold t"
  proof -
    have "dom (bs_disk t) = fst ` set (bs_files t)" using old(2) by (auto simp: files_hold_def disk f(1) keys_update)
    moreover have "fm_filename m = k \<and> length (the (bs_disk t k)) = fm_size m \<and> (\<exists>i. file_number t i \<and> (k = blk_name i \<or> k = rev_name i))"
      if "map_of (bs_files t) k = Some m" for k m
    proof (cases "k = n")
      case True
      then show ?thesis using that n by (auto simp: f(1,2) file_number_def)
    next
      case False
      then have m: "map_of (bs_files s) k = Some m" "bs_disk t k = bs_disk s k" using that by (simp_all add: f(1) disk)
      then have a: "fm_filename m = k" "length (the (bs_disk s k)) = fm_size m" using old(2) by (simp_all add: files_hold_def)
      obtain j where "file_number s j" "k = blk_name j \<or> k = rev_name j" using old(2) m(1) unfolding files_hold_def by blast
      moreover from this have "file_number t j" using n(4) by (simp add: file_number_def f(2))
      ultimately show ?thesis using a m(2) by metis
    qed
    moreover have "distinct (map fst (bs_files t))" using old(2) by (simp add: files_hold_def f(1) distinct_update)
    moreover have "blk_name fi \<in> dom (bs_disk t)" if "0 < fi"
    proof (cases "fi = bs_file_index s")
      case True
      then have "blk_name fi \<in> dom (bs_disk s)" using old(2) that unfolding files_hold_def by blast
      then show ?thesis by (simp add: disk)
    next
      case False
      then have "n = blk_name fi" using last by simp
      then show ?thesis by (simp add: disk)
    qed
    ultimately show ?thesis by (simp add: files_hold_def f(2))
  qed
  moreover have "located t blk_name (bs_blocks t)" "located t rev_name (bs_rev_patches t)"
    unfolding f using located_grows(1) [OF _ g] old(3,4) by blast+
  moreover have "live_counts t" "pending_ok t" using old(5,7) by (simp_all add: live_counts_def file_names_def pending_ok_def f)
  moreover have "handles_ok t"
  proof -
    have "\<exists>i. file_number t i \<and> k = blk_name i" if k: "bs_open_block t = Some k" for k
    proof -
      obtain i where "file_number s i" "k = blk_name i" using old(6) k unfolding handles_ok_def f by blast
      then show ?thesis using n(4) by (auto simp: file_number_def f(2))
    qed
    then show ?thesis using old(6) by (auto simp: handles_ok_def f disk)
  qed
  ultimately have "bs_ok K t" by (simp add: bs_ok_def)
  moreover have "keeps_views s t" by (rule grows_views [OF old(3,4) g f(3,4,6,7)])
  ultimately show ?thesis by (simp add: disk)
qed

end
