(* ===== verification/Block_Store_Writes.thy ===== *)
theory Block_Store_Writes
  imports Block_Store_Files
begin

text \<open>
  What is written to the block store: a file opened for the next block or undo block, octets
  appended to it, the location recorded, and with these a block and the undo blocks that waited.
\<close>

section \<open>The file to write to\<close>

lemma bs_okD:
  assumes "bs_ok K s"
  shows "db_mirrors K s" "files_hold s" "located s blk_name (bs_blocks s)" "located s rev_name (bs_rev_patches s)"
    "live_counts s" "handles_ok s" "pending_ok s"
  using assms by (simp_all add: bs_ok_def)

lemma db_mirrorsD:
  assumes "db_mirrors K s"
  shows "store_open (bs_db s)" "pairs_ok (kv_data (bs_db s))"
    "store_get (bs_db s) (102 # n) = map_option (metadata_serialize K) (map_of (bs_files s) n)"
    "store_get (bs_db s) (98 # h) = map_option (location_serialize K) (map_of (bs_blocks s) h)"
    "store_get (bs_db s) (114 # h) = map_option (location_serialize K) (map_of (bs_rev_patches s) h)"
    "store_get (bs_db s) [105] = (if bs_file_index s = 0 then None else Some (size_serialize (bk_coins K) (int (bs_file_index s))))"
    "- 1 \<le> bs_pruned_up_to s"
  using assms by (simp_all add: db_mirrors_def)

lemma files_holdD:
  assumes "files_hold s"
  shows "distinct (map fst (bs_files s))" "dom (bs_disk s) = fst ` set (bs_files s)"
    "\<And>n m. map_of (bs_files s) n = Some m \<Longrightarrow> fm_filename m = n \<and> length (the (bs_disk s n)) = fm_size m
       \<and> (\<exists>i. file_number s i \<and> (n = blk_name i \<or> n = rev_name i))"
    "0 < bs_file_index s \<Longrightarrow> blk_name (bs_file_index s) \<in> dom (bs_disk s)"
  using assms unfolding files_hold_def by blast+

lemma file_recorded: "files_hold s \<Longrightarrow> n \<in> dom (bs_disk s) \<Longrightarrow> \<exists>m. map_of (bs_files s) n = Some m"
  using files_holdD(2) by (metis map_of_eq_None_iff not_Some_eq)

lemma put_metadata_ok:
  assumes "store_open (bs_db s)" "pairs_ok (kv_data (bs_db s))"
  shows "\<exists>d. put_metadata K m s = Some (s\<lparr> bs_files := AList.update (fm_filename m) m (bs_files s), bs_db := d \<rparr>) \<and> store_open d \<and> pairs_ok (kv_data d)
    \<and> (\<forall>x. store_get d x = (if x = 102 # fm_filename m then Some (metadata_serialize K m) else store_get (bs_db s) x))"
  using db_put_ok [of "s\<lparr> bs_files := AList.update (fm_filename m) m (bs_files s) \<rparr>" "102 # fm_filename m" "metadata_serialize K m"] assms
  by (auto simp: put_metadata_def)

lemma unrecorded_unopened:
  assumes "files_hold s" "n \<notin> fst ` set (bs_files s)"
  shows "bs_disk s n = None"
  using files_holdD(2) [OF assms(1)] assms(2) by blast

lemma find_block_file_ok:
  assumes ok: "bs_ok K s"
  shows "\<exists>i s'. find_block_file K s = Some (blk_name i, s') \<and> bs_ok K s' \<and> keeps_views s s' \<and> file_number s' i
    \<and> blk_name i \<in> dom (bs_disk s') \<and> bs_blocks s' = bs_blocks s \<and> bs_rev_patches s' = bs_rev_patches s"
proof -
  note o = bs_okD [OF ok] and db = db_mirrorsD [OF bs_okD(1) [OF ok]]
  let ?fi = "bs_file_index s"
  show ?thesis
  proof (cases "0 < ?fi \<and> \<not> fm_size (the (map_of (bs_files s) (blk_name ?fi))) > file_bound")
    case True
    then have held: "blk_name ?fi \<in> dom (bs_disk s)" using files_holdD(4) [OF o(2)] by simp
    obtain m where m: "map_of (bs_files s) (blk_name ?fi) = Some m" using file_recorded [OF o(2) held] by blast
    let ?t = "s\<lparr> bs_open_block := Some (blk_name ?fi) \<rparr>"
    have "find_block_file K s = Some (blk_name ?fi, ?t)"
      using True m by (simp add: find_block_file_def Let_def get_file_held(1) [OF held])
    moreover have "file_number s ?fi" using True by (simp add: file_number_def)
    moreover from this have "bs_ok K ?t" by (rule open_handles_ok(1) [OF ok])
    ultimately show ?thesis using held open_handles_views(1) by (intro exI [of _ ?fi] exI [of _ ?t]) (simp add: file_number_def)
  next
    case False
    let ?i = "?fi + 1" let ?n = "blk_name ?i" let ?m = "\<lparr> fm_filename = ?n, fm_size = 0 \<rparr>"
    have fresh: "?n \<notin> fst ` set (bs_files s)"
    proof
      assume "?n \<in> fst ` set (bs_files s)"
      then obtain m where "map_of (bs_files s) ?n = Some m" by (metis map_of_eq_None_iff not_Some_eq)
      then have "\<exists>i. file_number s i \<and> (?n = blk_name i \<or> ?n = rev_name i)" using files_holdD(3) [OF o(2)] by blast
      then show False by (auto simp: file_number_def)
    qed
    have nd: "bs_disk s ?n = None" by (rule unrecorded_unopened [OF o(2) fresh])
    have nh: "bs_open_block s \<noteq> Some ?n" using o(6) by (auto simp: handles_ok_def file_number_def)
    let ?s0 = "s\<lparr> bs_file_index := ?i \<rparr>"
    have op: "store_open (bs_db ?s0)" "pairs_ok (kv_data (bs_db ?s0))" using db(1,2) by simp_all
    obtain d1 where d1: "put_metadata K ?m ?s0 = Some (?s0\<lparr> bs_files := AList.update ?n ?m (bs_files s), bs_db := d1 \<rparr>)" "store_open d1" "pairs_ok (kv_data d1)"
      "\<forall>x. store_get d1 x = (if x = 102 # ?n then Some (metadata_serialize K ?m) else store_get (bs_db s) x)"
      using put_metadata_ok [OF op, of K ?m] by auto
    let ?s1 = "?s0\<lparr> bs_files := AList.update ?n ?m (bs_files s), bs_db := d1 \<rparr>"
    obtain d2 where d2: "db_put [105] (size_serialize (bk_coins K) (int ?i)) ?s1 = Some (?s1\<lparr> bs_db := d2 \<rparr>)" "store_open d2" "pairs_ok (kv_data d2)"
      "\<forall>x. store_get d2 x = (if x = [105] then Some (size_serialize (bk_coins K) (int ?i)) else store_get d1 x)"
      using db_put_ok [of ?s1 "[105]" "size_serialize (bk_coins K) (int ?i)"] d1(2,3) by auto
    let ?t = "s\<lparr> bs_disk := (bs_disk s)(?n \<mapsto> []), bs_file_index := ?i, bs_files := AList.update ?n ?m (bs_files s), bs_db := d2 \<rparr>"
    have t: "bs_ok K ?t \<and> keeps_views s ?t \<and> ?n \<in> dom (bs_disk ?t)"
      by (rule record_file_ok [OF ok, of ?n ?i ?i ?t "[]"]) (use d1(4) d2(2-4) nd in auto)
    have full: "(if ?fi = 0 then Some True else do { m \<leftarrow> map_of (bs_files s) (blk_name ?fi); Some (fm_size m > file_bound) }) = Some True"
    proof (cases "?fi = 0")
      case False
      then have "blk_name ?fi \<in> dom (bs_disk s)" using files_holdD(4) [OF o(2)] by simp
      then obtain m where "map_of (bs_files s) (blk_name ?fi) = Some m" using file_recorded [OF o(2)] by blast
      then show ?thesis using False \<open>\<not> (0 < ?fi \<and> _)\<close> by simp
    qed simp
    have "find_block_file K s = Some (?n, ?t\<lparr> bs_open_block := Some ?n \<rparr>)"
      unfolding find_block_file_def Let_def full using d1(1) d2(1) nd nh by (simp add: get_block_file_def touch_def)
    moreover have "bs_ok K (?t\<lparr> bs_open_block := Some ?n \<rparr>)" using t by (intro open_handles_ok(1)) (auto simp: file_number_def)
    moreover have "keeps_views s (?t\<lparr> bs_open_block := Some ?n \<rparr>)" using keeps_views_trans t open_handles_views(1) by blast
    ultimately show ?thesis by (intro exI [of _ ?i] exI [of _ "?t\<lparr> bs_open_block := Some ?n \<rparr>"]) (simp add: file_number_def)
  qed
qed

lemma find_rev_file_ok:
  assumes ok: "bs_ok K s" and i: "file_number s i"
  shows "\<exists>s'. find_rev_file K i s = Some (rev_name i, s') \<and> bs_ok K s' \<and> keeps_views s s' \<and> bs_file_index s' = bs_file_index s
    \<and> rev_name i \<in> dom (bs_disk s') \<and> bs_blocks s' = bs_blocks s \<and> bs_rev_patches s' = bs_rev_patches s"
proof -
  note o = bs_okD [OF ok] and db = db_mirrorsD [OF bs_okD(1) [OF ok]]
  let ?n = "rev_name i" let ?m = "\<lparr> fm_filename = ?n, fm_size = 0 \<rparr>"
  show ?thesis
  proof (cases "?n \<in> fst ` set (bs_files s)")
    case True
    then have held: "?n \<in> dom (bs_disk s)" using files_holdD(2) [OF o(2)] by simp
    have "find_rev_file K i s = Some (?n, s\<lparr> bs_open_rev := Some ?n \<rparr>)"
      using True by (simp add: find_rev_file_def Let_def get_file_held(2) [OF held])
    moreover have "bs_ok K (s\<lparr> bs_open_rev := Some ?n \<rparr>)" by (rule open_handles_ok(2) [OF ok held])
    ultimately show ?thesis using held open_handles_views(2) by (intro exI [of _ "s\<lparr> bs_open_rev := Some ?n \<rparr>"]) simp
  next
    case False
    have nd: "bs_disk s ?n = None" by (rule unrecorded_unopened [OF o(2) False])
    have nh: "bs_open_rev s \<noteq> Some ?n" using o(6) nd by (auto simp: handles_ok_def)
    obtain d1 where d1: "put_metadata K ?m s = Some (s\<lparr> bs_files := AList.update ?n ?m (bs_files s), bs_db := d1 \<rparr>)" "store_open d1" "pairs_ok (kv_data d1)"
      "\<forall>x. store_get d1 x = (if x = 102 # ?n then Some (metadata_serialize K ?m) else store_get (bs_db s) x)"
      using put_metadata_ok [OF db(1,2), of K ?m] by auto
    let ?t = "s\<lparr> bs_disk := (bs_disk s)(?n \<mapsto> []), bs_file_index := bs_file_index s, bs_files := AList.update ?n ?m (bs_files s), bs_db := d1 \<rparr>"
    have t: "bs_ok K ?t \<and> keeps_views s ?t \<and> ?n \<in> dom (bs_disk ?t)"
      by (rule record_file_ok [OF ok, of ?n i "bs_file_index s" ?t "[]"]) (use d1(2-4) nd i db(6) in \<open>auto simp: file_number_def\<close>)
    have "find_rev_file K i s = Some (?n, ?t\<lparr> bs_open_rev := Some ?n \<rparr>)"
      unfolding find_rev_file_def Let_def using False d1(1) nd nh by (simp add: get_rev_file_def touch_def)
    moreover have "bs_ok K (?t\<lparr> bs_open_rev := Some ?n \<rparr>)" by (rule open_handles_ok(2)) (use t in auto)
    moreover have "keeps_views s (?t\<lparr> bs_open_rev := Some ?n \<rparr>)" using keeps_views_trans t open_handles_views(2) by blast
    ultimately show ?thesis by (intro exI [of _ "?t\<lparr> bs_open_rev := Some ?n \<rparr>"]) simp
  qed
qed

lemma add_data_ok:
  assumes ok: "bs_ok K s" and n: "n = blk_name i \<or> n = rev_name i" "file_number s i" "n \<in> dom (bs_disk s)"
  shows "\<exists>k s'. add_data_to_file K n data s = Some ((k, length data), s') \<and> bs_ok K s' \<and> keeps_views s s'
    \<and> bs_blocks s' = bs_blocks s \<and> bs_rev_patches s' = bs_rev_patches s \<and> bs_file_index s' = bs_file_index s
    \<and> (\<exists>c. bs_disk s' n = Some (c @ data) \<and> length c = k)"
proof -
  note o = bs_okD [OF ok] and db = db_mirrorsD [OF bs_okD(1) [OF ok]]
  obtain c where c: "bs_disk s n = Some c" using n(3) by blast
  obtain m where m: "map_of (bs_files s) n = Some m" using file_recorded [OF o(2) n(3)] by blast
  then have fm: "fm_filename m = n" "fm_size m = length c" using files_holdD(3) [OF o(2) m] c by simp_all
  let ?m = "m\<lparr> fm_size := fm_size m + length data \<rparr>" let ?s0 = "s\<lparr> bs_disk := (bs_disk s)(n \<mapsto> c @ data) \<rparr>"
  have me: "?m = \<lparr> fm_filename = n, fm_size = length (c @ data) \<rparr>" using fm by (cases m) simp
  obtain d1 where d1: "put_metadata K ?m ?s0 = Some (?s0\<lparr> bs_files := AList.update n ?m (bs_files s), bs_db := d1 \<rparr>)" "store_open d1" "pairs_ok (kv_data d1)"
    "\<forall>x. store_get d1 x = (if x = 102 # n then Some (metadata_serialize K ?m) else store_get (bs_db s) x)"
    using put_metadata_ok [of ?s0 K ?m] db(1,2) fm(1) by auto
  let ?t = "s\<lparr> bs_disk := (bs_disk s)(n \<mapsto> c @ data), bs_file_index := bs_file_index s, bs_files := AList.update n ?m (bs_files s), bs_db := d1 \<rparr>"
  have t: "bs_ok K ?t \<and> keeps_views s ?t \<and> n \<in> dom (bs_disk ?t)"
    by (rule record_file_ok [OF ok, of n i "bs_file_index s" ?t data]) (use d1(2-4) c n db(6) me in \<open>auto simp: file_number_def\<close>)
  have "add_data_to_file K n data s = Some ((length c, length data), ?t)"
    unfolding add_data_to_file_def append_file_def using c m d1(1) fm(2) by simp
  then show ?thesis using t by (intro exI [of _ "length c"] exI [of _ ?t]) simp
qed


section \<open>A location recorded\<close>

lemma count_up_ok:
  assumes "distinct (map fst live)" "\<forall>n. map_of live n = (if n \<in># M then Some (count M n) else None)"
  shows "distinct (map fst (count_up name live))"
    "\<forall>n. map_of (count_up name live) n = (if n \<in># add_mset name M then Some (count (add_mset name M) n) else None)"
  using assms by (auto simp: count_up_def distinct_update not_in_iff)

lemma update_fresh: "k \<notin> fst ` set d \<Longrightarrow> AList.update k v d = d @ [(k, v)]"
  by (induction d) auto

lemma fresh_views:
  assumes "h \<notin> fst ` set d"
  shows "map_of (d @ [(h, l)]) = (map_of d)(h \<mapsto> l)"
  using update_conv' [of h l d] update_fresh [OF assms, of l] by simp

lemma record_block_ok:
  assumes ok: "bs_ok K s" and h: "h \<notin> fst ` set (bs_blocks s)" and i: "file_number s i"
    and l: "loc_filename l = blk_name i" "bs_disk s (blk_name i) = Some c" "loc_index l + loc_size l \<le> length c"
  shows "\<exists>d. db_put (98 # h) (location_serialize K l) (s\<lparr> bs_blocks := AList.update h l (bs_blocks s) \<rparr>)
      = Some (s\<lparr> bs_blocks := AList.update h l (bs_blocks s), bs_db := d \<rparr>)
    \<and> bs_ok K (s\<lparr> bs_blocks := AList.update h l (bs_blocks s), bs_db := d, bs_live := count_up (blk_name i) (bs_live s) \<rparr>)"
proof -
  note o = bs_okD [OF ok] and db = db_mirrorsD [OF bs_okD(1) [OF ok]]
  let ?s = "s\<lparr> bs_blocks := AList.update h l (bs_blocks s) \<rparr>"
  obtain d where d: "db_put (98 # h) (location_serialize K l) ?s = Some (?s\<lparr> bs_db := d \<rparr>)" "store_open d" "pairs_ok (kv_data d)"
    "\<forall>x. store_get d x = (if x = 98 # h then Some (location_serialize K l) else store_get (bs_db s) x)"
    using db_put_ok [of ?s "98 # h" "location_serialize K l"] db(1,2) by auto
  let ?t = "s\<lparr> bs_blocks := AList.update h l (bs_blocks s), bs_db := d, bs_live := count_up (blk_name i) (bs_live s) \<rparr>"
  have m: "db_mirrors K ?t" using o(1) d by (auto simp: db_mirrors_def)
  have f: "files_hold ?t = files_hold s" by (simp add: files_hold_def file_number_def)
  have b: "located ?t blk_name (bs_blocks s @ [(h, l)])"
    using o(3) h i l by (auto simp: located_def file_number_def)
  have r: "located ?t rev_name (bs_rev_patches s)" using o(4) by (simp add: located_def file_number_def)
  have n: "file_names ?t = add_mset (blk_name i) (file_names s)" using h l(1) by (simp add: file_names_def update_fresh)
  have lv: "live_counts ?t" using count_up_ok [of "bs_live s" "file_names s" "blk_name i"] o(5) unfolding live_counts_def n by simp
  have hd: "handles_ok ?t" "pending_ok ?t" using o(6,7) by (simp_all add: handles_ok_def pending_ok_def file_number_def)
  have "bs_ok K ?t" unfolding bs_ok_def using m f o(2) b r lv hd h by (simp add: update_fresh)
  with d(1) show ?thesis by (intro exI [of _ d]) simp
qed

lemma record_rev_ok:
  assumes ok: "bs_ok K s" and h: "h \<notin> fst ` set (bs_rev_patches s)" "h \<notin> fst ` set (bs_pending s)" and i: "file_number s i"
    and l: "loc_filename l = rev_name i" "bs_disk s (rev_name i) = Some c" "loc_index l + loc_size l \<le> length c"
  shows "\<exists>d. db_put (114 # h) (location_serialize K l) (s\<lparr> bs_rev_patches := AList.update h l (bs_rev_patches s) \<rparr>)
      = Some (s\<lparr> bs_rev_patches := AList.update h l (bs_rev_patches s), bs_db := d \<rparr>)
    \<and> bs_ok K (s\<lparr> bs_rev_patches := AList.update h l (bs_rev_patches s), bs_db := d, bs_live := count_up (rev_name i) (bs_live s) \<rparr>)"
proof -
  note o = bs_okD [OF ok] and db = db_mirrorsD [OF bs_okD(1) [OF ok]]
  let ?s = "s\<lparr> bs_rev_patches := AList.update h l (bs_rev_patches s) \<rparr>"
  obtain d where d: "db_put (114 # h) (location_serialize K l) ?s = Some (?s\<lparr> bs_db := d \<rparr>)" "store_open d" "pairs_ok (kv_data d)"
    "\<forall>x. store_get d x = (if x = 114 # h then Some (location_serialize K l) else store_get (bs_db s) x)"
    using db_put_ok [of ?s "114 # h" "location_serialize K l"] db(1,2) by auto
  let ?t = "s\<lparr> bs_rev_patches := AList.update h l (bs_rev_patches s), bs_db := d, bs_live := count_up (rev_name i) (bs_live s) \<rparr>"
  have m: "db_mirrors K ?t" using o(1) d by (auto simp: db_mirrors_def)
  have f: "files_hold ?t = files_hold s" by (simp add: files_hold_def file_number_def)
  have b: "located ?t rev_name (bs_rev_patches s @ [(h, l)])"
    using o(4) h i l by (auto simp: located_def file_number_def)
  have r: "located ?t blk_name (bs_blocks s)" using o(3) by (simp add: located_def file_number_def)
  have n: "file_names ?t = add_mset (rev_name i) (file_names s)" using h l(1) by (simp add: file_names_def update_fresh)
  have lv: "live_counts ?t" using count_up_ok [of "bs_live s" "file_names s" "rev_name i"] o(5) unfolding live_counts_def n by simp
  have hd: "handles_ok ?t" "pending_ok ?t" using o(6,7) h by (auto simp: handles_ok_def pending_ok_def file_number_def keys_update)
  have "bs_ok K ?t" unfolding bs_ok_def using m f o(2) b r lv hd h by (simp add: update_fresh)
  with d(1) show ?thesis by (intro exI [of _ d]) simp
qed


section \<open>Blocks and undo blocks\<close>

lemma appended_data: "bs_disk s n = Some (c @ data) \<Longrightarrow> location_data s \<lparr> loc_filename = n, loc_index = length c, loc_size = length data \<rparr> = data"
  by (simp add: location_data_def)

lemma store_block_ok:
  assumes ok: "bs_ok K s"
  shows "\<exists>s'. store_block K b s = Some s' \<and> bs_ok K s'
    \<and> raw_view s' = (raw_view s)(raw_hash b \<mapsto> (case raw_view s (raw_hash b) of None \<Rightarrow> block_octets K b | Some x \<Rightarrow> x))
    \<and> rev_view s' = rev_view s \<and> bs_pending s' = bs_pending s \<and> bs_pruned_up_to s' = bs_pruned_up_to s"
proof (cases "raw_hash b \<in> fst ` set (bs_blocks s)")
  case True
  then obtain l where "map_of (bs_blocks s) (raw_hash b) = Some l" by (metis map_of_eq_None_iff not_Some_eq)
  then show ?thesis using ok True by (auto simp: store_block_def raw_view_def fun_eq_iff)
next
  case False
  let ?h = "raw_hash b" let ?x = "block_octets K b"
  obtain i s1 where s1: "find_block_file K s = Some (blk_name i, s1)" "bs_ok K s1" "keeps_views s s1" "file_number s1 i"
    "blk_name i \<in> dom (bs_disk s1)" "bs_blocks s1 = bs_blocks s" using find_block_file_ok [OF ok] by blast
  obtain k s2 c where s2: "add_data_to_file K (blk_name i) ?x s1 = Some ((k, length ?x), s2)" "bs_ok K s2" "keeps_views s1 s2"
    "bs_blocks s2 = bs_blocks s1" "bs_file_index s2 = bs_file_index s1" "bs_disk s2 (blk_name i) = Some (c @ ?x)" "length c = k"
    using add_data_ok [OF s1(2) _ s1(4,5)] by blast
  let ?l = "\<lparr> loc_filename = blk_name i, loc_index = k, loc_size = length ?x \<rparr>"
  have fresh: "?h \<notin> fst ` set (bs_blocks s2)" using False s1(6) s2(4) by simp
  obtain d where d: "db_put (98 # ?h) (location_serialize K ?l) (s2\<lparr> bs_blocks := AList.update ?h ?l (bs_blocks s2) \<rparr>)
      = Some (s2\<lparr> bs_blocks := AList.update ?h ?l (bs_blocks s2), bs_db := d \<rparr>)"
    "bs_ok K (s2\<lparr> bs_blocks := AList.update ?h ?l (bs_blocks s2), bs_db := d, bs_live := count_up (blk_name i) (bs_live s2) \<rparr>)"
    using record_block_ok [OF s2(2) fresh, of i ?l "c @ ?x"] s1(4) s2(5-7) by (auto simp: file_number_def)
  let ?t = "s2\<lparr> bs_blocks := AList.update ?h ?l (bs_blocks s2), bs_db := d, bs_live := count_up (blk_name i) (bs_live s2) \<rparr>"
  have run: "store_block K b s = Some ?t" using False s1(1) s2(1) d(1) by (simp add: store_block_def Let_def)
  have v: "keeps_views s s2" by (rule keeps_views_trans [OF s1(3) s2(3)])
  have ld: "location_data ?t = location_data s2" by (simp add: location_data_def fun_eq_iff)
  have "raw_view s ?h = None" using False by (simp add: raw_view_def map_of_eq_None_iff)
  moreover have "raw_view ?t = (raw_view s2)(?h \<mapsto> ?x)"
    using appended_data [OF s2(6)] s2(7) by (auto simp: raw_view_def ld fun_eq_iff)
  moreover have "rev_view ?t = rev_view s2" by (simp add: rev_view_def ld fun_eq_iff)
  ultimately show ?thesis using run d(2) v by (intro exI [of _ ?t]) (simp add: keeps_views_def)
qed

lemma raw_view_dom: "dom (raw_view s) = fst ` set (bs_blocks s)"
  by (auto simp: raw_view_def dom_map_of_conv_image_fst [symmetric])

lemma rev_view_dom: "dom (rev_view s) = fst ` set (bs_rev_patches s)"
  by (auto simp: rev_view_def dom_map_of_conv_image_fst [symmetric])

text \<open>The loop writes the waiting undo blocks while they stay waiting: nothing it does looks at them.\<close>

lemma pending_last:
  "s\<lparr> bs_pending := q, bs_files := a \<rparr> = s\<lparr> bs_files := a, bs_pending := q \<rparr>" "s\<lparr> bs_pending := q, bs_disk := b \<rparr> = s\<lparr> bs_disk := b, bs_pending := q \<rparr>"
  "s\<lparr> bs_pending := q, bs_rev_patches := c \<rparr> = s\<lparr> bs_rev_patches := c, bs_pending := q \<rparr>" "s\<lparr> bs_pending := q, bs_db := d \<rparr> = s\<lparr> bs_db := d, bs_pending := q \<rparr>"
  "s\<lparr> bs_pending := q, bs_live := e \<rparr> = s\<lparr> bs_live := e, bs_pending := q \<rparr>" "s\<lparr> bs_pending := q, bs_open_rev := f \<rparr> = s\<lparr> bs_open_rev := f, bs_pending := q \<rparr>"
  by simp_all

lemma put_pending: "db_put k v (s\<lparr> bs_pending := q \<rparr>) = map_option (\<lambda>t. t\<lparr> bs_pending := q \<rparr>) (db_put k v s)"
  by (auto simp: db_put_def pending_last split: sum.splits)

lemma metadata_pending: "put_metadata K m (s\<lparr> bs_pending := q \<rparr>) = map_option (\<lambda>t. t\<lparr> bs_pending := q \<rparr>) (put_metadata K m s)"
  using put_pending [where q = q and s = "s\<lparr> bs_files := AList.update (fm_filename m) m (bs_files s) \<rparr>"] by (simp add: put_metadata_def pending_last)

lemma rev_file_pending: "find_rev_file K i (s\<lparr> bs_pending := q \<rparr>) = map_option (\<lambda>(n, t). (n, t\<lparr> bs_pending := q \<rparr>)) (find_rev_file K i s)"
  using metadata_pending [where K = K and m = "\<lparr> fm_filename = rev_name i, fm_size = 0 \<rparr>" and q = q and s = s]
  by (cases "put_metadata K \<lparr> fm_filename = rev_name i, fm_size = 0 \<rparr> s") (auto simp: find_rev_file_def Let_def get_rev_file_def pending_last)

lemma add_data_pending: "add_data_to_file K n data (s\<lparr> bs_pending := q \<rparr>) = map_option (\<lambda>(p, t). (p, t\<lparr> bs_pending := q \<rparr>)) (add_data_to_file K n data s)"
proof (cases "bs_disk s n")
  case (Some c)
  show ?thesis
  proof (cases "map_of (bs_files s) n")
    case None
    then show ?thesis using Some by (simp add: add_data_to_file_def append_file_def)
  next
    case (Some m)
    let ?m = "m\<lparr> fm_size := fm_size m + length data \<rparr>"
    have "put_metadata K ?m (s\<lparr> bs_disk := d, bs_pending := q \<rparr>) = map_option (\<lambda>t. t\<lparr> bs_pending := q \<rparr>) (put_metadata K ?m (s\<lparr> bs_disk := d \<rparr>))" for d
      using metadata_pending [where K = K and m = ?m and q = q and s = "s\<lparr> bs_disk := d \<rparr>"] by simp
    then show ?thesis using Some \<open>bs_disk s n = Some c\<close> by (cases "put_metadata K ?m (s\<lparr> bs_disk := (bs_disk s)(n \<mapsto> c @ data) \<rparr>)") (simp_all add: add_data_to_file_def append_file_def pending_last)
  qed
qed (simp add: add_data_to_file_def append_file_def)

lemma write_rev_ok:
  assumes ok: "bs_ok K s" and h: "h \<notin> fst ` set (bs_rev_patches s)" "h \<in> dom (raw_view s)" "h \<notin> fst ` set (bs_pending s)"
  shows "\<exists>s'. (\<forall>q. write_rev K (h, r) (s\<lparr> bs_pending := q \<rparr>) = Some (s'\<lparr> bs_pending := q \<rparr>)) \<and> bs_ok K s' \<and> raw_view s' = raw_view s
    \<and> rev_view s' = (rev_view s)(h \<mapsto> rev_block_serialize (bk_coins K) r) \<and> bs_pending s' = bs_pending s \<and> bs_pruned_up_to s' = bs_pruned_up_to s"
proof -
  let ?x = "rev_block_serialize (bk_coins K) r"
  obtain l where l: "map_of (bs_blocks s) h = Some l" using h(2) by (auto simp: raw_view_def)
  then obtain i where i: "file_number s i" "loc_filename l = blk_name i" using bs_okD(3) [OF ok] map_of_snd [OF l] unfolding located_def by blast
  obtain s1 where s1: "find_rev_file K i s = Some (rev_name i, s1)" "bs_ok K s1" "keeps_views s s1" "bs_file_index s1 = bs_file_index s"
    "rev_name i \<in> dom (bs_disk s1)" "bs_rev_patches s1 = bs_rev_patches s" using find_rev_file_ok [OF ok i(1)] by blast
  have i1: "file_number s1 i" using i(1) s1(4) by (simp add: file_number_def)
  obtain k s2 c where s2: "add_data_to_file K (rev_name i) ?x s1 = Some ((k, length ?x), s2)" "bs_ok K s2" "keeps_views s1 s2"
    "bs_rev_patches s2 = bs_rev_patches s1" "bs_file_index s2 = bs_file_index s1" "bs_disk s2 (rev_name i) = Some (c @ ?x)" "length c = k"
    using add_data_ok [OF s1(2) _ i1 s1(5)] by blast
  have v: "keeps_views s s2" by (rule keeps_views_trans [OF s1(3) s2(3)])
  let ?l = "\<lparr> loc_filename = rev_name i, loc_index = k, loc_size = length ?x \<rparr>"
  have fresh: "h \<notin> fst ` set (bs_rev_patches s2)" "h \<notin> fst ` set (bs_pending s2)"
    using h(1,3) s1(6) s2(4) v by (simp_all add: keeps_views_def)
  obtain d where d: "db_put (114 # h) (location_serialize K ?l) (s2\<lparr> bs_rev_patches := AList.update h ?l (bs_rev_patches s2) \<rparr>)
      = Some (s2\<lparr> bs_rev_patches := AList.update h ?l (bs_rev_patches s2), bs_db := d \<rparr>)"
    "bs_ok K (s2\<lparr> bs_rev_patches := AList.update h ?l (bs_rev_patches s2), bs_db := d, bs_live := count_up (rev_name i) (bs_live s2) \<rparr>)"
    using record_rev_ok [OF s2(2) fresh, of i ?l "c @ ?x"] i1 s2(5-7) by (auto simp: file_number_def)
  let ?t = "s2\<lparr> bs_rev_patches := AList.update h ?l (bs_rev_patches s2), bs_db := d, bs_live := count_up (rev_name i) (bs_live s2) \<rparr>"
  have put: "db_put (114 # h) (location_serialize K ?l) (s2\<lparr> bs_pending := q, bs_rev_patches := AList.update h ?l (bs_rev_patches s2) \<rparr>)
      = Some (s2\<lparr> bs_rev_patches := AList.update h ?l (bs_rev_patches s2), bs_db := d, bs_pending := q \<rparr>)" for q
    unfolding pending_last using put_pending [where q = q and s = "s2\<lparr> bs_rev_patches := AList.update h ?l (bs_rev_patches s2) \<rparr>"] d(1) by (simp add: pending_last)
  have "write_rev K (h, r) (s\<lparr> bs_pending := q \<rparr>) = Some (?t\<lparr> bs_pending := q \<rparr>)" for q
    using l s1(1) s2(1) put [of q] by (simp add: write_rev_def Let_def i(2) decimal6_reads rev_file_pending add_data_pending pending_last)
  moreover have ld: "location_data ?t = location_data s2" by (simp add: location_data_def fun_eq_iff)
  have "rev_view ?t = (rev_view s2)(h \<mapsto> ?x)"
    using appended_data [OF s2(6)] s2(7) by (auto simp: rev_view_def ld fun_eq_iff)
  moreover have "raw_view ?t = raw_view s2" by (simp add: raw_view_def ld fun_eq_iff)
  ultimately show ?thesis using d(2) v by (intro exI [of _ ?t]) (simp add: keeps_views_def)
qed

lemma write_revs_ok:
  assumes "bs_ok K (s\<lparr> bs_pending := [] \<rparr>)" "distinct (map fst p)" "fst ` set p \<inter> fst ` set (bs_rev_patches s) = {}" "fst ` set p \<subseteq> dom (raw_view s)"
  shows "\<exists>s'. fold_opt (write_rev K) p s = Some s' \<and> bs_ok K (s'\<lparr> bs_pending := [] \<rparr>) \<and> raw_view s' = raw_view s
    \<and> rev_view s' = rev_view s ++ (map_option (rev_block_serialize (bk_coins K)) \<circ> map_of p) \<and> bs_pruned_up_to s' = bs_pruned_up_to s"
  using assms
proof (induction p arbitrary: s)
  case Nil
  then show ?case by (simp add: comp_def map_add_def fun_eq_iff)
next
  case (Cons x p)
  obtain h r where x: "x = (h, r)" by fastforce
  let ?s = "s\<lparr> bs_pending := [] \<rparr>"
  have vs: "raw_view ?s = raw_view s" "rev_view ?s = rev_view s"
    by (simp_all add: raw_view_def rev_view_def location_data_def fun_eq_iff map_option_case split: option.splits)
  obtain t where t: "\<forall>q. write_rev K (h, r) (?s\<lparr> bs_pending := q \<rparr>) = Some (t\<lparr> bs_pending := q \<rparr>)" "bs_ok K t" "raw_view t = raw_view ?s"
    "rev_view t = (rev_view ?s)(h \<mapsto> rev_block_serialize (bk_coins K) r)" "bs_pending t = bs_pending ?s" "bs_pruned_up_to t = bs_pruned_up_to ?s"
    using write_rev_ok [OF Cons.prems(1), of h r] Cons.prems(3,4) x vs by auto
  let ?t = "t\<lparr> bs_pending := bs_pending s \<rparr>"
  have w: "write_rev K x s = Some ?t" using spec [OF t(1), of "bs_pending s"] by (simp add: x)
  have vt: "raw_view ?t = raw_view t" "rev_view ?t = rev_view t"
    by (simp_all add: raw_view_def rev_view_def location_data_def fun_eq_iff map_option_case split: option.splits)
  have e: "?t\<lparr> bs_pending := [] \<rparr> = t" using t(5) by simp
  have dm: "fst ` set (bs_rev_patches ?t) = insert h (fst ` set (bs_rev_patches s))"
    using t(4) vs rev_view_dom [of t] rev_view_dom [of s] by simp
  have pt: "distinct (map fst p)" "fst ` set p \<inter> fst ` set (bs_rev_patches ?t) = {}" "fst ` set p \<subseteq> dom (raw_view ?t)"
    using Cons.prems(2-4) dm vt vs t(3) by (auto simp: x)
  have ot: "bs_ok K (?t\<lparr> bs_pending := [] \<rparr>)" unfolding e by (rule t(2))
  from Cons.IH [OF ot pt] obtain s' where s': "fold_opt (write_rev K) p ?t = Some s'" "bs_ok K (s'\<lparr> bs_pending := [] \<rparr>)" "raw_view s' = raw_view ?t"
    "rev_view s' = rev_view ?t ++ (map_option (rev_block_serialize (bk_coins K)) \<circ> map_of p)" "bs_pruned_up_to s' = bs_pruned_up_to ?t" by blast
  have np: "map_of p h = None" using Cons.prems(2) by (simp add: x map_of_eq_None_iff)
  have "rev_view ?t ++ (map_option (rev_block_serialize (bk_coins K)) \<circ> map_of p) = rev_view s ++ (map_option (rev_block_serialize (bk_coins K)) \<circ> map_of (x # p))"
    using np vs(2) t(4) vt(2) by (simp add: x map_add_def fun_eq_iff split: option.splits)
  then have rv: "rev_view s' = rev_view s ++ (map_option (rev_block_serialize (bk_coins K)) \<circ> map_of (x # p))" by (rule trans [OF s'(4)])
  have "fold_opt (write_rev K) (x # p) s = Some s'" "raw_view s' = raw_view s" "bs_pruned_up_to s' = bs_pruned_up_to s"
    using w vt(1) vs(1) t(3,6) s'(1,3,5) by simp_all
  then show ?case using s'(2) rv by blast
qed

lemma finalize_revs_ok:
  assumes ok: "bs_ok K s" and held: "fst ` set (bs_pending s) \<subseteq> dom (raw_view s)"
  shows "\<exists>s'. finalize_revs K s = Some s' \<and> bs_ok K s' \<and> raw_view s' = raw_view s \<and> bs_pending s' = []
    \<and> rev_view s' = rev_view s ++ (map_option (rev_block_serialize (bk_coins K)) \<circ> map_of (bs_pending s)) \<and> bs_pruned_up_to s' = bs_pruned_up_to s"
proof -
  have p: "distinct (map fst (bs_pending s))" "fst ` set (bs_pending s) \<inter> fst ` set (bs_rev_patches s) = {}"
    using bs_okD(7) [OF ok] by (simp_all add: pending_ok_def)
  have "bs_ok K (s\<lparr> bs_pending := [] \<rparr>)"
    using ok by (auto simp: bs_ok_def db_mirrors_def files_hold_def located_def live_counts_def file_names_def handles_ok_def pending_ok_def file_number_def)
  from write_revs_ok [OF this p held] obtain s' where s': "fold_opt (write_rev K) (bs_pending s) s = Some s'" "bs_ok K (s'\<lparr> bs_pending := [] \<rparr>)"
    "raw_view s' = raw_view s" "rev_view s' = rev_view s ++ (map_option (rev_block_serialize (bk_coins K)) \<circ> map_of (bs_pending s))"
    "bs_pruned_up_to s' = bs_pruned_up_to s" by blast
  have "raw_view (s'\<lparr> bs_pending := [] \<rparr>) = raw_view s'" "rev_view (s'\<lparr> bs_pending := [] \<rparr>) = rev_view s'"
    by (simp_all add: raw_view_def rev_view_def location_data_def fun_eq_iff map_option_case split: option.splits)
  with s' show ?thesis by (simp add: finalize_revs_def)
qed

end
