(* ===== verification/Block_Store_Prunes.thy ===== *)
theory Block_Store_Prunes
  imports Block_Store_Writes
begin

text \<open>
  Reading back from the block store, and deleting from it: what is held under a hash is what was
  stored, and dropping one block or undo block leaves every other where it was, its file unlinked
  only once nothing in it is held.
\<close>

section \<open>Reading\<close>

lemma get_raw_block_ok:
  assumes ok: "bs_ok K s"
  shows "\<exists>s'. get_raw_block h s = Some (raw_view s h, s') \<and> bs_ok K s' \<and> keeps_views s s'"
proof (cases "map_of (bs_blocks s) h")
  case None
  then show ?thesis using ok keeps_views_refl by (simp add: get_raw_block_def raw_view_def)
next
  case (Some l)
  then obtain i c where ic: "file_number s i" "loc_filename l = blk_name i" "bs_disk s (blk_name i) = Some c"
    using bs_okD(3) [OF ok] map_of_snd [OF Some] unfolding located_def by blast
  have held: "blk_name i \<in> dom (bs_disk s)" using ic(3) by blast
  let ?t = "s\<lparr> bs_open_block := Some (blk_name i) \<rparr>"
  have "get_raw_block h s = Some (raw_view s h, ?t)"
    using Some ic by (simp add: get_raw_block_def Let_def get_file_held(1) [OF held] get_data_from_file_def raw_view_def location_data_def)
  then show ?thesis using open_handles_ok(1) [OF ok ic(1)] open_handles_views(1) by blast
qed

lemma get_rev_block_ok:
  assumes ok: "bs_ok K s" and r: "\<And>x. rev_view s h = Some x \<Longrightarrow> rev_block_deserialize (bk_coins K) x = Some (f x)"
  shows "\<exists>s'. get_rev_block K h s = Some (map_option f (rev_view s h), s') \<and> bs_ok K s' \<and> keeps_views s s'"
proof (cases "map_of (bs_rev_patches s) h")
  case None
  then show ?thesis using ok keeps_views_refl by (simp add: get_rev_block_def rev_view_def)
next
  case (Some l)
  then obtain i c where ic: "file_number s i" "loc_filename l = rev_name i" "bs_disk s (rev_name i) = Some c"
    using bs_okD(4) [OF ok] map_of_snd [OF Some] unfolding located_def by blast
  have held: "rev_name i \<in> dom (bs_disk s)" using ic(3) by blast
  let ?t = "s\<lparr> bs_open_rev := Some (rev_name i) \<rparr>"
  have v: "rev_view s h = Some (take (loc_size l) (drop (loc_index l) c))" using Some ic by (simp add: rev_view_def location_data_def)
  have "get_rev_block K h s = Some (map_option f (rev_view s h), ?t)"
    using Some ic r [OF v] v by (simp add: get_rev_block_def Let_def get_file_held(2) [OF held] get_data_from_file_def)
  then show ?thesis using open_handles_ok(2) [OF ok held] open_handles_views(2) by blast
qed

section \<open>Deleting\<close>

lemma map_of_AList_delete: "map_of (AList.delete k d) = (map_of d)(k := None)"
  by (rule delete_conv')

lemma delete_one:
  assumes "distinct (map fst d)" "map_of d k = Some v"
  shows "mset d = add_mset (k, v) (mset (AList.delete k d))" "distinct (map fst (AList.delete k d))"
    "set (AList.delete k d) \<subseteq> set d" "fst ` set (AList.delete k d) = fst ` set d - {k}"
proof -
  show "mset d = add_mset (k, v) (mset (AList.delete k d))"
    using assms
  proof (induction d)
    case (Cons p d)
    show ?case
    proof (cases "fst p = k")
      case True
      then have "k \<notin> fst ` set d" using Cons.prems(1) by auto
      then have "AList.delete k d = d" by (simp add: delete_id)
      then show ?thesis using True Cons.prems(2) by (cases p) simp
    next
      case False
      then show ?thesis using Cons by (cases p) simp
    qed
  qed simp
  show "distinct (map fst (AList.delete k d))" using assms(1) by (rule distinct_delete)
  show "set (AList.delete k d) \<subseteq> set d" by (simp add: AList.delete_eq)
  show "fst ` set (AList.delete k d) = fst ` set d - {k}" using delete_keys [of k d] by (auto simp: AList.delete_eq)
qed

lemma located_same: "bs_disk t = bs_disk s \<Longrightarrow> bs_file_index t = bs_file_index s \<Longrightarrow> located t name d = located s name d"
  by (simp add: located_def file_number_def)

lemma located_subset: "located s name d \<Longrightarrow> distinct (map fst e) \<Longrightarrow> set e \<subseteq> set d \<Longrightarrow> located s name e"
  unfolding located_def by blast

lemma bs_ok_same:
  assumes "db_mirrors K t" "bs_ok K s" "bs_disk t = bs_disk s" "bs_file_index t = bs_file_index s" "bs_files t = bs_files s"
    "bs_blocks t = bs_blocks s" "bs_rev_patches t = bs_rev_patches s" "bs_live t = bs_live s" "bs_pending t = bs_pending s"
    "bs_open_block t = bs_open_block s" "bs_open_rev t = bs_open_rev s"
  shows "bs_ok K t"
proof -
  have "files_hold t = files_hold s" "live_counts t = live_counts s" "handles_ok t = handles_ok s" "pending_ok t = pending_ok s"
    using assms(3-) by (simp_all add: files_hold_def live_counts_def file_names_def handles_ok_def pending_ok_def file_number_def)
  then show ?thesis using assms located_same [of t s] by (simp add: bs_ok_def)
qed

definition half_deleted :: "'m block_lib \<Rightarrow> bytes \<Rightarrow> block_store \<Rightarrow> bool" where
  \<comment> \<open>an entry is out of its table and its record gone, its file still counted as holding it\<close>
  "half_deleted K n s \<longleftrightarrow>
     db_mirrors K s \<and> files_hold s \<and> located s blk_name (bs_blocks s) \<and> located s rev_name (bs_rev_patches s)
     \<and> handles_ok s \<and> pending_ok s \<and> distinct (map fst (bs_live s))
     \<and> (\<forall>k. map_of (bs_live s) k = (if k \<in># add_mset n (file_names s) then Some (count (add_mset n (file_names s)) k) else None))
     \<and> n \<in> dom (bs_disk s)"

lemma live_frame:
  "db_mirrors K (s\<lparr> bs_live := x \<rparr>) = db_mirrors K s" "files_hold (s\<lparr> bs_live := x \<rparr>) = files_hold s"
  "located (s\<lparr> bs_live := x \<rparr>) name d = located s name d" "handles_ok (s\<lparr> bs_live := x \<rparr>) = handles_ok s"
  "pending_ok (s\<lparr> bs_live := x \<rparr>) = pending_ok s" "file_names (s\<lparr> bs_live := x \<rparr>) = file_names s"
  by (simp_all add: db_mirrors_def files_hold_def located_def handles_ok_def file_names_def pending_ok_def file_number_def)

lemma live_views: "keeps_views s (s\<lparr> bs_live := x \<rparr>)"
  by (simp add: keeps_views_def raw_view_def rev_view_def location_data_def fun_eq_iff map_option_case split: option.splits)

lemma unlink_ok:
  assumes ok: "bs_ok K s" and n: "n \<in> dom (bs_disk s)" "n \<notin># file_names s" "\<not> is_current s n" "bs_open_rev s \<noteq> Some n"
  shows "\<exists>s'. unlink_file n s = Some s' \<and> bs_ok K s' \<and> keeps_views s s' \<and> bs_blocks s' = bs_blocks s \<and> bs_rev_patches s' = bs_rev_patches s
    \<and> bs_disk s' = (bs_disk s)(n := None) \<and> bs_files s' = AList.delete n (bs_files s) \<and> bs_file_index s' = bs_file_index s \<and> bs_live s' = bs_live s
    \<and> bs_open_rev s' = bs_open_rev s"
proof -
  note o = bs_okD [OF ok] and db = db_mirrorsD [OF bs_okD(1) [OF ok]] and fh = files_holdD [OF bs_okD(2) [OF ok]]
  let ?s = "s\<lparr> bs_disk := (bs_disk s)(n := None), bs_files := AList.delete n (bs_files s) \<rparr>"
  obtain d where d: "db_delete (102 # n) ?s = Some (?s\<lparr> bs_db := d \<rparr>)" "store_open d" "pairs_ok (kv_data d)"
    "\<forall>x. store_get d x = (if x = 102 # n then None else store_get (bs_db s) x)"
    using db_delete_ok [of ?s "102 # n"] db(1,2) by auto
  let ?t = "s\<lparr> bs_disk := (bs_disk s)(n := None), bs_files := AList.delete n (bs_files s), bs_db := d \<rparr>"
  have nf: "n \<in> fst ` set (bs_files s)" using fh(2) n(1) by simp
  have run: "unlink_file n s = Some ?t" using d(1) nf by (simp add: unlink_file_def Let_def)
  have m: "db_mirrors K ?t" using o(1) d by (auto simp: db_mirrors_def map_of_AList_delete)
  have sep: "\<forall>l\<in>snd ` set (bs_blocks s) \<union> snd ` set (bs_rev_patches s). loc_filename l \<noteq> n"
    using n(2) by (auto simp: file_names_def)
  have keys: "fst ` set (AList.delete n (bs_files s)) = fst ` set (bs_files s) - {n}"
    using delete_keys [of n "bs_files s"] by (auto simp: AList.delete_eq)
  have f: "files_hold ?t"
    unfolding files_hold_def
  proof (intro conjI allI impI)
    show "distinct (map fst (bs_files ?t))" using fh(1) by (simp add: distinct_delete)
    show "dom (bs_disk ?t) = fst ` set (bs_files ?t)" using fh(2) keys by auto
  next
    fix k m
    assume "map_of (bs_files ?t) k = Some m"
    then have k: "k \<noteq> n" "map_of (bs_files s) k = Some m" by (simp_all add: map_of_AList_delete split: if_splits)
    from fh(3) [OF k(2)] k(1) show "fm_filename m = k" "length (the (bs_disk ?t k)) = fm_size m"
      "\<exists>i. file_number ?t i \<and> (k = blk_name i \<or> k = rev_name i)" by (simp_all add: file_number_def)
  next
    assume "0 < bs_file_index ?t"
    then have "blk_name (bs_file_index s) \<in> dom (bs_disk s)" using fh(4) by simp
    moreover have "blk_name (bs_file_index s) \<noteq> n" using n(3) by auto
    ultimately show "blk_name (bs_file_index ?t) \<in> dom (bs_disk ?t)" by simp
  qed
  have loc: "located ?t name e" "\<forall>l\<in>snd ` set e. location_data ?t l = location_data s l"
    if "located s name e" "\<forall>l\<in>snd ` set e. loc_filename l \<noteq> n" for name e
  proof -
    show "located ?t name e" using that unfolding located_def file_number_def by fastforce
    show "\<forall>l\<in>snd ` set e. location_data ?t l = location_data s l" using that(2) by (simp add: location_data_def)
  qed
  have b: "located ?t blk_name (bs_blocks s)" "\<forall>l\<in>snd ` set (bs_blocks s). location_data ?t l = location_data s l"
    by (rule loc [OF o(3)], use sep in blast)+
  have r: "located ?t rev_name (bs_rev_patches s)" "\<forall>l\<in>snd ` set (bs_rev_patches s). location_data ?t l = location_data s l"
    by (rule loc [OF o(4)], use sep in blast)+
  have "live_counts ?t" "pending_ok ?t" using o(5,7) by (simp_all add: live_counts_def file_names_def pending_ok_def)
  moreover have "handles_ok ?t" using o(6) n(4) by (auto simp: handles_ok_def file_number_def)
  ultimately have "bs_ok K ?t" using m f b(1) r(1) by (simp add: bs_ok_def)
  moreover have "keeps_views s ?t"
    using b(2) r(2) by (auto simp: keeps_views_def raw_view_def rev_view_def fun_eq_iff map_option_case split: option.splits dest: map_of_snd)
  ultimately show ?thesis using run by simp
qed

lemma release_ok:
  assumes half: "half_deleted K n s" and n: "(b \<and> (\<exists>i. n = blk_name i)) \<or> (\<not> b \<and> (\<exists>i. n = rev_name i))"
  shows "\<exists>s'. release n b s = Some s' \<and> bs_ok K s' \<and> keeps_views s s'"
proof -
  let ?M = "file_names s" let ?live = "bs_live s"
  have h: "db_mirrors K s" "files_hold s" "located s blk_name (bs_blocks s)" "located s rev_name (bs_rev_patches s)"
    "handles_ok s" "pending_ok s" "distinct (map fst ?live)" "n \<in> dom (bs_disk s)"
    and lv: "\<And>k. map_of ?live k = (if k \<in># add_mset n ?M then Some (count (add_mset n ?M) k) else None)"
    using half unfolding half_deleted_def by blast+
  have ln: "map_of ?live n = Some (count ?M n + 1)" using lv [of n] by simp
  show ?thesis
  proof (cases "n \<in># ?M")
    case True
    then have "0 < count ?M n" by simp
    then have run: "release n b s = Some (s\<lparr> bs_live := AList.update n (count ?M n) ?live \<rparr>)" using ln by (simp add: release_def Let_def)
    have "map_of (AList.update n (count ?M n) ?live) k = (if k \<in># ?M then Some (count ?M k) else None)" for k
      using lv [of k] True by auto
    then have "bs_ok K (s\<lparr> bs_live := AList.update n (count ?M n) ?live \<rparr>)"
      using h(1-7) by (simp add: bs_ok_def live_frame live_counts_def distinct_update)
    with run live_views show ?thesis by blast
  next
    case False
    then have c0: "count ?M n = 0" by (simp add: not_in_iff)
    let ?s = "s\<lparr> bs_live := AList.delete n ?live \<rparr>"
    have "map_of (AList.delete n ?live) k = (if k \<in># ?M then Some (count ?M k) else None)" for k
      using lv [of k] False by (simp add: map_of_AList_delete)
    then have ok: "bs_ok K ?s" using h(1-7) by (simp add: bs_ok_def live_frame live_counts_def distinct_delete)
    show ?thesis
    proof (cases "is_current s n")
      case True
      then have "release n b s = Some ?s" using ln c0 by (simp add: release_def Let_def is_current_def)
      with ok live_views show ?thesis by blast
    next
      case cur: False
      obtain u where u: "u = (if \<not> b \<and> bs_open_rev ?s = Some n then ?s\<lparr> bs_open_rev := None \<rparr> else ?s)" by blast
      have run: "release n b s = unlink_file n u" unfolding u using ln c0 cur by (simp add: release_def Let_def is_current_def)
      have oku: "bs_ok K u" using ok by (auto simp: u bs_ok_def handle_frame handles_ok_def file_number_def)
      have vu: "keeps_views ?s u" using open_handles_views(2) [of ?s None] keeps_views_refl [of ?s] by (simp add: u)
      have nr: "bs_open_rev u \<noteq> Some n"
        using n h(5) by (auto simp: u handles_ok_def)
      have "bs_disk u = bs_disk s" "file_names u = ?M" "is_current u n = is_current s n" by (simp_all add: u file_names_def is_current_def)
      then obtain s' where s': "unlink_file n u = Some s'" "bs_ok K s'" "keeps_views u s'"
        using unlink_ok [OF oku _ _ _ nr] h(8) False cur by auto
      have "keeps_views s s'" by (rule keeps_views_trans [OF live_views keeps_views_trans [OF vu s'(3)]])
      with run s' show ?thesis by auto
    qed
  qed
qed

lemma delete_block_ok:
  assumes ok: "bs_ok K s"
  shows "\<exists>s'. delete_block h s = Some s' \<and> bs_ok K s' \<and> raw_view s' = (raw_view s)(h := None) \<and> rev_view s' = rev_view s
    \<and> bs_pending s' = bs_pending s \<and> bs_pruned_up_to s' = bs_pruned_up_to s"
proof (cases "map_of (bs_blocks s) h")
  case None
  then show ?thesis using ok by (auto simp: delete_block_def raw_view_def fun_eq_iff)
next
  case (Some l)
  note o = bs_okD [OF ok] and db = db_mirrorsD [OF bs_okD(1) [OF ok]]
  have dist: "distinct (map fst (bs_blocks s))" using o(3) by (simp add: located_def)
  note del = delete_one [OF dist Some]
  obtain i where i: "loc_filename l = blk_name i" "blk_name i \<in> dom (bs_disk s)"
    using o(3) map_of_snd [OF Some] unfolding located_def by blast
  let ?s = "s\<lparr> bs_blocks := AList.delete h (bs_blocks s) \<rparr>"
  obtain d where d: "db_delete (98 # h) ?s = Some (?s\<lparr> bs_db := d \<rparr>)" "store_open d" "pairs_ok (kv_data d)"
    "\<forall>x. store_get d x = (if x = 98 # h then None else store_get (bs_db s) x)"
    using db_delete_ok [of ?s "98 # h"] db(1,2) by auto
  let ?t = "s\<lparr> bs_blocks := AList.delete h (bs_blocks s), bs_db := d \<rparr>"
  have m: "db_mirrors K ?t" using o(1) d by (auto simp: db_mirrors_def map_of_AList_delete)
  have f: "files_hold ?t = files_hold s" by (simp add: files_hold_def file_number_def)
  have b: "located ?t blk_name (AList.delete h (bs_blocks s))"
    using located_subset [OF o(3) del(2,3)] by (simp add: located_same [of ?t s])
  have r: "located ?t rev_name (bs_rev_patches s)" using o(4) by (simp add: located_same [of ?t s])
  have hp: "handles_ok ?t" "pending_ok ?t" using o(6,7) by (simp_all add: handles_ok_def pending_ok_def file_number_def)
  have fn: "file_names s = add_mset (blk_name i) (file_names ?t)" using del(1) i(1) by (simp add: file_names_def)
  have "half_deleted K (blk_name i) ?t"
    using m f o(2,5) b r hp i(2) unfolding half_deleted_def fn [symmetric] by (simp add: live_counts_def)
  then obtain s' where s': "release (blk_name i) True ?t = Some s'" "bs_ok K s'" "keeps_views ?t s'" using release_ok by blast
  have ld: "location_data ?t = location_data s" by (simp add: location_data_def fun_eq_iff)
  have "raw_view ?t = (raw_view s)(h := None)" "rev_view ?t = rev_view s"
    by (auto simp: raw_view_def rev_view_def ld map_of_AList_delete fun_eq_iff)
  moreover have "delete_block h s = Some s'" using Some d(1) i(1) s'(1) by (simp add: delete_block_def)
  ultimately show ?thesis using s'(2,3) by (simp add: keeps_views_def)
qed

lemma delete_rev_block_ok:
  assumes ok: "bs_ok K s"
  shows "\<exists>s'. delete_rev_block h s = Some s' \<and> bs_ok K s' \<and> raw_view s' = raw_view s \<and> rev_view s' = (rev_view s)(h := None)
    \<and> bs_pending s' = bs_pending s \<and> bs_pruned_up_to s' = bs_pruned_up_to s"
proof (cases "map_of (bs_rev_patches s) h")
  case None
  then show ?thesis using ok by (auto simp: delete_rev_block_def rev_view_def fun_eq_iff)
next
  case (Some l)
  note o = bs_okD [OF ok] and db = db_mirrorsD [OF bs_okD(1) [OF ok]]
  have dist: "distinct (map fst (bs_rev_patches s))" using o(4) by (simp add: located_def)
  note del = delete_one [OF dist Some]
  obtain i where i: "loc_filename l = rev_name i" "rev_name i \<in> dom (bs_disk s)"
    using o(4) map_of_snd [OF Some] unfolding located_def by blast
  let ?s = "s\<lparr> bs_rev_patches := AList.delete h (bs_rev_patches s) \<rparr>"
  obtain d where d: "db_delete (114 # h) ?s = Some (?s\<lparr> bs_db := d \<rparr>)" "store_open d" "pairs_ok (kv_data d)"
    "\<forall>x. store_get d x = (if x = 114 # h then None else store_get (bs_db s) x)"
    using db_delete_ok [of ?s "114 # h"] db(1,2) by auto
  let ?t = "s\<lparr> bs_rev_patches := AList.delete h (bs_rev_patches s), bs_db := d \<rparr>"
  have m: "db_mirrors K ?t" using o(1) d by (auto simp: db_mirrors_def map_of_AList_delete)
  have f: "files_hold ?t = files_hold s" by (simp add: files_hold_def file_number_def)
  have b: "located ?t blk_name (bs_blocks s)" using o(3) by (simp add: located_same [of ?t s])
  have r: "located ?t rev_name (AList.delete h (bs_rev_patches s))"
    using located_subset [OF o(4) del(2,3)] by (simp add: located_same [of ?t s])
  have hp: "handles_ok ?t" "pending_ok ?t" using o(6,7) del(4) by (auto simp: handles_ok_def pending_ok_def file_number_def)
  have fn: "file_names s = add_mset (rev_name i) (file_names ?t)" using del(1) i(1) by (simp add: file_names_def)
  have "half_deleted K (rev_name i) ?t"
    using m f o(2,5) b r hp i(2) unfolding half_deleted_def fn [symmetric] by (simp add: live_counts_def)
  then obtain s' where s': "release (rev_name i) False ?t = Some s'" "bs_ok K s'" "keeps_views ?t s'" using release_ok by blast
  have ld: "location_data ?t = location_data s" by (simp add: location_data_def fun_eq_iff)
  have "raw_view ?t = raw_view s" "rev_view ?t = (rev_view s)(h := None)"
    by (auto simp: raw_view_def rev_view_def ld map_of_AList_delete fun_eq_iff)
  moreover have "delete_rev_block h s = Some s'" using Some d(1) i(1) s'(1) by (simp add: delete_rev_block_def)
  ultimately show ?thesis using s'(2,3) by (simp add: keeps_views_def)
qed

lemma prune_blocks_ok:
  assumes "bs_ok K s" "\<And>k. k \<in> set ks \<Longrightarrow> hash_at k \<noteq> None"
  shows "\<exists>s'. fold_opt (prune_block hash_at) ks s = Some s' \<and> bs_ok K s'
    \<and> raw_view s' = raw_view s |` (- (the \<circ> hash_at) ` set ks) \<and> rev_view s' = rev_view s |` (- (the \<circ> hash_at) ` set ks)
    \<and> bs_pending s' = bs_pending s \<and> bs_pruned_up_to s' = bs_pruned_up_to s"
  using assms
proof (induction ks arbitrary: s)
  case Nil
  then show ?case by (simp add: restrict_map_def)
next
  case (Cons k ks)
  obtain h where h: "hash_at k = Some h" using Cons.prems(2) [of k] by auto
  obtain s1 where s1: "delete_block h s = Some s1" "bs_ok K s1" "raw_view s1 = (raw_view s)(h := None)" "rev_view s1 = rev_view s"
    "bs_pending s1 = bs_pending s" "bs_pruned_up_to s1 = bs_pruned_up_to s" using delete_block_ok [OF Cons.prems(1)] by blast
  obtain s2 where s2: "delete_rev_block h s1 = Some s2" "bs_ok K s2" "raw_view s2 = raw_view s1" "rev_view s2 = (rev_view s1)(h := None)"
    "bs_pending s2 = bs_pending s1" "bs_pruned_up_to s2 = bs_pruned_up_to s1" using delete_rev_block_ok [OF s1(2)] by blast
  have "prune_block hash_at k s = Some s2" using h s1(1) s2(1) by (simp add: prune_block_def)
  moreover obtain s' where s': "fold_opt (prune_block hash_at) ks s2 = Some s'" "bs_ok K s'"
    "raw_view s' = raw_view s2 |` (- (the \<circ> hash_at) ` set ks)" "rev_view s' = rev_view s2 |` (- (the \<circ> hash_at) ` set ks)"
    "bs_pending s' = bs_pending s2" "bs_pruned_up_to s' = bs_pruned_up_to s2" using Cons.IH [OF s2(2)] Cons.prems(2) by auto
  ultimately show ?case using s1(3-6) s2(3-6) h by (auto simp: restrict_map_def fun_eq_iff)
qed

lemma prune_up_to_ok:
  assumes ok: "bs_ok K s" and hs: "\<And>k. bs_pruned_up_to s < k \<Longrightarrow> k \<le> target \<Longrightarrow> hash_at k \<noteq> None"
  shows "\<exists>s'. prune_up_to K target hash_at s = Some s' \<and> bs_ok K s'
    \<and> raw_view s' = raw_view s |` (- (the \<circ> hash_at) ` {bs_pruned_up_to s<..target})
    \<and> rev_view s' = rev_view s |` (- (the \<circ> hash_at) ` {bs_pruned_up_to s<..target})
    \<and> bs_pending s' = bs_pending s \<and> bs_pruned_up_to s' = max target (bs_pruned_up_to s)"
proof (cases "target \<le> bs_pruned_up_to s")
  case True
  then show ?thesis using ok by (simp add: prune_up_to_def restrict_map_def)
next
  case False
  let ?p = "bs_pruned_up_to s" let ?ks = "[?p + 1..target]"
  have ks: "set ?ks = {?p<..target}" by auto
  obtain s1 where s1: "fold_opt (prune_block hash_at) ?ks s = Some s1" "bs_ok K s1"
    "raw_view s1 = raw_view s |` (- (the \<circ> hash_at) ` set ?ks)" "rev_view s1 = rev_view s |` (- (the \<circ> hash_at) ` set ?ks)"
    "bs_pending s1 = bs_pending s" "bs_pruned_up_to s1 = ?p"
    using prune_blocks_ok [OF ok, of ?ks hash_at] hs by auto
  note o = bs_okD [OF s1(2)] and db = db_mirrorsD [OF bs_okD(1) [OF s1(2)]]
  have low: "- 1 \<le> ?p" using db_mirrorsD(7) [OF bs_okD(1) [OF ok]] .
  let ?s = "s1\<lparr> bs_pruned_up_to := target \<rparr>"
  obtain d where d: "db_put [112] (size_serialize (bk_coins K) (target + 1)) ?s = Some (?s\<lparr> bs_db := d \<rparr>)" "store_open d" "pairs_ok (kv_data d)"
    "\<forall>x. store_get d x = (if x = [112] then Some (size_serialize (bk_coins K) (target + 1)) else store_get (bs_db s1) x)"
    using db_put_ok [of ?s "[112]" "size_serialize (bk_coins K) (target + 1)"] db(1,2) by auto
  let ?t = "s1\<lparr> bs_pruned_up_to := target, bs_db := d \<rparr>"
  have "db_mirrors K ?t" using o(1) d low False by (auto simp: db_mirrors_def)
  then have "bs_ok K ?t" using s1(2) by (rule bs_ok_same) simp_all
  moreover have "prune_up_to K target hash_at s = Some ?t" using False s1(1) d(1) by (simp add: prune_up_to_def)
  moreover have ld: "location_data ?t = location_data s1" by (simp add: location_data_def fun_eq_iff)
  have "raw_view ?t = raw_view s1" "rev_view ?t = rev_view s1" by (simp_all add: raw_view_def rev_view_def ld fun_eq_iff)
  ultimately show ?thesis using s1(3-5) False unfolding ks by simp
qed

end
