(* ===== verification/Block_Store_Load.thy ===== *)
theory Block_Store_Load
  imports Block_Store_Prunes
begin

text \<open>
  Opening the block store on what an earlier one left behind: the tables read from the database are
  those the earlier one had in memory, and every file in which nothing is held is unlinked.
\<close>

definition long_laws :: "'m block_lib \<Rightarrow> int \<Rightarrow> bool" where
  \<comment> \<open>\<open>var_int\<close> reads back what it wrote, a count up to its cap, and any number of eight octets without it\<close>
  "long_laws K cap \<longleftrightarrow>
     (\<forall>n r. 0 \<le> n \<and> n < 2 ^ 64 \<longrightarrow> long_parse K (size_serialize (bk_coins K) n @ r) = Some (n, r))
     \<and> (\<forall>n r. 0 \<le> n \<and> n \<le> cap \<longrightarrow> size_parse (bk_coins K) (size_serialize (bk_coins K) n @ r) = Some (n, r))"

definition readable :: "int \<Rightarrow> block_store \<Rightarrow> bool" where
  \<comment> \<open>what is counted in eight octets, and names no longer than the cap\<close>
  "readable cap s \<longleftrightarrow>
     (\<forall>m\<in>snd ` set (bs_files s). int (length (fm_filename m)) \<le> cap \<and> int (fm_size m) < 2 ^ 64)
     \<and> (\<forall>l\<in>snd ` set (bs_blocks s) \<union> snd ` set (bs_rev_patches s).
          int (length (loc_filename l)) \<le> cap \<and> int (loc_index l) < 2 ^ 64 \<and> int (loc_size l) < 2 ^ 64)
     \<and> int (bs_file_index s) < 2 ^ 64 \<and> bs_pruned_up_to s + 1 < 2 ^ 64"

lemma long_lawsD:
  assumes "long_laws K cap"
  shows "0 \<le> n \<Longrightarrow> n < 2 ^ 64 \<Longrightarrow> long_parse K (size_serialize (bk_coins K) n @ r) = Some (n, r)"
    "0 \<le> n \<Longrightarrow> n \<le> cap \<Longrightarrow> size_parse (bk_coins K) (size_serialize (bk_coins K) n @ r) = Some (n, r)"
  using assms by (simp_all add: long_laws_def)

lemma metadata_reads:
  assumes "long_laws K cap" "int (length (fm_filename m)) \<le> cap" "int (fm_size m) < 2 ^ 64"
  shows "metadata_deserialize K (metadata_serialize K m) = Some m"
  using long_lawsD(2) [OF assms(1) _ assms(2)] long_lawsD(1) [OF assms(1) _ assms(3), of "[]"]
  by (simp add: metadata_deserialize_def metadata_serialize_def)

lemma location_reads:
  assumes "long_laws K cap" "int (length (loc_filename l)) \<le> cap" "int (loc_index l) < 2 ^ 64" "int (loc_size l) < 2 ^ 64"
  shows "location_deserialize K (location_serialize K l) = Some l"
  using long_lawsD(2) [OF assms(1) _ assms(2)] long_lawsD(1) [OF assms(1) _ assms(3)] long_lawsD(1) [OF assms(1) _ assms(4), of "[]"]
  by (simp add: location_deserialize_def location_serialize_def Let_def)

section \<open>The tables read\<close>

definition entry_reads :: "'m block_lib \<Rightarrow> bytes \<times> bytes \<Rightarrow> bool" where
  "entry_reads K kv \<longleftrightarrow>
     (let (k, v) = kv
      in (take 1 k = [102] \<longrightarrow> metadata_deserialize K v \<noteq> None)
         \<and> (take 1 k = [98] \<or> take 1 k = [114] \<longrightarrow> location_deserialize K v \<noteq> None)
         \<and> (k = [105] \<or> k = [112] \<longrightarrow> long_parse K v \<noteq> None))"

definition overlay :: "('a \<rightharpoonup> 'b) \<Rightarrow> ('b \<Rightarrow> 'c option) \<Rightarrow> ('a \<rightharpoonup> 'c) \<Rightarrow> ('a \<rightharpoonup> 'c)" where
  \<comment> \<open>what was read of the records, over what was there\<close>
  "overlay m f old k = (case m k of None \<Rightarrow> old k | Some v \<Rightarrow> f v)"

definition loads :: "'m block_lib \<Rightarrow> pairs \<Rightarrow> block_store \<Rightarrow> block_store \<Rightarrow> bool" where
  "loads K ps s t \<longleftrightarrow>
     map_of (bs_files t) = overlay (\<lambda>n. map_of ps (102 # n)) (metadata_deserialize K) (map_of (bs_files s))
     \<and> map_of (bs_blocks t) = overlay (\<lambda>h. map_of ps (98 # h)) (location_deserialize K) (map_of (bs_blocks s))
     \<and> map_of (bs_rev_patches t) = overlay (\<lambda>h. map_of ps (114 # h)) (location_deserialize K) (map_of (bs_rev_patches s))
     \<and> bs_file_index t = (case map_of ps [105] of None \<Rightarrow> bs_file_index s | Some v \<Rightarrow> nat (fst (the (long_parse K v))))
     \<and> bs_pruned_up_to t = (case map_of ps [112] of None \<Rightarrow> bs_pruned_up_to s | Some v \<Rightarrow> fst (the (long_parse K v)) - 1)
     \<and> (distinct (map fst (bs_files s)) \<longrightarrow> distinct (map fst (bs_files t)))
     \<and> (distinct (map fst (bs_blocks s)) \<longrightarrow> distinct (map fst (bs_blocks t)))
     \<and> (distinct (map fst (bs_rev_patches s)) \<longrightarrow> distinct (map fst (bs_rev_patches t)))
     \<and> bs_db t = bs_db s \<and> bs_disk t = bs_disk s \<and> bs_live t = bs_live s \<and> bs_pending t = bs_pending s
     \<and> bs_open_block t = bs_open_block s \<and> bs_open_rev t = bs_open_rev s"

lemma key_shapes:
  "take 1 (x # k) = [y] \<longleftrightarrow> x = y" "take (Suc 0) (x # k) = [y] \<longleftrightarrow> x = y"
  by simp_all

lemma load_entry_one:
  assumes "entry_reads K (k, v)"
  shows "\<exists>t. load_entry K (k, v) s = Some t \<and> loads K [(k, v)] s t"
proof (cases k)
  case Nil
  then show ?thesis by (auto simp: load_entry_def loads_def overlay_def)
next
  case (Cons x h)
  consider "x = 102" | "x = 98" | "x = 114" | "x = 105" "h = []" | "x = 112" "h = []"
    | "x \<noteq> 102" "x \<noteq> 98" "x \<noteq> 114" "k \<noteq> [105]" "k \<noteq> [112]" using Cons by blast
  then show ?thesis
  proof cases
    case 1
    with assms Cons show ?thesis by (auto simp: entry_reads_def load_entry_def loads_def overlay_def fun_eq_iff distinct_update)
  next
    case 2
    with assms Cons show ?thesis by (auto simp: entry_reads_def load_entry_def loads_def overlay_def fun_eq_iff distinct_update)
  next
    case 3
    with assms Cons show ?thesis by (auto simp: entry_reads_def load_entry_def loads_def overlay_def fun_eq_iff distinct_update)
  next
    case 4
    with assms Cons show ?thesis by (auto simp: entry_reads_def load_entry_def loads_def overlay_def fun_eq_iff)
  next
    case 5
    with assms Cons show ?thesis by (auto simp: entry_reads_def load_entry_def loads_def overlay_def fun_eq_iff)
  next
    case 6
    with Cons show ?thesis by (auto simp: load_entry_def loads_def overlay_def fun_eq_iff)
  qed
qed

lemma loads_then:
  assumes "k \<notin> fst ` set ps" "loads K [(k, v)] s t" "loads K ps t u"
  shows "loads K ((k, v) # ps) s u"
proof -
  have n: "map_of ps k = None" using assms(1) by (simp add: map_of_eq_None_iff)
  have o: "overlay (\<lambda>x. map_of ps (c # x)) f (overlay (\<lambda>x. map_of [(k, v)] (c # x)) f old) = overlay (\<lambda>x. map_of ((k, v) # ps) (c # x)) f old"
    for c :: "8 word" and f :: "bytes \<Rightarrow> 'z option" and old
    using n by (auto simp: overlay_def fun_eq_iff split: option.splits)
  have z: "(case map_of ps c of None \<Rightarrow> case map_of [(k, v)] c of None \<Rightarrow> z | Some v \<Rightarrow> g v | Some v \<Rightarrow> g v)
      = (case map_of ((k, v) # ps) c of None \<Rightarrow> z | Some v \<Rightarrow> g v)" for c z and g :: "bytes \<Rightarrow> 'z"
    using n by (auto split: option.splits)
  show ?thesis using assms(2,3) unfolding loads_def by (simp only: o z) blast
qed

lemma load_all:
  assumes "distinct (map fst ps)" "\<forall>kv\<in>set ps. entry_reads K kv"
  shows "\<exists>t. fold_opt (load_entry K) ps s = Some t \<and> loads K ps s t"
  using assms
proof (induction ps arbitrary: s)
  case Nil
  then show ?case by (simp add: loads_def overlay_def fun_eq_iff)
next
  case (Cons kv ps)
  obtain k v where kv: "kv = (k, v)" by fastforce
  obtain t where t: "load_entry K (k, v) s = Some t" "loads K [(k, v)] s t" using load_entry_one Cons.prems(2) kv by (metis list.set_intros(1))
  obtain u where u: "fold_opt (load_entry K) ps t = Some u" "loads K ps t u" using Cons by (metis distinct.simps(2) list.set_intros(2) list.simps(9))
  have "loads K ((k, v) # ps) s u" using loads_then [OF _ t(2) u(2)] Cons.prems(1) kv by simp
  with t(1) u(1) show ?case by (simp add: kv)
qed

section \<open>The counts and the sweep\<close>

lemma fold_count_up:
  assumes "distinct (map fst live)" "\<forall>n. map_of live n = (if n \<in># M then Some (count M n) else None)"
  shows "distinct (map fst (fold count_up ns live)) \<and> (\<forall>n. map_of (fold count_up ns live) n = (if n \<in># M + mset ns then Some (count (M + mset ns) n) else None))"
  using assms
proof (induction ns arbitrary: live M)
  case (Cons n ns)
  have "add_mset n M + mset ns = M + mset (n # ns)" by simp
  with Cons.IH [OF count_up_ok [OF Cons.prems, of n]] show ?case unfolding fold_Cons comp_apply by metis
qed simp

lemma count_live_ok: "live_counts (count_live s)"
proof -
  let ?ns = "map loc_filename (map snd (bs_blocks s) @ map snd (bs_rev_patches s))"
  have "fold (\<lambda>l. count_up (loc_filename l)) (map snd (bs_blocks s) @ map snd (bs_rev_patches s)) [] = fold count_up ?ns []"
    by (simp only: fold_map comp_def)
  moreover have "mset ?ns = file_names s" by (simp add: file_names_def comp_def)
  ultimately show ?thesis using fold_count_up [of "[]" "{#}" ?ns]
    by (simp add: live_counts_def count_live_def) (simp add: file_names_def)
qed

lemma same_entries:
  assumes "distinct (map fst xs)" "distinct (map fst ys)" "map_of xs = map_of ys"
  shows "mset xs = mset ys"
proof -
  have "set xs = set ys" using assms map_of_eq_Some_iff by (metis (no_types, lifting) subrelI subset_antisym)
  moreover have "distinct xs" "distinct ys" using assms(1,2) by (auto simp: distinct_map)
  ultimately show ?thesis by (simp add: set_eq_iff_mset_eq_distinct)
qed

lemma sweep_ok:
  assumes ok: "bs_ok K s" and closed: "bs_open_rev s = None"
  shows "\<exists>s'. sweep_empty_files s = Some s' \<and> bs_ok K s' \<and> keeps_views s s' \<and> bs_open_rev s' = None
    \<and> (\<forall>n\<in>dom (bs_disk s'). n \<in># file_names s' \<or> is_current s' n)"
proof -
  let ?step = "\<lambda>name s. if name \<notin> fst ` set (bs_live s) \<and> \<not> is_current s name then unlink_file name s else Some s"
  let ?I = "\<lambda>xs t. bs_ok K t \<and> keeps_views s t \<and> bs_open_rev t = None \<and> distinct xs \<and> set xs \<subseteq> dom (bs_disk t)
     \<and> (\<forall>n\<in>dom (bs_disk t) - set xs. n \<in># file_names t \<or> is_current t n)"
  have start: "?I (map fst (bs_files s)) s"
    using ok closed keeps_views_refl files_holdD(1,2) [OF bs_okD(2) [OF ok]] by simp
  have step: "\<exists>t'. ?step x t = Some t' \<and> ?I ys t'" if I: "?I (x # ys) t" for x ys t
  proof -
    have okt: "bs_ok K t" and x: "x \<in> dom (bs_disk t)" and nt: "bs_open_rev t = None" using I by simp_all
    have live: "x \<in> fst ` set (bs_live t) \<longleftrightarrow> x \<in># file_names t"
      using bs_okD(5) [OF okt] map_of_eq_None_iff [of "bs_live t" x] unfolding live_counts_def by (metis option.distinct(1))
    show ?thesis
    proof (cases "x \<in># file_names t \<or> is_current t x")
      case True
      then have "?step x t = Some t" using live by auto
      moreover have "?I ys t" using I True by auto
      ultimately show ?thesis by blast
    next
      case False
      obtain t' where t': "unlink_file x t = Some t'" "bs_ok K t'" "keeps_views t t'" "bs_blocks t' = bs_blocks t" "bs_rev_patches t' = bs_rev_patches t"
        "bs_disk t' = (bs_disk t)(x := None)" "bs_file_index t' = bs_file_index t" "bs_open_rev t' = bs_open_rev t"
        using unlink_ok [OF okt x] False nt by auto
      have "?step x t = Some t'" using False live t'(1) by simp
      moreover have "file_names t' = file_names t" "is_current t' = is_current t" using t'(4,5,7) by (simp_all add: file_names_def is_current_def fun_eq_iff)
      then have "?I ys t'" using I t'(2,6,8) keeps_views_trans [OF _ t'(3)] by auto
      ultimately show ?thesis by blast
    qed
  qed
  from fold_opt_invariant_rest [of ?I "map fst (bs_files s)" s ?step, OF start step] show ?thesis
    unfolding sweep_empty_files_def by auto
qed


lemma unlink_frame:
  assumes "unlink_file x s = Some t"
  shows "bs_file_index t = bs_file_index s"
    "n \<noteq> x \<Longrightarrow> unlink_file x (s\<lparr> bs_disk := (bs_disk s)(n := y) \<rparr>) = Some (t\<lparr> bs_disk := (bs_disk t)(n := y) \<rparr>)"
  using assms by (auto simp: unlink_file_def db_delete_def Let_def fun_upd_twist split: sum.splits if_splits)

lemma sweep_frame:
  \<comment> \<open>the file of the current number is neither unlinked nor read\<close>
  assumes "sweep_empty_files s = Some t"
  shows "bs_file_index t = bs_file_index s"
    "is_current s n \<Longrightarrow> sweep_empty_files (s\<lparr> bs_disk := (bs_disk s)(n := y) \<rparr>) = Some (t\<lparr> bs_disk := (bs_disk t)(n := y) \<rparr>)"
proof -
  let ?step = "\<lambda>name s. if name \<notin> fst ` set (bs_live s) \<and> \<not> is_current s name then unlink_file name s else Some s"
  have cur: "is_current (u\<lparr> bs_disk := d \<rparr>) = is_current u" for u d by (simp add: is_current_def fun_eq_iff)
  have "bs_file_index t = bs_file_index u
      \<and> (is_current u n \<longrightarrow> fold_opt ?step xs (u\<lparr> bs_disk := (bs_disk u)(n := y) \<rparr>) = Some (t\<lparr> bs_disk := (bs_disk t)(n := y) \<rparr>))"
    if "fold_opt ?step xs u = Some t" for xs u
    using that
  proof (induction xs arbitrary: u)
    case (Cons x xs)
    show ?case
    proof (cases "x \<notin> fst ` set (bs_live u) \<and> \<not> is_current u x")
      case True
      then obtain v where v: "unlink_file x u = Some v" "fold_opt ?step xs v = Some t" using Cons.prems by (auto split: option.splits)
      have i: "is_current v = is_current u" using unlink_frame(1) [OF v(1)] by (simp add: is_current_def fun_eq_iff)
      show ?thesis
      proof (cases "is_current u n")
        case cu: True
        then have "n \<noteq> x" using True by blast
        then show ?thesis using Cons.IH [OF v(2)] unlink_frame [OF v(1)] True cu i by (simp add: cur del: fun_upd_apply)
      qed (use Cons.IH [OF v(2)] unlink_frame(1) [OF v(1)] in simp)
    next
      case False
      then have c: "\<not> (x \<notin> fst ` set (bs_live u) \<and> \<not> is_current u x)" .
      then have p: "fold_opt ?step xs u = Some t" using Cons.prems by (simp only: fold_opt.simps if_False option.case)
      show ?thesis using Cons.IH [OF p] c by (auto simp: cur simp del: fun_upd_apply)
    qed
  qed simp
  then show "bs_file_index t = bs_file_index s"
    "is_current s n \<Longrightarrow> sweep_empty_files (s\<lparr> bs_disk := (bs_disk s)(n := y) \<rparr>) = Some (t\<lparr> bs_disk := (bs_disk t)(n := y) \<rparr>)"
    using assms by (auto simp: sweep_empty_files_def)
qed

section \<open>The store opened again\<close>

lemma records_read:
  assumes ok: "bs_ok K s" and laws: "long_laws K cap" and small: "readable cap s"
  shows "\<forall>kv\<in>set (kv_data (bs_db s)). entry_reads K kv"
proof
  fix kv
  assume kv: "kv \<in> set (kv_data (bs_db s))"
  obtain k v where e: "kv = (k, v)" by fastforce
  note db = db_mirrorsD [OF bs_okD(1) [OF ok]]
  have g: "store_get (bs_db s) k = Some v" using kv pairs_ok_distinct [OF db(2)] by (simp add: store_get_def e)
  have p112: "store_get (bs_db s) [112] = (if bs_pruned_up_to s = - 1 then None else Some (size_serialize (bk_coins K) (bs_pruned_up_to s + 1)))"
    using bs_okD(1) [OF ok] by (simp add: db_mirrors_def)
  have "metadata_deserialize K v \<noteq> None" if k: "k = 102 # n" for n
  proof -
    obtain m where m: "map_of (bs_files s) n = Some m" "v = metadata_serialize K m" using g db(3) [of n] k by auto
    then have "int (length (fm_filename m)) \<le> cap" "int (fm_size m) < 2 ^ 64" using small map_of_snd [OF m(1)] unfolding readable_def by blast+
    then show ?thesis using metadata_reads [OF laws] m(2) by simp
  qed
  moreover have "location_deserialize K v \<noteq> None" if k: "k = 98 # h \<or> k = 114 # h" for h
  proof -
    have "\<exists>l. (map_of (bs_blocks s) h = Some l \<or> map_of (bs_rev_patches s) h = Some l) \<and> v = location_serialize K l"
      using k
    proof
      assume "k = 98 # h"
      then show ?thesis using g db(4) [of h] by (cases "map_of (bs_blocks s) h") auto
    next
      assume "k = 114 # h"
      then show ?thesis using g db(5) [of h] by (cases "map_of (bs_rev_patches s) h") auto
    qed
    then obtain l where "map_of (bs_blocks s) h = Some l \<or> map_of (bs_rev_patches s) h = Some l" and v: "v = location_serialize K l" by blast
    then have l: "l \<in> snd ` set (bs_blocks s) \<union> snd ` set (bs_rev_patches s)" "v = location_serialize K l"
      using map_of_snd by fast+
    then have "int (length (loc_filename l)) \<le> cap" "int (loc_index l) < 2 ^ 64" "int (loc_size l) < 2 ^ 64" using small unfolding readable_def by blast+
    then show ?thesis using location_reads [OF laws] l(2) by simp
  qed
  moreover have "long_parse K v \<noteq> None" if "k = [105]"
  proof -
    have "v = size_serialize (bk_coins K) (int (bs_file_index s))" using g db(6) that by (auto split: if_splits)
    then show ?thesis using long_lawsD(1) [OF laws, of "int (bs_file_index s)" "[]"] small by (simp add: readable_def)
  qed
  moreover have "long_parse K v \<noteq> None" if "k = [112]"
  proof -
    have "v = size_serialize (bk_coins K) (bs_pruned_up_to s + 1)" using g p112 that by (auto split: if_splits)
    then show ?thesis using long_lawsD(1) [OF laws, of "bs_pruned_up_to s + 1" "[]"] small db(7) by (simp add: readable_def)
  qed
  ultimately show "entry_reads K kv" by (cases k) (auto simp: entry_reads_def e)
qed

lemma overlay_same:
  assumes "\<And>n. m n = map_option g (old n)" "\<And>n x. old n = Some x \<Longrightarrow> f (g x) = Some x"
  shows "overlay m f Map.empty = old"
proof
  show "overlay m f Map.empty n = old n" for n using assms [of n] by (cases "old n") (simp_all add: overlay_def)
qed

lemma reopen_ok:
  assumes ok: "bs_ok K s" and laws: "long_laws K cap" and small: "readable cap s"
  shows "\<exists>t. open_block_store K (bs_db s) (bs_disk s) = Some t \<and> bs_ok K t \<and> raw_view t = raw_view s \<and> rev_view t = rev_view s
    \<and> bs_pending t = [] \<and> bs_pruned_up_to t = bs_pruned_up_to s \<and> bs_file_index t = bs_file_index s
    \<and> (\<forall>n\<in>dom (bs_disk t). n \<in># file_names t \<or> is_current t n)"
proof -
  note o = bs_okD [OF ok] and db = db_mirrorsD [OF bs_okD(1) [OF ok]]
  let ?s0 = "\<lparr> bs_db = bs_db s, bs_disk = bs_disk s, bs_files = [], bs_blocks = [], bs_rev_patches = [], bs_live = [],
         bs_pruned_up_to = - 1, bs_pending = [], bs_open_block = None, bs_open_rev = None, bs_file_index = 0 \<rparr>"
  let ?ps = "kv_data (bs_db s)"
  have get: "map_of ?ps k = store_get (bs_db s) k" for k by (simp add: store_get_def)
  obtain t where t: "fold_opt (load_entry K) ?ps ?s0 = Some t" "loads K ?ps ?s0 t"
    using load_all [OF pairs_ok_distinct [OF db(2)] records_read [OF assms]] by blast
  have e: "map_of (map fst []) = Map.empty" by simp
  have files: "map_of (bs_files t) = map_of (bs_files s)"
  proof -
    have "overlay (\<lambda>n. map_of ?ps (102 # n)) (metadata_deserialize K) Map.empty = map_of (bs_files s)"
    proof (rule overlay_same)
      show "metadata_deserialize K (metadata_serialize K m) = Some m" if "map_of (bs_files s) n = Some m" for n m
        using small map_of_snd [OF that] unfolding readable_def by (intro metadata_reads [OF laws]) blast+
    qed (simp add: get db(3))
    then show ?thesis using t(2) by (simp add: loads_def)
  qed
  have loc: "location_deserialize K (location_serialize K l) = Some l" if "l \<in> snd ` set (bs_blocks s) \<union> snd ` set (bs_rev_patches s)" for l
    using small that unfolding readable_def by (intro location_reads [OF laws]) blast+
  have blocks: "map_of (bs_blocks t) = map_of (bs_blocks s)"
  proof -
    have "overlay (\<lambda>n. map_of ?ps (98 # n)) (location_deserialize K) Map.empty = map_of (bs_blocks s)"
    proof (rule overlay_same)
      show "location_deserialize K (location_serialize K m) = Some m" if "map_of (bs_blocks s) n = Some m" for n m
        using loc map_of_snd [OF that] by blast
    qed (simp add: get db(4))
    then show ?thesis using t(2) by (simp add: loads_def)
  qed
  have revs: "map_of (bs_rev_patches t) = map_of (bs_rev_patches s)"
  proof -
    have "overlay (\<lambda>n. map_of ?ps (114 # n)) (location_deserialize K) Map.empty = map_of (bs_rev_patches s)"
    proof (rule overlay_same)
      show "location_deserialize K (location_serialize K m) = Some m" if "map_of (bs_rev_patches s) n = Some m" for n m
        using loc map_of_snd [OF that] by blast
    qed (simp add: get db(5))
    then show ?thesis using t(2) by (simp add: loads_def)
  qed
  have fi: "bs_file_index t = bs_file_index s"
    using t(2) db(6) long_lawsD(1) [OF laws, of "int (bs_file_index s)" "[]"] small by (simp add: loads_def get readable_def split: if_splits)
  have p112: "store_get (bs_db s) [112] = (if bs_pruned_up_to s = - 1 then None else Some (size_serialize (bk_coins K) (bs_pruned_up_to s + 1)))"
    using o(1) by (simp add: db_mirrors_def)
  have pr: "bs_pruned_up_to t = bs_pruned_up_to s"
    using t(2) p112 long_lawsD(1) [OF laws, of "bs_pruned_up_to s + 1" "[]"] small db(7) by (simp add: loads_def get readable_def split: if_splits)
  have rest: "bs_db t = bs_db s" "bs_disk t = bs_disk s" "bs_pending t = []" "bs_open_block t = None" "bs_open_rev t = None"
    and dist: "distinct (map fst (bs_files t))" "distinct (map fst (bs_blocks t))" "distinct (map fst (bs_rev_patches t))"
    using t(2) by (simp_all add: loads_def)
  have ms: "mset (bs_files t) = mset (bs_files s)" "mset (bs_blocks t) = mset (bs_blocks s)" "mset (bs_rev_patches t) = mset (bs_rev_patches s)"
    using same_entries dist files blocks revs files_holdD(1) [OF o(2)] o(3,4) unfolding located_def by blast+
  then have sets: "set (bs_files t) = set (bs_files s)" "set (bs_blocks t) = set (bs_blocks s)" "set (bs_rev_patches t) = set (bs_rev_patches s)"
    by (metis set_mset_mset)+
  let ?t = "count_live t"
  have ld: "location_data ?t = location_data s" using rest(2) by (simp add: location_data_def count_live_def fun_eq_iff)
  have "db_mirrors K ?t" using o(1) files blocks revs fi pr rest(1) by (simp add: db_mirrors_def count_live_def)
  moreover have "files_hold ?t = files_hold s"
    using dist(1) files_holdD(1) [OF o(2)] by (simp add: files_hold_def count_live_def file_number_def files sets(1) fi rest(2))
  then have "files_hold ?t" using o(2) by (rule iffD2)
  moreover have "located ?t blk_name (bs_blocks ?t)" "located ?t rev_name (bs_rev_patches ?t)"
    using o(3,4) dist(2,3) sets(2,3) fi rest(2) by (simp_all add: located_def count_live_def file_number_def)
  moreover have "live_counts ?t" by (rule count_live_ok)
  moreover have "handles_ok ?t" "pending_ok ?t" using rest(3-5) by (simp_all add: handles_ok_def pending_ok_def count_live_def)
  ultimately have ok': "bs_ok K ?t" by (simp add: bs_ok_def)
  obtain u where u: "sweep_empty_files ?t = Some u" "bs_ok K u" "keeps_views ?t u" "\<forall>n\<in>dom (bs_disk u). n \<in># file_names u \<or> is_current u n"
    using sweep_ok [OF ok'] rest(5) by (auto simp: count_live_def)
  have v: "raw_view ?t = raw_view s" "rev_view ?t = rev_view s"
    using blocks revs by (simp_all add: raw_view_def rev_view_def ld fun_eq_iff) (simp_all add: count_live_def)
  have "kv_iter (bs_db s) = Inr ?ps" using db(1) by (simp add: kv_iter_def ensure_open_def store_open_def)
  then have "open_block_store K (bs_db s) (bs_disk s) = Some u" using t(1) u(1) by (simp add: open_block_store_def load_block_store_def)
  with u(2-4) v pr rest(3) fi sweep_frame(1) [OF u(1)] show ?thesis by (simp add: keeps_views_def count_live_def)
qed

lemma load_disk: "fold_opt (load_entry K) ps (s\<lparr> bs_disk := d \<rparr>) = map_option (\<lambda>t. t\<lparr> bs_disk := d \<rparr>) (fold_opt (load_entry K) ps s)"
proof (induction ps arbitrary: s)
  case (Cons kv ps)
  have "load_entry K kv (s\<lparr> bs_disk := d \<rparr>) = map_option (\<lambda>t. t\<lparr> bs_disk := d \<rparr>) (load_entry K kv s)"
    by (cases kv) (simp add: load_entry_def map_option_bind comp_def split: prod.splits option.splits bind_split)
  then show ?case using Cons.IH by (simp split: option.splits)
qed simp

lemma reopen_changed:
  assumes "bs_ok K s" "long_laws K cap" "readable cap s"
    and t: "open_block_store K (bs_db s) (bs_disk s) = Some t"
  shows "open_block_store K (bs_db s) ((bs_disk s)(blk_name (bs_file_index s) := y))
     = Some (t\<lparr> bs_disk := (bs_disk t)(blk_name (bs_file_index s) := y) \<rparr>)" (is "?opened y")
    and "bs_disk t (blk_name (bs_file_index s)) = bs_disk s (blk_name (bs_file_index s))"
proof -
  let ?n = "blk_name (bs_file_index s)"
  have fi: "bs_file_index t = bs_file_index s" using reopen_ok [OF assms(1-3)] t by auto
  let ?s0 = "\<lparr> bs_db = bs_db s, bs_disk = bs_disk s, bs_files = [], bs_blocks = [], bs_rev_patches = [], bs_live = [],
         bs_pruned_up_to = - 1, bs_pending = [], bs_open_block = None, bs_open_rev = None, bs_file_index = 0 \<rparr>"
  obtain ps u where ps: "kv_iter (bs_db s) = Inr ps" "fold_opt (load_entry K) ps ?s0 = Some u" "sweep_empty_files (count_live u) = Some t"
    using t by (auto simp: open_block_store_def load_block_store_def bind_eq_Some_conv split: sum.splits)
  have cur: "is_current (count_live u) ?n" using sweep_frame(1) [OF ps(3)] fi by simp
  have d: "bs_disk u = bs_disk s" using load_disk [of K ps "bs_disk s" ?s0] ps(2) by (metis (no_types, lifting) block_store.select_convs(2) block_store.surjective block_store.update_convs(2) option.sel option.simps(9))
  have "count_live u\<lparr> bs_disk := (bs_disk (count_live u))(?n := y) \<rparr> = count_live (u\<lparr> bs_disk := (bs_disk s)(?n := y) \<rparr>)" for y
    using d by (simp add: count_live_def)
  then have op: "?opened y" for y
    using sweep_frame(2) [OF ps(3) cur, of y] load_disk [of K ps "(bs_disk s)(?n := y)" ?s0] ps(1,2)
    by (simp add: open_block_store_def load_block_store_def del: fun_upd_apply)
  then show "?opened y" .
  have "t = t\<lparr> bs_disk := (bs_disk t)(?n := bs_disk s ?n) \<rparr>" using op [of "bs_disk s ?n"] t by (metis fun_upd_triv option.inject)
  then show "bs_disk t ?n = bs_disk s ?n" by (metis block_store.select_convs(2) block_store.surjective block_store.update_convs(2) fun_upd_same)
qed

end
