(* ===== verification/Block_Store_Properties.thy ===== *)
theory Block_Store_Properties
  imports Block_Store_Load Utxo_Properties
begin

text \<open>
  The properties of the block store: through every sequence of its operations, restarts among them, it
  is a map from hashes to the octets stored; and what a stop in the middle of an append costs.
\<close>

section \<open>Every sequence of operations\<close>

datatype bs_op =
    StoreBlock raw_block
  | AddRev rev_block
  | FinalizeRevs
  | RollbackRevs
  | ReadBlock bytes
  | ReadRev bytes
  | PruneTo int "int \<rightharpoonup> bytes"
  | Reopen

fun bs_step :: "'m block_lib \<Rightarrow> bs_op \<Rightarrow> block_store \<Rightarrow> block_store option" where
  "bs_step K (StoreBlock b) s = store_block K b s"
| "bs_step K (AddRev r) s = Some (add_rev_block r s)"
| "bs_step K FinalizeRevs s = finalize_revs K s"
| "bs_step K RollbackRevs s = Some (rollback_revs s)"
| "bs_step K (ReadBlock h) s = map_option snd (get_raw_block h s)"
| "bs_step K (ReadRev h) s = map_option snd (get_rev_block K h s)"
| "bs_step K (PruneTo target hash_at) s = prune_up_to K target hash_at s"
| "bs_step K Reopen s = open_block_store K (bs_db s) (bs_disk s)"

record bs_spec =
  sp_blocks :: "bytes \<rightharpoonup> bytes"
  sp_revs :: "bytes \<rightharpoonup> rev_block"
  sp_waiting :: "bytes \<rightharpoonup> rev_block"
  sp_pruned :: int

fun bs_spec_step :: "'m block_lib \<Rightarrow> bs_op \<Rightarrow> bs_spec \<Rightarrow> bs_spec" where
  "bs_spec_step K (StoreBlock b) a =
     (if raw_hash b \<in> dom (sp_blocks a) then a else a\<lparr> sp_blocks := (sp_blocks a)(raw_hash b \<mapsto> block_octets K b) \<rparr>)"
| "bs_spec_step K (AddRev r) a =
     (if rev_hash r \<in> dom (sp_revs a) \<union> dom (sp_waiting a) then a else a\<lparr> sp_waiting := (sp_waiting a)(rev_hash r \<mapsto> r) \<rparr>)"
| "bs_spec_step K FinalizeRevs a = a\<lparr> sp_revs := sp_revs a ++ sp_waiting a, sp_waiting := Map.empty \<rparr>"
| "bs_spec_step K RollbackRevs a = a\<lparr> sp_waiting := Map.empty \<rparr>"
| "bs_spec_step K (ReadBlock h) a = a"
| "bs_spec_step K (ReadRev h) a = a"
| "bs_spec_step K (PruneTo target hash_at) a =
     (let gone = {h. \<exists>k. sp_pruned a < k \<and> k \<le> target \<and> hash_at k = Some h}
      in a\<lparr> sp_blocks := sp_blocks a |` (- gone), sp_revs := sp_revs a |` (- gone), sp_pruned := max target (sp_pruned a) \<rparr>)"
| "bs_spec_step K Reopen a = a\<lparr> sp_waiting := Map.empty \<rparr>"

fun bs_op_ok :: "'m block_lib \<Rightarrow> int \<Rightarrow> bs_op \<Rightarrow> block_store \<Rightarrow> bool" where
  \<comment> \<open>an undo block that reads back, of a block held once it is written; a hash at each height to prune; sizes of eight octets\<close>
  "bs_op_ok K cap (AddRev r) s \<longleftrightarrow> rev_block_deserialize (bk_coins K) (rev_block_serialize (bk_coins K) r) = Some r"
| "bs_op_ok K cap FinalizeRevs s \<longleftrightarrow> fst ` set (bs_pending s) \<subseteq> fst ` set (bs_blocks s)"
| "bs_op_ok K cap (PruneTo target hash_at) s \<longleftrightarrow> {bs_pruned_up_to s<..target} \<subseteq> dom hash_at"
| "bs_op_ok K cap Reopen s \<longleftrightarrow> readable cap s"
| "bs_op_ok K cap _ s \<longleftrightarrow> True"

fun bs_ops_ok :: "'m block_lib \<Rightarrow> int \<Rightarrow> bs_op list \<Rightarrow> block_store \<Rightarrow> bool" where
  "bs_ops_ok K cap [] s \<longleftrightarrow> True"
| "bs_ops_ok K cap (x # xs) s \<longleftrightarrow> bs_op_ok K cap x s \<and> (case bs_step K x s of None \<Rightarrow> True | Some t \<Rightarrow> bs_ops_ok K cap xs t)"

definition revs_read :: "'m block_lib \<Rightarrow> block_store \<Rightarrow> bool" where
  "revs_read K s \<longleftrightarrow>
     (\<forall>h x. rev_view s h = Some x \<longrightarrow> (\<exists>r. rev_block_deserialize (bk_coins K) x = Some r \<and> x = rev_block_serialize (bk_coins K) r))
     \<and> (\<forall>(h, r)\<in>set (bs_pending s). rev_block_deserialize (bk_coins K) (rev_block_serialize (bk_coins K) r) = Some r)"

definition bs_abs :: "'m block_lib \<Rightarrow> block_store \<Rightarrow> bs_spec" where
  "bs_abs K s =
     \<lparr> sp_blocks = raw_view s, sp_revs = (\<lambda>h. Option.bind (rev_view s h) (rev_block_deserialize (bk_coins K))),
       sp_waiting = map_of (bs_pending s), sp_pruned = bs_pruned_up_to s \<rparr>"

lemma keeps_abs: "keeps_views s t \<Longrightarrow> bs_abs K t = bs_abs K s" "keeps_views s t \<Longrightarrow> revs_read K t = revs_read K s"
  by (simp_all add: keeps_views_def bs_abs_def revs_read_def)

lemma abs_doms:
  assumes "revs_read K s"
  shows "dom (sp_revs (bs_abs K s)) = fst ` set (bs_rev_patches s)" "dom (sp_waiting (bs_abs K s)) = fst ` set (bs_pending s)"
proof -
  have "sp_revs (bs_abs K s) h = None \<longleftrightarrow> rev_view s h = None" for h
    using assms by (cases "rev_view s h") (force simp: bs_abs_def revs_read_def)+
  then show "dom (sp_revs (bs_abs K s)) = fst ` set (bs_rev_patches s)" unfolding rev_view_dom [symmetric] by (auto simp: dom_def)
  show "dom (sp_waiting (bs_abs K s)) = fst ` set (bs_pending s)" by (simp add: bs_abs_def dom_map_of_conv_image_fst)
qed

lemma pending_frame:
  assumes "bs_ok K s" "distinct (map fst q)" "\<forall>(h, r)\<in>set q. rev_hash r = h" "fst ` set q \<inter> fst ` set (bs_rev_patches s) = {}"
  shows "bs_ok K (s\<lparr> bs_pending := q \<rparr>)" "raw_view (s\<lparr> bs_pending := q \<rparr>) = raw_view s" "rev_view (s\<lparr> bs_pending := q \<rparr>) = rev_view s"
proof -
  have "db_mirrors K (s\<lparr> bs_pending := q \<rparr>) = db_mirrors K s" "files_hold (s\<lparr> bs_pending := q \<rparr>) = files_hold s"
    "live_counts (s\<lparr> bs_pending := q \<rparr>) = live_counts s" "handles_ok (s\<lparr> bs_pending := q \<rparr>) = handles_ok s"
    by (simp_all add: db_mirrors_def files_hold_def live_counts_def file_names_def handles_ok_def file_number_def)
  then show "bs_ok K (s\<lparr> bs_pending := q \<rparr>)" using assms located_same [of "s\<lparr> bs_pending := q \<rparr>" s] by (simp add: bs_ok_def pending_ok_def)
  show "raw_view (s\<lparr> bs_pending := q \<rparr>) = raw_view s" "rev_view (s\<lparr> bs_pending := q \<rparr>) = rev_view s"
    by (simp_all add: raw_view_def rev_view_def location_data_def fun_eq_iff map_option_case split: option.splits)
qed

lemma bs_step_abs:
  assumes ok: "bs_ok K s" and rr: "revs_read K s" and laws: "long_laws K cap" and op: "bs_op_ok K cap x s"
  shows "\<exists>t. bs_step K x s = Some t \<and> bs_ok K t \<and> revs_read K t \<and> bs_abs K t = bs_spec_step K x (bs_abs K s)"
proof (cases x)
  case (StoreBlock b)
  obtain t where t: "store_block K b s = Some t" "bs_ok K t"
    "raw_view t = (raw_view s)(raw_hash b \<mapsto> (case raw_view s (raw_hash b) of None \<Rightarrow> block_octets K b | Some x \<Rightarrow> x))"
    "rev_view t = rev_view s" "bs_pending t = bs_pending s" "bs_pruned_up_to t = bs_pruned_up_to s" using store_block_ok [OF ok] by blast
  have "revs_read K t" using rr t(4,5) by (simp add: revs_read_def)
  moreover have "bs_abs K t = bs_spec_step K x (bs_abs K s)"
    using t(3-6) by (cases "raw_view s (raw_hash b)") (simp_all add: StoreBlock bs_abs_def fun_upd_idem domIff)
  ultimately show ?thesis using t(1,2) StoreBlock by simp
next
  case (AddRev r)
  let ?t = "add_rev_block r s"
  show ?thesis
  proof (cases "rev_hash r \<in> fst ` set (bs_rev_patches s) \<union> fst ` set (bs_pending s)")
    case True
    have "bs_spec_step K (AddRev r) (bs_abs K s) = bs_abs K s" using True abs_doms [OF rr] by simp
    then show ?thesis using True ok rr by (simp add: AddRev add_rev_block_def)
  next
    case False
    let ?q = "AList.update (rev_hash r) r (bs_pending s)"
    have q: "distinct (map fst ?q)" "\<forall>(h, r)\<in>set ?q. rev_hash r = h" "fst ` set ?q \<inter> fst ` set (bs_rev_patches s) = {}"
      using bs_okD(7) [OF ok] False by (auto simp: pending_ok_def update_fresh)
    note f = pending_frame [OF ok q]
    have t: "?t = s\<lparr> bs_pending := ?q \<rparr>" using False by (simp add: add_rev_block_def)
    have "revs_read K ?t" using rr op False unfolding t revs_read_def f(3) by (auto simp: AddRev update_fresh)
    moreover have "bs_abs K ?t = bs_spec_step K x (bs_abs K s)"
    proof -
      have "bs_spec_step K x (bs_abs K s) = (bs_abs K s)\<lparr> sp_waiting := (sp_waiting (bs_abs K s))(rev_hash r \<mapsto> r) \<rparr>"
        using False abs_doms [OF rr] by (simp add: AddRev)
      then show ?thesis unfolding t by (simp add: bs_abs_def f(2,3) update_conv')
    qed
    moreover have "bs_step K x s = Some ?t" by (simp add: AddRev)
    ultimately show ?thesis using f(1) t by simp
  qed
next
  case FinalizeRevs
  then have held: "fst ` set (bs_pending s) \<subseteq> dom (raw_view s)" using op by (simp add: raw_view_dom)
  obtain t where t: "finalize_revs K s = Some t" "bs_ok K t" "raw_view t = raw_view s" "bs_pending t = []"
    "rev_view t = rev_view s ++ (map_option (rev_block_serialize (bk_coins K)) \<circ> map_of (bs_pending s))" "bs_pruned_up_to t = bs_pruned_up_to s"
    using finalize_revs_ok [OF ok held] by blast
  have pr: "rev_block_deserialize (bk_coins K) (rev_block_serialize (bk_coins K) r) = Some r" if "map_of (bs_pending s) h = Some r" for h r
    using rr map_of_SomeD [OF that] by (auto simp: revs_read_def)
  have "revs_read K t" using rr pr t(4,5) by (fastforce simp: revs_read_def map_add_def split: option.splits)
  moreover have "Option.bind (rev_view t h) (rev_block_deserialize (bk_coins K)) = (sp_revs (bs_abs K s) ++ map_of (bs_pending s)) h" for h
    using pr [of h] t(5) by (cases "map_of (bs_pending s) h") (simp_all add: map_add_def bs_abs_def)
  then have "bs_abs K t = bs_spec_step K x (bs_abs K s)" using t(3,4,6) by (simp add: FinalizeRevs bs_abs_def fun_eq_iff)
  ultimately show ?thesis using t(1,2) FinalizeRevs by simp
next
  case RollbackRevs
  have f: "bs_ok K (s\<lparr> bs_pending := [] \<rparr>)" "raw_view (s\<lparr> bs_pending := [] \<rparr>) = raw_view s" "rev_view (s\<lparr> bs_pending := [] \<rparr>) = rev_view s"
    using pending_frame [OF ok, of "[]"] by simp_all
  then show ?thesis using rr by (simp add: RollbackRevs rollback_revs_def revs_read_def bs_abs_def)
next
  case (ReadBlock h)
  obtain t where "get_raw_block h s = Some (raw_view s h, t)" "bs_ok K t" "keeps_views s t" using get_raw_block_ok [OF ok] by blast
  then show ?thesis using rr keeps_abs [of s t K] by (simp add: ReadBlock)
next
  case (ReadRev h)
  obtain t where "get_rev_block K h s = Some (map_option (\<lambda>x. the (rev_block_deserialize (bk_coins K) x)) (rev_view s h), t)" "bs_ok K t" "keeps_views s t"
    using get_rev_block_ok [OF ok, of h "\<lambda>x. the (rev_block_deserialize (bk_coins K) x)"] rr unfolding revs_read_def by fastforce
  then show ?thesis using rr keeps_abs [of s t K] by (simp add: ReadRev)
next
  case (PruneTo target hash_at)
  let ?gone = "(the \<circ> hash_at) ` {bs_pruned_up_to s<..target}"
  have hs: "hash_at k \<noteq> None" if "bs_pruned_up_to s < k" "k \<le> target" for k using op that by (auto simp: PruneTo)
  obtain t where t: "prune_up_to K target hash_at s = Some t" "bs_ok K t" "raw_view t = raw_view s |` (- ?gone)" "rev_view t = rev_view s |` (- ?gone)"
    "bs_pending t = bs_pending s" "bs_pruned_up_to t = max target (bs_pruned_up_to s)" using prune_up_to_ok [OF ok, of target hash_at] hs by blast
  have g: "?gone = {h. \<exists>k. bs_pruned_up_to s < k \<and> k \<le> target \<and> hash_at k = Some h}" using hs by force
  have "revs_read K t" using rr t(4,5) by (auto simp: revs_read_def restrict_map_def split: if_splits)
  moreover have "bs_abs K t = bs_spec_step K x (bs_abs K s)"
    using t(3-6) by (auto simp: PruneTo bs_abs_def g [symmetric] Let_def restrict_map_def fun_eq_iff)
  ultimately show ?thesis using t(1,2) PruneTo by simp
next
  case Reopen
  then have small: "readable cap s" using op by simp
  obtain t where "open_block_store K (bs_db s) (bs_disk s) = Some t" "bs_ok K t" "raw_view t = raw_view s" "rev_view t = rev_view s"
    "bs_pending t = []" "bs_pruned_up_to t = bs_pruned_up_to s" using reopen_ok [OF ok laws small] by blast
  then show ?thesis using rr by (simp add: Reopen revs_read_def bs_abs_def)
qed

lemma bs_run_abs:
  assumes "bs_ok K s" "revs_read K s" "long_laws K cap" "bs_ops_ok K cap xs s"
  shows "\<exists>t. fold_opt (bs_step K) xs s = Some t \<and> bs_ok K t \<and> revs_read K t \<and> bs_abs K t = fold (bs_spec_step K) xs (bs_abs K s)"
  using assms(1,2,4)
proof (induction xs arbitrary: s)
  case (Cons x xs)
  obtain t where t: "bs_step K x s = Some t" "bs_ok K t" "revs_read K t" "bs_abs K t = bs_spec_step K x (bs_abs K s)"
    using bs_step_abs [OF Cons.prems(1,2) assms(3)] Cons.prems(3) by auto
  then show ?case using Cons.IH [OF t(2,3)] Cons.prems(3) by simp
qed simp

definition new_block_store :: block_store where
  "new_block_store =
     \<lparr> bs_db = empty_store, bs_disk = Map.empty, bs_files = [], bs_blocks = [], bs_rev_patches = [], bs_live = [],
       bs_pruned_up_to = - 1, bs_pending = [], bs_open_block = None, bs_open_rev = None, bs_file_index = 0 \<rparr>"

lemma new_block_store_ok:
  "open_block_store K empty_store Map.empty = Some new_block_store" "bs_ok K new_block_store" "revs_read K new_block_store"
  "bs_abs K new_block_store = \<lparr> sp_blocks = Map.empty, sp_revs = Map.empty, sp_waiting = Map.empty, sp_pruned = - 1 \<rparr>"
  by (simp_all add: open_block_store_def load_block_store_def kv_iter_def ensure_open_def empty_store_def count_live_def sweep_empty_files_def
      new_block_store_def bs_ok_def db_mirrors_def files_hold_def located_def live_counts_def file_names_def handles_ok_def pending_ok_def
      store_open_def pairs_ok_def store_get_def revs_read_def rev_view_def bs_abs_def raw_view_def fun_eq_iff)


definition demo_block_lib :: "int block_lib" where
  \<comment> \<open>a block is its hash, counted, and an octet for each transaction\<close>
  "demo_block_lib =
     \<lparr> bk_coins = demo_coins, long_parse = size_parse demo_coins,
       block_octets = \<lambda>b. counted (raw_hash b) @ replicate (length (raw_txs b)) 9,
       block_of = \<lambda>bs. map_option (\<lambda>(h, r). \<lparr> raw_hash = h, raw_txs = [] \<rparr>) (read_counted bs),
       header_of = \<lambda>bs. map_option (\<lambda>(h, r). (h, True)) (read_counted bs), signet_ok = \<lambda>bs. True \<rparr>"

lemma demo_long_laws: "long_laws demo_block_lib 100"
  by (simp add: long_laws_def demo_block_lib_def demo_coins_def)

definition demo_held :: raw_block where
  "demo_held = \<lparr> raw_hash = replicate 32 7, raw_txs = [] \<rparr>"

definition demo_rev1 :: rev_block where
  "demo_rev1 = \<lparr> rev_hash = replicate 32 7, to_add = [], to_remove = [] \<rparr>"

lemma demo_rev1_reads: "rev_block_deserialize demo_coins (rev_block_serialize demo_coins demo_rev1) = Some demo_rev1"
  by code_simp


definition demo_store1 :: block_store where
  "demo_store1 = the (store_block demo_block_lib demo_block1 new_block_store)"

lemma demo_store1_files:
  "bs_file_index demo_store1 = 1" "map_of (bs_files demo_store1) (blk_name 1) = Some \<lparr> fm_filename = blk_name 1, fm_size = 4 \<rparr>"
  "map fst (bs_blocks demo_store1) = [[1]]" "bs_disk demo_store1 (blk_name 1) = Some [1, 0, 1, 9]"
  by code_simp+

text \<open>C7.
  A block appended to a file that a stop left longer than recorded is misread after the restart.  The
  octets go to the end of the file, since it is open for appending, and the location recorded is the
  size recorded before: what reads back under the block's hash begins with what the stop left
  behind.\<close>
theorem torn_append_misread:
  assumes "bs_ok K s" "long_laws K cap" "readable cap s"
    and "0 < bs_file_index s" "map_of (bs_files s) (blk_name (bs_file_index s)) = Some m" "fm_size m \<le> file_bound"
    and "raw_hash b \<notin> fst ` set (bs_blocks s)" "append_file (blk_name (bs_file_index s)) torn s = Some s1"
  shows "\<exists>t u v. open_block_store K (bs_db s1) (bs_disk s1) = Some t \<and> store_block K b t = Some u
    \<and> get_raw_block (raw_hash b) u = Some (Some (take (length (block_octets K b)) (torn @ block_octets K b)), v)"
proof -
  let ?n = "blk_name (bs_file_index s)" and ?data = "block_octets K b"
  obtain c where c: "bs_disk s ?n = Some c" and s1: "s1 = s\<lparr> bs_disk := (bs_disk s)(?n \<mapsto> c @ torn) \<rparr>"
    using assms(8) by (auto simp: append_file_def bind_eq_Some_conv)
  obtain t where t: "open_block_store K (bs_db s) (bs_disk s) = Some t" "bs_ok K t" "raw_view t = raw_view s"
    using reopen_ok [OF assms(1-3)] by blast
  note r = reopen_changed [OF assms(1-3) t(1)]
  let ?t = "t\<lparr> bs_disk := (bs_disk t)(?n \<mapsto> c @ torn) \<rparr>"
  have o: "open_block_store K (bs_db s1) (bs_disk s1) = Some ?t" using r(1) [of "Some (c @ torn)"] by (simp add: s1)
  have held: "bs_disk t ?n = Some c" using r(2) c by simp
  note fh = files_holdD [OF bs_okD(2) [OF t(2)]] and fs = files_holdD [OF bs_okD(2) [OF assms(1)]]
  obtain m' where m': "map_of (bs_files t) ?n = Some m'" using file_recorded [OF bs_okD(2) [OF t(2)]] held by blast
  have size: "fm_filename m' = ?n" "fm_size m' = length c" "fm_size m = length c"
    using fh(3) [OF m'] fs(3) [OF assms(5)] held c by simp_all
  let ?t1 = "?t\<lparr> bs_open_block := Some ?n \<rparr>"
  have fi: "bs_file_index t = bs_file_index s" using reopen_ok [OF assms(1-3)] t(1) by auto
  have find: "find_block_file K ?t = Some (?n, ?t1)"
    using assms(4,6) m' size get_file_held(1) [of ?n ?t] by (simp add: find_block_file_def fi Let_def)
  let ?t2 = "?t1\<lparr> bs_disk := (bs_disk t)(?n \<mapsto> (c @ torn) @ ?data) \<rparr>"
  note db = db_mirrorsD(1,2) [OF bs_okD(1) [OF t(2)]]
  let ?m = "m'\<lparr> fm_size := length c + length ?data \<rparr>"
  obtain d1 where d1: "put_metadata K ?m ?t2 = Some (?t2\<lparr> bs_files := AList.update ?n ?m (bs_files t), bs_db := d1 \<rparr>)"
    "store_open d1" "pairs_ok (kv_data d1)" using put_metadata_ok [of ?t2 K ?m] db size(1) by auto
  let ?t3 = "?t2\<lparr> bs_files := AList.update ?n ?m (bs_files t), bs_db := d1 \<rparr>"
  have add: "add_data_to_file K ?n ?data ?t1 = Some ((length c, length ?data), ?t3)"
    using m' size(2) d1(1) by (simp add: add_data_to_file_def append_file_def)
  let ?l = "\<lparr> loc_filename = ?n, loc_index = length c, loc_size = length ?data \<rparr>"
  let ?t4 = "?t3\<lparr> bs_blocks := AList.update (raw_hash b) ?l (bs_blocks t) \<rparr>"
  obtain d2 where d2: "db_put (98 # raw_hash b) (location_serialize K ?l) ?t4 = Some (?t4\<lparr> bs_db := d2 \<rparr>)"
    using db_put_ok [of ?t4 "98 # raw_hash b" "location_serialize K ?l"] d1(2,3) by auto
  let ?u = "?t4\<lparr> bs_db := d2, bs_live := count_up ?n (bs_live t) \<rparr>"
  have "raw_hash b \<notin> fst ` set (bs_blocks t)" using assms(7) t(3) raw_view_dom by metis
  then have st: "store_block K b ?t = Some ?u" using find add d2 by (simp add: store_block_def)
  have "get_raw_block (raw_hash b) ?u = Some (Some (take (length ?data) (torn @ ?data)), ?u)"
    by (simp add: get_raw_block_def get_block_file_def get_data_from_file_def)
  with o st show ?thesis by blast
qed

theorem torn_append_misread_witness:
  "\<exists>s1 t u v. append_file (blk_name 1) [1, 0] demo_store1 = Some s1
     \<and> open_block_store demo_block_lib (bs_db s1) (bs_disk s1) = Some t \<and> store_block demo_block_lib demo_block2 t = Some u
     \<and> get_raw_block [2] u = Some (Some [1, 0, 1, 0, 2, 9], v)
     \<and> block_octets demo_block_lib demo_block2 = [1, 0, 2, 9, 9, 9]"
proof -
  obtain s where s: "store_block demo_block_lib demo_block1 new_block_store = Some s" "bs_ok demo_block_lib s"
    using store_block_ok [OF new_block_store_ok(2)] by blast
  have d: "demo_store1 = s" by (simp add: demo_store1_def s(1))
  obtain s1 where s1: "append_file (blk_name 1) [1, 0] demo_store1 = Some s1"
    using demo_store1_files(4) by (auto simp: append_file_def)
  have oct: "block_octets demo_block_lib demo_block2 = [1, 0, 2, 9, 9, 9]" by code_simp
  have small: "readable 100 demo_store1" unfolding readable_def by code_simp
  show ?thesis
    using torn_append_misread [OF s(2) [folded d] demo_long_laws small, of "\<lparr> fm_filename = blk_name 1, fm_size = 4 \<rparr>" demo_block2 "[1, 0]" s1]
      demo_store1_files s1 oct by (auto simp: file_bound_def demo_block2_def)
qed

end
