(* ===== verification/Filter_Index.thy ===== *)
theory Filter_Index
  imports Block_Store Block_Index
begin

text \<open>
  \<open>chainstate/filter_index.py\<close>: the BIP158 filter of every connected block and the header that chains it
  onto its parent's, held until \<open>finalize\<close> writes them with the locator, the block up to which every
  filter is stored.  Building a filter, its header and its hash is btclib's: the record \<open>filter_lib\<close>.
  Log lines are left out.
\<close>

section \<open>What btclib answers\<close>

record filter_lib =
  basic_filter :: "raw_block \<Rightarrow> bytes list \<Rightarrow> bytes"
    \<comment> \<open>the octets of \<open>BasicBlockFilter.from_block\<close> for a block and the scripts its inputs spend\<close>
  chain_header :: "bytes \<Rightarrow> bytes \<Rightarrow> bytes \<Rightarrow> bytes"
    \<comment> \<open>\<open>header\<close> of a filter, of the block of a hash, on the previous filter header\<close>
  filter_hash :: "bytes \<Rightarrow> bytes \<Rightarrow> bytes option"
  prevout_scripts :: "raw_block \<Rightarrow> (out_point \<rightharpoonup> tx_out) \<Rightarrow> bytes list option"
  block_prev :: "raw_block \<Rightarrow> bytes"
    \<comment> \<open>\<open>header.previous_block_hash\<close>\<close>

section \<open>The state\<close>

definition filter_prefix :: bytes where
  \<comment> \<open>\<open>b"cfilter-"\<close>\<close>
  "filter_prefix = [99, 102, 105, 108, 116, 101, 114, 45]"

definition header_prefix :: bytes where
  \<comment> \<open>\<open>b"cfheader-"\<close>\<close>
  "header_prefix = [99, 102, 104, 101, 97, 100, 101, 114, 45]"

definition best_block_key :: bytes where
  \<comment> \<open>\<open>b"best-block"\<close>\<close>
  "best_block_key = [98, 101, 115, 116, 45, 98, 108, 111, 99, 107]"

definition no_previous_filter_header :: bytes where
  "no_previous_filter_header = replicate 32 0"

definition catch_up_batch :: nat where
  "catch_up_batch = 500"

record filter_index =
  fi_db :: kv_store
  fi_genesis :: bytes
  fi_best :: "bytes option"
  fi_pending :: "(bytes, bytes \<times> bytes) dict"
  fi_trial_log :: "bytes list"
  fi_synced :: bool

definition get_filter :: "bytes \<Rightarrow> filter_index \<Rightarrow> exc + bytes option" where
  "get_filter h f =
     (case map_of (fi_pending f) h of
        Some (data, _) \<Rightarrow> Inr (Some data)
      | None \<Rightarrow> kv_get (fi_db f) (filter_prefix @ h))"

definition get_filter_header :: "bytes \<Rightarrow> filter_index \<Rightarrow> exc + bytes option" where
  \<comment> \<open>\<open>get_header\<close>\<close>
  "get_filter_header h f =
     (case map_of (fi_pending f) h of
        Some (_, header) \<Rightarrow> Inr (Some header)
      | None \<Rightarrow> kv_get (fi_db f) (header_prefix @ h))"

definition get_filter_hash :: "filter_lib \<Rightarrow> bytes \<Rightarrow> filter_index \<Rightarrow> exc + bytes option" where
  "get_filter_hash F h f =
     (case get_filter h f of
        Inl e \<Rightarrow> Inl e
      | Inr None \<Rightarrow> Inr None
      | Inr (Some data) \<Rightarrow> (case filter_hash F data h of None \<Rightarrow> Inl ValueError | Some x \<Rightarrow> Inr (Some x)))"

section \<open>Adding a block\<close>

definition filter_add_block :: "filter_lib \<Rightarrow> raw_block \<Rightarrow> bytes list \<Rightarrow> filter_index \<Rightarrow> filter_index \<times> (exc + unit)" where
  \<comment> \<open>\<open>add_block\<close>\<close>
  "filter_add_block F b scripts f =
     (let h = raw_hash b in
      case get_filter h f of
        Inl e \<Rightarrow> (f, Inl e)
      | Inr (Some _) \<Rightarrow> (f, Inr ())
      | Inr None \<Rightarrow>
          (case (if h = fi_genesis f then Inr (Some no_previous_filter_header) else get_filter_header (block_prev F b) f) of
             Inl e \<Rightarrow> (f, Inl e)
           | Inr None \<Rightarrow> (f, Inl (ChainstateInconsistencyError ''no filter header for the parent''))
           | Inr (Some previous_header) \<Rightarrow>
               let data = basic_filter F b scripts
               in (f\<lparr> fi_pending := AList.update h (data, chain_header F data h previous_header) (fi_pending f),
                      fi_trial_log := fi_trial_log f @ [h] \<rparr>, Inr ())))"

definition spent_outputs :: "rev_block \<Rightarrow> (out_point \<rightharpoonup> tx_out)" where
  \<comment> \<open>\<open>{out_point: coin.tx_out for out_point, coin in rev_block.to_add}\<close>\<close>
  "spent_outputs r = map_of (rev (map (\<lambda>(p, c). (p, coin_out c)) (to_add r)))"

definition add_connected_block :: "filter_lib \<Rightarrow> raw_block \<Rightarrow> rev_block \<Rightarrow> filter_index \<Rightarrow> filter_index \<times> (exc + unit)" where
  "add_connected_block F b r f =
     (case prevout_scripts F b (spent_outputs r) of
        None \<Rightarrow> (f, Inl KeyError)
      | Some scripts \<Rightarrow> filter_add_block F b scripts f)"

section \<open>Writing and undoing\<close>

definition filter_writes :: "bytes option \<Rightarrow> filter_index \<Rightarrow> kv_op list" where
  "filter_writes best_block f =
     concat (map (\<lambda>(h, data, header). [WPut (header_prefix @ h) header, WPut (filter_prefix @ h) data]) (fi_pending f))
       @ (case best_block of None \<Rightarrow> [] | Some b \<Rightarrow> [WPutMeta best_block_key b])"

definition filter_finalize :: "bytes option \<Rightarrow> filter_index \<Rightarrow> filter_index \<times> (exc + unit)" where
  \<comment> \<open>\<open>finalize\<close>\<close>
  "filter_finalize best_block f =
     (case write_batch (kv_writes (filter_writes best_block f)) (fi_db f) of
        (Some e, d) \<Rightarrow> (f\<lparr> fi_db := d \<rparr>, Inl e)
      | (None, d) \<Rightarrow>
          (f\<lparr> fi_db := d, fi_best := (case best_block of None \<Rightarrow> fi_best f | Some b \<Rightarrow> Some b),
              fi_pending := [], fi_trial_log := [] \<rparr>, Inr ()))"

definition filter_advance :: "bytes \<Rightarrow> filter_index \<Rightarrow> filter_index \<times> (exc + unit)" where
  \<comment> \<open>\<open>advance\<close>\<close>
  "filter_advance tip f = filter_finalize (if fi_synced f then Some tip else None) f"

definition filter_mark :: "filter_index \<Rightarrow> nat" where
  \<comment> \<open>\<open>trial_mark\<close>\<close>
  "filter_mark f = length (fi_trial_log f)"

function filter_rollback :: "nat \<Rightarrow> filter_index \<Rightarrow> filter_index option" where
  \<comment> \<open>\<open>rollback\<close>\<close>
  "filter_rollback mark f =
     (if length (fi_trial_log f) > mark then
        (let h = last (fi_trial_log f); f = f\<lparr> fi_trial_log := butlast (fi_trial_log f) \<rparr>
         in if h \<in> fst ` set (fi_pending f)
            then filter_rollback mark (f\<lparr> fi_pending := AList.delete h (fi_pending f) \<rparr>) else None)
      else Some f)"
  by pat_completeness auto

termination filter_rollback
  by (relation "measure (\<lambda>(mark, f). length (fi_trial_log f))") auto

declare filter_rollback.simps [simp del]

section \<open>Opening\<close>

definition open_filter_index :: "filter_lib \<Rightarrow> raw_block \<Rightarrow> kv_store \<Rightarrow> filter_index \<times> (exc + unit)" where
  \<comment> \<open>\<open>__init__\<close>, with the genesis block of the chain\<close>
  "open_filter_index F genesis_block d =
     (let f = \<lparr> fi_db = d, fi_genesis = raw_hash genesis_block, fi_best = None, fi_pending = [], fi_trial_log = [],
                fi_synced = False \<rparr> in
      case kv_get_meta d best_block_key of
        Inl e \<Rightarrow> (f, Inl e)
      | Inr best \<Rightarrow>
          (let f = f\<lparr> fi_best := best \<rparr> in
           case get_filter (fi_genesis f) f of
             Inl e \<Rightarrow> (f, Inl e)
           | Inr (Some _) \<Rightarrow> (f, Inr ())
           | Inr None \<Rightarrow>
               (case filter_add_block F genesis_block [] f of
                  (f, Inl e) \<Rightarrow> (f, Inl e)
                | (f, Inr _) \<Rightarrow>
                    filter_finalize (Some (case fi_best f of None \<Rightarrow> fi_genesis f | Some b \<Rightarrow> if b = [] then fi_genesis f else b)) f)))"

definition has_legacy_filters :: "kv_store \<Rightarrow> exc + bool" where
  "has_legacy_filters legacy =
     (case scan_prefix filter_prefix legacy of
        Inl e \<Rightarrow> Inl e
      | Inr ps \<Rightarrow> if ps \<noteq> [] then Inr True
                  else (case scan_prefix header_prefix legacy of Inl e \<Rightarrow> Inl e | Inr qs \<Rightarrow> Inr (qs \<noteq> [])))"

definition copy_writes :: "(bytes \<times> bytes \<times> bytes) list \<Rightarrow> kv_op list" where
  "copy_writes batch =
     concat (map (\<lambda>(h, data, header). [WPut (header_prefix @ h) header, WPut (filter_prefix @ h) data]) batch)"

definition copy_filters :: "(bytes \<times> bytes \<times> bytes) list \<Rightarrow> kv_store \<Rightarrow> exc option \<times> kv_store" where
  \<comment> \<open>\<open>_copy\<close>\<close>
  "copy_filters batch d = write_batch (kv_writes (copy_writes batch)) d"

fun adopt_loop :: "kv_store \<Rightarrow> pairs \<Rightarrow> nat \<Rightarrow> (bytes \<times> bytes \<times> bytes) list \<Rightarrow> kv_store \<Rightarrow> (exc + nat) \<times> kv_store" where
  "adopt_loop legacy [] moved batch d =
     (case copy_filters batch d of (Some e, d) \<Rightarrow> (Inl e, d) | (None, d) \<Rightarrow> (Inr moved, d))"
| "adopt_loop legacy ((key, data) # items) moved batch d =
     (let h = drop (length filter_prefix) key in
      case kv_get legacy (header_prefix @ h) of
        Inl e \<Rightarrow> (Inl e, d)
      | Inr None \<Rightarrow> adopt_loop legacy items moved batch d
      | Inr (Some header) \<Rightarrow>
          (let batch = batch @ [(h, data, header)] in
           if length batch \<ge> catch_up_batch then
             (case copy_filters batch d of
                (Some e, d) \<Rightarrow> (Inl e, d)
              | (None, d) \<Rightarrow> adopt_loop legacy items (moved + 1) [] d)
           else adopt_loop legacy items (moved + 1) batch d))"

definition adopt_legacy :: "kv_store \<Rightarrow> kv_store \<Rightarrow> (exc + nat) \<times> kv_store \<times> kv_store" where
  \<comment> \<open>the answer, the chainstate's store and the filters' own\<close>
  "adopt_legacy legacy d =
     (case has_legacy_filters legacy of
        Inl e \<Rightarrow> (Inl e, legacy, d)
      | Inr False \<Rightarrow> (Inr 0, legacy, d)
      | Inr True \<Rightarrow>
          (case scan_prefix filter_prefix legacy of
             Inl e \<Rightarrow> (Inl e, legacy, d)
           | Inr items \<Rightarrow>
               (case adopt_loop legacy items 0 [] d of
                  (Inl e, d) \<Rightarrow> (Inl e, legacy, d)
                | (Inr moved, d) \<Rightarrow>
                    (case write_batch (kv_writes [WDeletePrefix filter_prefix, WDeletePrefix header_prefix]) legacy of
                       (Some e, legacy) \<Rightarrow> (Inl e, legacy, d)
                     | (None, legacy) \<Rightarrow> (Inr moved, legacy, d)))))"

section \<open>Catching up with the active chain\<close>

definition first_uncovered :: "block_index \<Rightarrow> filter_index \<Rightarrow> exc + int" where
  "first_uncovered s f =
     (case fi_best f of
        None \<Rightarrow> Inr 0
      | Some best \<Rightarrow>
          if map_of (header_dict s) best = None
          then Inl (ChainstateInconsistencyError ''the best block of the block filter index is not in the block index'')
          else (case do {
                  tip \<leftarrow> py_last (active_chain s);
                  fork \<leftarrow> last_common_ancestor s best tip;
                  bi \<leftarrow> map_of (header_dict s) fork;
                  Some (bi_index bi + 1) } of
                None \<Rightarrow> Inl KeyError | Some i \<Rightarrow> Inr i))"

definition catch_up_block ::
  "'m block_lib \<Rightarrow> filter_lib \<Rightarrow> bytes \<Rightarrow> (filter_index \<times> block_store) \<times> int \<Rightarrow> ((filter_index \<times> block_store) \<times> int) \<times> (exc + unit)" where
  \<comment> \<open>one turn of the loop, over the two stores and how many were built\<close>
  "catch_up_block K F h st =
     (let ((f, store), built) = st in
      case get_filter h f of
        Inl e \<Rightarrow> (st, Inl e)
      | Inr (Some _) \<Rightarrow> (st, Inr ())
      | Inr None \<Rightarrow>
        (case read_held_block K h store of
           None \<Rightarrow> (st, Inl KeyError)
         | Some (Inl e, store) \<Rightarrow> (((f, store), built), Inl e)
         | Some (Inr block, store) \<Rightarrow>
           (case get_rev_block K h store of
              None \<Rightarrow> (((f, store), built), Inl KeyError)
            | Some (rev_block, store) \<Rightarrow>
              (case (block, rev_block) of
                 (Some b, Some r) \<Rightarrow>
                   (case add_connected_block F b r f of
                      (f, Inl e) \<Rightarrow> (((f, store), built), Inl e)
                    | (f, Inr _) \<Rightarrow>
                      (if length (fi_pending f) \<ge> catch_up_batch then
                         (case filter_finalize (Some h) f of (f, q) \<Rightarrow> (((f, store), built + 1), q))
                       else (((f, store), built + 1), Inr ())))
               | _ \<Rightarrow> (((f, store), built), Inl (ChainstateInconsistencyError ''cannot build the block filter index''))))))"

definition catch_up ::
  "'m block_lib \<Rightarrow> filter_lib \<Rightarrow> block_index \<Rightarrow> filter_index \<times> block_store \<Rightarrow> (filter_index \<times> block_store) \<times> (exc + int)" where
  "catch_up K F s st =
     (let (f, store) = st in
      case first_uncovered s f of
        Inl e \<Rightarrow> (st, Inl e)
      | Inr first \<Rightarrow>
        (case fold_exc (catch_up_block K F) (drop (nat first) (active_chain s)) (st, 0) of
           ((st, built), Inl e) \<Rightarrow> (st, Inl e)
         | (((f, store), built), Inr _) \<Rightarrow>
           (case py_last (active_chain s) of
              None \<Rightarrow> ((f, store), Inl IndexError)
            | Some tip \<Rightarrow>
              (case filter_finalize (Some tip) f of
                 (f, Inl e) \<Rightarrow> ((f, store), Inl e)
               | (f, Inr _) \<Rightarrow> ((f\<lparr> fi_synced := True \<rparr>, store), Inr built)))))"

end
