(* ===== verification/Filter_Chains.thy ===== *)
theory Filter_Chains
  imports Filter_Index Utxo_Flush Block_Store_Prunes Index_Headers
begin

text \<open>
  The invariant of the filter index: every filter kept, held or stored, has a header that chains it onto
  the header of its parent, down to genesis, and the locator names a block whose filter is stored.
  Adding, writing and rolling back keep it.
\<close>

section \<open>A batch of writes\<close>

lemma batch_direct:
  assumes "store_open d" "kv_writes ws d = (None, d')"
  shows "write_batch (kv_writes ws) d = (None, d')"
proof -
  let ?b = "d\<lparr>pending_batch := Some []\<rparr>"
  obtain r s where rs: "kv_writes ws ?b = (r, s)" by fastforce
  obtain xs where xs: "s = ?b\<lparr>pending_batch := Some xs\<rparr>" "kv_writes ws d = (r, fold apply_batch_op xs d)"
    using kv_writes_batch [OF _ rs, of "[]"] assms(1) by (auto simp: store_open_def)
  have e: "d\<lparr>pending_batch := None\<rparr> = d" using assms(1) by (simp add: store_open_def)
  have "fold apply_batch_op xs (d\<lparr>pending_batch := None\<rparr>) = d'" unfolding e using assms(2) xs(2) by simp
  then show ?thesis using assms xs rs by (simp add: write_batch_def ensure_open_def store_open_def)
qed

section \<open>The invariant\<close>

definition stored_pair :: "kv_store \<Rightarrow> bytes \<Rightarrow> (bytes \<times> bytes) option" where
  "stored_pair d h =
     (case store_get d (filter_prefix @ h) of
        None \<Rightarrow> None | Some x \<Rightarrow> map_option (\<lambda>y. (x, y)) (store_get d (header_prefix @ h)))"

definition filter_view :: "filter_index \<Rightarrow> bytes \<Rightarrow> (bytes \<times> bytes) option" where
  \<comment> \<open>the filter of a block and its header\<close>
  "filter_view f = stored_pair (fi_db f) ++ map_of (fi_pending f)"

definition filters_chain :: "filter_lib \<Rightarrow> (bytes \<Rightarrow> bytes) \<Rightarrow> bytes \<Rightarrow> (bytes \<Rightarrow> (bytes \<times> bytes) option) \<Rightarrow> bool" where
  \<comment> \<open>the header of a filter is that of the filter on the header of the block's parent, genesis on none\<close>
  "filters_chain F par g m \<longleftrightarrow>
     (\<forall>h x y. m h = Some (x, y) \<longrightarrow>
        (if h = g then y = chain_header F x h no_previous_filter_header
         else \<exists>x' y'. m (par h) = Some (x', y') \<and> y = chain_header F x h y'))"

definition fi_ok :: "filter_lib \<Rightarrow> (bytes \<Rightarrow> bytes) \<Rightarrow> filter_index \<Rightarrow> bool" where
  "fi_ok F par f \<longleftrightarrow>
     store_open (fi_db f)
     \<and> (\<forall>h. store_get (fi_db f) (filter_prefix @ h) = None \<longleftrightarrow> store_get (fi_db f) (header_prefix @ h) = None)
     \<and> distinct (map fst (fi_pending f))
     \<and> filters_chain F par (fi_genesis f) (stored_pair (fi_db f))
     \<and> filters_chain F par (fi_genesis f) (filter_view f)
     \<and> fst ` set (fi_pending f) \<inter> dom (stored_pair (fi_db f)) = {}
     \<and> map_of (kv_meta (fi_db f)) best_block_key = fi_best f
     \<and> (\<forall>b. fi_best f = Some b \<longrightarrow> b \<in> dom (stored_pair (fi_db f)))"

lemma fi_okD:
  assumes "fi_ok F par f"
  shows "store_open (fi_db f)"
    "store_get (fi_db f) (filter_prefix @ h) = None \<longleftrightarrow> store_get (fi_db f) (header_prefix @ h) = None"
    "distinct (map fst (fi_pending f))" "filters_chain F par (fi_genesis f) (stored_pair (fi_db f))"
    "filters_chain F par (fi_genesis f) (filter_view f)" "fst ` set (fi_pending f) \<inter> dom (stored_pair (fi_db f)) = {}"
    "map_of (kv_meta (fi_db f)) best_block_key = fi_best f"
    "fi_best f = Some b \<Longrightarrow> b \<in> dom (stored_pair (fi_db f))"
  using assms unfolding fi_ok_def by blast+

lemma filter_getters:
  assumes "fi_ok F par f"
  shows "get_filter h f = Inr (map_option fst (filter_view f h))" "get_filter_header h f = Inr (map_option snd (filter_view f h))"
proof -
  have o: "kv_get (fi_db f) k = Inr (store_get (fi_db f) k)" for k
    using fi_okD(1) [OF assms] by (simp add: kv_get_def ensure_open_def store_open_def store_get_def)
  show "get_filter h f = Inr (map_option fst (filter_view f h))"
    using fi_okD(2) [OF assms, of h]
    by (cases "map_of (fi_pending f) h") (auto simp: get_filter_def o filter_view_def stored_pair_def map_add_def split: option.splits)
  show "get_filter_header h f = Inr (map_option snd (filter_view f h))"
    using fi_okD(2) [OF assms, of h]
    by (cases "map_of (fi_pending f) h") (auto simp: get_filter_header_def o filter_view_def stored_pair_def map_add_def split: option.splits)
qed

section \<open>Adding a block, and taking it back\<close>

definition grown :: "filter_index \<Rightarrow> filter_index \<Rightarrow> bool" where
  \<comment> \<open>blocks added, each logged\<close>
  "grown f f' \<longleftrightarrow> (\<exists>es. f' = f\<lparr> fi_pending := fi_pending f @ es, fi_trial_log := fi_trial_log f @ map fst es \<rparr>
     \<and> distinct (map fst (fi_pending f @ es)))"

lemma grown_refl: "distinct (map fst (fi_pending f)) \<Longrightarrow> grown f f"
  unfolding grown_def by (intro exI [of _ "[]"]) simp

lemma grown_trans:
  assumes "grown f g" "grown g h"
  shows "grown f h"
proof -
  obtain es where es: "g = f\<lparr> fi_pending := fi_pending f @ es, fi_trial_log := fi_trial_log f @ map fst es \<rparr>"
    using assms(1) unfolding grown_def by blast
  obtain fs where fs: "h = g\<lparr> fi_pending := fi_pending g @ fs, fi_trial_log := fi_trial_log g @ map fst fs \<rparr>"
    "distinct (map fst (fi_pending g @ fs))" using assms(2) unfolding grown_def by blast
  show ?thesis unfolding grown_def using es fs by (intro exI [of _ "es @ fs"]) simp
qed

lemma delete_fresh: "k \<notin> fst ` set d \<Longrightarrow> AList.delete k d = d"
  by (induction d) (auto simp: AList.delete_eq)

lemma grown_rolls_back:
  assumes "grown f f'"
  shows "filter_rollback (filter_mark f) f' = Some f"
proof -
  have "filter_rollback (length l) (f\<lparr> fi_pending := p @ es, fi_trial_log := l @ map fst es \<rparr>)
      = Some (f\<lparr> fi_pending := p, fi_trial_log := l \<rparr>)" if "distinct (map fst (p @ es))" for p es l
    using that
  proof (induction es rule: rev_induct)
    case Nil
    then show ?case by (simp add: filter_rollback.simps)
  next
    case (snoc e es)
    obtain h v where e: "e = (h, v)" by (cases e) blast
    have fresh: "h \<notin> fst ` set (p @ es)" using snoc.prems e by auto
    then have "AList.delete h (p @ es @ [e]) = p @ es" using delete_fresh [of h p] delete_fresh [of h es] by (simp add: e AList.delete_eq image_Un)
    moreover have comm: "f\<lparr> fi_trial_log := a, fi_pending := c \<rparr> = f\<lparr> fi_pending := c, fi_trial_log := a \<rparr>" for a c by simp
    ultimately show ?case using snoc e by (subst filter_rollback.simps) (simp add: butlast_append comm)
  qed
  moreover obtain es where "f' = f\<lparr> fi_pending := fi_pending f @ es, fi_trial_log := fi_trial_log f @ map fst es \<rparr>"
    "distinct (map fst (fi_pending f @ es))" using assms unfolding grown_def by blast
  ultimately show ?thesis by (simp add: filter_mark_def)
qed

lemma filter_add_block_ok:
  assumes ok: "fi_ok F par f" and par: "raw_hash b \<noteq> fi_genesis f \<Longrightarrow> block_prev F b = par (raw_hash b)"
  shows "\<exists>f' q. filter_add_block F b scripts f = (f', q) \<and> fi_ok F par f' \<and> grown f f'
    \<and> (if raw_hash b \<in> dom (filter_view f) \<or> raw_hash b = fi_genesis f \<or> block_prev F b \<in> dom (filter_view f)
       then q = Inr () \<and> dom (filter_view f') = insert (raw_hash b) (dom (filter_view f))
       else q = Inl (ChainstateInconsistencyError ''no filter header for the parent'') \<and> f' = f)"
proof -
  let ?h = "raw_hash b"
  note g = filter_getters [OF ok]
  have r: "grown f f" using grown_refl fi_okD(3) [OF ok] .
  show ?thesis
  proof (cases "?h \<in> dom (filter_view f)")
    case True
    then show ?thesis using ok r by (auto simp: filter_add_block_def g insert_absorb Let_def)
  next
    case new: False
    show ?thesis
    proof (cases "?h = fi_genesis f \<or> block_prev F b \<in> dom (filter_view f)")
      case False
      then have n: "filter_view f ?h = None" "filter_view f (block_prev F b) = None" "?h \<noteq> fi_genesis f" using new by auto
      have run: "filter_add_block F b scripts f = (f, Inl (ChainstateInconsistencyError ''no filter header for the parent''))"
        by (simp add: filter_add_block_def g n)
      then show ?thesis using ok r n by (simp add: domIff)
    next
      case True
      let ?x = "basic_filter F b scripts"
      obtain z where z: "(if ?h = fi_genesis f then Inr (Some no_previous_filter_header) else get_filter_header (block_prev F b) f) = Inr (Some z)"
        "?h = fi_genesis f \<Longrightarrow> z = no_previous_filter_header"
        "?h \<noteq> fi_genesis f \<Longrightarrow> \<exists>x'. filter_view f (par ?h) = Some (x', z)"
        using True par by (cases "?h = fi_genesis f") (auto simp: g)
      let ?y = "chain_header F ?x ?h z"
      let ?e = "(?h, ?x, ?y)"
      have fresh: "?h \<notin> fst ` set (fi_pending f)" "?h \<notin> dom (stored_pair (fi_db f))"
        using new by (auto simp: filter_view_def dom_map_of_conv_image_fst)
      have app: "AList.update ?h (?x, ?y) (fi_pending f) = fi_pending f @ [?e]"
        using fresh(1) by (induction "fi_pending f" rule: list.induct) (simp_all add: update_fresh)
      let ?f = "f\<lparr> fi_pending := fi_pending f @ [?e], fi_trial_log := fi_trial_log f @ [?h] \<rparr>"
      have run: "filter_add_block F b scripts f = (?f, Inr ())"
        unfolding filter_add_block_def Let_def g(1) using new
        by (simp only: domIff not_not z(1) option.map sum.case option.case app)
      have view: "filter_view ?f = (filter_view f)(?h \<mapsto> (?x, ?y))"
        using fresh_views [OF fresh(1), of "(?x, ?y)"] by (simp add: filter_view_def del: map_of_append)
      have "filters_chain F par (fi_genesis f) (filter_view ?f)"
        unfolding filters_chain_def view
      proof (intro allI impI)
        fix h x y assume v: "((filter_view f)(?h \<mapsto> (?x, ?y))) h = Some (x, y)"
        show "if h = fi_genesis f then y = chain_header F x h no_previous_filter_header
          else \<exists>x' y'. ((filter_view f)(?h \<mapsto> (?x, ?y))) (par h) = Some (x', y') \<and> y = chain_header F x h y'"
        proof (cases "h = ?h")
          case True
          show ?thesis
          proof (cases "?h = fi_genesis f")
            case True
            then show ?thesis using v z(2) \<open>h = ?h\<close> by auto
          next
            case False
            then obtain x' where x': "filter_view f (par ?h) = Some (x', z)" using z(3) by blast
            then have "par ?h \<noteq> ?h" using new by auto
            then show ?thesis using v x' False \<open>h = ?h\<close> by auto
          qed
        next
          case False
          then have "filter_view f h = Some (x, y)" using v by simp
          then have "if h = fi_genesis f then y = chain_header F x h no_previous_filter_header
            else \<exists>x' y'. filter_view f (par h) = Some (x', y') \<and> y = chain_header F x h y'"
            using fi_okD(5) [OF ok] unfolding filters_chain_def by blast
          then show ?thesis using new by (cases "par h = ?h") (auto split: if_splits)
        qed
      qed
      moreover have "distinct (map fst (fi_pending f @ [?e]))" using fi_okD(3) [OF ok] fresh(1) by simp
      ultimately have "fi_ok F par ?f" using ok fresh(2) by (simp add: fi_ok_def)
      moreover have "grown f ?f" using \<open>distinct _\<close> unfolding grown_def by (intro exI [of _ "[?e]"]) simp
      ultimately show ?thesis using run view True by auto
    qed
  qed
qed

section \<open>Writing\<close>

lemma prefixes_apart:
  "filter_prefix @ h \<noteq> header_prefix @ h'" "filter_prefix @ h = filter_prefix @ h' \<longleftrightarrow> h = h'" "header_prefix @ h = header_prefix @ h' \<longleftrightarrow> h = h'"
  by (simp_all add: filter_prefix_def header_prefix_def)

lemma filter_puts:
  assumes "store_open d" "distinct (map fst ps)"
  shows "\<exists>d'. kv_writes (concat (map (\<lambda>(h, data, header). [WPut (header_prefix @ h) header, WPut (filter_prefix @ h) data]) ps)) d = (None, d')
    \<and> store_open d' \<and> kv_meta d' = kv_meta d
    \<and> (\<forall>h. store_get d' (filter_prefix @ h) = (case map_of ps h of Some p \<Rightarrow> Some (fst p) | None \<Rightarrow> store_get d (filter_prefix @ h)))
    \<and> (\<forall>h. store_get d' (header_prefix @ h) = (case map_of ps h of Some p \<Rightarrow> Some (snd p) | None \<Rightarrow> store_get d (header_prefix @ h)))"
  using assms
proof (induction ps arbitrary: d)
  case (Cons p ps)
  obtain h data header where p: "p = (h, data, header)" by (cases p) auto
  obtain d1 where d1: "kv_put (header_prefix @ h) header d = Inr d1" "store_open d1" "kv_meta d1 = kv_meta d"
    "\<And>x. store_get d1 x = (if x = header_prefix @ h then Some header else store_get d x)"
    using Cons.prems(1) by (simp add: kv_put_def ensure_open_def store_open_def store_get_def map_of_pairs_put)
  obtain d2 where d2: "kv_put (filter_prefix @ h) data d1 = Inr d2" "store_open d2" "kv_meta d2 = kv_meta d"
    "\<And>x. store_get d2 x = (if x = filter_prefix @ h then Some data else store_get d1 x)"
    using d1(2,3) by (simp add: kv_put_def ensure_open_def store_open_def store_get_def map_of_pairs_put)
  have none: "map_of ps h = None" using Cons.prems(2) p by (simp add: map_of_eq_None_iff)
  obtain d' where d': "kv_writes (concat (map (\<lambda>(h, data, header). [WPut (header_prefix @ h) header, WPut (filter_prefix @ h) data]) ps)) d2 = (None, d')"
    "store_open d'" "kv_meta d' = kv_meta d2"
    "\<And>h. store_get d' (filter_prefix @ h) = (case map_of ps h of Some p \<Rightarrow> Some (fst p) | None \<Rightarrow> store_get d2 (filter_prefix @ h))"
    "\<And>h. store_get d' (header_prefix @ h) = (case map_of ps h of Some p \<Rightarrow> Some (snd p) | None \<Rightarrow> store_get d2 (header_prefix @ h))"
    using Cons.IH [OF d2(2)] Cons.prems(2) by auto
  show ?case
    using d1 d2 d' none prefixes_apart prefixes_apart(1) [symmetric] by (intro exI [of _ d']) (auto simp: p split: option.splits)
qed simp

lemma filter_finalize_ok:
  assumes ok: "fi_ok F par f" and best: "\<And>b. best = Some b \<Longrightarrow> b \<in> dom (filter_view f)"
  shows "\<exists>f'. filter_finalize best f = (f', Inr ()) \<and> fi_ok F par f' \<and> stored_pair (fi_db f') = filter_view f \<and> filter_view f' = filter_view f
    \<and> fi_pending f' = [] \<and> fi_trial_log f' = [] \<and> fi_genesis f' = fi_genesis f \<and> fi_synced f' = fi_synced f
    \<and> fi_best f' = (case best of None \<Rightarrow> fi_best f | Some b \<Rightarrow> Some b)"
proof -
  note o = fi_okD [OF ok]
  let ?ws = "concat (map (\<lambda>(h, data, header). [WPut (header_prefix @ h) header, WPut (filter_prefix @ h) data]) (fi_pending f))"
  obtain d1 where d1: "kv_writes ?ws (fi_db f) = (None, d1)" "store_open d1" "kv_meta d1 = kv_meta (fi_db f)"
    "\<And>h. store_get d1 (filter_prefix @ h) = (case map_of (fi_pending f) h of Some p \<Rightarrow> Some (fst p) | None \<Rightarrow> store_get (fi_db f) (filter_prefix @ h))"
    "\<And>h. store_get d1 (header_prefix @ h) = (case map_of (fi_pending f) h of Some p \<Rightarrow> Some (snd p) | None \<Rightarrow> store_get (fi_db f) (header_prefix @ h))"
    using filter_puts [OF o(1,3)] by blast
  let ?d = "(case best of None \<Rightarrow> d1 | Some b \<Rightarrow> d1\<lparr>kv_meta := pairs_put best_block_key b (kv_meta d1)\<rparr>)"
  have w: "kv_writes (filter_writes best f) (fi_db f) = (None, ?d)"
    using d1(1,2) by (auto simp: filter_writes_def kv_writes_append kv_put_meta_def ensure_open_def store_open_def split: option.splits)
  have g: "store_get ?d = store_get d1" by (auto simp: store_get_def fun_eq_iff split: option.splits)
  have so: "store_open ?d" using d1(2) by (auto simp: store_open_def split: option.splits)
  let ?f = "f\<lparr> fi_db := ?d, fi_best := (case best of None \<Rightarrow> fi_best f | Some b \<Rightarrow> Some b), fi_pending := [], fi_trial_log := [] \<rparr>"
  have run: "filter_finalize best f = (?f, Inr ())" using batch_direct [OF o(1) w] by (simp add: filter_finalize_def)
  have sp: "stored_pair ?d = filter_view f"
    unfolding stored_pair_def filter_view_def g by (auto simp: fun_eq_iff d1(4,5) map_add_def split: option.splits)
  then have v: "filter_view ?f = filter_view f" by (simp add: filter_view_def fun_eq_iff map_add_def)
  have meta: "map_of (kv_meta ?d) best_block_key = (case best of None \<Rightarrow> fi_best f | Some b \<Rightarrow> Some b)"
    using o(7) d1(3) by (simp add: map_of_pairs_put split: option.splits)
  have both: "store_get ?d (filter_prefix @ h) = None \<longleftrightarrow> store_get ?d (header_prefix @ h) = None" for h
    using o(2) [of h] by (simp add: g d1(4,5) split: option.splits)
  have bs: "b \<in> dom (filter_view f)" if "(case best of None \<Rightarrow> fi_best f | Some b \<Rightarrow> Some b) = Some b" for b
    using that best o(8) by (auto simp: filter_view_def split: option.splits)
  have "fi_ok F par ?f" unfolding fi_ok_def v using so both o(5) sp meta bs by simp
  then show ?thesis using run sp v by (intro exI [of _ ?f]) simp
qed

end
