(* ===== verification/Filter_Properties.thy ===== *)
theory Filter_Properties
  imports Filter_Chains Index_Load Index_Reach Block_Store_Properties
begin

text \<open>
  Catching up: from the fork of the locator and the active chain, every missing filter is built from the
  blocks and undo blocks kept, and the whole active chain ends up stored.
\<close>

section \<open>Blocks that can be read\<close>

definition block_held :: "'m block_lib \<Rightarrow> block_store \<Rightarrow> bytes \<Rightarrow> raw_block \<Rightarrow> bool" where
  \<comment> \<open>the octets held under the hash pass the checks and are the block\<close>
  "block_held K s h b \<longleftrightarrow>
     (\<exists>x. raw_view s h = Some x \<and> header_of K x = Some (h, True) \<and> signet_ok K x \<and> block_of K x = Some b \<and> raw_hash b = h)"

definition undo_held :: "'m block_lib \<Rightarrow> block_store \<Rightarrow> bytes \<Rightarrow> rev_block \<Rightarrow> bool" where
  "undo_held K s h r \<longleftrightarrow> (\<exists>x. rev_view s h = Some x \<and> rev_block_deserialize (bk_coins K) x = Some r)"

lemma held_keeps:
  assumes "keeps_views s s'"
  shows "block_held K s' = block_held K s" "undo_held K s' = undo_held K s"
  using assms by (simp_all add: keeps_views_def block_held_def undo_held_def fun_eq_iff)

lemma read_held_block_ok:
  assumes "bs_ok K s" "block_held K s h b"
  shows "\<exists>s'. read_held_block K h s = Some (Inr (Some b), s') \<and> bs_ok K s' \<and> keeps_views s s'"
proof -
  obtain x where x: "raw_view s h = Some x" "header_of K x = Some (h, True)" "signet_ok K x" "block_of K x = Some b"
    using assms(2) unfolding block_held_def by blast
  obtain s' where "get_raw_block h s = Some (Some x, s')" "bs_ok K s'" "keeps_views s s'" using get_raw_block_ok [OF assms(1), of h] x(1) by auto
  then show ?thesis using x by (simp add: read_held_block_def read_checked_block_def read_checked_def)
qed

lemma get_undo_ok:
  assumes "bs_ok K s" "undo_held K s h r"
  shows "\<exists>s'. get_rev_block K h s = Some (Some r, s') \<and> bs_ok K s' \<and> keeps_views s s'"
  using get_rev_block_ok [OF assms(1), of h "\<lambda>_. r"] assms(2) unfolding undo_held_def by auto

section \<open>The loop\<close>

definition linked :: "(bytes \<Rightarrow> bytes) \<Rightarrow> bytes list \<Rightarrow> bool" where
  "linked par hs \<longleftrightarrow> (\<forall>i. Suc i < length hs \<longrightarrow> par (hs ! Suc i) = hs ! i)"

lemma linked_Cons: "linked par (h # hs) \<Longrightarrow> linked par hs \<and> (hs \<noteq> [] \<longrightarrow> par (hd hs) = h)"
  unfolding linked_def by (metis Suc_less_eq hd_conv_nth length_Cons length_greater_0_conv nth_Cons_0 nth_Cons_Suc)

definition buildable :: "'m block_lib \<Rightarrow> filter_lib \<Rightarrow> (bytes \<Rightarrow> bytes) \<Rightarrow> block_store \<Rightarrow> bytes \<Rightarrow> bool" where
  \<comment> \<open>block and undo block are held, and the undo block names what the inputs spend\<close>
  "buildable K F par s h \<longleftrightarrow>
     (\<exists>b r. block_held K s h b \<and> undo_held K s h r \<and> prevout_scripts F b (spent_outputs r) \<noteq> None \<and> block_prev F b = par h)"

lemma catch_up_block_ok:
  assumes ok: "fi_ok F par f" "bs_ok K store" "keeps_views s0 store"
    and h: "h \<in> dom (filter_view f) \<or> par h \<in> dom (filter_view f)"
    and b: "h \<in> dom (filter_view f) \<or> buildable K F par s0 h"
  shows "\<exists>f' store'. catch_up_block K F h ((f, store), n)
      = (((f', store'), n + (if h \<in> dom (filter_view f) then 0 else 1)), Inr ())
    \<and> fi_ok F par f' \<and> bs_ok K store' \<and> keeps_views s0 store'
    \<and> dom (filter_view f') = insert h (dom (filter_view f)) \<and> fi_genesis f' = fi_genesis f"
proof (cases "h \<in> dom (filter_view f)")
  case True
  then show ?thesis using ok by (auto simp: catch_up_block_def filter_getters [OF ok(1)] insert_absorb)
next
  case False
  then have none: "filter_view f h = None" and ph: "par h \<in> dom (filter_view f)" using h by auto
  obtain blk r sc where br: "block_held K s0 h blk" "undo_held K s0 h r" "prevout_scripts F blk (spent_outputs r) = Some sc" "block_prev F blk = par h"
    using b False unfolding buildable_def by blast
  obtain s1 where s1: "read_held_block K h store = Some (Inr (Some blk), s1)" "bs_ok K s1" "keeps_views store s1"
    using read_held_block_ok [OF ok(2)] br(1) held_keeps(1) [OF ok(3)] by metis
  have k1: "keeps_views s0 s1" by (rule keeps_views_trans [OF ok(3) s1(3)])
  obtain s2 where s2: "get_rev_block K h s1 = Some (Some r, s2)" "bs_ok K s2" "keeps_views s1 s2"
    using get_undo_ok [OF s1(2)] br(2) held_keeps(2) [OF k1] by metis
  have k2: "keeps_views s0 s2" by (rule keeps_views_trans [OF k1 s2(3)])
  have rh: "raw_hash blk = h" using br(1) by (auto simp: block_held_def)
  obtain f1 where f1: "filter_add_block F blk sc f = (f1, Inr ())" "fi_ok F par f1" "grown f f1" "dom (filter_view f1) = insert h (dom (filter_view f))"
    using filter_add_block_ok [OF ok(1), of blk sc] br(4) rh ph by auto
  have ac: "add_connected_block F blk r f = (f1, Inr ())" using br(3) f1(1) by (simp add: add_connected_block_def)
  have g1: "fi_genesis f1 = fi_genesis f" using f1(3) unfolding grown_def by auto
  show ?thesis
  proof (cases "length (fi_pending f1) \<ge> catch_up_batch")
    case True
    obtain f2 where f2: "filter_finalize (Some h) f1 = (f2, Inr ())" "fi_ok F par f2" "filter_view f2 = filter_view f1" "fi_genesis f2 = fi_genesis f1"
      using filter_finalize_ok [OF f1(2), of "Some h"] f1(4) by auto
    have "catch_up_block K F h ((f, store), n) = (((f2, s2), n + 1), Inr ())"
      using True by (simp add: catch_up_block_def filter_getters [OF ok(1)] none s1(1) s2(1) ac f2(1))
    then show ?thesis using f2 f1(4) s2(2) k2 g1 False by simp
  next
    case few: False
    have "catch_up_block K F h ((f, store), n) = (((f1, s2), n + 1), Inr ())"
      using few by (simp add: catch_up_block_def filter_getters [OF ok(1)] none s1(1) s2(1) ac)
    then show ?thesis using f1 s2(2) k2 g1 False by simp
  qed
qed

lemma catch_up_loop:
  assumes "fi_ok F par f" "bs_ok K store" "keeps_views s0 store" "distinct hs" "linked par hs"
    and "hs \<noteq> [] \<Longrightarrow> hd hs \<in> dom (filter_view f) \<or> par (hd hs) \<in> dom (filter_view f)"
    and "\<forall>h\<in>set hs. h \<in> dom (filter_view f) \<or> buildable K F par s0 h"
  shows "\<exists>f' store'. fold_exc (catch_up_block K F) hs ((f, store), n)
      = (((f', store'), n + int (length (filter (\<lambda>h. h \<notin> dom (filter_view f)) hs))), Inr ())
    \<and> fi_ok F par f' \<and> bs_ok K store' \<and> keeps_views s0 store'
    \<and> dom (filter_view f') = dom (filter_view f) \<union> set hs \<and> fi_genesis f' = fi_genesis f"
  using assms
proof (induction hs arbitrary: f store n)
  case (Cons h hs)
  let ?n = "n + (if h \<in> dom (filter_view f) then 0 else 1)"
  obtain f1 s1 where f1: "catch_up_block K F h ((f, store), n) = (((f1, s1), ?n), Inr ())"
    "fi_ok F par f1" "bs_ok K s1" "keeps_views s0 s1" "dom (filter_view f1) = insert h (dom (filter_view f))" "fi_genesis f1 = fi_genesis f"
    using catch_up_block_ok [OF Cons.prems(1-3), of h n] Cons.prems(6,7) by auto
  have l: "linked par hs" "hs \<noteq> [] \<Longrightarrow> par (hd hs) = h" using linked_Cons [OF Cons.prems(5)] by auto
  have same: "filter (\<lambda>h. h \<notin> dom (filter_view f1)) hs = filter (\<lambda>h. h \<notin> dom (filter_view f)) hs"
    using Cons.prems(4) by (intro filter_cong) (auto simp: f1(5))
  obtain f2 s2 where f2: "fold_exc (catch_up_block K F) hs ((f1, s1), ?n)
      = (((f2, s2), ?n + int (length (filter (\<lambda>h. h \<notin> dom (filter_view f)) hs))), Inr ())"
    "fi_ok F par f2" "bs_ok K s2" "keeps_views s0 s2" "dom (filter_view f2) = dom (filter_view f1) \<union> set hs" "fi_genesis f2 = fi_genesis f1"
    using Cons.IH [OF f1(2-4) _ l(1), of ?n] Cons.prems(4,7) l(2) f1(5) unfolding same by auto
  then show ?case using f1(1,5,6) by (intro exI [of _ f2] exI [of _ s2]) auto
qed simp

section \<open>The blocks the locator covers\<close>

lemma genesis_height: "tree_ok s \<Longrightarrow> known s h \<Longrightarrow> header_height s h = 0 \<longleftrightarrow> h = hdr_hash (genesis (chain s))"
  using tree_okD(2,5) unfolding known_def by (metis not_None_eq)

lemma filters_of_ancestors:
  assumes "tree_ok s" "filters_chain F (blk_parent s) (hdr_hash (genesis (chain s))) m" "known s b" "b \<in> dom m" "0 \<le> k" "k \<le> header_height s b"
  shows "anc s b k \<in> dom m"
  using assms(3,4,6)
proof (induction "nat (header_height s b - k)" arbitrary: b)
  case 0
  then have "k = header_height s b" by simp
  then show ?case using 0 by (simp add: tree.anc_self)
next
  case (Suc n)
  then have nz: "header_height s b \<noteq> 0" "k < header_height s b" using assms(5) by auto
  then have "b \<noteq> hdr_hash (genesis (chain s))" using genesis_height [OF assms(1) Suc.prems(1)] by simp
  moreover obtain x y where "m b = Some (x, y)" using Suc.prems(2) by auto
  ultimately have "blk_parent s b \<in> dom m" using assms(2) by (fastforce simp: filters_chain_def)
  moreover have "known s (blk_parent s b)" "header_height s (blk_parent s b) = header_height s b - 1"
    using tree.known_parent tree.height_parent assms(1) Suc.prems(1) nz(1) by blast+
  ultimately have "anc s (blk_parent s b) k \<in> dom m" using Suc.hyps Suc.prems nz by auto
  then show ?case using tree.anc_parent [OF assms(1) Suc.prems(1) assms(5) nz(2)] by simp
qed

lemma first_uncovered_ok:
  assumes ok: "index_ok L s" and f: "fi_ok F (blk_parent s) f" "fi_genesis f = hdr_hash (genesis (chain s))"
    and best: "\<And>b. fi_best f = Some b \<Longrightarrow> known s b"
  shows "\<exists>k. first_uncovered s f = Inr (int k) \<and> k \<le> length (active_chain s)
    \<and> set (take k (active_chain s)) \<subseteq> dom (filter_view f)"
proof (cases "fi_best f")
  case None
  then show ?thesis by (intro exI [of _ 0]) (simp add: first_uncovered_def)
next
  case (Some b)
  have t: "tree_ok s" "skip_ok s" and ac: "is_chain s (active_chain s)" using ok by (simp_all add: index_ok_def base_ok_def active_ok_def)
  have ne: "active_chain s \<noteq> []" using ac by (simp add: chain_of_def)
  note tip = tree.chain_of_last [OF ac]
  obtain c where c: "last_common_ancestor s b (last (active_chain s)) = Some c" "fork_point s b (last (active_chain s)) c"
    using last_common_ancestor_fork_point [OF t best [OF Some] tip(1)] by blast
  then have kc: "known s c" "ancestor_of s c b" "ancestor_of s c (last (active_chain s))" by (simp_all add: fork_point_def)
  obtain bi where bi: "map_of (header_dict s) c = Some bi" "header_height s c = bi_index bi" using knownE [OF t(1) kc(1)] by blast
  have h0: "0 \<le> bi_index bi" using tree_okD(4) [OF t(1) bi(1)] .
  have le: "bi_index bi < int (length (active_chain s))" using kc(3) tip(2) bi(2) by (simp add: is_anc_def)
  have mem: "active_chain s ! i \<in> dom (filter_view f)" if i: "int i \<le> bi_index bi" "i < length (active_chain s)" for i
  proof -
    have "active_chain s ! i = anc s (last (active_chain s)) (int i)" using tree.chain_of_anc [OF t(1) ac i(2)] .
    also have "\<dots> = anc s b (int i)"
      using tree.anc_eq_below [OF t(1) tip(1) best [OF Some], of "int i" "header_height s c"] kc(2,3) i(1) bi(2)
      by (auto simp: is_anc_def)
    finally have e: "active_chain s ! i = anc s b (int i)" .
    have "b \<in> dom (filter_view f)" using fi_okD(8) [OF f(1) Some] by (auto simp: filter_view_def)
    moreover have "int i \<le> header_height s b" using kc(2) i(1) bi(2) by (simp add: is_anc_def)
    ultimately show ?thesis unfolding e
      using filters_of_ancestors [OF t(1) _ best [OF Some]] fi_okD(5) [OF f(1)] f(2) by simp
  qed
  have "set (take (nat (bi_index bi + 1)) (active_chain s)) \<subseteq> dom (filter_view f)"
  proof
    fix h assume "h \<in> set (take (nat (bi_index bi + 1)) (active_chain s))"
    then obtain i where i: "i < nat (bi_index bi + 1)" "i < length (active_chain s)" "active_chain s ! i = h" by (auto simp: in_set_conv_nth)
    then have "int i \<le> bi_index bi" by linarith
    then show "h \<in> dom (filter_view f)" using mem [OF _ i(2)] i(3) by blast
  qed
  moreover have "first_uncovered s f = Inr (bi_index bi + 1)"
    using Some best [OF Some] c(1) bi(1) ne by (simp add: first_uncovered_def known_def py_simps)
  ultimately show ?thesis using h0 le by (intro exI [of _ "nat (bi_index bi + 1)"]) simp
qed


section \<open>Opening, and what the operations reach\<close>

lemma open_filter_index_ok:
  assumes ok: "fi_ok F par f" and g: "fi_genesis f = raw_hash gb"
  shows "\<exists>f'. open_filter_index F gb (fi_db f) = (f', Inr ()) \<and> fi_ok F par f' \<and> fi_genesis f' = raw_hash gb
    \<and> dom (filter_view f') = insert (raw_hash gb) (dom (stored_pair (fi_db f))) \<and> fi_pending f' = []
    \<and> (\<forall>b. fi_best f' = Some b \<longrightarrow> b = raw_hash gb \<or> fi_best f = Some b)"
proof -
  let ?f = "\<lparr> fi_db = fi_db f, fi_genesis = raw_hash gb, fi_best = fi_best f, fi_pending = [], fi_trial_log = [], fi_synced = False \<rparr>"
  note o = fi_okD [OF ok]
  have meta: "kv_get_meta (fi_db f) best_block_key = Inr (fi_best f)"
    using o(1,7) by (simp add: kv_get_meta_def ensure_open_def store_open_def)
  have v: "filter_view ?f = stored_pair (fi_db f)" by (simp add: filter_view_def)
  have ok': "fi_ok F par ?f" using ok g by (simp add: fi_ok_def v)
  show ?thesis
  proof (cases "raw_hash gb \<in> dom (stored_pair (fi_db f))")
    case True
    then have "open_filter_index F gb (fi_db f) = (?f, Inr ())"
      using filter_getters(1) [OF ok', of "raw_hash gb"] by (auto simp: open_filter_index_def meta v)
    then show ?thesis using ok' True by (simp add: v insert_absorb)
  next
    case False
    then have none: "stored_pair (fi_db f) (raw_hash gb) = None" by auto
    obtain f1 where f1: "filter_add_block F gb [] ?f = (f1, Inr ())" "fi_ok F par f1" "grown ?f f1"
      "dom (filter_view f1) = insert (raw_hash gb) (dom (stored_pair (fi_db f)))"
      using filter_add_block_ok [OF ok', of gb "[]"] by (auto simp: v)
    have b1: "fi_best f1 = fi_best f" "fi_genesis f1 = raw_hash gb" using f1(3) by (auto simp: grown_def)
    let ?best = "case fi_best f1 of None \<Rightarrow> fi_genesis f1 | Some b \<Rightarrow> if b = [] then fi_genesis f1 else b"
    have "?best \<in> dom (filter_view f1)" using o(8) f1(4) b1 by (auto split: option.splits)
    then obtain f2 where f2: "filter_finalize (Some ?best) f1 = (f2, Inr ())" "fi_ok F par f2" "filter_view f2 = filter_view f1"
      "fi_pending f2 = []" "fi_genesis f2 = fi_genesis f1" "fi_best f2 = Some ?best"
      using filter_finalize_ok [OF f1(2), of "Some ?best"] by auto
    have "open_filter_index F gb (fi_db f) = (f2, Inr ())"
      using filter_getters(1) [OF ok', of "raw_hash gb"] f1(1) f2(1) by (simp add: open_filter_index_def meta v none)
    then show ?thesis using f2 f1(4) b1 by (auto split: option.splits if_splits)
  qed
qed

definition no_filters :: "raw_block \<Rightarrow> filter_index" where
  "no_filters gb = \<lparr> fi_db = empty_store, fi_genesis = raw_hash gb, fi_best = None, fi_pending = [], fi_trial_log = [], fi_synced = False \<rparr>"

lemma no_filters_ok: "fi_ok F par (no_filters gb)" "stored_pair empty_store = Map.empty"
  by (simp_all add: fi_ok_def no_filters_def filters_chain_def filter_view_def stored_pair_def empty_store_def store_open_def store_get_def fun_eq_iff)

lemma open_fresh_filters:
  "\<exists>f. open_filter_index F gb empty_store = (f, Inr ()) \<and> fi_ok F par f \<and> fi_genesis f = raw_hash gb
    \<and> dom (filter_view f) = {raw_hash gb} \<and> (\<forall>b. fi_best f = Some b \<longrightarrow> b = raw_hash gb)"
  using open_filter_index_ok [OF no_filters_ok(1) [of F par gb], of gb] no_filters_ok(2)
  by (simp add: no_filters_def) blast

inductive fi_step :: "filter_lib \<Rightarrow> (bytes \<Rightarrow> bytes) \<Rightarrow> raw_block \<Rightarrow> filter_index \<Rightarrow> filter_index \<Rightarrow> bool"
  for F :: filter_lib and par :: "bytes \<Rightarrow> bytes" and gb :: raw_block where
  added: "(raw_hash b \<noteq> raw_hash gb \<Longrightarrow> block_prev F b = par (raw_hash b)) \<Longrightarrow> fi_step F par gb f (fst (filter_add_block F b scripts f))"
| written: "get_filter b f = Inr (Some x) \<Longrightarrow> fi_step F par gb f (fst (filter_finalize (Some b) f))"
| batched: "fi_step F par gb f (fst (filter_finalize None f))"
| reopened: "fi_step F par gb f (fst (open_filter_index F gb (fi_db f)))"

lemma fi_step_ok:
  assumes "fi_step F par gb f f'" "fi_ok F par f" "fi_genesis f = raw_hash gb"
  shows "fi_ok F par f' \<and> fi_genesis f' = raw_hash gb"
  using assms
proof cases
  case (added b scripts)
  obtain f1 q where "filter_add_block F b scripts f = (f1, q)" "fi_ok F par f1" "grown f f1"
    using filter_add_block_ok [OF assms(2), of b scripts] added(2) assms(3) by auto
  then show ?thesis using added(1) assms(3) by (auto simp: grown_def)
next
  case (written b x)
  then have "b \<in> dom (filter_view f)" using filter_getters(1) [OF assms(2)] by auto
  then obtain f1 where "filter_finalize (Some b) f = (f1, Inr ())" "fi_ok F par f1" "fi_genesis f1 = fi_genesis f"
    using filter_finalize_ok [OF assms(2), of "Some b"] by auto
  then show ?thesis using written(1) assms(3) by simp
next
  case batched
  then show ?thesis using filter_finalize_ok [OF assms(2), of None] assms(3) by auto
next
  case reopened
  then show ?thesis using open_filter_index_ok [OF assms(2,3)] by auto
qed

lemma fi_steps_ok:
  assumes "(fi_step F par gb)\<^sup>*\<^sup>* f f'" "fi_ok F par f" "fi_genesis f = raw_hash gb"
  shows "fi_ok F par f' \<and> fi_genesis f' = raw_hash gb"
  using assms by (induction rule: rtranclp_induct) (simp_all add: fi_step_ok)

text \<open>C40.
  From an empty store opened, through every sequence of blocks added, of batches and locators written
  and of restarts, a filter kept has its header kept too, and the header is that of the filter on the
  header kept for the parent, genesis on thirty-two zero octets; and whatever blocks a trial then adds,
  rolling back to its mark restores the index exactly.\<close>
theorem filter_headers_chain:
  assumes "open_filter_index F gb empty_store = (f0, q)" "(fi_step F par gb)\<^sup>*\<^sup>* f0 f" "get_filter h f = Inr (Some x)"
    and "\<forall>(b, sc)\<in>set trial. raw_hash b \<noteq> raw_hash gb \<longrightarrow> block_prev F b = par (raw_hash b)"
  shows "q = Inr () \<and> (\<exists>y. get_filter_header h f = Inr (Some y)
      \<and> (if h = raw_hash gb then y = chain_header F x h (replicate 32 0)
         else \<exists>y'. get_filter_header (par h) f = Inr (Some y') \<and> y = chain_header F x h y'))
    \<and> filter_rollback (filter_mark f) (fst (fold_exc (\<lambda>(b, sc). filter_add_block F b sc) trial f)) = Some f"
proof -
  have q: "q = Inr ()" "fi_ok F par f0" "fi_genesis f0 = raw_hash gb" using open_fresh_filters [of F gb par] assms(1) by auto
  have ok: "fi_ok F par f" "fi_genesis f = raw_hash gb" using fi_steps_ok [OF assms(2) q(2,3)] by simp_all
  note g = filter_getters [OF ok(1)]
  obtain y where y: "filter_view f h = Some (x, y)" using assms(3) g(1) by auto
  have "fi_ok F par f1 \<Longrightarrow> fi_genesis f1 = raw_hash gb \<Longrightarrow> grown f f1
    \<Longrightarrow> grown f (fst (fold_exc (\<lambda>(b, sc). filter_add_block F b sc) trial f1))" for f1
    using assms(4)
  proof (induction trial arbitrary: f1)
    case (Cons p trial)
    obtain b sc where p: "p = (b, sc)" by fastforce
    obtain f2 q2 where f2: "filter_add_block F b sc f1 = (f2, q2)" "fi_ok F par f2" "grown f1 f2"
      using filter_add_block_ok [OF Cons.prems(1), of b sc] Cons.prems(2,4) p by auto
    have "fi_genesis f2 = raw_hash gb" using f2(3) Cons.prems(2) by (auto simp: grown_def)
    then show ?case using Cons.IH [OF f2(2)] grown_trans [OF Cons.prems(3) f2(3)] Cons.prems(4) f2(1)
      by (cases q2) (simp_all add: p)
  qed simp
  then have "grown f (fst (fold_exc (\<lambda>(b, sc). filter_add_block F b sc) trial f))"
    using ok grown_refl fi_okD(3) [OF ok(1)] by blast
  then show ?thesis
    using grown_rolls_back q(1) y fi_okD(5) [OF ok(1)] ok(2) g(2) by (fastforce simp: filters_chain_def no_previous_filter_header_def)
qed

section \<open>A concrete chain\<close>

definition demo_top :: header where
  "demo_top = \<lparr>hdr_hash = replicate 32 7, hdr_prev = [0], hdr_bits = [29], hdr_version = 4, hdr_timestamp = 1\<rparr>"

definition demo_line :: block_index where
  "demo_line = add_to_active_chain (replicate 32 7) (demo_run [demo_top])"

lemma demo_line_ok:
  "index_ok demo_lib demo_line" "active_chain demo_line = [[0], replicate 32 7]" "blk_parent demo_line (replicate 32 7) = [0]"
  "hdr_hash (genesis (chain demo_line)) = [0]"
proof -
  have heights: "header_height (demo_run [demo_top]) (replicate 32 7) \<noteq> 0" by code_simp
  have "known (demo_run [demo_top]) (replicate 32 7)" "blk_parent (demo_run [demo_top]) (replicate 32 7) = last (active_chain (demo_run [demo_top]))"
    "bi_status (the (map_of (header_dict (demo_run [demo_top])) (replicate 32 7))) \<noteq> Invalid" by code_simp+
  then show "index_ok demo_lib demo_line" unfolding demo_line_def
    using add_to_active_chain_ok [OF demo_run_ok] heights by (auto simp: known_def invalid_def)
  show "active_chain demo_line = [[0], replicate 32 7]" "blk_parent demo_line (replicate 32 7) = [0]"
    "hdr_hash (genesis (chain demo_line)) = [0]" by code_simp+
qed

definition demo_filters :: filter_lib where
  \<comment> \<open>a filter is the hash, a header both one after the other; every input's script is known\<close>
  "demo_filters =
     \<lparr> basic_filter = \<lambda>b scripts. raw_hash b, chain_header = \<lambda>x h y. x @ y, filter_hash = \<lambda>x h. Some x,
       prevout_scripts = \<lambda>b m. Some [], block_prev = \<lambda>b. [0] \<rparr>"

definition demo_genesis :: raw_block where
  "demo_genesis = \<lparr> raw_hash = [0], raw_txs = [] \<rparr>"

theorem filter_headers_chain_witness:
  "\<exists>f. open_filter_index demo_filters demo_genesis empty_store = (f, Inr ())
    \<and> (\<exists>y. get_filter_header [0] f = Inr (Some y) \<and> y = chain_header demo_filters [0] [0] (replicate 32 0))
    \<and> filter_rollback (filter_mark f) (fst (fold_exc (\<lambda>(b, sc). filter_add_block demo_filters b sc) [(demo_held, [])] f)) = Some f"
proof -
  have "snd (open_filter_index demo_filters demo_genesis empty_store) = Inr ()"
    "get_filter [0] (fst (open_filter_index demo_filters demo_genesis empty_store)) = Inr (Some [0])" by code_simp+
  then obtain f where f: "open_filter_index demo_filters demo_genesis empty_store = (f, Inr ())" "get_filter [0] f = Inr (Some [0])" by (metis prod.collapse)
  have "\<forall>(b, sc)\<in>set [(demo_held, [])]. raw_hash b \<noteq> raw_hash demo_genesis \<longrightarrow> block_prev demo_filters b = (\<lambda>_. [0]) (raw_hash b)"
    by (simp add: demo_filters_def)
  from filter_headers_chain [OF f(1) rtranclp.rtrancl_refl f(2) this] f(1) show ?thesis by (auto simp: demo_genesis_def)
qed

definition demo_filled :: block_store where
  \<comment> \<open>the block above genesis and its undo block\<close>
  "demo_filled = the (fold_opt (bs_step demo_block_lib) [StoreBlock demo_held, AddRev demo_rev1, FinalizeRevs] new_block_store)"

lemma demo_filled_ok: "bs_ok demo_block_lib demo_filled" "block_held demo_block_lib demo_filled (replicate 32 7) demo_held"
  "undo_held demo_block_lib demo_filled (replicate 32 7) demo_rev1"
proof -
  let ?K = demo_block_lib and ?ops = "[StoreBlock demo_held, AddRev demo_rev1, FinalizeRevs]"
  have rd: "rev_block_deserialize (bk_coins ?K) (rev_block_serialize (bk_coins ?K) demo_rev1) = Some demo_rev1"
    using demo_rev1_reads by (simp add: demo_block_lib_def)
  obtain s1 where s1: "bs_step ?K (StoreBlock demo_held) new_block_store = Some s1" "bs_ok ?K s1" "revs_read ?K s1"
    "bs_abs ?K s1 = bs_spec_step ?K (StoreBlock demo_held) (bs_abs ?K new_block_store)"
    using bs_step_abs [OF new_block_store_ok(2,3) demo_long_laws, of "StoreBlock demo_held"] by auto
  obtain s2 where s2: "bs_step ?K (AddRev demo_rev1) s1 = Some s2" "bs_ok ?K s2" "revs_read ?K s2"
    "bs_abs ?K s2 = bs_spec_step ?K (AddRev demo_rev1) (bs_abs ?K s1)"
    using bs_step_abs [OF s1(2,3) demo_long_laws, of "AddRev demo_rev1"] rd by auto
  have "sp_waiting (bs_abs ?K s2) = [replicate 32 7 \<mapsto> demo_rev1]" "dom (sp_blocks (bs_abs ?K s2)) = {replicate 32 7}"
    by (simp_all add: s2(4) s1(4) new_block_store_ok(4) demo_held_def demo_rev1_def)
  then have op: "bs_op_ok ?K 100 FinalizeRevs s2" using abs_doms(2) [OF s2(3)] raw_view_dom [of s2] by (simp add: bs_abs_def)
  obtain s3 where s3: "bs_step ?K FinalizeRevs s2 = Some s3" "bs_ok ?K s3" "revs_read ?K s3"
    "bs_abs ?K s3 = bs_spec_step ?K FinalizeRevs (bs_abs ?K s2)"
    using bs_step_abs [OF s2(2,3) demo_long_laws op] by blast
  have e: "demo_filled = s3" using s1(1) s2(1) s3(1) by (simp add: demo_filled_def del: bs_step.simps)
  show "bs_ok ?K demo_filled" unfolding e by (rule s3(2))
  have "sp_blocks (bs_abs ?K s3) (replicate 32 7) = Some (block_octets ?K demo_held)" "sp_revs (bs_abs ?K s3) (replicate 32 7) = Some demo_rev1"
    by (simp_all add: s3(4) s2(4) s1(4) new_block_store_ok(4) demo_held_def demo_rev1_def)
  then have v: "raw_view s3 (replicate 32 7) = Some (block_octets ?K demo_held)" "sp_revs (bs_abs ?K s3) (replicate 32 7) = Some demo_rev1"
    by (simp_all add: bs_abs_def)
  have "header_of ?K (block_octets ?K demo_held) = Some (replicate 32 7, True)" "signet_ok ?K (block_octets ?K demo_held)"
    "block_of ?K (block_octets ?K demo_held) = Some demo_held" by code_simp+
  then show "block_held ?K demo_filled (replicate 32 7) demo_held" unfolding e block_held_def using v(1) by (auto simp: demo_held_def)
  show "undo_held ?K demo_filled (replicate 32 7) demo_rev1" unfolding e undo_held_def using v(2) by (auto simp: bs_abs_def bind_eq_Some_conv)
qed


end
