(* ===== verification/Block_Availability.thy ===== *)
theory Block_Availability
  imports Index_Headers
begin

text \<open>
  \<open>p2p/block_availability.py\<close>: what the node knows one peer has of the block chain, and which
  blocks it asks the peer for.  The block index is the one of Block_Index; a connection is the part
  of it these functions read, its identifier, its download queue and its availability.  What a
  block being rebuilt from a compact block holds is left open, the type \<open>'p\<close>.
\<close>

section \<open>State\<close>

definition block_download_window :: int where "block_download_window = 1024"
definition fetch_chunk :: int where "fetch_chunk = 128"
definition min_blocks_to_keep :: int where "min_blocks_to_keep = 288"

record 'p block_availability =
  best_known :: "bytes option"
  last_unknown :: "bytes option"
  last_common :: "bytes option"
  best_header_sent :: "bytes option"
  stalling_since :: real
  downloading_since :: real
  partial_blocks :: "bytes \<rightharpoonup> 'p option"
  request_order :: "bytes \<rightharpoonup> int"

definition new_block_availability :: "'p block_availability" where
  "new_block_availability = \<lparr>best_known = None, last_unknown = None, last_common = None, best_header_sent = None,
     stalling_since = 0, downloading_since = 0, partial_blocks = Map.empty, request_order = Map.empty\<rparr>"

record 'p peer_queue =
  pq_id :: int
  download_queue :: "bytes list"
  pq_state :: "'p block_availability"

section \<open>What a peer announced\<close>

definition take_best :: "block_index \<Rightarrow> bytes \<Rightarrow> 'p block_availability \<Rightarrow> 'p block_availability option" where
  \<comment> \<open>an indexed block becomes \<open>best_known\<close> unless that has more work\<close>
  "take_best s h st =
     (case best_known st of
        None \<Rightarrow> Some (st\<lparr>best_known := Some h\<rparr>)
      | Some b \<Rightarrow> do {
          w \<leftarrow> chainwork s h; w' \<leftarrow> chainwork s b;
          Some (if w \<ge> w' then st\<lparr>best_known := Some h\<rparr> else st) })"

definition process_block_availability ::
  "block_index \<Rightarrow> 'p block_availability \<Rightarrow> 'p block_availability option" where
  "process_block_availability s st =
     (case last_unknown st of
        None \<Rightarrow> Some st
      | Some h \<Rightarrow>
          if map_of (header_dict s) h = None then Some st
          else map_option (\<lambda>st. st\<lparr>last_unknown := None\<rparr>) (take_best s h st))"

definition update_block_availability ::
  "block_index \<Rightarrow> bytes \<Rightarrow> 'p block_availability \<Rightarrow> 'p block_availability option" where
  "update_block_availability s h st =
     do {
       st \<leftarrow> process_block_availability s st;
       if map_of (header_dict s) h = None then Some (st\<lparr>last_unknown := Some h\<rparr>) else take_best s h st
     }"

definition has_through :: "block_index \<Rightarrow> int \<Rightarrow> bytes \<Rightarrow> bytes option \<Rightarrow> bool option" where
  "has_through s height h b =
     (case b of None \<Rightarrow> Some False | Some k \<Rightarrow> map_option (\<lambda>a. a = Some h) (get_ancestor s k height))"

definition peer_has_header :: "block_index \<Rightarrow> 'p block_availability \<Rightarrow> bytes \<Rightarrow> bool option" where
  "peer_has_header s st h =
     do {
       bi \<leftarrow> map_of (header_dict s) h;
       a \<leftarrow> has_through s (bi_index bi) h (best_known st);
       if a then Some True else has_through s (bi_index bi) h (best_header_sent st)
     }"

section \<open>The blocks to ask for\<close>

definition reset_common :: "block_index \<Rightarrow> bytes \<Rightarrow> bytes \<Rightarrow> bytes option \<Rightarrow> bytes option" where
  \<comment> \<open>the new \<open>last_common\<close>, of \<open>best_known\<close>, the fork point and the old one\<close>
  "reset_common s best fork lc =
     (case lc of
        None \<Rightarrow> Some fork
      | Some l \<Rightarrow> do {
          wf \<leftarrow> chainwork s fork; wl \<leftarrow> chainwork s l;
          if wf > wl then Some fork
          else do {
            bi \<leftarrow> map_of (header_dict s) l;
            a \<leftarrow> get_ancestor s best (bi_index bi);
            Some (if a \<noteq> Some l then fork else l) } })"

definition walk_start ::
  "block_index \<Rightarrow> int \<Rightarrow> 'p block_availability \<Rightarrow> (bytes option \<times> 'p block_availability) option" where
  "walk_start s minimum_chain_work st =
     do {
       st \<leftarrow> process_block_availability s st;
       case best_known st of
         None \<Rightarrow> Some (None, st)
       | Some best \<Rightarrow> do {
           tip \<leftarrow> py_last (active_chain s);
           wb \<leftarrow> chainwork s best;
           wt \<leftarrow> chainwork s tip;
           if wb < wt \<or> wb < minimum_chain_work then Some (None, st)
           else do {
             fork \<leftarrow> last_common_ancestor s best tip;
             lc \<leftarrow> reset_common s best fork (last_common st);
             let st = st\<lparr>last_common := Some lc\<rparr> in
             Some (if lc = best then None else Some best, st) } }
     }"

record block_request =
  rq_count :: int
  segwit_height :: int
  in_flight :: "bytes \<rightharpoonup> int"
  peer_id :: int
  limited :: bool
  can_serve_witnesses :: bool

record walk_state =
  w_common :: bytes
  w_blocks :: "bytes list"
  waiting_for :: "int option"
  all_held :: bool

definition visit_block ::
  "block_index \<Rightarrow> block_request \<Rightarrow> int \<Rightarrow> int \<Rightarrow> bytes \<Rightarrow> walk_state \<Rightarrow> ((walk_state \<times> int option) + walk_state) option" where
  \<comment> \<open>one round of the loop: \<open>Inl\<close> where it ends the walk, with the staller\<close>
  "visit_block s q best_height window_end h w =
     do {
       bi \<leftarrow> map_of (header_dict s) h;
       let height = bi_index bi in
       Some
         (if bi_status bi = Invalid \<or> (\<not> can_serve_witnesses q \<and> height \<ge> segwit_height q) then Inl (w, None)
          else if bi_downloaded bi then Inr (if all_held w then w\<lparr>w_common := h\<rparr> else w)
          else
            let w = w\<lparr>all_held := False\<rparr> in
            case in_flight q h of
              Some p \<Rightarrow> Inr (if waiting_for w = None then w\<lparr>waiting_for := Some p\<rparr> else w)
            | None \<Rightarrow>
                if height > window_end
                then Inl (w, if w_blocks w = [] \<and> waiting_for w \<noteq> Some (peer_id q) then waiting_for w else None)
                else if limited q \<and> best_height - height \<ge> min_blocks_to_keep - 2 then Inr w
                else
                  let w = w\<lparr>w_blocks := w_blocks w @ [h]\<rparr>
                  in if int (length (w_blocks w)) = rq_count q then Inl (w, None) else Inr w)
     }"

fun visit_all ::
  "block_index \<Rightarrow> block_request \<Rightarrow> int \<Rightarrow> int \<Rightarrow> bytes list \<Rightarrow> walk_state \<Rightarrow> ((walk_state \<times> int option) + walk_state) option" where
  "visit_all s q best_height window_end [] w = Some (Inr w)"
| "visit_all s q best_height window_end (h # hs) w =
     (case visit_block s q best_height window_end h w of
        None \<Rightarrow> None
      | Some (Inl e) \<Rightarrow> Some (Inl e)
      | Some (Inr w) \<Rightarrow> visit_all s q best_height window_end hs w)"

fun chunk_down :: "block_index \<Rightarrow> nat \<Rightarrow> bytes \<Rightarrow> bytes list option" where
  \<comment> \<open>a block and as many of its ancestors, by parent hash\<close>
  "chunk_down s 0 h = Some [h]"
| "chunk_down s (Suc n) h =
     do { bi \<leftarrow> map_of (header_dict s) h; rest \<leftarrow> chunk_down s n (hdr_prev (bi_header bi)); Some (h # rest) }"

partial_function (option) walk_chunks ::
  "block_index \<Rightarrow> block_request \<Rightarrow> int \<Rightarrow> int \<Rightarrow> bytes \<Rightarrow> int \<Rightarrow> int \<Rightarrow> walk_state \<Rightarrow> ((walk_state \<times> int option) + walk_state) option" where
  \<comment> \<open>the generator \<open>_successors\<close> off the best header chain, with the loop that consumes it: how
    long a chunk is depends on how many blocks are still wanted when it is read\<close>
  "walk_chunks s q best_height window_end best height stop w =
     (if height < stop then
        let size = min (stop - height) (max (rq_count q - int (length (w_blocks w))) fetch_chunk) in
        do {
          t \<leftarrow> get_ancestor s best (height + size);
          top \<leftarrow> t;
          chunk \<leftarrow> chunk_down s (nat size - 1) top;
          r \<leftarrow> visit_all s q best_height window_end (rev chunk) w;
          case r of
            Inl e \<Rightarrow> Some (Inl e)
          | Inr w \<Rightarrow> walk_chunks s q best_height window_end best (height + size) stop w
        }
      else Some (Inr w))"

declare walk_chunks.simps [code]

definition py_slice :: "'a list \<Rightarrow> int \<Rightarrow> int \<Rightarrow> 'a list" where
  \<comment> \<open>\<open>xs[a:b]\<close> for bounds that are not negative\<close>
  "py_slice xs a b = drop (nat a) (take (nat b) xs)"

definition walk_successors ::
  "block_index \<Rightarrow> block_request \<Rightarrow> int \<Rightarrow> int \<Rightarrow> bytes \<Rightarrow> int \<Rightarrow> int \<Rightarrow> walk_state \<Rightarrow> ((walk_state \<times> int option) + walk_state) option" where
  "walk_successors s q best_height window_end best start stop w =
     (if header_index_pos s best \<noteq> None
      then visit_all s q best_height window_end (py_slice (header_index s) (start + 1) (stop + 1)) w
      else walk_chunks s q best_height window_end best start stop w)"

definition find_next_blocks_to_download ::
  "block_index \<Rightarrow> block_request \<Rightarrow> int \<Rightarrow> 'p block_availability \<Rightarrow>
   ('p block_availability \<times> bytes list \<times> int option) option" where
  "find_next_blocks_to_download s q minimum_chain_work st =
     do {
       r \<leftarrow> (if rq_count q = 0 then Some (None, st) else walk_start s minimum_chain_work st);
       case r of
         (None, st) \<Rightarrow> Some (st, [], None)
       | (Some best, st) \<Rightarrow> do {
           lc \<leftarrow> last_common st;
           lbi \<leftarrow> map_of (header_dict s) lc;
           bbi \<leftarrow> map_of (header_dict s) best;
           let window_end = bi_index lbi + block_download_window;
               w = \<lparr>w_common = lc, w_blocks = [], waiting_for = None, all_held = True\<rparr> in
           do {
             r \<leftarrow> walk_successors s q (bi_index bbi) window_end best (bi_index lbi)
                    (min (bi_index bbi) (window_end + 1)) w;
             let (w, staller) = (case r of Inl e \<Rightarrow> e | Inr w \<Rightarrow> (w, None)) in
             Some (st\<lparr>last_common := Some (w_common w)\<rparr>, w_blocks w, staller) } }
     }"

section \<open>The blocks in flight\<close>

definition drop_request :: "bytes \<Rightarrow> real \<Rightarrow> 'p peer_queue \<Rightarrow> 'p peer_queue" where
  "drop_request h now conn =
     (let st = pq_state conn;
          st = (if hd (download_queue conn) = h then st\<lparr>downloading_since := max (downloading_since st) now\<rparr> else st)
      in conn\<lparr>download_queue := remove1 h (download_queue conn),
              pq_state := st\<lparr>partial_blocks := (partial_blocks st)(h := None),
                             request_order := (request_order st)(h := None), stalling_since := 0\<rparr>\<rparr>)"

definition remove_block_request :: "bytes \<Rightarrow> real \<Rightarrow> int option \<Rightarrow> 'p peer_queue list \<Rightarrow> 'p peer_queue list" where
  "remove_block_request h now from_peer conns =
     map (\<lambda>conn. if (from_peer \<noteq> None \<and> from_peer \<noteq> Some (pq_id conn)) \<or> h \<notin> set (download_queue conn)
                 then conn else drop_request h now conn) conns"

definition order_of :: "bytes \<Rightarrow> 'p peer_queue \<Rightarrow> int" where
  "order_of h conn = (case request_order (pq_state conn) h of None \<Rightarrow> 0 | Some n \<Rightarrow> n)"

definition in_flight_from :: "bytes \<Rightarrow> 'p peer_queue list \<Rightarrow> 'p peer_queue list" where
  "in_flight_from h conns = sort_key (order_of h) (filter (\<lambda>conn. h \<in> set (download_queue conn)) conns)"

definition note_request :: "'p peer_queue \<Rightarrow> bytes \<Rightarrow> (bytes \<rightharpoonup> 'p peer_queue) \<Rightarrow> (bytes \<rightharpoonup> 'p peer_queue)" where
  "note_request conn h first =
     (case first h of
        None \<Rightarrow> first(h \<mapsto> conn)
      | Some held \<Rightarrow> if order_of h conn < order_of h held then first(h \<mapsto> conn) else first)"

definition first_in_flight :: "'p peer_queue list \<Rightarrow> (bytes \<rightharpoonup> int)" where
  "first_in_flight conns =
     (let first = fold (\<lambda>conn. fold (note_request conn) (download_queue conn)) conns Map.empty
      in (\<lambda>h. map_option pq_id (first h)))"

section \<open>What a peer announced, proved\<close>

definition avail_ok :: "block_index \<Rightarrow> 'p block_availability \<Rightarrow> bool" where
  "avail_ok s st \<longleftrightarrow> (\<forall>h. best_known st = Some h \<or> last_common st = Some h \<or> best_header_sent st = Some h \<longrightarrow> known s h)"

definition at_least :: "block_index \<Rightarrow> 'p block_availability \<Rightarrow> bytes \<Rightarrow> bool" where
  \<comment> \<open>\<open>best_known\<close> is set, and has no less work than \<open>h\<close>\<close>
  "at_least s st h \<longleftrightarrow> (\<exists>b. best_known st = Some b \<and> cw s h \<le> cw s b)"

lemma take_best_spec:
  assumes "work_ok L s" "avail_ok s st" "known s h"
  shows "\<exists>st'. take_best s h st = Some st' \<and> avail_ok s st' \<and> at_least s st' h
    \<and> (\<forall>b. at_least s st b \<longrightarrow> at_least s st' b) \<and> best_known st' \<in> {best_known st, Some h}
    \<and> st' = st\<lparr>best_known := best_known st'\<rparr>"
proof (cases "best_known st")
  case None
  then show ?thesis using assms by (auto simp: take_best_def avail_ok_def at_least_def)
next
  case (Some b)
  with assms have "known s b" by (simp add: avail_ok_def)
  then show ?thesis
    using assms Some chainwork_cw [OF assms(1)] by (auto simp: take_best_def avail_ok_def at_least_def)
qed

lemma process_spec:
  assumes "work_ok L s" "avail_ok s st"
  shows "\<exists>st'. process_block_availability s st = Some st' \<and> avail_ok s st'
    \<and> (\<forall>b. at_least s st b \<longrightarrow> at_least s st' b)
    \<and> (\<forall>h. last_unknown st = Some h \<and> known s h \<longrightarrow> at_least s st' h)
    \<and> last_unknown st' = (case last_unknown st of None \<Rightarrow> None | Some h \<Rightarrow> if known s h then None else Some h)
    \<and> last_common st' = last_common st \<and> best_known st' \<in> {best_known st, last_unknown st}"
proof (cases "last_unknown st")
  case None
  then show ?thesis using assms by (simp add: process_block_availability_def)
next
  case (Some h)
  show ?thesis
  proof (cases "known s h")
    case False
    then show ?thesis using assms Some by (auto simp: process_block_availability_def known_def)
  next
    case True
    from take_best_spec [OF assms True] obtain st' where
      st': "take_best s h st = Some st'" "avail_ok s st'" "at_least s st' h"
      "\<And>b. at_least s st b \<Longrightarrow> at_least s st' b" "best_known st' \<in> {best_known st, Some h}"
      "st' = st\<lparr>best_known := best_known st'\<rparr>" by blast
    have "last_common st' = last_common st" using st'(6) by (metis block_availability.select_convs(3) block_availability.surjective block_availability.update_convs(1))
    then show ?thesis
      using st'(1-5) Some True
      by (auto simp: process_block_availability_def known_def avail_ok_def at_least_def)
  qed
qed

end
