(* ===== verification/Block_Download.thy ===== *)
theory Block_Download
  imports Block_Availability
begin

text \<open>
  The walk of \<open>find_next_blocks_to_download\<close>, proved: the generator that reads a peer's chain in
  chunks, or off the best header chain, is the plain walk up that chain, and the blocks chosen,
  the last block in common and the peer waited for are what a filter of that walk says.
\<close>

section \<open>The generator is the plain walk\<close>

lemma chunk_down_anc:
  assumes "tree_ok s" "known s h" "int n \<le> header_height s h"
  shows "chunk_down s n h = Some (rev (map (anc s h) [header_height s h - int n..header_height s h]))"
  using assms(2,3)
proof (induction n arbitrary: h)
  case 0
  then show ?case using tree.anc_self [of s h] by simp
next
  case (Suc n)
  from Suc.prems(2) have nz: "header_height s h \<noteq> 0" by simp
  let ?p = "blk_parent s h" and ?h = "header_height s h"
  have p: "known s ?p" "header_height s ?p = ?h - 1"
    using assms(1) Suc.prems(1) nz by (simp_all add: tree.known_parent tree.height_parent)
  obtain bi where bi: "map_of (header_dict s) h = Some bi" "hdr_prev (bi_header bi) = ?p"
    using knownE [OF assms(1) Suc.prems(1)] by metis
  have "chunk_down s n ?p = Some (rev (map (anc s ?p) [?h - 1 - int n..?h - 1]))"
    using Suc.IH [OF p(1)] p(2) Suc.prems(2) by simp
  moreover have "map (anc s ?p) [?h - 1 - int n..?h - 1] = map (anc s h) [?h - 1 - int n..?h - 1]"
    using tree.anc_parent [of s h] assms(1) Suc.prems by (intro map_cong refl) auto
  moreover have "[?h - 1 - int n..?h] = [?h - 1 - int n..?h - 1] @ [?h]" by (rule upto_rec2) simp
  ultimately show ?case using bi tree.anc_self [of s h] by (simp add: algebra_simps)
qed

lemma visit_all_append:
  "visit_all s q bh we (xs @ ys) w =
     (case visit_all s q bh we xs w of
        None \<Rightarrow> None | Some (Inl e) \<Rightarrow> Some (Inl e) | Some (Inr w) \<Rightarrow> visit_all s q bh we ys w)"
  by (induction xs arbitrary: w) (auto split: option.splits sum.splits)

lemma walk_chunks_plain:
  assumes "tree_ok s" "skip_ok s" "known s best" "0 \<le> height" "stop \<le> header_height s best"
  shows "walk_chunks s q bh we best height stop w = visit_all s q bh we (map (anc s best) [height + 1..stop]) w"
  using assms(4)
proof (induction "nat (stop - height)" arbitrary: height w rule: less_induct)
  case less
  show ?case
  proof (cases "height < stop")
    case False
    then show ?thesis by (simp add: walk_chunks.simps)
  next
    case True
    obtain size where sz: "size = min (stop - height) (max (rq_count q - int (length (w_blocks w))) fetch_chunk)" by simp
    let ?top = "anc s best (height + size)"
    have size: "1 \<le> size" "size \<le> stop - height" "int (nat size - 1) = size - 1"
      using True by (simp_all add: sz fetch_chunk_def)
    have top: "known s ?top" "header_height s ?top = height + size"
      using tree.anc_known_height [OF assms(1,3), of "height + size"] size less.prems assms(5) by auto
    have "chunk_down s (nat size - 1) ?top = Some (rev (map (anc s ?top) [height + 1..height + size]))"
      using chunk_down_anc [OF assms(1) top(1), of "nat size - 1"] less.prems unfolding top(2) size(3) by simp
    moreover have "map (anc s ?top) [height + 1..height + size] = map (anc s best) [height + 1..height + size]"
      using tree.anc_anc [OF assms(1,3)] size less.prems assms(5) by (intro map_cong refl) auto
    ultimately have chunk: "chunk_down s (nat size - 1) ?top = Some (rev (map (anc s best) [height + 1..height + size]))"
      by simp
    have anc: "get_ancestor s best (height + size) = Some (Some ?top)"
      using get_ancestor_anc [OF assms(1-3)] size less.prems assms(5) by simp
    have split: "[height + 1..stop] = [height + 1..height + size] @ [height + size + 1..stop]"
      using size by (intro upto_split2) auto
    have IH: "walk_chunks s q bh we best (height + size) stop v
        = visit_all s q bh we (map (anc s best) [height + size + 1..stop]) v" for v
      using less.hyps [of "height + size" v] size less.prems True by simp
    have "walk_chunks s q bh we best height stop w =
        (case visit_all s q bh we (map (anc s best) [height + 1..height + size]) w of
           None \<Rightarrow> None
         | Some (Inl e) \<Rightarrow> Some (Inl e)
         | Some (Inr v) \<Rightarrow> walk_chunks s q bh we best (height + size) stop v)"
      using True anc chunk unfolding walk_chunks.simps [of s q bh we best height] Let_def sz [symmetric]
      by (simp split: option.split sum.split)
    then show ?thesis unfolding split map_append visit_all_append IH .
  qed
qed

lemma header_index_slice:
  assumes "tree_ok s" "header_index_ok s" "header_index_pos s best \<noteq> None" "known s best"
    and "0 \<le> start" "stop \<le> header_height s best"
  shows "py_slice (header_index s) (start + 1) (stop + 1) = map (anc s best) [start + 1..stop]"
proof -
  obtain i where i: "header_index_pos s best = Some i" using assms(3) by auto
  have ch: "is_chain s (header_index s)" and pos: "0 \<le> i" "i < int (length (header_index s))" "header_index s ! nat i = best"
    using assms(2) i by (auto simp: header_index_ok_def)
  have hi: "header_height s best = i"
    using ch pos by (auto simp: chain_of_def)
  have nth: "header_index s ! nat k = anc s best k" if "0 \<le> k" "k \<le> i" for k
    using on_header_index_anc [OF assms(1,2) _ assms(4), of k] i hi that pos py_nth_nonneg [of k "header_index s"] by simp
  show ?thesis
  proof (rule nth_equalityI)
    show len: "length (py_slice (header_index s) (start + 1) (stop + 1)) = length (map (anc s best) [start + 1..stop])"
      using assms(5,6) hi pos by (simp add: py_slice_def nat_diff_distrib min_absorb2)
    fix j assume j: "j < length (py_slice (header_index s) (start + 1) (stop + 1))"
    then have j': "start + 1 + int j \<le> stop" using len by simp
    have "py_slice (header_index s) (start + 1) (stop + 1) ! j = header_index s ! (nat (start + 1) + j)"
    proof -
      have "nat (start + 1) \<le> length (take (nat (stop + 1)) (header_index s))" using j by (simp add: py_slice_def min_def split: if_splits)
      then show ?thesis using j by (simp add: py_slice_def)
    qed
    also have "nat (start + 1) + j = nat (start + 1 + int j)" using assms(5) by simp
    also have "header_index s ! nat (start + 1 + int j) = anc s best (start + 1 + int j)"
      using nth [of "start + 1 + int j"] assms(5,6) hi j' by simp
    finally show "py_slice (header_index s) (start + 1) (stop + 1) ! j = map (anc s best) [start + 1..stop] ! j"
      using j len by simp
  qed
qed

lemma walk_successors_plain:
  assumes "tree_ok s" "skip_ok s" "header_index_ok s" "known s best" "0 \<le> start" "stop \<le> header_height s best"
  shows "walk_successors s q bh we best start stop w = visit_all s q bh we (map (anc s best) [start + 1..stop]) w"
  using header_index_slice [OF assms(1,3) _ assms(4-6)] walk_chunks_plain [OF assms(1,2,4-6)]
  by (simp add: walk_successors_def)

section \<open>What the walk chooses\<close>

definition held :: "block_index \<Rightarrow> bytes \<Rightarrow> bool" where
  "held s h \<longleftrightarrow> map_option bi_downloaded (map_of (header_dict s) h) = Some True"

definition ends_walk :: "block_index \<Rightarrow> block_request \<Rightarrow> bytes \<Rightarrow> bool" where
  "ends_walk s q h \<longleftrightarrow> invalid s h \<or> (\<not> can_serve_witnesses q \<and> header_height s h \<ge> segwit_height q)"

definition too_deep :: "block_index \<Rightarrow> block_request \<Rightarrow> int \<Rightarrow> bytes \<Rightarrow> bool" where
  "too_deep s q best_height h \<longleftrightarrow> limited q \<and> best_height - header_height s h \<ge> min_blocks_to_keep - 2"

definition wanted :: "block_index \<Rightarrow> block_request \<Rightarrow> int \<Rightarrow> bytes \<Rightarrow> bool" where
  "wanted s q best_height h \<longleftrightarrow> \<not> held s h \<and> in_flight q h = None \<and> \<not> too_deep s q best_height h"

definition first_waited :: "block_index \<Rightarrow> block_request \<Rightarrow> bytes list \<Rightarrow> int option" where
  \<comment> \<open>who the first block in flight is asked of\<close>
  "first_waited s q ps =
     (case filter (\<lambda>h. \<not> held s h \<and> in_flight q h \<noteq> None) ps of [] \<Rightarrow> None | h # _ \<Rightarrow> in_flight q h)"

definition common_through :: "block_index \<Rightarrow> bytes \<Rightarrow> bytes list \<Rightarrow> bytes" where
  \<comment> \<open>the last of the blocks held without a gap, from \<open>lc\<close> on\<close>
  "common_through s lc ps = last (lc # takeWhile (held s) ps)"

definition walked :: "block_index \<Rightarrow> block_request \<Rightarrow> int \<Rightarrow> int \<Rightarrow> bytes \<Rightarrow> bytes list \<Rightarrow> walk_state \<Rightarrow> bool" where
  \<comment> \<open>the state of the walk from \<open>lc\<close> after the blocks \<open>ps\<close>\<close>
  "walked s q bh we lc ps w \<longleftrightarrow>
     w_blocks w = filter (wanted s q bh) ps
     \<and> w_common w = common_through s lc ps
     \<and> waiting_for w = first_waited s q ps
     \<and> (\<forall>h\<in>set ps. \<not> ends_walk s q h)
     \<and> (\<forall>h\<in>set (filter (wanted s q bh) ps). header_height s h \<le> we)"

definition past_window :: "block_index \<Rightarrow> block_request \<Rightarrow> int \<Rightarrow> bytes \<Rightarrow> bool" where
  "past_window s q we h \<longleftrightarrow> \<not> held s h \<and> in_flight q h = None \<and> we < header_height s h"

lemma takeWhile_all: "\<forall>x\<in>set xs. P x \<Longrightarrow> takeWhile P (xs @ ys) = xs @ takeWhile P ys"
  by (induction xs) auto

lemma takeWhile_stop: "\<exists>x\<in>set xs. \<not> P x \<Longrightarrow> takeWhile P (xs @ ys) = takeWhile P xs"
  by (induction xs) auto

lemma visit_block_cases:
  assumes "known s h" "tree_ok s"
  obtains (ends) "ends_walk s q h" "visit_block s q bh we h w = Some (Inl (w, None))"
  | (held) "\<not> ends_walk s q h" "held s h"
      "visit_block s q bh we h w = Some (Inr (if all_held w then w\<lparr>w_common := h\<rparr> else w))"
  | (flying) p where "\<not> ends_walk s q h" "\<not> held s h" "in_flight q h = Some p"
      "visit_block s q bh we h w = Some (Inr (if waiting_for w = None then w\<lparr>all_held := False, waiting_for := Some p\<rparr>
         else w\<lparr>all_held := False\<rparr>))"
  | (window) "\<not> ends_walk s q h" "past_window s q we h"
      "visit_block s q bh we h w = Some (Inl (w\<lparr>all_held := False\<rparr>,
         if w_blocks w = [] \<and> waiting_for w \<noteq> Some (peer_id q) then waiting_for w else None))"
  | (deep) "\<not> ends_walk s q h" "\<not> held s h" "in_flight q h = None" "header_height s h \<le> we" "too_deep s q bh h"
      "visit_block s q bh we h w = Some (Inr (w\<lparr>all_held := False\<rparr>))"
  | (ask) "\<not> ends_walk s q h" "wanted s q bh h" "header_height s h \<le> we"
      "visit_block s q bh we h w = Some (let w' = w\<lparr>all_held := False, w_blocks := w_blocks w @ [h]\<rparr>
         in if int (length (w_blocks w')) = rq_count q then Inl (w', None) else Inr w')"
proof -
  obtain bi where bi: "map_of (header_dict s) h = Some bi" "header_height s h = bi_index bi"
    using knownE [OF assms(2,1)] by metis
  note defs = held_def ends_walk_def invalid_def wanted_def too_deep_def past_window_def visit_block_def bi Let_def
  show thesis
  proof (cases "ends_walk s q h \<or> held s h")
    case True
    then show ?thesis using ends held by (cases "ends_walk s q h") (auto simp: defs)
  next
    case n: False
    show ?thesis
    proof (cases "in_flight q h")
      case (Some p)
      then show ?thesis using flying [of p] n by (auto simp: defs split: if_splits)
    next
      case None
      then show ?thesis
        using window deep ask n by (cases "we < header_height s h"; cases "too_deep s q bh h") (auto simp: defs)
    qed
  qed
qed

lemma first_waited_snoc:
  "first_waited s q (ps @ [h]) =
     (if first_waited s q ps = None \<and> \<not> held s h then in_flight q h else first_waited s q ps)"
  by (auto simp: first_waited_def filter_eq_Cons_iff split: list.splits)

lemma common_snoc:
  "common_through s lc (ps @ [h]) = (if (\<forall>h\<in>set ps. held s h) \<and> held s h then h else common_through s lc ps)"
  unfolding common_through_def
  by (cases "\<forall>h\<in>set ps. held s h") (auto simp: takeWhile_all takeWhile_stop takeWhile_eq_all_conv [THEN iffD2])

text \<open>Where the walk ends: after the blocks \<open>ps\<close>, with \<open>rest\<close> not looked at or ending it.\<close>

definition stops_at :: "block_index \<Rightarrow> block_request \<Rightarrow> int \<Rightarrow> bytes list \<Rightarrow> bytes list \<Rightarrow> bytes list \<Rightarrow> int option \<Rightarrow> bool" where
  "stops_at s q we ps rest blocks staller \<longleftrightarrow>
     (staller = None \<and> (rest = [] \<or> int (length (blocks)) = rq_count q \<or> ends_walk s q (hd rest)))
     \<or> (rest \<noteq> [] \<and> past_window s q we (hd rest)
        \<and> staller = (if blocks = [] \<and> first_waited s q ps \<noteq> Some (peer_id q) then first_waited s q ps else None))"

lemma visit_all_spec:
  assumes "tree_ok s" "\<forall>h\<in>set xs. known s h"
    and "walked s q bh we lc ps w" "all_held w \<longleftrightarrow> (\<forall>h\<in>set ps. held s h)"
    and "0 < rq_count q \<longrightarrow> int (length (w_blocks w)) < rq_count q"
  shows "\<exists>r qs rest w' staller. visit_all s q bh we xs w = Some r
    \<and> (case r of Inl e \<Rightarrow> e | Inr w \<Rightarrow> (w, None)) = (w', staller)
    \<and> xs = qs @ rest \<and> walked s q bh we lc (ps @ qs) w' \<and> stops_at s q we (ps @ qs) rest (w_blocks w') staller
    \<and> (0 < rq_count q \<longrightarrow> int (length (w_blocks w')) \<le> rq_count q)"
  using assms(2-)
proof (induction xs arbitrary: ps w)
  case Nil
  then show ?case
    by (intro exI [of _ "Inr w"] exI [of _ "[]"] exI [of _ w] exI [of _ None]) (auto simp: stops_at_def)
next
  case (Cons h hs)
  have k: "known s h" using Cons.prems(1) by simp
  have go: ?case
    if v: "visit_block s q bh we h w = Some (Inr v)" and wv: "walked s q bh we lc (ps @ [h]) v"
      "all_held v \<longleftrightarrow> (\<forall>h\<in>set (ps @ [h]). held s h)"
      "0 < rq_count q \<longrightarrow> int (length (w_blocks v)) < rq_count q" for v
  proof -
    obtain r qs rest w' st where r: "visit_all s q bh we hs v = Some r"
      "(case r of Inl e \<Rightarrow> e | Inr w \<Rightarrow> (w, None)) = (w', st)" "hs = qs @ rest"
      "walked s q bh we lc ((ps @ [h]) @ qs) w'" "stops_at s q we ((ps @ [h]) @ qs) rest (w_blocks w') st"
      "0 < rq_count q \<longrightarrow> int (length (w_blocks w')) \<le> rq_count q"
      using Cons.IH [OF _ wv] Cons.prems(1) by auto
    then show ?thesis using v
      by (intro exI [of _ r] exI [of _ "h # qs"] exI [of _ rest] exI [of _ w'] exI [of _ st]) simp
  qed
  have stop: ?case
    if v: "visit_block s q bh we h w = Some (Inl (v, st))" and qs: "(qs, rest) = ([], h # hs) \<or> (qs, rest) = ([h], hs)"
      and wv: "walked s q bh we lc (ps @ qs) v" "stops_at s q we (ps @ qs) rest (w_blocks v) st"
      "0 < rq_count q \<longrightarrow> int (length (w_blocks v)) \<le> rq_count q" for v st qs rest
    using v qs wv
    by (intro exI [of _ "Inl (v, st)"] exI [of _ qs] exI [of _ rest] exI [of _ v] exI [of _ st]) auto
  note [simp] = common_snoc first_waited_snoc
  show ?case
  proof (cases rule: visit_block_cases [OF k assms(1), of q bh we w, case_names ends held flying window deep ask])
    case ends
    show ?thesis
      by (rule stop [OF ends(2), of "[]" "h # hs"]) (use ends Cons.prems(2,4) in \<open>auto simp: stops_at_def\<close>)
  next
    case held
    show ?thesis
      by (rule go [OF held(3)]) (use held Cons.prems(2-4) in \<open>auto simp: walked_def wanted_def\<close>)
  next
    case (flying p)
    show ?thesis
      by (rule go [OF flying(4)]) (use flying Cons.prems(2-4) in \<open>auto simp: walked_def wanted_def\<close>)
  next
    case window
    show ?thesis
      by (rule stop [OF window(3), of "[]" "h # hs"])
        (use window Cons.prems(2,4) in \<open>auto simp: stops_at_def walked_def\<close>)
  next
    case deep
    show ?thesis
      by (rule go [OF deep(6)]) (use deep Cons.prems(2-4) in \<open>auto simp: walked_def wanted_def\<close>)
  next
    case ask
    let ?w = "w\<lparr>all_held := False, w_blocks := w_blocks w @ [h]\<rparr>"
    have nh: "\<not> held s h" "in_flight q h = None" using ask(2) by (simp_all add: wanted_def)
    have wv: "walked s q bh we lc (ps @ [h]) ?w" using ask nh Cons.prems(2) by (auto simp: walked_def)
    show ?thesis
    proof (cases "int (length (w_blocks ?w)) = rq_count q")
      case True
      then have "visit_block s q bh we h w = Some (Inl (?w, None))" using ask(4) by (simp add: Let_def)
      then show ?thesis by (rule stop [of _ _ "[h]" hs]) (use True wv in \<open>auto simp: stops_at_def\<close>)
    next
      case False
      then have "visit_block s q bh we h w = Some (Inr ?w)" using ask(4) by (simp add: Let_def)
      then show ?thesis by (rule go) (use False wv nh Cons.prems(4) in auto)
    qed
  qed
qed

section \<open>Where the walk starts\<close>

definition fresh_common :: "block_index \<Rightarrow> bytes \<Rightarrow> bytes \<Rightarrow> bytes option \<Rightarrow> bytes \<Rightarrow> bool" where
  \<comment> \<open>the last block in common, reset where it fell behind the fork point or off the peer's chain\<close>
  "fresh_common s b tip old lc \<longleftrightarrow>
     (\<exists>c. fork_point s b tip c \<and>
        lc = (case old of None \<Rightarrow> c | Some l \<Rightarrow> if cw s l < cw s c \<or> \<not> ancestor_of s l b then c else l))"

lemma fresh_common_on_chain: "fresh_common s b tip old lc \<Longrightarrow> \<forall>l. old = Some l \<longrightarrow> known s l \<Longrightarrow> known s lc \<and> ancestor_of s lc b"
  by (auto simp: fresh_common_def fork_point_def split: option.splits if_splits)

lemma reset_common_fresh:
  assumes "tree_ok s" "skip_ok s" "work_ok L s" "known s b" "fork_point s b tip c" "\<forall>l. old = Some l \<longrightarrow> known s l"
  shows "\<exists>lc. reset_common s b c old = Some lc \<and> fresh_common s b tip old lc"
proof (cases old)
  case None
  then show ?thesis using assms(5) by (auto simp: reset_common_def fresh_common_def)
next
  case (Some l)
  have k: "known s l" "known s c" using assms(5,6) Some by (auto simp: fork_point_def)
  obtain bi where bi: "map_of (header_dict s) l = Some bi" "header_height s l = bi_index bi"
    using knownE [OF assms(1) k(1)] by metis
  have "0 \<le> header_height s l" using tree.height_nonneg assms(1) k(1) by blast
  then have "get_ancestor s b (bi_index bi) = Some (if bi_index bi \<le> header_height s b then Some (anc s b (bi_index bi)) else None)"
    using get_ancestor_anc [OF assms(1,2,4), of "bi_index bi"] bi by simp
  then have "reset_common s b c old = Some (if cw s l < cw s c then c else if ancestor_of s l b then l else c)"
    using bi k chainwork_cw [OF assms(3)] by (simp add: reset_common_def Some is_anc_def)
  then show ?thesis using assms(5) by (auto simp: fresh_common_def Some)
qed

lemma walk_start_spec:
  assumes "index_ok L s" "avail_ok s st"
  shows "\<exists>r st'. walk_start s m st = Some (r, st') \<and> avail_ok s st'
    \<and> (case best_known st' of
         None \<Rightarrow> r = None \<and> last_common st' = last_common st
       | Some b \<Rightarrow> if cw s b < cw s (last (active_chain s)) \<or> cw s b < m then r = None \<and> last_common st' = last_common st
           else \<exists>lc. fresh_common s b (last (active_chain s)) (last_common st) lc
              \<and> last_common st' = Some lc \<and> r = (if lc = b then None else Some b))"
proof -
  have base: "tree_ok s" "skip_ok s" "work_ok L s" "is_chain s (active_chain s)"
    using assms(1) by (auto simp: index_ok_def base_ok_def active_ok_def)
  obtain s1 where s1: "process_block_availability s st = Some s1" "avail_ok s s1" "last_common s1 = last_common st"
    using process_spec [OF base(3) assms(2)] by blast
  let ?tip = "last (active_chain s)"
  have tip: "py_last (active_chain s) = Some ?tip" "known s ?tip"
    using base(4) tree.chain_of_last(1) by (auto simp: py_last_Some_iff chain_of_def)
  show ?thesis
  proof (cases "best_known s1")
    case None
    then show ?thesis using s1 by (simp add: walk_start_def)
  next
    case (Some b)
    have b: "known s b" using s1(2) Some by (simp add: avail_ok_def)
    show ?thesis
    proof (cases "cw s b < cw s ?tip \<or> cw s b < m")
      case True
      then show ?thesis using s1 Some tip b chainwork_cw [OF base(3)] by (simp add: walk_start_def)
    next
      case False
      obtain c where c: "last_common_ancestor s b ?tip = Some c" "fork_point s b ?tip c"
        using last_common_ancestor_fork_point [OF base(1,2) b tip(2)] by blast
      have old: "\<forall>l. last_common st = Some l \<longrightarrow> known s l" using assms(2) by (simp add: avail_ok_def)
      obtain lc where lc: "reset_common s b c (last_common st) = Some lc" "fresh_common s b ?tip (last_common st) lc"
        using reset_common_fresh [OF base(1-3) b c(2) old] by blast
      have "known s lc" using fresh_common_on_chain [OF lc(2) old] by blast
      then have "avail_ok s (s1\<lparr>last_common := Some lc\<rparr>)" using s1(2) by (auto simp: avail_ok_def)
      moreover have "walk_start s m st = Some (if lc = b then None else Some b, s1\<lparr>last_common := Some lc\<rparr>)"
        using s1 Some tip b False chainwork_cw [OF base(3)] c(1) lc(1) by (simp add: walk_start_def Let_def)
      ultimately show ?thesis using lc(2) Some False by auto
    qed
  qed
qed

lemma common_through_cases: "common_through s lc qs = lc \<or> common_through s lc qs \<in> set qs"
  unfolding common_through_def using set_takeWhileD [of _ "held s" qs]
  by (cases "takeWhile (held s) qs = []") (auto dest: last_in_set)

section \<open>The first peer a block is asked of\<close>

definition earlier :: "bytes \<Rightarrow> 'p peer_queue \<Rightarrow> 'p peer_queue option \<Rightarrow> 'p peer_queue option" where
  "earlier h c b = (case b of None \<Rightarrow> Some c | Some a \<Rightarrow> if order_of h c < order_of h a then Some c else Some a)"

lemma note_request_at: "note_request c k m h = (if k = h then earlier h c (m h) else m h)"
  by (auto simp: note_request_def earlier_def split: option.splits)

lemma earlier_twice: "earlier h c (earlier h c b) = earlier h c b"
  by (auto simp: earlier_def split: option.splits)

lemma note_requests_at:
  "fold (note_request c) hs m h = (if h \<in> set hs then earlier h c (m h) else m h)"
  by (induction hs arbitrary: m) (auto simp: note_request_at earlier_twice)

lemma first_requests_at:
  "fold (\<lambda>c. fold (note_request c) (download_queue c)) cs m h
     = fold (earlier h) (filter (\<lambda>c. h \<in> set (download_queue c)) cs) (m h)"
  by (induction cs arbitrary: m) (auto simp: note_requests_at)

definition first_of :: "'a list \<Rightarrow> 'a option" where
  "first_of xs = (case xs of [] \<Rightarrow> None | x # _ \<Rightarrow> Some x)"

lemma first_insort: "first_of (insort_key f x ys) = (case first_of ys of None \<Rightarrow> Some x | Some y \<Rightarrow> if f x \<le> f y then Some x else Some y)"
  by (cases ys) (auto simp: first_of_def)

lemma earliest_is_first:
  "fold (earlier h) cs (Some a) = Some (case first_of (sort_key (order_of h) cs) of None \<Rightarrow> a | Some y \<Rightarrow> if order_of h y < order_of h a then y else a)"
proof (induction cs arbitrary: a)
  case (Cons c cs)
  then show ?case by (auto simp: first_insort earlier_def split: option.splits)
qed (simp add: first_of_def)

lemma fold_earlier_first: "fold (earlier h) cs None = first_of (sort_key (order_of h) cs)"
proof (cases cs)
  case (Cons c cs')
  then show ?thesis
    using earliest_is_first [of h cs' c] by (auto simp: first_insort earlier_def split: option.splits)
qed (simp add: first_of_def)

end
