(* ===== verification/Availability_Properties.thy ===== *)
theory Availability_Properties
  imports Block_Download Index_Load
begin

text \<open>
  The properties of what a peer is known to have and is asked for, over the block index of
  Index_Load for the witnesses: genesis 0 with the branches 1, 2 and 3, 4, 5.
\<close>

definition demo_peer :: "unit block_availability" where
  "demo_peer = new_block_availability\<lparr>best_known := Some [2], last_unknown := Some [4]\<rparr>"

lemma demo_peer_ok: "avail_ok demo_forked demo_peer"
proof -
  have "known demo_forked [2]" by code_simp
  then show ?thesis by (simp add: avail_ok_def demo_peer_def new_block_availability_def)
qed

section \<open>What a peer has\<close>

text \<open>
  C19. \<open>update_block_availability\<close> returns, and what the peer is known to have never loses work:
  afterwards its best block has at least the work of the old one, of the block it announced before
  if that has been indexed since, and of the one it announces now if that is indexed; one not
  indexed is kept to be taken up later.  The best block is always one the peer announced.
\<close>

theorem availability_never_loses_work:
  assumes "index_ok L s" "avail_ok s st"
  shows "\<exists>st'. update_block_availability s h st = Some st' \<and> avail_ok s st'
    \<and> best_known st' \<in> {best_known st, last_unknown st, Some h}
    \<and> (\<forall>b. at_least s st b \<longrightarrow> at_least s st' b)
    \<and> (\<forall>k. last_unknown st = Some k \<and> known s k \<longrightarrow> at_least s st' k)
    \<and> (if known s h
       then at_least s st' h
         \<and> last_unknown st' = (case last_unknown st of None \<Rightarrow> None | Some k \<Rightarrow> if known s k then None else Some k)
       else last_unknown st' = Some h)"
proof -
  have work: "work_ok L s" using assms(1) by (simp add: index_ok_def base_ok_def)
  obtain s1 where s1: "process_block_availability s st = Some s1" "avail_ok s s1"
    "\<And>b. at_least s st b \<Longrightarrow> at_least s s1 b" "\<And>k. last_unknown st = Some k \<Longrightarrow> known s k \<Longrightarrow> at_least s s1 k"
    "last_unknown s1 = (case last_unknown st of None \<Rightarrow> None | Some k \<Rightarrow> if known s k then None else Some k)"
    "best_known s1 \<in> {best_known st, last_unknown st}"
    using process_spec [OF work assms(2)] by blast
  show ?thesis
  proof (cases "known s h")
    case False
    then show ?thesis using s1 by (auto simp: update_block_availability_def known_def avail_ok_def at_least_def)
  next
    case True
    obtain s2 where s2: "take_best s h s1 = Some s2" "avail_ok s s2" "at_least s s2 h"
      "\<And>b. at_least s s1 b \<Longrightarrow> at_least s s2 b" "best_known s2 \<in> {best_known s1, Some h}"
      "s2 = s1\<lparr>best_known := best_known s2\<rparr>" using take_best_spec [OF work s1(2) True] by blast
    have "last_unknown s2 = last_unknown s1" by (subst s2(6)) simp
    then show ?thesis
      using s1 s2(1-5) True by (auto simp: update_block_availability_def known_def)
  qed
qed

theorem availability_never_loses_work_witness:
  "\<exists>st'. update_block_availability demo_forked [9] demo_peer = Some st' \<and> at_least demo_forked st' [4]
     \<and> last_unknown st' = Some [9]"
proof -
  have "known demo_forked [4]" "\<not> known demo_forked [9]" by code_simp+
  moreover have "last_unknown demo_peer = Some [4]" by (simp add: demo_peer_def)
  ultimately show ?thesis
    using availability_never_loses_work [OF demo_forked_ok demo_peer_ok, of "[9]"] by auto
qed

section \<open>What is asked of it\<close>

text \<open>
  C20. The successors of a block the walk reads are the ancestors of the peer's best block in height
  order, read off the best header chain or in chunks through the skip pointers, however many
  blocks are still wanted when each chunk is read.
\<close>

theorem successors_are_ancestors:
  assumes "index_ok L s" "known s best" "0 \<le> start" "stop \<le> header_height s best"
  shows "walk_successors s q best_height window_end best start stop w
       = visit_all s q best_height window_end (map (anc s best) [start + 1..stop]) w"
  using assms walk_successors_plain by (simp add: index_ok_def base_ok_def)

theorem successors_are_ancestors_witness:
  "\<forall>q best_height window_end w. walk_successors demo_forked q best_height window_end [2] 0 2 w
     = visit_all demo_forked q best_height window_end (map (anc demo_forked [2]) [1..2]) w"
proof -
  have "known demo_forked [2]" "header_height demo_forked [2] = 2" by code_simp+
  then show ?thesis using successors_are_ancestors [OF demo_forked_ok, of "[2]" 0 2] by simp
qed

text \<open>
  C21. \<open>find_next_blocks_to_download\<close> returns.  Where the peer's best block is unset, or has less work
  than the tip or than the minimum, nothing is chosen.  Otherwise the walk goes up that block's
  chain from the last block in common, reset to the fork point where it fell behind or off that
  chain, through at most one window and one block.  It chooses, in height order, the blocks not
  held, not in flight and not too deep for a limited peer, none past the window and none at or past
  an invalid block or one the peer cannot serve; it stops short only at such a block, at the window
  or at the count.  The last block in common moves over the blocks held without a gap, and a
  staller is named only where the window ended the walk and nothing was chosen.
\<close>

theorem blocks_chosen_to_download:
  assumes "index_ok L s" "avail_ok s st" "0 < rq_count q"
  shows "\<exists>st' blocks staller. find_next_blocks_to_download s q minimum_chain_work st = Some (st', blocks, staller)
    \<and> avail_ok s st'
    \<and> (case best_known st' of
         None \<Rightarrow> blocks = [] \<and> staller = None \<and> last_common st' = last_common st
       | Some b \<Rightarrow>
          if cw s b < cw s (last (active_chain s)) \<or> cw s b < minimum_chain_work
          then blocks = [] \<and> staller = None \<and> last_common st' = last_common st
          else \<exists>lc qs rest. fresh_common s b (last (active_chain s)) (last_common st) lc
            \<and> (let window_end = header_height s lc + block_download_window in
                 map (anc s b) [header_height s lc + 1..min (header_height s b) (window_end + 1)] = qs @ rest
                 \<and> blocks = filter (wanted s q (header_height s b)) qs \<and> int (length blocks) \<le> rq_count q
                 \<and> (\<forall>h\<in>set blocks. header_height s h \<le> window_end) \<and> (\<forall>h\<in>set qs. \<not> ends_walk s q h)
                 \<and> last_common st' = Some (common_through s lc qs)
                 \<and> stops_at s q window_end qs rest blocks staller))"
proof -
  obtain r s1 where ws: "walk_start s minimum_chain_work st = Some (r, s1)" "avail_ok s s1"
    and start: "case best_known s1 of
         None \<Rightarrow> r = None \<and> last_common s1 = last_common st
       | Some b \<Rightarrow> if cw s b < cw s (last (active_chain s)) \<or> cw s b < minimum_chain_work
           then r = None \<and> last_common s1 = last_common st
           else \<exists>lc. fresh_common s b (last (active_chain s)) (last_common st) lc
              \<and> last_common s1 = Some lc \<and> r = (if lc = b then None else Some b)"
    using walk_start_spec [OF assms(1,2)] by blast
  have base: "tree_ok s" "skip_ok s" "header_index_ok s" using assms(1) by (auto simp: index_ok_def base_ok_def)
  show ?thesis
  proof (cases r)
    case None
    then have run: "find_next_blocks_to_download s q minimum_chain_work st = Some (s1, [], None)"
      using ws assms(3) by (simp add: find_next_blocks_to_download_def)
    show ?thesis
    proof (cases "best_known s1")
      case (Some b)
      show ?thesis
      proof (cases "cw s b < cw s (last (active_chain s)) \<or> cw s b < minimum_chain_work")
        case False
        then have b: "fresh_common s b (last (active_chain s)) (last_common st) b" "last_common s1 = Some b"
          using start Some None by (auto split: if_splits)
        have none: "map (anc s b) [header_height s b + 1..min (header_height s b) w] = [] @ []" for w by simp
        show ?thesis
          unfolding run Let_def
          by (rule exI [of _ s1], rule exI [of _ "[]"], rule exI [of _ None],
              unfold Some option.case if_not_P [OF False], intro conjI, rule refl, rule ws(2),
              rule exI [of _ b], rule exI [of _ "[]"], rule exI [of _ "[]"])
            (use b none assms(3) in \<open>auto simp: stops_at_def common_through_def\<close>)
      qed (use run ws(2) start Some None in auto)
    qed (use run ws(2) start None in auto)
  next
    case (Some b)
    then obtain lc where b: "best_known s1 = Some b" "\<not> (cw s b < cw s (last (active_chain s)) \<or> cw s b < minimum_chain_work)"
      "fresh_common s b (last (active_chain s)) (last_common st) lc" "last_common s1 = Some lc"
      using start by (auto split: option.splits if_splits)
    let ?hb = "header_height s b" and ?we = "header_height s lc + block_download_window"
    let ?xs = "map (anc s b) [header_height s lc + 1..min ?hb (?we + 1)]"
    let ?w = "\<lparr>w_common = lc, w_blocks = [], waiting_for = None, all_held = True\<rparr>"
    have k: "known s b" "known s lc" using ws(2) b by (auto simp: avail_ok_def)
    have ge: "0 \<le> header_height s lc" using tree.height_nonneg base(1) k(2) by blast
    have kx: "\<forall>h\<in>set ?xs. known s h"
      using tree.anc_known_height [OF base(1) k(1)] ge by auto
    obtain e qs rest w staller where v: "visit_all s q ?hb ?we ?xs ?w = Some e"
      "(case e of Inl e \<Rightarrow> e | Inr w \<Rightarrow> (w, None)) = (w, staller)" "?xs = qs @ rest"
      "walked s q ?hb ?we lc qs w" "stops_at s q ?we qs rest (w_blocks w) staller" "int (length (w_blocks w)) \<le> rq_count q"
      using visit_all_spec [OF base(1) kx, of q ?hb ?we lc "[]" ?w] assms(3)
      by (auto simp: walked_def first_waited_def common_through_def)
    obtain lbi bbi where bi: "map_of (header_dict s) lc = Some lbi" "header_height s lc = bi_index lbi"
      "map_of (header_dict s) b = Some bbi" "header_height s b = bi_index bbi"
      using knownE [OF base(1)] k by metis
    have "walk_successors s q ?hb ?we b (header_height s lc) (min ?hb (?we + 1)) ?w = Some e"
      using walk_successors_plain [OF base k(1) ge, of "min ?hb (?we + 1)"] v(1) by simp
    then have run: "find_next_blocks_to_download s q minimum_chain_work st
        = Some (s1\<lparr>last_common := Some (w_common w)\<rparr>, w_blocks w, staller)"
      using ws(1) assms(3) Some b(4) bi v(2)
      by (simp add: find_next_blocks_to_download_def Let_def split: sum.splits)
    have "known s (w_common w)"
      using v(3,4) common_through_cases [of s lc qs] kx k(2) by (auto simp: walked_def)
    then have "avail_ok s (s1\<lparr>last_common := Some (w_common w)\<rparr>)" using ws(2) by (auto simp: avail_ok_def)
    with run b(1-3) v(3-6) show ?thesis
      by (intro exI [of _ "s1\<lparr>last_common := Some (w_common w)\<rparr>"] exI [of _ "w_blocks w"] exI [of _ staller])
        (auto simp: walked_def Let_def)
  qed
qed

definition demo_request :: block_request where
  "demo_request = \<lparr>rq_count = 16, segwit_height = 0, in_flight = [[3] \<mapsto> 7], peer_id = 1, limited = False,
     can_serve_witnesses = True\<rparr>"

theorem blocks_chosen_to_download_witness:
  "\<exists>st' staller. find_next_blocks_to_download demo_forked demo_request 0 demo_peer = Some (st', [[4]], staller)
     \<and> avail_ok demo_forked st'"
proof -
  have "map_option (\<lambda>(st', blocks, staller). blocks) (find_next_blocks_to_download demo_forked demo_request 0 demo_peer) = Some [[4]]"
    by code_simp
  moreover have "0 < rq_count demo_request" by (simp add: demo_request_def)
  ultimately show ?thesis using blocks_chosen_to_download [OF demo_forked_ok demo_peer_ok, of demo_request 0] by auto
qed

section \<open>Who it is asked of first\<close>

text \<open>
  The table of blocks in flight agrees with the list of the peers each is asked of: for every
  block it names the first of them, the one that was asked first.
\<close>

lemma first_in_flight_is_first:
  "first_in_flight conns h = map_option pq_id (first_of (in_flight_from h conns))"
  by (simp add: first_in_flight_def first_requests_at in_flight_from_def fold_earlier_first)

end
