(* ===== verification/Nested_Dict.thy ===== *)
theory Nested_Dict
  imports Prelude
begin

text \<open>
  A dict of dicts, as the orphanage keeps its announcements by wtxid and by peer: an inner dict
  comes with its first entry (\<open>setdefault\<close>) and goes with its last.  What its clients rely on is
  the locale \<open>pair_index\<close>: an index by two keys that agrees with a relation still agrees after an
  entry is put or deleted.
\<close>

section \<open>An index by two keys\<close>

locale pair_index =
  fixes ok :: "'d \<Rightarrow> bool"
    and get :: "'d \<Rightarrow> 'a \<Rightarrow> 'b \<Rightarrow> 'c option"
    and put :: "'a \<Rightarrow> 'b \<Rightarrow> 'c \<Rightarrow> 'd \<Rightarrow> 'd"
    and del :: "'a \<Rightarrow> 'b \<Rightarrow> 'd \<Rightarrow> 'd option"
  assumes ok_put: "ok d \<Longrightarrow> ok (put k j v d)"
    and get_put: "get (put k j v d) k' j' = (if k' = k \<and> j' = j then Some v else get d k' j')"
    and del_found: "ok d \<Longrightarrow> get d k j \<noteq> None \<Longrightarrow> \<exists>d'. del k j d = Some d' \<and> ok d'
      \<and> (\<forall>k' j'. get d' k' j' = (if k' = k \<and> j' = j then None else get d k' j'))"
begin

lemma put_agrees:
  assumes "ok d" "\<And>k j v. get d k j = Some v \<longleftrightarrow> R k j v"
    and "\<And>k' j' v'. R' k' j' v' \<longleftrightarrow> (if k' = k \<and> j' = j then v' = v else R k' j' v')"
  shows "ok (put k j v d)" "get (put k j v d) k' j' = Some v' \<longleftrightarrow> R' k' j' v'"
  using assms by (auto simp: ok_put get_put)

lemma del_agrees:
  assumes "ok d" "\<And>k j v. get d k j = Some v \<longleftrightarrow> R k j v" "R k j v"
    and "\<And>k' j' v'. R' k' j' v' \<longleftrightarrow> R k' j' v' \<and> \<not> (k' = k \<and> j' = j)"
  shows "\<exists>d'. del k j d = Some d' \<and> ok d' \<and> (\<forall>k' j' v'. get d' k' j' = Some v' \<longleftrightarrow> R' k' j' v')"
proof -
  have "get d k j \<noteq> None" using assms(2) [of k j v] assms(3) by simp
  from del_found [OF assms(1) this] obtain d' where
    "del k j d = Some d'" "ok d'" "\<forall>k' j'. get d' k' j' = (if k' = k \<and> j' = j then None else get d k' j')" by blast
  then show ?thesis using assms(2,4) by (intro exI [of _ d']) auto
qed

end

section \<open>The dict of dicts\<close>

type_synonym ('a, 'b, 'c) nested = "('a, ('b, 'c) dict) dict"

definition inner :: "('a, 'b, 'c) nested \<Rightarrow> 'a \<Rightarrow> ('b, 'c) dict" where
  \<comment> \<open>\<open>d.get(k, {})\<close>\<close>
  "inner d k = (case map_of d k of None \<Rightarrow> [] | Some m \<Rightarrow> m)"

definition get2 :: "('a, 'b, 'c) nested \<Rightarrow> 'a \<Rightarrow> 'b \<Rightarrow> 'c option" where
  "get2 d k j = map_of (inner d k) j"

definition put2 :: "'a \<Rightarrow> 'b \<Rightarrow> 'c \<Rightarrow> ('a, 'b, 'c) nested \<Rightarrow> ('a, 'b, 'c) nested" where
  \<comment> \<open>\<open>d.setdefault(k, {})[j] = v\<close>\<close>
  "put2 k j v d = AList.update k (AList.update j v (inner d k)) d"

definition del2 :: "'a \<Rightarrow> 'b \<Rightarrow> ('a, 'b, 'c) nested \<Rightarrow> ('a, 'b, 'c) nested option" where
  \<comment> \<open>\<open>del d[k][j]\<close>, and \<open>del d[k]\<close> where that leaves it empty\<close>
  "del2 k j d =
     do {
       m \<leftarrow> map_of d k;
       _ \<leftarrow> map_of m j;
       let m' = AList.delete j m in
       Some (if m' = [] then AList.delete k d else AList.update k m' d)
     }"

definition nested_ok :: "('a, 'b, 'c) nested \<Rightarrow> bool" where
  "nested_ok d \<longleftrightarrow> distinct (map fst d)
     \<and> (\<forall>k m. map_of d k = Some m \<longrightarrow> m \<noteq> [] \<and> distinct (map fst m))"

lemma nested_ok_Nil [simp]: "nested_ok []"
  by (simp add: nested_ok_def)

lemma get2_Nil [simp]: "get2 [] k j = None"
  by (simp add: get2_def inner_def)

lemma inner_put2: "inner (put2 k j v d) k' = (if k' = k then AList.update j v (inner d k) else inner d k')"
  by (simp add: inner_def put2_def)

lemma get2_put2: "get2 (put2 k j v d) k' j' = (if k' = k \<and> j' = j then Some v else get2 d k' j')"
  by (simp add: get2_def inner_put2)

lemma nested_inner_distinct: "nested_ok d \<Longrightarrow> distinct (map fst (inner d k))"
  by (auto simp: nested_ok_def inner_def split: option.splits)

lemma update_not_Nil: "AList.update k v xs \<noteq> []"
  by (cases xs) auto

lemma nested_ok_put2: "nested_ok d \<Longrightarrow> nested_ok (put2 k j v d)"
  using nested_inner_distinct [of d k]
  by (auto simp: nested_ok_def put2_def distinct_update update_not_Nil split: if_splits)

lemma map_of_nested: "nested_ok d \<Longrightarrow> map_of d k = (if inner d k = [] then None else Some (inner d k))"
  by (auto simp: nested_ok_def inner_def split: option.splits)

lemma inner_empty_iff: "inner d k = [] \<longleftrightarrow> (\<forall>j. get2 d k j = None)"
  by (cases "inner d k") (auto simp: get2_def)

lemma nested_key_iff: "nested_ok d \<Longrightarrow> map_of d k = None \<longleftrightarrow> (\<forall>j. get2 d k j = None)"
  using inner_empty_iff [of d k] by (simp add: map_of_nested)

lemma nested_keys: "nested_ok d \<Longrightarrow> fst ` set d = {k. \<exists>j. get2 d k j \<noteq> None}"
proof -
  assume "nested_ok d"
  then have "k \<in> fst ` set d \<longleftrightarrow> (\<exists>j. get2 d k j \<noteq> None)" for k
    using nested_key_iff [of d k] map_of_eq_None_iff [of d k] by (simp del: not_None_eq) metis
  then show ?thesis by blast
qed

lemma del2_spec:
  assumes "nested_ok d" "get2 d k j \<noteq> None"
  shows "\<exists>d'. del2 k j d = Some d' \<and> nested_ok d'
    \<and> (\<forall>k' j'. get2 d' k' j' = (if k' = k \<and> j' = j then None else get2 d k' j'))"
proof -
  obtain m where m: "map_of d k = Some m" "map_of m j \<noteq> None" "inner d k = m"
    using assms(2) by (auto simp: get2_def inner_def split: option.splits)
  have ok: "distinct (map fst d)" "distinct (map fst m)" using assms(1) m(1) by (auto simp: nested_ok_def)
  let ?m = "AList.delete j m"
  let ?d = "if ?m = [] then AList.delete k d else AList.update k ?m d"
  have run: "del2 k j d = Some ?d" using m by (auto simp: del2_def Let_def)
  have at: "map_of ?d k' = (if k' = k then (if ?m = [] then None else Some ?m) else map_of d k')" for k'
    by (simp add: delete_conv')
  then have inn: "inner ?d k' = (if k' = k then ?m else inner d k')" for k'
    unfolding inner_def by simp
  have "distinct (map fst ?d)" using ok(1) by (simp add: distinct_update distinct_delete)
  moreover have "x \<noteq> [] \<and> distinct (map fst x)" if "map_of ?d k' = Some x" for k' x
    using that assms(1) ok(2) unfolding at nested_ok_def
    by (cases "k' = k"; cases "?m = []"; simp only: if_True if_False simp_thms option.inject option.distinct)
      (auto simp: distinct_delete)
  ultimately have "nested_ok ?d" unfolding nested_ok_def by blast
  moreover have "get2 ?d k' j' = (if k' = k \<and> j' = j then None else get2 d k' j')" for k' j'
    unfolding get2_def inn using m(3) by (simp add: delete_conv')
  ultimately show ?thesis using run by blast
qed

lemma inner_mem: "nested_ok d \<Longrightarrow> (j, v) \<in> set (inner d k) \<longleftrightarrow> get2 d k j = Some v"
  using map_of_Some_iff_mem [OF nested_inner_distinct [of d k], of j v] by (simp add: get2_def)

text \<open>The references an index lists under one key, where it agrees with the objects on a heap.\<close>

lemma listed_ids:
  assumes nest: "nested_ok d" and live: "\<And>j i. get2 d k j = Some i \<longleftrightarrow> (\<exists>a. A i = Some a \<and> f a = k \<and> g a = j)"
  shows "distinct (map snd (inner d k))" "set (map snd (inner d k)) = {i. \<exists>a. A i = Some a \<and> f a = k}"
proof -
  have mem: "(j, i) \<in> set (inner d k) \<longleftrightarrow> (\<exists>a. A i = Some a \<and> f a = k \<and> g a = j)" for j i
    using inner_mem [OF nest] live by simp
  have "inj_on snd (set (inner d k))" using mem by (auto simp: inj_on_def)
  moreover have "distinct (inner d k)" using nested_inner_distinct [OF nest] by (simp add: distinct_map)
  ultimately show "distinct (map snd (inner d k))" by (simp add: distinct_map)
  show "set (map snd (inner d k)) = {i. \<exists>a. A i = Some a \<and> f a = k}" using mem by force
qed

interpretation nested: pair_index nested_ok get2 put2 del2
  by unfold_locales (simp_all add: nested_ok_put2 get2_put2 del2_spec)

end
