(* ===== verification/Orphanage.thy ===== *)
theory Orphanage
  imports Nested_Dict "HOL-Library.List_Lexorder" "HOL-Library.Product_Lexorder"
begin

text \<open>
  \<open>TxOrphanage\<close> of \<open>orphanage.py\<close>: the transactions whose inputs are not found yet.  The
  announcements are objects the two indexes share, and \<open>reconsider\<close> is set on the object: the
  model keeps them in the heap \<open>anns\<close>, under their sequence number, which is the reference both
  indexes hold.  An announcement leaves the heap where \<open>_erase\<close> drops the last reference to it.
  Of btclib's \<open>Tx\<close> the model has the fields the code reads, \<open>MAX_STANDARD_TX_WEIGHT\<close> and the
  choice of the random generator are parameters, and so is the order a set is iterated in.
\<close>

section \<open>State\<close>

record orphan_tx =
  ot_id :: bytes
  ot_hash :: bytes
  ot_weight :: int
  ot_vin :: "(bytes \<times> int) list" \<comment> \<open>\<open>prev_out\<close> of each input: \<open>tx_id\<close> and \<open>vout\<close>\<close>
  ot_vout :: nat \<comment> \<open>\<open>len(tx.vout)\<close>\<close>

record orphan_announcement =
  an_tx :: orphan_tx
  an_wtxid :: bytes
  an_announcer :: int
  an_sequence :: int
  an_weight :: int
  an_latency_score :: int
  an_reconsider :: bool

record peer_use =
  pu_weight :: int
  pu_count :: int
  pu_latency_score :: int

type_synonym score = "rat \<times> int"

record orphanage =
  max_global_latency_score :: int
  reserved_peer_weight :: int
  next_sequence :: int
  anns :: "int \<rightharpoonup> orphan_announcement"
  by_wtxid :: "(bytes, int, int) nested"
  by_peer :: "(int, bytes, int) nested"
  spenders :: "bytes \<times> int \<rightharpoonup> bytes set"
  reconsiderable :: "(bytes, int) dict"
  peer_uses :: "(int, peer_use) dict"
  ann_total :: int
  unique_weight :: int
  unique_input_scores :: int

definition new_announcement :: "orphan_tx \<Rightarrow> bytes \<Rightarrow> int \<Rightarrow> int \<Rightarrow> orphan_announcement" where
  "new_announcement tx wtxid announcer sequence =
     \<lparr> an_tx = tx, an_wtxid = wtxid, an_announcer = announcer, an_sequence = sequence,
       an_weight = ot_weight tx, an_latency_score = 1 + int (length (ot_vin tx)) div 10,
       an_reconsider = False \<rparr>"

definition new_peer_use :: peer_use where
  "new_peer_use = \<lparr> pu_weight = 0, pu_count = 0, pu_latency_score = 0 \<rparr>"

definition dos_score :: "peer_use \<Rightarrow> int \<Rightarrow> int \<Rightarrow> score option" where
  \<comment> \<open>\<open>Fraction(x, 0)\<close> raises\<close>
  "dos_score u max_latency max_weight =
     (if max_latency = 0 \<or> max_weight = 0 then None
      else Some (max (of_int (pu_latency_score u) / of_int max_latency, - max_latency)
                     (of_int (pu_weight u) / of_int max_weight, - max_weight)))"

definition new_orphanage :: "int \<Rightarrow> int \<Rightarrow> orphanage" where
  "new_orphanage max_latency reserved =
     \<lparr> max_global_latency_score = max_latency, reserved_peer_weight = reserved, next_sequence = 0,
       anns = Map.empty, by_wtxid = [], by_peer = [], spenders = Map.empty, reconsiderable = [],
       peer_uses = [], ann_total = 0, unique_weight = 0, unique_input_scores = 0 \<rparr>"

definition ann_at :: "orphanage \<Rightarrow> int \<Rightarrow> orphan_announcement" where
  \<comment> \<open>the object a reference stands for\<close>
  "ann_at st i = the (anns st i)"

section \<open>Queries\<close>

definition unique_count :: "orphanage \<Rightarrow> nat" where
  "unique_count st = length (by_wtxid st)"

definition announcement_count :: "orphanage \<Rightarrow> int" where
  "announcement_count st = ann_total st"

definition orphan_peers :: "orphanage \<Rightarrow> int list" where
  "orphan_peers st = map fst (by_peer st)"

definition have_tx :: "bytes \<Rightarrow> orphanage \<Rightarrow> bool" where
  "have_tx wtxid st \<longleftrightarrow> map_of (by_wtxid st) wtxid \<noteq> None"

definition have_tx_from_peer :: "bytes \<Rightarrow> int \<Rightarrow> orphanage \<Rightarrow> bool" where
  "have_tx_from_peer wtxid peer st \<longleftrightarrow> map_of (inner (by_wtxid st) wtxid) peer \<noteq> None"

definition first_value :: "('k, 'v) dict \<Rightarrow> 'v option" where
  \<comment> \<open>\<open>next(iter(d.values()))\<close>\<close>
  "first_value d = (case d of [] \<Rightarrow> None | kv # _ \<Rightarrow> Some (snd kv))"

definition get_tx :: "bytes \<Rightarrow> orphanage \<Rightarrow> orphan_tx option option" where
  "get_tx wtxid st =
     (case map_of (by_wtxid st) wtxid of
        None \<Rightarrow> Some None
      | Some announcements \<Rightarrow> do { i \<leftarrow> first_value announcements; Some (Some (an_tx (ann_at st i))) })"

definition peers_to_reconsider :: "orphanage \<Rightarrow> int list" where
  "peers_to_reconsider st = sorted_list_of_set (set (map snd (reconsiderable st)))"

definition have_tx_to_reconsider :: "int \<Rightarrow> orphanage \<Rightarrow> bool" where
  "have_tx_to_reconsider peer st \<longleftrightarrow> peer \<in> set (map snd (reconsiderable st))"

definition eviction_key :: "orphanage \<Rightarrow> int \<Rightarrow> bool \<times> int" where
  \<comment> \<open>\<open>lambda a: (a.reconsider, a.sequence)\<close>\<close>
  "eviction_key st i = (an_reconsider (ann_at st i), an_sequence (ann_at st i))"

definition get_children_from_same_peer :: "orphan_tx \<Rightarrow> int \<Rightarrow> orphanage \<Rightarrow> orphan_tx list" where
  \<comment> \<open>\<open>sorted(..., reverse=True)\<close> keeps the order of equal elements\<close>
  "get_children_from_same_peer parent peer st =
     (let announcements = rev (sort_key (eviction_key st) (rev (map snd (inner (by_peer st) peer))))
      in map (an_tx \<circ> ann_at st)
           (filter (\<lambda>i. \<exists>prev_out\<in>set (ot_vin (an_tx (ann_at st i))). fst prev_out = ot_id parent)
              announcements))"

definition get_orphan_transactions :: "orphanage \<Rightarrow> (orphan_tx \<times> int list) list option" where
  "get_orphan_transactions st =
     those (map (\<lambda>(_, announcers).
         do { i \<leftarrow> first_value announcers; Some (an_tx (ann_at st i), sort (map fst announcers)) })
       (sort_key (rev \<circ> fst) (by_wtxid st)))"

section \<open>Recording and erasing announcements\<close>

definition announce :: "orphan_tx \<Rightarrow> bytes \<Rightarrow> int \<Rightarrow> orphanage \<Rightarrow> orphanage \<times> bool" where
  "announce tx wtxid peer st =
     (if map_of (inner (by_wtxid st) wtxid) peer \<noteq> None then (st, False)
      else
        let i = next_sequence st;
            a = new_announcement tx wtxid peer i;
            u = (case map_of (peer_uses st) peer of None \<Rightarrow> new_peer_use | Some u \<Rightarrow> u);
            u' = \<lparr> pu_weight = pu_weight u + an_weight a, pu_count = pu_count u + 1,
                   pu_latency_score = pu_latency_score u + an_latency_score a \<rparr>
        in (st\<lparr> next_sequence := i + 1,
               anns := (anns st)(i \<mapsto> a),
               by_wtxid := put2 wtxid peer i (by_wtxid st),
               by_peer := put2 peer wtxid i (by_peer st),
               peer_uses := AList.update peer u' (peer_uses st),
               ann_total := ann_total st + 1 \<rparr>, True))"

definition discard_spender ::
  "bytes \<Rightarrow> bytes \<times> int \<Rightarrow> (bytes \<times> int \<rightharpoonup> bytes set) \<Rightarrow> (bytes \<times> int \<rightharpoonup> bytes set) option" where
  "discard_spender wtxid key sp =
     do {
       wtxids \<leftarrow> sp key;
       Some (if wtxids - {wtxid} = {} then sp(key := None) else sp(key \<mapsto> wtxids - {wtxid}))
     }"

definition erase_last :: "orphan_announcement \<Rightarrow> orphanage \<Rightarrow> orphanage option" where
  \<comment> \<open>what \<open>_erase\<close> does where no announcer of the orphan is left\<close>
  "erase_last a st =
     do {
       sp \<leftarrow> fold_opt (discard_spender (an_wtxid a)) (ot_vin (an_tx a)) (spenders st);
       Some (st\<lparr> unique_weight := unique_weight st - an_weight a,
                 unique_input_scores := unique_input_scores st - (an_latency_score a - 1),
                 spenders := sp \<rparr>)
     }"

definition erase_reconsiderable :: "orphan_announcement \<Rightarrow> orphanage \<Rightarrow> orphanage option" where
  "erase_reconsiderable a st =
     (if \<not> an_reconsider a then Some st
      else do {
        _ \<leftarrow> map_of (reconsiderable st) (an_wtxid a);
        Some (st\<lparr> reconsiderable := AList.delete (an_wtxid a) (reconsiderable st) \<rparr>)
      })"

definition erase :: "int \<Rightarrow> orphanage \<Rightarrow> orphanage option" where
  "erase i st =
     do {
       a \<leftarrow> anns st i;
       let wtxid = an_wtxid a;
       let peer = an_announcer a;
       u \<leftarrow> map_of (peer_uses st) peer;
       let u' = \<lparr> pu_weight = pu_weight u - an_weight a, pu_count = pu_count u - 1,
                  pu_latency_score = pu_latency_score u - an_latency_score a \<rparr>;
       by_peer' \<leftarrow> del2 peer wtxid (by_peer st);
       by_wtxid' \<leftarrow> del2 wtxid peer (by_wtxid st);
       let st' = st\<lparr> anns := (anns st)(i := None),
                     peer_uses := (if pu_count u' = 0 then AList.delete peer (peer_uses st)
                                   else AList.update peer u' (peer_uses st)),
                     ann_total := ann_total st - 1,
                     by_peer := by_peer',
                     by_wtxid := by_wtxid' \<rparr>;
       st'' \<leftarrow> (if map_of by_wtxid' wtxid = None then erase_last a st' else Some st');
       erase_reconsiderable a st''
     }"

definition erase_wtxid :: "bytes \<Rightarrow> orphanage \<Rightarrow> (orphanage \<times> bool) option" where
  "erase_wtxid wtxid st =
     (case map_of (by_wtxid st) wtxid of
        None \<Rightarrow> Some (st, False)
      | Some announcements \<Rightarrow>
          do { st' \<leftarrow> fold_opt erase (map snd announcements) st; Some (st', True) })"

section \<open>Limits\<close>

definition max_peer_latency_score :: "orphanage \<Rightarrow> int" where
  "max_peer_latency_score st = max_global_latency_score st div max (int (length (peer_uses st))) 1"

definition needs_trim :: "orphanage \<Rightarrow> bool" where
  "needs_trim st \<longleftrightarrow>
     unique_input_scores st + ann_total st > max_global_latency_score st
     \<or> unique_weight st > reserved_peer_weight st * max (int (length (peer_uses st))) 1"

definition add_over :: "int \<Rightarrow> int \<Rightarrow> int \<times> peer_use \<Rightarrow> (int, score) dict \<Rightarrow> (int, score) dict option" where
  "add_over max_latency max_weight pu over =
     do {
       score \<leftarrow> dos_score (snd pu) max_latency max_weight;
       Some (if fst score > 1 then AList.update (fst pu) score over else over)
     }"

definition worst_peer :: "(int, score) dict \<Rightarrow> int option" where
  \<comment> \<open>\<open>max(over, key=lambda peer: (over[peer], peer))\<close>\<close>
  "worst_peer over = (if over = [] then None else Some (snd (Max (set (map (\<lambda>(p, s). (s, p)) over)))))"

definition over_threshold :: "(int, score) dict \<Rightarrow> score" where
  "over_threshold over = (if over = [] then (1, - 1) else Max (set (map snd over)))"

fun evict_oldest ::
  "int \<Rightarrow> int \<Rightarrow> int \<Rightarrow> score \<Rightarrow> int list \<Rightarrow> orphanage \<Rightarrow> (int, score) dict \<Rightarrow> (orphanage \<times> (int, score) dict) option"
where
  "evict_oldest max_latency max_weight worst threshold [] st over =
     (if needs_trim st then None else Some (st, over))"
| "evict_oldest max_latency max_weight worst threshold (i # oldest_first) st over =
     (if \<not> needs_trim st then Some (st, over)
      else do {
        st' \<leftarrow> erase i st;
        case map_of (peer_uses st') worst of
          None \<Rightarrow> Some (st', over)
        | Some remaining \<Rightarrow> do {
            score \<leftarrow> dos_score remaining max_latency max_weight;
            if score \<le> threshold then Some (st', AList.update worst score over)
            else evict_oldest max_latency max_weight worst threshold oldest_first st' over
          }
      })"

partial_function (option) trim_loop ::
  "int \<Rightarrow> int \<Rightarrow> (int, score) dict \<Rightarrow> orphanage \<Rightarrow> orphanage option" where
  "trim_loop max_latency max_weight over st =
     (if \<not> needs_trim st then Some st
      else do {
        worst \<leftarrow> worst_peer over;
        let over' = AList.delete worst over;
        announcements \<leftarrow> map_of (by_peer st) worst;
        (st', over'') \<leftarrow> evict_oldest max_latency max_weight worst (over_threshold over')
            (sort_key (eviction_key st) (map snd announcements)) st over';
        trim_loop max_latency max_weight over'' st'
      })"

declare trim_loop.simps [code]

definition limit_orphans :: "orphanage \<Rightarrow> orphanage option" where
  "limit_orphans st =
     (let max_latency = max_peer_latency_score st; max_weight = reserved_peer_weight st
      in do {
        over \<leftarrow> fold_opt (add_over max_latency max_weight) (peer_uses st) [];
        trim_loop max_latency max_weight over st
      })"

section \<open>Operations\<close>

definition add_spender :: "bytes \<Rightarrow> bytes \<times> int \<Rightarrow> (bytes \<times> int \<rightharpoonup> bytes set) \<Rightarrow> (bytes \<times> int \<rightharpoonup> bytes set)" where
  "add_spender wtxid key sp = sp(key \<mapsto> insert wtxid (case sp key of None \<Rightarrow> {} | Some s \<Rightarrow> s))"

definition add_first :: "orphan_tx \<Rightarrow> bytes \<Rightarrow> int \<Rightarrow> orphanage \<Rightarrow> orphanage option" where
  \<comment> \<open>what \<open>add_tx\<close> does where the orphan is brand new\<close>
  "add_first tx wtxid peer st =
     do {
       announcers \<leftarrow> map_of (by_wtxid st) wtxid;
       i \<leftarrow> map_of announcers peer;
       Some (st\<lparr> spenders := fold (add_spender wtxid) (ot_vin tx) (spenders st),
                 unique_weight := unique_weight st + an_weight (ann_at st i),
                 unique_input_scores := unique_input_scores st + (an_latency_score (ann_at st i) - 1) \<rparr>)
     }"

definition add_tx :: "int \<Rightarrow> orphan_tx \<Rightarrow> int \<Rightarrow> orphanage \<Rightarrow> (orphanage \<times> bool) option" where
  "add_tx max_standard_tx_weight tx peer st =
     (if ot_weight tx > max_standard_tx_weight then Some (st, False)
      else
        let wtxid = ot_hash tx;
            brand_new = \<not> have_tx wtxid st;
            (st1, announced) = announce tx wtxid peer st
        in if \<not> announced then Some (st1, False)
           else do {
             st2 \<leftarrow> (if brand_new then add_first tx wtxid peer st1 else Some st1);
             st3 \<leftarrow> limit_orphans st2;
             Some (st3, brand_new)
           })"

definition add_announcer :: "bytes \<Rightarrow> int \<Rightarrow> orphanage \<Rightarrow> (orphanage \<times> bool) option" where
  "add_announcer wtxid peer st =
     do {
       tx \<leftarrow> get_tx wtxid st;
       case tx of
         None \<Rightarrow> Some (st, False)
       | Some tx \<Rightarrow>
           (case announce tx wtxid peer st of
              (st1, False) \<Rightarrow> Some (st1, False)
            | (st1, True) \<Rightarrow> do { st2 \<leftarrow> limit_orphans st1; Some (st2, True) })
     }"

definition next_to_reconsider :: "int \<Rightarrow> orphanage \<Rightarrow> int option option" where
  \<comment> \<open>\<open>min\<close> takes the first of the smallest, as the first of a stable sort is\<close>
  "next_to_reconsider peer st =
     do {
       marked \<leftarrow> those (map (\<lambda>(wtxid, _). get2 (by_wtxid st) wtxid peer)
                   (filter (\<lambda>(_, marked_peer). marked_peer = peer) (reconsiderable st)));
       Some (case sort_key (an_sequence \<circ> ann_at st) marked of [] \<Rightarrow> None | i # _ \<Rightarrow> Some i)
     }"

definition get_tx_to_reconsider :: "int \<Rightarrow> orphanage \<Rightarrow> (orphanage \<times> orphan_tx option) option" where
  "get_tx_to_reconsider peer st =
     do {
       announcement \<leftarrow> next_to_reconsider peer st;
       case announcement of
         None \<Rightarrow> Some (st, None)
       | Some i \<Rightarrow>
           let a = ann_at st i
           in do {
             _ \<leftarrow> map_of (reconsiderable st) (an_wtxid a);
             Some (st\<lparr> anns := (anns st)(i \<mapsto> a\<lparr> an_reconsider := False \<rparr>),
                       reconsiderable := AList.delete (an_wtxid a) (reconsiderable st) \<rparr>, Some (an_tx a))
           }
     }"

definition erase_tx :: "bytes \<Rightarrow> orphanage \<Rightarrow> (orphanage \<times> bool) option" where
  "erase_tx wtxid st =
     do {
       (st1, erased) \<leftarrow> erase_wtxid wtxid st;
       st2 \<leftarrow> limit_orphans st1;
       Some (st2, erased)
     }"

definition erase_for_peer :: "int \<Rightarrow> orphanage \<Rightarrow> orphanage option" where
  "erase_for_peer peer st =
     do {
       st1 \<leftarrow> fold_opt erase (map snd (inner (by_peer st) peer)) st;
       limit_orphans st1
     }"

definition spenders_of :: "bytes \<times> int \<Rightarrow> orphanage \<Rightarrow> bytes set" where
  \<comment> \<open>\<open>self._spenders.get(key, ())\<close>\<close>
  "spenders_of key st = (case spenders st key of None \<Rightarrow> {} | Some wtxids \<Rightarrow> wtxids)"

definition block_spenders :: "orphan_tx list \<Rightarrow> orphanage \<Rightarrow> bytes set" where
  "block_spenders txs st = fold (\<lambda>tx. fold (\<lambda>key wtxids. wtxids \<union> spenders_of key st) (ot_vin tx)) txs {}"

definition erase_for_block :: "(bytes set \<Rightarrow> bytes list) \<Rightarrow> orphan_tx list \<Rightarrow> orphanage \<Rightarrow> orphanage option" where
  \<comment> \<open>\<open>iter_set\<close> is the order Python iterates the set in\<close>
  "erase_for_block iter_set txs st =
     (if by_wtxid st = [] then Some st
      else do {
        st1 \<leftarrow> fold_opt (\<lambda>wtxid s. do { (s', _) \<leftarrow> erase_wtxid wtxid s; Some s' })
                 (iter_set (block_spenders txs st)) st;
        limit_orphans st1
      })"

definition mark_child ::
  "(int list \<Rightarrow> int) \<Rightarrow> bytes \<Rightarrow> orphanage \<times> (bytes \<times> int) list \<Rightarrow> (orphanage \<times> (bytes \<times> int) list) option" where
  "mark_child choice wtxid s =
     (case s of (st, marked) \<Rightarrow>
       if map_of (reconsiderable st) wtxid \<noteq> None then Some s
       else do {
         announcers \<leftarrow> map_of (by_wtxid st) wtxid;
         let peer = choice (sort (map fst announcers));
         i \<leftarrow> map_of announcers peer;
         Some (st\<lparr> anns := (anns st)(i \<mapsto> (ann_at st i)\<lparr> an_reconsider := True \<rparr>),
                   reconsiderable := AList.update wtxid peer (reconsiderable st) \<rparr>,
               marked @ [(wtxid, peer)])
       })"

definition add_children_to_work_set ::
  "(int list \<Rightarrow> int) \<Rightarrow> orphan_tx \<Rightarrow> orphanage \<Rightarrow> (orphanage \<times> (bytes \<times> int) list) option" where
  "add_children_to_work_set choice tx st =
     fold_opt (\<lambda>vout s.
         fold_opt (mark_child choice)
           (sort_key rev (sorted_list_of_set (spenders_of (ot_id tx, int vout) (fst s)))) s)
       [0..<ot_vout tx] (st, [])"

end
