(* ===== verification/Orphanage_Index.thy ===== *)
theory Orphanage_Index
  imports Orphanage
begin

text \<open>
  The invariant of the orphanage: everything it keeps is a function of the announcements on the
  heap.  \<open>L\<close> is the transaction a wtxid names, for the transactions the peers sent; the lemmas
  show that recording an announcement and erasing one keep the invariant and do not raise.
\<close>

section \<open>What the announcements determine\<close>

definition live :: "(int \<rightharpoonup> orphan_announcement) \<Rightarrow> bytes \<Rightarrow> int \<Rightarrow> int \<Rightarrow> bool" where
  "live A w p i \<longleftrightarrow> (\<exists>a. A i = Some a \<and> an_wtxid a = w \<and> an_announcer a = p)"

definition owned :: "(int \<rightharpoonup> orphan_announcement) \<Rightarrow> int \<Rightarrow> int set" where
  "owned A p = {i. \<exists>a. A i = Some a \<and> an_announcer a = p}"

definition use_of :: "(int \<rightharpoonup> orphan_announcement) \<Rightarrow> int \<Rightarrow> peer_use option" where
  "use_of A p =
     (if owned A p = {} then None
      else Some \<lparr> pu_weight = (\<Sum>i\<in>owned A p. an_weight (the (A i))),
                  pu_count = int (card (owned A p)),
                  pu_latency_score = (\<Sum>i\<in>owned A p. an_latency_score (the (A i))) \<rparr>)"

definition wtxids :: "(int \<rightharpoonup> orphan_announcement) \<Rightarrow> bytes set" where
  "wtxids A = {w. \<exists>p i. live A w p i}"

definition spent_by :: "(bytes \<Rightarrow> orphan_tx) \<Rightarrow> bytes set \<Rightarrow> (bytes \<times> int \<rightharpoonup> bytes set)" where
  "spent_by L W = (\<lambda>key. let S = {w \<in> W. key \<in> set (ot_vin (L w))} in if S = {} then None else Some S)"

definition ann_ok :: "(bytes \<Rightarrow> orphan_tx) \<Rightarrow> int \<Rightarrow> int \<Rightarrow> orphan_announcement \<Rightarrow> bool" where
  "ann_ok L n i a \<longleftrightarrow> an_sequence a = i \<and> i < n \<and> an_tx a = L (an_wtxid a)
     \<and> ot_hash (an_tx a) = an_wtxid a \<and> an_weight a = ot_weight (an_tx a)
     \<and> an_latency_score a = 1 + int (length (ot_vin (an_tx a))) div 10
     \<and> distinct (ot_vin (an_tx a)) \<and> 0 \<le> ot_weight (an_tx a)"

definition heap_ok :: "(bytes \<Rightarrow> orphan_tx) \<Rightarrow> orphanage \<Rightarrow> bool" where
  "heap_ok L st \<longleftrightarrow> finite (dom (anns st))
     \<and> (\<forall>i a. anns st i = Some a \<longrightarrow> ann_ok L (next_sequence st) i a)
     \<and> (\<forall>w p i j. live (anns st) w p i \<longrightarrow> live (anns st) w p j \<longrightarrow> i = j)"

definition index_ok :: "orphanage \<Rightarrow> bool" where
  "index_ok st \<longleftrightarrow> nested_ok (by_wtxid st) \<and> nested_ok (by_peer st)
     \<and> (\<forall>w p i. get2 (by_wtxid st) w p = Some i \<longleftrightarrow> live (anns st) w p i)
     \<and> (\<forall>w p i. get2 (by_peer st) p w = Some i \<longleftrightarrow> live (anns st) w p i)"

definition uses_ok :: "orphanage \<Rightarrow> bool" where
  "uses_ok st \<longleftrightarrow> distinct (map fst (peer_uses st))
     \<and> (\<forall>p. map_of (peer_uses st) p = use_of (anns st) p)
     \<and> ann_total st = int (card (dom (anns st)))"

definition totals_ok :: "(bytes \<Rightarrow> orphan_tx) \<Rightarrow> orphanage \<Rightarrow> bool" where
  "totals_ok L st \<longleftrightarrow>
     unique_weight st = (\<Sum>w\<in>wtxids (anns st). ot_weight (L w))
     \<and> unique_input_scores st = (\<Sum>w\<in>wtxids (anns st). int (length (ot_vin (L w))) div 10)
     \<and> spenders st = spent_by L (wtxids (anns st))"

definition marked :: "(int \<rightharpoonup> orphan_announcement) \<Rightarrow> bytes \<Rightarrow> int \<Rightarrow> bool" where
  "marked A w p \<longleftrightarrow> (\<exists>i a. A i = Some a \<and> an_wtxid a = w \<and> an_announcer a = p \<and> an_reconsider a)"

definition marks_ok :: "orphanage \<Rightarrow> bool" where
  "marks_ok st \<longleftrightarrow> distinct (map fst (reconsiderable st))
     \<and> (\<forall>w p. map_of (reconsiderable st) w = Some p \<longleftrightarrow> marked (anns st) w p)"

definition orphans_ok :: "(bytes \<Rightarrow> orphan_tx) \<Rightarrow> orphanage \<Rightarrow> bool" where
  "orphans_ok L st \<longleftrightarrow> heap_ok L st \<and> index_ok st \<and> uses_ok st \<and> totals_ok L st \<and> marks_ok st"

lemma orphans_okD:
  assumes "orphans_ok L st"
  shows "heap_ok L st" "index_ok st" "uses_ok st" "totals_ok L st" "marks_ok st"
  using assms by (simp_all add: orphans_ok_def)

section \<open>One announcement more, one less\<close>

lemma owned_finite: "finite (dom A) \<Longrightarrow> finite (owned A p)"
  by (erule rev_finite_subset) (auto simp: owned_def)

lemma owned_put:
  assumes "A i = None"
  shows "owned (A(i \<mapsto> a)) p = (if an_announcer a = p then insert i (owned A p) else owned A p)"
  using assms by (auto simp: owned_def)

lemma owned_del:
  "A i = Some a \<Longrightarrow> owned (A(i := None)) p = (if an_announcer a = p then owned A p - {i} else owned A p)"
  by (auto simp: owned_def)

lemma owned_mem: "A i = Some a \<Longrightarrow> i \<in> owned A (an_announcer a)"
  by (auto simp: owned_def)

lemma live_put: "A i = None \<Longrightarrow> live (A(i \<mapsto> a)) w p j \<longleftrightarrow>
    (if j = i then an_wtxid a = w \<and> an_announcer a = p else live A w p j)"
  by (auto simp: live_def)

lemma live_del: "live (A(i := None)) w p j \<longleftrightarrow> j \<noteq> i \<and> live A w p j"
  by (auto simp: live_def)

lemma marked_put: "A i = None \<Longrightarrow> \<not> an_reconsider a \<Longrightarrow> marked (A(i \<mapsto> a)) w p \<longleftrightarrow> marked A w p"
  unfolding marked_def by (metis fun_upd_other fun_upd_same option.distinct(1) option.inject)

lemma marked_del: "A i = Some a \<Longrightarrow> \<not> an_reconsider a \<Longrightarrow> marked (A(i := None)) w p \<longleftrightarrow> marked A w p"
  unfolding marked_def by (metis fun_upd_other fun_upd_same option.distinct(1) option.inject)

lemma marked_del_other: "A i = Some a \<Longrightarrow> w \<noteq> an_wtxid a \<Longrightarrow> marked (A(i := None)) w p \<longleftrightarrow> marked A w p"
  unfolding marked_def by (metis fun_upd_other fun_upd_same option.distinct(1) option.inject)

lemma use_of_put:
  assumes "finite (dom A)" "A i = None"
  shows "use_of (A(i \<mapsto> a)) p =
    (if an_announcer a \<noteq> p then use_of A p
     else let u = (case use_of A p of None \<Rightarrow> new_peer_use | Some u \<Rightarrow> u)
          in Some \<lparr> pu_weight = pu_weight u + an_weight a, pu_count = pu_count u + 1,
                    pu_latency_score = pu_latency_score u + an_latency_score a \<rparr>)"
proof -
  have other: "(\<Sum>j\<in>owned A p. f (the ((A(i \<mapsto> a)) j))) = (\<Sum>j\<in>owned A p. f (the (A j)))"
    for f :: "orphan_announcement \<Rightarrow> int"
    using assms(2) by (intro sum.cong) (auto simp: owned_def)
  have "i \<notin> owned A p" using assms(2) by (auto simp: owned_def)
  with owned_finite [OF assms(1), of p] show ?thesis
    unfolding use_of_def owned_put [of A i, OF assms(2)]
    by (auto simp: other new_peer_use_def Let_def simp del: fun_upd_apply) (simp_all add: fun_upd_same)
qed

lemma use_of_del:
  assumes "finite (dom A)" "A i = Some a" "use_of A (an_announcer a) = Some u"
  shows "use_of (A(i := None)) p =
    (if an_announcer a \<noteq> p then use_of A p
     else if pu_count u - 1 = 0 then None
     else Some \<lparr> pu_weight = pu_weight u - an_weight a, pu_count = pu_count u - 1,
                 pu_latency_score = pu_latency_score u - an_latency_score a \<rparr>)"
proof -
  let ?S = "owned A (an_announcer a)"
  have fin: "finite ?S" and mem: "i \<in> ?S" using owned_finite [OF assms(1)] owned_mem [of A, OF assms(2)] by auto
  have other: "(\<Sum>j\<in>T - {i}. f (the ((A(i := None)) j))) = (\<Sum>j\<in>T - {i}. f (the (A j)))"
    for f :: "orphan_announcement \<Rightarrow> int" and T
    by (intro sum.cong) auto
  have less: "(\<Sum>j\<in>?S - {i}. f (the (A j))) = (\<Sum>j\<in>?S. f (the (A j))) - f a"
    for f :: "orphan_announcement \<Rightarrow> int"
    using fin mem assms(2) by (simp add: sum_diff1)
  have keep: "(\<Sum>j\<in>owned A p. f (the ((A(i := None)) j))) = (\<Sum>j\<in>owned A p. f (the (A j)))"
    if "an_announcer a \<noteq> p" for f :: "orphan_announcement \<Rightarrow> int"
    using that assms(2) by (intro sum.cong) (auto simp: owned_def)
  have card: "int (card (?S - {i})) = int (card ?S) - 1"
    using fin mem by (simp add: card_Diff_singleton) (metis One_nat_def Suc_pred card_gt_0_iff empty_iff of_nat_Suc add_diff_cancel_left' diff_add_cancel)
  have empty: "?S - {i} = {} \<longleftrightarrow> int (card ?S) - 1 = 0"
    using fin card by (metis card_eq_0_iff finite_Diff of_nat_eq_0_iff)
  have u: "u = \<lparr> pu_weight = (\<Sum>j\<in>?S. an_weight (the (A j))), pu_count = int (card ?S),
      pu_latency_score = (\<Sum>j\<in>?S. an_latency_score (the (A j))) \<rparr>"
    using assms(3) mem by (auto simp: use_of_def split: if_splits)
  show ?thesis
  proof (cases "an_announcer a = p")
    case True
    then have "owned (A(i := None)) p = ?S - {i}" using owned_del [of A i a p] assms(2) by simp
    moreover have "pu_count u - 1 = 0 \<longleftrightarrow> ?S - {i} = {}" using empty by (simp add: u)
    moreover have "p = an_announcer a" using True by simp
    ultimately show ?thesis unfolding use_of_def
      by (cases "?S - {i} = {}") (simp_all only: other less card u if_True if_False simp_thms peer_use.simps)
  next
    case False
    then have "owned (A(i := None)) p = owned A p" using owned_del [of A i a p] assms(2) by simp
    then show ?thesis unfolding use_of_def using False
      by (cases "owned A p = {}") (simp_all only: keep if_True if_False simp_thms)
  qed
qed

lemma use_of_None_iff: "use_of A p = None \<longleftrightarrow> owned A p = {}"
  by (simp add: use_of_def)

lemma wtxids_put: "A i = None \<Longrightarrow> wtxids (A(i \<mapsto> a)) = insert (an_wtxid a) (wtxids A)"
  by (auto simp: wtxids_def live_put) (metis domI domIff live_def)

lemma wtxids_finite: "finite (dom A) \<Longrightarrow> finite (wtxids A)"
proof -
  assume "finite (dom A)"
  moreover have "wtxids A \<subseteq> (\<lambda>i. an_wtxid (the (A i))) ` dom A"
    by (force simp: wtxids_def live_def)
  ultimately show ?thesis using finite_subset by blast
qed

lemma wtxids_del:
  assumes "A i = Some a"
  shows "wtxids (A(i := None)) =
    (if \<exists>p j. j \<noteq> i \<and> live A (an_wtxid a) p j then wtxids A else wtxids A - {an_wtxid a})"
proof (cases "\<exists>p j. j \<noteq> i \<and> live A (an_wtxid a) p j")
  case True
  then have "\<exists>p j. j \<noteq> i \<and> live A w p j" if "live A w q k" for w q k
    using that assms by (cases "k = i") (auto simp: live_def)
  with True show ?thesis by (auto simp: wtxids_def live_del)
next
  case False
  then have "j \<noteq> i \<and> live A w p j \<longleftrightarrow> live A w p j \<and> w \<noteq> an_wtxid a" for w p j
    using assms by (cases "j = i") (auto simp: live_def)
  with False show ?thesis by (auto simp: wtxids_def live_del)
qed

section \<open>The spenders\<close>

lemma fold_add_spender:
  "fold (add_spender w) keys sp key =
    (if key \<in> set keys then Some (insert w (case sp key of None \<Rightarrow> {} | Some s \<Rightarrow> s)) else sp key)"
  by (induction keys arbitrary: sp) (auto simp: add_spender_def split: option.splits)

lemma spent_by_insert:
  "spent_by L (insert w W) = fold (add_spender w) (ot_vin (L w)) (spent_by L W)"
proof
  fix key
  show "spent_by L (insert w W) key = fold (add_spender w) (ot_vin (L w)) (spent_by L W) key"
    unfolding fold_add_spender by (auto simp: spent_by_def Let_def)
qed

definition nonempty :: "'a set \<Rightarrow> 'a set option" where
  "nonempty S = (if S = {} then None else Some S)"

lemma spent_by_nonempty: "spent_by L W key = nonempty {w \<in> W. key \<in> set (ot_vin (L w))}"
  by (simp add: spent_by_def nonempty_def Let_def)

lemma discard_nonempty:
  assumes "S \<noteq> {}"
  shows "discard_spender w key (sp(key := nonempty S)) = Some (sp(key := nonempty (S - {w})))"
  using assms by (simp add: discard_spender_def nonempty_def)

lemma fold_discard:
  assumes "distinct keys" "\<forall>key\<in>set keys. S key \<noteq> {}"
  shows "fold_opt (discard_spender w) keys (\<lambda>key. nonempty (S key))
    = Some (\<lambda>key. nonempty (if key \<in> set keys then S key - {w} else S key))"
  using assms
proof (induction keys arbitrary: S)
  case Nil
  then show ?case by simp
next
  case (Cons k keys)
  obtain S' where S': "S' = S(k := S k - {w})" by simp
  have upd: "(\<lambda>key. nonempty (S key))(k := nonempty (S k)) = (\<lambda>key. nonempty (S key))"
    "(\<lambda>key. nonempty (S key))(k := nonempty (S k - {w})) = (\<lambda>key. nonempty (S' key))"
    by (auto simp: S')
  have "S k \<noteq> {}" using Cons.prems(2) by simp
  from discard_nonempty [OF this, of w k "\<lambda>key. nonempty (S key)"]
  have run: "discard_spender w k (\<lambda>key. nonempty (S key)) = Some (\<lambda>key. nonempty (S' key))"
    unfolding upd .
  have "\<forall>key\<in>set keys. S' key \<noteq> {}" using Cons.prems by (auto simp: S')
  from Cons.IH [OF _ this] Cons.prems(1)
  have "fold_opt (discard_spender w) keys (\<lambda>key. nonempty (S' key))
      = Some (\<lambda>key. nonempty (if key \<in> set keys then S' key - {w} else S' key))" by simp
  moreover have "(if key \<in> set keys then S' key - {w} else S' key)
      = (if key \<in> set (k # keys) then S key - {w} else S key)" for key
    using Cons.prems(1) by (simp add: S')
  ultimately show ?case using run by simp
qed

lemma discard_spent_by:
  assumes "distinct (ot_vin (L w))" "w \<in> W"
  shows "fold_opt (discard_spender w) (ot_vin (L w)) (spent_by L W) = Some (spent_by L (W - {w}))"
proof -
  let ?S = "\<lambda>key. {v \<in> W. key \<in> set (ot_vin (L v))}"
  have map: "spent_by L V = (\<lambda>key. nonempty {v \<in> V. key \<in> set (ot_vin (L v))})" for V
    by (rule ext) (rule spent_by_nonempty)
  have "\<forall>key\<in>set (ot_vin (L w)). ?S key \<noteq> {}" using assms(2) by auto
  note fold_discard [OF assms(1) this, of w]
  moreover have "(if key \<in> set (ot_vin (L w)) then ?S key - {w} else ?S key)
      = {v \<in> W - {w}. key \<in> set (ot_vin (L v))}" for key by auto
  ultimately show ?thesis unfolding map by simp
qed

section \<open>Recording an announcement\<close>

definition sent :: "(bytes \<Rightarrow> orphan_tx) \<Rightarrow> orphan_tx \<Rightarrow> bool" where
  \<comment> \<open>a transaction a peer may send: its wtxid names it, and no input is spent twice\<close>
  "sent L tx \<longleftrightarrow> L (ot_hash tx) = tx \<and> distinct (ot_vin tx) \<and> 0 \<le> ot_weight tx"

lemma heap_fresh: "heap_ok L st \<Longrightarrow> anns st (next_sequence st) = None"
  unfolding heap_ok_def ann_ok_def by (meson less_irrefl not_None_eq)

lemma announce_known: "get2 (by_wtxid st) w p \<noteq> None \<Longrightarrow> announce tx w p st = (st, False)"
  by (simp add: announce_def get2_def)

lemma announce_new:
  assumes ok: "heap_ok L st" "index_ok st" "uses_ok st" "marks_ok st"
    and new: "get2 (by_wtxid st) (ot_hash tx) p = None" and tx: "sent L tx"
  shows "\<exists>st'. announce tx (ot_hash tx) p st = (st', True)
    \<and> heap_ok L st' \<and> index_ok st' \<and> uses_ok st' \<and> marks_ok st'
    \<and> anns st' = (anns st)(next_sequence st \<mapsto> new_announcement tx (ot_hash tx) p (next_sequence st))
    \<and> unique_weight st' = unique_weight st \<and> unique_input_scores st' = unique_input_scores st
    \<and> spenders st' = spenders st \<and> reserved_peer_weight st' = reserved_peer_weight st
    \<and> max_global_latency_score st' = max_global_latency_score st"
proof -
  let ?w = "ot_hash tx" and ?n = "next_sequence st" and ?A = "anns st"
  let ?a = "new_announcement tx ?w p ?n"
  obtain st' where st': "announce tx ?w p st = (st', True)"
    "st' = fst (announce tx ?w p st)"
    using new by (simp add: announce_def Let_def get2_def)
  have fresh: "?A ?n = None" by (rule heap_fresh [OF ok(1)])
  have a: "an_wtxid ?a = ?w" "an_announcer ?a = p" "\<not> an_reconsider ?a" by (simp_all add: new_announcement_def)
  have fields: "anns st' = ?A(?n \<mapsto> ?a)" "next_sequence st' = ?n + 1"
    "by_wtxid st' = put2 ?w p ?n (by_wtxid st)" "by_peer st' = put2 p ?w ?n (by_peer st)"
    "reconsiderable st' = reconsiderable st" "ann_total st' = ann_total st + 1"
    "peer_uses st' = AList.update p
       (let u = (case map_of (peer_uses st) p of None \<Rightarrow> new_peer_use | Some u \<Rightarrow> u)
        in \<lparr> pu_weight = pu_weight u + an_weight ?a, pu_count = pu_count u + 1,
             pu_latency_score = pu_latency_score u + an_latency_score ?a \<rparr>) (peer_uses st)"
    using new unfolding st'(2) by (simp_all add: announce_def Let_def get2_def del: fun_upd_apply)
  have fin: "finite (dom ?A)" using ok(1) by (simp add: heap_ok_def)
  have none: "\<not> live ?A ?w p j" for j using new ok(2) unfolding index_ok_def by (metis not_None_eq)
  have "heap_ok L st'"
  proof -
    have "ann_ok L (?n + 1) i b" if "(?A(?n \<mapsto> ?a)) i = Some b" for i b
    proof (cases "i = ?n")
      case True
      with that have "b = ?a" by simp
      then show ?thesis using tx True by (auto simp: ann_ok_def new_announcement_def sent_def)
    next
      case False
      with that have "?A i = Some b" by simp
      then have "ann_ok L ?n i b" using ok(1) unfolding heap_ok_def by blast
      then show ?thesis by (auto simp: ann_ok_def)
    qed
    moreover have "i = j" if "live (?A(?n \<mapsto> ?a)) v q i" "live (?A(?n \<mapsto> ?a)) v q j" for v q i j
      using that none ok(1) a unfolding live_put [of ?A, OF fresh] heap_ok_def by (auto split: if_splits)
    ultimately show ?thesis using fin unfolding heap_ok_def fields by simp
  qed
  moreover have "index_ok st'"
  proof -
    have new: "live (?A(?n \<mapsto> ?a)) w q i \<longleftrightarrow> (if w = ?w \<and> q = p then i = ?n else live ?A w q i)" for w q i
      using none fresh unfolding live_put [of ?A, OF fresh] a by (auto simp: live_def)
    have ix: "nested_ok (by_wtxid st)" "nested_ok (by_peer st)" "\<And>w q i. get2 (by_wtxid st) w q = Some i \<longleftrightarrow> live ?A w q i"
      "\<And>q w i. get2 (by_peer st) q w = Some i \<longleftrightarrow> live ?A w q i" using ok(2) by (auto simp: index_ok_def)
    have new': "live (?A(?n \<mapsto> ?a)) w q i \<longleftrightarrow> (if q = p \<and> w = ?w then i = ?n else live ?A w q i)" for q w i
      using new by auto
    show ?thesis unfolding index_ok_def fields
      using nested.put_agrees [of "by_wtxid st" "live ?A" "live (?A(?n \<mapsto> ?a))", OF ix(1,3) new]
        nested.put_agrees [of "by_peer st" "\<lambda>q w. live ?A w q" "\<lambda>q w. live (?A(?n \<mapsto> ?a)) w q", OF ix(2,4) new']
      by blast
  qed
  moreover have "uses_ok st'"
    using ok(3) unfolding uses_ok_def fields map_of_AList_update use_of_put [OF fin fresh] a
    by (auto simp: distinct_update Let_def fin fresh domIff)
  moreover have "marks_ok st'" using ok(4) unfolding marks_ok_def fields marked_put [of ?A, OF fresh a(3)] .
  ultimately show ?thesis
    using st' fields(1) new by (auto simp: announce_def Let_def get2_def simp del: fun_upd_apply)
qed

section \<open>Erasing one\<close>

lemma get2_erased:
  assumes "index_ok st" "anns st i = Some a"
  shows "get2 (by_wtxid st) (an_wtxid a) (an_announcer a) = Some i"
    "get2 (by_peer st) (an_announcer a) (an_wtxid a) = Some i"
  using assms unfolding index_ok_def live_def by blast+

lemma last_announcer:
  assumes "nested_ok d" "\<forall>v q k. get2 d v q = Some k \<longleftrightarrow> k \<noteq> i \<and> live A v q k"
  shows "map_of d w = None \<longleftrightarrow> \<not> (\<exists>p j. j \<noteq> i \<and> live A w p j)"
  using nested_key_iff [OF assms(1), of w] assms(2) by (metis not_None_eq)

lemma erase_last_totals:
  assumes ok: "heap_ok L st" "totals_ok L st" and a: "anns st i = Some a"
    and st1: "unique_weight st1 = unique_weight st" "unique_input_scores st1 = unique_input_scores st"
      "spenders st1 = spenders st" "anns st1 = (anns st)(i := None)"
    and last: "\<not> (\<exists>p j. j \<noteq> i \<and> live (anns st) (an_wtxid a) p j)"
  shows "\<exists>sp. erase_last a st1 = Some (st1\<lparr> unique_weight := unique_weight st1 - an_weight a,
      unique_input_scores := unique_input_scores st1 - (an_latency_score a - 1), spenders := sp \<rparr>)
    \<and> totals_ok L (st1\<lparr> unique_weight := unique_weight st1 - an_weight a,
      unique_input_scores := unique_input_scores st1 - (an_latency_score a - 1), spenders := sp \<rparr>)"
proof -
  let ?w = "an_wtxid a" and ?W = "wtxids (anns st)"
  have aok: "ann_ok L (next_sequence st) i a" and fin: "finite (dom (anns st))"
    using ok(1) a unfolding heap_ok_def by blast+
  have w: "?w \<in> ?W" using a by (auto simp: wtxids_def live_def)
  have W: "wtxids (anns st1) = ?W - {?w}" unfolding st1(4) using wtxids_del [of "anns st" i a] a last by simp
  have tx: "an_tx a = L ?w" "distinct (ot_vin (L ?w))" using aok by (auto simp: ann_ok_def)
  have "fold_opt (discard_spender ?w) (ot_vin (an_tx a)) (spenders st1) = Some (spent_by L (?W - {?w}))"
    using discard_spent_by [of L ?w ?W, OF tx(2) w] ok(2) tx(1) st1(3) by (simp add: totals_ok_def)
  then show ?thesis
    using ok(2) aok st1 W w wtxids_finite [OF fin] unfolding erase_last_def totals_ok_def
    by (auto simp: ann_ok_def sum_diff1)
qed

lemma erase_marks:
  assumes ok: "heap_ok L st" "marks_ok st" and a: "anns st i = Some a"
    and st1: "reconsiderable st1 = reconsiderable st" "anns st1 = (anns st)(i := None)"
  shows "\<exists>rc. erase_reconsiderable a st1 = Some (st1\<lparr> reconsiderable := rc \<rparr>)
    \<and> marks_ok (st1\<lparr> reconsiderable := rc \<rparr>)"
proof (cases "an_reconsider a")
  case True
  let ?rc = "AList.delete (an_wtxid a) (reconsiderable st)"
  have at: "map_of (reconsiderable st) (an_wtxid a) = Some (an_announcer a)"
    using ok(2) a True unfolding marks_ok_def marked_def by blast
  have one: "j = i" if "anns st j = Some b" "an_wtxid b = an_wtxid a" "an_reconsider b" for j b
  proof -
    have "map_of (reconsiderable st) (an_wtxid a) = Some (an_announcer b)"
      using ok(2) that unfolding marks_ok_def marked_def by blast
    with at that a have "live (anns st) (an_wtxid a) (an_announcer a) j" "live (anns st) (an_wtxid a) (an_announcer a) i"
      by (auto simp: live_def)
    then show ?thesis using ok(1) unfolding heap_ok_def by blast
  qed
  have "map_of ?rc v = Some q \<longleftrightarrow> marked (anns st1) v q" for v q
  proof (cases "v = an_wtxid a")
    case True
    with one show ?thesis by (auto simp: delete_conv' st1 marked_def)
  next
    case False
    then show ?thesis using ok(2) marked_del_other [of "anns st" i a v q] a
      by (simp add: delete_conv' st1 marks_ok_def)
  qed
  then have "marks_ok (st1\<lparr> reconsiderable := ?rc \<rparr>)"
    using ok(2) unfolding marks_ok_def by (simp add: distinct_delete)
  then show ?thesis using at True st1 by (auto simp: erase_reconsiderable_def)
next
  case False
  then have "erase_reconsiderable a st1 = Some (st1\<lparr> reconsiderable := reconsiderable st \<rparr>)"
    by (simp add: erase_reconsiderable_def flip: st1(1))
  moreover have "marks_ok (st1\<lparr> reconsiderable := reconsiderable st \<rparr>)"
    using ok(2) marked_del [of "anns st" i a] a False by (simp add: marks_ok_def st1)
  ultimately show ?thesis by blast
qed

lemma erase_ok:
  assumes ok: "orphans_ok L st" and a: "anns st i = Some a"
  shows "\<exists>st'. erase i st = Some st' \<and> orphans_ok L st' \<and> anns st' = (anns st)(i := None)
    \<and> max_global_latency_score st' = max_global_latency_score st
    \<and> reserved_peer_weight st' = reserved_peer_weight st \<and> next_sequence st' = next_sequence st"
proof -
  let ?w = "an_wtxid a" and ?p = "an_announcer a" and ?A = "anns st"
  note parts = orphans_okD [OF ok]
  have fin: "finite (dom ?A)" using parts(1) by (simp add: heap_ok_def)
  have nest: "nested_ok (by_wtxid st)" "nested_ok (by_peer st)" using parts(2) by (simp_all add: index_ok_def)
  have uniq: "live (?A(i := None)) v q k \<longleftrightarrow> live ?A v q k \<and> \<not> (v = ?w \<and> q = ?p)" for v q k
    using a parts(1) unfolding heap_ok_def live_del live_def by auto
  then have uniq': "live (?A(i := None)) v q k \<longleftrightarrow> live ?A v q k \<and> \<not> (q = ?p \<and> v = ?w)" for q v k by blast
  have at: "live ?A ?w ?p i" using a by (auto simp: live_def)
  have ix: "\<And>w q i. get2 (by_wtxid st) w q = Some i \<longleftrightarrow> live ?A w q i"
    "\<And>q w i. get2 (by_peer st) q w = Some i \<longleftrightarrow> live ?A w q i" using parts(2) by (auto simp: index_ok_def)
  obtain bp where bp: "del2 ?p ?w (by_peer st) = Some bp" "nested_ok bp"
    "\<forall>q v k. get2 bp q v = Some k \<longleftrightarrow> live (?A(i := None)) v q k"
    using nested.del_agrees [of "by_peer st" "\<lambda>q w. live ?A w q" ?p ?w i "\<lambda>q w. live (?A(i := None)) w q",
        OF nest(2) ix(2) at uniq'] by blast
  obtain bw where bw: "del2 ?w ?p (by_wtxid st) = Some bw" "nested_ok bw"
    "\<forall>v q k. get2 bw v q = Some k \<longleftrightarrow> live (?A(i := None)) v q k"
    using nested.del_agrees [of "by_wtxid st" "live ?A" ?w ?p i "live (?A(i := None))",
        OF nest(1) ix(1) at uniq] by blast
  obtain u where u: "map_of (peer_uses st) ?p = Some u" "use_of ?A ?p = Some u"
    using parts(3) owned_mem [of ?A, OF a] unfolding uses_ok_def use_of_def by fastforce
  obtain st1 where st1: "st1 = st\<lparr> anns := ?A(i := None),
      peer_uses := (if pu_count u - 1 = 0 then AList.delete ?p (peer_uses st)
        else AList.update ?p \<lparr> pu_weight = pu_weight u - an_weight a, pu_count = pu_count u - 1,
          pu_latency_score = pu_latency_score u - an_latency_score a \<rparr> (peer_uses st)),
      ann_total := ann_total st - 1, by_peer := bp, by_wtxid := bw \<rparr>" by simp
  have run: "erase i st = do { st2 \<leftarrow> (if map_of bw ?w = None then erase_last a st1 else Some st1); erase_reconsiderable a st2 }"
    using a u(1) bp(1) bw(1) by (simp add: erase_def Let_def st1 del: fun_upd_apply)
  have heap: "heap_ok L st1"
    using parts(1) fin unfolding heap_ok_def by (auto simp: st1 live_del simp del: fun_upd_apply) (auto split: if_splits)
  have index: "index_ok st1" using bw(2,3) bp(2,3) by (simp add: index_ok_def st1)
  have uses: "uses_ok st1"
  proof -
    have "int (card (dom ?A - {i})) = int (card (dom ?A)) - 1"
      using fin a by (metis One_nat_def Suc_pred add_diff_cancel_left' card_Diff_singleton card_gt_0_iff diff_add_cancel domI empty_iff of_nat_Suc)
    moreover have "map_of (peer_uses st1) q = use_of (?A(i := None)) q" for q
      using parts(3) u unfolding use_of_del [OF fin a u(2)] uses_ok_def
      by (simp add: st1 delete_conv')
    ultimately show ?thesis using parts(3) by (simp add: uses_ok_def st1 distinct_update distinct_delete)
  qed
  have st1s: "unique_weight st1 = unique_weight st" "unique_input_scores st1 = unique_input_scores st"
    "spenders st1 = spenders st" "anns st1 = ?A(i := None)" "reconsiderable st1 = reconsiderable st"
    by (simp_all add: st1)
  have last: "map_of bw ?w = None \<longleftrightarrow> \<not> (\<exists>p j. j \<noteq> i \<and> live ?A ?w p j)"
    using last_announcer [OF bw(2), of i ?A] bw(3) by (simp add: live_del)
  obtain st2 where st2: "(if map_of bw ?w = None then erase_last a st1 else Some st1) = Some st2"
    "totals_ok L st2" "anns st2 = anns st1" "next_sequence st2 = next_sequence st1" "by_wtxid st2 = by_wtxid st1"
    "by_peer st2 = by_peer st1" "peer_uses st2 = peer_uses st1" "ann_total st2 = ann_total st1"
    "reconsiderable st2 = reconsiderable st1" "max_global_latency_score st2 = max_global_latency_score st1"
    "reserved_peer_weight st2 = reserved_peer_weight st1"
  proof (cases "map_of bw ?w = None")
    case True
    from erase_last_totals [OF parts(1) parts(4) a st1s(1-4)] True last obtain sp where
      "erase_last a st1 = Some (st1\<lparr> unique_weight := unique_weight st1 - an_weight a,
        unique_input_scores := unique_input_scores st1 - (an_latency_score a - 1), spenders := sp \<rparr>)"
      "totals_ok L (st1\<lparr> unique_weight := unique_weight st1 - an_weight a,
        unique_input_scores := unique_input_scores st1 - (an_latency_score a - 1), spenders := sp \<rparr>)" by auto
    with True that show ?thesis by simp
  next
    case False
    have "totals_ok L st1"
      using parts(4) wtxids_del [of ?A i a] a False last unfolding totals_ok_def st1s by simp
    with False show ?thesis by (intro that [of st1]) auto
  qed
  have "anns st2 = ?A(i := None)" "reconsiderable st2 = reconsiderable st" using st2 st1s by simp_all
  from erase_marks [OF parts(1) parts(5) a this(2,1)] obtain rc where
    rc: "erase_reconsiderable a st2 = Some (st2\<lparr> reconsiderable := rc \<rparr>)" "marks_ok (st2\<lparr> reconsiderable := rc \<rparr>)"
    by auto
  have "orphans_ok L (st2\<lparr> reconsiderable := rc \<rparr>)"
    using heap index uses st2 rc(2) by (simp add: orphans_ok_def heap_ok_def index_ok_def uses_ok_def totals_ok_def)
  then show ?thesis using run st2 rc(1) st1s(4) by (simp add: st1)
qed

end
