(* ===== verification/Orphanage_Limits.thy ===== *)
theory Orphanage_Limits
  imports Orphanage_Index
begin

text \<open>
  \<open>_limit_orphans\<close>: where a global limit is exceeded some peer is over its share, so that the
  loop has a peer to evict from; it ends, with both limits restored, and the announcements it
  evicts are steps of \<open>evicts\<close>, each the oldest of a peer over its share at that moment.
\<close>

section \<open>Scores\<close>

definition total_score :: "int \<Rightarrow> int \<Rightarrow> peer_use \<Rightarrow> score" where
  "total_score ml mw u =
     max (of_int (pu_latency_score u) / of_int ml, - ml) (of_int (pu_weight u) / of_int mw, - mw)"

definition within_share :: "int \<Rightarrow> int \<Rightarrow> peer_use \<Rightarrow> bool" where
  "within_share ml mw u \<longleftrightarrow> pu_latency_score u \<le> ml \<and> pu_weight u \<le> mw"

lemma dos_score_total: "0 < ml \<Longrightarrow> 0 < mw \<Longrightarrow> dos_score u ml mw = Some (total_score ml mw u)"
  by (simp add: dos_score_def total_score_def)

lemma score_le_fst: "(x::score) \<le> y \<Longrightarrow> fst x \<le> fst y"
  by (auto simp: less_eq_prod_def)

lemma fst_max_score: "fst (max x (y::score)) = max (fst x) (fst y)"
  using score_le_fst [of x y] score_le_fst [of y x] by (auto simp: max_def not_le intro: antisym)

lemma over_share_score:
  assumes "0 < ml" "0 < mw"
  shows "1 < fst (total_score ml mw u) \<longleftrightarrow> \<not> within_share ml mw u"
  using assms by (auto simp: total_score_def within_share_def fst_max_score less_divide_eq_1 less_max_iff_disj)

section \<open>Shares and limits\<close>

definition over_share :: "int \<Rightarrow> int \<Rightarrow> orphanage \<Rightarrow> int \<Rightarrow> bool" where
  "over_share ml mw st p \<longleftrightarrow> (\<exists>u. map_of (peer_uses st) p = Some u \<and> \<not> within_share ml mw u)"

definition holders :: "orphanage \<Rightarrow> int set" where
  "holders st = {p. owned (anns st) p \<noteq> {}}"

lemma holders_uses:
  assumes "uses_ok st"
  shows "holders st = set (map fst (peer_uses st))" "length (peer_uses st) = card (holders st)"
proof -
  have "p \<in> holders st \<longleftrightarrow> map_of (peer_uses st) p \<noteq> None" for p
    using assms use_of_None_iff [of "anns st" p] by (simp add: holders_def uses_ok_def)
  then show eq: "holders st = set (map fst (peer_uses st))"
    by (auto simp: map_of_eq_None_iff simp del: not_None_eq)
  show "length (peer_uses st) = card (holders st)"
    using assms distinct_card [of "map fst (peer_uses st)"] unfolding eq uses_ok_def by simp
qed

lemma holders_sum:
  assumes "finite (dom A)"
  shows "(\<Sum>p\<in>{p. owned A p \<noteq> {}}. \<Sum>i\<in>owned A p. f (the (A i))) = (\<Sum>i\<in>dom A. f (the (A i)) :: int)"
proof -
  have P: "{p. owned A p \<noteq> {}} = (\<lambda>i. an_announcer (the (A i))) ` dom A"
    by (force simp: owned_def)
  have "(\<Sum>i\<in>dom A. f (the (A i))) = (\<Sum>p\<in>(\<lambda>i. an_announcer (the (A i))) ` dom A.
      \<Sum>i\<in>{i \<in> dom A. an_announcer (the (A i)) = p}. f (the (A i)))"
    by (rule sum.image_gen [OF assms])
  moreover have "{i \<in> dom A. an_announcer (the (A i)) = p} = owned A p" for p
    by (auto simp: owned_def)
  ultimately show ?thesis using P by simp
qed

lemma wtxids_sum_le:
  assumes "finite (dom A)" "\<And>w. 0 \<le> f w"
  shows "(\<Sum>w\<in>wtxids A. f w) \<le> (\<Sum>i\<in>dom A. f (an_wtxid (the (A i))) :: int)"
proof -
  have "wtxids A = (\<lambda>i. an_wtxid (the (A i))) ` dom A" by (force simp: wtxids_def live_def)
  with sum_image_le [OF assms(1), of f "\<lambda>i. an_wtxid (the (A i))"] assms(2) show ?thesis by simp
qed

lemma limits_from_shares:
  assumes ok: "orphans_ok L st" and within: "\<And>p. \<not> over_share ml mw st p"
    and n: "length (peer_uses st) \<le> n" and ml: "ml = max_global_latency_score st div max (int n) 1" "0 \<le> ml"
    and mw: "mw = reserved_peer_weight st" "0 \<le> mw"
  shows "\<not> needs_trim st"
proof -
  let ?A = "anns st" and ?P = "holders st"
  note parts = orphans_okD [OF ok]
  have fin: "finite (dom ?A)" using parts(1) by (simp add: heap_ok_def)
  have P: "finite ?P" "length (peer_uses st) = card ?P" using holders_uses [OF parts(3)] by simp_all
  have aok: "ann_ok L (next_sequence st) i (the (?A i))" if "i \<in> dom ?A" for i
    using that parts(1) by (auto simp: heap_ok_def)
  have use: "(\<Sum>i\<in>owned ?A p. an_latency_score (the (?A i))) \<le> ml \<and> (\<Sum>i\<in>owned ?A p. an_weight (the (?A i))) \<le> mw"
    if "p \<in> ?P" for p
    using that within [of p] parts(3) unfolding holders_def over_share_def within_share_def uses_ok_def use_of_def by auto
  have lat: "(\<Sum>i\<in>dom ?A. an_latency_score (the (?A i))) \<le> int (card ?P) * ml"
    using sum_bounded_above [of ?P "\<lambda>p. \<Sum>i\<in>owned ?A p. an_latency_score (the (?A i))" ml] use
      holders_sum [OF fin, of an_latency_score] by (simp add: holders_def)
  have wei: "(\<Sum>i\<in>dom ?A. an_weight (the (?A i))) \<le> int (card ?P) * mw"
    using sum_bounded_above [of ?P "\<lambda>p. \<Sum>i\<in>owned ?A p. an_weight (the (?A i))" mw] use
      holders_sum [OF fin, of an_weight] by (simp add: holders_def)
  have "unique_input_scores st + ann_total st \<le> (\<Sum>i\<in>dom ?A. an_latency_score (the (?A i)))"
  proof -
    have "unique_input_scores st \<le> (\<Sum>i\<in>dom ?A. int (length (ot_vin (L (an_wtxid (the (?A i)))))) div 10)"
      using parts(4) wtxids_sum_le [OF fin, of "\<lambda>w. int (length (ot_vin (L w))) div 10"] by (simp add: totals_ok_def)
    also have "\<dots> = (\<Sum>i\<in>dom ?A. an_latency_score (the (?A i)) - 1)"
      using aok by (intro sum.cong) (auto simp: ann_ok_def)
    also have "\<dots> = (\<Sum>i\<in>dom ?A. an_latency_score (the (?A i))) - int (card (dom ?A))"
      by (simp add: sum_subtractf)
    finally show ?thesis using parts(3) by (simp add: uses_ok_def)
  qed
  moreover have "unique_weight st \<le> (\<Sum>i\<in>dom ?A. an_weight (the (?A i)))"
  proof -
    have "0 \<le> ot_weight (L w)" if "w \<in> wtxids ?A" for w
    proof -
      from that obtain i a where "?A i = Some a" "an_wtxid a = w" by (auto simp: wtxids_def live_def)
      with aok [OF domI, of i a] show ?thesis by (auto simp: ann_ok_def)
    qed
    then have "unique_weight st = (\<Sum>w\<in>wtxids ?A. max 0 (ot_weight (L w)))"
      using parts(4) unfolding totals_ok_def by (auto intro!: sum.cong)
    also have "\<dots> \<le> (\<Sum>i\<in>dom ?A. max 0 (ot_weight (L (an_wtxid (the (?A i))))))"
      by (rule wtxids_sum_le [OF fin]) simp
    also have "\<dots> = (\<Sum>i\<in>dom ?A. an_weight (the (?A i)))"
    proof (intro sum.cong refl)
      fix i
      assume "i \<in> dom ?A"
      from aok [OF this] show "max 0 (ot_weight (L (an_wtxid (the (?A i))))) = an_weight (the (?A i))"
        unfolding ann_ok_def by (metis max.absorb2)
    qed
    finally show ?thesis .
  qed
  moreover have "int (card ?P) * ml \<le> max_global_latency_score st"
  proof -
    have "int (card ?P) * ml \<le> max (int n) 1 * ml"
      using n ml(2) by (intro mult_right_mono) (simp_all add: P(2))
    also have "\<dots> \<le> max_global_latency_score st"
      unfolding ml(1) using pos_mod_sign [of "max (int n) 1" "max_global_latency_score st"]
        mult_div_mod_eq [of "max (int n) 1" "max_global_latency_score st"] by linarith
    finally show ?thesis .
  qed
  moreover have "int (card ?P) * mw \<le> mw * max (int (card ?P)) 1"
    using mw(2) by (subst mult.commute) (intro mult_left_mono, simp_all)
  ultimately show ?thesis using lat wei P(2) mw(1) by (simp add: needs_trim_def)
qed

section \<open>Evictions\<close>

definition oldest_of :: "orphanage \<Rightarrow> int \<Rightarrow> bool" where
  "oldest_of st i \<longleftrightarrow> (\<forall>j\<in>owned (anns st) (an_announcer (ann_at st i)). eviction_key st i \<le> eviction_key st j)"

inductive evicts :: "int \<Rightarrow> int \<Rightarrow> orphanage \<Rightarrow> orphanage \<Rightarrow> bool" for ml mw where
  evicts_refl: "evicts ml mw st st"
| evicts_step: "evicts ml mw st s \<Longrightarrow> anns s i = Some a \<Longrightarrow> needs_trim s \<Longrightarrow>
    over_share ml mw s (an_announcer a) \<Longrightarrow> oldest_of s i \<Longrightarrow> erase i s = Some s' \<Longrightarrow> evicts ml mw st s'"

lemma evicts_trans: "evicts ml mw s t \<Longrightarrow> evicts ml mw st s \<Longrightarrow> evicts ml mw st t"
  by (induction rule: evicts.induct) (auto intro: evicts_step)

text \<open>What stays of a peer's use and of an announcement where one is erased.\<close>

lemma erase_uses:
  assumes ok: "orphans_ok L st" "anns st i = Some a" and st': "orphans_ok L st'" "anns st' = (anns st)(i := None)"
  shows "p \<noteq> an_announcer a \<Longrightarrow> map_of (peer_uses st') p = map_of (peer_uses st) p"
    "length (peer_uses st') \<le> length (peer_uses st)"
    "card (dom (anns st')) < card (dom (anns st))"
    "j \<noteq> i \<Longrightarrow> ann_at st' j = ann_at st j" "j \<noteq> i \<Longrightarrow> eviction_key st' j = eviction_key st j"
    "owned (anns st') (an_announcer a) = owned (anns st) (an_announcer a) - {i}"
proof -
  note u = orphans_okD(3) [OF ok(1)] orphans_okD(3) [OF st'(1)]
  have fin: "finite (dom (anns st))" using orphans_okD(1) [OF ok(1)] by (simp add: heap_ok_def)
  show "p \<noteq> an_announcer a \<Longrightarrow> map_of (peer_uses st') p = map_of (peer_uses st) p"
    using u use_of_del [OF fin ok(2)] owned_mem [of "anns st", OF ok(2)]
    unfolding uses_ok_def st'(2) by (metis use_of_None_iff empty_iff option.exhaust)
  have "holders st' \<subseteq> holders st" using owned_del [of "anns st" i a] ok(2) unfolding holders_def st'(2) by auto
  moreover have "finite (holders st)" using holders_uses(1) [OF u(1)] by simp
  ultimately show "length (peer_uses st') \<le> length (peer_uses st)"
    unfolding holders_uses(2) [OF u(1)] holders_uses(2) [OF u(2)] by (rule card_mono [rotated])
  show "card (dom (anns st')) < card (dom (anns st))"
    using fin ok(2) unfolding st'(2) by (simp add: card_Diff1_less domI del: card_Diff_insert)
  show at: "j \<noteq> i \<Longrightarrow> ann_at st' j = ann_at st j" by (simp add: ann_at_def st'(2))
  show "j \<noteq> i \<Longrightarrow> eviction_key st' j = eviction_key st j" using at by (simp add: eviction_key_def)
  show "owned (anns st') (an_announcer a) = owned (anns st) (an_announcer a) - {i}"
    unfolding st'(2) using owned_del [of "anns st" i a "an_announcer a"] ok(2) by simp
qed

text \<open>What \<open>over\<close> holds, of all peers but the one being trimmed.\<close>

definition tracks :: "int \<Rightarrow> int \<Rightarrow> int set \<Rightarrow> orphanage \<Rightarrow> (int, score) dict \<Rightarrow> bool" where
  "tracks ml mw X st over \<longleftrightarrow> distinct (map fst over)
     \<and> (\<forall>p u. p \<notin> X \<longrightarrow> map_of (peer_uses st) p = Some u \<longrightarrow> \<not> within_share ml mw u
          \<longrightarrow> map_of over p = Some (total_score ml mw u))
     \<and> (\<forall>p s. map_of over p = Some s \<longrightarrow> p \<notin> X \<and> (\<exists>u. map_of (peer_uses st) p = Some u \<and> s = total_score ml mw u))"

definition shares_hold :: "nat \<Rightarrow> int \<Rightarrow> int \<Rightarrow> (bytes \<Rightarrow> orphan_tx) \<Rightarrow> orphanage \<Rightarrow> bool" where
  "shares_hold n ml mw L st \<longleftrightarrow> orphans_ok L st \<and> length (peer_uses st) \<le> n
     \<and> ml = max_global_latency_score st div max (int n) 1 \<and> mw = reserved_peer_weight st \<and> 0 < ml \<and> 0 < mw"

lemma someone_over:
  assumes "shares_hold n ml mw L st" "needs_trim st"
  shows "\<exists>p. over_share ml mw st p"
  using limits_from_shares [of L st ml mw n] assms unfolding shares_hold_def by force

lemma over_threshold_ge:
  assumes "map_of over p = Some s"
  shows "s \<le> over_threshold over"
proof -
  have "s \<in> set (map snd over)" using map_of_SomeD [OF assms] by force
  then show ?thesis by (auto simp: over_threshold_def intro: Max_ge)
qed

lemma shares_hold_erase:
  assumes "shares_hold n ml mw L st" "anns st i = Some a"
  shows "\<exists>st'. erase i st = Some st' \<and> shares_hold n ml mw L st' \<and> anns st' = (anns st)(i := None)"
proof -
  have ok: "orphans_ok L st" using assms(1) by (simp add: shares_hold_def)
  obtain st' where st': "erase i st = Some st'" "orphans_ok L st'" "anns st' = (anns st)(i := None)"
    "max_global_latency_score st' = max_global_latency_score st" "reserved_peer_weight st' = reserved_peer_weight st"
    using erase_ok [OF ok assms(2)] by auto
  with erase_uses(2) [OF ok assms(2) st'(2,3)] assms(1) show ?thesis by (auto simp: shares_hold_def)
qed

section \<open>The loops\<close>

lemma tracks_erase:
  assumes tr: "tracks ml mw {p} st over" and p: "p = an_announcer a"
    and uses: "\<And>q. q \<noteq> p \<Longrightarrow> map_of (peer_uses st') q = map_of (peer_uses st) q"
  shows "tracks ml mw {p} st' over"
    "map_of (peer_uses st') p = None \<Longrightarrow> tracks ml mw {} st' over"
    "map_of (peer_uses st') p = Some u \<Longrightarrow> tracks ml mw {} st' (AList.update p (total_score ml mw u) over)"
proof -
  show one: "tracks ml mw {p} st' over"
    using tr uses unfolding tracks_def by (metis insertCI singletonD)
  show "map_of (peer_uses st') p = None \<Longrightarrow> tracks ml mw {} st' over"
    using one unfolding tracks_def by (metis empty_iff insertE option.distinct(1))
  show "map_of (peer_uses st') p = Some u \<Longrightarrow> tracks ml mw {} st' (AList.update p (total_score ml mw u) over)"
    using one unfolding tracks_def map_of_AList_update by (simp add: distinct_update)
qed

lemma over_share_if_above:
  assumes "shares_hold n ml mw L st" "needs_trim st" "tracks ml mw {p} st over"
    and "map_of (peer_uses st) p = Some u" "over_threshold over < total_score ml mw u"
  shows "over_share ml mw st p"
proof -
  obtain q where q: "over_share ml mw st q" using someone_over [OF assms(1,2)] ..
  show ?thesis
  proof (cases "q = p")
    case False
    obtain v where v: "map_of (peer_uses st) q = Some v" "\<not> within_share ml mw v"
      using q by (auto simp: over_share_def)
    then have "map_of over q = Some (total_score ml mw v)" using assms(3) False by (auto simp: tracks_def)
    then have "total_score ml mw v < total_score ml mw u" using over_threshold_ge assms(5) by (meson le_less_trans)
    then have "fst (total_score ml mw v) \<le> fst (total_score ml mw u)" by (intro score_le_fst) simp
    moreover have "1 < fst (total_score ml mw v)"
      using v(2) over_share_score assms(1) by (simp add: shares_hold_def)
    ultimately have "1 < fst (total_score ml mw u)" by simp
    then show ?thesis using over_share_score assms(1,4) by (auto simp: shares_hold_def over_share_def)
  qed (use q in simp)
qed

definition trim_queue :: "orphanage \<Rightarrow> int \<Rightarrow> int list \<Rightarrow> bool" where
  "trim_queue st p ids \<longleftrightarrow> distinct ids \<and> set ids = owned (anns st) p
     \<and> sorted_wrt (\<lambda>i j. eviction_key st i \<le> eviction_key st j) ids"

lemma trim_queue_Cons:
  assumes "trim_queue st p (i # ids)"
  shows "anns st i \<noteq> None" "an_announcer (ann_at st i) = p" "oldest_of st i"
proof -
  have "i \<in> owned (anns st) p" using assms by (auto simp: trim_queue_def)
  then show "anns st i \<noteq> None" and p: "an_announcer (ann_at st i) = p" by (auto simp: owned_def ann_at_def)
  show "oldest_of st i" unfolding oldest_of_def p using assms by (auto simp: trim_queue_def)
qed

lemma trim_queue_erase:
  assumes "trim_queue st p (i # ids)" "\<And>j. j \<noteq> i \<Longrightarrow> eviction_key st' j = eviction_key st j"
    "owned (anns st') p = owned (anns st) p - {i}"
  shows "trim_queue st' p ids"
proof -
  have "j \<noteq> i" if "j \<in> set ids" for j using that assms(1) by (auto simp: trim_queue_def)
  then have "sorted_wrt (\<lambda>i j. eviction_key st' i \<le> eviction_key st' j) ids"
    using assms(1,2) by (auto simp: trim_queue_def elim!: sorted_wrt_mono_rel [rotated])
  then show ?thesis using assms(1,3) by (auto simp: trim_queue_def)
qed

lemma evict_oldest_spec:
  assumes "shares_hold n ml mw L st" "tracks ml mw {p} st over" "trim_queue st p ids"
    and "needs_trim st \<Longrightarrow> over_share ml mw st p"
  shows "\<exists>st' over'. evict_oldest ml mw p (over_threshold over) ids st over = Some (st', over')
    \<and> shares_hold n ml mw L st' \<and> evicts ml mw st st' \<and> (needs_trim st' \<longrightarrow> tracks ml mw {} st' over')
    \<and> card (dom (anns st')) \<le> card (dom (anns st))
    \<and> (needs_trim st \<longrightarrow> card (dom (anns st')) < card (dom (anns st)))"
  using assms
proof (induction ids arbitrary: st)
  case Nil
  then have "owned (anns st) p = {}" "uses_ok st" by (simp_all add: trim_queue_def shares_hold_def orphans_ok_def)
  then have "\<not> over_share ml mw st p" by (auto simp: over_share_def uses_ok_def use_of_def)
  then show ?case using Nil by (auto intro: evicts_refl)
next
  case (Cons i ids)
  show ?case
  proof (cases "needs_trim st")
    case False
    with Cons.prems show ?thesis by (auto intro: evicts_refl)
  next
    case True
    note q = trim_queue_Cons [OF Cons.prems(3)]
    obtain a where a: "anns st i = Some a" "an_announcer a = p" using q by (auto simp: ann_at_def)
    obtain st1 where st1: "erase i st = Some st1" "shares_hold n ml mw L st1" "anns st1 = (anns st)(i := None)"
      using shares_hold_erase [OF Cons.prems(1) a(1)] by auto
    have ok: "orphans_ok L st" "orphans_ok L st1" "0 < ml" "0 < mw"
      using Cons.prems(1) st1(2) by (simp_all add: shares_hold_def)
    note e = erase_uses [OF ok(1) a(1) ok(2) st1(3), unfolded a(2)]
    note tr = tracks_erase [OF Cons.prems(2) a(2) [symmetric] e(1)]
    have ev: "evicts ml mw st st1"
      using evicts_step [OF evicts_refl a(1) True _ q(3) st1(1)] Cons.prems(4) [OF True] a(2) by simp
    show ?thesis
    proof (cases "map_of (peer_uses st1) p")
      case None
      then show ?thesis using True st1 ev tr(2) e(3) by auto
    next
      case (Some u)
      show ?thesis
      proof (cases "total_score ml mw u \<le> over_threshold over")
        case True
        then show ?thesis using \<open>needs_trim st\<close> Some st1 ev tr(3) e(3) ok(3,4) by (auto simp: dos_score_total)
      next
        case False
        have "over_share ml mw st1 p" if "needs_trim st1"
          using over_share_if_above [OF st1(2) that tr(1) Some] False by simp
        from Cons.IH [OF st1(2) tr(1) trim_queue_erase [OF Cons.prems(3) e(5,6)] this]
        obtain st' over' where "evict_oldest ml mw p (over_threshold over) ids st1 over = Some (st', over')"
          "shares_hold n ml mw L st'" "evicts ml mw st1 st'" "needs_trim st' \<longrightarrow> tracks ml mw {} st' over'"
          "card (dom (anns st')) \<le> card (dom (anns st1))" by auto
        with \<open>needs_trim st\<close> Some st1(1) ev e(3) ok(3,4) False show ?thesis
          by (auto simp: dos_score_total intro: evicts_trans)
      qed
    qed
  qed
qed

lemma worst_peer_spec:
  assumes "over \<noteq> []" "distinct (map fst over)"
  shows "\<exists>p s. worst_peer over = Some p \<and> map_of over p = Some s \<and> (\<forall>q t. map_of over q = Some t \<longrightarrow> t \<le> s)"
proof -
  let ?K = "set (map (\<lambda>(p, s). (s, p)) over)"
  obtain s p where m: "Max ?K = (s, p)" by fastforce
  have "Max ?K \<in> ?K" using assms(1) by (intro Max_in) auto
  then have at: "map_of over p = Some s" using assms(2) m by auto
  have "t \<le> s" if "map_of over q = Some t" for q t
  proof -
    have "(t, q) \<in> ?K" using map_of_SomeD [OF that] by force
    then have "(t, q) \<le> (s, p)" using m by (metis List.finite_set Max_ge)
    then show ?thesis unfolding less_eq_prod_def [of "(t, q)"] by auto
  qed
  moreover have "worst_peer over = Some p" unfolding worst_peer_def using assms(1) m by simp
  ultimately show ?thesis using at by blast
qed

lemma tracks_delete:
  "tracks ml mw {} st over \<Longrightarrow> tracks ml mw {p} st (AList.delete p over)"
  unfolding tracks_def delete_conv' by (auto simp: distinct_delete split: if_splits)

lemma trim_queue_start:
  assumes ok: "orphans_ok L st" and p: "over_share ml mw st p"
  shows "\<exists>m. map_of (by_peer st) p = Some m \<and> trim_queue st p (sort_key (eviction_key st) (map snd m))"
proof -
  note parts = orphans_okD [OF ok]
  have nest: "nested_ok (by_peer st)" using parts(2) by (simp add: index_ok_def)
  have "owned (anns st) p \<noteq> {}" using p parts(3) by (auto simp: over_share_def uses_ok_def use_of_def split: if_splits)
  then obtain i a where "anns st i = Some a" "an_announcer a = p" by (auto simp: owned_def)
  then have "get2 (by_peer st) p (an_wtxid a) \<noteq> None" using get2_erased(2) [OF parts(2)] by fastforce
  then have m: "map_of (by_peer st) p = Some (inner (by_peer st) p)"
    using nested_key_iff [OF nest, of p] map_of_nested [OF nest, of p] by auto
  have mem: "(w, i) \<in> set (inner (by_peer st) p) \<longleftrightarrow> live (anns st) w p i" for w i
    using inner_mem [OF nest] parts(2) by (simp add: index_ok_def)
  have "inj_on snd (set (inner (by_peer st) p))"
    using mem by (auto simp: inj_on_def live_def)
  moreover have "distinct (inner (by_peer st) p)"
    using nested_inner_distinct [OF nest] by (simp add: distinct_map)
  ultimately have "distinct (map snd (inner (by_peer st) p))" by (simp add: distinct_map)
  moreover have "set (map snd (inner (by_peer st) p)) = owned (anns st) p"
    using mem by (force simp: owned_def live_def)
  moreover have "sorted_wrt (\<lambda>i j. eviction_key st i \<le> eviction_key st j) (sort_key (eviction_key st) xs)" for xs
    using sorted_sort_key [of "eviction_key st" xs] by (simp add: sorted_map)
  ultimately show ?thesis using m by (auto simp: trim_queue_def)
qed

lemma trim_loop_spec:
  assumes "shares_hold n ml mw L st" "needs_trim st \<Longrightarrow> tracks ml mw {} st over"
  shows "\<exists>st'. trim_loop ml mw over st = Some st' \<and> shares_hold n ml mw L st' \<and> \<not> needs_trim st' \<and> evicts ml mw st st'"
  using assms
proof (induction "card (dom (anns st))" arbitrary: st over rule: less_induct)
  case less
  show ?case
  proof (cases "needs_trim st")
    case False
    then show ?thesis using less.prems by (subst trim_loop.simps) (auto intro: evicts_refl)
  next
    case True
    have ok: "orphans_ok L st" "0 < ml" "0 < mw" using less.prems(1) by (simp_all add: shares_hold_def)
    note tr = less.prems(2) [OF True]
    obtain q where q: "over_share ml mw st q" using someone_over [OF less.prems(1) True] ..
    then obtain v where "map_of (peer_uses st) q = Some v" "\<not> within_share ml mw v" by (auto simp: over_share_def)
    then have v: "map_of over q = Some (total_score ml mw v)" "\<not> within_share ml mw v"
      using tr unfolding tracks_def by blast+
    then have "over \<noteq> []" by auto
    then obtain p s where p: "worst_peer over = Some p" "map_of over p = Some s" "total_score ml mw v \<le> s"
      using worst_peer_spec [of over] tr v(1) unfolding tracks_def by blast
    obtain u where u: "map_of (peer_uses st) p = Some u" "s = total_score ml mw u"
      using tr p(2) unfolding tracks_def by blast
    have "1 < fst s"
      using score_le_fst [OF p(3)] over_share_score [OF ok(2,3), of v] v(2) by simp
    then have over: "over_share ml mw st p" using over_share_score [OF ok(2,3), of u] u by (auto simp: over_share_def)
    obtain m where m: "map_of (by_peer st) p = Some m" "trim_queue st p (sort_key (eviction_key st) (map snd m))"
      using trim_queue_start [OF ok(1) over] by blast
    from evict_oldest_spec [OF less.prems(1) tracks_delete [OF tr] m(2) over] obtain st1 over1 where
      st1: "evict_oldest ml mw p (over_threshold (AList.delete p over)) (sort_key (eviction_key st) (map snd m)) st (AList.delete p over) = Some (st1, over1)"
      "shares_hold n ml mw L st1" "evicts ml mw st st1" "needs_trim st1 \<longrightarrow> tracks ml mw {} st1 over1"
      "card (dom (anns st1)) < card (dom (anns st))" using True by auto
    from less.hyps [OF st1(5,2)] st1(4) obtain st' where
      "trim_loop ml mw over1 st1 = Some st'" "shares_hold n ml mw L st'" "\<not> needs_trim st'" "evicts ml mw st1 st'" by blast
    then show ?thesis using st1 True p(1) m(1) by (subst trim_loop.simps) (auto simp: Let_def intro: evicts_trans)
  qed
qed

lemma add_over_spec:
  assumes "0 < ml" "0 < mw" "distinct (map fst us)"
  shows "\<exists>over. fold_opt (add_over ml mw) us over0 = Some over
    \<and> (distinct (map fst over0) \<longrightarrow> distinct (map fst over))
    \<and> (\<forall>p. map_of over p = (case map_of us p of
         Some u \<Rightarrow> if within_share ml mw u then map_of over0 p else Some (total_score ml mw u)
       | None \<Rightarrow> map_of over0 p))"
  using assms(3)
proof (induction us arbitrary: over0)
  case Nil
  then show ?case by simp
next
  case (Cons x us)
  obtain p u where x: "x = (p, u)" by fastforce
  obtain over1 where over1: "over1 = (if within_share ml mw u then over0 else AList.update p (total_score ml mw u) over0)" by simp
  have run: "add_over ml mw x over0 = Some over1"
    using over_share_score [OF assms(1,2), of u]
    by (simp add: add_over_def x dos_score_total [OF assms(1,2)] over1)
  have none: "map_of us p = None" using Cons.prems x by (simp add: map_of_eq_None_iff)
  from Cons.IH [of over1] Cons.prems obtain over where
    over: "fold_opt (add_over ml mw) us over1 = Some over" "distinct (map fst over1) \<longrightarrow> distinct (map fst over)"
    "\<forall>q. map_of over q = (case map_of us q of
         Some u \<Rightarrow> if within_share ml mw u then map_of over1 q else Some (total_score ml mw u)
       | None \<Rightarrow> map_of over1 q)" by auto
  have "map_of over q = (case map_of (x # us) q of
      Some u \<Rightarrow> if within_share ml mw u then map_of over0 q else Some (total_score ml mw u)
    | None \<Rightarrow> map_of over0 q)" for q
    using over(3) none by (cases "q = p"; cases "map_of us q") (auto simp: x over1)
  with over(1,2) run show ?case by (auto simp: over1 distinct_update)
qed

lemma limit_orphans_spec:
  assumes ok: "orphans_ok L st" and R: "0 < reserved_peer_weight st"
    and n: "int (length (peer_uses st)) \<le> max_global_latency_score st" "0 < max_global_latency_score st"
  shows "\<exists>st'. limit_orphans st = Some st' \<and> orphans_ok L st' \<and> \<not> needs_trim st'
    \<and> evicts (max_peer_latency_score st) (reserved_peer_weight st) st st'"
proof -
  let ?ml = "max_peer_latency_score st" and ?mw = "reserved_peer_weight st"
  have "1 * max (int (length (peer_uses st))) 1 \<le> max_global_latency_score st" using n by simp
  then have ml: "0 < ?ml" unfolding max_peer_latency_score_def
    by (metis max.strict_coboundedI2 pos_imp_zdiv_pos_iff zero_less_one mult_1)
  have d: "distinct (map fst (peer_uses st))" using orphans_okD(3) [OF ok] by (simp add: uses_ok_def)
  obtain over where over: "fold_opt (add_over ?ml ?mw) (peer_uses st) [] = Some over" "distinct (map fst over)"
    "\<forall>p. map_of over p = (case map_of (peer_uses st) p of
       Some u \<Rightarrow> if within_share ?ml ?mw u then None else Some (total_score ?ml ?mw u) | None \<Rightarrow> None)"
    using add_over_spec [OF ml R d, of "[]"] by (auto simp only: map_of.simps list.map distinct.simps simp_thms)
  have "shares_hold (length (peer_uses st)) ?ml ?mw L st"
    using ok ml R by (simp add: shares_hold_def max_peer_latency_score_def)
  moreover have "tracks ?ml ?mw {} st over"
    using over(2,3) by (auto simp: tracks_def split: option.splits if_splits)
  ultimately show ?thesis
    using trim_loop_spec [of "length (peer_uses st)" ?ml ?mw L st over] over(1)
    by (auto simp: limit_orphans_def Let_def shares_hold_def)
qed

end
