(* ===== verification/Orphanage_Operations.thy ===== *)
theory Orphanage_Operations
  imports Orphanage_Limits
begin

text \<open>
  What the public operations of the orphanage do to the announcements, from the lemmas on
  recording, erasing and evicting one: none raises and the invariant is kept.
\<close>

section \<open>A bounded set of peers\<close>

definition bounded :: "(bytes \<Rightarrow> orphan_tx) \<Rightarrow> int set \<Rightarrow> int \<Rightarrow> int \<Rightarrow> orphanage \<Rightarrow> bool" where
  "bounded L P G R st \<longleftrightarrow> orphans_ok L st \<and> holders st \<subseteq> P
     \<and> max_global_latency_score st = G \<and> reserved_peer_weight st = R"

definition limits_usable :: "int set \<Rightarrow> int \<Rightarrow> int \<Rightarrow> bool" where
  \<comment> \<open>each peer's share is at least one announcement\<close>
  "limits_usable P G R \<longleftrightarrow> finite P \<and> int (card P) \<le> G \<and> 0 < G \<and> 0 < R"

lemma holders_shrink: "anns st' \<subseteq>\<^sub>m anns st \<Longrightarrow> holders st' \<subseteq> holders st"
  by (fastforce simp: holders_def owned_def map_le_def dom_def)

lemma erase_bounded:
  assumes "bounded L P G R st" "anns st i = Some a"
  shows "\<exists>st'. erase i st = Some st' \<and> bounded L P G R st' \<and> anns st' = (anns st)(i := None)"
proof -
  have ok: "orphans_ok L st" using assms(1) by (simp add: bounded_def)
  obtain st' where st': "erase i st = Some st'" "orphans_ok L st'" "anns st' = (anns st)(i := None)"
    "max_global_latency_score st' = max_global_latency_score st" "reserved_peer_weight st' = reserved_peer_weight st"
    using erase_ok [OF ok assms(2)] by auto
  have "anns st' \<subseteq>\<^sub>m anns st" by (simp add: st'(3) map_le_def)
  from holders_shrink [OF this] st' assms(1) show ?thesis by (auto simp: bounded_def)
qed

lemma evicts_bounded:
  "evicts ml mw st st' \<Longrightarrow> bounded L P G R st \<Longrightarrow> bounded L P G R st' \<and> anns st' \<subseteq>\<^sub>m anns st"
proof (induction rule: evicts.induct)
  case (evicts_step st s i a s')
  then have s: "bounded L P G R s" "anns s \<subseteq>\<^sub>m anns st" by auto
  then have "bounded L P G R s'" "anns s' = (anns s)(i := None)"
    using erase_bounded [OF s(1) evicts_step.hyps(2)] evicts_step.hyps(6) by auto
  with s(2) show ?case by (auto simp: map_le_def)
qed simp

lemma limit_bounded:
  assumes "bounded L P G R st" "limits_usable P G R"
  shows "\<exists>st'. limit_orphans st = Some st' \<and> bounded L P G R st' \<and> \<not> needs_trim st' \<and> anns st' \<subseteq>\<^sub>m anns st
    \<and> evicts (max_peer_latency_score st) R st st'"
proof -
  have ok: "orphans_ok L st" using assms(1) by (simp add: bounded_def)
  have "card (holders st) \<le> card P" using assms by (auto simp: bounded_def limits_usable_def intro: card_mono)
  then have "int (length (peer_uses st)) \<le> max_global_latency_score st"
    using holders_uses(2) [OF orphans_okD(3) [OF ok]] assms by (simp add: bounded_def limits_usable_def)
  then show ?thesis
    using limit_orphans_spec [OF ok] evicts_bounded [OF _ assms(1)] assms
    unfolding bounded_def limits_usable_def by metis
qed

text \<open>What is evicted was of a peer over its share, and is older than what the peer keeps.\<close>

lemma evicts_fair:
  assumes "evicts ml mw st st'" "bounded L P G R st"
  shows "(\<forall>p. \<not> over_share ml mw st p \<longrightarrow> map_of (peer_uses st') p = map_of (peer_uses st) p \<and> owned (anns st') p = owned (anns st) p)
    \<and> (\<forall>i j a b. anns st i = Some a \<longrightarrow> anns st' i = None \<longrightarrow> anns st' j = Some b \<longrightarrow> an_announcer b = an_announcer a
          \<longrightarrow> (an_reconsider a, an_sequence a) < (an_reconsider b, an_sequence b))"
  using assms
proof (induction rule: evicts.induct)
  case (evicts_step st s i a s')
  have s: "bounded L P G R s" "anns s \<subseteq>\<^sub>m anns st" using evicts_bounded [OF evicts_step.hyps(1) evicts_step.prems] by auto
  have s': "bounded L P G R s'" "anns s' = (anns s)(i := None)"
    using erase_bounded [OF s(1) evicts_step.hyps(2)] evicts_step.hyps(6) by auto
  have ok: "orphans_ok L s" "orphans_ok L s'" using s(1) s'(1) by (simp_all add: bounded_def)
  have ih: "\<not> over_share ml mw st p \<Longrightarrow> map_of (peer_uses s) p = map_of (peer_uses st) p \<and> owned (anns s) p = owned (anns st) p"
    "anns st k = Some c \<Longrightarrow> anns s k = None \<Longrightarrow> anns s j = Some b \<Longrightarrow> an_announcer b = an_announcer c
      \<Longrightarrow> (an_reconsider c, an_sequence c) < (an_reconsider b, an_sequence b)" for p k c j b
    using evicts_step.IH [OF evicts_step.prems] by blast+
  have same: "map_of (peer_uses s') p = map_of (peer_uses st) p \<and> owned (anns s') p = owned (anns st) p"
    if "\<not> over_share ml mw st p" for p
  proof -
    have "an_announcer a \<noteq> p" using evicts_step.hyps(4) that ih(1) [OF that] by (auto simp: over_share_def)
    then show ?thesis
      using erase_uses(1) [OF ok(1) evicts_step.hyps(2) ok(2) s'(2), of p] ih(1) [OF that]
        owned_del [of "anns s" i a p] evicts_step.hyps(2) unfolding s'(2) by simp
  qed
  have older: "(an_reconsider c, an_sequence c) < (an_reconsider b, an_sequence b)"
    if k: "anns st k = Some c" "anns s' k = None" "anns s' j = Some b" "an_announcer b = an_announcer c" for k c j b
  proof (cases "anns s k")
    case None
    have "anns s j = Some b" using k(3) by (auto simp: s'(2) split: if_splits)
    with None k ih(2) show ?thesis by blast
  next
    case (Some d)
    then have i: "k = i" using k(2) by (auto simp: s'(2) split: if_splits)
    have j: "j \<noteq> i" "anns s j = Some b" using k(3) by (auto simp: s'(2) split: if_splits)
    have "anns s i = anns st i" using s(2) evicts_step.hyps(2) unfolding map_le_def by blast
    then have "c = a" using k(1) evicts_step.hyps(2) i by simp
    moreover have "eviction_key s i \<le> eviction_key s j"
      using evicts_step.hyps(2,5) j k(4) \<open>c = a\<close> unfolding oldest_of_def by (simp add: ann_at_def owned_def)
    moreover have "eviction_key s i = (an_reconsider a, i)" "eviction_key s j = (an_reconsider b, j)"
      "an_sequence a = i" "an_sequence b = j"
      using orphans_okD(1) [OF ok(1)] evicts_step.hyps(2) j(2)
      by (simp_all add: heap_ok_def ann_ok_def eviction_key_def ann_at_def)
    ultimately show ?thesis using j(1) by (metis order.not_eq_order_implies_strict prod.inject)
  qed
  show ?case using same older by blast
qed simp

section \<open>Erasing a list of announcements\<close>

lemma erase_list:
  assumes "bounded L P G R st" "distinct ids" "\<forall>i\<in>set ids. anns st i \<noteq> None"
  shows "\<exists>st'. fold_opt erase ids st = Some st' \<and> bounded L P G R st' \<and> anns st' = anns st |` (- set ids)"
  using assms
proof (induction ids arbitrary: st)
  case Nil
  then show ?case by (auto simp: restrict_map_def)
next
  case (Cons i ids)
  then obtain a where "anns st i = Some a" by auto
  from erase_bounded [OF Cons.prems(1) this] obtain st1 where
    st1: "erase i st = Some st1" "bounded L P G R st1" "anns st1 = (anns st)(i := None)" by auto
  have "\<forall>j\<in>set ids. anns st1 j \<noteq> None" using Cons.prems by (auto simp: st1(3))
  from Cons.IH [OF st1(2) _ this] Cons.prems(2) obtain st' where
    "fold_opt erase ids st1 = Some st'" "bounded L P G R st'" "anns st' = anns st1 |` (- set ids)" by auto
  moreover have "anns st1 |` (- set ids) = anns st |` (- set (i # ids))"
    unfolding st1(3) by (rule ext) (simp add: restrict_map_def)
  ultimately show ?case using st1(1) by auto
qed

definition keeping :: "(orphan_announcement \<Rightarrow> bool) \<Rightarrow> (int \<rightharpoonup> orphan_announcement) \<Rightarrow> (int \<rightharpoonup> orphan_announcement)" where
  "keeping Q A = (\<lambda>i. case A i of None \<Rightarrow> None | Some a \<Rightarrow> if Q a then Some a else None)"

lemma keeping_Some [simp]: "keeping Q A i = Some a \<longleftrightarrow> A i = Some a \<and> Q a"
  by (auto simp: keeping_def split: option.splits)

lemma keeping_restrict:
  assumes "\<And>i a. A i = Some a \<Longrightarrow> i \<in> S \<longleftrightarrow> \<not> Q a"
  shows "A |` (- S) = keeping Q A"
  using assms by (auto simp: keeping_def restrict_map_def fun_eq_iff split: option.splits)

lemma keeping_keeping: "keeping Q (keeping Q' A) = keeping (\<lambda>a. Q' a \<and> Q a) A"
  by (auto simp: keeping_def fun_eq_iff split: option.splits)

lemma wtxid_ids:
  assumes "index_ok st"
  shows "distinct (map snd (inner (by_wtxid st) w))"
    "set (map snd (inner (by_wtxid st) w)) = {i. \<exists>a. anns st i = Some a \<and> an_wtxid a = w}"
    "map_of (by_wtxid st) w = None \<longleftrightarrow> w \<notin> wtxids (anns st)"
proof -
  have nest: "nested_ok (by_wtxid st)"
    and live: "\<And>p i. get2 (by_wtxid st) w p = Some i \<longleftrightarrow> (\<exists>a. anns st i = Some a \<and> an_wtxid a = w \<and> an_announcer a = p)"
    using assms by (auto simp: index_ok_def live_def)
  note ids = listed_ids [OF nest live]
  show "distinct (map snd (inner (by_wtxid st) w))"
    "set (map snd (inner (by_wtxid st) w)) = {i. \<exists>a. anns st i = Some a \<and> an_wtxid a = w}" by (rule ids)+
  have "inner (by_wtxid st) w = [] \<longleftrightarrow> set (map snd (inner (by_wtxid st) w)) = {}" by simp
  then have "inner (by_wtxid st) w = [] \<longleftrightarrow> w \<notin> wtxids (anns st)"
    unfolding ids(2) by (auto simp: wtxids_def live_def)
  then show "map_of (by_wtxid st) w = None \<longleftrightarrow> w \<notin> wtxids (anns st)" by (simp add: map_of_nested [OF nest])
qed

lemma peer_ids:
  assumes "index_ok st"
  shows "distinct (map snd (inner (by_peer st) p))" "set (map snd (inner (by_peer st) p)) = owned (anns st) p"
proof -
  have "nested_ok (by_peer st)"
    and "\<And>w i. get2 (by_peer st) p w = Some i \<longleftrightarrow> (\<exists>a. anns st i = Some a \<and> an_announcer a = p \<and> an_wtxid a = w)"
    using assms by (auto simp: index_ok_def live_def)
  from listed_ids [OF this] show "distinct (map snd (inner (by_peer st) p))"
    "set (map snd (inner (by_peer st) p)) = owned (anns st) p" by (simp_all add: owned_def)
qed

lemma erase_wtxid_bounded:
  assumes st: "bounded L P G R st"
  shows "\<exists>st'. erase_wtxid w st = Some (st', w \<in> wtxids (anns st)) \<and> bounded L P G R st'
    \<and> anns st' = keeping (\<lambda>a. an_wtxid a \<noteq> w) (anns st)"
proof -
  have ix: "index_ok st" using st by (simp add: bounded_def orphans_ok_def)
  note ids = wtxid_ids [OF ix, of w]
  let ?ids = "map snd (inner (by_wtxid st) w)"
  have "\<forall>i\<in>set ?ids. anns st i \<noteq> None" unfolding ids(2) by auto
  from erase_list [OF st ids(1) this] obtain st' where
    st': "fold_opt erase ?ids st = Some st'" "bounded L P G R st'" "anns st' = anns st |` (- set ?ids)" by auto
  have eff: "anns st' = keeping (\<lambda>a. an_wtxid a \<noteq> w) (anns st)"
    unfolding st'(3) ids(2) by (rule keeping_restrict) auto
  show ?thesis
  proof (cases "map_of (by_wtxid st) w")
    case None
    then have "inner (by_wtxid st) w = []" by (simp add: inner_def)
    with st'(1) have "st' = st" by simp
    with None st'(2) eff ids(3) show ?thesis by (auto simp: erase_wtxid_def)
  next
    case (Some m)
    then have "inner (by_wtxid st) w = m" by (simp add: inner_def)
    with Some st' eff ids(3) show ?thesis by (auto simp: erase_wtxid_def)
  qed
qed

section \<open>Adding\<close>

lemma add_first_bounded:
  assumes ok: "orphans_ok L st" and tx: "sent L tx" and new: "ot_hash tx \<notin> wtxids (anns st)"
    and st1: "heap_ok L st1" "index_ok st1" "uses_ok st1" "marks_ok st1"
      "anns st1 = (anns st)(next_sequence st \<mapsto> new_announcement tx (ot_hash tx) p (next_sequence st))"
      "unique_weight st1 = unique_weight st" "unique_input_scores st1 = unique_input_scores st"
      "spenders st1 = spenders st"
  shows "\<exists>st2. add_first tx (ot_hash tx) p st1 = Some st2 \<and> orphans_ok L st2 \<and> anns st2 = anns st1
    \<and> max_global_latency_score st2 = max_global_latency_score st1 \<and> reserved_peer_weight st2 = reserved_peer_weight st1"
proof -
  let ?w = "ot_hash tx" and ?n = "next_sequence st"
  note parts = orphans_okD [OF ok]
  have fresh: "anns st ?n = None" by (rule heap_fresh [OF parts(1)])
  have a: "an_wtxid (new_announcement tx ?w p ?n) = ?w" by (simp add: new_announcement_def)
  have L: "L ?w = tx" using tx by (simp add: sent_def)
  have W: "wtxids (anns st1) = insert ?w (wtxids (anns st))" unfolding st1(5) wtxids_put [of "anns st", OF fresh] a ..
  have fin: "finite (wtxids (anns st))" using wtxids_finite parts(1) by (simp add: heap_ok_def)
  have "get2 (by_wtxid st1) ?w p = Some ?n"
    using st1(2) unfolding index_ok_def st1(5) live_put [of "anns st", OF fresh] by (simp add: new_announcement_def)
  then obtain m where m: "map_of (by_wtxid st1) ?w = Some m" "map_of m p = Some ?n"
    by (auto simp: get2_def inner_def split: option.splits)
  have at: "ann_at st1 ?n = new_announcement tx ?w p ?n" by (simp add: ann_at_def st1(5))
  obtain st2 where st2: "add_first tx ?w p st1 = Some st2"
    "st2 = st1\<lparr> spenders := fold (add_spender ?w) (ot_vin tx) (spenders st),
       unique_weight := unique_weight st + ot_weight tx,
       unique_input_scores := unique_input_scores st + int (length (ot_vin tx)) div 10 \<rparr>"
    using m st1 by (auto simp: add_first_def at new_announcement_def)
  have "totals_ok L st2"
    using parts(4) new fin spent_by_insert [of L ?w "wtxids (anns st)"]
    by (auto simp: totals_ok_def st2(2) W L)
  then have "orphans_ok L st2"
    using st1 by (simp add: orphans_ok_def heap_ok_def index_ok_def uses_ok_def marks_ok_def st2(2))
  with st2 show ?thesis by auto
qed

lemma announced_bounded:
  assumes st: "bounded L P G R st" and st1: "orphans_ok L st1" "p \<in> P"
    "anns st1 = (anns st)(n \<mapsto> new_announcement tx w p n)" "anns st n = None"
    "max_global_latency_score st1 = max_global_latency_score st" "reserved_peer_weight st1 = reserved_peer_weight st"
  shows "bounded L P G R st1"
proof -
  have "holders st1 \<subseteq> insert p (holders st)"
    unfolding holders_def st1(3) owned_put [of "anns st", OF st1(4)] by (auto simp: new_announcement_def)
  with st st1 show ?thesis by (auto simp: bounded_def)
qed

definition recorded :: "orphan_tx \<Rightarrow> int \<Rightarrow> orphanage \<Rightarrow> (int \<rightharpoonup> orphan_announcement)" where
  "recorded tx p st = (anns st)(next_sequence st \<mapsto> new_announcement tx (ot_hash tx) p (next_sequence st))"

lemma add_tx_bounded:
  assumes st: "bounded L P G R st" and use: "limits_usable P G R" and tx: "sent L tx" "p \<in> P"
    and lim: "\<not> needs_trim st"
  shows "\<exists>st' b. add_tx mst tx p st = Some (st', b) \<and> bounded L P G R st' \<and> \<not> needs_trim st'
    \<and> (st' = st \<or> (\<exists>st2. bounded L P G R st2 \<and> anns st2 = recorded tx p st
          \<and> evicts (max_peer_latency_score st2) R st2 st'))"
proof (cases "ot_weight tx > mst \<or> get2 (by_wtxid st) (ot_hash tx) p \<noteq> None")
  case True
  with st lim announce_known [of st "ot_hash tx" p tx] show ?thesis by (auto simp: add_tx_def Let_def)
next
  case False
  let ?w = "ot_hash tx" and ?n = "next_sequence st"
  have ok: "orphans_ok L st" using st by (simp add: bounded_def)
  note parts = orphans_okD [OF ok]
  from False have new: "get2 (by_wtxid st) ?w p = None" "\<not> ot_weight tx > mst" by auto
  obtain st1 where st1: "announce tx ?w p st = (st1, True)" "heap_ok L st1" "index_ok st1" "uses_ok st1" "marks_ok st1"
    "anns st1 = (anns st)(?n \<mapsto> new_announcement tx ?w p ?n)"
    "unique_weight st1 = unique_weight st" "unique_input_scores st1 = unique_input_scores st"
    "spenders st1 = spenders st" "reserved_peer_weight st1 = reserved_peer_weight st"
    "max_global_latency_score st1 = max_global_latency_score st"
    using announce_new [OF parts(1,2,3,5) new(1) tx(1)] by auto
  have fresh: "anns st ?n = None" by (rule heap_fresh [OF parts(1)])
  have brand: "have_tx ?w st \<longleftrightarrow> ?w \<in> wtxids (anns st)" using wtxid_ids(3) [OF parts(2), of ?w] by (simp add: have_tx_def)
  obtain st2 where st2: "(if \<not> have_tx ?w st then add_first tx ?w p st1 else Some st1) = Some st2" "orphans_ok L st2"
    "anns st2 = anns st1" "max_global_latency_score st2 = max_global_latency_score st"
    "reserved_peer_weight st2 = reserved_peer_weight st"
  proof (cases "have_tx ?w st")
    case True
    have "wtxids (anns st1) = wtxids (anns st)"
      using True brand unfolding st1(6) wtxids_put [of "anns st", OF fresh] by (auto simp: new_announcement_def)
    then have "totals_ok L st1" using parts(4) by (simp add: totals_ok_def st1)
    with True st1 show ?thesis by (intro that [of st1]) (auto simp: orphans_ok_def)
  next
    case False
    with add_first_bounded [OF ok tx(1) _ st1(2-9)] brand st1(10,11) that show ?thesis by auto
  qed
  have st2ok: "bounded L P G R st2"
    using announced_bounded [OF st st2(2) tx(2) _ fresh st2(4,5)] st2(3) st1(6) by simp
  from limit_bounded [OF this use] obtain st3 where
    st3: "limit_orphans st2 = Some st3" "bounded L P G R st3" "\<not> needs_trim st3"
    "evicts (max_peer_latency_score st2) R st2 st3" by auto
  have "anns st2 = recorded tx p st" using st1(6) st2(3) by (simp add: recorded_def)
  moreover have "add_tx mst tx p st = Some (st3, \<not> have_tx ?w st)"
    using new(2) st1(1) st2(1) st3(1) by (simp add: add_tx_def Let_def)
  ultimately show ?thesis using st2ok st3 by blast
qed

lemma get_tx_ok:
  assumes "orphans_ok L st"
  shows "get_tx w st = Some (if w \<in> wtxids (anns st) then Some (L w) else None)"
proof (cases "map_of (by_wtxid st) w")
  case None
  then have "w \<notin> wtxids (anns st)" using wtxid_ids(3) [OF orphans_okD(2) [OF assms], of w] by simp
  with None show ?thesis by (simp add: get_tx_def)
next
  case (Some m)
  note parts = orphans_okD [OF assms]
  have m: "inner (by_wtxid st) w = m" using Some by (simp add: inner_def)
  moreover have "m \<noteq> []" using Some parts(2) by (auto simp: index_ok_def nested_ok_def)
  ultimately obtain i where i: "first_value m = Some i" "i \<in> set (map snd (inner (by_wtxid st) w))"
    by (cases m) (auto simp: first_value_def)
  then obtain a where "anns st i = Some a" "an_wtxid a = w" using wtxid_ids(2) [OF parts(2)] by auto
  moreover from this have "an_tx a = L w" using parts(1) by (auto simp: heap_ok_def ann_ok_def)
  ultimately show ?thesis
    using Some i(1) wtxid_ids(3) [OF parts(2), of w] by (auto simp: get_tx_def ann_at_def)
qed

lemma add_announcer_bounded:
  assumes st: "bounded L P G R st" and use: "limits_usable P G R" and p: "p \<in> P" and lim: "\<not> needs_trim st"
  shows "\<exists>st' b. add_announcer w p st = Some (st', b) \<and> bounded L P G R st' \<and> \<not> needs_trim st'"
proof (cases "w \<in> wtxids (anns st)")
  case False
  then have "get_tx w st = Some None" using get_tx_ok [of L st w] st by (simp add: bounded_def)
  then have "add_announcer w p st = Some (st, False)" by (simp add: add_announcer_def)
  with st lim show ?thesis by blast
next
  case True
  have ok: "orphans_ok L st" using st by (simp add: bounded_def)
  note parts = orphans_okD [OF ok]
  obtain i a where "anns st i = Some a" "an_wtxid a = w" using True by (auto simp: wtxids_def live_def)
  moreover from this have "ann_ok L (next_sequence st) i a" using parts(1) unfolding heap_ok_def by blast
  ultimately have w: "ot_hash (L w) = w" "sent L (L w)" by (auto simp: ann_ok_def sent_def)
  have get: "get_tx w st = Some (Some (L w))" using get_tx_ok [OF ok] True by simp
  show ?thesis
  proof (cases "get2 (by_wtxid st) w p")
    case None
    let ?n = "next_sequence st"
    obtain st1 where st1: "announce (L w) w p st = (st1, True)" "heap_ok L st1" "index_ok st1" "uses_ok st1" "marks_ok st1"
      "anns st1 = (anns st)(?n \<mapsto> new_announcement (L w) w p ?n)"
      "unique_weight st1 = unique_weight st" "unique_input_scores st1 = unique_input_scores st"
      "spenders st1 = spenders st" "reserved_peer_weight st1 = reserved_peer_weight st"
      "max_global_latency_score st1 = max_global_latency_score st"
      using announce_new [OF parts(1,2,3,5) _ w(2)] None by (auto simp: w(1))
    have fresh: "anns st ?n = None" by (rule heap_fresh [OF parts(1)])
    have "wtxids (anns st1) = wtxids (anns st)"
      using True unfolding st1(6) wtxids_put [of "anns st", OF fresh] by (auto simp: new_announcement_def)
    then have ok1: "orphans_ok L st1" using parts(4) st1 by (simp add: orphans_ok_def totals_ok_def)
    from limit_bounded [OF announced_bounded [OF st ok1 p st1(6) fresh st1(11,10)] use] st1(1) get
    show ?thesis by (auto simp: add_announcer_def)
  next
    case (Some i)
    then have "add_announcer w p st = Some (st, False)"
      using get announce_known [of st w p "L w"] by (simp add: add_announcer_def)
    then show ?thesis using st lim by blast
  qed
qed

section \<open>Erasing\<close>

lemma erase_tx_bounded:
  assumes st: "bounded L P G R st" and use: "limits_usable P G R"
  shows "\<exists>st' b. erase_tx w st = Some (st', b) \<and> bounded L P G R st' \<and> \<not> needs_trim st'
    \<and> anns st' \<subseteq>\<^sub>m keeping (\<lambda>a. an_wtxid a \<noteq> w) (anns st)"
proof -
  obtain st1 where "erase_wtxid w st = Some (st1, w \<in> wtxids (anns st))" "bounded L P G R st1"
    "anns st1 = keeping (\<lambda>a. an_wtxid a \<noteq> w) (anns st)" using erase_wtxid_bounded [OF st] by blast
  with limit_bounded [OF _ use, of L st1] show ?thesis by (auto simp: erase_tx_def)
qed

lemma erase_for_peer_bounded:
  assumes st: "bounded L P G R st" and use: "limits_usable P G R"
  shows "\<exists>st'. erase_for_peer p st = Some st' \<and> bounded L P G R st' \<and> \<not> needs_trim st'
    \<and> anns st' \<subseteq>\<^sub>m keeping (\<lambda>a. an_announcer a \<noteq> p) (anns st)"
proof -
  have "index_ok st" using st by (simp add: bounded_def orphans_ok_def)
  note ids = peer_ids [OF this, of p]
  have "\<forall>i\<in>set (map snd (inner (by_peer st) p)). anns st i \<noteq> None" unfolding ids(2) by (auto simp: owned_def)
  from erase_list [OF st ids(1) this] obtain st1 where
    st1: "fold_opt erase (map snd (inner (by_peer st) p)) st = Some st1" "bounded L P G R st1"
    "anns st1 = anns st |` (- owned (anns st) p)" unfolding ids(2) by auto
  have "anns st1 = keeping (\<lambda>a. an_announcer a \<noteq> p) (anns st)"
    unfolding st1(3) by (rule keeping_restrict) (auto simp: owned_def)
  with st1 limit_bounded [OF st1(2) use] show ?thesis by (auto simp: erase_for_peer_def)
qed

lemma spenders_of_ok:
  assumes "orphans_ok L st"
  shows "spenders_of key st = {w \<in> wtxids (anns st). key \<in> set (ot_vin (L w))}"
  using orphans_okD(4) [OF assms] by (simp add: spenders_of_def totals_ok_def spent_by_def Let_def)

lemma fold_union: "fold (\<lambda>x S. S \<union> f x) xs S = S \<union> (\<Union>x\<in>set xs. f x)"
  by (induction xs arbitrary: S) auto

lemma block_spenders_eq: "block_spenders txs st = (\<Union>tx\<in>set txs. \<Union>key\<in>set (ot_vin tx). spenders_of key st)"
proof -
  have inner: "(\<lambda>tx. fold (\<lambda>key S. S \<union> spenders_of key st) (ot_vin tx))
      = (\<lambda>tx S. S \<union> (\<Union>key\<in>set (ot_vin tx). spenders_of key st))"
    by (rule ext)+ (rule fold_union)
  show ?thesis unfolding block_spenders_def inner fold_union by simp
qed

lemma erase_wtxids_bounded:
  assumes "bounded L P G R st"
  shows "\<exists>st'. fold_opt (\<lambda>wtxid s. do { (s', _) \<leftarrow> erase_wtxid wtxid s; Some s' }) ws st = Some st'
    \<and> bounded L P G R st' \<and> anns st' = keeping (\<lambda>a. an_wtxid a \<notin> set ws) (anns st)"
  using assms
proof (induction ws arbitrary: st)
  case Nil
  have "keeping (\<lambda>a. True) (anns st) = anns st" by (auto simp: keeping_def split: option.splits)
  with Nil show ?case by simp
next
  case (Cons w ws)
  obtain st1 where st1: "erase_wtxid w st = Some (st1, w \<in> wtxids (anns st))" "bounded L P G R st1"
    "anns st1 = keeping (\<lambda>a. an_wtxid a \<noteq> w) (anns st)" using erase_wtxid_bounded [OF Cons.prems] by blast
  have "keeping (\<lambda>a. an_wtxid a \<notin> set ws) (anns st1) = keeping (\<lambda>a. an_wtxid a \<notin> set (w # ws)) (anns st)"
    unfolding st1(3) keeping_keeping by (rule arg_cong [where f = "\<lambda>Q. keeping Q (anns st)"]) auto
  with Cons.IH [OF st1(2)] st1(1) show ?case by auto
qed

definition conflicting :: "(bytes \<Rightarrow> orphan_tx) \<Rightarrow> orphan_tx list \<Rightarrow> orphanage \<Rightarrow> bytes set" where
  "conflicting L txs st = {w \<in> wtxids (anns st). \<exists>tx\<in>set txs. \<exists>key\<in>set (ot_vin tx). key \<in> set (ot_vin (L w))}"

definition set_order :: "(bytes set \<Rightarrow> bytes list) \<Rightarrow> bool" where
  "set_order iter_set \<longleftrightarrow> (\<forall>S. finite S \<longrightarrow> set (iter_set S) = S)"

lemma erase_for_block_bounded:
  assumes st: "bounded L P G R st" and use: "limits_usable P G R" and ord: "set_order iter_set" and lim: "\<not> needs_trim st"
  shows "\<exists>st' st1. erase_for_block iter_set txs st = Some st' \<and> bounded L P G R st' \<and> \<not> needs_trim st'
    \<and> bounded L P G R st1 \<and> anns st1 = keeping (\<lambda>a. an_wtxid a \<notin> conflicting L txs st) (anns st)
    \<and> evicts (max_peer_latency_score st1) R st1 st'"
proof -
  have ok: "orphans_ok L st" using st by (simp add: bounded_def)
  have C: "block_spenders txs st = conflicting L txs st"
    unfolding block_spenders_eq spenders_of_ok [OF ok] by (auto simp: conflicting_def)
  have "finite (wtxids (anns st))" using orphans_okD(1) [OF ok] wtxids_finite by (simp add: heap_ok_def)
  then have "finite (conflicting L txs st)" by (rule rev_finite_subset) (auto simp: conflicting_def)
  then have set: "set (iter_set (block_spenders txs st)) = conflicting L txs st"
    using ord unfolding C by (simp add: set_order_def)
  show ?thesis
  proof (cases "by_wtxid st = []")
    case True
    have "wtxids (anns st) = {}" using wtxid_ids(3) [OF orphans_okD(2) [OF ok]] True by auto
    then have "keeping (\<lambda>a. an_wtxid a \<notin> conflicting L txs st) (anns st) = anns st"
      by (auto simp: keeping_def conflicting_def split: option.splits)
    with True st lim show ?thesis by (intro exI [of _ st]) (auto simp: erase_for_block_def intro: evicts_refl)
  next
    case False
    obtain st1 where st1: "fold_opt (\<lambda>wtxid s. do { (s', _) \<leftarrow> erase_wtxid wtxid s; Some s' }) (iter_set (block_spenders txs st)) st = Some st1"
      "bounded L P G R st1" "anns st1 = keeping (\<lambda>a. an_wtxid a \<notin> conflicting L txs st) (anns st)"
      using erase_wtxids_bounded [OF st] unfolding set [symmetric] by blast
    with limit_bounded [OF st1(2) use] False show ?thesis by (auto simp: erase_for_block_def)
  qed
qed

section \<open>The reconsider flag\<close>

lemma flag_same:
  assumes "A i = Some a"
  shows "owned (A(i \<mapsto> a\<lparr> an_reconsider := b \<rparr>)) p = owned A p"
    "live (A(i \<mapsto> a\<lparr> an_reconsider := b \<rparr>)) w p j = live A w p j"
    "use_of (A(i \<mapsto> a\<lparr> an_reconsider := b \<rparr>)) p = use_of A p"
    "wtxids (A(i \<mapsto> a\<lparr> an_reconsider := b \<rparr>)) = wtxids A"
proof -
  show o: "owned (A(i \<mapsto> a\<lparr> an_reconsider := b \<rparr>)) p = owned A p" for p using assms by (auto simp: owned_def)
  show l: "live (A(i \<mapsto> a\<lparr> an_reconsider := b \<rparr>)) w p j = live A w p j" for w p j using assms by (auto simp: live_def)
  have "an_weight (the ((A(i \<mapsto> a\<lparr> an_reconsider := b \<rparr>)) j)) = an_weight (the (A j))"
    "an_latency_score (the ((A(i \<mapsto> a\<lparr> an_reconsider := b \<rparr>)) j)) = an_latency_score (the (A j))" for j
    using assms by auto
  then show "use_of (A(i \<mapsto> a\<lparr> an_reconsider := b \<rparr>)) p = use_of A p" by (simp only: use_of_def o)
  show "wtxids (A(i \<mapsto> a\<lparr> an_reconsider := b \<rparr>)) = wtxids A" by (simp add: wtxids_def l)
qed

lemma flag_ok:
  assumes ok: "orphans_ok L st" and a: "anns st i = Some a"
    and m: "marks_ok (st\<lparr> anns := (anns st)(i \<mapsto> a\<lparr> an_reconsider := b \<rparr>), reconsiderable := rc \<rparr>)"
  shows "orphans_ok L (st\<lparr> anns := (anns st)(i \<mapsto> a\<lparr> an_reconsider := b \<rparr>), reconsiderable := rc \<rparr>)"
proof -
  let ?st = "st\<lparr> anns := (anns st)(i \<mapsto> a\<lparr> an_reconsider := b \<rparr>), reconsiderable := rc \<rparr>"
  note parts = orphans_okD [OF ok] and same = flag_same [of "anns st", OF a, of b]
  have "dom (anns ?st) = dom (anns st)" using a by auto
  moreover have "ann_ok L (next_sequence st) j c" if "anns ?st j = Some c" for j c
  proof (cases "j = i")
    case True
    have "ann_ok L (next_sequence st) i a" using parts(1) a by (simp add: heap_ok_def)
    with that True show ?thesis by (auto simp: ann_ok_def)
  next
    case False
    with that parts(1) show ?thesis by (simp add: heap_ok_def)
  qed
  ultimately have "heap_ok L ?st" using parts(1) same(2) by (simp add: heap_ok_def)
  moreover have "index_ok ?st" using parts(2) same(2) by (simp add: index_ok_def)
  moreover have "uses_ok ?st" using parts(3) same(3) \<open>dom (anns ?st) = dom (anns st)\<close> by (simp add: uses_ok_def)
  moreover have "totals_ok L ?st" using parts(4) same(4) by (simp add: totals_ok_def)
  ultimately show ?thesis using m by (simp add: orphans_ok_def)
qed

lemma flag_bounded:
  assumes "bounded L P G R st" "anns st i = Some a"
    and "marks_ok (st\<lparr> anns := (anns st)(i \<mapsto> a\<lparr> an_reconsider := b \<rparr>), reconsiderable := rc \<rparr>)"
  shows "bounded L P G R (st\<lparr> anns := (anns st)(i \<mapsto> a\<lparr> an_reconsider := b \<rparr>), reconsiderable := rc \<rparr>)"
  using flag_ok [OF _ assms(2,3)] assms(1) flag_same(1) [of "anns st", OF assms(2), of b]
  by (simp add: bounded_def holders_def)

lemma marked_unique:
  assumes "heap_ok L st" "anns st i = Some a" "anns st j = Some b" "an_wtxid b = an_wtxid a" "an_announcer b = an_announcer a"
  shows "j = i"
  using assms unfolding heap_ok_def live_def by blast

lemma take_mark:
  assumes ok: "orphans_ok L st" and a: "anns st i = Some a" "an_reconsider a"
  shows "marks_ok (st\<lparr> anns := (anns st)(i \<mapsto> a\<lparr> an_reconsider := False \<rparr>),
      reconsiderable := AList.delete (an_wtxid a) (reconsiderable st) \<rparr>)"
proof -
  note parts = orphans_okD [OF ok]
  let ?A = "(anns st)(i \<mapsto> a\<lparr> an_reconsider := False \<rparr>)"
  have at: "map_of (reconsiderable st) v = Some q \<longleftrightarrow> marked (anns st) v q" for v q
    using parts(5) by (simp add: marks_ok_def)
  have "marked (anns st) (an_wtxid a) (an_announcer a)" using a by (auto simp: marked_def)
  then have one: "q = an_announcer a" if "marked (anns st) (an_wtxid a) q" for q using that at by (metis option.inject)
  have "marked ?A v q \<longleftrightarrow> v \<noteq> an_wtxid a \<and> marked (anns st) v q" for v q
  proof (cases "v = an_wtxid a")
    case True
    have clash: False if b: "?A j = Some b" "an_wtxid b = an_wtxid a" "an_announcer b = q" "an_reconsider b" for j b
    proof -
      have j: "j \<noteq> i" using b by auto
      then have "anns st j = Some b" using b by simp
      moreover from this b have "q = an_announcer a" by (intro one) (auto simp: marked_def)
      ultimately show False using marked_unique [OF parts(1) a(1)] b j by blast
    qed
    have "\<not> marked ?A (an_wtxid a) q" unfolding marked_def using clash by blast
    with True show ?thesis by simp
  next
    case False
    then have "?A j = Some b \<and> an_wtxid b = v \<longleftrightarrow> anns st j = Some b \<and> an_wtxid b = v" for j b
      using a(1) by auto
    with False show ?thesis unfolding marked_def by metis
  qed
  then show ?thesis using parts(5) at
    by (simp add: marks_ok_def delete_conv' distinct_delete del: fun_upd_apply) (auto split: if_splits)
qed

lemma get_tx_to_reconsider_bounded:
  assumes st: "bounded L P G R st"
  shows "\<exists>st' r. get_tx_to_reconsider p st = Some (st', r) \<and> bounded L P G R st' \<and> needs_trim st' = needs_trim st
    \<and> (case r of
         None \<Rightarrow> st' = st \<and> \<not> (\<exists>w. marked (anns st) w p)
       | Some tx \<Rightarrow> (\<exists>i a. anns st i = Some a \<and> an_announcer a = p \<and> an_reconsider a \<and> an_tx a = tx
           \<and> anns st' = (anns st)(i \<mapsto> a\<lparr> an_reconsider := False \<rparr>)
           \<and> (\<forall>j b. anns st j = Some b \<longrightarrow> an_announcer b = p \<longrightarrow> an_reconsider b \<longrightarrow> i \<le> j)))"
proof -
  have ok: "orphans_ok L st" using st by (simp add: bounded_def)
  note parts = orphans_okD [OF ok]
  let ?ms = "filter (\<lambda>(_, marked_peer). marked_peer = p) (reconsiderable st)"
  have rc: "(w, q) \<in> set (reconsiderable st) \<longleftrightarrow> marked (anns st) w q" for w q
    using parts(5) map_of_Some_iff_mem [of "reconsiderable st" w q] by (simp add: marks_ok_def)
  have get: "get2 (by_wtxid st) w p = Some i \<longleftrightarrow> live (anns st) w p i" for w i
    using parts(2) by (simp add: index_ok_def)
  have "\<exists>ids. those (map (\<lambda>(w, _). get2 (by_wtxid st) w p) ms) = Some ids
      \<and> set ids = {i. \<exists>w. (w, p) \<in> set ms \<and> live (anns st) w p i}"
    if "set ms \<subseteq> set ?ms" for ms
    using that
  proof (induction ms)
    case (Cons x ms)
    obtain w where w: "x = (w, p)" "marked (anns st) w p" using Cons.prems rc by (cases x) auto
    then obtain i where i: "get2 (by_wtxid st) w p = Some i" using get by (auto simp: marked_def live_def)
    obtain ids where "those (map (\<lambda>(w, _). get2 (by_wtxid st) w p) ms) = Some ids"
      "set ids = {i. \<exists>w. (w, p) \<in> set ms \<and> live (anns st) w p i}" using Cons by auto
    moreover have "live (anns st) w p j \<longleftrightarrow> j = i" for j using get [of w j] i by auto
    ultimately show ?case using w(1) i by auto
  qed simp
  then obtain ids where ids: "those (map (\<lambda>(w, _). get2 (by_wtxid st) w p) ?ms) = Some ids"
    "set ids = {i. \<exists>w. (w, p) \<in> set ?ms \<and> live (anns st) w p i}" by blast
  have mem: "i \<in> set ids \<longleftrightarrow> (\<exists>a. anns st i = Some a \<and> an_announcer a = p \<and> an_reconsider a)" for i
  proof
    assume "i \<in> set ids"
    then obtain w where "marked (anns st) w p" "live (anns st) w p i" unfolding ids(2) using rc by auto
    then obtain j b a where "anns st j = Some b" "an_wtxid b = w" "an_announcer b = p" "an_reconsider b"
      "anns st i = Some a" "an_wtxid a = w" "an_announcer a = p" by (auto simp: marked_def live_def)
    with marked_unique [OF parts(1), of i a j b]
    show "\<exists>a. anns st i = Some a \<and> an_announcer a = p \<and> an_reconsider a" by auto
  next
    assume "\<exists>a. anns st i = Some a \<and> an_announcer a = p \<and> an_reconsider a"
    then show "i \<in> set ids" unfolding ids(2) using rc by (auto simp: marked_def live_def)
  qed
  let ?sorted = "sort_key (an_sequence \<circ> ann_at st) ids"
  have seq: "an_sequence (ann_at st i) = i" if "i \<in> set ids" for i
    using that mem parts(1) by (fastforce simp: heap_ok_def ann_ok_def ann_at_def)
  show ?thesis
  proof (cases ?sorted)
    case Nil
    then have "ids = []" by (metis length_0_conv length_sort)
    then have "\<not> (\<exists>w. marked (anns st) w p)" using mem by (auto simp: marked_def)
    with ids(1) Nil st show ?thesis by (auto simp: get_tx_to_reconsider_def next_to_reconsider_def)
  next
    case (Cons i rest)
    then have "set (i # rest) = set ids" by (metis set_sort)
    then have i: "i \<in> set ids" by auto
    then obtain a where a: "anns st i = Some a" "an_announcer a = p" "an_reconsider a" using mem by auto
    have first: "i \<le> j" if "j \<in> set ids" for j
    proof -
      have "sorted (map (an_sequence \<circ> ann_at st) (i # rest))" by (metis Cons sorted_sort_key)
      moreover have "j \<in> set (i # rest)" using that \<open>set (i # rest) = set ids\<close> by simp
      ultimately have "an_sequence (ann_at st i) \<le> an_sequence (ann_at st j)" by auto
      then show ?thesis using seq that i by simp
    qed
    have "map_of (reconsiderable st) (an_wtxid a) = Some p"
      using parts(5) a by (auto simp: marks_ok_def marked_def)
    moreover note flag_bounded [OF st a(1) take_mark [OF ok a(1,3)]]
    ultimately show ?thesis using ids(1) Cons a first mem
      by (auto simp: get_tx_to_reconsider_def next_to_reconsider_def ann_at_def needs_trim_def Let_def)
  qed
qed

section \<open>Marking children\<close>

definition picks :: "(int list \<Rightarrow> int) \<Rightarrow> bool" where
  "picks choice \<longleftrightarrow> (\<forall>xs. xs \<noteq> [] \<longrightarrow> choice xs \<in> set xs)"

lemma put_mark:
  assumes ok: "marks_ok st" and a: "anns st i = Some a" and none: "\<And>q. \<not> marked (anns st) (an_wtxid a) q"
  shows "marks_ok (st\<lparr> anns := (anns st)(i \<mapsto> a\<lparr> an_reconsider := True \<rparr>),
      reconsiderable := AList.update (an_wtxid a) (an_announcer a) (reconsiderable st) \<rparr>)"
    "marked ((anns st)(i \<mapsto> a\<lparr> an_reconsider := True \<rparr>)) v q
      \<longleftrightarrow> marked (anns st) v q \<or> v = an_wtxid a \<and> q = an_announcer a"
proof -
  let ?A = "(anns st)(i \<mapsto> a\<lparr> an_reconsider := True \<rparr>)"
  show m: "marked ?A v q \<longleftrightarrow> marked (anns st) v q \<or> v = an_wtxid a \<and> q = an_announcer a" for v q
  proof
    assume "marked ?A v q"
    then obtain j b where b: "?A j = Some b" "an_wtxid b = v" "an_announcer b = q" "an_reconsider b" by (auto simp: marked_def)
    then show "marked (anns st) v q \<or> v = an_wtxid a \<and> q = an_announcer a"
      by (cases "j = i") (auto simp: marked_def)
  next
    assume "marked (anns st) v q \<or> v = an_wtxid a \<and> q = an_announcer a"
    then show "marked ?A v q"
    proof
      assume "marked (anns st) v q"
      then obtain j b where b: "anns st j = Some b" "an_wtxid b = v" "an_announcer b = q" "an_reconsider b" by (auto simp: marked_def)
      then have "j \<noteq> i" using a none [of q] by (auto simp: marked_def)
      with b have "?A j = Some b" by simp
      with b show ?thesis unfolding marked_def by blast
    next
      assume "v = an_wtxid a \<and> q = an_announcer a"
      then show ?thesis unfolding marked_def by (intro exI [of _ i]) auto
    qed
  qed
  have "map_of (AList.update (an_wtxid a) (an_announcer a) (reconsiderable st)) v = Some q \<longleftrightarrow> marked ?A v q" for v q
    unfolding m using ok none by (auto simp: marks_ok_def)
  then show "marks_ok (st\<lparr> anns := ?A, reconsiderable := AList.update (an_wtxid a) (an_announcer a) (reconsiderable st) \<rparr>)"
    using ok by (simp add: marks_ok_def distinct_update del: fun_upd_apply map_of_AList_update)
qed

definition marking ::
  "(bytes \<Rightarrow> orphan_tx) \<Rightarrow> orphanage \<Rightarrow> bytes set \<Rightarrow> orphanage \<Rightarrow> (bytes \<times> int) list \<Rightarrow> bool" where
  "marking L st V s mk \<longleftrightarrow> (\<exists>A rc. s = st\<lparr> anns := A, reconsiderable := rc \<rparr>) \<and> orphans_ok L s
     \<and> (\<forall>w p i. live (anns s) w p i \<longleftrightarrow> live (anns st) w p i)
     \<and> (\<forall>w p. marked (anns s) w p \<longleftrightarrow> marked (anns st) w p \<or> (w, p) \<in> set mk)
     \<and> distinct (map fst mk) \<and> fst ` set mk = {w \<in> V. \<forall>q. \<not> marked (anns st) w q}"

lemma mark_child_spec:
  assumes m: "marking L st V s mk" and w: "w \<in> wtxids (anns st)" and pick: "picks choice"
  shows "\<exists>s' mk'. mark_child choice w (s, mk) = Some (s', mk') \<and> marking L st (insert w V) s' mk'"
proof -
  have ok: "orphans_ok L s" and live: "\<And>w p i. live (anns s) w p i \<longleftrightarrow> live (anns st) w p i"
    and mkd: "\<And>w p. marked (anns s) w p \<longleftrightarrow> marked (anns st) w p \<or> (w, p) \<in> set mk"
    and dist: "distinct (map fst mk)" and keys: "fst ` set mk = {w \<in> V. \<forall>q. \<not> marked (anns st) w q}"
    using m by (auto simp: marking_def)
  note parts = orphans_okD [OF ok]
  have rc: "map_of (reconsiderable s) w = Some p \<longleftrightarrow> marked (anns s) w p" for p
    using parts(5) by (simp add: marks_ok_def)
  show ?thesis
  proof (cases "map_of (reconsiderable s) w")
    case (Some p)
    then have "marked (anns st) w p \<or> (w, p) \<in> set mk" using rc mkd by simp
    then have "{w' \<in> insert w V. \<forall>q. \<not> marked (anns st) w' q} = {w' \<in> V. \<forall>q. \<not> marked (anns st) w' q}"
      using keys by force
    with m Some show ?thesis by (auto simp: mark_child_def marking_def)
  next
    case None
    then have free: "\<not> marked (anns s) w q" for q using rc [of q] by simp
    have "wtxids (anns s) = wtxids (anns st)" by (simp add: wtxids_def live)
    then obtain m' where m': "map_of (by_wtxid s) w = Some m'" using w wtxid_ids(3) [OF parts(2), of w] by auto
    have inner: "inner (by_wtxid s) w = m'" using m' by (simp add: inner_def)
    have "m' \<noteq> []" using m' parts(2) by (auto simp: index_ok_def nested_ok_def)
    then have "sort (map fst m') \<noteq> []" by (metis length_0_conv length_map length_sort)
    then have "choice (sort (map fst m')) \<in> set (sort (map fst m'))" using pick unfolding picks_def by blast
    then obtain p where p: "choice (sort (map fst m')) = p" "p \<in> set (map fst m')" by simp
    then obtain i where i: "map_of m' p = Some i" by (metis map_of_eq_None_iff not_None_eq set_map)
    then have "get2 (by_wtxid s) w p = Some i" by (simp add: get2_def inner)
    then have "live (anns s) w p i" using parts(2) by (simp add: index_ok_def)
    then obtain a where a: "anns s i = Some a" "an_wtxid a = w" "an_announcer a = p" by (auto simp: live_def)
    let ?s = "s\<lparr> anns := (anns s)(i \<mapsto> a\<lparr> an_reconsider := True \<rparr>),
      reconsiderable := AList.update w p (reconsiderable s) \<rparr>"
    note put = put_mark [OF parts(5) a(1), unfolded a(2,3), OF free]
    have "mark_child choice w (s, mk) = Some (?s, mk @ [(w, p)])"
      using None m' p(1) i a(1) by (simp add: mark_child_def Let_def ann_at_def)
    moreover have "marking L st (insert w V) ?s (mk @ [(w, p)])"
    proof -
      have new: "w \<notin> fst ` set mk" using free mkd by (metis imageE prod.collapse)
      moreover have "\<forall>q. \<not> marked (anns st) w q" using free mkd by blast
      ultimately have "{w' \<in> insert w V. \<forall>q. \<not> marked (anns st) w' q} = insert w {w' \<in> V. \<forall>q. \<not> marked (anns st) w' q}" by auto
      moreover have "\<exists>A rc. ?s = st\<lparr> anns := A, reconsiderable := rc \<rparr>"
      proof -
        obtain A rc where "s = st\<lparr> anns := A, reconsiderable := rc \<rparr>" using m by (auto simp: marking_def)
        then have "?s = st\<lparr> anns := A(i \<mapsto> a\<lparr> an_reconsider := True \<rparr>), reconsiderable := AList.update w p rc \<rparr>" by simp
        then show ?thesis by blast
      qed
      moreover note flag_ok [OF ok a(1) put(1)]
      moreover have "live (anns ?s) v q j \<longleftrightarrow> live (anns st) v q j" for v q j
        using flag_same(2) [of "anns s", OF a(1), of True] live by simp
      moreover have "marked (anns ?s) v q \<longleftrightarrow> marked (anns st) v q \<or> (v, q) \<in> set (mk @ [(w, p)])" for v q
        using put(2) mkd by auto
      ultimately show ?thesis using dist new keys unfolding marking_def by auto
    qed
    ultimately show ?thesis by blast
  qed
qed

lemma mark_children_spec:
  assumes "marking L st V s mk" "set ws \<subseteq> wtxids (anns st)" "picks choice"
  shows "\<exists>s' mk'. fold_opt (mark_child choice) ws (s, mk) = Some (s', mk') \<and> marking L st (V \<union> set ws) s' mk'"
  using assms
proof (induction ws arbitrary: V s mk)
  case (Cons w ws)
  obtain s1 mk1 where s1: "mark_child choice w (s, mk) = Some (s1, mk1)" "marking L st (insert w V) s1 mk1"
    using mark_child_spec [OF Cons.prems(1) _ Cons.prems(3), of w] Cons.prems(2) by auto
  with Cons.IH [OF s1(2)] Cons.prems(2,3) show ?case by auto
qed simp

definition spends_output :: "orphan_tx \<Rightarrow> nat \<Rightarrow> (bytes \<Rightarrow> orphan_tx) \<Rightarrow> bytes \<Rightarrow> bool" where
  "spends_output tx n L w \<longleftrightarrow> (\<exists>v<n. (ot_id tx, int v) \<in> set (ot_vin (L w)))"

lemma add_children_spec:
  assumes ok: "orphans_ok L st" and pick: "picks choice"
  shows "\<exists>st' mk. add_children_to_work_set choice tx st = Some (st', mk)
    \<and> marking L st {w \<in> wtxids (anns st). spends_output tx (ot_vout tx) L w} st' mk"
proof -
  let ?V = "\<lambda>n. {w \<in> wtxids (anns st). spends_output tx n L w}"
  let ?step = "\<lambda>vout s. fold_opt (mark_child choice)
      (sort_key rev (sorted_list_of_set (spenders_of (ot_id tx, int vout) (fst s)))) s"
  have "finite (wtxids (anns st))" using orphans_okD(1) [OF ok] wtxids_finite by (simp add: heap_ok_def)
  then have fin: "finite (spenders_of key st)" for key unfolding spenders_of_ok [OF ok] by simp
  have "\<exists>s' mk. fold_opt ?step [0..<n] (st, []) = Some (s', mk) \<and> marking L st (?V n) s' mk" for n
  proof (induction n)
    case 0
    have "st = st\<lparr> anns := anns st, reconsiderable := reconsiderable st \<rparr>" by simp
    then have "\<exists>A rc. st = st\<lparr> anns := A, reconsiderable := rc \<rparr>" by blast
    with ok show ?case by (simp add: marking_def spends_output_def)
  next
    case (Suc n)
    then obtain s mk where s: "fold_opt ?step [0..<n] (st, []) = Some (s, mk)" "marking L st (?V n) s mk" by blast
    have "spenders_of (ot_id tx, int n) s = spenders_of (ot_id tx, int n) st"
      using s(2) by (auto simp: marking_def spenders_of_def)
    then have "set (sort_key rev (sorted_list_of_set (spenders_of (ot_id tx, int n) s)))
        = {w \<in> wtxids (anns st). (ot_id tx, int n) \<in> set (ot_vin (L w))}"
      using fin spenders_of_ok [OF ok] by simp
    moreover have "?V (Suc n) = ?V n \<union> {w \<in> wtxids (anns st). (ot_id tx, int n) \<in> set (ot_vin (L w))}"
      by (auto simp: spends_output_def less_Suc_eq)
    ultimately obtain s' mk' where
      "fold_opt (mark_child choice) (sort_key rev (sorted_list_of_set (spenders_of (ot_id tx, int n) s))) (s, mk) = Some (s', mk')"
      "marking L st (?V (Suc n)) s' mk'"
      using mark_children_spec [OF s(2) _ pick, of "sort_key rev (sorted_list_of_set (spenders_of (ot_id tx, int n) s))"] by auto
    then show ?case using s(1) by (simp add: fold_opt_append)
  qed
  then show ?thesis by (simp add: add_children_to_work_set_def)
qed

end
