(* ===== verification/Orphanage_Properties.thy ===== *)
theory Orphanage_Properties
  imports Orphanage_Operations
begin

text \<open>
  The properties of the orphanage, over every state its public operations reach from the empty
  one: nothing raises, the limits hold between operations, evictions are fair, a block leaves no
  conflicting orphan, and a parent marks each child once.
\<close>

section \<open>Runs of operations\<close>

datatype orphanage_op =
    AddTx orphan_tx int
  | AddAnnouncer bytes int
  | GetTxToReconsider int
  | EraseTx bytes
  | EraseForPeer int
  | EraseForBlock "orphan_tx list"
  | AddChildrenToWorkSet orphan_tx

record orphanage_env =
  max_standard_tx_weight :: int
  iter_set :: "bytes set \<Rightarrow> bytes list"
  choice :: "int list \<Rightarrow> int"

fun orphanage_step :: "orphanage_env \<Rightarrow> orphanage_op \<Rightarrow> orphanage \<Rightarrow> orphanage option" where
  "orphanage_step e (AddTx tx peer) st = map_option fst (add_tx (max_standard_tx_weight e) tx peer st)"
| "orphanage_step e (AddAnnouncer wtxid peer) st = map_option fst (add_announcer wtxid peer st)"
| "orphanage_step e (GetTxToReconsider peer) st = map_option fst (get_tx_to_reconsider peer st)"
| "orphanage_step e (EraseTx wtxid) st = map_option fst (erase_tx wtxid st)"
| "orphanage_step e (EraseForPeer peer) st = erase_for_peer peer st"
| "orphanage_step e (EraseForBlock txs) st = erase_for_block (iter_set e) txs st"
| "orphanage_step e (AddChildrenToWorkSet tx) st = map_option fst (add_children_to_work_set (choice e) tx st)"

definition run_orphanage :: "orphanage_env \<Rightarrow> orphanage_op list \<Rightarrow> orphanage \<Rightarrow> orphanage option" where
  "run_orphanage e = fold_opt (orphanage_step e)"

fun op_ok :: "(bytes \<Rightarrow> orphan_tx) \<Rightarrow> int set \<Rightarrow> orphanage_op \<Rightarrow> bool" where
  "op_ok L P (AddTx tx peer) \<longleftrightarrow> sent L tx \<and> peer \<in> P"
| "op_ok L P (AddAnnouncer wtxid peer) \<longleftrightarrow> peer \<in> P"
| "op_ok L P _ \<longleftrightarrow> True"

definition env_ok :: "orphanage_env \<Rightarrow> bool" where
  \<comment> \<open>a set is iterated over its elements, and the choice is one of those offered\<close>
  "env_ok e \<longleftrightarrow> set_order (iter_set e) \<and> picks (choice e)"

lemma new_orphanage_bounded: "bounded L P G R (new_orphanage G R)" "0 < G \<Longrightarrow> 0 < R \<Longrightarrow> \<not> needs_trim (new_orphanage G R)"
  by (simp_all add: bounded_def new_orphanage_def orphans_ok_def heap_ok_def index_ok_def uses_ok_def totals_ok_def
      marks_ok_def use_of_def owned_def live_def marked_def wtxids_def spent_by_def holders_def needs_trim_def)

lemma step_bounded:
  assumes st: "bounded L P G R st" "\<not> needs_trim st" and use: "limits_usable P G R" and e: "env_ok e" and p: "op_ok L P op"
  shows "\<exists>st'. orphanage_step e op st = Some st' \<and> bounded L P G R st' \<and> \<not> needs_trim st'"
proof (cases op)
  case (AddTx tx p)
  with add_tx_bounded [OF st(1) use _ _ st(2), of tx p "max_standard_tx_weight e"] p show ?thesis by auto
next
  case (AddAnnouncer w p)
  with add_announcer_bounded [OF st(1) use _ st(2), of p w] p show ?thesis by auto
next
  case (GetTxToReconsider p)
  with get_tx_to_reconsider_bounded [OF st(1), of p] st(2) show ?thesis by auto
next
  case (EraseTx w)
  with erase_tx_bounded [OF st(1) use, of w] show ?thesis by auto
next
  case (EraseForPeer p)
  with erase_for_peer_bounded [OF st(1) use, of p] show ?thesis by auto
next
  case (EraseForBlock txs)
  with erase_for_block_bounded [OF st(1) use _ st(2), of "iter_set e" txs] e show ?thesis by (auto simp: env_ok_def)
next
  case (AddChildrenToWorkSet tx)
  obtain st' mk V where run: "add_children_to_work_set (choice e) tx st = Some (st', mk)" "marking L st V st' mk"
    using add_children_spec [of L st "choice e" tx] st(1) e by (auto simp: bounded_def env_ok_def)
  obtain A rc where same: "st' = st\<lparr> anns := A, reconsiderable := rc \<rparr>" using run(2) by (auto simp: marking_def)
  have "holders s = {p. \<exists>w i. live (anns s) w p i}" for s by (auto simp: holders_def owned_def live_def)
  then have "holders st' = holders st" using run(2) by (simp add: marking_def)
  moreover have "orphans_ok L st'" using run(2) by (simp add: marking_def)
  moreover have "max_global_latency_score st' = max_global_latency_score st"
    "reserved_peer_weight st' = reserved_peer_weight st" by (simp_all add: same)
  ultimately have "bounded L P G R st'" using st(1) by (simp only: bounded_def simp_thms)
  moreover have "needs_trim st' = needs_trim st" by (simp add: same needs_trim_def)
  ultimately show ?thesis using run(1) AddChildrenToWorkSet st(2) by simp
qed

lemma run_bounded:
  assumes "limits_usable P G R" "env_ok e" "\<forall>op\<in>set ops. op_ok L P op"
  shows "\<exists>st. run_orphanage e ops (new_orphanage G R) = Some st \<and> bounded L P G R st \<and> \<not> needs_trim st"
  unfolding run_orphanage_def
proof (rule fold_opt_invariant [where I = "\<lambda>st. bounded L P G R st \<and> \<not> needs_trim st", simplified])
  show "bounded L P G R (new_orphanage G R) \<and> \<not> needs_trim (new_orphanage G R)"
    using new_orphanage_bounded assms(1) by (auto simp: limits_usable_def)
  show "\<exists>s'. orphanage_step e x s = Some s' \<and> bounded L P G R s' \<and> \<not> needs_trim s'"
    if "x \<in> set ops" "bounded L P G R s \<and> \<not> needs_trim s" for x s
    using step_bounded [of L P G R s e x] that assms by blast
qed

definition peer_share :: "(int \<rightharpoonup> orphan_announcement) \<Rightarrow> int \<Rightarrow> int" where
  \<comment> \<open>each announcing peer's share of the latency score\<close>
  "peer_share A G = G div max (int (card {p. owned A p \<noteq> {}})) 1"

lemma over_share_use_of:
  assumes "bounded L P G R st" "over_share (max_peer_latency_score st) R st p"
  shows "\<exists>u. use_of (anns st) p = Some u \<and> \<not> within_share (peer_share (anns st) G) R u"
proof -
  have "uses_ok st" using assms(1) by (simp add: bounded_def orphans_ok_def)
  with holders_uses(2) [OF this] assms show ?thesis
    by (auto simp: over_share_def uses_ok_def bounded_def max_peer_latency_score_def peer_share_def holders_def)
qed

section \<open>The properties\<close>


definition example_tx :: "8 word \<Rightarrow> int \<Rightarrow> orphan_tx" where
  "example_tx b v = \<lparr> ot_id = [b], ot_hash = [b], ot_weight = 400, ot_vin = [([9], v)], ot_vout = 2 \<rparr>"

definition example_env :: orphanage_env where
  "example_env = \<lparr> max_standard_tx_weight = 400000, iter_set = sorted_list_of_set, choice = hd \<rparr>"

lemma example_env_ok: "env_ok example_env"
  by (auto simp: example_env_def env_ok_def set_order_def picks_def)


text \<open>Two orphans of peer 1, spending the first two outputs of one parent.\<close>

definition example_ops :: "orphanage_op list" where
  "example_ops = [AddTx (example_tx 1 0) 1, AddTx (example_tx 2 1) 1]"

definition example_txs :: "bytes \<Rightarrow> orphan_tx" where
  "example_txs w = example_tx (hd w) (if hd w = 2 then 1 else 0)"

lemma example_ops_ok:
  "limits_usable {1, 2} 2 404000" "\<forall>op\<in>set example_ops. op_ok example_txs {1, 2} op"
  "sent example_txs (example_tx 3 0)"
  by (auto simp: limits_usable_def example_ops_def sent_def example_txs_def example_tx_def)



text \<open>
  C24. A block leaves no orphan it includes or conflicts with: after \<open>erase_for_block\<close>, which does
  not raise, no orphan kept spends an outpoint a transaction of the block spends, and an
  announcement of any other orphan is gone only where its peer was over its share among them.
\<close>
theorem block_clears_conflicts:
  assumes "limits_usable P G R" "env_ok e" "\<forall>op\<in>set ops. op_ok L P op"
    and "run_orphanage e ops (new_orphanage G R) = Some st"
  shows "\<exists>st'. erase_for_block (iter_set e) txs st = Some st'
    \<and> (\<forall>w tx key. have_tx w st' \<longrightarrow> tx \<in> set txs \<longrightarrow> key \<in> set (ot_vin tx) \<longrightarrow> key \<notin> set (ot_vin (L w)))
    \<and> (\<forall>i a. let A = keeping (\<lambda>a. an_wtxid a \<notin> conflicting L txs st) (anns st) in
          A i = Some a \<longrightarrow> anns st' i = None \<longrightarrow>
          (\<exists>u. use_of A (an_announcer a) = Some u \<and> \<not> within_share (peer_share A G) R u))"
proof -
  have st: "bounded L P G R st" "\<not> needs_trim st" using run_bounded [OF assms(1-3)] assms(4) by auto
  have ok: "orphans_ok L st" using st(1) by (simp add: bounded_def)
  obtain st' st1 where st1: "erase_for_block (iter_set e) txs st = Some st'" "bounded L P G R st'" "bounded L P G R st1"
    "anns st1 = keeping (\<lambda>a. an_wtxid a \<notin> conflicting L txs st) (anns st)"
    "evicts (max_peer_latency_score st1) R st1 st'"
    using erase_for_block_bounded [OF st(1) assms(1) _ st(2), of "iter_set e" txs] assms(2) by (auto simp: env_ok_def)
  have "key \<notin> set (ot_vin (L w))" if "have_tx w st'" "tx \<in> set txs" "key \<in> set (ot_vin tx)" for w tx key
  proof -
    have "w \<in> wtxids (anns st')"
      using that(1) wtxid_ids(3) [of st' w] st1(2) by (auto simp: have_tx_def bounded_def orphans_ok_def)
    then obtain i a where "anns st' i = Some a" "an_wtxid a = w" by (auto simp: wtxids_def live_def)
    moreover have "anns st' \<subseteq>\<^sub>m anns st1" using evicts_bounded [OF st1(5,3)] by simp
    ultimately have "anns st1 i = Some a" by (metis domI map_le_def)
    then have "anns st i = Some a" "w \<notin> conflicting L txs st"
      using \<open>an_wtxid a = w\<close> unfolding st1(4) by auto
    moreover from this \<open>an_wtxid a = w\<close> have "w \<in> wtxids (anns st)" by (auto simp: wtxids_def live_def)
    ultimately show ?thesis using that by (auto simp: conflicting_def)
  qed
  moreover have "\<exists>u. use_of (anns st1) (an_announcer a) = Some u \<and> \<not> within_share (peer_share (anns st1) G) R u"
    if "anns st1 i = Some a" "anns st' i = None" for i a
  proof -
    have "i \<notin> owned (anns st') (an_announcer a)" using that(2) by (simp add: owned_def)
    then have "over_share (max_peer_latency_score st1) R st1 (an_announcer a)"
      using evicts_fair [OF st1(5,3)] owned_mem [of "anns st1", OF that(1)] by blast
    with over_share_use_of [OF st1(3)] show ?thesis by blast
  qed
  ultimately show ?thesis using st1(1) unfolding st1(4) Let_def by blast
qed

lemma block_clears_conflicts_witness:
  "\<exists>st st'. run_orphanage example_env example_ops (new_orphanage 2 404000) = Some st \<and> have_tx [1] st
    \<and> erase_for_block (iter_set example_env) [example_tx 4 0] st = Some st' \<and> \<not> have_tx [1] st'"
proof -
  have "map_option (have_tx [1]) (run_orphanage example_env example_ops (new_orphanage 2 404000)) = Some True"
    by code_simp
  then obtain st where st: "run_orphanage example_env example_ops (new_orphanage 2 404000) = Some st" "have_tx [1] st"
    by auto
  have "([9], 0) \<in> set (ot_vin (example_tx 4 0))" "([9], 0) \<in> set (ot_vin (example_txs [1]))"
    by (simp_all add: example_tx_def example_txs_def)
  with block_clears_conflicts [OF example_ops_ok(1) example_env_ok example_ops_ok(2) st(1), of "[example_tx 4 0]"] st
  show ?thesis by auto
qed

text \<open>
  C29. A parent marks each of its children once: \<open>add_children_to_work_set\<close> does not raise and
  answers exactly the orphans spending one of the parent's outputs that no announcer is to
  reconsider yet, each once, with one of its announcers; that announcement is marked, and no
  other mark changes, so that at most one announcer of an orphan is ever to reconsider it.
\<close>
lemma children_are_marked_once:
  assumes "limits_usable P G R" "env_ok e" "\<forall>op\<in>set ops. op_ok L P op"
    and "run_orphanage e ops (new_orphanage G R) = Some st"
  shows "\<exists>st' answer. add_children_to_work_set (choice e) tx st = Some (st', answer)
    \<and> distinct (map fst answer)
    \<and> fst ` set answer = {w. have_tx w st \<and> (\<exists>v<ot_vout tx. (ot_id tx, int v) \<in> set (ot_vin (L w)))
        \<and> (\<forall>q. \<not> marked (anns st) w q)}
    \<and> (\<forall>w p. marked (anns st') w p \<longleftrightarrow> marked (anns st) w p \<or> (w, p) \<in> set answer)
    \<and> (\<forall>w p q. marked (anns st') w p \<longrightarrow> have_tx_from_peer w p st \<and> (marked (anns st') w q \<longrightarrow> q = p))"
proof -
  have st: "bounded L P G R st" using run_bounded [OF assms(1-3)] assms(4) by auto
  then have ok: "orphans_ok L st" by (simp add: bounded_def)
  obtain st' mk where run: "add_children_to_work_set (choice e) tx st = Some (st', mk)"
    "marking L st {w \<in> wtxids (anns st). spends_output tx (ot_vout tx) L w} st' mk"
    using add_children_spec [OF ok, of "choice e" tx] assms(2) by (auto simp: env_ok_def)
  have "have_tx w st \<longleftrightarrow> w \<in> wtxids (anns st)" for w
    using wtxid_ids(3) [OF orphans_okD(2) [OF ok], of w] by (simp add: have_tx_def)
  then have "fst ` set mk = {w. have_tx w st \<and> (\<exists>v<ot_vout tx. (ot_id tx, int v) \<in> set (ot_vin (L w)))
      \<and> (\<forall>q. \<not> marked (anns st) w q)}"
    using run(2) by (auto simp: marking_def spends_output_def)
  moreover have "have_tx_from_peer w p st" if "marked (anns st') w p" for w p
  proof -
    from that have "\<exists>i. live (anns st') w p i" by (auto simp: marked_def live_def)
    then obtain i where "live (anns st) w p i" using run(2) by (auto simp: marking_def)
    then have "get2 (by_wtxid st) w p = Some i" using orphans_okD(2) [OF ok] by (simp add: index_ok_def)
    then show ?thesis by (simp add: have_tx_from_peer_def get2_def)
  qed
  moreover have "q = p" if "marked (anns st') w p" "marked (anns st') w q" for w p q
    using that run(2) orphans_okD(5) [of L st'] unfolding marking_def marks_ok_def by (metis option.inject)
  moreover have "distinct (map fst mk)"
    "\<forall>w p. marked (anns st') w p \<longleftrightarrow> marked (anns st) w p \<or> (w, p) \<in> set mk"
    using run(2) by (simp_all add: marking_def)
  ultimately show ?thesis using run(1) by (intro exI [of _ st'] exI [of _ mk] conjI) simp_all
qed

lemma children_are_marked_once_witness:
  "\<exists>st st' answer. run_orphanage example_env example_ops (new_orphanage 2 404000) = Some st
    \<and> add_children_to_work_set (choice example_env) ((example_tx 9 0)\<lparr> ot_vout := 1 \<rparr>) st = Some (st', answer)
    \<and> answer = [([1], 1)] \<and> marked (anns st') [1] 1"
proof -
  have "(case run_orphanage example_env example_ops (new_orphanage 2 404000) of None \<Rightarrow> None
    | Some st \<Rightarrow> map_option snd (add_children_to_work_set (choice example_env) ((example_tx 9 0)\<lparr> ot_vout := 1 \<rparr>) st))
    = Some [([1], 1)]"
    by code_simp
  then obtain st st' where run: "run_orphanage example_env example_ops (new_orphanage 2 404000) = Some st"
    "add_children_to_work_set (choice example_env) ((example_tx 9 0)\<lparr> ot_vout := 1 \<rparr>) st = Some (st', [([1], 1)])"
    by (auto split: option.splits)
  with children_are_marked_once [OF example_ops_ok(1) example_env_ok example_ops_ok(2) run(1),
      of "(example_tx 9 0)\<lparr> ot_vout := 1 \<rparr>"]
  show ?thesis by auto
qed

end
