(* ===== verification/Tx_Request.thy ===== *)
theory Tx_Request
  imports Nested_Dict "HOL-Library.Product_Lexorder"
begin

unbundle bit_operations_syntax

text \<open>
  \<open>TxRequestTracker\<close> of \<open>txrequest.py\<close>: which peer is asked for an announced transaction.  An
  announcement is an object shared by the table of its peer, the table of its \<open>txhash\<close> and the
  events: the model keeps it in the heap \<open>tr_heap\<close> under its sequence number, which is the
  reference they hold; \<open>_erase\<close> leaves it there, not alive, as an event may still refer to it.
  The heap queue \<open>_events\<close> is the list of its entries in ascending order, which is all that
  \<open>heapq\<close> lets be seen of it; a time is a real number, and \<open>_last_now\<close> is \<open>None\<close> for the minus
  infinity it starts from.  btclib's \<open>siphash\<close> is a parameter.
\<close>

section \<open>State\<close>

datatype req_state = Delayed | Ready | Best | Requested | Completed

record tx_announcement =
  ta_txhash :: bytes
  ta_peer :: int
  ta_preferred :: bool
  ta_sequence :: int
  ta_time :: real
  ta_state :: req_state
  ta_alive :: bool
  ta_txid :: bool

record tracked_peer =
  tp_announcements :: "(bytes, int) dict"
  tp_best :: "(bytes, int) dict"
  tp_requested :: int
  tp_completed :: int

type_synonym event = "real \<times> int \<times> int"

record tx_tracker =
  tr_keys :: "int \<times> int"
  tr_sequence :: int
  tr_heap :: "int \<rightharpoonup> tx_announcement"
  tr_peers :: "(int, tracked_peer) dict"
  tr_by_hash :: "(bytes, int, int) nested"
  tr_events :: "event list"
  tr_waiting :: int
  tr_tie :: int
  tr_last_now :: "real option"

type_synonym siphash = "int \<Rightarrow> int \<Rightarrow> bytes \<Rightarrow> int"

definition is_waiting :: "req_state \<Rightarrow> bool" where
  "is_waiting s \<longleftrightarrow> s = Delayed \<or> s = Requested"

definition compact_slack :: int where
  "compact_slack = 64"

definition new_tracker :: "int \<times> int \<Rightarrow> tx_tracker" where
  \<comment> \<open>\<open>keys\<close> are drawn at random, or zero for tests\<close>
  "new_tracker keys =
     \<lparr> tr_keys = keys, tr_sequence = 0, tr_heap = Map.empty, tr_peers = [], tr_by_hash = [], tr_events = [],
       tr_waiting = 0, tr_tie = 0, tr_last_now = None \<rparr>"

definition new_tracked_peer :: tracked_peer where
  "new_tracked_peer = \<lparr> tp_announcements = [], tp_best = [], tp_requested = 0, tp_completed = 0 \<rparr>"

definition req_at :: "tx_tracker \<Rightarrow> int \<Rightarrow> tx_announcement" where
  \<comment> \<open>the object a reference stands for\<close>
  "req_at st i = the (tr_heap st i)"

definition known_announcement :: "int \<Rightarrow> bytes \<Rightarrow> tx_tracker \<Rightarrow> int option" where
  \<comment> \<open>\<open>None if known is None else known.announcements.get(txhash)\<close>\<close>
  "known_announcement peer txhash st =
     (case map_of (tr_peers st) peer of None \<Rightarrow> None | Some known \<Rightarrow> map_of (tp_announcements known) txhash)"

section \<open>Priority\<close>

definition uint64_bytes :: "int \<Rightarrow> bytes" where
  \<comment> \<open>\<open>(x & _MASK64).to_bytes(8, "little")\<close>\<close>
  "uint64_bytes x = map (\<lambda>k. word_of_int (take_bit 64 x div 256 ^ k)) [0..<8]"

definition compute_priority :: "siphash \<Rightarrow> bytes \<Rightarrow> int \<Rightarrow> bool \<Rightarrow> tx_tracker \<Rightarrow> int" where
  "compute_priority sip txhash peer preferred st =
     drop_bit 1 (sip (fst (tr_keys st)) (snd (tr_keys st)) (txhash @ uint64_bytes peer))
       OR push_bit 63 (of_bool preferred)"

definition req_priority :: "siphash \<Rightarrow> int \<Rightarrow> tx_tracker \<Rightarrow> int" where
  "req_priority sip i st =
     (let a = req_at st i in compute_priority sip (ta_txhash a) (ta_peer a) (ta_preferred a) st)"

section \<open>Events\<close>

definition event_key :: "event \<Rightarrow> real \<times> int" where
  "event_key e = (fst e, fst (snd e))"

definition waiting_ids :: "tx_tracker \<Rightarrow> int list" where
  "waiting_ids st =
     filter (\<lambda>i. is_waiting (ta_state (req_at st i)))
       (concat (map (\<lambda>(_, known). map snd (tp_announcements known)) (tr_peers st)))"

definition compact :: "tx_tracker \<Rightarrow> tx_tracker" where
  "compact st =
     (if int (length (tr_events st)) \<le> 2 * tr_waiting st + compact_slack then st
      else
        let ids = waiting_ids st;
            entries = map (\<lambda>(n, i). (ta_time (req_at st i), tr_tie st + int n, i)) (enumerate 0 ids)
        in st\<lparr> tr_events := sort_key event_key entries, tr_tie := tr_tie st + int (length ids) \<rparr>)"

definition schedule :: "int \<Rightarrow> tx_tracker \<Rightarrow> tx_tracker" where
  "schedule i st =
     compact (st\<lparr> tr_events := insort_key event_key (ta_time (req_at st i), tr_tie st, i) (tr_events st),
                  tr_tie := tr_tie st + 1 \<rparr>)"

section \<open>One announcement\<close>

definition first_where :: "('a \<Rightarrow> bool) \<Rightarrow> 'a list \<Rightarrow> 'a option" where
  "first_where Q xs = (case filter Q xs of [] \<Rightarrow> None | x # _ \<Rightarrow> Some x)"

definition req_selected :: "bytes \<Rightarrow> tx_tracker \<Rightarrow> int option" where
  "req_selected txhash st =
     first_where (\<lambda>i. ta_state (req_at st i) = Best \<or> ta_state (req_at st i) = Requested)
       (map snd (inner (tr_by_hash st) txhash))"

definition set_req_state :: "int \<Rightarrow> req_state \<Rightarrow> tx_tracker \<Rightarrow> tx_tracker option" where
  "set_req_state i s st =
     do {
       a \<leftarrow> tr_heap st i;
       let old = ta_state a;
       peer \<leftarrow> map_of (tr_peers st) (ta_peer a);
       peer1 \<leftarrow> (if old = Best then do {
                    _ \<leftarrow> map_of (tp_best peer) (ta_txhash a);
                    Some (peer\<lparr> tp_best := AList.delete (ta_txhash a) (tp_best peer) \<rparr>)
                  }
                  else if old = Requested then Some (peer\<lparr> tp_requested := tp_requested peer - 1 \<rparr>)
                  else Some peer);
       let peer2 = (if s = Best then peer1\<lparr> tp_best := AList.update (ta_txhash a) i (tp_best peer1) \<rparr>
                    else if s = Requested then peer1\<lparr> tp_requested := tp_requested peer1 + 1 \<rparr>
                    else if s = Completed then peer1\<lparr> tp_completed := tp_completed peer1 + 1 \<rparr>
                    else peer1);
       Some (st\<lparr> tr_waiting := tr_waiting st + (of_bool (is_waiting s) - of_bool (is_waiting old)),
                 tr_heap := (tr_heap st)(i \<mapsto> a\<lparr> ta_state := s \<rparr>),
                 tr_peers := AList.update (ta_peer a) peer2 (tr_peers st) \<rparr>)
     }"

definition req_erase :: "int \<Rightarrow> tx_tracker \<Rightarrow> tx_tracker option" where
  "req_erase i st =
     do {
       a \<leftarrow> tr_heap st i;
       peer \<leftarrow> map_of (tr_peers st) (ta_peer a);
       peer1 \<leftarrow> (if ta_state a = Best then do {
                    _ \<leftarrow> map_of (tp_best peer) (ta_txhash a);
                    Some (peer\<lparr> tp_best := AList.delete (ta_txhash a) (tp_best peer) \<rparr>)
                  }
                  else if ta_state a = Requested then Some (peer\<lparr> tp_requested := tp_requested peer - 1 \<rparr>)
                  else if ta_state a = Completed then Some (peer\<lparr> tp_completed := tp_completed peer - 1 \<rparr>)
                  else Some peer);
       _ \<leftarrow> map_of (tp_announcements peer1) (ta_txhash a);
       let peer2 = peer1\<lparr> tp_announcements := AList.delete (ta_txhash a) (tp_announcements peer1) \<rparr>;
       by_hash \<leftarrow> del2 (ta_txhash a) (ta_peer a) (tr_by_hash st);
       Some (st\<lparr> tr_waiting := tr_waiting st - of_bool (is_waiting (ta_state a)),
                 tr_peers := (if tp_announcements peer2 = [] then AList.delete (ta_peer a) (tr_peers st)
                              else AList.update (ta_peer a) peer2 (tr_peers st)),
                 tr_by_hash := by_hash,
                 tr_heap := (tr_heap st)(i \<mapsto> a\<lparr> ta_alive := False \<rparr>) \<rparr>)
     }"

definition promote :: "siphash \<Rightarrow> int \<Rightarrow> tx_tracker \<Rightarrow> tx_tracker option" where
  "promote sip i st =
     do {
       st1 \<leftarrow> set_req_state i Ready st;
       case req_selected (ta_txhash (req_at st1 i)) st1 of
         None \<Rightarrow> set_req_state i Best st1
       | Some j \<Rightarrow>
           if ta_state (req_at st1 j) = Best \<and> req_priority sip i st1 > req_priority sip j st1
           then do { st2 \<leftarrow> set_req_state j Ready st1; set_req_state i Best st2 }
           else Some st1
     }"

definition first_max :: "('a \<Rightarrow> int) \<Rightarrow> 'a list \<Rightarrow> 'a option" where
  \<comment> \<open>\<open>max(xs, key=f)\<close>, the first of the greatest\<close>
  "first_max f xs = (case xs of [] \<Rightarrow> None | x # ys \<Rightarrow> Some (fold (\<lambda>y m. if f m < f y then y else m) ys x))"

definition change_and_reselect :: "siphash \<Rightarrow> int \<Rightarrow> req_state \<Rightarrow> tx_tracker \<Rightarrow> tx_tracker option" where
  "change_and_reselect sip i s st =
     do {
       a \<leftarrow> tr_heap st i;
       st1 \<leftarrow> (if ta_state a = Best \<or> ta_state a = Requested then do {
                  holders \<leftarrow> map_of (tr_by_hash st) (ta_txhash a);
                  let ready = filter (\<lambda>j. ta_state (req_at st j) = Ready) (map snd holders);
                  case first_max (\<lambda>j. req_priority sip j st) ready of
                    None \<Rightarrow> Some st
                  | Some j \<Rightarrow> set_req_state j Best st
                }
                else Some st);
       set_req_state i s st1
     }"

definition forget_tx_hash :: "bytes \<Rightarrow> tx_tracker \<Rightarrow> tx_tracker option" where
  "forget_tx_hash txhash st = fold_opt req_erase (map snd (inner (tr_by_hash st) txhash)) st"

definition make_completed :: "siphash \<Rightarrow> int \<Rightarrow> tx_tracker \<Rightarrow> (tx_tracker \<times> bool) option" where
  "make_completed sip i st =
     do {
       a \<leftarrow> tr_heap st i;
       if ta_state a = Completed then Some (st, True)
       else do {
         holders \<leftarrow> map_of (tr_by_hash st) (ta_txhash a);
         if \<forall>j\<in>set (map snd holders). j = i \<or> ta_state (req_at st j) = Completed
         then do { st1 \<leftarrow> forget_tx_hash (ta_txhash a) st; Some (st1, False) }
         else do { st1 \<leftarrow> change_and_reselect sip i Completed st; Some (st1, True) }
       }
     }"

section \<open>Time\<close>

definition time_back :: "siphash \<Rightarrow> real \<Rightarrow> int \<Rightarrow> tx_tracker \<Rightarrow> tx_tracker option" where
  "time_back sip now i st =
     (let a = req_at st i
      in if (ta_state a = Ready \<or> ta_state a = Best) \<and> ta_time a > now
         then do { st1 \<leftarrow> change_and_reselect sip i Delayed st; Some (schedule i st1) }
         else Some st)"

definition time_back_peer :: "siphash \<Rightarrow> real \<Rightarrow> int \<times> tracked_peer \<Rightarrow> tx_tracker \<Rightarrow> tx_tracker option" where
  "time_back_peer sip now known st =
     (let announcements = (case map_of (tr_peers st) (fst known) of None \<Rightarrow> [] | Some k \<Rightarrow> tp_announcements k)
      in fold_opt (time_back sip now) (map snd announcements) st)"

definition reach_event :: "siphash \<Rightarrow> event \<Rightarrow> tx_tracker \<times> (int \<times> bytes) list \<Rightarrow> (tx_tracker \<times> (int \<times> bytes) list) option" where
  \<comment> \<open>what the loop does with an event it has popped\<close>
  "reach_event sip e s =
     (case (e, s) of ((time, _, i), (st, expired)) \<Rightarrow>
       let a = req_at st i
       in if \<not> ta_alive a \<or> ta_time a \<noteq> time then Some (st, expired)
          else if ta_state a = Delayed then do { st1 \<leftarrow> promote sip i st; Some (st1, expired) }
          else if ta_state a = Requested then do {
            (st1, _) \<leftarrow> make_completed sip i st;
            Some (st1, expired @ [(ta_peer a, ta_txhash a)])
          }
          else Some (st, expired))"

partial_function (option) event_loop ::
  "siphash \<Rightarrow> real \<Rightarrow> tx_tracker \<Rightarrow> (int \<times> bytes) list \<Rightarrow> (tx_tracker \<times> (int \<times> bytes) list) option" where
  "event_loop sip now st expired =
     (case tr_events st of
        [] \<Rightarrow> Some (st, expired)
      | e # rest \<Rightarrow>
          if fst e > now then Some (st, expired)
          else do {
            (st1, expired1) \<leftarrow> reach_event sip e (st\<lparr> tr_events := rest \<rparr>, expired);
            event_loop sip now st1 expired1
          })"

declare event_loop.simps [code]

definition set_time_point :: "siphash \<Rightarrow> real \<Rightarrow> tx_tracker \<Rightarrow> (tx_tracker \<times> (int \<times> bytes) list) option" where
  "set_time_point sip now st =
     do {
       st1 \<leftarrow> (case tr_last_now st of
                  None \<Rightarrow> Some st
                | Some before \<Rightarrow> if now < before then fold_opt (time_back_peer sip now) (tr_peers st) st else Some st);
       (st2, expired) \<leftarrow> event_loop sip now (st1\<lparr> tr_last_now := Some now \<rparr>) [];
       Some (compact st2, expired)
     }"

section \<open>Operations\<close>

definition received_inv :: "int \<Rightarrow> bytes \<Rightarrow> bool \<Rightarrow> real \<Rightarrow> bool \<Rightarrow> tx_tracker \<Rightarrow> tx_tracker" where
  "received_inv peer txhash preferred reqtime txid st =
     (if known_announcement peer txhash st \<noteq> None then st
      else
        let i = tr_sequence st;
            a = \<lparr> ta_txhash = txhash, ta_peer = peer, ta_preferred = preferred, ta_sequence = i,
                  ta_time = reqtime, ta_state = Delayed, ta_alive = True, ta_txid = txid \<rparr>;
            known = (case map_of (tr_peers st) peer of None \<Rightarrow> new_tracked_peer | Some k \<Rightarrow> k);
            known' = known\<lparr> tp_announcements := AList.update txhash i (tp_announcements known) \<rparr>
        in schedule i (st\<lparr> tr_sequence := i + 1,
                           tr_heap := (tr_heap st)(i \<mapsto> a),
                           tr_peers := AList.update peer known' (tr_peers st),
                           tr_waiting := tr_waiting st + 1,
                           tr_by_hash := put2 txhash peer i (tr_by_hash st) \<rparr>))"

definition complete_and_erase :: "siphash \<Rightarrow> int \<Rightarrow> tx_tracker \<Rightarrow> tx_tracker option" where
  "complete_and_erase sip i st =
     do { (st1, exists) \<leftarrow> make_completed sip i st; if exists then req_erase i st1 else Some st1 }"

definition disconnected_peer :: "siphash \<Rightarrow> int \<Rightarrow> tx_tracker \<Rightarrow> tx_tracker option" where
  "disconnected_peer sip peer st =
     (case map_of (tr_peers st) peer of
        None \<Rightarrow> Some st
      | Some known \<Rightarrow> fold_opt (complete_and_erase sip) (map snd (tp_announcements known)) st)"

definition get_requestable ::
  "siphash \<Rightarrow> int \<Rightarrow> real \<Rightarrow> tx_tracker \<Rightarrow> (tx_tracker \<times> bytes list \<times> (int \<times> bytes) list) option" where
  "get_requestable sip peer now st =
     do {
       (st1, expired) \<leftarrow> set_time_point sip now st;
       Some (case map_of (tr_peers st1) peer of
               None \<Rightarrow> (st1, [], expired)
             | Some known \<Rightarrow>
                 let best = sort_key (\<lambda>i. ta_sequence (req_at st1 i)) (map snd (tp_best known))
                 in (st1, map (\<lambda>i. ta_txhash (req_at st1 i)) best, expired))
     }"

definition unselect :: "bytes \<Rightarrow> tx_tracker \<Rightarrow> tx_tracker option" where
  \<comment> \<open>what \<open>requested_tx\<close> does to the announcement selected before\<close>
  "unselect txhash st =
     (case req_selected txhash st of
        None \<Rightarrow> Some st
      | Some j \<Rightarrow> set_req_state j (if ta_state (req_at st j) = Best then Ready else Completed) st)"

definition requested_tx :: "int \<Rightarrow> bytes \<Rightarrow> real \<Rightarrow> tx_tracker \<Rightarrow> tx_tracker option" where
  "requested_tx peer txhash expiry st =
     (case known_announcement peer txhash st of
        None \<Rightarrow> Some st
      | Some i \<Rightarrow>
          let s = ta_state (req_at st i)
          in if s = Requested \<or> s = Completed then Some st
             else do {
               st1 \<leftarrow> (if s \<noteq> Best then unselect txhash st else Some st);
               st2 \<leftarrow> set_req_state i Requested st1;
               Some (schedule i (st2\<lparr> tr_heap := (tr_heap st2)(i \<mapsto> (req_at st2 i)\<lparr> ta_time := expiry \<rparr>) \<rparr>))
             })"

definition received_response :: "siphash \<Rightarrow> int \<Rightarrow> bytes \<Rightarrow> tx_tracker \<Rightarrow> tx_tracker option" where
  "received_response sip peer txhash st =
     (case known_announcement peer txhash st of
        None \<Rightarrow> Some st
      | Some i \<Rightarrow> map_option fst (make_completed sip i st))"

section \<open>Queries\<close>

definition is_txid :: "int \<Rightarrow> bytes \<Rightarrow> tx_tracker \<Rightarrow> bool" where
  "is_txid peer txhash st =
     (case known_announcement peer txhash st of None \<Rightarrow> False | Some i \<Rightarrow> ta_txid (req_at st i))"

definition count_in_flight :: "int \<Rightarrow> tx_tracker \<Rightarrow> int" where
  "count_in_flight peer st = (case map_of (tr_peers st) peer of None \<Rightarrow> 0 | Some known \<Rightarrow> tp_requested known)"

definition count_candidates :: "int \<Rightarrow> tx_tracker \<Rightarrow> int" where
  "count_candidates peer st =
     (case map_of (tr_peers st) peer of
        None \<Rightarrow> 0
      | Some known \<Rightarrow> int (length (tp_announcements known)) - tp_requested known - tp_completed known)"

definition count_announcements :: "int \<Rightarrow> tx_tracker \<Rightarrow> int" where
  "count_announcements peer st =
     (case map_of (tr_peers st) peer of None \<Rightarrow> 0 | Some known \<Rightarrow> int (length (tp_announcements known)))"

definition tracker_size :: "tx_tracker \<Rightarrow> int" where
  "tracker_size st = sum_list (map (\<lambda>(_, known). int (length (tp_announcements known))) (tr_peers st))"

definition tracker_peers :: "tx_tracker \<Rightarrow> int list" where
  "tracker_peers st = map fst (tr_peers st)"

definition get_candidate_peers :: "bytes \<Rightarrow> tx_tracker \<Rightarrow> int list" where
  "get_candidate_peers txhash st =
     map (\<lambda>i. ta_peer (req_at st i))
       (filter (\<lambda>i. ta_state (req_at st i) \<noteq> Completed) (map snd (inner (tr_by_hash st) txhash)))"

end
