(* ===== verification/Tx_Request_Tables.thy ===== *)
theory Tx_Request_Tables
  imports Tx_Request
begin

text \<open>
  The tables of the request tracker: everything beside the events is a function of the
  announcements alive.  The lemmas show that adding an announcement, changing its state and
  erasing it keep the tables right and do not raise.
\<close>

section \<open>What the announcements alive determine\<close>

definition reqs :: "tx_tracker \<Rightarrow> int \<rightharpoonup> tx_announcement" where
  "reqs st = (\<lambda>i. case tr_heap st i of None \<Rightarrow> None | Some a \<Rightarrow> if ta_alive a then Some a else None)"

definition held :: "(int \<rightharpoonup> tx_announcement) \<Rightarrow> bytes \<Rightarrow> int \<Rightarrow> int \<Rightarrow> bool" where
  "held A h p i \<longleftrightarrow> (\<exists>a. A i = Some a \<and> ta_txhash a = h \<and> ta_peer a = p)"

definition held_best :: "(int \<rightharpoonup> tx_announcement) \<Rightarrow> bytes \<Rightarrow> int \<Rightarrow> int \<Rightarrow> bool" where
  "held_best A h p i \<longleftrightarrow> (\<exists>a. A i = Some a \<and> ta_txhash a = h \<and> ta_peer a = p \<and> ta_state a = Best)"

definition count_reqs :: "(int \<rightharpoonup> tx_announcement) \<Rightarrow> (tx_announcement \<Rightarrow> bool) \<Rightarrow> int" where
  "count_reqs A Q = int (card {i. \<exists>a. A i = Some a \<and> Q a})"

definition in_state :: "int \<Rightarrow> req_state \<Rightarrow> tx_announcement \<Rightarrow> bool" where
  "in_state p s a \<longleftrightarrow> ta_peer a = p \<and> ta_state a = s"

definition waits :: "tx_announcement \<Rightarrow> bool" where
  "waits a \<longleftrightarrow> is_waiting (ta_state a)"

definition peer_ok :: "(int \<rightharpoonup> tx_announcement) \<Rightarrow> int \<Rightarrow> tracked_peer \<Rightarrow> bool" where
  "peer_ok A p k \<longleftrightarrow> tp_announcements k \<noteq> [] \<and> distinct (map fst (tp_announcements k)) \<and> distinct (map fst (tp_best k))
     \<and> (\<forall>h i. map_of (tp_announcements k) h = Some i \<longleftrightarrow> held A h p i)
     \<and> (\<forall>h i. map_of (tp_best k) h = Some i \<longleftrightarrow> held_best A h p i)
     \<and> tp_requested k = count_reqs A (in_state p Requested)
     \<and> tp_completed k = count_reqs A (in_state p Completed)"

definition peers_ok :: "(int \<rightharpoonup> tx_announcement) \<Rightarrow> (int, tracked_peer) dict \<Rightarrow> bool" where
  "peers_ok A peers \<longleftrightarrow> distinct (map fst peers)
     \<and> (\<forall>p. case map_of peers p of None \<Rightarrow> \<forall>h i. \<not> held A h p i | Some k \<Rightarrow> peer_ok A p k)"

definition store_ok :: "tx_tracker \<Rightarrow> bool" where
  "store_ok st \<longleftrightarrow> finite (dom (tr_heap st))
     \<and> (\<forall>i a. tr_heap st i = Some a \<longrightarrow> ta_sequence a = i \<and> i < tr_sequence st)
     \<and> (\<forall>h p i j. held (reqs st) h p i \<longrightarrow> held (reqs st) h p j \<longrightarrow> i = j)"

definition hashes_ok :: "tx_tracker \<Rightarrow> bool" where
  "hashes_ok st \<longleftrightarrow> nested_ok (tr_by_hash st) \<and> (\<forall>h p i. get2 (tr_by_hash st) h p = Some i \<longleftrightarrow> held (reqs st) h p i)"

definition tables_ok :: "tx_tracker \<Rightarrow> bool" where
  "tables_ok st \<longleftrightarrow> store_ok st \<and> hashes_ok st \<and> peers_ok (reqs st) (tr_peers st)
     \<and> tr_waiting st = count_reqs (reqs st) waits"

lemma tables_okD:
  assumes "tables_ok st"
  shows "store_ok st" "hashes_ok st" "peers_ok (reqs st) (tr_peers st)" "tr_waiting st = count_reqs (reqs st) waits"
  using assms by (simp_all add: tables_ok_def)

lemma reqs_Some: "reqs st i = Some a \<longleftrightarrow> tr_heap st i = Some a \<and> ta_alive a"
  by (auto simp: reqs_def split: option.splits)

lemma reqs_at: "reqs st i = Some a \<Longrightarrow> req_at st i = a"
  by (simp add: reqs_Some req_at_def)

lemma reqs_finite: "store_ok st \<Longrightarrow> finite (dom (reqs st))"
  by (rule finite_subset [of _ "dom (tr_heap st)"]) (auto simp: reqs_Some store_ok_def)

lemma reqs_upd:
  assumes "tr_heap st' = (tr_heap st)(i \<mapsto> a)" "ta_alive a"
  shows "reqs st' = (reqs st)(i \<mapsto> a)"
  using assms by (auto simp: reqs_def)

lemma reqs_kill:
  assumes "tr_heap st' = (tr_heap st)(i \<mapsto> a)" "\<not> ta_alive a"
  shows "reqs st' = (reqs st)(i := None)"
  using assms by (auto simp: reqs_def)

section \<open>Counting\<close>

lemma where_finite: "finite (dom A) \<Longrightarrow> finite {i. \<exists>a. A i = Some a \<and> Q a}"
  by (erule rev_finite_subset) auto

lemma count_reqs_put:
  assumes "finite (dom A)" "A i = None"
  shows "count_reqs (A(i \<mapsto> a)) Q = count_reqs A Q + of_bool (Q a)"
proof -
  have "{j. \<exists>b. (A(i \<mapsto> a)) j = Some b \<and> Q b}
      = (if Q a then insert i {j. \<exists>b. A j = Some b \<and> Q b} else {j. \<exists>b. A j = Some b \<and> Q b})"
    using assms(2) by auto
  with where_finite [OF assms(1), of Q] assms(2) show ?thesis by (simp add: count_reqs_def del: fun_upd_apply)
qed

lemma count_reqs_del:
  assumes "finite (dom A)" "A i = Some a"
  shows "count_reqs (A(i := None)) Q = count_reqs A Q - of_bool (Q a)"
proof -
  have "finite (dom (A(i := None)))" using assms(1) by simp
  from count_reqs_put [OF this, of i a Q] assms(2) show ?thesis by (simp add: fun_upd_idem)
qed

lemma count_reqs_upd:
  assumes "finite (dom A)" "A i = Some a"
  shows "count_reqs (A(i \<mapsto> b)) Q = count_reqs A Q - of_bool (Q a) + of_bool (Q b)"
proof -
  have "finite (dom (A(i := None)))" using assms(1) by simp
  from count_reqs_put [OF this, of i b Q] count_reqs_del [OF assms, of Q] show ?thesis by simp
qed

section \<open>Changing a state\<close>

definition frame :: "tx_tracker \<Rightarrow> tx_tracker \<Rightarrow> bool" where
  "frame st st' \<longleftrightarrow> tr_keys st' = tr_keys st \<and> tr_sequence st' = tr_sequence st \<and> tr_events st' = tr_events st
     \<and> tr_tie st' = tr_tie st \<and> tr_last_now st' = tr_last_now st \<and> dom (tr_heap st') = dom (tr_heap st)"

lemma frame_refl [simp]: "frame st st"
  by (simp add: frame_def)

lemma frame_trans: "frame st s \<Longrightarrow> frame s t \<Longrightarrow> frame st t"
  by (simp add: frame_def)

lemma held_upd:
  assumes "A i = Some a" "ta_txhash b = ta_txhash a" "ta_peer b = ta_peer a"
  shows "held (A(i \<mapsto> b)) h p j \<longleftrightarrow> held A h p j"
  using assms by (auto simp: held_def)

lemma held_best_upd:
  assumes "A i = Some a" "ta_txhash b = ta_txhash a" "ta_peer b = ta_peer a"
  shows "held_best (A(i \<mapsto> b)) h p j \<longleftrightarrow>
    (if j = i then ta_txhash a = h \<and> ta_peer a = p \<and> ta_state b = Best else held_best A h p j)"
  using assms by (auto simp: held_best_def)

lemma peer_at:
  assumes "peers_ok A peers" "A i = Some a"
  shows "\<exists>k. map_of peers (ta_peer a) = Some k \<and> peer_ok A (ta_peer a) k"
proof -
  have "held A (ta_txhash a) (ta_peer a) i" using assms(2) by (auto simp: held_def)
  with assms(1) show ?thesis unfolding peers_ok_def by (metis (no_types, lifting) not_None_eq option.simps(4,5))
qed

text \<open>The record of the peer, as \<open>set_req_state\<close> leaves it.\<close>

lemma set_req_state_run:
  assumes "tr_heap st i = Some a" "map_of (tr_peers st) (ta_peer a) = Some k"
    and "ta_state a = Best \<Longrightarrow> map_of (tp_best k) (ta_txhash a) \<noteq> None"
  shows "\<exists>k'. set_req_state i s st = Some (st\<lparr>
        tr_waiting := tr_waiting st + (of_bool (is_waiting s) - of_bool (is_waiting (ta_state a))),
        tr_heap := (tr_heap st)(i \<mapsto> a\<lparr> ta_state := s \<rparr>), tr_peers := AList.update (ta_peer a) k' (tr_peers st) \<rparr>)
    \<and> tp_announcements k' = tp_announcements k
    \<and> (distinct (map fst (tp_best k)) \<longrightarrow> distinct (map fst (tp_best k')))
    \<and> (\<forall>h. map_of (tp_best k') h = (if h = ta_txhash a
         then (if s = Best then Some i else if ta_state a = Best then None else map_of (tp_best k) h)
         else map_of (tp_best k) h))
    \<and> tp_requested k' = tp_requested k - of_bool (ta_state a = Requested) + of_bool (s = Requested)
    \<and> tp_completed k' = tp_completed k + of_bool (s = Completed)"
  using assms by (cases "ta_state a"; cases s) (auto simp: set_req_state_def Let_def delete_conv' distinct_delete distinct_update)

lemma peers_ok_update:
  assumes ok: "peers_ok A peers" and k: "peer_ok A' p k"
    and same: "\<And>q k. q \<noteq> p \<Longrightarrow> peer_ok A q k \<Longrightarrow> peer_ok A' q k" "\<And>q h i. q \<noteq> p \<Longrightarrow> held A' h q i \<longleftrightarrow> held A h q i"
  shows "peers_ok A' (AList.update p k peers)"
  unfolding peers_ok_def
proof (intro conjI allI)
  show "distinct (map fst (AList.update p k peers))" using ok by (simp add: peers_ok_def distinct_update)
  fix q
  have "case map_of peers q of None \<Rightarrow> \<forall>h i. \<not> held A h q i | Some k \<Rightarrow> peer_ok A q k" using ok by (simp add: peers_ok_def)
  then show "case map_of (AList.update p k peers) q of None \<Rightarrow> \<forall>h i. \<not> held A' h q i | Some k \<Rightarrow> peer_ok A' q k"
    using k same [of q] by (cases "q = p"; cases "map_of peers q") auto
qed

lemma peer_ok_other:
  assumes fin: "finite (dom A)" and a: "A i = Some a" and b: "ta_txhash b = ta_txhash a" "ta_peer b = ta_peer a"
    and q: "q \<noteq> ta_peer a" and ok: "peer_ok A q k"
  shows "peer_ok (A(i \<mapsto> b)) q k"
proof -
  have "count_reqs (A(i \<mapsto> b)) (in_state q s) = count_reqs A (in_state q s)" for s
    using q b count_reqs_upd [OF fin a] by (simp add: in_state_def)
  moreover have "held_best (A(i \<mapsto> b)) h q j \<longleftrightarrow> held_best A h q j" for h j
    unfolding held_best_upd [of A, OF a b] using q a by (auto simp: held_best_def)
  ultimately show ?thesis using ok held_upd [of A, OF a b] by (simp add: peer_ok_def del: fun_upd_apply)
qed

lemma held_best_one:
  assumes "store_ok st" "reqs st i = Some a" "held_best (reqs st) (ta_txhash a) (ta_peer a) j"
  shows "j = i"
  using assms unfolding store_ok_def held_def held_best_def by blast

lemma set_req_state_spec:
  assumes ok: "tables_ok st" and a: "reqs st i = Some a" "ta_state a \<noteq> Completed"
  shows "\<exists>st'. set_req_state i s st = Some st' \<and> tables_ok st' \<and> reqs st' = (reqs st)(i \<mapsto> a\<lparr> ta_state := s \<rparr>)
    \<and> frame st st' \<and> tr_by_hash st' = tr_by_hash st"
proof -
  let ?A = "reqs st" and ?b = "a\<lparr> ta_state := s \<rparr>" and ?p = "ta_peer a" and ?h = "ta_txhash a"
  note parts = tables_okD [OF ok]
  have fin: "finite (dom ?A)" by (rule reqs_finite [OF parts(1)])
  have heap: "tr_heap st i = Some a" "ta_alive a" using a(1) by (simp_all add: reqs_Some)
  obtain k where k: "map_of (tr_peers st) ?p = Some k" "peer_ok ?A ?p k" using peer_at [OF parts(3) a(1)] by blast
  have "map_of (tp_best k) ?h \<noteq> None" if "ta_state a = Best"
  proof -
    have "held_best ?A ?h ?p i" using a(1) that by (auto simp: held_best_def)
    then show ?thesis using k(2) by (auto simp: peer_ok_def)
  qed
  from set_req_state_run [of st, OF heap(1) k(1) this, of s] obtain k' where
    run: "set_req_state i s st = Some (st\<lparr>
        tr_waiting := tr_waiting st + (of_bool (is_waiting s) - of_bool (is_waiting (ta_state a))),
        tr_heap := (tr_heap st)(i \<mapsto> ?b), tr_peers := AList.update ?p k' (tr_peers st) \<rparr>)"
    and k': "tp_announcements k' = tp_announcements k" "distinct (map fst (tp_best k)) \<longrightarrow> distinct (map fst (tp_best k'))"
    "\<forall>h. map_of (tp_best k') h = (if h = ?h
         then (if s = Best then Some i else if ta_state a = Best then None else map_of (tp_best k) h)
         else map_of (tp_best k) h)"
    "tp_requested k' = tp_requested k - of_bool (ta_state a = Requested) + of_bool (s = Requested)"
    "tp_completed k' = tp_completed k + of_bool (s = Completed)" by blast
  obtain st' where res: "set_req_state i s st = Some st'" using run by blast
  have st': "set_req_state i s st = Some st'"
    "tr_waiting st' = tr_waiting st + (of_bool (is_waiting s) - of_bool (is_waiting (ta_state a)))"
    "tr_heap st' = (tr_heap st)(i \<mapsto> ?b)" "tr_peers st' = AList.update ?p k' (tr_peers st)"
    "tr_by_hash st' = tr_by_hash st" "frame st st'"
    using run heap(1) unfolding res by (auto simp: frame_def)
  have A': "reqs st' = ?A(i \<mapsto> ?b)" using reqs_upd [OF st'(3)] heap(2) by simp
  have b: "ta_txhash ?b = ?h" "ta_peer ?b = ?p" by simp_all
  note upd = held_upd [of ?A, OF a(1) b]
  have "store_ok st'"
    using parts(1) heap(1) st'(6) unfolding store_ok_def A' upd st'(3) by (auto simp: frame_def)
  moreover have "hashes_ok st'" using parts(2) unfolding hashes_ok_def A' upd st'(5) .
  moreover have "tr_waiting st' = count_reqs (reqs st') waits"
    using parts(4) unfolding A' count_reqs_upd [OF fin a(1)] st'(2) by (simp add: waits_def)
  moreover have "peer_ok (?A(i \<mapsto> ?b)) ?p k'"
  proof -
    have "map_of (tp_best k') h = Some j \<longleftrightarrow> held_best (?A(i \<mapsto> ?b)) h ?p j" for h j
    proof (cases "h = ?h")
      case True
      have old: "map_of (tp_best k) ?h = Some j \<longleftrightarrow> held_best ?A ?h ?p j" for j using k(2) by (simp add: peer_ok_def)
      have i: "held_best ?A ?h ?p i \<longleftrightarrow> ta_state a = Best" using a(1) by (auto simp: held_best_def)
      have one: "j \<noteq> i \<Longrightarrow> \<not> held_best ?A ?h ?p j" for j using held_best_one [OF parts(1) a(1)] by blast
      show ?thesis unfolding held_best_upd [of ?A, OF a(1) b] True k'(3) [rule_format]
        using old i one by (cases "s = Best"; cases "ta_state a = Best"; cases "j = i") auto
    next
      case False
      then show ?thesis using k(2) k'(3) a(1) unfolding held_best_upd [of ?A, OF a(1) b]
        by (auto simp: peer_ok_def held_best_def)
    qed
    moreover have "tp_requested k' = count_reqs (?A(i \<mapsto> ?b)) (in_state ?p Requested)"
      "tp_completed k' = count_reqs (?A(i \<mapsto> ?b)) (in_state ?p Completed)"
      using k(2) k'(4,5) a(2) unfolding count_reqs_upd [OF fin a(1)] by (simp_all add: peer_ok_def in_state_def)
    ultimately show ?thesis using k(2) k'(1,2) unfolding peer_ok_def upd by simp
  qed
  then have "peers_ok (reqs st') (tr_peers st')" unfolding A' st'(4)
  proof (rule peers_ok_update [OF parts(3)])
    show "peer_ok (?A(i \<mapsto> ?b)) q kq" if "q \<noteq> ?p" "peer_ok ?A q kq" for q kq
      by (rule peer_ok_other [of ?A, OF fin a(1) b that])
  qed (rule upd)
  ultimately show ?thesis using st'(1,5,6) A' by (auto simp: tables_ok_def)
qed

section \<open>Erasing an announcement\<close>

lemma req_erase_run:
  assumes "tr_heap st i = Some a" "map_of (tr_peers st) (ta_peer a) = Some k"
    and "ta_state a = Best \<Longrightarrow> map_of (tp_best k) (ta_txhash a) \<noteq> None"
    and "map_of (tp_announcements k) (ta_txhash a) \<noteq> None"
    and "del2 (ta_txhash a) (ta_peer a) (tr_by_hash st) = Some bh"
  shows "\<exists>k'. req_erase i st = Some (st\<lparr>
        tr_waiting := tr_waiting st - of_bool (is_waiting (ta_state a)),
        tr_peers := (if tp_announcements k' = [] then AList.delete (ta_peer a) (tr_peers st)
                     else AList.update (ta_peer a) k' (tr_peers st)),
        tr_by_hash := bh, tr_heap := (tr_heap st)(i \<mapsto> a\<lparr> ta_alive := False \<rparr>) \<rparr>)
    \<and> tp_announcements k' = AList.delete (ta_txhash a) (tp_announcements k)
    \<and> (distinct (map fst (tp_best k)) \<longrightarrow> distinct (map fst (tp_best k')))
    \<and> (\<forall>h. map_of (tp_best k') h = (if h = ta_txhash a \<and> ta_state a = Best then None else map_of (tp_best k) h))
    \<and> tp_requested k' = tp_requested k - of_bool (ta_state a = Requested)
    \<and> tp_completed k' = tp_completed k - of_bool (ta_state a = Completed)"
proof -
  let ?k = "(if ta_state a = Best then k\<lparr> tp_best := AList.delete (ta_txhash a) (tp_best k) \<rparr>
      else if ta_state a = Requested then k\<lparr> tp_requested := tp_requested k - 1 \<rparr>
      else if ta_state a = Completed then k\<lparr> tp_completed := tp_completed k - 1 \<rparr> else k)
    \<lparr> tp_announcements := AList.delete (ta_txhash a) (tp_announcements k) \<rparr>"
  show ?thesis
    by (rule exI [of _ ?k], cases "ta_state a")
      (use assms in \<open>auto simp: req_erase_def Let_def delete_conv' distinct_delete\<close>)
qed

lemma held_del: "held (A(i := None)) h p j \<longleftrightarrow> j \<noteq> i \<and> held A h p j"
  by (auto simp: held_def)

lemma held_best_del: "held_best (A(i := None)) h p j \<longleftrightarrow> j \<noteq> i \<and> held_best A h p j"
  by (auto simp: held_best_def)

lemma peers_ok_delete:
  assumes ok: "peers_ok A peers" and none: "\<And>h i. \<not> held A' h p i"
    and same: "\<And>q k. q \<noteq> p \<Longrightarrow> peer_ok A q k \<Longrightarrow> peer_ok A' q k" "\<And>q h i. q \<noteq> p \<Longrightarrow> held A' h q i \<longleftrightarrow> held A h q i"
  shows "peers_ok A' (AList.delete p peers)"
  unfolding peers_ok_def
proof (intro conjI allI)
  show "distinct (map fst (AList.delete p peers))" using ok by (simp add: peers_ok_def distinct_delete)
  fix q
  have "case map_of peers q of None \<Rightarrow> \<forall>h i. \<not> held A h q i | Some k \<Rightarrow> peer_ok A q k" using ok by (simp add: peers_ok_def)
  then show "case map_of (AList.delete p peers) q of None \<Rightarrow> \<forall>h i. \<not> held A' h q i | Some k \<Rightarrow> peer_ok A' q k"
    using none same [of q] by (cases "q = p"; cases "map_of peers q") (auto simp: delete_conv')
qed

lemma req_erase_spec:
  assumes ok: "tables_ok st" and a: "reqs st i = Some a"
  shows "\<exists>st'. req_erase i st = Some st' \<and> tables_ok st' \<and> reqs st' = (reqs st)(i := None) \<and> frame st st'"
proof -
  let ?A = "reqs st" and ?p = "ta_peer a" and ?h = "ta_txhash a"
  note parts = tables_okD [OF ok]
  have fin: "finite (dom ?A)" by (rule reqs_finite [OF parts(1)])
  have heap: "tr_heap st i = Some a" "ta_alive a" using a(1) by (simp_all add: reqs_Some)
  have at: "held ?A ?h ?p i" using a by (auto simp: held_def)
  have uniq: "held (?A(i := None)) h q j \<longleftrightarrow> held ?A h q j \<and> \<not> (h = ?h \<and> q = ?p)" for h q j
    using parts(1) a at unfolding held_del store_ok_def held_def by auto
  obtain k where k: "map_of (tr_peers st) ?p = Some k" "peer_ok ?A ?p k" using peer_at [OF parts(3) a(1)] by blast
  have best: "map_of (tp_best k) ?h \<noteq> None" if "ta_state a = Best"
  proof -
    have "held_best ?A ?h ?p i" using a(1) that by (auto simp: held_best_def)
    then show ?thesis using k(2) by (auto simp: peer_ok_def)
  qed
  have ann: "map_of (tp_announcements k) ?h \<noteq> None" using k(2) at by (auto simp: peer_ok_def)
  obtain bh where bh: "del2 ?h ?p (tr_by_hash st) = Some bh" "nested_ok bh"
    "\<forall>h q j. get2 bh h q = Some j \<longleftrightarrow> held (?A(i := None)) h q j"
    using nested.del_agrees [of "tr_by_hash st" "held ?A" ?h ?p i "held (?A(i := None))", OF _ _ at uniq] parts(2)
    by (auto simp: hashes_ok_def)
  from req_erase_run [of st, OF heap(1) k(1) best ann bh(1)] obtain k' where
    run: "req_erase i st = Some (st\<lparr>
        tr_waiting := tr_waiting st - of_bool (is_waiting (ta_state a)),
        tr_peers := (if tp_announcements k' = [] then AList.delete (ta_peer a) (tr_peers st)
                     else AList.update (ta_peer a) k' (tr_peers st)),
        tr_by_hash := bh, tr_heap := (tr_heap st)(i \<mapsto> a\<lparr> ta_alive := False \<rparr>) \<rparr>)"
    and k': "tp_announcements k' = AList.delete ?h (tp_announcements k)"
    "distinct (map fst (tp_best k)) \<longrightarrow> distinct (map fst (tp_best k'))"
    "\<forall>h. map_of (tp_best k') h = (if h = ?h \<and> ta_state a = Best then None else map_of (tp_best k) h)"
    "tp_requested k' = tp_requested k - of_bool (ta_state a = Requested)"
    "tp_completed k' = tp_completed k - of_bool (ta_state a = Completed)" by blast
  obtain st' where res: "req_erase i st = Some st'" using run by blast
  have st': "tr_waiting st' = tr_waiting st - of_bool (is_waiting (ta_state a))"
    "tr_heap st' = (tr_heap st)(i \<mapsto> a\<lparr> ta_alive := False \<rparr>)" "tr_by_hash st' = bh" "frame st st'"
    "tr_peers st' = (if tp_announcements k' = [] then AList.delete ?p (tr_peers st) else AList.update ?p k' (tr_peers st))"
    using run heap(1) unfolding res by (auto simp: frame_def)
  have A': "reqs st' = ?A(i := None)" using reqs_kill [OF st'(2)] by simp
  have "store_ok st'"
    using parts(1) heap(1) st'(4) unfolding store_ok_def A' held_del st'(2) by (auto simp: frame_def)
  moreover have "hashes_ok st'" using bh(2,3) unfolding hashes_ok_def A' st'(3) by blast
  moreover have "tr_waiting st' = count_reqs (reqs st') waits"
    using parts(4) unfolding A' count_reqs_del [of ?A, OF fin a(1)] st'(1) by (simp add: waits_def)
  moreover have "peers_ok (reqs st') (tr_peers st')"
  proof -
    have other: "peer_ok (?A(i := None)) q kq" if "q \<noteq> ?p" "peer_ok ?A q kq" for q kq
      using that a count_reqs_del [of ?A, OF fin a(1)] uniq unfolding peer_ok_def held_best_del
      by (simp add: in_state_def) (auto simp: held_best_def)
    have keys: "map_of (tp_announcements k') h = Some j \<longleftrightarrow> held (?A(i := None)) h ?p j" for h j
      using k(2) unfolding k'(1) uniq by (auto simp: peer_ok_def delete_conv')
    have bests: "map_of (tp_best k') h = Some j \<longleftrightarrow> held_best (?A(i := None)) h ?p j" for h j
    proof -
      have old: "map_of (tp_best k) h = Some j \<longleftrightarrow> held_best ?A h ?p j" using k(2) by (simp add: peer_ok_def)
      have one: "j \<noteq> i \<Longrightarrow> \<not> held_best ?A ?h ?p j" using held_best_one [OF parts(1) a(1)] by blast
      show ?thesis unfolding held_best_del k'(3) [rule_format] using old one a
        by (cases "h = ?h"; cases "ta_state a = Best"; cases "j = i") (auto simp: held_best_def)
    qed
    have counts: "tp_requested k' = count_reqs (?A(i := None)) (in_state ?p Requested)"
      "tp_completed k' = count_reqs (?A(i := None)) (in_state ?p Completed)"
      using k(2) k'(4,5) unfolding count_reqs_del [of ?A, OF fin a(1)] by (simp_all add: peer_ok_def in_state_def)
    show ?thesis
    proof (cases "tp_announcements k' = []")
      case True
      have "\<not> held (?A(i := None)) h ?p j" for h j using keys [of h j] True by simp
      then have "peers_ok (?A(i := None)) (AList.delete ?p (tr_peers st))"
        using other uniq by (intro peers_ok_delete [OF parts(3)]) blast+
      then show ?thesis unfolding A' st'(5) using True by simp
    next
      case False
      have "peer_ok (?A(i := None)) ?p k'"
        using False keys bests counts k(2) k'(1,2) by (simp add: peer_ok_def distinct_delete)
      then have "peers_ok (?A(i := None)) (AList.update ?p k' (tr_peers st))"
        using other uniq by (intro peers_ok_update [OF parts(3)]) blast+
      then show ?thesis unfolding A' st'(5) using False by simp
    qed
  qed
  ultimately show ?thesis using res st'(4) A' by (auto simp: tables_ok_def)
qed

section \<open>Adding an announcement\<close>

definition with_announcement :: "tx_announcement \<Rightarrow> tx_tracker \<Rightarrow> tx_tracker" where
  \<comment> \<open>what \<open>received_inv\<close> does before it schedules the announcement\<close>
  "with_announcement a st =
     st\<lparr> tr_sequence := tr_sequence st + 1,
         tr_heap := (tr_heap st)(tr_sequence st \<mapsto> a),
         tr_peers := AList.update (ta_peer a)
           (let known = (case map_of (tr_peers st) (ta_peer a) of None \<Rightarrow> new_tracked_peer | Some k \<Rightarrow> k)
            in known\<lparr> tp_announcements := AList.update (ta_txhash a) (tr_sequence st) (tp_announcements known) \<rparr>) (tr_peers st),
         tr_waiting := tr_waiting st + 1,
         tr_by_hash := put2 (ta_txhash a) (ta_peer a) (tr_sequence st) (tr_by_hash st) \<rparr>"

lemma held_put: "A i = None \<Longrightarrow> held (A(i \<mapsto> a)) h p j \<longleftrightarrow>
    (if j = i then ta_txhash a = h \<and> ta_peer a = p else held A h p j)"
  by (auto simp: held_def)

lemma known_announcement_ok:
  assumes "tables_ok st"
  shows "known_announcement p h st = Some i \<longleftrightarrow> held (reqs st) h p i"
proof (cases "map_of (tr_peers st) p")
  case None
  then have "\<not> held (reqs st) h p i"
    using tables_okD(3) [OF assms] unfolding peers_ok_def by (metis (no_types, lifting) option.simps(4))
  with None show ?thesis by (simp add: known_announcement_def)
next
  case (Some k)
  then have "peer_ok (reqs st) p k"
    using tables_okD(3) [OF assms] unfolding peers_ok_def by (metis (no_types, lifting) option.simps(5))
  with Some show ?thesis by (simp add: known_announcement_def peer_ok_def)
qed

lemma with_announcement_spec:
  assumes ok: "tables_ok st" and new: "known_announcement (ta_peer a) (ta_txhash a) st = None"
    and a: "ta_state a = Delayed" "ta_alive a" "ta_sequence a = tr_sequence st"
  shows "tables_ok (with_announcement a st)" "reqs (with_announcement a st) = (reqs st)(tr_sequence st \<mapsto> a)"
    "reqs st (tr_sequence st) = None"
proof -
  let ?A = "reqs st" and ?n = "tr_sequence st" and ?p = "ta_peer a" and ?h = "ta_txhash a"
  note parts = tables_okD [OF ok]
  obtain st' where st': "st' = with_announcement a st" by simp
  have fin: "finite (dom ?A)" by (rule reqs_finite [OF parts(1)])
  have fresh_heap: "tr_heap st ?n = None"
    using parts(1) unfolding store_ok_def by (meson less_irrefl not_None_eq)
  then show fresh: "?A ?n = None" by (simp add: reqs_def)
  have A': "reqs st' = ?A(?n \<mapsto> a)" using reqs_upd [of st' st ?n a] a(2) by (simp add: st' with_announcement_def)
  then show "reqs (with_announcement a st) = ?A(?n \<mapsto> a)" by (simp add: st')
  note put = held_put [of ?A, OF fresh]
  have none: "\<not> held ?A ?h ?p j" for j using new known_announcement_ok [OF ok] by (metis option.distinct(1))
  have uniq: "held (?A(?n \<mapsto> a)) h q j \<longleftrightarrow> (if h = ?h \<and> q = ?p then j = ?n else held ?A h q j)" for h q j
    using none fresh unfolding put by (auto simp: held_def)
  have "store_ok st'"
    using parts(1) uniq a(3) unfolding store_ok_def A' by (auto simp: st' with_announcement_def) (fastforce)+
  moreover have "hashes_ok st'"
    using nested.put_agrees [of "tr_by_hash st" "held ?A" "held (?A(?n \<mapsto> a))", OF _ _ uniq] parts(2)
    unfolding hashes_ok_def A' by (simp add: st' with_announcement_def)
  moreover have "tr_waiting st' = count_reqs (reqs st') waits"
    using parts(4) a(1) unfolding A' count_reqs_put [of ?A, OF fin fresh]
    by (simp add: st' with_announcement_def waits_def is_waiting_def)
  moreover have "peers_ok (reqs st') (tr_peers st')"
  proof -
    let ?known = "case map_of (tr_peers st) ?p of None \<Rightarrow> new_tracked_peer | Some k \<Rightarrow> k"
    let ?k = "?known\<lparr> tp_announcements := AList.update ?h ?n (tp_announcements ?known) \<rparr>"
    have best: "held_best (?A(?n \<mapsto> a)) h q j \<longleftrightarrow> held_best ?A h q j" for h q j
      using fresh a(1) by (auto simp: held_best_def)
    have cnt: "count_reqs (?A(?n \<mapsto> a)) (in_state q s) = count_reqs ?A (in_state q s)" if "s \<noteq> Delayed" for q s
      using count_reqs_put [of ?A, OF fin fresh] that a(1) by (simp add: in_state_def)
    have other: "peer_ok (?A(?n \<mapsto> a)) q kq" if "q \<noteq> ?p" "peer_ok ?A q kq" for q kq
      using that unfolding peer_ok_def best uniq by (simp add: cnt)
    have none_of: "held_best ?A h ?p j = False" "count_reqs ?A (in_state ?p s) = 0" if "\<forall>h i. \<not> held ?A h ?p i" for h j s
    proof -
      have "?A i \<noteq> Some b \<or> ta_peer b \<noteq> ?p" for i b using that by (auto simp: held_def)
      then have "{i. \<exists>b. ?A i = Some b \<and> in_state ?p s b} = {}" and "held_best ?A h ?p j = False"
        unfolding held_best_def in_state_def by blast+
      then show "held_best ?A h ?p j = False" "count_reqs ?A (in_state ?p s) = 0" by (simp_all only: count_reqs_def card.empty of_nat_0)
    qed
    have known: "distinct (map fst (tp_announcements ?known)) \<and> distinct (map fst (tp_best ?known))
        \<and> (\<forall>h i. map_of (tp_announcements ?known) h = Some i \<longleftrightarrow> held ?A h ?p i)
        \<and> (\<forall>h i. map_of (tp_best ?known) h = Some i \<longleftrightarrow> held_best ?A h ?p i)
        \<and> tp_requested ?known = count_reqs ?A (in_state ?p Requested)
        \<and> tp_completed ?known = count_reqs ?A (in_state ?p Completed)"
    proof (cases "map_of (tr_peers st) ?p")
      case None
      then have "\<forall>h i. \<not> held ?A h ?p i" using parts(3) unfolding peers_ok_def by (metis (no_types, lifting) option.simps(4))
      with none_of None show ?thesis by (simp add: new_tracked_peer_def)
    next
      case (Some k)
      then have "peer_ok ?A ?p k" using parts(3) unfolding peers_ok_def by (metis (no_types, lifting) option.simps(5))
      with Some show ?thesis by (simp add: peer_ok_def)
    qed
    have "peer_ok (?A(?n \<mapsto> a)) ?p ?k"
      using known unfolding peer_ok_def best uniq by (simp add: cnt distinct_update update_not_Nil) auto
    then have "peers_ok (?A(?n \<mapsto> a)) (AList.update ?p ?k (tr_peers st))"
    proof (rule peers_ok_update [OF parts(3)])
      show "held (?A(?n \<mapsto> a)) h q j \<longleftrightarrow> held ?A h q j" if "q \<noteq> ?p" for q h j
        unfolding uniq using that by simp
    qed (rule other)
    then show ?thesis unfolding A' by (simp add: st' with_announcement_def Let_def)
  qed
  ultimately show "tables_ok (with_announcement a st)" by (simp add: tables_ok_def st')
qed

end
