(* ===== verification/Tx_Request_Selection.thy ===== *)
theory Tx_Request_Selection
  imports Tx_Request_Tables
begin

text \<open>
  Which announcement of a transaction is selected: at most one is the best or asked for, there is
  one where any is ready, and the best has the highest priority of the candidates.  The moves
  between the states keep that, do not raise, and change nothing else.
\<close>

section \<open>The selection of a transaction\<close>

definition ann_priority :: "siphash \<Rightarrow> int \<times> int \<Rightarrow> tx_announcement \<Rightarrow> int" where
  "ann_priority sip keys a =
     drop_bit 1 (sip (fst keys) (snd keys) (ta_txhash a @ uint64_bytes (ta_peer a)))
       OR push_bit 63 (of_bool (ta_preferred a))"

lemma req_priority_ann: "req_priority sip i st = ann_priority sip (tr_keys st) (req_at st i)"
  by (simp add: req_priority_def compute_priority_def ann_priority_def Let_def)

lemma ann_priority_state [simp]: "ann_priority sip keys (a\<lparr> ta_state := s \<rparr>) = ann_priority sip keys a"
  by (simp add: ann_priority_def)

definition selected :: "tx_announcement \<Rightarrow> bool" where
  "selected a \<longleftrightarrow> ta_state a = Best \<or> ta_state a = Requested"

definition candidate :: "tx_announcement \<Rightarrow> bool" where
  "candidate a \<longleftrightarrow> ta_state a = Ready \<or> ta_state a = Best"

definition one_selected :: "(tx_announcement \<Rightarrow> int) \<Rightarrow> (int \<rightharpoonup> tx_announcement) \<Rightarrow> bytes \<Rightarrow> bool" where
  "one_selected pr A h \<longleftrightarrow>
     (\<forall>i j a b. A i = Some a \<longrightarrow> A j = Some b \<longrightarrow> ta_txhash a = h \<longrightarrow> ta_txhash b = h \<longrightarrow> selected a
        \<longrightarrow> (selected b \<longrightarrow> j = i) \<and> (ta_state a = Best \<longrightarrow> ta_state b = Ready \<longrightarrow> pr b \<le> pr a))
     \<and> (\<forall>i a. A i = Some a \<longrightarrow> ta_txhash a = h \<longrightarrow> ta_state a = Ready
        \<longrightarrow> (\<exists>j b. A j = Some b \<and> ta_txhash b = h \<and> selected b))"

definition someone_left :: "(int \<rightharpoonup> tx_announcement) \<Rightarrow> bytes \<Rightarrow> bool" where
  \<comment> \<open>completed announcements go with the last that is not\<close>
  "someone_left A h \<longleftrightarrow> (\<forall>i a. A i = Some a \<longrightarrow> ta_txhash a = h
     \<longrightarrow> (\<exists>j b. A j = Some b \<and> ta_txhash b = h \<and> ta_state b \<noteq> Completed))"

text \<open>
  Ready and best are one kind, a candidate; between two moves every other announcement keeps its
  kind and everything else.
\<close>

definition kind :: "req_state \<Rightarrow> req_state" where
  "kind s = (if s = Ready then Best else s)"

definition kin :: "tx_announcement \<Rightarrow> tx_announcement \<Rightarrow> bool" where
  "kin a b \<longleftrightarrow> (\<exists>s. b = a\<lparr> ta_state := s \<rparr> \<and> kind s = kind (ta_state a))"

definition agree :: "int set \<Rightarrow> (int \<rightharpoonup> tx_announcement) \<Rightarrow> (int \<rightharpoonup> tx_announcement) \<Rightarrow> bool" where
  "agree X A A' \<longleftrightarrow> (\<forall>j. j \<notin> X \<longrightarrow> rel_option kin (A j) (A' j))"

lemma kin_refl [simp]: "kin a a"
  unfolding kin_def by (rule exI [of _ "ta_state a"]) simp

lemma kin_set: "kind s = kind (ta_state a) \<Longrightarrow> kin a (a\<lparr> ta_state := s \<rparr>)"
  by (auto simp: kin_def)

lemma kin_trans: "kin a b \<Longrightarrow> kin b c \<Longrightarrow> kin a c"
  by (auto simp: kin_def)

lemma kinD:
  assumes "kin a b"
  shows "ta_txhash b = ta_txhash a" "ta_peer b = ta_peer a" "ta_time b = ta_time a" "ta_sequence b = ta_sequence a"
    "candidate b = candidate a" "ta_state b = Requested \<longleftrightarrow> ta_state a = Requested"
    "ta_state b = Completed \<longleftrightarrow> ta_state a = Completed" "ta_state b = Delayed \<longleftrightarrow> ta_state a = Delayed"
    "ta_preferred b = ta_preferred a" "ann_priority sip keys b = ann_priority sip keys a" "waits b = waits a"
  using assms by (auto simp: kin_def candidate_def kind_def waits_def is_waiting_def split: if_splits)

lemma agree_refl [simp]: "agree X A A"
  by (auto simp: agree_def intro: option.rel_refl)

lemma agree_trans: "agree X A B \<Longrightarrow> agree X B C \<Longrightarrow> agree X A C"
  unfolding agree_def by (metis (no_types, lifting) kin_trans option.rel_sel)

lemma agree_upd: "A i = Some a \<Longrightarrow> i \<in> X \<or> kin a b \<Longrightarrow> agree X A (A(i \<mapsto> b))"
  by (auto simp: agree_def intro: option.rel_refl)

lemma agree_at: "agree X A A' \<Longrightarrow> j \<notin> X \<Longrightarrow> A j = Some a \<Longrightarrow> \<exists>b. A' j = Some b \<and> kin a b"
  unfolding agree_def by (metis option_rel_Some1)

lemma agree_back: "agree X A A' \<Longrightarrow> j \<notin> X \<Longrightarrow> A' j = Some b \<Longrightarrow> \<exists>a. A j = Some a \<and> kin a b"
  unfolding agree_def by (metis option_rel_Some2)

section \<open>One announcement moved\<close>

lemma one_selected_cong:
  assumes one: "one_selected pr A h"
    and same: "\<And>j a. A' j = Some a \<and> ta_txhash a = h \<longleftrightarrow> A j = Some a \<and> ta_txhash a = h"
  shows "one_selected pr A' h"
proof -
  have old: "A j = Some a" if "A' j = Some a" "ta_txhash a = h" for j a using same [of j a] that by simp
  have "(selected b \<longrightarrow> j = i) \<and> (ta_state a = Best \<longrightarrow> ta_state b = Ready \<longrightarrow> pr b \<le> pr a)"
    if "A' i = Some a" "A' j = Some b" "ta_txhash a = h" "ta_txhash b = h" "selected a" for i j a b
    using one old [OF that(1,3)] old [OF that(2,4)] that(3-5) unfolding one_selected_def by blast
  moreover have "\<exists>j b. A' j = Some b \<and> ta_txhash b = h \<and> selected b"
    if "A' i = Some a" "ta_txhash a = h" "ta_state a = Ready" for i a
  proof -
    from one old [OF that(1,2)] that(2,3) obtain j b where "A j = Some b" "ta_txhash b = h" "selected b"
      unfolding one_selected_def by blast
    with same [of j b] show ?thesis by blast
  qed
  ultimately show ?thesis unfolding one_selected_def by blast
qed

lemma someone_left_cong:
  assumes some: "someone_left A h"
    and same: "\<And>j a. A' j = Some a \<and> ta_txhash a = h \<longleftrightarrow> A j = Some a \<and> ta_txhash a = h"
  shows "someone_left A' h"
  unfolding someone_left_def
proof (intro allI impI)
  fix i a
  assume "A' i = Some a" "ta_txhash a = h"
  with same [of i a] have "A i = Some a" by blast
  with some \<open>ta_txhash a = h\<close> obtain j b where "A j = Some b" "ta_txhash b = h" "ta_state b \<noteq> Completed"
    unfolding someone_left_def by blast
  with same [of j b] show "\<exists>j b. A' j = Some b \<and> ta_txhash b = h \<and> ta_state b \<noteq> Completed" by blast
qed

text \<open>The references listed under a \<open>txhash\<close>.\<close>

lemma hash_ids:
  assumes "hashes_ok st"
  shows "distinct (map snd (inner (tr_by_hash st) h))"
    "set (map snd (inner (tr_by_hash st) h)) = {i. \<exists>a. reqs st i = Some a \<and> ta_txhash a = h}"
proof -
  have "nested_ok (tr_by_hash st)"
    and "\<And>p i. get2 (tr_by_hash st) h p = Some i \<longleftrightarrow> (\<exists>a. reqs st i = Some a \<and> ta_txhash a = h \<and> ta_peer a = p)"
    using assms by (auto simp: hashes_ok_def held_def)
  note ids = listed_ids [OF this]
  show "distinct (map snd (inner (tr_by_hash st) h))"
    "set (map snd (inner (tr_by_hash st) h)) = {i. \<exists>a. reqs st i = Some a \<and> ta_txhash a = h}" by (rule ids)+
qed

lemma hash_listed:
  assumes "hashes_ok st" "reqs st i = Some a"
  shows "map_of (tr_by_hash st) (ta_txhash a) = Some (inner (tr_by_hash st) (ta_txhash a))"
proof -
  have "i \<in> set (map snd (inner (tr_by_hash st) (ta_txhash a)))" using hash_ids(2) [OF assms(1)] assms(2) by auto
  then have "inner (tr_by_hash st) (ta_txhash a) \<noteq> []" by auto
  moreover have "nested_ok (tr_by_hash st)" using assms(1) by (simp add: hashes_ok_def)
  ultimately show ?thesis by (simp add: map_of_nested)
qed

lemma first_where_spec:
  "case first_where Q xs of None \<Rightarrow> \<forall>x\<in>set xs. \<not> Q x | Some x \<Rightarrow> x \<in> set xs \<and> Q x"
proof (cases "filter Q xs")
  case Nil
  then show ?thesis by (simp add: first_where_def filter_empty_conv)
next
  case (Cons x ys)
  then have "x \<in> set (filter Q xs)" by simp
  then have "x \<in> set xs \<and> Q x" unfolding set_filter by simp
  with Cons show ?thesis by (simp add: first_where_def)
qed

lemma req_selected_spec:
  assumes "hashes_ok st"
  shows "case req_selected h st of
      None \<Rightarrow> \<forall>i a. reqs st i = Some a \<longrightarrow> ta_txhash a = h \<longrightarrow> \<not> selected a
    | Some j \<Rightarrow> \<exists>b. reqs st j = Some b \<and> ta_txhash b = h \<and> selected b"
proof -
  let ?Q = "\<lambda>i. ta_state (req_at st i) = Best \<or> ta_state (req_at st i) = Requested"
  let ?ids = "map snd (inner (tr_by_hash st) h)"
  note spec = first_where_spec [where Q = ?Q and xs = ?ids, folded req_selected_def, unfolded hash_ids(2) [OF assms]]
  show ?thesis
  proof (cases "req_selected h st")
    case None
    with spec show ?thesis by (auto simp: selected_def reqs_at)
  next
    case (Some j)
    with spec obtain b where "reqs st j = Some b" "ta_txhash b = h" "?Q j" by auto
    with Some show ?thesis by (auto simp: selected_def reqs_at)
  qed
qed

lemma first_max_spec:
  "case first_max f xs of None \<Rightarrow> xs = [] | Some m \<Rightarrow> m \<in> set xs \<and> (\<forall>x\<in>set xs. f x \<le> f m)"
proof (cases xs)
  case (Cons x ys)
  have "fold (\<lambda>y m. if f m < f y then y else m) ys m \<in> set (m # ys)
    \<and> (\<forall>x\<in>set (m # ys). f x \<le> f (fold (\<lambda>y m. if f m < f y then y else m) ys m))" for m
    by (induction ys arbitrary: m) (fastforce simp: not_less)+
  with Cons show ?thesis by (auto simp: first_max_def)
qed (simp add: first_max_def)

section \<open>The invariant\<close>

definition choice_ok :: "siphash \<Rightarrow> tx_tracker \<Rightarrow> bool" where
  "choice_ok sip st \<longleftrightarrow> tables_ok st
     \<and> (\<forall>h. one_selected (ann_priority sip (tr_keys st)) (reqs st) h \<and> someone_left (reqs st) h)"

lemma choice_okD:
  assumes "choice_ok sip st"
  shows "tables_ok st" "one_selected (ann_priority sip (tr_keys st)) (reqs st) h" "someone_left (reqs st) h"
  using assms by (simp_all add: choice_ok_def)

section \<open>The moves on the map of announcements\<close>

definition led_by :: "(tx_announcement \<Rightarrow> int) \<Rightarrow> (int \<rightharpoonup> tx_announcement) \<Rightarrow> bytes \<Rightarrow> int \<Rightarrow> tx_announcement \<Rightarrow> bool" where
  "led_by pr A h j b \<longleftrightarrow> A j = Some b \<and> ta_txhash b = h \<and> selected b
     \<and> (\<forall>i a. A i = Some a \<longrightarrow> ta_txhash a = h \<longrightarrow> i \<noteq> j
          \<longrightarrow> \<not> selected a \<and> (ta_state b = Best \<longrightarrow> ta_state a = Ready \<longrightarrow> pr a \<le> pr b))"

definition quiet :: "(int \<rightharpoonup> tx_announcement) \<Rightarrow> bytes \<Rightarrow> bool" where
  "quiet A h \<longleftrightarrow> (\<forall>i a. A i = Some a \<longrightarrow> ta_txhash a = h \<longrightarrow> \<not> selected a \<and> ta_state a \<noteq> Ready)"

lemma one_selected_iff: "one_selected pr A h \<longleftrightarrow> quiet A h \<or> (\<exists>j b. led_by pr A h j b)"
proof
  assume one: "one_selected pr A h"
  show "quiet A h \<or> (\<exists>j b. led_by pr A h j b)"
  proof (cases "\<exists>j b. A j = Some b \<and> ta_txhash b = h \<and> selected b")
    case True
    then obtain j b where "A j = Some b" "ta_txhash b = h" "selected b" by blast
    with one have "led_by pr A h j b" unfolding one_selected_def led_by_def by blast
    then show ?thesis by blast
  next
    case False
    with one show ?thesis unfolding one_selected_def quiet_def by blast
  qed
next
  assume "quiet A h \<or> (\<exists>j b. led_by pr A h j b)"
  then show "one_selected pr A h"
  proof
    assume "\<exists>j b. led_by pr A h j b"
    then obtain j b where l: "led_by pr A h j b" by blast
    have u: "k = j \<and> c = b" if "A k = Some c" "ta_txhash c = h" "selected c" for k c
      using l that unfolding led_by_def by (metis option.inject)
    have top: "pr c \<le> pr b" if "A k = Some c" "ta_txhash c = h" "ta_state c = Ready" "ta_state b = Best" for k c
    proof -
      have "k \<noteq> j" using that l by (auto simp: led_by_def selected_def)
      then show ?thesis using l that by (auto simp: led_by_def)
    qed
    have "A j = Some b \<and> ta_txhash b = h \<and> selected b" using l by (simp add: led_by_def)
    with u top show ?thesis unfolding one_selected_def by blast
  qed (auto simp: one_selected_def quiet_def)
qed

lemma led_byI:
  assumes "A j = Some b" "ta_txhash b = h" "selected b"
    and "\<And>i a. A i = Some a \<Longrightarrow> ta_txhash a = h \<Longrightarrow> i \<noteq> j \<Longrightarrow> \<not> selected a"
    and "\<And>i a. A i = Some a \<Longrightarrow> ta_txhash a = h \<Longrightarrow> i \<noteq> j \<Longrightarrow> ta_state b = Best \<Longrightarrow> ta_state a = Ready \<Longrightarrow> pr a \<le> pr b"
  shows "one_selected pr A h"
  using assms unfolding one_selected_iff led_by_def by blast

lemma step_out_plain:
  assumes one: "one_selected pr A (ta_txhash a)" and a: "A i = Some a" "\<not> selected a" and s: "s = Completed \<or> s = Delayed"
  shows "one_selected pr (A(i \<mapsto> a\<lparr> ta_state := s \<rparr>)) (ta_txhash a)"
  using one unfolding one_selected_iff
proof
  assume "quiet A (ta_txhash a)"
  then have "quiet (A(i \<mapsto> a\<lparr> ta_state := s \<rparr>)) (ta_txhash a)" using s by (auto simp: quiet_def selected_def)
  then show "quiet (A(i \<mapsto> a\<lparr> ta_state := s \<rparr>)) (ta_txhash a) \<or> (\<exists>j b. led_by pr (A(i \<mapsto> a\<lparr> ta_state := s \<rparr>)) (ta_txhash a) j b)" ..
next
  assume "\<exists>j b. led_by pr A (ta_txhash a) j b"
  then obtain j b where l: "led_by pr A (ta_txhash a) j b" by blast
  then have "j \<noteq> i" using a by (auto simp: led_by_def)
  with l s have "led_by pr (A(i \<mapsto> a\<lparr> ta_state := s \<rparr>)) (ta_txhash a) j b" by (auto simp: led_by_def selected_def)
  then show "quiet (A(i \<mapsto> a\<lparr> ta_state := s \<rparr>)) (ta_txhash a) \<or> (\<exists>j b. led_by pr (A(i \<mapsto> a\<lparr> ta_state := s \<rparr>)) (ta_txhash a) j b)" by blast
qed

lemma selected_leads:
  assumes "one_selected pr A (ta_txhash a)" "A i = Some a" "selected a"
  shows "led_by pr A (ta_txhash a) i a"
  using assms unfolding one_selected_def led_by_def by blast

lemma step_out_alone:
  assumes one: "one_selected pr A (ta_txhash a)" and a: "A i = Some a" "selected a" and s: "s = Completed \<or> s = Delayed"
    and none: "\<And>j b. A j = Some b \<Longrightarrow> ta_txhash b = ta_txhash a \<Longrightarrow> ta_state b \<noteq> Ready"
  shows "one_selected pr (A(i \<mapsto> a\<lparr> ta_state := s \<rparr>)) (ta_txhash a)"
proof -
  have "quiet (A(i \<mapsto> a\<lparr> ta_state := s \<rparr>)) (ta_txhash a)"
    using selected_leads [OF one a] none s by (auto simp: quiet_def led_by_def selected_def)
  then show ?thesis by (simp add: one_selected_iff del: fun_upd_apply)
qed

lemma step_out_next:
  assumes one: "one_selected pr A (ta_txhash a)" and a: "A i = Some a" "selected a" and s: "s = Completed \<or> s = Delayed"
    and j: "A j = Some b" "ta_txhash b = ta_txhash a" "ta_state b = Ready"
    and top: "\<And>k c. A k = Some c \<Longrightarrow> ta_txhash c = ta_txhash a \<Longrightarrow> ta_state c = Ready \<Longrightarrow> pr c \<le> pr b"
    and pr: "\<And>c s. pr (c\<lparr> ta_state := s \<rparr>) = pr c"
  shows "one_selected pr (A(j \<mapsto> b\<lparr> ta_state := Best \<rparr>, i \<mapsto> a\<lparr> ta_state := s \<rparr>)) (ta_txhash a)"
proof (rule led_byI [where j = j and b = "b\<lparr> ta_state := Best \<rparr>"])
  let ?A = "A(j \<mapsto> b\<lparr> ta_state := Best \<rparr>, i \<mapsto> a\<lparr> ta_state := s \<rparr>)"
  have ne: "j \<noteq> i" using a j by (auto simp: selected_def)
  then show "?A j = Some (b\<lparr> ta_state := Best \<rparr>)" by simp
  show "ta_txhash (b\<lparr> ta_state := Best \<rparr>) = ta_txhash a" "selected (b\<lparr> ta_state := Best \<rparr>)" using j by (simp_all add: selected_def)
  note lead = selected_leads [OF one a]
  show "\<not> selected c" if "?A k = Some c" "ta_txhash c = ta_txhash a" "k \<noteq> j" for k c
    using that lead s by (cases "k = i") (auto simp: led_by_def selected_def)
  show "pr c \<le> pr (b\<lparr> ta_state := Best \<rparr>)" if "?A k = Some c" "ta_txhash c = ta_txhash a" "k \<noteq> j" "ta_state c = Ready" for k c
    using that top [of k c] s by (cases "k = i") (auto simp: pr)
qed

lemma step_in_first:
  assumes a: "A i = Some a" and none: "\<And>j b. A j = Some b \<Longrightarrow> ta_txhash b = ta_txhash a \<Longrightarrow> \<not> selected b"
    and one: "one_selected pr A (ta_txhash a)"
  shows "one_selected pr (A(i \<mapsto> a\<lparr> ta_state := Best \<rparr>)) (ta_txhash a)"
proof (rule led_byI [where j = i and b = "a\<lparr> ta_state := Best \<rparr>"])
  let ?A = "A(i \<mapsto> a\<lparr> ta_state := Best \<rparr>)"
  show "\<not> selected c" if "?A k = Some c" "ta_txhash c = ta_txhash a" "k \<noteq> i" for k c using that none by auto
  show "pr c \<le> pr (a\<lparr> ta_state := Best \<rparr>)" if "?A k = Some c" "ta_txhash c = ta_txhash a" "k \<noteq> i" "ta_state c = Ready" for k c
    using that none one unfolding one_selected_def by (metis fun_upd_other)
qed (simp_all add: selected_def)

lemma step_in_behind:
  assumes one: "one_selected pr A (ta_txhash a)" and a: "A i = Some a" "ta_state a = Delayed"
    and j: "A j = Some b" "ta_txhash b = ta_txhash a" "selected b" "ta_state b = Best \<Longrightarrow> pr a \<le> pr b"
    and pr: "\<And>c s. pr (c\<lparr> ta_state := s \<rparr>) = pr c"
  shows "one_selected pr (A(i \<mapsto> a\<lparr> ta_state := Ready \<rparr>)) (ta_txhash a)"
proof (rule led_byI [where j = j and b = b])
  let ?A = "A(i \<mapsto> a\<lparr> ta_state := Ready \<rparr>)"
  have "j \<noteq> i" using a j by (auto simp: selected_def)
  then show "?A j = Some b" using j by simp
  have lead: "led_by pr A (ta_txhash a) j b" using selected_leads [of pr A b j] one j by simp
  show "\<not> selected c" if "?A k = Some c" "ta_txhash c = ta_txhash a" "k \<noteq> j" for k c
    using that lead by (cases "k = i") (auto simp: led_by_def selected_def)
  show "pr c \<le> pr b" if "?A k = Some c" "ta_txhash c = ta_txhash a" "k \<noteq> j" "ta_state b = Best" "ta_state c = Ready" for k c
    using that lead j(4) by (cases "k = i") (auto simp: led_by_def pr)
qed (use j in simp_all)

lemma step_in_over:
  assumes one: "one_selected pr A (ta_txhash a)" and a: "A i = Some a" "ta_state a = Delayed"
    and j: "A j = Some b" "ta_txhash b = ta_txhash a" "ta_state b = Best" "pr b \<le> pr a"
    and pr: "\<And>c s. pr (c\<lparr> ta_state := s \<rparr>) = pr c"
  shows "one_selected pr (A(j \<mapsto> b\<lparr> ta_state := Ready \<rparr>, i \<mapsto> a\<lparr> ta_state := Best \<rparr>)) (ta_txhash a)"
proof (rule led_byI [where j = i and b = "a\<lparr> ta_state := Best \<rparr>"])
  let ?A = "A(j \<mapsto> b\<lparr> ta_state := Ready \<rparr>, i \<mapsto> a\<lparr> ta_state := Best \<rparr>)"
  have lead: "led_by pr A (ta_txhash a) j b" using selected_leads [of pr A b j] one j by (simp add: selected_def)
  show "\<not> selected c" if "?A k = Some c" "ta_txhash c = ta_txhash a" "k \<noteq> i" for k c
    using that lead by (cases "k = j") (auto simp: led_by_def selected_def)
  show "pr c \<le> pr (a\<lparr> ta_state := Best \<rparr>)" if c: "?A k = Some c" "ta_txhash c = ta_txhash a" "k \<noteq> i" "ta_state c = Ready" for k c
  proof (cases "k = j")
    case True
    with c j(4) show ?thesis by (auto simp: pr)
  next
    case False
    then have "pr c \<le> pr b" using c lead j(3) by (auto simp: led_by_def)
    with j(4) show ?thesis by (simp add: pr)
  qed
qed (simp_all add: selected_def)

end
