(* ===== verification/Tx_Request_Moves.thy ===== *)
theory Tx_Request_Moves
  imports Tx_Request_Selection
begin

text \<open>
  The operations that move announcements, on the tracker: promotion, completion, forgetting and
  erasing do not raise, keep the invariant and leave every other announcement of its kind.
\<close>

lemma choice_okI:
  assumes ok: "choice_ok sip st" and tab: "tables_ok st'" and keys: "tr_keys st' = tr_keys st"
    and same: "\<And>j. reqs st' j \<noteq> reqs st j \<Longrightarrow>
      \<exists>a b. reqs st j = Some a \<and> reqs st' j = Some b \<and> ta_txhash a = h \<and> ta_txhash b = h"
    and one: "one_selected (ann_priority sip (tr_keys st)) (reqs st') h" and left: "someone_left (reqs st') h"
  shows "choice_ok sip st'"
  unfolding choice_ok_def keys
proof (intro conjI allI)
  fix g
  have other: "reqs st' j = Some a \<and> ta_txhash a = g \<longleftrightarrow> reqs st j = Some a \<and> ta_txhash a = g" if "g \<noteq> h" for j a
    using same [of j] that by (cases "reqs st' j = reqs st j") auto
  show "one_selected (ann_priority sip (tr_keys st)) (reqs st') g"
    using one one_selected_cong [OF choice_okD(2) [OF ok, of g] other] by (cases "g = h") blast+
  show "someone_left (reqs st') g"
    using left someone_left_cong [OF choice_okD(3) [OF ok, of g] other] by (cases "g = h") blast+
qed (rule tab)

lemma someone_left_upd: "A i = Some a \<Longrightarrow> s \<noteq> Completed \<Longrightarrow> someone_left A h \<Longrightarrow> someone_left (A(i \<mapsto> a\<lparr> ta_state := s \<rparr>)) h"
  unfolding someone_left_def
proof (intro allI impI)
  fix k c
  assume A: "A i = Some a" "s \<noteq> Completed" "\<forall>i a. A i = Some a \<longrightarrow> ta_txhash a = h \<longrightarrow> (\<exists>j b. A j = Some b \<and> ta_txhash b = h \<and> ta_state b \<noteq> Completed)"
    and k: "(A(i \<mapsto> a\<lparr> ta_state := s \<rparr>)) k = Some c" "ta_txhash c = h"
  have "\<exists>d. A k = Some d \<and> ta_txhash d = h" using k A(1) by (cases "k = i") auto
  then obtain j b where "A j = Some b" "ta_txhash b = h" "ta_state b \<noteq> Completed" using A(3) by blast
  then show "\<exists>j b. (A(i \<mapsto> a\<lparr> ta_state := s \<rparr>)) j = Some b \<and> ta_txhash b = h \<and> ta_state b \<noteq> Completed"
    using A(1,2) by (cases "j = i") (auto intro: exI [of _ j])
qed

section \<open>Promotion\<close>

lemma promote_spec:
  assumes ok: "choice_ok sip st" and a: "reqs st i = Some a" "ta_state a = Delayed"
  shows "\<exists>st' s. promote sip i st = Some st' \<and> choice_ok sip st' \<and> frame st st'
    \<and> agree {i} (reqs st) (reqs st') \<and> reqs st' i = Some (a\<lparr> ta_state := s \<rparr>) \<and> kind s = Best"
proof -
  let ?pr = "ann_priority sip (tr_keys st)" and ?h = "ta_txhash a" and ?A = "reqs st"
  have tab: "tables_ok st" and one: "one_selected ?pr ?A ?h" and left: "someone_left ?A ?h"
    using choice_okD [OF ok] by blast+
  obtain st1 where st1: "set_req_state i Ready st = Some st1" "tables_ok st1" "reqs st1 = ?A(i \<mapsto> a\<lparr> ta_state := Ready \<rparr>)"
    "frame st st1" using set_req_state_spec [OF tab a(1), of Ready] a(2) by auto
  have i1: "reqs st1 i = Some (a\<lparr> ta_state := Ready \<rparr>)" by (simp add: st1(3))
  have at: "req_at st1 i = a\<lparr> ta_state := Ready \<rparr>" by (rule reqs_at [OF i1])
  have keys: "tr_keys st1 = tr_keys st" using st1(4) by (simp add: frame_def)
  have sel: "reqs st1 k = Some c \<and> selected c \<longleftrightarrow> ?A k = Some c \<and> selected c" for k c
    using a by (auto simp: st1(3) selected_def)
  note left1 = someone_left_upd [of ?A, OF a(1) _ left]
  show ?thesis
  proof (cases "req_selected ?h st1")
    case None
    with req_selected_spec [OF tables_okD(2) [OF st1(2)], of ?h] sel
    have none: "?A k = Some c \<Longrightarrow> ta_txhash c = ?h \<Longrightarrow> \<not> selected c" for k c by fastforce
    obtain st2 where st2: "set_req_state i Best st1 = Some st2" "tables_ok st2" "reqs st2 = ?A(i \<mapsto> a\<lparr> ta_state := Best \<rparr>)"
      "frame st1 st2" using set_req_state_spec [OF st1(2) i1, of Best] by (auto simp: st1(3))
    have "choice_ok sip st2"
    proof (rule choice_okI [OF ok st2(2), of ?h])
      show "one_selected ?pr (reqs st2) ?h" unfolding st2(3) by (rule step_in_first [of ?A, OF a(1) none one])
      show "someone_left (reqs st2) ?h" unfolding st2(3) by (rule left1) simp
    qed (use a st2(3,4) keys in \<open>auto simp: frame_def split: if_splits\<close>)
    moreover have "promote sip i st = Some st2" using st1(1) st2(1) None at by (simp add: promote_def)
    moreover have "agree {i} ?A (reqs st2)" unfolding st2(3) by (rule agree_upd [of ?A, OF a(1)]) simp
    ultimately show ?thesis using st2 st1(4) frame_trans by (auto simp: kind_def intro!: exI [of _ Best])
  next
    case (Some j)
    with req_selected_spec [OF tables_okD(2) [OF st1(2)], of ?h] sel obtain b where
      b: "?A j = Some b" "ta_txhash b = ?h" "selected b" "reqs st1 j = Some b" by fastforce
    have j: "j \<noteq> i" using b a by (auto simp: selected_def)
    have atj: "req_at st1 j = b" by (rule reqs_at [OF b(4)])
    show ?thesis
    proof (cases "ta_state b = Best \<and> ?pr a > ?pr b")
      case True
      obtain st2 where st2: "set_req_state j Ready st1 = Some st2" "tables_ok st2" "frame st1 st2"
        "reqs st2 = (reqs st1)(j \<mapsto> b\<lparr> ta_state := Ready \<rparr>)"
        using set_req_state_spec [OF st1(2) b(4), of Ready] True by auto
      have i2: "reqs st2 i = Some (a\<lparr> ta_state := Ready \<rparr>)" using i1 j by (simp add: st2(4))
      obtain st3 where st3: "set_req_state i Best st2 = Some st3" "tables_ok st3" "frame st2 st3"
        "reqs st3 = ?A(j \<mapsto> b\<lparr> ta_state := Ready \<rparr>, i \<mapsto> a\<lparr> ta_state := Best \<rparr>)"
        using set_req_state_spec [OF st2(2) i2, of Best] j by (auto simp: st2(4) st1(3) fun_upd_twist)
      have fr: "frame st st3" using st1(4) st2(3) st3(3) frame_trans by blast
      have "choice_ok sip st3"
      proof (rule choice_okI [OF ok st3(2), of ?h])
        show "one_selected ?pr (reqs st3) ?h"
          unfolding st3(4) using True by (intro step_in_over [of ?pr ?A, OF one a b(1,2)]) simp_all
        have "someone_left (?A(j \<mapsto> b\<lparr> ta_state := Ready \<rparr>)) ?h" by (rule someone_left_upd [of ?A, OF b(1) _ left]) simp
        from someone_left_upd [OF _ _ this, of i a Best] show "someone_left (reqs st3) ?h"
          unfolding st3(4) using a j by simp
      qed (use a b st3(4) fr in \<open>auto simp: frame_def split: if_splits\<close>)
      moreover have "promote sip i st = Some st3"
        using st1(1) st2(1) st3(1) Some at atj True keys by (simp add: promote_def req_priority_ann)
      moreover have "agree {i} ?A (reqs st3)"
      proof -
        have "agree {i} ?A (?A(j \<mapsto> b\<lparr> ta_state := Ready \<rparr>))"
          using True by (intro agree_upd [of ?A, OF b(1)] disjI2 kin_set) (simp add: kind_def)
        moreover have "agree {i} (?A(j \<mapsto> b\<lparr> ta_state := Ready \<rparr>)) (reqs st3)"
          unfolding st3(4) using a j by (intro agree_upd [where a = a]) auto
        ultimately show ?thesis by (rule agree_trans)
      qed
      ultimately show ?thesis using st3(4) fr by (auto simp: kind_def intro!: exI [of _ Best])
    next
      case False
      have "choice_ok sip st1"
      proof (rule choice_okI [OF ok st1(2), of ?h])
        show "one_selected ?pr (reqs st1) ?h"
          unfolding st1(3) using False by (intro step_in_behind [of ?pr ?A, OF one a b(1-3)]) auto
        show "someone_left (reqs st1) ?h" unfolding st1(3) by (rule left1) simp
      qed (use a st1(3,4) in \<open>auto simp: frame_def split: if_splits\<close>)
      moreover have "promote sip i st = Some st1"
        using st1(1) Some at atj False keys by (auto simp: promote_def req_priority_ann)
      moreover have "agree {i} ?A (reqs st1)" unfolding st1(3) by (rule agree_upd [of ?A, OF a(1)]) simp
      ultimately show ?thesis using st1 by (auto simp: kind_def intro!: exI [of _ Ready])
    qed
  qed
qed

section \<open>Stepping out of the selection\<close>

lemma change_and_reselect_spec:
  assumes ok: "choice_ok sip st" and a: "reqs st i = Some a" "ta_state a \<noteq> Completed"
    and s: "s = Completed \<or> s = Delayed"
    and left: "s = Completed \<Longrightarrow> \<exists>j b. j \<noteq> i \<and> reqs st j = Some b \<and> ta_txhash b = ta_txhash a \<and> ta_state b \<noteq> Completed"
  shows "\<exists>st'. change_and_reselect sip i s st = Some st' \<and> choice_ok sip st' \<and> frame st st'
    \<and> agree {i} (reqs st) (reqs st') \<and> reqs st' i = Some (a\<lparr> ta_state := s \<rparr>)"
proof -
  let ?pr = "ann_priority sip (tr_keys st)" and ?h = "ta_txhash a" and ?A = "reqs st"
  have tab: "tables_ok st" and one: "one_selected ?pr ?A ?h" and some: "someone_left ?A ?h"
    using choice_okD [OF ok] by blast+
  have hs: "hashes_ok st" by (rule tables_okD(2) [OF tab])
  let ?ids = "map snd (inner (tr_by_hash st) ?h)"
  let ?ready = "filter (\<lambda>j. ta_state (req_at st j) = Ready) ?ids"
  have heap: "tr_heap st i = Some a" using a(1) by (simp add: reqs_Some)
  have listed: "map_of (tr_by_hash st) ?h = Some (inner (tr_by_hash st) ?h)" by (rule hash_listed [OF hs a(1)])
  have ready: "j \<in> set ?ready \<longleftrightarrow> (\<exists>b. ?A j = Some b \<and> ta_txhash b = ?h \<and> ta_state b = Ready)" for j
    unfolding set_filter hash_ids(2) [OF hs] using reqs_at by fastforce
  have final: "\<exists>st'. change_and_reselect sip i s st = Some st' \<and> choice_ok sip st' \<and> frame st st'
      \<and> agree {i} ?A (reqs st') \<and> reqs st' i = Some (a\<lparr> ta_state := s \<rparr>)"
    if "\<exists>st1. change_and_reselect sip i s st = set_req_state i s st1 \<and> tables_ok st1 \<and> frame st st1
        \<and> reqs st1 i = Some a \<and> agree {i} ?A (reqs st1)
        \<and> (\<forall>j. reqs st1 j \<noteq> ?A j \<longrightarrow> (\<exists>b c. ?A j = Some b \<and> reqs st1 j = Some c \<and> ta_txhash b = ?h \<and> ta_txhash c = ?h))
        \<and> one_selected ?pr ((reqs st1)(i \<mapsto> a\<lparr> ta_state := s \<rparr>)) ?h"
  proof -
    from that obtain st1 where st1: "change_and_reselect sip i s st = set_req_state i s st1" "tables_ok st1" "frame st st1"
      "reqs st1 i = Some a" "agree {i} ?A (reqs st1)"
      "\<forall>j. reqs st1 j \<noteq> ?A j \<longrightarrow> (\<exists>b c. ?A j = Some b \<and> reqs st1 j = Some c \<and> ta_txhash b = ?h \<and> ta_txhash c = ?h)"
      "one_selected ?pr ((reqs st1)(i \<mapsto> a\<lparr> ta_state := s \<rparr>)) ?h" by blast
    obtain st2 where st2: "set_req_state i s st1 = Some st2" "tables_ok st2" "frame st1 st2"
      "reqs st2 = (reqs st1)(i \<mapsto> a\<lparr> ta_state := s \<rparr>)" using set_req_state_spec [OF st1(2,4) a(2), of s] by blast
    have fr: "frame st st2" using st1(3) st2(3) by (rule frame_trans)
    have ag: "agree {i} ?A (reqs st2)"
      using agree_trans [OF st1(5) agree_upd [of "reqs st1", OF st1(4)]] unfolding st2(4) by blast
    have "someone_left (reqs st2) ?h"
    proof (cases "s = Completed")
      case True
      then obtain j b where j: "j \<noteq> i" "?A j = Some b" "ta_txhash b = ?h" "ta_state b \<noteq> Completed" using left by blast
      then obtain c where "reqs st2 j = Some c" "kin b c" using agree_at [OF ag] by blast
      with j show ?thesis unfolding someone_left_def using kinD(1,7) by metis
    next
      case False
      then show ?thesis unfolding someone_left_def st2(4) by (intro allI impI exI [of _ i]) auto
    qed
    then have "choice_ok sip st2"
      using st1(4,6,7) a(1) fr
      by (intro choice_okI [OF ok st2(2), of ?h]) (auto simp: st2(4) frame_def split: if_splits)
    with st1(1) st2(1,4) fr ag show ?thesis by auto
  qed
  show ?thesis
  proof (cases "selected a")
    case False
    then have "change_and_reselect sip i s st = set_req_state i s st"
      using heap by (simp add: change_and_reselect_def selected_def)
    with tab a(1) step_out_plain [of ?pr ?A, OF one a(1) False s] show ?thesis by (intro final exI [of _ st]) auto
  next
    case True
    show ?thesis
    proof (cases "first_max (\<lambda>j. req_priority sip j st) ?ready")
      case None
      then have "?ready = []" using first_max_spec [where f = "\<lambda>j. req_priority sip j st" and xs = ?ready] by simp
      then have none: "?A j = Some b \<Longrightarrow> ta_txhash b = ?h \<Longrightarrow> ta_state b \<noteq> Ready" for j b using ready [of j] by auto
      have "change_and_reselect sip i s st = set_req_state i s st"
        using heap listed None True by (simp add: change_and_reselect_def selected_def Let_def)
      with tab a(1) step_out_alone [of ?pr ?A, OF one a(1) True s none] show ?thesis by (intro final exI [of _ st]) auto
    next
      case (Some j)
      then have "j \<in> set ?ready" and max: "\<forall>k\<in>set ?ready. req_priority sip k st \<le> req_priority sip j st"
        using first_max_spec [where f = "\<lambda>j. req_priority sip j st" and xs = ?ready] by simp_all
      then obtain b where b: "?A j = Some b" "ta_txhash b = ?h" "ta_state b = Ready" using ready by blast
      have top: "?pr c \<le> ?pr b" if "?A k = Some c" "ta_txhash c = ?h" "ta_state c = Ready" for k c
      proof -
        have "k \<in> set ?ready" using that ready by blast
        with max have "req_priority sip k st \<le> req_priority sip j st" by blast
        then show ?thesis using reqs_at that(1) b(1) by (simp add: req_priority_ann)
      qed
      obtain st1 where st1: "set_req_state j Best st = Some st1" "tables_ok st1" "frame st st1"
        "reqs st1 = ?A(j \<mapsto> b\<lparr> ta_state := Best \<rparr>)" using set_req_state_spec [OF tab b(1), of Best] b(3) by auto
      have j: "j \<noteq> i" using True b a by (auto simp: selected_def)
      have "change_and_reselect sip i s st = set_req_state i s st1"
        using heap listed Some True st1(1) by (simp add: change_and_reselect_def selected_def Let_def)
      moreover have "agree {i} ?A (reqs st1)"
        unfolding st1(4) using b(3) by (intro agree_upd [of ?A, OF b(1)] disjI2 kin_set) (simp add: kind_def)
      moreover have "one_selected ?pr ((reqs st1)(i \<mapsto> a\<lparr> ta_state := s \<rparr>)) ?h"
        unfolding st1(4) by (rule step_out_next [of ?pr ?A, OF one a(1) True s b top ann_priority_state])
      ultimately show ?thesis using st1 j a(1) b by (intro final exI [of _ st1]) (auto split: if_splits)
    qed
  qed
qed

section \<open>Forgetting, completing and erasing\<close>

lemma req_erase_list:
  assumes "tables_ok st" "distinct ids" "\<forall>i\<in>set ids. reqs st i \<noteq> None"
  shows "\<exists>st'. fold_opt req_erase ids st = Some st' \<and> tables_ok st' \<and> frame st st' \<and> reqs st' = reqs st |` (- set ids)"
  using assms
proof (induction ids arbitrary: st)
  case Nil
  then show ?case by (auto simp: restrict_map_def)
next
  case (Cons i ids)
  then obtain a where "reqs st i = Some a" by auto
  from req_erase_spec [OF Cons.prems(1) this] obtain st1 where
    st1: "req_erase i st = Some st1" "tables_ok st1" "reqs st1 = (reqs st)(i := None)" "frame st st1" by blast
  have "\<forall>j\<in>set ids. reqs st1 j \<noteq> None" using Cons.prems by (auto simp: st1(3))
  from Cons.IH [OF st1(2) _ this] Cons.prems(2) obtain st' where
    "fold_opt req_erase ids st1 = Some st'" "tables_ok st'" "frame st1 st'" "reqs st' = reqs st1 |` (- set ids)" by auto
  moreover have "reqs st1 |` (- set ids) = reqs st |` (- set (i # ids))"
    unfolding st1(3) by (rule ext) (simp add: restrict_map_def)
  ultimately show ?case using st1(1,4) frame_trans by auto
qed

definition others :: "bytes \<Rightarrow> (int \<rightharpoonup> tx_announcement) \<Rightarrow> (int \<rightharpoonup> tx_announcement)" where
  "others h A = (\<lambda>i. case A i of None \<Rightarrow> None | Some a \<Rightarrow> if ta_txhash a = h then None else Some a)"

lemma others_Some [simp]: "others h A i = Some a \<longleftrightarrow> A i = Some a \<and> ta_txhash a \<noteq> h"
  by (auto simp: others_def split: option.splits)

lemma forget_spec:
  assumes ok: "choice_ok sip st"
  shows "\<exists>st'. forget_tx_hash h st = Some st' \<and> choice_ok sip st' \<and> frame st st' \<and> reqs st' = others h (reqs st)"
proof -
  have tab: "tables_ok st" by (rule choice_okD(1) [OF ok])
  let ?ids = "map snd (inner (tr_by_hash st) h)"
  note ids = hash_ids [OF tables_okD(2) [OF tab], of h]
  have "\<forall>i\<in>set ?ids. reqs st i \<noteq> None" unfolding ids(2) by auto
  from req_erase_list [OF tab ids(1) this] obtain st' where
    st': "fold_opt req_erase ?ids st = Some st'" "tables_ok st'" "frame st st'" "reqs st' = reqs st |` (- set ?ids)" by blast
  have A': "reqs st' = others h (reqs st)"
    unfolding st'(4) ids(2) by (auto simp: others_def restrict_map_def fun_eq_iff split: option.splits)
  have "one_selected (ann_priority sip (tr_keys st)) (others h (reqs st)) g \<and> someone_left (others h (reqs st)) g" for g
  proof (cases "g = h")
    case True
    then show ?thesis by (auto simp: one_selected_def someone_left_def)
  next
    case False
    then have same: "others h (reqs st) j = Some a \<and> ta_txhash a = g \<longleftrightarrow> reqs st j = Some a \<and> ta_txhash a = g" for j a by auto
    show ?thesis
      using one_selected_cong [OF choice_okD(2) [OF ok, of g] same] someone_left_cong [OF choice_okD(3) [OF ok, of g] same]
      by blast
  qed
  then have "choice_ok sip st'" using st'(2,3) by (simp add: choice_ok_def A' frame_def)
  with st'(1,3) A' show ?thesis by (simp add: forget_tx_hash_def)
qed

lemma make_completed_spec:
  assumes ok: "choice_ok sip st" and a: "reqs st i = Some a"
  shows "\<exists>st' b. make_completed sip i st = Some (st', b) \<and> choice_ok sip st' \<and> frame st st'
    \<and> (b \<longrightarrow> agree {i} (reqs st) (reqs st') \<and> reqs st' i = Some (a\<lparr> ta_state := Completed \<rparr>))
    \<and> (\<not> b \<longrightarrow> reqs st' = others (ta_txhash a) (reqs st)
        \<and> (\<forall>j c. reqs st j = Some c \<longrightarrow> ta_txhash c = ta_txhash a \<longrightarrow> j \<noteq> i \<longrightarrow> ta_state c = Completed))"
proof (cases "ta_state a = Completed")
  case True
  then have "a\<lparr> ta_state := Completed \<rparr> = a" by simp
  with True a ok show ?thesis by (intro exI [of _ st] exI [of _ True]) (auto simp: make_completed_def reqs_Some)
next
  case False
  let ?h = "ta_txhash a"
  have hs: "hashes_ok st" by (rule tables_okD(2) [OF choice_okD(1) [OF ok]])
  have heap: "tr_heap st i = Some a" using a by (simp add: reqs_Some)
  note listed = hash_listed [OF hs a]
  let ?all = "\<forall>j\<in>set (map snd (inner (tr_by_hash st) ?h)). j = i \<or> ta_state (req_at st j) = Completed"
  have all: "?all \<longleftrightarrow> (\<forall>j c. reqs st j = Some c \<longrightarrow> ta_txhash c = ?h \<longrightarrow> j \<noteq> i \<longrightarrow> ta_state c = Completed)"
    unfolding hash_ids(2) [OF hs] using reqs_at by fastforce
  show ?thesis
  proof (cases ?all)
    case True
    obtain st' where "forget_tx_hash ?h st = Some st'" "choice_ok sip st'" "frame st st'" "reqs st' = others ?h (reqs st)"
      using forget_spec [OF ok] by blast
    moreover from this have "make_completed sip i st = Some (st', False)"
      using heap listed False True by (simp add: make_completed_def)
    ultimately show ?thesis using True all by (intro exI [of _ st'] exI [of _ False]) blast
  next
    case nall: False
    then obtain j c where "j \<noteq> i" "reqs st j = Some c" "ta_txhash c = ?h" "ta_state c \<noteq> Completed" using all by blast
    then obtain st' where "change_and_reselect sip i Completed st = Some st'" "choice_ok sip st'" "frame st st'"
      "agree {i} (reqs st) (reqs st')" "reqs st' i = Some (a\<lparr> ta_state := Completed \<rparr>)"
      using change_and_reselect_spec [OF ok a False, of Completed] by blast
    moreover from this have "make_completed sip i st = Some (st', True)"
      using heap listed False nall by (auto simp: make_completed_def)
    ultimately show ?thesis by (intro exI [of _ st'] exI [of _ True]) simp
  qed
qed

lemma led_by_del:
  assumes "led_by pr A h j b" "j \<noteq> i"
  shows "led_by pr (A(i := None)) h j b"
proof -
  have old: "A k = Some c" if "(A(i := None)) k = Some c" for k c using that by (auto split: if_splits)
  have "(A(i := None)) j = Some b" using assms by (simp add: led_by_def)
  with assms(1) old show ?thesis unfolding led_by_def by blast
qed

lemma erase_completed_spec:
  assumes ok: "choice_ok sip st" and a: "reqs st i = Some a" "ta_state a = Completed"
  shows "\<exists>st'. req_erase i st = Some st' \<and> choice_ok sip st' \<and> frame st st' \<and> reqs st' = (reqs st)(i := None)"
proof -
  obtain st' where st': "req_erase i st = Some st'" "tables_ok st'" "reqs st' = (reqs st)(i := None)" "frame st st'"
    using req_erase_spec [OF choice_okD(1) [OF ok] a(1)] by blast
  have "one_selected pr ((reqs st)(i := None)) g" if one: "one_selected pr (reqs st) g" for pr g
  proof (cases "quiet (reqs st) g")
    case True
    then have "quiet ((reqs st)(i := None)) g" by (auto simp: quiet_def)
    then show ?thesis unfolding one_selected_iff by (rule disjI1)
  next
    case False
    with one obtain j b where l: "led_by pr (reqs st) g j b" unfolding one_selected_iff by (elim disjE exE) simp_all
    then have "j \<noteq> i" using a by (auto simp: led_by_def selected_def)
    from led_by_del [OF l this] show ?thesis unfolding one_selected_iff by (intro disjI2 exI)
  qed
  then have "one_selected (ann_priority sip (tr_keys st)) ((reqs st)(i := None)) g" for g
    using choice_okD(2) [OF ok, of g] by simp
  moreover have "someone_left ((reqs st)(i := None)) g" for g
    unfolding someone_left_def
  proof (intro allI impI)
    fix k c
    assume "((reqs st)(i := None)) k = Some c" "ta_txhash c = g"
    then obtain j b where "reqs st j = Some b" "ta_txhash b = g" "ta_state b \<noteq> Completed"
      using choice_okD(3) [OF ok, of g] unfolding someone_left_def by (auto split: if_splits)
    moreover from this have "j \<noteq> i" using a by auto
    ultimately show "\<exists>j b. ((reqs st)(i := None)) j = Some b \<and> ta_txhash b = g \<and> ta_state b \<noteq> Completed" by auto
  qed
  ultimately have "choice_ok sip st'" using st'(2,4) by (simp add: choice_ok_def st'(3) frame_def)
  with st' show ?thesis by blast
qed

text \<open>
  What completing and erasing may change: every announcement left had the same fields and kind,
  but for completion.
\<close>

definition fewer :: "(int \<rightharpoonup> tx_announcement) \<Rightarrow> (int \<rightharpoonup> tx_announcement) \<Rightarrow> bool" where
  "fewer A A' \<longleftrightarrow> (\<forall>j b. A' j = Some b \<longrightarrow>
     (\<exists>a. A j = Some a \<and> (kin a b \<or> b = a\<lparr> ta_state := Completed \<rparr>)))"

lemma fewer_refl [simp]: "fewer A A"
  by (auto simp: fewer_def)

lemma kin_completed: "kin a b \<Longrightarrow> b\<lparr> ta_state := Completed \<rparr> = a\<lparr> ta_state := Completed \<rparr>"
  by (auto simp: kin_def)

lemma completed_kin: "kin (a\<lparr> ta_state := Completed \<rparr>) c \<Longrightarrow> c = a\<lparr> ta_state := Completed \<rparr>"
  by (auto simp: kin_def kind_def split: if_splits)

lemma fewer_trans: "fewer A B \<Longrightarrow> fewer B C \<Longrightarrow> fewer A C"
proof -
  assume A: "fewer A B" "fewer B C"
  show "fewer A C" unfolding fewer_def
  proof (intro allI impI)
    fix j c
    assume "C j = Some c"
    then obtain b where b: "B j = Some b" "kin b c \<or> c = b\<lparr> ta_state := Completed \<rparr>" using A(2) by (auto simp: fewer_def)
    then obtain a where a: "A j = Some a" "kin a b \<or> b = a\<lparr> ta_state := Completed \<rparr>" using A(1) by (auto simp: fewer_def)
    have "kin a c \<or> c = a\<lparr> ta_state := Completed \<rparr>"
      using a(2)
    proof
      assume k: "kin a b"
      show ?thesis using b(2) kin_trans [OF k, of c] kin_completed [OF k] by (elim disjE) simp_all
    next
      assume "b = a\<lparr> ta_state := Completed \<rparr>"
      then show ?thesis using b(2) completed_kin [of a c] by (elim disjE) simp_all
    qed
    with a(1) show "\<exists>a. A j = Some a \<and> (kin a c \<or> c = a\<lparr> ta_state := Completed \<rparr>)" by blast
  qed
qed

lemma complete_fewer:
  assumes "choice_ok sip st" "reqs st i = Some a" "make_completed sip i st = Some (st', b)"
  shows "choice_ok sip st'" "frame st st'" "fewer (reqs st) (reqs st')"
    "b \<Longrightarrow> reqs st' i = Some (a\<lparr> ta_state := Completed \<rparr>)"
    "b \<Longrightarrow> agree {i} (reqs st) (reqs st')" "\<not> b \<Longrightarrow> reqs st' = others (ta_txhash a) (reqs st)"
proof -
  note spec = make_completed_spec [OF assms(1,2)]
  show "choice_ok sip st'" "frame st st'" and i: "b \<Longrightarrow> reqs st' i = Some (a\<lparr> ta_state := Completed \<rparr>)"
    and ag: "b \<Longrightarrow> agree {i} (reqs st) (reqs st')" and ot: "\<not> b \<Longrightarrow> reqs st' = others (ta_txhash a) (reqs st)"
    using spec assms(3) by auto
  show "fewer (reqs st) (reqs st')" unfolding fewer_def
  proof (intro allI impI)
    fix j c
    assume c: "reqs st' j = Some c"
    show "\<exists>a. reqs st j = Some a \<and> (kin a c \<or> c = a\<lparr> ta_state := Completed \<rparr>)"
    proof (cases b)
      case True
      show ?thesis
      proof (cases "j = i")
        case True
        with i [OF \<open>b\<close>] c assms(2) show ?thesis by auto
      next
        case False
        with agree_back [OF ag [OF \<open>b\<close>], of j c] c show ?thesis by auto
      qed
    next
      case False
      with ot c show ?thesis by auto
    qed
  qed
qed

lemma complete_and_erase_spec:
  assumes ok: "choice_ok sip st" and a: "reqs st i = Some a"
  shows "\<exists>st'. complete_and_erase sip i st = Some st' \<and> choice_ok sip st' \<and> frame st st' \<and> fewer (reqs st) (reqs st')
    \<and> (\<forall>j b. reqs st j = Some b \<longrightarrow> j \<noteq> i \<longrightarrow> reqs st' j = None \<longrightarrow> ta_txhash b = ta_txhash a) \<and> reqs st' i = None"
proof -
  obtain st1 b where run: "make_completed sip i st = Some (st1, b)" using make_completed_spec [OF ok a] by blast
  note c = complete_fewer [OF ok a run]
  show ?thesis
  proof (cases b)
    case True
    obtain st2 where st2: "req_erase i st1 = Some st2" "choice_ok sip st2" "frame st1 st2" "reqs st2 = (reqs st1)(i := None)"
      using erase_completed_spec [OF c(1) c(4) [OF True]] by auto
    have "fewer (reqs st1) (reqs st2)" unfolding st2(4) by (auto simp: fewer_def)
    then have "fewer (reqs st) (reqs st2)" by (rule fewer_trans [OF c(3)])
    moreover have "reqs st2 j \<noteq> None" if "reqs st j = Some d" "j \<noteq> i" for j d
      using agree_at [OF c(5) [OF True], of j d] that by (auto simp: st2(4))
    moreover have "complete_and_erase sip i st = Some st2" using run True st2(1) by (simp add: complete_and_erase_def)
    moreover have "reqs st2 i = None" by (simp add: st2(4))
    moreover note frame_trans [OF c(2) st2(3)] st2(2)
    ultimately show ?thesis by (intro exI [of _ st2] conjI allI impI) (assumption | blast)+
  next
    case False
    have "ta_txhash d = ta_txhash a" if "reqs st j = Some d" "reqs st1 j = None" for j d
      using that unfolding c(6) [OF False] by (simp add: others_def split: if_splits)
    moreover have "reqs st1 i = None" using a unfolding c(6) [OF False] by (simp add: others_def)
    moreover have "complete_and_erase sip i st = Some st1" using run False by (simp add: complete_and_erase_def)
    moreover note c(1-3)
    ultimately show ?thesis by (intro exI [of _ st1] conjI allI impI) (assumption | blast)+
  qed
qed

end
