(* ===== verification/Tx_Request_Time.thy ===== *)
theory Tx_Request_Time
  imports Tx_Request_Moves
begin

text \<open>
  The events: every announcement that waits has an entry at its time, so that bringing the
  tracker to a time completes exactly the requests expired by then and makes a candidate of
  every announcement whose time has come, whichever way time went.
\<close>

section \<open>Scheduled announcements\<close>

definition scheduled :: "int set \<Rightarrow> tx_tracker \<Rightarrow> bool" where
  \<comment> \<open>all that wait but those of \<open>X\<close>\<close>
  "scheduled X st \<longleftrightarrow> sorted (map event_key (tr_events st)) \<and> (\<forall>e\<in>set (tr_events st). snd (snd e) \<in> dom (tr_heap st))
     \<and> (\<forall>i a. i \<notin> X \<longrightarrow> reqs st i = Some a \<longrightarrow> waits a \<longrightarrow> (\<exists>t. (ta_time a, t, i) \<in> set (tr_events st)))"

lemma scheduledD:
  assumes "scheduled X st"
  shows "sorted (map event_key (tr_events st))" "e \<in> set (tr_events st) \<Longrightarrow> snd (snd e) \<in> dom (tr_heap st)"
    "i \<notin> X \<Longrightarrow> reqs st i = Some a \<Longrightarrow> waits a \<Longrightarrow> \<exists>t. (ta_time a, t, i) \<in> set (tr_events st)"
  using assms unfolding scheduled_def by blast+

lemma scheduled_frame:
  assumes "scheduled X st" "frame st st'"
    and "\<And>i b. i \<notin> Y \<Longrightarrow> reqs st' i = Some b \<Longrightarrow> waits b \<Longrightarrow> i \<notin> X \<and> (\<exists>a. reqs st i = Some a \<and> waits a \<and> ta_time a = ta_time b)"
  shows "scheduled Y st'"
proof -
  have fr: "tr_events st' = tr_events st" "dom (tr_heap st') = dom (tr_heap st)" using assms(2) by (simp_all add: frame_def)
  have "\<exists>t. (ta_time b, t, i) \<in> set (tr_events st)" if "i \<notin> Y" "reqs st' i = Some b" "waits b" for i b
    using assms(3) [OF that] scheduledD(3) [OF assms(1)] by metis
  with scheduledD(1,2) [OF assms(1)] show ?thesis unfolding scheduled_def fr by blast
qed

lemma fewer_waits:
  assumes "fewer A A'" "A' i = Some b" "waits b"
  shows "\<exists>a. A i = Some a \<and> waits a \<and> ta_time a = ta_time b"
proof -
  obtain a where a: "A i = Some a" "kin a b \<or> b = a\<lparr> ta_state := Completed \<rparr>" using assms(1,2) by (auto simp: fewer_def)
  with assms(3) have "kin a b" by (auto simp: waits_def is_waiting_def)
  from kinD(3,11) [OF this] assms(3) a(1) show ?thesis by auto
qed

lemma scheduled_fewer:
  "scheduled X st \<Longrightarrow> frame st st' \<Longrightarrow> fewer (reqs st) (reqs st') \<Longrightarrow> X = {} \<Longrightarrow> scheduled {} st'"
  by (rule scheduled_frame [of X st st']) (use fewer_waits in auto)

text \<open>Only the events and their tie-breaker change.\<close>

definition events_only :: "tx_tracker \<Rightarrow> tx_tracker \<Rightarrow> bool" where
  "events_only st st' \<longleftrightarrow> (\<exists>e t. st' = st\<lparr> tr_events := e, tr_tie := t \<rparr>)"

lemma events_onlyD:
  assumes "events_only st st'"
  shows "reqs st' = reqs st" "tables_ok st' = tables_ok st" "choice_ok sip st' = choice_ok sip st"
    "tr_keys st' = tr_keys st" "tr_last_now st' = tr_last_now st" "tr_sequence st' = tr_sequence st"
    "tr_heap st' = tr_heap st" "tr_peers st' = tr_peers st" "req_at st' = req_at st"
proof -
  obtain e t where st': "st' = st\<lparr> tr_events := e, tr_tie := t \<rparr>" using assms by (auto simp: events_only_def)
  show r: "reqs st' = reqs st" by (simp add: st' reqs_def)
  show "tr_keys st' = tr_keys st" "tr_last_now st' = tr_last_now st" "tr_sequence st' = tr_sequence st"
    "tr_heap st' = tr_heap st" "tr_peers st' = tr_peers st" "req_at st' = req_at st" by (simp_all add: st' req_at_def fun_eq_iff)
  show tab: "tables_ok st' = tables_ok st" unfolding tables_ok_def store_ok_def hashes_ok_def r by (simp add: st')
  show "choice_ok sip st' = choice_ok sip st" unfolding choice_ok_def tab r by (simp add: st')
qed

lemma waiting_ids_set:
  assumes "tables_ok st"
  shows "set (waiting_ids st) = {i. \<exists>a. reqs st i = Some a \<and> waits a}"
proof -
  have dist: "distinct (map fst (tr_peers st))" using tables_okD(3) [OF assms] by (simp add: peers_ok_def)
  have "i \<in> set (concat (map (\<lambda>(_, known). map snd (tp_announcements known)) (tr_peers st)))
      \<longleftrightarrow> (\<exists>a. reqs st i = Some a)" (is "?l = ?r") for i
  proof
    assume ?l
    then obtain p k h where pk: "(p, k) \<in> set (tr_peers st)" "(h, i) \<in> set (tp_announcements k)" by fastforce
    then have "map_of (tr_peers st) p = Some k" using dist by simp
    then have "peer_ok (reqs st) p k"
      using tables_okD(3) [OF assms] unfolding peers_ok_def by (metis (no_types, lifting) option.simps(5))
    with pk(2) show ?r by (auto simp: peer_ok_def held_def)
  next
    assume ?r
    then obtain a where a: "reqs st i = Some a" by blast
    obtain k where k: "map_of (tr_peers st) (ta_peer a) = Some k" "peer_ok (reqs st) (ta_peer a) k"
      using peer_at [OF tables_okD(3) [OF assms] a] by blast
    have "held (reqs st) (ta_txhash a) (ta_peer a) i" using a by (auto simp: held_def)
    then have "(ta_txhash a, i) \<in> set (tp_announcements k)" using k(2) by (auto simp: peer_ok_def dest: map_of_SomeD)
    then show ?l using map_of_SomeD [OF k(1)] by force
  qed
  then show ?thesis unfolding waiting_ids_def set_filter by (auto simp: waits_def reqs_at)
qed

lemma compact_spec:
  assumes tab: "tables_ok st" and sch: "scheduled X st"
  shows "events_only st (compact st)" "scheduled X (compact st)"
proof -
  let ?ids = "waiting_ids st"
  let ?entries = "map (\<lambda>(n, i). (ta_time (req_at st i), tr_tie st + int n, i)) (enumerate 0 ?ids)"
  have same: "events_only st st"
    unfolding events_only_def by (rule exI [of _ "tr_events st"], rule exI [of _ "tr_tie st"]) simp
  show ev: "events_only st (compact st)"
    using same by (auto simp: compact_def events_only_def Let_def)
  show "scheduled X (compact st)"
  proof (cases "int (length (tr_events st)) \<le> 2 * tr_waiting st + compact_slack")
    case True
    with sch show ?thesis by (simp add: compact_def)
  next
    case False
    then have evs: "tr_events (compact st) = sort_key event_key ?entries" by (simp add: compact_def Let_def)
    have ids: "snd (snd e) \<in> set ?ids" if "e \<in> set ?entries" for e
      using that by (auto dest: in_set_enumerate_eq [THEN iffD1] simp: in_set_enumerate_eq)
    have "\<exists>t. (ta_time a, t, i) \<in> set ?entries" if "reqs st i = Some a" "waits a" for i a
    proof -
      have "i \<in> set ?ids" using waiting_ids_set [OF tab] that by blast
      then obtain n where "n < length ?ids" "?ids ! n = i" by (auto simp: in_set_conv_nth)
      then have "(n, i) \<in> set (enumerate 0 ?ids)" by (simp add: in_set_enumerate_eq)
      then show ?thesis using reqs_at [OF that(1)] by force
    qed
    moreover have "snd (snd e) \<in> dom (tr_heap st)" if "e \<in> set ?entries" for e
      using ids [OF that] unfolding waiting_ids_set [OF tab] by (auto simp: reqs_Some)
    ultimately show ?thesis
      unfolding scheduled_def events_onlyD(1,7) [OF ev] evs set_sort by (auto simp: sorted_sort_key)
  qed
qed

lemma schedule_spec:
  assumes tab: "tables_ok st" and sch: "scheduled X st" and i: "reqs st i \<noteq> None"
  shows "events_only st (schedule i st)" "scheduled (X - {i}) (schedule i st)"
proof -
  obtain a where a: "reqs st i = Some a" using i by auto
  let ?st = "st\<lparr> tr_events := insort_key event_key (ta_time (req_at st i), tr_tie st, i) (tr_events st), tr_tie := tr_tie st + 1 \<rparr>"
  have ev: "events_only st ?st" by (auto simp: events_only_def)
  have tab': "tables_ok ?st" using tab events_onlyD(2) [OF ev] by simp
  have "\<exists>t. (ta_time b, t, j) \<in> insert (ta_time (req_at st i), tr_tie st, i) (set (tr_events st))"
    if "j \<notin> X - {i}" "reqs st j = Some b" "waits b" for j b
    using scheduledD(3) [OF sch _ that(2,3)] that(1,2) reqs_at [OF that(2)] by (cases "j = i") auto
  then have sch': "scheduled (X - {i}) ?st"
    using scheduledD(1,2) [OF sch] a
    unfolding scheduled_def events_onlyD(1,7) [OF ev] by (auto simp: set_insort_key sorted_insort_key reqs_Some)
  have "events_only ?st (schedule i st)" using compact_spec(1) [OF tab' sch'] by (simp add: schedule_def)
  then show "events_only st (schedule i st)" by (auto simp: events_only_def)
  show "scheduled (X - {i}) (schedule i st)" using compact_spec(2) [OF tab' sch'] by (simp add: schedule_def)
qed

section \<open>Going back in time\<close>

definition clock :: "tx_tracker \<Rightarrow> tx_tracker \<Rightarrow> bool" where
  "clock st st' \<longleftrightarrow> tr_keys st' = tr_keys st \<and> tr_last_now st' = tr_last_now st"

lemma clock_refl [simp]: "clock st st"
  by (simp add: clock_def)

lemma clock_trans: "clock st s \<Longrightarrow> clock s t \<Longrightarrow> clock st t"
  by (simp add: clock_def)

lemma clock_frame: "frame st st' \<Longrightarrow> clock st st'"
  by (simp add: clock_def frame_def)

lemma clock_events: "events_only st st' \<Longrightarrow> clock st st'"
  by (auto simp: clock_def events_only_def)

definition early :: "real \<Rightarrow> (int \<rightharpoonup> tx_announcement) \<Rightarrow> int set" where
  \<comment> \<open>no candidate there has its time ahead of it\<close>
  "early now A = {i. \<forall>a. A i = Some a \<longrightarrow> candidate a \<longrightarrow> ta_time a \<le> now}"

definition requests :: "(int \<rightharpoonup> tx_announcement) \<Rightarrow> (int \<times> tx_announcement) set" where
  "requests A = {(i, a). A i = Some a \<and> ta_state a = Requested}"

definition same_held :: "(int \<rightharpoonup> tx_announcement) \<Rightarrow> (int \<rightharpoonup> tx_announcement) \<Rightarrow> bool" where
  "same_held A A' \<longleftrightarrow> held A' = held A"

lemma kin_requested: "kin a b \<Longrightarrow> ta_state a = Requested \<Longrightarrow> b = a"
  by (auto simp: kin_def kind_def split: if_splits)

lemma kin_requested': "kin a b \<Longrightarrow> ta_state b = Requested \<Longrightarrow> b = a"
  by (auto simp: kin_def kind_def split: if_splits)

lemma agree_requests:
  assumes "agree {i} A A'" "\<And>a. A i = Some a \<Longrightarrow> ta_state a \<noteq> Requested" "\<And>a. A' i = Some a \<Longrightarrow> ta_state a \<noteq> Requested"
  shows "requests A' = requests A"
proof -
  have "A' j = Some a \<and> ta_state a = Requested \<longleftrightarrow> A j = Some a \<and> ta_state a = Requested" for j a
  proof (cases "j = i")
    case True
    with assms(2,3) show ?thesis by auto
  next
    case False
    then show ?thesis
      using agree_at [OF assms(1), of j] agree_back [OF assms(1), of j] kin_requested kin_requested' by (metis singletonD)
  qed
  then show ?thesis by (simp add: requests_def)
qed

lemma agree_early:
  assumes "agree {i} A A'" "i \<in> early now A'"
  shows "early now A \<subseteq> early now A'"
proof
  fix j
  assume j: "j \<in> early now A"
  show "j \<in> early now A'"
  proof (cases "j = i")
    case False
    have "ta_time b \<le> now" if b: "A' j = Some b" "candidate b" for b
    proof -
      obtain a where "A j = Some a" "kin a b" using agree_back [OF assms(1), of j b] False b(1) by auto
      with kinD(3,5) [of a b] b(2) j show ?thesis by (auto simp: early_def)
    qed
    then show ?thesis by (simp add: early_def)
  qed (use assms in simp)
qed

lemma agree_held:
  assumes "agree {i} A A'" "A i = Some a" "A' i = Some b" "ta_txhash b = ta_txhash a" "ta_peer b = ta_peer a"
  shows "same_held A A'"
proof -
  have "held A' h p j \<longleftrightarrow> held A h p j" for h p j
  proof (cases "j = i")
    case False
    show ?thesis
    proof
      assume "held A' h p j"
      then obtain c where c: "A' j = Some c" "ta_txhash c = h" "ta_peer c = p" by (auto simp: held_def)
      obtain d where "A j = Some d" "kin d c" using agree_back [OF assms(1), of j c] False c(1) by auto
      with kinD(1,2) [of d c] c show "held A h p j" by (auto simp: held_def)
    next
      assume "held A h p j"
      then obtain c where c: "A j = Some c" "ta_txhash c = h" "ta_peer c = p" by (auto simp: held_def)
      obtain d where "A' j = Some d" "kin c d" using agree_at [OF assms(1), of j c] False c(1) by auto
      with kinD(1,2) [of c d] c show "held A' h p j" by (auto simp: held_def)
    qed
  qed (use assms in \<open>simp add: held_def\<close>)
  then show ?thesis unfolding same_held_def by (intro ext)
qed

text \<open>
  How announcements go on while time moves: only the state changes, what is completed stays so,
  a request ends or goes on, and nothing else is completed or lost but a request expired by then.
\<close>

definition moved :: "tx_announcement \<Rightarrow> tx_announcement \<Rightarrow> bool" where
  "moved a b \<longleftrightarrow> (\<exists>s. b = a\<lparr> ta_state := s \<rparr> \<and> (ta_state a = Completed \<longrightarrow> s = Completed)
     \<and> (ta_state a = Requested \<longrightarrow> s = Requested \<or> s = Completed) \<and> (s = Requested \<longrightarrow> ta_state a = Requested))"

definition evolves :: "real \<Rightarrow> (int \<rightharpoonup> tx_announcement) \<Rightarrow> (int \<rightharpoonup> tx_announcement) \<Rightarrow> bool" where
  "evolves now A A' \<longleftrightarrow> (\<forall>i b. A' i = Some b \<longrightarrow> (\<exists>a. A i = Some a \<and> moved a b))
     \<and> (\<forall>i a. A i = Some a \<longrightarrow> ta_state a \<noteq> Completed \<longrightarrow> \<not> (ta_state a = Requested \<and> ta_time a \<le> now)
          \<longrightarrow> (\<exists>b. A' i = Some b \<and> ta_state b \<noteq> Completed))"

lemma moved_refl [simp]: "moved a a"
  unfolding moved_def by (rule exI [of _ "ta_state a"]) simp

lemma moved_trans: "moved a b \<Longrightarrow> moved b c \<Longrightarrow> moved a c"
  by (auto simp: moved_def)

lemma kin_moved: "kin a b \<Longrightarrow> moved a b"
  by (auto simp: kin_def moved_def kind_def split: if_splits)

lemma moved_time: "moved a b \<Longrightarrow> ta_time b = ta_time a"
  by (auto simp: moved_def)

lemma moved_requested: "moved a b \<Longrightarrow> ta_state b = Requested \<Longrightarrow> ta_state a = Requested"
  by (auto simp: moved_def)

lemma evolves_refl [simp]: "evolves now A A"
  unfolding evolves_def using moved_refl by blast

lemma evolves_trans:
  assumes "evolves now A B" "evolves now B C"
  shows "evolves now A C"
  unfolding evolves_def
proof (intro conjI allI impI)
  fix i c
  assume "C i = Some c"
  then obtain b where b: "B i = Some b" "moved b c" using assms(2) unfolding evolves_def by blast
  then obtain a where "A i = Some a" "moved a b" using assms(1) unfolding evolves_def by blast
  with moved_trans [OF this(2) b(2)] show "\<exists>a. A i = Some a \<and> moved a c" by blast
next
  fix i a
  assume a: "A i = Some a" "ta_state a \<noteq> Completed" "\<not> (ta_state a = Requested \<and> ta_time a \<le> now)"
  then obtain b where b: "B i = Some b" "ta_state b \<noteq> Completed" using assms(1) unfolding evolves_def by blast
  then obtain a' where "A i = Some a'" "moved a' b" using assms(1) unfolding evolves_def by blast
  then have m: "moved a b" using a(1) by simp
  have "\<not> (ta_state b = Requested \<and> ta_time b \<le> now)" using moved_time [OF m] moved_requested [OF m] a(3) by auto
  with b show "\<exists>b. C i = Some b \<and> ta_state b \<noteq> Completed" using assms(2) unfolding evolves_def by blast
qed

lemma agree_evolves:
  assumes ag: "agree {i} A A'" and i: "A i = Some a" "A' i = Some b" "moved a b"
    and left: "ta_state b \<noteq> Completed \<or> (ta_state a = Requested \<and> ta_time a \<le> now)"
  shows "evolves now A A'"
  unfolding evolves_def
proof (intro conjI allI impI)
  fix j c
  assume c: "A' j = Some c"
  show "\<exists>a. A j = Some a \<and> moved a c"
  proof (cases "j = i")
    case True
    with i c show ?thesis by simp
  next
    case False
    then obtain d where "A j = Some d" "kin d c" using agree_back [OF ag, of j c] c by auto
    with kin_moved [of d c] show ?thesis by blast
  qed
next
  fix j c
  assume c: "A j = Some c" "ta_state c \<noteq> Completed" "\<not> (ta_state c = Requested \<and> ta_time c \<le> now)"
  show "\<exists>b. A' j = Some b \<and> ta_state b \<noteq> Completed"
  proof (cases "j = i")
    case True
    with i left c show ?thesis by auto
  next
    case False
    then obtain d where "A' j = Some d" "kin c d" using agree_at [OF ag, of j c] c(1) by auto
    with kinD(7) [of c d] c(2) show ?thesis by auto
  qed
qed

text \<open>One announcement, all of a peer, all peers: each step keeps what the next needs.\<close>

definition back_ok :: "siphash \<Rightarrow> real \<Rightarrow> int set \<Rightarrow> tx_tracker \<Rightarrow> tx_tracker \<Rightarrow> bool" where
  "back_ok sip now S st st' \<longleftrightarrow> choice_ok sip st' \<and> scheduled {} st' \<and> clock st st'
     \<and> same_held (reqs st) (reqs st') \<and> requests (reqs st') = requests (reqs st) \<and> evolves now (reqs st) (reqs st')
     \<and> early now (reqs st) \<union> S \<subseteq> early now (reqs st')"

lemma back_ok_trans:
  assumes "back_ok sip now S st s" "back_ok sip now T s t"
  shows "back_ok sip now (S \<union> T) st t"
  using assms clock_trans [of st s t] evolves_trans [of now "reqs st" "reqs s" "reqs t"] unfolding back_ok_def same_held_def by auto

lemma time_back_spec:
  assumes ok: "choice_ok sip st" "scheduled {} st" and a: "reqs st i \<noteq> None"
  shows "\<exists>st'. time_back sip now i st = Some st' \<and> back_ok sip now {i} st st'"
proof -
  obtain a where a: "reqs st i = Some a" using assms(3) by auto
  have at: "req_at st i = a" by (rule reqs_at [OF a])
  show ?thesis
  proof (cases "candidate a \<and> now < ta_time a")
    case False
    then have "i \<in> early now (reqs st)" using a by (auto simp: early_def)
    moreover have "time_back sip now i st = Some st" using False at by (auto simp: time_back_def candidate_def Let_def)
    ultimately show ?thesis using ok by (auto simp: back_ok_def same_held_def)
  next
    case True
    then have nc: "ta_state a \<noteq> Completed" "ta_state a \<noteq> Requested" by (auto simp: candidate_def)
    obtain st1 where st1: "change_and_reselect sip i Delayed st = Some st1" "choice_ok sip st1" "frame st st1"
      "agree {i} (reqs st) (reqs st1)" "reqs st1 i = Some (a\<lparr> ta_state := Delayed \<rparr>)"
      using change_and_reselect_spec [OF ok(1) a nc(1), of Delayed] by auto
    have sch: "scheduled {i} st1"
    proof (rule scheduled_frame [OF ok(2) st1(3)])
      show "j \<notin> {} \<and> (\<exists>c. reqs st j = Some c \<and> waits c \<and> ta_time c = ta_time b)"
        if b: "j \<notin> {i}" "reqs st1 j = Some b" "waits b" for j b
      proof -
        obtain c where "reqs st j = Some c" "kin c b" using agree_back [OF st1(4) b(1,2)] by blast
        with kinD(3,11) [of c b] b(3) show ?thesis by auto
      qed
    qed
    have tab1: "tables_ok st1" by (rule choice_okD(1) [OF st1(2)])
    have "reqs st1 i \<noteq> None" using st1(5) by simp
    note s = schedule_spec [OF tab1 sch this]
    have run: "time_back sip now i st = Some (schedule i st1)"
      using True at st1(1) by (auto simp: time_back_def candidate_def Let_def)
    note ev = events_onlyD [OF s(1)]
    have i': "i \<in> early now (reqs st1)" using st1(5) by (auto simp: early_def candidate_def)
    have "back_ok sip now {i} st (schedule i st1)"
      unfolding back_ok_def ev(1,3)
    proof (intro conjI)
      show "choice_ok sip st1" by (rule st1(2))
      show "scheduled {} (schedule i st1)" using s(2) by simp
      show "clock st (schedule i st1)" by (rule clock_trans [OF clock_frame [OF st1(3)] clock_events [OF s(1)]])
      show "same_held (reqs st) (reqs st1)" by (rule agree_held [OF st1(4) a st1(5)]) simp_all
      show "requests (reqs st1) = requests (reqs st)" using a nc st1(5) by (intro agree_requests [OF st1(4)]) auto
      show "evolves now (reqs st) (reqs st1)"
        using True nc by (intro agree_evolves [OF st1(4) a st1(5)]) (auto simp: moved_def)
      show "early now (reqs st) \<union> {i} \<subseteq> early now (reqs st1)" using agree_early [OF st1(4) i'] i' by blast
    qed
    with run show ?thesis by blast
  qed
qed

lemma same_held_alive: "same_held A A' \<Longrightarrow> A i \<noteq> None \<Longrightarrow> A' i \<noteq> None"
proof -
  assume s: "same_held A A'" "A i \<noteq> None"
  then obtain a where "A i = Some a" by auto
  then have "held A (ta_txhash a) (ta_peer a) i" by (auto simp: held_def)
  then have "held A' (ta_txhash a) (ta_peer a) i" using s(1) by (simp add: same_held_def)
  then show ?thesis by (auto simp: held_def)
qed

lemma time_back_list:
  assumes "choice_ok sip st" "scheduled {} st" "\<forall>i\<in>set ids. reqs st i \<noteq> None"
  shows "\<exists>st'. fold_opt (time_back sip now) ids st = Some st' \<and> back_ok sip now (set ids) st st'"
  using assms
proof (induction ids arbitrary: st)
  case Nil
  then show ?case by (simp add: back_ok_def same_held_def)
next
  case (Cons i ids)
  obtain st1 where st1: "time_back sip now i st = Some st1" "back_ok sip now {i} st st1"
    using time_back_spec [OF Cons.prems(1,2), of i now] Cons.prems(3) by auto
  have "\<forall>j\<in>set ids. reqs st1 j \<noteq> None"
    using Cons.prems(3) st1(2) same_held_alive unfolding back_ok_def by (metis list.set_intros(2))
  then obtain st' where st': "fold_opt (time_back sip now) ids st1 = Some st'" "back_ok sip now (set ids) st1 st'"
    using Cons.IH [of st1] st1(2) unfolding back_ok_def by blast
  with st1 back_ok_trans [OF st1(2) st'(2)] show ?case by simp
qed

definition of_peer :: "(int \<rightharpoonup> tx_announcement) \<Rightarrow> int \<Rightarrow> int set" where
  "of_peer A p = {i. \<exists>h. held A h p i}"

lemma peer_list_ids:
  assumes "tables_ok st"
  shows "set (map snd (case map_of (tr_peers st) p of None \<Rightarrow> [] | Some k \<Rightarrow> tp_announcements k)) = of_peer (reqs st) p"
proof (cases "map_of (tr_peers st) p")
  case None
  then have "\<forall>h i. \<not> held (reqs st) h p i"
    using tables_okD(3) [OF assms] unfolding peers_ok_def by (metis (no_types, lifting) option.simps(4))
  with None show ?thesis by (simp add: of_peer_def)
next
  case (Some k)
  then have k: "peer_ok (reqs st) p k"
    using tables_okD(3) [OF assms] unfolding peers_ok_def by (metis (no_types, lifting) option.simps(5))
  then have "(h, i) \<in> set (tp_announcements k) \<longleftrightarrow> held (reqs st) h p i" for h i
    using map_of_Some_iff_mem [of "tp_announcements k" h i] by (simp add: peer_ok_def)
  then show ?thesis using Some by (force simp: of_peer_def)
qed

lemma time_back_peers:
  assumes "choice_ok sip st" "scheduled {} st"
  shows "\<exists>st'. fold_opt (time_back_peer sip now) ps st = Some st'
    \<and> back_ok sip now (\<Union>p\<in>fst ` set ps. of_peer (reqs st) p) st st'"
  using assms
proof (induction ps arbitrary: st)
  case Nil
  then show ?case by (simp add: back_ok_def same_held_def)
next
  case (Cons p ps)
  let ?ids = "map snd (case map_of (tr_peers st) (fst p) of None \<Rightarrow> [] | Some k \<Rightarrow> tp_announcements k)"
  have ids: "set ?ids = of_peer (reqs st) (fst p)" by (rule peer_list_ids [OF choice_okD(1) [OF Cons.prems(1)]])
  have "\<forall>i\<in>set ?ids. reqs st i \<noteq> None" unfolding ids by (auto simp: of_peer_def held_def)
  from time_back_list [OF Cons.prems this, of now] obtain st1 where
    st1: "fold_opt (time_back sip now) ?ids st = Some st1" "back_ok sip now (of_peer (reqs st) (fst p)) st st1"
    unfolding ids by blast
  then obtain st' where st': "fold_opt (time_back_peer sip now) ps st1 = Some st'"
    "back_ok sip now (\<Union>p\<in>fst ` set ps. of_peer (reqs st1) p) st1 st'"
    using Cons.IH [of st1] unfolding back_ok_def by blast
  have "of_peer (reqs st1) q = of_peer (reqs st) q" for q
    using st1(2) by (simp add: back_ok_def same_held_def of_peer_def)
  with back_ok_trans [OF st1(2) st'(2)]
  have "back_ok sip now (\<Union>p\<in>fst ` set (p # ps). of_peer (reqs st) p) st st'" by simp
  moreover have "time_back_peer sip now p st = Some st1" using st1(1) by (simp add: time_back_peer_def Let_def)
  ultimately show ?case using st'(1) by simp
qed

lemma time_back_all:
  assumes "choice_ok sip st" "scheduled {} st"
  shows "\<exists>st'. fold_opt (time_back_peer sip now) (tr_peers st) st = Some st' \<and> back_ok sip now UNIV st st'"
proof -
  obtain st' where st': "fold_opt (time_back_peer sip now) (tr_peers st) st = Some st'"
    "back_ok sip now (\<Union>p\<in>fst ` set (tr_peers st). of_peer (reqs st) p) st st'"
    using time_back_peers [OF assms] by blast
  have "i \<in> early now (reqs st')" for i
  proof (cases "reqs st i")
    case None
    then have "i \<in> early now (reqs st)" by (simp add: early_def)
    with st'(2) show ?thesis by (auto simp: back_ok_def)
  next
    case (Some a)
    then have "i \<in> of_peer (reqs st) (ta_peer a)" by (auto simp: of_peer_def held_def)
    moreover obtain k where "map_of (tr_peers st) (ta_peer a) = Some k"
      using peer_at [OF tables_okD(3) [OF choice_okD(1) [OF assms(1)]] Some] by blast
    then have "ta_peer a \<in> fst ` set (tr_peers st)" by (rule map_of_in_dom)
    ultimately have "i \<in> (\<Union>p\<in>fst ` set (tr_peers st). of_peer (reqs st) p)" by (intro UN_I)
    then show ?thesis using st'(2) unfolding back_ok_def by (elim conjE) (rule subsetD, assumption, rule UnI2)
  qed
  then have "early now (reqs st) \<union> UNIV \<subseteq> early now (reqs st')" by blast
  with st'(2) have "back_ok sip now UNIV st st'" unfolding back_ok_def by (elim conjE) (intro conjI)
  with st'(1) show ?thesis by blast
qed

end
