(* ===== verification/Tx_Request_Loop.thy ===== *)
theory Tx_Request_Loop
  imports Tx_Request_Time
begin

text \<open>
  The loop that brings the tracker to a time: it ends, does not raise, completes exactly the
  requests expired by then, each once, and leaves nothing waiting whose time has come.
\<close>

section \<open>One event\<close>

definition who :: "int \<times> tx_announcement \<Rightarrow> int \<times> bytes" where
  "who r = (ta_peer (snd r), ta_txhash (snd r))"

definition due :: "real \<Rightarrow> (int \<rightharpoonup> tx_announcement) \<Rightarrow> (int \<times> tx_announcement) set" where
  "due now A = {r \<in> requests A. ta_time (snd r) \<le> now}"

definition loop_ok :: "siphash \<Rightarrow> real \<Rightarrow> tx_tracker \<Rightarrow> bool" where
  "loop_ok sip now st \<longleftrightarrow> choice_ok sip st \<and> scheduled {} st \<and> early now (reqs st) = UNIV"

text \<open>What a run of the loop does to the announcements, and to the requests in particular.\<close>

definition ran :: "siphash \<Rightarrow> real \<Rightarrow> (int \<times> tx_announcement) list \<Rightarrow> tx_tracker \<Rightarrow> tx_tracker \<Rightarrow> bool" where
  "ran sip now rs st st' \<longleftrightarrow> loop_ok sip now st' \<and> clock st st' \<and> evolves now (reqs st) (reqs st')
     \<and> distinct rs \<and> requests (reqs st) = set rs \<union> requests (reqs st') \<and> set rs \<inter> requests (reqs st') = {}
     \<and> (\<forall>r\<in>set rs. ta_time (snd r) \<le> now)"

lemma ran_trans:
  assumes "ran sip now rs st s" "ran sip now qs s t"
  shows "ran sip now (rs @ qs) st t"
  using assms clock_trans [of st s t] evolves_trans [of now "reqs st" "reqs s" "reqs t"] unfolding ran_def by auto

lemma ran_none:
  assumes "loop_ok sip now st'" "clock st st'" "evolves now (reqs st) (reqs st')" "requests (reqs st') = requests (reqs st)"
  shows "ran sip now [] st st'"
  using assms by (simp add: ran_def)

lemma scheduled_pop:
  assumes sch: "scheduled {} st" and evs: "tr_events st = e # rest" and s: "s = st\<lparr> tr_events := rest \<rparr>"
  shows "scheduled {snd (snd e)} s"
    "\<not> (\<exists>a. reqs st (snd (snd e)) = Some a \<and> waits a \<and> ta_time a = fst e) \<Longrightarrow> scheduled {} s"
proof -
  have A: "reqs s = reqs st" "tr_heap s = tr_heap st" "tr_events s = rest" by (simp_all add: s reqs_def)
  have srt: "sorted (map event_key rest)" "\<forall>f\<in>set rest. snd (snd f) \<in> dom (tr_heap st)"
    using scheduledD(1,2) [OF sch] evs by simp_all
  have here: "(\<exists>t. (ta_time a, t, j) \<in> set rest) \<or> (j = snd (snd e) \<and> ta_time a = fst e)"
    if "reqs st j = Some a" "waits a" for j a
    using scheduledD(3) [OF sch _ that] evs by auto
  show "scheduled {snd (snd e)} s" unfolding scheduled_def A using srt here by blast
  show "scheduled {} s" if "\<not> (\<exists>a. reqs st (snd (snd e)) = Some a \<and> waits a \<and> ta_time a = fst e)"
    unfolding scheduled_def A using srt here that by blast
qed

lemma early_fewer: "fewer A A' \<Longrightarrow> early now A = UNIV \<Longrightarrow> early now A' = UNIV"
proof -
  assume A: "fewer A A'" "early now A = UNIV"
  have "ta_time b \<le> now" if b: "A' j = Some b" "candidate b" for j b
  proof -
    obtain a where a: "A j = Some a" "kin a b \<or> b = a\<lparr> ta_state := Completed \<rparr>" using A(1) b(1) by (auto simp: fewer_def)
    with b(2) have "kin a b" by (auto simp: candidate_def)
    from kinD(3,5) [OF this] b(2) a(1) A(2) show ?thesis by (auto simp: early_def)
  qed
  then show ?thesis by (auto simp: early_def)
qed

text \<open>A request that expires.\<close>

lemma requests_lose:
  assumes "\<And>j d. A j = Some d \<and> ta_state d = Requested \<longleftrightarrow> (j = i \<and> d = a) \<or> (A' j = Some d \<and> ta_state d = Requested)"
  shows "requests A = insert (i, a) (requests A')"
  unfolding requests_def using assms by blast

lemma complete_request:
  assumes ok: "choice_ok sip st" and a: "reqs st i = Some a" "ta_state a = Requested" "ta_time a \<le> now"
    and run: "make_completed sip i st = Some (st', b)"
  shows "requests (reqs st) = insert (i, a) (requests (reqs st'))" "(i, a) \<notin> requests (reqs st')"
    "evolves now (reqs st) (reqs st')" "\<And>c. reqs st' i = Some c \<Longrightarrow> \<not> waits c"
proof -
  note c = complete_fewer [OF ok a(1) run]
  have "requests (reqs st) = insert (i, a) (requests (reqs st')) \<and> (i, a) \<notin> requests (reqs st')
    \<and> evolves now (reqs st) (reqs st') \<and> (\<forall>c. reqs st' i = Some c \<longrightarrow> \<not> waits c)"
  proof (cases b)
    case True
    have i: "reqs st' i = Some (a\<lparr> ta_state := Completed \<rparr>)" and ag: "agree {i} (reqs st) (reqs st')"
      using c(4,5) [OF True] by blast+
    have "reqs st j = Some d \<and> ta_state d = Requested
        \<longleftrightarrow> (j = i \<and> d = a) \<or> (reqs st' j = Some d \<and> ta_state d = Requested)" for j d
    proof (cases "j = i")
      case False
      then show ?thesis
        using agree_at [OF ag, of j] agree_back [OF ag, of j] kin_requested kin_requested' by (metis singletonD)
    qed (use a i in auto)
    then have "requests (reqs st) = insert (i, a) (requests (reqs st'))" by (rule requests_lose)
    moreover have "evolves now (reqs st) (reqs st')"
      using a by (intro agree_evolves [OF ag a(1) i]) (auto simp: moved_def)
    moreover have "a\<lparr> ta_state := Completed \<rparr> \<noteq> a" using a(2) by (cases a) auto
    ultimately show ?thesis using i by (auto simp: requests_def waits_def is_waiting_def)
  next
    case False
    have rest: "\<forall>j c. reqs st j = Some c \<longrightarrow> ta_txhash c = ta_txhash a \<longrightarrow> j \<noteq> i \<longrightarrow> ta_state c = Completed"
      using make_completed_spec [OF ok a(1)] run False by auto
    have A': "reqs st' j = Some d \<longleftrightarrow> reqs st j = Some d \<and> ta_txhash d \<noteq> ta_txhash a" for j d
      using c(6) [OF False] by simp
    have "reqs st j = Some d \<and> ta_state d = Requested
        \<longleftrightarrow> (j = i \<and> d = a) \<or> (reqs st' j = Some d \<and> ta_state d = Requested)" for j d
      unfolding A' using rest a by (cases "j = i") auto
    then have "requests (reqs st) = insert (i, a) (requests (reqs st'))" by (rule requests_lose)
    moreover have "evolves now (reqs st) (reqs st')"
      unfolding evolves_def
    proof (intro conjI allI impI)
      show "\<exists>a. reqs st j = Some a \<and> moved a d" if "reqs st' j = Some d" for j d using that A' moved_refl by blast
      show "\<exists>b. reqs st' j = Some b \<and> ta_state b \<noteq> Completed"
        if d: "reqs st j = Some d" "ta_state d \<noteq> Completed" "\<not> (ta_state d = Requested \<and> ta_time d \<le> now)" for j d
      proof -
        have "j \<noteq> i" using d a by auto
        then have "ta_txhash d \<noteq> ta_txhash a" using rest d by blast
        with d A' show ?thesis by blast
      qed
    qed
    moreover have "reqs st' i = None" using a c(6) [OF False] by (simp add: others_def)
    ultimately show ?thesis by (simp add: requests_def)
  qed
  then show "requests (reqs st) = insert (i, a) (requests (reqs st'))" "(i, a) \<notin> requests (reqs st')"
    "evolves now (reqs st) (reqs st')" "\<And>c. reqs st' i = Some c \<Longrightarrow> \<not> waits c" by blast+
qed

lemma reach_event_spec:
  assumes ok: "loop_ok sip now st" and evs: "tr_events st = e # rest" and time: "fst e \<le> now"
  shows "\<exists>st' rs. reach_event sip e (st\<lparr> tr_events := rest \<rparr>, ex) = Some (st', ex @ map who rs)
    \<and> ran sip now rs st st' \<and> tr_events st' = rest"
proof -
  obtain t k i where e: "e = (t, k, i)" by (cases e) auto
  obtain s where s: "s = st\<lparr> tr_events := rest \<rparr>" by simp
  have parts: "choice_ok sip st" "scheduled {} st" "early now (reqs st) = UNIV" using ok by (simp_all add: loop_ok_def)
  have evo: "events_only st s" unfolding events_only_def s by (rule exI [of _ rest], rule exI [of _ "tr_tie st"]) simp
  note same = events_onlyD [OF evo]
  have cs: "choice_ok sip s" using parts(1) same(3) by simp
  have ck: "clock st s" by (rule clock_events [OF evo])
  have evs': "tr_events s = rest" by (simp add: s)
  note pop = scheduled_pop [OF parts(2) evs s, unfolded e, simplified]
  obtain a where heap: "tr_heap st i = Some a" using scheduledD(2) [OF parts(2), of e] evs e by auto
  have at: "req_at s i = a" using heap same(7) by (simp add: req_at_def)
  have skip: ?thesis if "reach_event sip e (s, ex) = Some (s, ex)" "scheduled {} s"
  proof -
    have "loop_ok sip now s" using cs that(2) parts(3) same(1) by (simp add: loop_ok_def)
    then have "ran sip now [] st s" using ck same(1) by (intro ran_none) simp_all
    with that(1) evs' show ?thesis unfolding s by (intro exI [of _ s] exI [of _ "[]"]) (simp add: s)
  qed
  show ?thesis
  proof (cases "ta_alive a \<and> ta_time a = t \<and> waits a")
    case False
    have "reach_event sip e (s, ex) = Some (s, ex)"
      using False at by (auto simp: reach_event_def e Let_def waits_def is_waiting_def)
    moreover have "scheduled {} s" using False heap by (intro pop(2)) (auto simp: reqs_Some)
    ultimately show ?thesis by (rule skip)
  next
    case True
    have a: "reqs s i = Some a" using True heap same(1) by (simp add: reqs_Some)
    have now: "ta_time a \<le> now" using time True e by simp
    show ?thesis
    proof (cases "ta_state a = Delayed")
      case True': True
      obtain st1 q where st1: "promote sip i s = Some st1" "choice_ok sip st1" "frame s st1"
        "agree {i} (reqs s) (reqs st1)" "reqs st1 i = Some (a\<lparr> ta_state := q \<rparr>)" "kind q = Best"
        using promote_spec [OF cs a True'] by blast
      have q: "q = Ready \<or> q = Best" using st1(6) by (auto simp: kind_def split: if_splits)
      have "scheduled {} st1"
      proof (rule scheduled_frame [OF pop(1) st1(3)])
        show "j \<notin> {i} \<and> (\<exists>c. reqs s j = Some c \<and> waits c \<and> ta_time c = ta_time b)"
          if b: "reqs st1 j = Some b" "waits b" for j b
        proof -
          have j: "j \<notin> {i}" using b st1(5) q by (auto simp: waits_def is_waiting_def)
          obtain c where "reqs s j = Some c" "kin c b" using agree_back [OF st1(4) j b(1)] by blast
          with kinD(3,11) [of c b] b(2) j show ?thesis by auto
        qed
      qed
      moreover have i: "i \<in> early now (reqs st1)" using now by (simp add: early_def st1(5))
      then have "early now (reqs st1) = UNIV" using agree_early [OF st1(4), of now] parts(3) same(1) by auto
      ultimately have "loop_ok sip now st1" using st1(2) by (simp add: loop_ok_def)
      moreover have "requests (reqs st1) = requests (reqs st)"
        unfolding same(1) [symmetric] using a True' st1(5) q by (intro agree_requests [OF st1(4)]) auto
      moreover have "evolves now (reqs st) (reqs st1)"
        unfolding same(1) [symmetric] using q True' by (intro agree_evolves [OF st1(4) a st1(5)]) (auto simp: moved_def)
      ultimately have "ran sip now [] st st1" by (intro ran_none clock_trans [OF ck clock_frame [OF st1(3)]])
      moreover have "reach_event sip e (s, ex) = Some (st1, ex)"
        using True True' at st1(1) by (simp add: reach_event_def e)
      moreover have "tr_events st1 = rest" using st1(3) evs' by (simp add: frame_def)
      ultimately show ?thesis unfolding s by (intro exI [of _ st1] exI [of _ "[]"]) simp
    next
      case False
      then have req: "ta_state a = Requested" using True by (auto simp: waits_def is_waiting_def)
      obtain st1 b where run: "make_completed sip i s = Some (st1, b)" using make_completed_spec [OF cs a] by blast
      note c = complete_fewer [OF cs a run] and r = complete_request [OF cs a req now run]
      have "scheduled {} st1"
      proof (rule scheduled_frame [OF pop(1) c(2)])
        show "j \<notin> {i} \<and> (\<exists>c. reqs s j = Some c \<and> waits c \<and> ta_time c = ta_time b)"
          if b: "reqs st1 j = Some b" "waits b" for j b
          using fewer_waits [OF c(3) b] b r(4) by blast
      qed
      moreover have "early now (reqs st1) = UNIV" by (rule early_fewer [OF c(3)]) (simp add: parts(3) same(1))
      ultimately have "loop_ok sip now st1" using c(1) by (simp add: loop_ok_def)
      then have "ran sip now [(i, a)] st st1"
        unfolding ran_def using r(1-3) now clock_trans [OF ck clock_frame [OF c(2)]] by (simp add: same(1))
      moreover have "reach_event sip e (s, ex) = Some (st1, ex @ [who (i, a)])"
        using True False req at run by (simp add: reach_event_def e who_def)
      moreover have "tr_events st1 = rest" using c(2) evs' by (simp add: frame_def)
      ultimately show ?thesis unfolding s by (intro exI [of _ st1] exI [of _ "[(i, a)]"]) simp
    qed
  qed
qed

section \<open>The loop\<close>

lemma events_after:
  assumes "sorted (map event_key (e # es))" "now < fst e" "f \<in> set (e # es)"
  shows "now < fst f"
proof -
  have "event_key e \<le> event_key f" using assms(1,3) by auto
  then show ?thesis using assms(2) by (auto simp: event_key_def less_eq_prod_def)
qed

lemma event_loop_spec:
  assumes "loop_ok sip now st"
  shows "\<exists>st' rs. event_loop sip now st ex = Some (st', ex @ map who rs) \<and> ran sip now rs st st'
    \<and> (\<forall>e\<in>set (tr_events st'). now < fst e)"
  using assms
proof (induction "tr_events st" arbitrary: st ex)
  case Nil
  then have "event_loop sip now st ex = Some (st, ex)" by (simp add: event_loop.simps split: list.split)
  moreover have "ran sip now [] st st" using Nil.prems by (intro ran_none) simp_all
  ultimately show ?case using Nil.hyps by (intro exI [of _ st] exI [of _ "[]"]) simp
next
  case (Cons e rest)
  note evs = Cons.hyps(2) [symmetric]
  show ?case
  proof (cases "now < fst e")
    case True
    have "\<forall>f\<in>set (tr_events st). now < fst f"
      using scheduledD(1) [of "{}" st] Cons.prems events_after [OF _ True] unfolding loop_ok_def evs by blast
    moreover have "event_loop sip now st ex = Some (st, ex)" using True evs by (simp add: event_loop.simps)
    moreover have "ran sip now [] st st" using Cons.prems by (intro ran_none) simp_all
    ultimately show ?thesis by (intro exI [of _ st] exI [of _ "[]"]) simp
  next
    case False
    then have "fst e \<le> now" by simp
    from reach_event_spec [OF Cons.prems evs this, of ex] obtain st1 rs where
      st1: "reach_event sip e (st\<lparr> tr_events := rest \<rparr>, ex) = Some (st1, ex @ map who rs)" "ran sip now rs st st1"
      "tr_events st1 = rest" by blast
    have "loop_ok sip now st1" using st1(2) by (simp add: ran_def)
    from Cons.hyps(1) [OF st1(3) [symmetric] this, of "ex @ map who rs"] obtain st' qs where
      st': "event_loop sip now st1 (ex @ map who rs) = Some (st', (ex @ map who rs) @ map who qs)" "ran sip now qs st1 st'"
      "\<forall>e\<in>set (tr_events st'). now < fst e" by blast
    have "event_loop sip now st ex = Some (st', ex @ map who (rs @ qs))"
      using False evs st1(1) st'(1) by (simp add: event_loop.simps [of sip now st])
    with ran_trans [OF st1(2) st'(2)] st'(3) show ?thesis by blast
  qed
qed

section \<open>Bringing the tracker to a time\<close>

definition times_ok :: "tx_tracker \<Rightarrow> bool" where
  \<comment> \<open>a candidate has reached its time\<close>
  "times_ok st \<longleftrightarrow> (\<forall>i a. reqs st i = Some a \<longrightarrow> candidate a \<longrightarrow> (\<exists>l. tr_last_now st = Some l \<and> ta_time a \<le> l))"

definition tracker_ok :: "siphash \<Rightarrow> tx_tracker \<Rightarrow> bool" where
  "tracker_ok sip st \<longleftrightarrow> choice_ok sip st \<and> scheduled {} st \<and> times_ok st"

lemma tracker_okD:
  assumes "tracker_ok sip st"
  shows "choice_ok sip st" "scheduled {} st" "times_ok st" "tables_ok st" "store_ok st"
  using assms choice_okD(1) [of sip st] tables_okD(1) [of st] by (simp_all add: tracker_ok_def)

lemma set_now:
  shows "reqs (st\<lparr> tr_last_now := n \<rparr>) = reqs st" "choice_ok sip (st\<lparr> tr_last_now := n \<rparr>) = choice_ok sip st"
    "scheduled X (st\<lparr> tr_last_now := n \<rparr>) = scheduled X st"
proof -
  show r: "reqs (st\<lparr> tr_last_now := n \<rparr>) = reqs st" by (simp add: reqs_def)
  show "choice_ok sip (st\<lparr> tr_last_now := n \<rparr>) = choice_ok sip st" "scheduled X (st\<lparr> tr_last_now := n \<rparr>) = scheduled X st"
    unfolding choice_ok_def tables_ok_def store_ok_def hashes_ok_def scheduled_def r by simp_all
qed

definition reached :: "real \<Rightarrow> tx_tracker \<Rightarrow> bool" where
  "reached now st \<longleftrightarrow> tr_last_now st = Some now \<and> early now (reqs st) = UNIV
     \<and> (\<forall>i a. reqs st i = Some a \<longrightarrow> waits a \<longrightarrow> now < ta_time a)"

lemma set_time_point_spec:
  assumes ok: "tracker_ok sip st"
  shows "\<exists>st' rs. set_time_point sip now st = Some (st', map who rs) \<and> tracker_ok sip st' \<and> reached now st'
    \<and> tr_keys st' = tr_keys st \<and> evolves now (reqs st) (reqs st') \<and> distinct rs
    \<and> set rs = due now (reqs st) \<and> requests (reqs st') = requests (reqs st) - due now (reqs st)"
proof -
  note parts = tracker_okD [OF ok]
  obtain st1 where st1: "(case tr_last_now st of None \<Rightarrow> Some st
      | Some before \<Rightarrow> if now < before then fold_opt (time_back_peer sip now) (tr_peers st) st else Some st) = Some st1"
    "choice_ok sip st1" "scheduled {} st1" "tr_keys st1 = tr_keys st" "requests (reqs st1) = requests (reqs st)"
    "evolves now (reqs st) (reqs st1)" "early now (reqs st1) = UNIV"
  proof (cases "\<exists>before. tr_last_now st = Some before \<and> now < before")
    case True
    obtain s where "fold_opt (time_back_peer sip now) (tr_peers st) st = Some s" "back_ok sip now UNIV st s"
      using time_back_all [OF parts(1,2)] by blast
    with True that [of s] show ?thesis by (auto simp: back_ok_def clock_def top.extremum_unique)
  next
    case False
    then have "early now (reqs st) = UNIV" using parts(3) by (force simp: early_def times_ok_def)
    with False that [of st] parts(1,2) show ?thesis by (auto split: option.split)
  qed
  let ?s = "st1\<lparr> tr_last_now := Some now \<rparr>"
  have "loop_ok sip now ?s" using st1(2,3,7) by (simp add: loop_ok_def set_now)
  from event_loop_spec [OF this, of "[]"] obtain st2 rs where
    loop: "event_loop sip now ?s [] = Some (st2, map who rs)" and r: "ran sip now rs ?s st2"
    and after: "\<forall>e\<in>set (tr_events st2). now < fst e" by auto
  have ok2: "choice_ok sip st2" "scheduled {} st2" "early now (reqs st2) = UNIV" using r by (simp_all add: ran_def loop_ok_def)
  have keys: "tr_keys st2 = tr_keys st" "tr_last_now st2 = Some now" using r st1(4) by (simp_all add: ran_def clock_def)
  have rq: "requests (reqs st) = set rs \<union> requests (reqs st2)" "set rs \<inter> requests (reqs st2) = {}" "distinct rs"
    "\<forall>r\<in>set rs. ta_time (snd r) \<le> now" using r st1(5) by (simp_all add: ran_def set_now)
  have late: "now < ta_time a" if "reqs st2 i = Some a" "waits a" for i a
    using scheduledD(3) [OF ok2(2) _ that] after by fastforce
  have "now < ta_time (snd q)" if "q \<in> requests (reqs st2)" for q
    using that late [of "fst q" "snd q"] by (auto simp: requests_def waits_def is_waiting_def)
  then have due: "set rs = due now (reqs st)" unfolding due_def rq(1) using rq(4) by force
  note c = compact_spec [OF choice_okD(1) [OF ok2(1)] ok2(2)]
  note same = events_onlyD [OF c(1)]
  have "times_ok (compact st2)"
    using ok2(3) keys(2) unfolding times_ok_def same(1,5) early_def by blast
  then have "tracker_ok sip (compact st2)" using ok2(1) c(2) same(3) by (simp add: tracker_ok_def)
  moreover have "reached now (compact st2)" unfolding reached_def same(1,5) using keys(2) ok2(3) late by blast
  moreover have "evolves now (reqs st) (reqs (compact st2))"
    unfolding same(1) using evolves_trans [OF st1(6), of "reqs st2"] r by (simp add: ran_def set_now)
  moreover have "requests (reqs (compact st2)) = requests (reqs st) - due now (reqs st)"
    unfolding same(1) due [symmetric] using rq(1,2) by blast
  moreover have "set_time_point sip now st = Some (compact st2, map who rs)"
    using st1(1) loop by (simp add: set_time_point_def)
  ultimately show ?thesis using keys(1) same(4) rq(3) due by auto
qed

end
