(* ===== verification/Tx_Request_Operations.thy ===== *)
theory Tx_Request_Operations
  imports Tx_Request_Loop
begin

text \<open>
  The operations a node calls: from any tracker that is right each returns, whatever peer,
  transaction or time it is given, and leaves the tracker right.
\<close>

section \<open>Announcing\<close>

lemma one_selected_put:
  assumes one: "one_selected pr A g" and i: "A i = None" and a: "ta_state a = Delayed"
  shows "one_selected pr (A(i \<mapsto> a)) g"
proof (cases "quiet A g")
  case True
  then have "quiet (A(i \<mapsto> a)) g" using a by (auto simp: quiet_def selected_def)
  then show ?thesis unfolding one_selected_iff by (rule disjI1)
next
  case False
  with one obtain j b where l: "led_by pr A g j b" unfolding one_selected_iff by (elim disjE exE) simp_all
  then have "j \<noteq> i" using i by (auto simp: led_by_def)
  then have "led_by pr (A(i \<mapsto> a)) g j b" using l a by (auto simp: led_by_def selected_def)
  then show ?thesis unfolding one_selected_iff by (intro disjI2 exI)
qed

lemma someone_left_put:
  assumes left: "someone_left A g" and i: "A i = None" and a: "ta_state a \<noteq> Completed"
  shows "someone_left (A(i \<mapsto> a)) g"
  unfolding someone_left_def
proof (intro allI impI)
  fix k c
  assume k: "(A(i \<mapsto> a)) k = Some c" "ta_txhash c = g"
  show "\<exists>j b. (A(i \<mapsto> a)) j = Some b \<and> ta_txhash b = g \<and> ta_state b \<noteq> Completed"
  proof (cases "k = i")
    case True
    with k a show ?thesis by auto
  next
    case False
    then obtain j b where "A j = Some b" "ta_txhash b = g" "ta_state b \<noteq> Completed"
      using left k unfolding someone_left_def by fastforce
    moreover from this have "j \<noteq> i" using i by auto
    ultimately show ?thesis by auto
  qed
qed

definition announced :: "int \<Rightarrow> bytes \<Rightarrow> bool \<Rightarrow> real \<Rightarrow> bool \<Rightarrow> int \<Rightarrow> tx_announcement" where
  "announced peer txhash preferred reqtime txid i =
     \<lparr> ta_txhash = txhash, ta_peer = peer, ta_preferred = preferred, ta_sequence = i,
       ta_time = reqtime, ta_state = Delayed, ta_alive = True, ta_txid = txid \<rparr>"

lemma received_inv_eq:
  "received_inv peer txhash preferred reqtime txid st =
     (if known_announcement peer txhash st \<noteq> None then st
      else schedule (tr_sequence st) (with_announcement (announced peer txhash preferred reqtime txid (tr_sequence st)) st))"
  by (simp add: received_inv_def with_announcement_def announced_def Let_def)

lemma received_inv_spec:
  assumes ok: "tracker_ok sip st" and new: "known_announcement peer txhash st = None"
  shows "tracker_ok sip (received_inv peer txhash preferred reqtime txid st)"
    "reqs (received_inv peer txhash preferred reqtime txid st) =
       (reqs st)(tr_sequence st \<mapsto> announced peer txhash preferred reqtime txid (tr_sequence st))"
    "tr_keys (received_inv peer txhash preferred reqtime txid st) = tr_keys st"
    "reqs st (tr_sequence st) = None"
proof -
  let ?a = "announced peer txhash preferred reqtime txid (tr_sequence st)"
  obtain s where s: "s = with_announcement ?a st" by simp
  note parts = tracker_okD [OF ok]
  have a: "ta_state ?a = Delayed" "ta_alive ?a" "ta_sequence ?a = tr_sequence st" "ta_peer ?a = peer" "ta_txhash ?a = txhash"
    by (simp_all add: announced_def)
  have new': "known_announcement (ta_peer ?a) (ta_txhash ?a) st = None" using new a by simp
  have tab: "tables_ok s" and A: "reqs s = (reqs st)(tr_sequence st \<mapsto> ?a)" and fresh: "reqs st (tr_sequence st) = None"
    using with_announcement_spec [OF parts(4) new' a(1-3)] unfolding s by blast+
  have same: "tr_keys s = tr_keys st" "tr_last_now s = tr_last_now st" "tr_events s = tr_events st"
    "tr_heap s = (tr_heap st)(tr_sequence st \<mapsto> ?a)" by (simp_all add: s with_announcement_def)
  have "choice_ok sip s"
    unfolding choice_ok_def A same(1)
    using tab one_selected_put [of _ "reqs st", OF choice_okD(2) [OF parts(1)] fresh a(1)]
      someone_left_put [of "reqs st", OF choice_okD(3) [OF parts(1)] fresh] a(1) by simp
  moreover have "scheduled {tr_sequence st} s"
    using scheduledD [OF parts(2)] unfolding scheduled_def same(3,4) A by auto
  moreover have i: "reqs s (tr_sequence st) \<noteq> None" by (simp add: A)
  ultimately have ev: "events_only s (schedule (tr_sequence st) s)" and sch: "scheduled {} (schedule (tr_sequence st) s)"
    using schedule_spec [OF tab _ i, of "{tr_sequence st}"] by simp_all
  have run: "received_inv peer txhash preferred reqtime txid st = schedule (tr_sequence st) s"
    unfolding received_inv_eq s using new by simp
  note only = events_onlyD [OF ev]
  have "times_ok s" using parts(3) a(1) unfolding times_ok_def A same(2) by (simp add: candidate_def)
  then have "times_ok (schedule (tr_sequence st) s)" unfolding times_ok_def only(1,5) .
  then show "tracker_ok sip (received_inv peer txhash preferred reqtime txid st)"
    using \<open>choice_ok sip s\<close> sch only(3) unfolding run tracker_ok_def by simp
  show "reqs (received_inv peer txhash preferred reqtime txid st) = (reqs st)(tr_sequence st \<mapsto> ?a)"
    unfolding run only(1) A ..
  show "reqs st (tr_sequence st) = None" by (rule fresh)
  show "tr_keys (received_inv peer txhash preferred reqtime txid st) = tr_keys st" unfolding run only(4) same(1) ..
qed

section \<open>Answers and departures\<close>

lemma times_fewer:
  assumes "times_ok st" "fewer (reqs st) (reqs st')" "tr_last_now st' = tr_last_now st"
  shows "times_ok st'"
  unfolding times_ok_def assms(3)
proof (intro allI impI)
  fix i b
  assume b: "reqs st' i = Some b" "candidate b"
  obtain a where a: "reqs st i = Some a" "kin a b \<or> b = a\<lparr> ta_state := Completed \<rparr>"
    using assms(2) b(1) by (auto simp: fewer_def)
  with b(2) have "kin a b" by (auto simp: candidate_def)
  from kinD(3,5) [OF this] a(1) b(2) assms(1) show "\<exists>l. tr_last_now st = Some l \<and> ta_time b \<le> l"
    unfolding times_ok_def by auto
qed

lemma tracker_fewer:
  assumes "tracker_ok sip st" "choice_ok sip st'" "frame st st'" "fewer (reqs st) (reqs st')"
  shows "tracker_ok sip st'"
  using tracker_okD(2,3) [OF assms(1)] assms scheduled_fewer [of "{}" st st'] times_fewer [of st st']
  by (simp add: tracker_ok_def frame_def)

lemma received_response_spec:
  assumes ok: "tracker_ok sip st"
  shows "\<exists>st'. received_response sip peer txhash st = Some st' \<and> tracker_ok sip st' \<and> tr_keys st' = tr_keys st"
proof (cases "known_announcement peer txhash st")
  case None
  with ok show ?thesis by (simp add: received_response_def)
next
  case (Some i)
  then obtain a where a: "reqs st i = Some a"
    using known_announcement_ok [OF tracker_okD(4) [OF ok]] by (auto simp: held_def)
  obtain st1 b where run: "make_completed sip i st = Some (st1, b)"
    using make_completed_spec [OF tracker_okD(1) [OF ok] a] by blast
  note c = complete_fewer [OF tracker_okD(1) [OF ok] a run]
  from tracker_fewer [OF ok c(1-3)] c(2) Some run show ?thesis by (simp add: received_response_def frame_def)
qed

lemma forget_tracker:
  assumes ok: "tracker_ok sip st"
  shows "\<exists>st'. forget_tx_hash h st = Some st' \<and> tracker_ok sip st' \<and> tr_keys st' = tr_keys st \<and> reqs st' = others h (reqs st)"
proof -
  obtain st' where st': "forget_tx_hash h st = Some st'" "choice_ok sip st'" "frame st st'" "reqs st' = others h (reqs st)"
    using forget_spec [OF tracker_okD(1) [OF ok]] by blast
  have "fewer (reqs st) (reqs st')" unfolding st'(4) by (auto simp: fewer_def)
  from tracker_fewer [OF ok st'(2,3) this] st' show ?thesis by (simp add: frame_def)
qed

lemma complete_and_erase_list:
  assumes "tracker_ok sip st" "distinct ids" "\<forall>i\<in>set ids. \<exists>a. reqs st i = Some a \<and> ta_peer a = p"
  shows "\<exists>st'. fold_opt (complete_and_erase sip) ids st = Some st' \<and> tracker_ok sip st' \<and> tr_keys st' = tr_keys st
    \<and> fewer (reqs st) (reqs st') \<and> (\<forall>i\<in>set ids. reqs st' i = None)"
  using assms
proof (induction ids arbitrary: st)
  case Nil
  then show ?case by simp
next
  case (Cons i ids)
  note ok = Cons.prems(1)
  obtain a where a: "reqs st i = Some a" "ta_peer a = p" using Cons.prems(3) by auto
  obtain st1 where st1: "complete_and_erase sip i st = Some st1" "choice_ok sip st1" "frame st st1" "fewer (reqs st) (reqs st1)"
    "\<forall>j b. reqs st j = Some b \<longrightarrow> j \<noteq> i \<longrightarrow> reqs st1 j = None \<longrightarrow> ta_txhash b = ta_txhash a" "reqs st1 i = None"
    using complete_and_erase_spec [OF tracker_okD(1) [OF ok] a(1)] by blast
  have ok1: "tracker_ok sip st1" by (rule tracker_fewer [OF ok st1(2-4)])
  have "\<forall>j\<in>set ids. \<exists>b. reqs st1 j = Some b \<and> ta_peer b = p"
  proof
    fix j
    assume j: "j \<in> set ids"
    then obtain b where b: "reqs st j = Some b" "ta_peer b = p" using Cons.prems(3) by auto
    have ne: "j \<noteq> i" using j Cons.prems(2) by auto
    have "held (reqs st) (ta_txhash a) p i" "held (reqs st) (ta_txhash b) p j" using a b by (auto simp: held_def)
    then have "ta_txhash b \<noteq> ta_txhash a" using tracker_okD(5) [OF ok] ne unfolding store_ok_def by metis
    then obtain c where c: "reqs st1 j = Some c" using st1(5) b(1) ne by (cases "reqs st1 j") auto
    then obtain d where "reqs st j = Some d" "kin d c \<or> c = d\<lparr> ta_state := Completed \<rparr>" using st1(4) by (auto simp: fewer_def)
    then have "ta_peer c = p" using b kinD(2) [of d c] by auto
    with c show "\<exists>b. reqs st1 j = Some b \<and> ta_peer b = p" by blast
  qed
  from Cons.IH [OF ok1 _ this] Cons.prems(2) obtain st' where st': "fold_opt (complete_and_erase sip) ids st1 = Some st'"
    "tracker_ok sip st'" "tr_keys st' = tr_keys st1" "fewer (reqs st1) (reqs st')" "\<forall>i\<in>set ids. reqs st' i = None" by auto
  have "reqs st' i = None"
  proof (cases "reqs st' i")
    case (Some b)
    with st'(4) obtain c where "reqs st1 i = Some c" by (auto simp: fewer_def)
    with st1(6) show ?thesis by simp
  qed
  with st' st1(1,3) fewer_trans [OF st1(4) st'(4)] show ?case by (simp add: frame_def)
qed

lemma listed_refs:
  assumes dist: "distinct (map fst d)" and mem: "\<And>h i. map_of d h = Some i \<longleftrightarrow> R h i"
    and one: "\<And>h g i. R h i \<Longrightarrow> R g i \<Longrightarrow> h = g"
  shows "distinct (map snd d)" "set (map snd d) = {i. \<exists>h. R h i}"
proof -
  have mem': "(h, i) \<in> set d \<longleftrightarrow> R h i" for h i using map_of_Some_iff_mem [OF dist, of h i] mem by simp
  have "inj_on snd (set d)"
  proof (rule inj_onI)
    fix x y
    assume xy: "x \<in> set d" "y \<in> set d" "snd x = snd y"
    obtain h g i where p: "x = (h, i)" "y = (g, i)" using xy(3) by (cases x, cases y) auto
    from one [of h i g] xy(1,2) show "x = y" unfolding p mem' by simp
  qed
  then show "distinct (map snd d)" using dist by (simp add: distinct_map)
  show "set (map snd d) = {i. \<exists>h. R h i}" using mem' by force
qed

lemma peer_list:
  assumes "tables_ok st" "map_of (tr_peers st) p = Some k"
  shows "distinct (map snd (tp_announcements k))"
    "set (map snd (tp_announcements k)) = {i. \<exists>a. reqs st i = Some a \<and> ta_peer a = p}"
    "distinct (map snd (tp_best k))"
    "set (map snd (tp_best k)) = {i. \<exists>a. reqs st i = Some a \<and> ta_peer a = p \<and> ta_state a = Best}"
proof -
  have ok: "peer_ok (reqs st) p k"
    using tables_okD(3) [OF assms(1)] assms(2) unfolding peers_ok_def by (metis (no_types, lifting) option.simps(5))
  have ann: "distinct (map fst (tp_announcements k))" "\<And>h i. map_of (tp_announcements k) h = Some i \<longleftrightarrow> held (reqs st) h p i"
    and best: "distinct (map fst (tp_best k))" "\<And>h i. map_of (tp_best k) h = Some i \<longleftrightarrow> held_best (reqs st) h p i"
    using ok by (simp_all add: peer_ok_def)
  have one: "held (reqs st) h p i \<Longrightarrow> held (reqs st) g p i \<Longrightarrow> h = g" for h g i by (auto simp: held_def)
  have one_best: "held_best (reqs st) h p i \<Longrightarrow> held_best (reqs st) g p i \<Longrightarrow> h = g" for h g i by (auto simp: held_best_def)
  show "distinct (map snd (tp_announcements k))" by (rule listed_refs(1) [OF ann one])
  show "distinct (map snd (tp_best k))" by (rule listed_refs(1) [OF best one_best])
  show "set (map snd (tp_announcements k)) = {i. \<exists>a. reqs st i = Some a \<and> ta_peer a = p}"
    using listed_refs(2) [OF ann one] by (simp only: held_def) blast
  show "set (map snd (tp_best k)) = {i. \<exists>a. reqs st i = Some a \<and> ta_peer a = p \<and> ta_state a = Best}"
    using listed_refs(2) [OF best one_best] by (simp only: held_best_def) blast
qed

lemma disconnected_peer_spec:
  assumes ok: "tracker_ok sip st"
  shows "\<exists>st'. disconnected_peer sip peer st = Some st' \<and> tracker_ok sip st' \<and> tr_keys st' = tr_keys st
    \<and> (\<forall>i a. reqs st' i = Some a \<longrightarrow> ta_peer a \<noteq> peer)"
proof (cases "map_of (tr_peers st) peer")
  case None
  have "ta_peer a \<noteq> peer" if "reqs st i = Some a" for i a
    using peer_at [OF tables_okD(3) [OF tracker_okD(4) [OF ok]] that] None by auto
  with ok None show ?thesis by (simp add: disconnected_peer_def)
next
  case (Some k)
  note ids = peer_list [OF tracker_okD(4) [OF ok] Some]
  have "\<forall>i\<in>set (map snd (tp_announcements k)). \<exists>a. reqs st i = Some a \<and> ta_peer a = peer" unfolding ids(2) by blast
  from complete_and_erase_list [OF ok ids(1) this] obtain st' where
    st': "fold_opt (complete_and_erase sip) (map snd (tp_announcements k)) st = Some st'" "tracker_ok sip st'"
    "tr_keys st' = tr_keys st" "fewer (reqs st) (reqs st')" "\<forall>i\<in>set (map snd (tp_announcements k)). reqs st' i = None" by blast
  have "ta_peer b \<noteq> peer" if b: "reqs st' i = Some b" for i b
  proof
    assume p: "ta_peer b = peer"
    obtain a where "reqs st i = Some a" "kin a b \<or> b = a\<lparr> ta_state := Completed \<rparr>" using st'(4) b by (auto simp: fewer_def)
    then have "reqs st i = Some a \<and> ta_peer a = peer" using p kinD(2) [of a b] by auto
    then have "i \<in> set (map snd (tp_announcements k))" unfolding ids(2) by blast
    with st'(5) b show False by auto
  qed
  with st' Some show ?thesis by (simp add: disconnected_peer_def)
qed

section \<open>Asking\<close>

definition at_time :: "int \<Rightarrow> real \<Rightarrow> tx_tracker \<Rightarrow> tx_tracker" where
  "at_time i t st = st\<lparr> tr_heap := (tr_heap st)(i \<mapsto> (req_at st i)\<lparr> ta_time := t \<rparr>) \<rparr>"

lemma peer_ok_time:
  assumes "finite (dom A)" "A i = Some a"
  shows "peer_ok (A(i \<mapsto> a\<lparr> ta_time := t \<rparr>)) p k \<longleftrightarrow> peer_ok A p k"
proof -
  let ?b = "a\<lparr> ta_time := t \<rparr>"
  have b: "ta_txhash ?b = ta_txhash a" "ta_peer ?b = ta_peer a" "ta_state ?b = ta_state a" by simp_all
  have "held_best (A(i \<mapsto> ?b)) h p j \<longleftrightarrow> held_best A h p j" for h j
    unfolding held_best_upd [of A, OF assms(2) b(1,2)] using assms(2) by (auto simp: held_best_def)
  moreover have "count_reqs (A(i \<mapsto> ?b)) (in_state p s) = count_reqs A (in_state p s)" for s
    unfolding count_reqs_upd [OF assms] by (simp add: in_state_def)
  ultimately show ?thesis using held_upd [of A, OF assms(2) b(1,2)] by (simp add: peer_ok_def del: fun_upd_apply)
qed

lemma at_time_spec:
  assumes ok: "tables_ok st" and a: "reqs st i = Some a"
  shows "tables_ok (at_time i t st)" "reqs (at_time i t st) = (reqs st)(i \<mapsto> a\<lparr> ta_time := t \<rparr>)" "frame st (at_time i t st)"
proof -
  let ?b = "a\<lparr> ta_time := t \<rparr>"
  obtain s where s: "s = at_time i t st" by simp
  note parts = tables_okD [OF ok]
  have fin: "finite (dom (reqs st))" by (rule reqs_finite [OF parts(1)])
  have heap: "tr_heap st i = Some a" "ta_alive a" using a by (simp_all add: reqs_Some)
  have hp: "tr_heap s = (tr_heap st)(i \<mapsto> ?b)" using reqs_at [OF a] by (simp add: s at_time_def)
  have fr: "frame st s" using heap(1) by (auto simp: s at_time_def frame_def)
  have A: "reqs s = (reqs st)(i \<mapsto> ?b)" using reqs_upd [OF hp] heap(2) by simp
  note upd = held_upd [of "reqs st" i a ?b, OF a]
  have same: "held ((reqs st)(i \<mapsto> ?b)) = held (reqs st)" by (intro ext upd) simp_all
  have same_peer: "peer_ok ((reqs st)(i \<mapsto> ?b)) = peer_ok (reqs st)" by (intro ext peer_ok_time [OF fin a])
  have "store_ok s" using parts(1) heap(1) fr unfolding store_ok_def A hp by (auto simp: frame_def same)
  moreover have "hashes_ok s" using parts(2) unfolding hashes_ok_def A by (simp add: same s at_time_def del: fun_upd_apply)
  moreover have "peers_ok (reqs s) (tr_peers s)"
    using parts(3) unfolding peers_ok_def A same same_peer by (simp add: s at_time_def)
  moreover have "tr_waiting s = count_reqs (reqs s) waits"
    using parts(4) unfolding A count_reqs_upd [OF fin a] by (simp add: s at_time_def waits_def)
  ultimately show "tables_ok (at_time i t st)" "reqs (at_time i t st) = (reqs st)(i \<mapsto> ?b)" "frame st (at_time i t st)"
    using A fr unfolding tables_ok_def s by blast+
qed

text \<open>Whatever was selected for the transaction no longer is, and the rest is as before.\<close>

definition deselected :: "int \<Rightarrow> bytes \<Rightarrow> (int \<rightharpoonup> tx_announcement) \<Rightarrow> (int \<rightharpoonup> tx_announcement) \<Rightarrow> bool" where
  "deselected i h A A' \<longleftrightarrow> A' i = A i
     \<and> (\<forall>j. (A j = None) = (A' j = None))
     \<and> (\<forall>j b. A' j = Some b \<longrightarrow> j \<noteq> i \<longrightarrow> (\<exists>a. A j = Some a \<and> (b = a \<or> (ta_txhash a = h \<and>
          (kin a b \<or> b = a\<lparr> ta_state := Completed \<rparr>))) \<and> (ta_txhash a = h \<longrightarrow> \<not> selected b)))"

lemma unselect_spec:
  assumes ok: "choice_ok sip st" and a: "reqs st i = Some a" "\<not> selected a"
  shows "\<exists>st'. unselect (ta_txhash a) st = Some st' \<and> tables_ok st' \<and> frame st st' \<and> deselected i (ta_txhash a) (reqs st) (reqs st')"
proof (cases "req_selected (ta_txhash a) st")
  case None
  with req_selected_spec [OF tables_okD(2) [OF choice_okD(1) [OF ok]], of "ta_txhash a"]
  have "deselected i (ta_txhash a) (reqs st) (reqs st)" by (auto simp: deselected_def)
  with None choice_okD(1) [OF ok] show ?thesis by (simp add: unselect_def)
next
  case (Some j)
  with req_selected_spec [OF tables_okD(2) [OF choice_okD(1) [OF ok]], of "ta_txhash a"] obtain b where
    b: "reqs st j = Some b" "ta_txhash b = ta_txhash a" "selected b" by auto
  let ?s = "if ta_state b = Best then Ready else Completed"
  have j: "j \<noteq> i" using a b by auto
  have nc: "ta_state b \<noteq> Completed" using b(3) by (auto simp: selected_def)
  obtain st' where st': "set_req_state j ?s st = Some st'" "tables_ok st'" "frame st st'"
    "reqs st' = (reqs st)(j \<mapsto> b\<lparr> ta_state := ?s \<rparr>)"
    using set_req_state_spec [OF choice_okD(1) [OF ok] b(1) nc, of ?s] by blast
  have lead: "led_by (ann_priority sip (tr_keys st)) (reqs st) (ta_txhash a) j b"
    using selected_leads [of _ "reqs st" b j] b choice_okD(2) [OF ok] b(2) by simp
  have "deselected i (ta_txhash a) (reqs st) (reqs st')"
    unfolding deselected_def
  proof (intro conjI allI impI)
    show "reqs st' i = reqs st i" using j by (simp add: st'(4))
    show "(reqs st k = None) = (reqs st' k = None)" for k using b(1) by (simp add: st'(4))
    fix k c
    assume c: "reqs st' k = Some c" "k \<noteq> i"
    show "\<exists>a'. reqs st k = Some a' \<and> (c = a' \<or> (ta_txhash a' = ta_txhash a \<and>
        (kin a' c \<or> c = a'\<lparr> ta_state := Completed \<rparr>))) \<and> (ta_txhash a' = ta_txhash a \<longrightarrow> \<not> selected c)"
    proof (cases "k = j")
      case True
      have "kin b (b\<lparr> ta_state := Ready \<rparr>)" if "ta_state b = Best" using that by (intro kin_set) (simp add: kind_def)
      with True c b show ?thesis by (auto simp: st'(4) selected_def)
    next
      case False
      with c lead show ?thesis by (auto simp: st'(4) led_by_def)
    qed
  qed
  moreover have "unselect (ta_txhash a) st = Some st'" using Some st'(1) reqs_at [OF b(1)] by (simp add: unselect_def)
  ultimately show ?thesis using st'(2,3) by blast
qed

lemma deselected_refl:
  assumes one: "one_selected pr A (ta_txhash a)" and a: "A i = Some a" "selected a"
  shows "deselected i (ta_txhash a) A A"
  using selected_leads [OF assms] by (auto simp: deselected_def led_by_def)

definition asked :: "real \<Rightarrow> tx_announcement \<Rightarrow> tx_announcement" where
  "asked expiry a = a\<lparr> ta_state := Requested, ta_time := expiry \<rparr>"

lemma asked_tracker:
  assumes ok: "tracker_ok sip st" and a: "reqs st i = Some a"
    and st1: "tables_ok s" "frame st s" "deselected i (ta_txhash a) (reqs st) B" "reqs s = B(i \<mapsto> asked expiry a)"
  shows "tracker_ok sip (schedule i s)" "reqs (schedule i s) i = Some (asked expiry a)" "tr_keys (schedule i s) = tr_keys st"
proof -
  note parts = tracker_okD [OF ok]
  have at: "ta_txhash (asked expiry a) = ta_txhash a" "ta_peer (asked expiry a) = ta_peer a"
    "ta_state (asked expiry a) = Requested" by (simp_all add: asked_def)
  have was: "\<exists>c. reqs st j = Some c \<and> (kin c b \<or> b = c\<lparr> ta_state := Completed \<rparr>)" if "reqs s j = Some b" "j \<noteq> i" for j b
    using st1(3) that kin_refl unfolding deselected_def st1(4) by (metis fun_upd_other)
  have out: "\<not> selected b" if b: "reqs s j = Some b" "j \<noteq> i" "ta_txhash b = ta_txhash a" for j b
  proof -
    have "B j = Some b" using b st1(4) by simp
    then obtain c where "reqs st j = Some c" "b = c \<or> kin c b \<or> b = c\<lparr> ta_state := Completed \<rparr>"
      "ta_txhash c = ta_txhash a \<longrightarrow> \<not> selected b" using st1(3) b(2) unfolding deselected_def by blast
    with b(3) kinD(1) [of c b] show ?thesis by auto
  qed
  have "choice_ok sip s"
  proof (rule choice_okI [OF parts(1) st1(1), of "ta_txhash a"])
    show "tr_keys s = tr_keys st" using st1(2) by (simp add: frame_def)
    show "one_selected (ann_priority sip (tr_keys st)) (reqs s) (ta_txhash a)"
    proof (rule led_byI [where j = i and b = "asked expiry a"])
      show "reqs s i = Some (asked expiry a)" by (simp add: st1(4))
      show "\<not> selected b" if "reqs s j = Some b" "ta_txhash b = ta_txhash a" "j \<noteq> i" for j b by (rule out [OF that(1,3,2)])
    qed (simp_all add: at selected_def)
    show "someone_left (reqs s) (ta_txhash a)"
      unfolding someone_left_def by (intro allI impI exI [of _ i] exI [of _ "asked expiry a"]) (simp add: st1(4) at)
    show "\<exists>c b. reqs st j = Some c \<and> reqs s j = Some b \<and> ta_txhash c = ta_txhash a \<and> ta_txhash b = ta_txhash a"
      if ne: "reqs s j \<noteq> reqs st j" for j
    proof (cases "j = i")
      case True
      with a st1(4) at show ?thesis by simp
    next
      case False
      then have B: "reqs s j = B j" by (simp add: st1(4))
      show ?thesis
      proof (cases "B j")
        case None
        with st1(3) ne B show ?thesis unfolding deselected_def by metis
      next
        case (Some b)
        with st1(3) False obtain c where c: "reqs st j = Some c"
          "b = c \<or> (ta_txhash c = ta_txhash a \<and> (kin c b \<or> b = c\<lparr> ta_state := Completed \<rparr>))" unfolding deselected_def by blast
        have "b \<noteq> c" using ne B Some c(1) by auto
        with c(2) kinD(1) [of c b] have "ta_txhash c = ta_txhash a" "ta_txhash b = ta_txhash a" by auto
        with c(1) B Some show ?thesis by simp
      qed
    qed
  qed
  moreover have "scheduled {i} s"
  proof (rule scheduled_frame [OF parts(2) st1(2)])
    show "j \<notin> {} \<and> (\<exists>c. reqs st j = Some c \<and> waits c \<and> ta_time c = ta_time b)"
      if b: "j \<notin> {i}" "reqs s j = Some b" "waits b" for j b
    proof -
      obtain c where c: "reqs st j = Some c" "kin c b \<or> b = c\<lparr> ta_state := Completed \<rparr>" using was [OF b(2)] b(1) by auto
      with b(3) have "kin c b" by (auto simp: waits_def is_waiting_def)
      from kinD(3,11) [OF this] c(1) b(3) show ?thesis by auto
    qed
  qed
  moreover have i: "reqs s i \<noteq> None" by (simp add: st1(4))
  ultimately have ev: "events_only s (schedule i s)" and sch: "scheduled {} (schedule i s)"
    using schedule_spec [OF st1(1) _ i, of "{i}"] by simp_all
  note only = events_onlyD [OF ev]
  have "times_ok s"
    unfolding times_ok_def
  proof (intro allI impI)
    fix j b
    assume b: "reqs s j = Some b" "candidate b"
    then have "j \<noteq> i" using at by (auto simp: st1(4) candidate_def)
    from was [OF b(1) this] obtain c where c: "reqs st j = Some c" "kin c b \<or> b = c\<lparr> ta_state := Completed \<rparr>" by blast
    with b(2) have "kin c b" by (auto simp: candidate_def)
    from kinD(3,5) [OF this] c(1) b(2) parts(3) st1(2) show "\<exists>l. tr_last_now s = Some l \<and> ta_time b \<le> l"
      unfolding times_ok_def frame_def by auto
  qed
  then have "times_ok (schedule i s)" unfolding times_ok_def only(1,5) .
  then show "tracker_ok sip (schedule i s)" using \<open>choice_ok sip s\<close> sch only(3) unfolding tracker_ok_def by simp
  show "reqs (schedule i s) i = Some (asked expiry a)" unfolding only(1) by (simp add: st1(4))
  show "tr_keys (schedule i s) = tr_keys st" using only(4) st1(2) by (simp add: frame_def)
qed

lemma requested_tx_spec:
  assumes ok: "tracker_ok sip st"
  shows "\<exists>st'. requested_tx peer txhash expiry st = Some st' \<and> tracker_ok sip st' \<and> tr_keys st' = tr_keys st
    \<and> (\<forall>i a. held (reqs st) txhash peer i \<longrightarrow> reqs st i = Some a \<longrightarrow> ta_state a \<noteq> Requested \<longrightarrow> ta_state a \<noteq> Completed
         \<longrightarrow> reqs st' i = Some (asked expiry a))"
proof (cases "known_announcement peer txhash st")
  case None
  then have "\<not> held (reqs st) txhash peer i" for i
    using known_announcement_ok [OF tracker_okD(4) [OF ok], of peer txhash i] by simp
  with None ok show ?thesis by (simp add: requested_tx_def)
next
  case (Some i)
  then have h: "held (reqs st) txhash peer i" using known_announcement_ok [OF tracker_okD(4) [OF ok]] by blast
  then obtain a where a: "reqs st i = Some a" "ta_txhash a = txhash" by (auto simp: held_def)
  have only: "j = i" if "held (reqs st) txhash peer j" for j
    using tracker_okD(5) [OF ok] h that unfolding store_ok_def by blast
  have at: "req_at st i = a" by (rule reqs_at [OF a(1)])
  show ?thesis
  proof (cases "ta_state a = Requested \<or> ta_state a = Completed")
    case True
    then have "requested_tx peer txhash expiry st = Some st" using Some at by (simp add: requested_tx_def)
    with ok True a only show ?thesis by (intro exI [of _ st]) auto
  next
    case False
    note cok = tracker_okD(1) [OF ok]
    obtain st1 where st1: "(if ta_state a \<noteq> Best then unselect txhash st else Some st) = Some st1" "tables_ok st1" "frame st st1"
      "deselected i txhash (reqs st) (reqs st1)"
    proof (cases "ta_state a = Best")
      case True
      then have "deselected i txhash (reqs st) (reqs st)"
        using deselected_refl [of _ "reqs st" a i, OF choice_okD(2) [OF cok] a(1)] a(2) by (simp add: selected_def)
      with that [of st] True tracker_okD(4) [OF ok] show ?thesis by simp
    next
      case nb: False
      with False have "\<not> selected a" by (simp add: selected_def)
      from unselect_spec [OF cok a(1) this] a(2) nb that show ?thesis by auto
    qed
    have i1: "reqs st1 i = Some a" using st1(4) a(1) by (simp add: deselected_def)
    obtain st2 where st2: "set_req_state i Requested st1 = Some st2" "tables_ok st2" "frame st1 st2"
      "reqs st2 = (reqs st1)(i \<mapsto> a\<lparr> ta_state := Requested \<rparr>)"
      using set_req_state_spec [OF st1(2) i1, of Requested] False by auto
    have i2: "reqs st2 i = Some (a\<lparr> ta_state := Requested \<rparr>)" by (simp add: st2(4))
    note t = at_time_spec [OF st2(2) i2, of expiry]
    have A: "reqs (at_time i expiry st2) = (reqs st1)(i \<mapsto> asked expiry a)" unfolding t(2) st2(4) by (simp add: asked_def)
    have fr: "frame st (at_time i expiry st2)" using frame_trans [OF frame_trans [OF st1(3) st2(3)] t(3)] .
    note s = asked_tracker [OF ok a(1) t(1) fr st1(4) [folded a(2)] A]
    have "requested_tx peer txhash expiry st = Some (schedule i (at_time i expiry st2))"
      using Some at False st1(1) st2(1) by (auto simp: requested_tx_def at_time_def Let_def)
    moreover have "reqs (schedule i (at_time i expiry st2)) j = Some (asked expiry b)"
      if "held (reqs st) txhash peer j" "reqs st j = Some b" for j b
      using only [OF that(1)] that(2) a(1) s(2) by simp
    ultimately show ?thesis using s(1,3) by blast
  qed
qed

end
