(* ===== verification/Tx_Request_Properties.thy ===== *)
theory Tx_Request_Properties
  imports Tx_Request_Operations
begin

text \<open>
  The properties of the request tracker, over every sequence of calls from an empty one: none
  raises, at most one announcement of a transaction is selected, and what a peer is asked for
  and which requests expire are as the announcements say.
\<close>

section \<open>Sequences of calls\<close>

datatype tx_op =
    Op_inv int bytes bool real bool
  | Op_disconnected int
  | Op_forget bytes
  | Op_requestable int real
  | Op_requested int bytes real
  | Op_response int bytes

fun apply_op :: "siphash \<Rightarrow> tx_op \<Rightarrow> tx_tracker \<Rightarrow> tx_tracker option" where
  "apply_op sip (Op_inv peer txhash preferred reqtime txid) st = Some (received_inv peer txhash preferred reqtime txid st)"
| "apply_op sip (Op_disconnected peer) st = disconnected_peer sip peer st"
| "apply_op sip (Op_forget txhash) st = forget_tx_hash txhash st"
| "apply_op sip (Op_requestable peer now) st = map_option fst (get_requestable sip peer now st)"
| "apply_op sip (Op_requested peer txhash expiry) st = requested_tx peer txhash expiry st"
| "apply_op sip (Op_response peer txhash) st = received_response sip peer txhash st"

lemma get_requestable_eq:
  "get_requestable sip peer now st = (case set_time_point sip now st of
     None \<Rightarrow> None
   | Some (st', ex) \<Rightarrow> Some (st', map (\<lambda>i. ta_txhash (req_at st' i)) (sort_key (\<lambda>i. ta_sequence (req_at st' i))
       (case map_of (tr_peers st') peer of None \<Rightarrow> [] | Some known \<Rightarrow> map snd (tp_best known))), ex))"
  by (auto simp: get_requestable_def Let_def split: option.split)

lemma apply_op_ok:
  assumes ok: "tracker_ok sip st"
  shows "\<exists>st'. apply_op sip p st = Some st' \<and> tracker_ok sip st' \<and> tr_keys st' = tr_keys st"
proof (cases p)
  case (Op_inv peer txhash preferred reqtime txid)
  show ?thesis
  proof (cases "known_announcement peer txhash st")
    case None
    with received_inv_spec(1,3) [OF ok] Op_inv show ?thesis by simp
  next
    case (Some i)
    with ok Op_inv show ?thesis by (simp add: received_inv_def)
  qed
next
  case (Op_requestable peer now)
  with set_time_point_spec [OF ok, of now] show ?thesis by (auto simp: get_requestable_eq)
qed (use disconnected_peer_spec [OF ok] forget_tracker [OF ok] requested_tx_spec [OF ok] received_response_spec [OF ok]
    in \<open>fastforce\<close>)+

lemma new_tracker_ok: "tracker_ok sip (new_tracker keys)"
  by (simp add: tracker_ok_def choice_ok_def tables_ok_def store_ok_def hashes_ok_def peers_ok_def scheduled_def times_ok_def
      new_tracker_def reqs_def held_def nested_ok_def get2_def inner_def count_reqs_def one_selected_def someone_left_def)

lemma run_ok:
  assumes "tracker_ok sip st"
  shows "\<exists>st'. fold_opt (apply_op sip) ops st = Some st' \<and> tracker_ok sip st' \<and> tr_keys st' = tr_keys st"
  using assms
proof (induction ops arbitrary: st)
  case (Cons p ops)
  from apply_op_ok [OF Cons.prems, of p] obtain s where s: "apply_op sip p st = Some s" "tracker_ok sip s" "tr_keys s = tr_keys st"
    by blast
  from Cons.IH [OF s(2)] s(1,3) show ?case by auto
qed simp

lemma run_okD:
  assumes "fold_opt (apply_op sip) ops (new_tracker keys) = Some st"
  shows "tracker_ok sip st" "tr_keys st = keys"
  using run_ok [OF new_tracker_ok, of sip ops keys] assms by (auto simp: new_tracker_def)

section \<open>Counts\<close>

lemma count_reqs_split:
  assumes "finite (dom A)" "\<And>a. \<not> (P a \<and> Q a)"
  shows "count_reqs A (\<lambda>a. P a \<or> Q a) = count_reqs A P + count_reqs A Q"
proof -
  have "{i. \<exists>a. A i = Some a \<and> (P a \<or> Q a)} = {i. \<exists>a. A i = Some a \<and> P a} \<union> {i. \<exists>a. A i = Some a \<and> Q a}" by blast
  moreover have "{i. \<exists>a. A i = Some a \<and> P a} \<inter> {i. \<exists>a. A i = Some a \<and> Q a} = {}" using assms(2) by auto
  ultimately show ?thesis using where_finite [OF assms(1)] by (simp add: count_reqs_def card_Un_disjoint)
qed

lemma peer_counts:
  assumes ok: "tables_ok st"
  shows "count_in_flight p st = count_reqs (reqs st) (in_state p Requested)"
    "count_announcements p st = count_reqs (reqs st) (\<lambda>a. ta_peer a = p)"
    "count_candidates p st = count_reqs (reqs st) (\<lambda>a. ta_peer a = p \<and> (ta_state a = Delayed \<or> candidate a))"
proof -
  have fin: "finite (dom (reqs st))" by (rule reqs_finite [OF tables_okD(1) [OF ok]])
  let ?free = "\<lambda>a. ta_peer a = p \<and> (ta_state a = Delayed \<or> candidate a)"
  have "count_reqs (reqs st) (\<lambda>a. (?free a \<or> in_state p Requested a) \<or> in_state p Completed a)
      = count_reqs (reqs st) (\<lambda>a. ?free a \<or> in_state p Requested a) + count_reqs (reqs st) (in_state p Completed)"
    by (rule count_reqs_split [OF fin]) (auto simp: in_state_def candidate_def)
  moreover have "count_reqs (reqs st) (\<lambda>a. ?free a \<or> in_state p Requested a)
      = count_reqs (reqs st) ?free + count_reqs (reqs st) (in_state p Requested)"
    by (rule count_reqs_split [OF fin]) (auto simp: in_state_def candidate_def)
  moreover have "((?free a \<or> in_state p Requested a) \<or> in_state p Completed a) = (ta_peer a = p)" for a
    by (cases "ta_state a") (auto simp: in_state_def candidate_def)
  ultimately have sum: "count_reqs (reqs st) (\<lambda>a. ta_peer a = p) = count_reqs (reqs st) ?free
      + count_reqs (reqs st) (in_state p Requested) + count_reqs (reqs st) (in_state p Completed)" by simp
  have "count_in_flight p st = count_reqs (reqs st) (in_state p Requested)
    \<and> count_announcements p st = count_reqs (reqs st) (\<lambda>a. ta_peer a = p)
    \<and> count_candidates p st = count_reqs (reqs st) ?free"
  proof (cases "map_of (tr_peers st) p")
    case None
    have no: "\<not> (\<exists>a. reqs st i = Some a \<and> ta_peer a = p)" for i
      using peer_at [OF tables_okD(3) [OF ok], of i] None by auto
    then have zero: "count_reqs (reqs st) Q = 0" if "\<And>a. Q a \<Longrightarrow> ta_peer a = p" for Q
    proof -
      have "{i. \<exists>a. reqs st i = Some a \<and> Q a} = {}" using no that by blast
      then show ?thesis by (simp only: count_reqs_def card.empty of_nat_0)
    qed
    have "count_reqs (reqs st) (in_state p Requested) = 0" "count_reqs (reqs st) (\<lambda>a. ta_peer a = p) = 0"
      "count_reqs (reqs st) ?free = 0" by (rule zero; simp add: in_state_def)+
    with None show ?thesis by (simp add: count_in_flight_def count_announcements_def count_candidates_def)
  next
    case (Some k)
    have "peer_ok (reqs st) p k"
      using tables_okD(3) [OF ok] Some unfolding peers_ok_def by (metis (no_types, lifting) option.simps(5))
    then have "tp_requested k = count_reqs (reqs st) (in_state p Requested)" "tp_completed k = count_reqs (reqs st) (in_state p Completed)"
      by (simp_all add: peer_ok_def)
    moreover have "int (length (tp_announcements k)) = count_reqs (reqs st) (\<lambda>a. ta_peer a = p)"
      using distinct_card [OF peer_list(1) [OF ok Some]] unfolding peer_list(2) [OF ok Some] by (simp add: count_reqs_def)
    ultimately show ?thesis
      using sum Some by (simp add: count_in_flight_def count_announcements_def count_candidates_def)
  qed
  then show "count_in_flight p st = count_reqs (reqs st) (in_state p Requested)"
    "count_announcements p st = count_reqs (reqs st) (\<lambda>a. ta_peer a = p)"
    "count_candidates p st = count_reqs (reqs st) ?free" by blast+
qed

section \<open>What a peer is asked for\<close>

definition contender :: "real \<Rightarrow> tx_announcement \<Rightarrow> bool" where
  \<comment> \<open>its time has come, and it was neither asked for nor completed\<close>
  "contender now a \<longleftrightarrow> ta_state a \<noteq> Requested \<and> ta_state a \<noteq> Completed \<and> ta_time a \<le> now"

definition outstanding :: "real \<Rightarrow> bytes \<Rightarrow> tx_announcement \<Rightarrow> bool" where
  "outstanding now h a \<longleftrightarrow> ta_txhash a = h \<and> ta_state a = Requested \<and> now < ta_time a"

definition to_ask :: "int \<Rightarrow> tx_tracker \<Rightarrow> int list" where
  "to_ask peer st = sort_key (\<lambda>i. ta_sequence (req_at st i))
     (case map_of (tr_peers st) peer of None \<Rightarrow> [] | Some known \<Rightarrow> map snd (tp_best known))"

lemma to_ask_spec:
  assumes ok: "tables_ok st"
  shows "sorted_wrt (<) (to_ask peer st)"
    "i \<in> set (to_ask peer st) \<longleftrightarrow> (\<exists>a. reqs st i = Some a \<and> ta_peer a = peer \<and> ta_state a = Best)"
proof -
  let ?ids = "case map_of (tr_peers st) peer of None \<Rightarrow> [] | Some known \<Rightarrow> map snd (tp_best known)"
  have ids: "distinct ?ids \<and> set ?ids = {i. \<exists>a. reqs st i = Some a \<and> ta_peer a = peer \<and> ta_state a = Best}"
  proof (cases "map_of (tr_peers st) peer")
    case None
    then show ?thesis using peer_at [OF tables_okD(3) [OF ok]] by fastforce
  next
    case (Some k)
    with peer_list(3,4) [OF ok Some] show ?thesis by simp
  qed
  then show mem: "i \<in> set (to_ask peer st) \<longleftrightarrow> (\<exists>a. reqs st i = Some a \<and> ta_peer a = peer \<and> ta_state a = Best)"
    unfolding to_ask_def set_sort by blast
  have sq: "ta_sequence (req_at st i) = i" if i: "i \<in> set ?ids" for i
  proof -
    obtain a where "reqs st i = Some a" using i ids by blast
    then show ?thesis using tables_okD(1) [OF ok] reqs_at [of st i a] unfolding store_ok_def reqs_Some by blast
  qed
  have "map (\<lambda>i. ta_sequence (req_at st i)) (to_ask peer st) = to_ask peer st"
    using sq unfolding to_ask_def by (intro map_idI) simp
  then have "sorted (to_ask peer st)" using sorted_sort_key [of "\<lambda>i. ta_sequence (req_at st i)" ?ids] by (simp add: to_ask_def)
  moreover have "distinct (to_ask peer st)" using ids by (simp add: to_ask_def distinct_sort)
  ultimately show "sorted_wrt (<) (to_ask peer st)" by (simp add: strict_sorted_iff)
qed

lemma evolves_contender:
  assumes ev: "evolves now (reqs st) (reqs st')" and re: "reached now st'" and a: "reqs st i = Some a" "contender now a"
  shows "\<exists>b. reqs st' i = Some b \<and> moved a b \<and> candidate b"
proof -
  obtain b where b: "reqs st' i = Some b" "ta_state b \<noteq> Completed" using ev a unfolding evolves_def contender_def by blast
  then obtain a' where "reqs st i = Some a'" "moved a' b" using ev unfolding evolves_def by blast
  then have m: "moved a b" using a(1) by simp
  then have t: "ta_time b \<le> now" "ta_state b \<noteq> Requested" using a(2) by (auto simp: moved_def contender_def)
  have "\<not> waits b" using re b(1) t(1) unfolding reached_def by fastforce
  then have "candidate b" using b(2) by (cases "ta_state b") (auto simp: waits_def is_waiting_def candidate_def)
  with b m show ?thesis by blast
qed

lemma moved_same: "moved a b \<Longrightarrow> ta_txhash b = ta_txhash a \<and> ta_peer b = ta_peer a \<and> ann_priority sip keys b = ann_priority sip keys a"
  by (auto simp: moved_def)

lemma evolves_back:
  assumes ev: "evolves now (reqs st) (reqs st')" and re: "reached now st'" and b: "reqs st' i = Some b" "candidate b"
  shows "\<exists>a. reqs st i = Some a \<and> moved a b \<and> contender now a"
proof -
  obtain a where a: "reqs st i = Some a" "moved a b" using ev b(1) unfolding evolves_def by blast
  have "ta_time b \<le> now" using re b unfolding reached_def early_def by auto
  with a b(2) have "contender now a" by (auto simp: contender_def moved_def candidate_def)
  with a show ?thesis by blast
qed

lemma asked_for:
  assumes ok: "choice_ok sip st'" and re: "reached now st'" and ev: "evolves now (reqs st) (reqs st')"
    and rq: "requests (reqs st') = requests (reqs st) - due now (reqs st)" and keys: "tr_keys st' = keys"
    and b: "reqs st' i = Some b" "ta_state b = Best"
  shows "\<exists>a. reqs st i = Some a \<and> moved a b \<and> contender now a \<and> \<not> (\<exists>j c. reqs st j = Some c \<and> outstanding now (ta_txhash b) c)
    \<and> (\<forall>j c. reqs st j = Some c \<longrightarrow> ta_txhash c = ta_txhash b \<longrightarrow> contender now c \<longrightarrow> ann_priority sip keys c \<le> ann_priority sip keys a)"
proof -
  have lead: "led_by (ann_priority sip keys) (reqs st') (ta_txhash b) i b"
    using selected_leads [of _ "reqs st'" b i] choice_okD(2) [OF ok] b keys by (simp add: selected_def)
  obtain a where a: "reqs st i = Some a" "moved a b" "contender now a"
    using evolves_back [OF ev re b(1)] b(2) by (auto simp: candidate_def)
  have "\<not> outstanding now (ta_txhash b) c" if c: "reqs st j = Some c" for j c
  proof
    assume o: "outstanding now (ta_txhash b) c"
    then have "(j, c) \<in> requests (reqs st')" unfolding rq using c by (auto simp: requests_def due_def outstanding_def)
    then have "reqs st' j = Some c" "ta_state c = Requested" by (auto simp: requests_def)
    moreover from this have "j \<noteq> i" using b by auto
    ultimately show False using lead o by (auto simp: led_by_def selected_def outstanding_def)
  qed
  moreover have "ann_priority sip keys c \<le> ann_priority sip keys a"
    if c: "reqs st j = Some c" "ta_txhash c = ta_txhash b" "contender now c" for j c
  proof (cases "j = i")
    case True
    with c a show ?thesis by simp
  next
    case False
    obtain d where d: "reqs st' j = Some d" "moved c d" "candidate d" using evolves_contender [OF ev re c(1,3)] by blast
    have "ta_state d \<noteq> Best" using lead d c(2) moved_same [OF d(2)] False by (auto simp: led_by_def selected_def)
    then have "ta_state d = Ready" using d(3) by (simp add: candidate_def)
    moreover have "ta_txhash d = ta_txhash b" using c(2) moved_same [OF d(2)] by simp
    ultimately have "ann_priority sip keys d \<le> ann_priority sip keys b"
      using lead d(1) False b(2) unfolding led_by_def by blast
    then show ?thesis using moved_same [OF d(2)] moved_same [OF a(2)] by simp
  qed
  ultimately show ?thesis using a by blast
qed

lemma top_is_best:
  assumes ok: "choice_ok sip st'" and re: "reached now st'" and ev: "evolves now (reqs st) (reqs st')"
    and rq: "requests (reqs st') = requests (reqs st) - due now (reqs st)" and keys: "tr_keys st' = keys"
    and a: "reqs st i = Some a" "contender now a" "\<not> (\<exists>j c. reqs st j = Some c \<and> outstanding now (ta_txhash a) c)"
    and top: "\<And>j c. reqs st j = Some c \<Longrightarrow> ta_txhash c = ta_txhash a \<Longrightarrow> contender now c \<Longrightarrow> j \<noteq> i
      \<Longrightarrow> ann_priority sip keys c < ann_priority sip keys a"
  shows "\<exists>b. reqs st' i = Some b \<and> moved a b \<and> ta_state b = Best"
proof -
  obtain b where b: "reqs st' i = Some b" "moved a b" "candidate b" using evolves_contender [OF ev re a(1,2)] by blast
  have one: "one_selected (ann_priority sip keys) (reqs st') (ta_txhash a)" using choice_okD(2) [OF ok] keys by simp
  have "ta_state b \<noteq> Ready"
  proof
    assume ready: "ta_state b = Ready"
    then obtain j c where c: "reqs st' j = Some c" "ta_txhash c = ta_txhash a" "selected c"
      using one b(1) moved_same [OF b(2)] unfolding one_selected_def by metis
    have ne: "j \<noteq> i" using b(1) c ready by (auto simp: selected_def)
    show False
    proof (cases "ta_state c = Requested")
      case True
      then have "(j, c) \<in> requests (reqs st')" using c(1) by (simp add: requests_def)
      then have "reqs st j = Some c \<and> now < ta_time c" unfolding rq by (auto simp: requests_def due_def)
      with a(3) c(2) True show False by (auto simp: outstanding_def)
    next
      case False
      then have best: "ta_state c = Best" using c(3) by (simp add: selected_def)
      then obtain d where d: "reqs st j = Some d" "moved d c" "contender now d"
        using evolves_back [OF ev re c(1)] by (auto simp: candidate_def)
      have "ann_priority sip keys d < ann_priority sip keys a" using top [OF d(1) _ d(3) ne] moved_same [OF d(2)] c(2) by simp
      moreover have "ann_priority sip keys b \<le> ann_priority sip keys c"
        using one c best b(1) ready moved_same [OF b(2)] unfolding one_selected_def by blast
      ultimately show False using moved_same [OF d(2)] moved_same [OF b(2)] by simp
    qed
  qed
  with b show ?thesis by (auto simp: candidate_def)
qed

lemma requestable_answer:
  assumes ok: "tracker_ok sip st"
  shows "\<exists>st' rs. get_requestable sip peer now st = Some (st', map (\<lambda>i. ta_txhash (req_at st i)) (to_ask peer st'), map who rs)
    \<and> choice_ok sip st' \<and> reached now st' \<and> tr_keys st' = tr_keys st \<and> evolves now (reqs st) (reqs st') \<and> distinct rs
    \<and> set rs = due now (reqs st) \<and> requests (reqs st') = requests (reqs st) - due now (reqs st)"
proof -
  obtain st' rs where r: "set_time_point sip now st = Some (st', map who rs)" "tracker_ok sip st'" "reached now st'"
    "tr_keys st' = tr_keys st" "evolves now (reqs st) (reqs st')" "distinct rs" "set rs = due now (reqs st)"
    "requests (reqs st') = requests (reqs st) - due now (reqs st)"
    using set_time_point_spec [OF ok, of now] by (elim exE conjE) (rule that)
  have "ta_txhash (req_at st' i) = ta_txhash (req_at st i)" if i: "i \<in> set (to_ask peer st')" for i
  proof -
    obtain b where b: "reqs st' i = Some b" using to_ask_spec(2) [OF tracker_okD(4) [OF r(2)], of i peer] i by blast
    then obtain a where a: "reqs st i = Some a" "moved a b" using r(5) unfolding evolves_def by blast
    show ?thesis using moved_same [OF a(2)] reqs_at [OF a(1)] reqs_at [OF b] by simp
  qed
  then have "map (\<lambda>i. ta_txhash (req_at st' i)) (to_ask peer st') = map (\<lambda>i. ta_txhash (req_at st i)) (to_ask peer st')"
    by (intro map_cong refl)
  then have "get_requestable sip peer now st = Some (st', map (\<lambda>i. ta_txhash (req_at st i)) (to_ask peer st'), map who rs)"
    using r(1) by (simp add: get_requestable_eq to_ask_def)
  with r(3-8) tracker_okD(1) [OF r(2)] show ?thesis by blast
qed

section \<open>The properties\<close>

text \<open>
  C25.  No sequence of calls raises: the erasure of an announcement always finds it in every table,
  the loop over the events always ends.  After each, at most one announcement of a transaction is
  the best or asked for, none is ready without one, the best has the highest priority of the
  ready, a transaction never has completed announcements alone, and the counts of a peer are of
  its announcements.
\<close>

theorem request_tracker_run:
  "\<exists>st. fold_opt (apply_op sip) ops (new_tracker keys) = Some st
    \<and> (\<forall>h. one_selected (ann_priority sip keys) (reqs st) h \<and> someone_left (reqs st) h)
    \<and> (\<forall>p. count_in_flight p st = count_reqs (reqs st) (in_state p Requested)
        \<and> count_announcements p st = count_reqs (reqs st) (\<lambda>a. ta_peer a = p)
        \<and> count_candidates p st = count_reqs (reqs st) (\<lambda>a. ta_peer a = p \<and> (ta_state a = Delayed \<or> candidate a)))"
proof -
  obtain st where st: "fold_opt (apply_op sip) ops (new_tracker keys) = Some st" "tracker_ok sip st" "tr_keys st = keys"
    using run_ok [OF new_tracker_ok, of sip ops keys] by (auto simp: new_tracker_def)
  with choice_okD(2,3) [OF tracker_okD(1) [OF st(2)]] peer_counts [OF tracker_okD(4) [OF st(2)]] show ?thesis by auto
qed

text \<open>
  C26.  What a peer is asked for at a time: the announcements of its own whose time has come, that
  were neither asked for nor completed, of a transaction with no request outstanding, and with the
  highest priority of all such announcements of it; all of those whose priority no other shares,
  in the order they were announced.
\<close>

theorem get_requestable_choice:
  assumes run: "fold_opt (apply_op sip) ops (new_tracker keys) = Some st"
  shows "\<exists>st' ids ex. get_requestable sip peer now st = Some (st', map (\<lambda>i. ta_txhash (req_at st i)) ids, ex)
    \<and> sorted_wrt (<) ids
    \<and> (\<forall>i\<in>set ids. \<exists>a. reqs st i = Some a \<and> ta_sequence a = i \<and> ta_peer a = peer \<and> contender now a
        \<and> \<not> (\<exists>j c. reqs st j = Some c \<and> outstanding now (ta_txhash a) c)
        \<and> (\<forall>j c. reqs st j = Some c \<longrightarrow> ta_txhash c = ta_txhash a \<longrightarrow> contender now c
              \<longrightarrow> ann_priority sip keys c \<le> ann_priority sip keys a))
    \<and> (\<forall>i a. reqs st i = Some a \<longrightarrow> ta_peer a = peer \<longrightarrow> contender now a
        \<longrightarrow> \<not> (\<exists>j c. reqs st j = Some c \<and> outstanding now (ta_txhash a) c)
        \<longrightarrow> (\<forall>j c. reqs st j = Some c \<longrightarrow> ta_txhash c = ta_txhash a \<longrightarrow> contender now c \<longrightarrow> j \<noteq> i
              \<longrightarrow> ann_priority sip keys c < ann_priority sip keys a)
        \<longrightarrow> i \<in> set ids)"
proof -
  note ok = run_okD [OF run]
  obtain st' rs where g: "get_requestable sip peer now st = Some (st', map (\<lambda>i. ta_txhash (req_at st i)) (to_ask peer st'), map who rs)"
    and r: "choice_ok sip st'" "reached now st'" "evolves now (reqs st) (reqs st')"
    "requests (reqs st') = requests (reqs st) - due now (reqs st)" "tr_keys st' = keys"
    using requestable_answer [OF ok(1), of peer now] ok(2) by auto
  note ask = to_ask_spec [OF choice_okD(1) [OF r(1)]]
  have "\<exists>a. reqs st i = Some a \<and> ta_sequence a = i \<and> ta_peer a = peer \<and> contender now a
      \<and> \<not> (\<exists>j c. reqs st j = Some c \<and> outstanding now (ta_txhash a) c)
      \<and> (\<forall>j c. reqs st j = Some c \<longrightarrow> ta_txhash c = ta_txhash a \<longrightarrow> contender now c
            \<longrightarrow> ann_priority sip keys c \<le> ann_priority sip keys a)" if i: "i \<in> set (to_ask peer st')" for i
  proof -
    obtain b where b: "reqs st' i = Some b" "ta_peer b = peer" "ta_state b = Best" using i ask(2) by blast
    from asked_for [OF r b(1,3)] obtain a where a: "reqs st i = Some a" "moved a b" "contender now a"
      "\<not> (\<exists>j c. reqs st j = Some c \<and> outstanding now (ta_txhash b) c)"
      "\<forall>j c. reqs st j = Some c \<longrightarrow> ta_txhash c = ta_txhash b \<longrightarrow> contender now c
        \<longrightarrow> ann_priority sip keys c \<le> ann_priority sip keys a" by blast
    have "ta_sequence a = i" using a(1) tracker_okD(5) [OF ok(1)] unfolding store_ok_def reqs_Some by blast
    with a b moved_same [OF a(2)] show ?thesis by simp
  qed
  moreover have "i \<in> set (to_ask peer st')"
    if a: "reqs st i = Some a" "ta_peer a = peer" "contender now a"
      "\<not> (\<exists>j c. reqs st j = Some c \<and> outstanding now (ta_txhash a) c)"
      "\<forall>j c. reqs st j = Some c \<longrightarrow> ta_txhash c = ta_txhash a \<longrightarrow> contender now c \<longrightarrow> j \<noteq> i
        \<longrightarrow> ann_priority sip keys c < ann_priority sip keys a" for i a
  proof -
    have "\<exists>b. reqs st' i = Some b \<and> moved a b \<and> ta_state b = Best"
    proof (rule top_is_best [OF r a(1,3,4)])
      show "ann_priority sip keys c < ann_priority sip keys a"
        if "reqs st j = Some c" "ta_txhash c = ta_txhash a" "contender now c" "j \<noteq> i" for j c using a(5) that by blast
    qed
    then obtain b where b: "reqs st' i = Some b" "moved a b" "ta_state b = Best" by blast
    then have "ta_peer b = peer" using a(2) moved_same [OF b(2)] by simp
    with b ask(2) show ?thesis by blast
  qed
  ultimately show ?thesis using g ask(1) by (intro exI [of _ st'] exI [of _ "to_ask peer st'"] exI [of _ "map who rs"]) simp
qed

text \<open>
  C27.  A call returns whatever the time, forwards or back: it reports each request expired by then
  exactly once, whichever peer it was made of, keeps every other request, and leaves nothing
  waiting for a time that has come.
\<close>

theorem get_requestable_expired:
  assumes run: "fold_opt (apply_op sip) ops (new_tracker keys) = Some st"
  shows "\<exists>st' hs rs. get_requestable sip peer now st = Some (st', hs, map (\<lambda>r. (ta_peer (snd r), ta_txhash (snd r))) rs)
    \<and> distinct rs \<and> set rs = {(i, a). reqs st i = Some a \<and> ta_state a = Requested \<and> ta_time a \<le> now}
    \<and> requests (reqs st') = requests (reqs st) - set rs
    \<and> (\<forall>i a. reqs st' i = Some a \<longrightarrow> ta_state a = Delayed \<or> ta_state a = Requested \<longrightarrow> now < ta_time a)"
proof -
  obtain st' rs where r: "get_requestable sip peer now st = Some (st', map (\<lambda>i. ta_txhash (req_at st i)) (to_ask peer st'), map who rs)"
    "reached now st'" "distinct rs" "set rs = due now (reqs st)" "requests (reqs st') = requests (reqs st) - due now (reqs st)"
    using requestable_answer [OF run_okD(1) [OF run], of peer now] by auto
  have "set rs = {(i, a). reqs st i = Some a \<and> ta_state a = Requested \<and> ta_time a \<le> now}"
    unfolding r(4) by (auto simp: due_def requests_def)
  moreover have "map who rs = map (\<lambda>r. (ta_peer (snd r), ta_txhash (snd r))) rs" by (simp add: who_def)
  moreover have "\<forall>i a. reqs st' i = Some a \<longrightarrow> ta_state a = Delayed \<or> ta_state a = Requested \<longrightarrow> now < ta_time a"
    using r(2) by (simp add: reached_def waits_def is_waiting_def)
  moreover have "requests (reqs st') = requests (reqs st) - set rs" using r(4,5) by simp
  ultimately show ?thesis
    using r(1,3) by (intro exI [of _ st'] exI [of _ "map (\<lambda>i. ta_txhash (req_at st i)) (to_ask peer st')"] exI [of _ rs] conjI) simp_all
qed

section \<open>Witnesses\<close>

definition sample_ops :: "tx_op list" where
  \<comment> \<open>two peers announce a transaction, the first is asked until 10\<close>
  "sample_ops = [Op_inv 1 [1] False 0 False, Op_inv 2 [1] True 5 False, Op_requestable 1 0, Op_requested 1 [1] 10]"

lemma sample_run:
  "case fold_opt (apply_op (\<lambda>_ _ _. 0)) sample_ops (new_tracker (0, 0)) of None \<Rightarrow> False
   | Some st \<Rightarrow> map_option snd (get_requestable (\<lambda>_ _ _. 0) 2 12 st) = Some ([[1]], [(1, [1])])"
  by code_simp

lemma sample_state:
  obtains st s where "fold_opt (apply_op (\<lambda>_ _ _. 0)) sample_ops (new_tracker (0, 0)) = Some st"
    "get_requestable (\<lambda>_ _ _. 0) 2 12 st = Some (s, [[1]], [(1, [1])])"
  using sample_run by (auto split: option.splits)

theorem get_requestable_choice_witness:
  "\<exists>st st' ids ex. fold_opt (apply_op (\<lambda>_ _ _. 0)) sample_ops (new_tracker (0, 0)) = Some st
    \<and> get_requestable (\<lambda>_ _ _. 0) 2 12 st = Some (st', map (\<lambda>i. ta_txhash (req_at st i)) ids, ex)
    \<and> length ids = 1 \<and> ex = [(1, [1])] \<and> (\<forall>i\<in>set ids. \<exists>a. reqs st i = Some a \<and> ta_peer a = 2 \<and> contender 12 a)"
proof -
  obtain st s where st: "fold_opt (apply_op (\<lambda>_ _ _. 0)) sample_ops (new_tracker (0, 0)) = Some st"
    "get_requestable (\<lambda>_ _ _. 0) 2 12 st = Some (s, [[1]], [(1, [1])])" by (rule sample_state)
  obtain st' ids ex where r: "get_requestable (\<lambda>_ _ _. 0) 2 12 st = Some (st', map (\<lambda>i. ta_txhash (req_at st i)) ids, ex)"
    and each: "\<And>i. i \<in> set ids \<Longrightarrow> \<exists>a. reqs st i = Some a \<and> ta_peer a = 2 \<and> contender 12 a"
    using get_requestable_choice [OF st(1), of 2 12] by (elim exE conjE) (rule that, assumption, drule (1) bspec, elim exE conjE, intro exI conjI)
  have "map (\<lambda>i. ta_txhash (req_at st i)) ids = [[1]]" "ex = [(1, [1])]" using st(2) r(1) by simp_all
  then have "length ids = 1" by auto
  with st(1) r each \<open>ex = [(1, [1])]\<close> show ?thesis
    by (intro exI [of _ st] exI [of _ st'] exI [of _ ids] exI [of _ ex]) simp
qed

theorem get_requestable_expired_witness:
  "\<exists>st st' hs rs. fold_opt (apply_op (\<lambda>_ _ _. 0)) sample_ops (new_tracker (0, 0)) = Some st
    \<and> get_requestable (\<lambda>_ _ _. 0) 2 12 st = Some (st', hs, map (\<lambda>r. (ta_peer (snd r), ta_txhash (snd r))) rs)
    \<and> length rs = 1 \<and> set rs = {(i, a). reqs st i = Some a \<and> ta_state a = Requested \<and> ta_time a \<le> 12}"
proof -
  obtain st s where st: "fold_opt (apply_op (\<lambda>_ _ _. 0)) sample_ops (new_tracker (0, 0)) = Some st"
    "get_requestable (\<lambda>_ _ _. 0) 2 12 st = Some (s, [[1]], [(1, [1])])" by (rule sample_state)
  obtain st' hs rs where
    r: "get_requestable (\<lambda>_ _ _. 0) 2 12 st = Some (st', hs, map (\<lambda>r. (ta_peer (snd r), ta_txhash (snd r))) rs)"
    "set rs = {(i, a). reqs st i = Some a \<and> ta_state a = Requested \<and> ta_time a \<le> 12}"
    using get_requestable_expired [OF st(1), of 2 12] by (elim exE conjE) (rule that)
  have "map (\<lambda>r. (ta_peer (snd r), ta_txhash (snd r))) rs = [(1, [1])]" using st(2) r(1) by simp
  then have "length rs = 1" by auto
  with st(1) r show ?thesis by (intro exI [of _ st] exI [of _ st'] exI [of _ hs] exI [of _ rs] conjI)
qed

end
