(* ===== verification/Lanes.thy ===== *)
theory Lanes
  imports Prelude
begin

unbundle bit_operations_syntax

text \<open>
  Integers that hold one value in each 64-bit lane: what an addition, a multiplication, a shift
  and a mask of the integer do in every lane, as long as no lane overflows.  The lemmas go by the
  bits: bit \<open>i\<close> of the integer is bit \<open>i mod 64\<close> of lane \<open>i div 64\<close>.
\<close>

section \<open>Lanes and their bits\<close>

definition lane_sum :: "(nat \<Rightarrow> int) \<Rightarrow> nat \<Rightarrow> int" where
  \<comment> \<open>\<open>sum(f(k) << (64 * k) for k in range(n))\<close>\<close>
  "lane_sum f n = sum_list (map (\<lambda>k. push_bit (64 * k) (f k)) [0..<n])"

definition fits :: "nat \<Rightarrow> (nat \<Rightarrow> int) \<Rightarrow> nat \<Rightarrow> bool" where
  "fits b f n \<longleftrightarrow> (\<forall>k<n. 0 \<le> f k \<and> f k < 2 ^ b)"

lemma fitsD: "fits b f n \<Longrightarrow> k < n \<Longrightarrow> 0 \<le> f k" "fits b f n \<Longrightarrow> k < n \<Longrightarrow> f k < 2 ^ b"
  by (simp_all add: fits_def)

lemma fits_le: "fits b f n \<Longrightarrow> b \<le> c \<Longrightarrow> fits c f n"
  unfolding fits_def by (meson order_less_le_trans power_increasing one_le_numeral)

lemma fits_Suc: "fits b f (Suc n) \<longleftrightarrow> fits b f n \<and> 0 \<le> f n \<and> f n < 2 ^ b"
  by (auto simp: fits_def less_Suc_eq)

lemma lane_sum_0 [simp]: "lane_sum f 0 = 0"
  by (simp add: lane_sum_def)

lemma lane_sum_Suc: "lane_sum f (Suc n) = lane_sum f n + push_bit (64 * n) (f n)"
  by (simp add: lane_sum_def)

lemma lane_sum_cong: "(\<And>k. k < n \<Longrightarrow> f k = g k) \<Longrightarrow> lane_sum f n = lane_sum g n"
  by (induction n) (simp_all add: lane_sum_Suc)

lemma high_bits: "0 \<le> a \<Longrightarrow> a < 2 ^ b \<Longrightarrow> b \<le> j \<Longrightarrow> \<not> bit (a :: int) j"
  by (metis bit_take_bit_iff not_less take_bit_int_eq_self)

lemma bit_above:
  fixes a c :: int
  assumes "0 \<le> a" "a < 2 ^ m"
  shows "bit (a + push_bit m c) i \<longleftrightarrow> (if i < m then bit a i else bit c (i - m))"
proof -
  have "a AND push_bit m c = 0"
    by (rule bit_eqI) (use high_bits [OF assms] in \<open>auto simp: bit_simps not_le\<close>)
  then have "a + push_bit m c = a OR push_bit m c" by (rule disjunctive_add_eq_or)
  then show ?thesis using high_bits [OF assms, of i] by (auto simp: bit_simps not_le)
qed

lemma lane_sum_bounds: "fits 64 f n \<Longrightarrow> 0 \<le> lane_sum f n \<and> lane_sum f n < 2 ^ (64 * n)"
proof (induction n)
  case (Suc n)
  have b: "0 \<le> lane_sum f n" "lane_sum f n < 2 ^ (64 * n)" "0 \<le> f n" "f n \<le> 2 ^ 64 - 1"
    using Suc by (simp_all add: fits_Suc)
  have "f n * 2 ^ (64 * n) \<le> (2 ^ 64 - 1) * 2 ^ (64 * n)" using b(4) by (rule mult_right_mono) simp
  also have "\<dots> = 2 ^ 64 * 2 ^ (64 * n) - 2 ^ (64 * n)" by (simp only: left_diff_distrib mult_1)
  finally have "lane_sum f n + f n * 2 ^ (64 * n) < 2 ^ 64 * 2 ^ (64 * n)" using b(2) by linarith
  moreover have "(2::int) ^ (64 * Suc n) = 2 ^ 64 * 2 ^ (64 * n)" by (simp only: mult_Suc_right power_add)
  ultimately show ?case using b(1,3) by (simp only: lane_sum_Suc push_bit_eq_mult) simp
qed simp

lemma bit_lane_sum:
  assumes "fits 64 f n"
  shows "bit (lane_sum f n) i \<longleftrightarrow> i div 64 < n \<and> bit (f (i div 64)) (i mod 64)"
  using assms
proof (induction n)
  case (Suc n)
  then have f: "fits 64 f n" "0 \<le> f n" "f n < 2 ^ 64" by (simp_all add: fits_Suc)
  have b: "0 \<le> lane_sum f n" "lane_sum f n < 2 ^ (64 * n)" using lane_sum_bounds [OF f(1)] by simp_all
  show ?case
  proof (cases "i < 64 * n")
    case True
    then have "i div 64 < n" by auto
    then show ?thesis unfolding lane_sum_Suc bit_above [OF b] using True Suc.IH [OF f(1)] by simp
  next
    case False
    then have "n \<le> i div 64" by auto
    show ?thesis
    proof (cases "i div 64 = n")
      case True
      then have "i - 64 * n = i mod 64" by (auto simp: minus_mult_div_eq_mod)
      then show ?thesis unfolding lane_sum_Suc bit_above [OF b] using False True by simp
    next
      case ne: False
      then have "64 \<le> i - 64 * n" using \<open>n \<le> i div 64\<close> by auto
      then have "\<not> bit (f n) (i - 64 * n)" by (rule high_bits [OF f(2,3)])
      then show ?thesis unfolding lane_sum_Suc bit_above [OF b] using False ne \<open>n \<le> i div 64\<close> by auto
    qed
  qed
qed simp

section \<open>Operations in every lane\<close>

lemma lane_sum_mult: "lane_sum f n * c = lane_sum (\<lambda>k. f k * c) n"
  by (induction n) (simp_all add: lane_sum_Suc push_bit_eq_mult algebra_simps)

lemma lane_sum_add: "lane_sum f n + lane_sum g n = lane_sum (\<lambda>k. f k + g k) n"
  by (induction n) (simp_all add: lane_sum_Suc push_bit_eq_mult algebra_simps)

lemma fits_const: "fits b (\<lambda>_. c) n \<longleftrightarrow> n = 0 \<or> (0 \<le> c \<and> c < 2 ^ b)"
  by (auto simp: fits_def)

lemma fits_xor: "fits b f n \<Longrightarrow> fits b g n \<Longrightarrow> fits b (\<lambda>k. f k XOR g k) n"
proof -
  assume f: "fits b f n" "fits b g n"
  have "take_bit b (f k XOR g k) = f k XOR g k" if "k < n" for k
    using fitsD [OF f(1) that] fitsD [OF f(2) that] by (simp add: take_bit_xor take_bit_int_eq_self)
  then show ?thesis unfolding fits_def by (metis take_bit_nonnegative take_bit_int_less_exp)
qed

lemma lane_sum_xor:
  assumes "fits 64 f n" "fits 64 g n"
  shows "lane_sum f n XOR lane_sum g n = lane_sum (\<lambda>k. f k XOR g k) n"
  by (rule bit_eqI) (simp add: bit_xor_iff bit_lane_sum assms fits_xor, blast)

text \<open>
  A shift to the right brings bits of the next lane in at the top of each: a mask of what the
  shift leaves below them clears them.
\<close>

lemma lane_sum_mask_shift:
  assumes f: "fits 64 f n" and s: "s + j \<le> 64"
  shows "drop_bit s (lane_sum f n) AND (mask j * lane_sum (\<lambda>_. 1) n) = lane_sum (\<lambda>k. take_bit j (drop_bit s (f k))) n"
proof -
  have j: "j \<le> 64" using s by simp
  have "fits j (\<lambda>_. mask j) n" by (simp add: fits_def mask_eq_exp_minus_1)
  then have m: "fits 64 (\<lambda>_. mask j) n" using j by (rule fits_le)
  have "fits j (\<lambda>k. take_bit j (drop_bit s (f k))) n" by (simp add: fits_def)
  then have t: "fits 64 (\<lambda>k. take_bit j (drop_bit s (f k))) n" using j by (rule fits_le)
  have "mask j * lane_sum (\<lambda>_. 1) n = lane_sum (\<lambda>_. mask j) n" by (simp add: mult.commute [of "mask j"] lane_sum_mult)
  moreover have "drop_bit s (lane_sum f n) AND lane_sum (\<lambda>_. mask j) n = lane_sum (\<lambda>k. take_bit j (drop_bit s (f k))) n"
  proof (rule bit_eqI)
    fix i
    have "(s + i) div 64 = i div 64 \<and> (s + i) mod 64 = s + i mod 64" if "i mod 64 < j"
    proof -
      have lt: "s + i mod 64 < 64" using that s by simp
      have "s + i = (s + i mod 64) + 64 * (i div 64)" by simp
      with lt show ?thesis by (metis add.right_neutral div_less div_mult_self2 mod_less mod_mult_self2 zero_neq_numeral add.commute)
    qed
    then show "bit (drop_bit s (lane_sum f n) AND lane_sum (\<lambda>_. mask j) n) i
        \<longleftrightarrow> bit (lane_sum (\<lambda>k. take_bit j (drop_bit s (f k))) n) i"
      using s by (auto simp: bit_and_iff bit_drop_bit_eq bit_lane_sum f m t bit_mask_iff bit_take_bit_iff)
  qed
  ultimately show ?thesis by simp
qed

lemma fits_uint:
  fixes w :: "nat \<Rightarrow> 32 word"
  shows "fits 64 (\<lambda>k. uint (w k)) n"
proof -
  have "fits 32 (\<lambda>k. uint (w k)) n" unfolding fits_def using uint_lt2p [where 'a = 32] by simp
  then show ?thesis by (rule fits_le) simp
qed

text \<open>A rotation of 32-bit values, each in the low half of its lane.\<close>

lemma lane_at: "j < 64 \<Longrightarrow> (j + 64 * q) div 64 = q" "j < 64 \<Longrightarrow> (j + 64 * q) mod 64 = j" for j q :: nat
  by simp_all

lemma bit_words:
  fixes w :: "nat \<Rightarrow> 32 word"
  assumes "j < 64"
  shows "bit (lane_sum (\<lambda>k. uint (w k)) n) (j + 64 * q) \<longleftrightarrow> q < n \<and> bit (w q) j"
proof -
  have "bit (uint v) j \<longleftrightarrow> bit v j" for v :: "32 word"
    by (auto simp: bit_uint_iff dest: bit_imp_le_length)
  then show ?thesis unfolding bit_lane_sum [OF fits_uint] lane_at [OF assms] by simp
qed

lemma bit_push_words:
  fixes w :: "nat \<Rightarrow> 32 word"
  assumes "j < 32" "r \<le> 32"
  shows "bit (push_bit r (lane_sum (\<lambda>k. uint (w k)) n)) (j + 64 * q) \<longleftrightarrow> q < n \<and> r \<le> j \<and> bit (w q) (j - r)"
proof (cases "r \<le> j")
  case True
  then have "j + 64 * q - r = (j - r) + 64 * q" by simp
  moreover have "j - r < 64" using assms by simp
  ultimately show ?thesis using True bit_words [of "j - r" w n q] by (simp add: bit_push_bit_iff)
next
  case False
  have "\<not> bit (lane_sum (\<lambda>k. uint (w k)) n) (j + 64 * q - r)" if ri: "r \<le> j + 64 * q"
  proof -
    obtain p where q: "q = Suc p" using False ri by (cases q) auto
    have eq: "j + 64 * q - r = (64 + j - r) + 64 * p" using q False assms by simp
    have lt: "64 + j - r < 64" "32 \<le> 64 + j - r" using False assms by simp_all
    have "\<not> bit (w p) (64 + j - r)" using lt(2) by (auto dest: bit_imp_le_length)
    then show ?thesis unfolding eq bit_words [OF lt(1)] by simp
  qed
  with False show ?thesis by (auto simp: bit_push_bit_iff)
qed

lemma bit_drop_words:
  fixes w :: "nat \<Rightarrow> 32 word"
  assumes "j < 32"
  shows "bit (drop_bit (32 - r) (lane_sum (\<lambda>k. uint (w k)) n)) (j + 64 * q) \<longleftrightarrow> q < n \<and> bit (w q) (32 - r + j)"
proof -
  have eq: "32 - r + (j + 64 * q) = (32 - r + j) + 64 * q" by simp
  have "32 - r + j < 64" using assms by simp
  then show ?thesis unfolding bit_drop_bit_eq comp_apply eq by (rule bit_words)
qed

lemma bit_rotl:
  fixes v :: "32 word"
  assumes "j < 32" "r \<le> 32"
  shows "bit (word_rotl r v) j \<longleftrightarrow> (r \<le> j \<and> bit v (j - r)) \<or> bit v (32 - r + j)"
proof (cases "r = 32")
  case True
  with assms show ?thesis by (simp add: bit_word_rotl_iff)
next
  case False
  then have r: "r < 32" using assms by simp
  show ?thesis
  proof (cases "r \<le> j")
    case True
    then have "\<not> bit v (32 - r + j)" using r by (auto dest: bit_imp_le_length)
    moreover have "(j + (32 - r)) mod 32 = j - r" using True r assms by (simp add: mod_if)
    ultimately show ?thesis using True r assms by (simp add: bit_word_rotl_iff)
  next
    case False
    then have "(j + (32 - r)) mod 32 = 32 - r + j" using r by simp
    with False r assms show ?thesis by (simp add: bit_word_rotl_iff)
  qed
qed

lemma lane_sum_rotl:
  fixes w :: "nat \<Rightarrow> 32 word"
  assumes r: "r \<le> 32"
  shows "(push_bit r (lane_sum (\<lambda>k. uint (w k)) n) OR drop_bit (32 - r) (lane_sum (\<lambda>k. uint (w k)) n)) AND (mask 32 * lane_sum (\<lambda>_. 1) n)
    = lane_sum (\<lambda>k. uint (word_rotl r (w k))) n" (is "?l = ?r")
proof -
  have "fits 32 (\<lambda>_. mask 32) n" by (simp add: fits_def mask_eq_exp_minus_1)
  then have m: "fits 64 (\<lambda>_. mask 32) n" by (rule fits_le) simp
  have lm: "mask 32 * lane_sum (\<lambda>_. 1) n = lane_sum (\<lambda>_. mask 32) n" by (simp only: mult.commute [of "mask 32"] lane_sum_mult mult_1)
  show ?thesis
    unfolding lm
  proof (rule bit_eqI)
    fix i :: nat
    obtain j q where i: "i = j + 64 * q" "j < 64" by (rule that [of "i mod 64" "i div 64"]) simp_all
    have mb: "bit (lane_sum (\<lambda>_. mask 32) n) i \<longleftrightarrow> q < n \<and> j < 32"
      unfolding bit_lane_sum [OF m] i(1) lane_at [OF i(2)] by (simp add: bit_mask_iff)
    show "bit ((push_bit r (lane_sum (\<lambda>k. uint (w k)) n) OR drop_bit (32 - r) (lane_sum (\<lambda>k. uint (w k)) n)) AND lane_sum (\<lambda>_. mask 32) n) i
        \<longleftrightarrow> bit (lane_sum (\<lambda>k. uint (word_rotl r (w k))) n) i"
    proof (cases "j < 32")
      case True
      show ?thesis
        unfolding bit_and_iff bit_or_iff mb unfolding i(1) bit_push_words [OF True r] bit_drop_words [OF True] bit_words [OF i(2)]
          bit_rotl [OF True r] using True by blast
    next
      case False
      have "\<not> bit (word_rotl r (w q)) j" using False by (auto dest: bit_imp_le_length)
      then show ?thesis unfolding bit_and_iff mb unfolding i(1) bit_words [OF i(2)] using False by blast
    qed
  qed
qed

text \<open>Reading a lane back.\<close>

lemma lane_get:
  assumes f: "fits 64 f n" and k: "k < n" and b: "b \<le> 64"
  shows "take_bit b (drop_bit (64 * k) (lane_sum f n)) = take_bit b (f k)"
proof (rule bit_eqI)
  fix i :: nat
  show "bit (take_bit b (drop_bit (64 * k) (lane_sum f n))) i \<longleftrightarrow> bit (take_bit b (f k)) i"
  proof (cases "i < b")
    case True
    then have i: "i < 64" using b by simp
    have "bit (lane_sum f n) (64 * k + i) \<longleftrightarrow> bit (f k) i"
      unfolding bit_lane_sum [OF f] using lane_at [OF i, of k] k by (simp add: add.commute)
    with True show ?thesis by (simp add: bit_take_bit_iff bit_drop_bit_eq)
  qed (simp add: bit_take_bit_iff)
qed

end
