(* ===== verification/Rolling_Bloom.thy ===== *)
theory Rolling_Bloom
  imports Lanes
begin

text \<open>
  \<open>RollingBloomFilter\<close> of \<open>rolling_bloom.py\<close>: the keys seen lately, with no false negative.  Every
  run of MurmurHash3 is one lane of a Python integer, as the code has it.  The constructor sizes
  the filter with floating-point logarithms: their results, the rounded number of hash functions
  and the number of bits, are arguments here.  \<open>array("Q")\<close> is a list of integers that refuses an
  index out of range and a value that is not of 64 bits, \<open>to_bytes\<close> refuses an integer that does
  not fit, and the byte order is little-endian.
\<close>

section \<open>State\<close>

record rolling_bloom =
  rb_per_generation :: int
  rb_words :: int
  rb_size :: int
  rb_planes :: "(int list \<times> int list) option"
  rb_generation :: int
  rb_this_generation :: int
  rb_lanes :: int
  rb_lane_mask :: int
  rb_index_mask :: int
  rb_bit_mask :: int
  rb_add :: int
  rb_lane_bytes :: int
  rb_seeds :: int

definition mask32 :: int where "mask32 = 0xFFFFFFFF"
definition murmur_c1 :: int where "murmur_c1 = 0xCC9E2D51"
definition murmur_c2 :: int where "murmur_c2 = 0x1B873593"

definition set_tweak :: "int \<Rightarrow> rolling_bloom \<Rightarrow> rolling_bloom" where
  "set_tweak tweak f =
     f\<lparr> rb_seeds := lane_sum (\<lambda>n. (int n * 0xFBA4C795 + tweak) AND mask32) (nat (rb_lane_bytes f div 8)) \<rparr>"

definition new_bloom :: "int \<Rightarrow> int \<Rightarrow> int \<Rightarrow> int \<Rightarrow> rolling_bloom" where
  \<comment> \<open>\<open>rounded\<close> and \<open>filter_bits\<close> come from the logarithms of the constructor\<close>
  "new_bloom n_elements rounded filter_bits tweak =
     (let hash_funcs = max 1 (min rounded 50);
          words = (filter_bits + 63) div 64;
          lanes = lane_sum (\<lambda>_. 1) (nat hash_funcs)
      in set_tweak tweak
           \<lparr> rb_per_generation = (n_elements + 1) div 2, rb_words = words, rb_size = words * 2, rb_planes = None,
             rb_generation = 1, rb_this_generation = 0, rb_lanes = lanes, rb_lane_mask = mask32 * lanes,
             rb_index_mask = drop_bit 1 mask32 * lanes, rb_bit_mask = 63 * lanes, rb_add = 0xE6546B64 * lanes,
             rb_lane_bytes = 8 * hash_funcs, rb_seeds = 0 \<rparr>)"

definition bloom_reset :: "int \<Rightarrow> rolling_bloom \<Rightarrow> rolling_bloom" where
  "bloom_reset tweak f = (set_tweak tweak f)\<lparr> rb_planes := None, rb_generation := 1, rb_this_generation := 0 \<rparr>"

section \<open>The hash functions\<close>

fun le_int :: "bytes \<Rightarrow> int" where
  \<comment> \<open>\<open>int.from_bytes(b, "little")\<close>\<close>
  "le_int [] = 0"
| "le_int (b # bs) = uint b + 256 * le_int bs"

fun le_blocks :: "bytes \<Rightarrow> int list" where
  \<comment> \<open>\<open>struct.iter_unpack("<I", b)\<close>\<close>
  "le_blocks (a # b # c # d # bs) = le_int [a, b, c, d] # le_blocks bs"
| "le_blocks _ = []"

definition scramble :: "int \<Rightarrow> int" where
  \<comment> \<open>what is mixed in of a block, the same in every lane\<close>
  "scramble block =
     (let k1 = (block * murmur_c1) AND mask32;
          k1 = (push_bit 15 k1 OR drop_bit 17 k1) AND mask32
      in (k1 * murmur_c2) AND mask32)"

definition mix_block :: "rolling_bloom \<Rightarrow> int \<Rightarrow> int \<Rightarrow> int" where
  "mix_block f block h =
     (let h = h XOR (scramble block * rb_lanes f);
          h = (push_bit 13 h OR drop_bit 19 h) AND rb_lane_mask f
      in (h * 5 + rb_add f) AND rb_lane_mask f)"

definition bloom_hashes :: "rolling_bloom \<Rightarrow> bytes \<Rightarrow> int" where
  "bloom_hashes f key =
     (let lane_mask = rb_lane_mask f;
          size = int (length key);
          body = nat (size AND NOT 3);
          h = fold (mix_block f) (le_blocks (take body key)) (rb_seeds f);
          h = (if size AND 3 \<noteq> 0 then h XOR (scramble (le_int (drop body key)) * rb_lanes f) else h);
          h = h XOR ((size AND mask32) * rb_lanes f);
          h = (h XOR drop_bit 16 h) AND lane_mask;
          h = (h * 0x85EBCA6B) AND lane_mask;
          h = (h XOR drop_bit 13 h) AND lane_mask;
          h = (h * 0xC2B2AE35) AND lane_mask
      in (h XOR drop_bit 16 h) AND lane_mask)"

definition unpack_lanes :: "int \<Rightarrow> int \<Rightarrow> int list option" where
  \<comment> \<open>\<open>to_bytes(n_bytes, "little")\<close>, then the low four octets of every lane\<close>
  "unpack_lanes n_bytes x =
     (if 0 \<le> x \<and> x < 2 ^ nat (8 * n_bytes)
      then Some (map (\<lambda>k. take_bit 32 (drop_bit (64 * k) x)) [0..<nat (n_bytes div 8)]) else None)"

definition bloom_positions :: "rolling_bloom \<Rightarrow> bytes \<Rightarrow> (int \<times> int) list option" where
  "bloom_positions f key =
     do {
       let h = bloom_hashes f key;
       index \<leftarrow> unpack_lanes (rb_lane_bytes f) (drop_bit 33 (h * rb_size f) AND rb_index_mask f);
       bits \<leftarrow> unpack_lanes (rb_lane_bytes f) (h AND rb_bit_mask f);
       Some (zip index bits)
     }"

section \<open>Insertion and query\<close>

definition array_set :: "int list \<Rightarrow> int \<Rightarrow> int \<Rightarrow> int list option" where
  \<comment> \<open>\<open>words[index] = v\<close> of an \<open>array("Q")\<close>, for an index that is not negative\<close>
  "array_set words index v =
     (if 0 \<le> index \<and> index < int (length words) \<and> 0 \<le> v \<and> v < 2 ^ 64 then Some (words[nat index := v]) else None)"

definition words_of :: "int \<Rightarrow> int \<Rightarrow> int list option" where
  \<comment> \<open>\<open>to_bytes(8 * words)\<close>, written back over an array of \<open>words\<close> words\<close>
  "words_of words x =
     (if 0 \<le> x \<and> x < 2 ^ nat (64 * words) then Some (map (\<lambda>k. take_bit 64 (drop_bit (64 * k) x)) [0..<nat words]) else None)"

definition plane_int :: "int list \<Rightarrow> int" where
  \<comment> \<open>\<open>int.from_bytes(words, sys.byteorder)\<close>\<close>
  "plane_int words = lane_sum (\<lambda>k. words ! k) (length words)"

definition next_generation :: "int list \<times> int list \<Rightarrow> rolling_bloom \<Rightarrow> (rolling_bloom \<times> int list \<times> int list) option" where
  "next_generation planes f =
     do {
       let g = rb_generation f mod 3 + 1;
       let lo = plane_int (fst planes);
       let hi = plane_int (snd planes);
       let keep = (lo XOR - (g AND 1)) OR (hi XOR - drop_bit 1 g);
       lo_words \<leftarrow> words_of (rb_words f) (lo AND keep);
       hi_words \<leftarrow> words_of (rb_words f) (hi AND keep);
       Some (f\<lparr> rb_this_generation := 0, rb_generation := g \<rparr>, lo_words, hi_words)
     }"

definition set_cell :: "int \<Rightarrow> int \<times> int \<Rightarrow> int list \<times> int list \<Rightarrow> (int list \<times> int list) option" where
  "set_cell g pos planes =
     (case (pos, planes) of ((index, b), (lo, hi)) \<Rightarrow>
       do {
         let clear = NOT (push_bit (nat b) 1);
         lo_word \<leftarrow> py_nth lo index;
         lo' \<leftarrow> array_set lo index ((lo_word AND clear) OR push_bit (nat b) (g AND 1));
         hi_word \<leftarrow> py_nth hi index;
         hi' \<leftarrow> array_set hi index ((hi_word AND clear) OR push_bit (nat b) (drop_bit 1 g));
         Some (lo', hi')
       })"

definition bloom_add :: "bytes \<Rightarrow> rolling_bloom \<Rightarrow> rolling_bloom option" where
  "bloom_add key f =
     do {
       let planes = (case rb_planes f of
                       None \<Rightarrow> (replicate (nat (rb_words f)) 0, replicate (nat (rb_words f)) 0)
                     | Some planes \<Rightarrow> planes);
       (f1, planes1) \<leftarrow> (if rb_this_generation f = rb_per_generation f then next_generation planes f else Some (f, planes));
       let f2 = f1\<lparr> rb_this_generation := rb_this_generation f1 + 1 \<rparr>;
       positions \<leftarrow> bloom_positions f2 key;
       planes2 \<leftarrow> fold_opt (set_cell (rb_generation f2)) positions planes1;
       Some (f2\<lparr> rb_planes := Some planes2 \<rparr>)
     }"

fun all_set :: "int list \<times> int list \<Rightarrow> (int \<times> int) list \<Rightarrow> bool option" where
  "all_set planes [] = Some True"
| "all_set planes ((index, b) # ps) =
     do {
       lo_word \<leftarrow> py_nth (fst planes) index;
       hi_word \<leftarrow> py_nth (snd planes) index;
       if drop_bit (nat b) (lo_word OR hi_word) AND 1 \<noteq> 0 then all_set planes ps else Some False
     }"

definition bloom_contains :: "bytes \<Rightarrow> rolling_bloom \<Rightarrow> bool option" where
  "bloom_contains key f =
     (case rb_planes f of
        None \<Rightarrow> Some False
      | Some planes \<Rightarrow> do { positions \<leftarrow> bloom_positions f key; all_set planes positions })"

end
