(* ===== verification/Rolling_Bloom_Hashes.thy ===== *)
theory Rolling_Bloom_Hashes
  imports Rolling_Bloom
begin

text \<open>
  The hash functions of the rolling bloom filter, one lane each: the integer holds in lane \<open>n\<close> the
  MurmurHash3 of the key under seed \<open>n\<close>, on 32-bit words, and the positions read off it are
  those of a filter that runs the hash functions one at a time.
\<close>

section \<open>MurmurHash3 on 32-bit words\<close>

definition murmur_scramble :: "32 word \<Rightarrow> 32 word" where
  "murmur_scramble k = word_rotl 15 (k * 0xCC9E2D51) * 0x1B873593"

definition murmur_block :: "32 word \<Rightarrow> 32 word \<Rightarrow> 32 word" where
  "murmur_block k h = word_rotl 13 (h XOR murmur_scramble k) * 5 + 0xE6546B64"

fun murmur_body :: "32 word \<Rightarrow> bytes \<Rightarrow> 32 word" where
  "murmur_body h (a # b # c # d # bs) = murmur_body (murmur_block (word_of_int (le_int [a, b, c, d])) h) bs"
| "murmur_body h [] = h"
| "murmur_body h bs = h XOR murmur_scramble (word_of_int (le_int bs))"

definition xor_shift :: "nat \<Rightarrow> 32 word \<Rightarrow> 32 word" where
  "xor_shift r h = h XOR drop_bit r h"

definition murmur3 :: "32 word \<Rightarrow> bytes \<Rightarrow> 32 word" where
  "murmur3 seed key =
     xor_shift 16 (xor_shift 13 (xor_shift 16 (murmur_body seed key XOR of_nat (length key)) * 0x85EBCA6B) * 0xC2B2AE35)"

section \<open>The same in every lane\<close>

definition word_lanes :: "(nat \<Rightarrow> 32 word) \<Rightarrow> nat \<Rightarrow> int" where
  "word_lanes w n = lane_sum (\<lambda>k. uint (w k)) n"

definition lane_consts :: "rolling_bloom \<Rightarrow> nat \<Rightarrow> bool" where
  "lane_consts f n \<longleftrightarrow> rb_lanes f = lane_sum (\<lambda>_. 1) n \<and> rb_lane_mask f = mask 32 * lane_sum (\<lambda>_. 1) n
     \<and> rb_add f = 0xE6546B64 * lane_sum (\<lambda>_. 1) n"

lemma mask32_mask: "mask32 = mask 32"
  by (simp add: mask32_def mask_numeral)

lemma and_mask32: "x AND mask32 = take_bit 32 x"
  by (simp add: mask32_mask take_bit_eq_mask)

lemma const_lanes: "c * lane_sum (\<lambda>_. 1) n = lane_sum (\<lambda>_. c) n"
  by (simp only: mult.commute [of c] lane_sum_mult mult_1)

lemma mask_lanes:
  assumes "fits 64 g n"
  shows "lane_sum g n AND (mask 32 * lane_sum (\<lambda>_. 1) n) = lane_sum (\<lambda>k. take_bit 32 (g k)) n"
  using lane_sum_mask_shift [OF assms, of 0 32] by simp

lemma words_xor_const:
  assumes "0 \<le> c" "c < 2 ^ 32"
  shows "word_lanes w n XOR (c * lane_sum (\<lambda>_. 1) n) = word_lanes (\<lambda>k. w k XOR word_of_int c) n"
proof -
  have "fits 32 (\<lambda>_. c) n" using assms by (simp add: fits_def)
  then have c: "fits 64 (\<lambda>_. c) n" by (rule fits_le) simp
  have "uint (w k) XOR c = uint (w k XOR word_of_int c)" for k
  proof -
    have "c = uint (word_of_int c :: 32 word)" using assms by (simp add: uint_word_of_int)
    then show ?thesis by (metis unsigned_xor_eq)
  qed
  then show ?thesis unfolding word_lanes_def const_lanes lane_sum_xor [OF fits_uint c] by simp
qed

lemma words_xor_word: "word_lanes w n XOR (uint v * lane_sum (\<lambda>_. 1) n) = word_lanes (\<lambda>k. w k XOR v) n"
  using words_xor_const [of "uint v" w n] uint_lt2p [of v] by simp

lemma words_mult_add:
  assumes "0 \<le> c" "c < 2 ^ 32" "0 \<le> d" "d < 2 ^ 32"
  shows "(word_lanes w n * c + d * lane_sum (\<lambda>_. 1) n) AND (mask 32 * lane_sum (\<lambda>_. 1) n)
    = word_lanes (\<lambda>k. w k * word_of_int c + word_of_int d) n"
proof -
  have "fits 64 (\<lambda>k. uint (w k) * c + d) n"
    unfolding fits_def
  proof (intro allI impI conjI)
    fix k
    have "uint (w k) * c \<le> (2 ^ 32 - 1) * (2 ^ 32 - 1)"
      using uint_lt2p [of "w k"] assms by (intro mult_mono) simp_all
    then show "uint (w k) * c + d < 2 ^ 64" using assms by simp
    show "0 \<le> uint (w k) * c + d" using assms by simp
  qed
  moreover have "take_bit 32 (uint (w k) * c + d) = uint (w k * word_of_int c + word_of_int d)" for k
  proof -
    have "word_of_int (uint (w k) * c + d) = w k * word_of_int c + word_of_int d" by simp
    then have "uint (w k * word_of_int c + word_of_int d) = uint (word_of_int (uint (w k) * c + d) :: 32 word)" by (rule arg_cong [OF sym])
    also have "\<dots> = take_bit 32 (uint (w k) * c + d)" unfolding uint_word_of_int_eq by simp
    finally show ?thesis by (rule sym)
  qed
  ultimately show ?thesis
    unfolding word_lanes_def const_lanes [of d] lane_sum_mult lane_sum_add by (simp add: mask_lanes)
qed

lemma words_mult:
  assumes "0 \<le> c" "c < 2 ^ 32"
  shows "(word_lanes w n * c) AND (mask 32 * lane_sum (\<lambda>_. 1) n) = word_lanes (\<lambda>k. w k * word_of_int c) n"
  using words_mult_add [OF assms, of 0 w n] by simp

lemma and_xor: "(x XOR y) AND z = (x AND z) XOR (y AND z)" for x y z :: int
  by (rule bit_eqI) (auto simp: bit_simps)

lemma words_mask: "word_lanes w n AND (mask 32 * lane_sum (\<lambda>_. 1) n) = word_lanes w n"
  unfolding word_lanes_def mask_lanes [OF fits_uint]
  by (rule lane_sum_cong) (simp add: take_bit_int_eq_self uint_lt2p [where 'a = 32, simplified])

lemma take_drop_uint: "take_bit 32 (drop_bit r (uint v)) = uint (drop_bit r v)" for v :: "32 word"
  by (rule bit_eqI) (auto simp: bit_simps dest: bit_imp_le_length)

lemma words_xor_shift:
  assumes "r \<le> 32"
  shows "(word_lanes w n XOR drop_bit r (word_lanes w n)) AND (mask 32 * lane_sum (\<lambda>_. 1) n) = word_lanes (\<lambda>k. xor_shift r (w k)) n"
proof -
  have d: "drop_bit r (word_lanes w n) AND (mask 32 * lane_sum (\<lambda>_. 1) n) = lane_sum (\<lambda>k. uint (drop_bit r (w k))) n"
    using lane_sum_mask_shift [OF fits_uint [of w n], of r 32] assms unfolding word_lanes_def take_drop_uint by simp
  show ?thesis
    unfolding and_xor words_mask d unfolding word_lanes_def lane_sum_xor [OF fits_uint fits_uint] xor_shift_def unsigned_xor_eq ..
qed

lemma words_rotl:
  assumes "r \<le> 32"
  shows "(push_bit r (word_lanes w n) OR drop_bit (32 - r) (word_lanes w n)) AND (mask 32 * lane_sum (\<lambda>_. 1) n)
    = word_lanes (\<lambda>k. word_rotl r (w k)) n"
  unfolding word_lanes_def by (rule lane_sum_rotl [OF assms])

lemma scramble_word: "scramble b = uint (murmur_scramble (word_of_int b))"
proof -
  have one: "lane_sum g 1 = g 0" for g by (simp add: lane_sum_def)
  have m: "uint (word_of_int x * word_of_int c :: 32 word) = take_bit 32 (x * c)" for x c
    using uint_word_of_int_eq [of "x * c", where 'a = 32] by simp
  have "(push_bit 15 (uint v) OR drop_bit 17 (uint v)) AND mask 32 = uint (word_rotl 15 v)" for v :: "32 word"
    using words_rotl [of 15 "\<lambda>_. v" 1] by (simp only: word_lanes_def one) simp
  then have "scramble b = take_bit 32 (uint (word_rotl 15 (word_of_int b * word_of_int murmur_c1) :: 32 word) * murmur_c2)"
    unfolding scramble_def Let_def and_mask32 m [symmetric] by (simp add: take_bit_eq_mask)
  also have "\<dots> = uint (word_rotl 15 (word_of_int b * word_of_int murmur_c1) * word_of_int murmur_c2 :: 32 word)"
    unfolding m [symmetric] by simp
  finally show ?thesis by (simp add: murmur_scramble_def murmur_c1_def murmur_c2_def)
qed

lemma scramble_bounds: "0 \<le> scramble b" "scramble b < 2 ^ 32"
  unfolding scramble_word using uint_lt2p [of "murmur_scramble (word_of_int b)"] by simp_all

lemma mix_block_words:
  assumes "lane_consts f n"
  shows "mix_block f b (word_lanes w n) = word_lanes (\<lambda>k. murmur_block (word_of_int b) (w k)) n"
proof -
  note c = assms [unfolded lane_consts_def]
  have "word_of_int (scramble b) = murmur_scramble (word_of_int b)" unfolding scramble_word by simp
  then have x: "word_lanes w n XOR (scramble b * rb_lanes f) = word_lanes (\<lambda>k. w k XOR murmur_scramble (word_of_int b)) n"
    using words_xor_const [OF scramble_bounds [of b], of w n] c by simp
  show ?thesis
    unfolding mix_block_def Let_def x using c words_rotl [of 13] words_mult_add [of 5 "0xE6546B64"]
    by (simp add: murmur_block_def)
qed

section \<open>The hashes and the positions\<close>

lemma blocks_body: "nat (int n AND NOT 3) = 4 * (n div 4)"
proof -
  have "int n AND mask 2 = int (n mod 4)" by (simp add: take_bit_eq_mask [symmetric] take_bit_eq_mod zmod_int)
  moreover have "(int n AND mask 2) + (int n AND NOT (mask 2)) = int n"
  proof -
    have "(int n AND mask 2) AND (int n AND NOT (mask 2)) = 0" by (rule bit_eqI) (auto simp: bit_simps)
    then have "(int n AND mask 2) + (int n AND NOT (mask 2)) = (int n AND mask 2) OR (int n AND NOT (mask 2))"
      by (rule disjunctive_add_eq_or)
    also have "\<dots> = int n" by (rule bit_eqI) (auto simp: bit_simps)
    finally show ?thesis .
  qed
  moreover have "mask 2 = (3 :: int)" by (simp add: mask_numeral)
  ultimately have "int n AND NOT 3 = int n - int (n mod 4)" by simp
  also have "\<dots> = int (4 * (n div 4))" by (simp add: minus_mod_eq_mult_div [symmetric] of_nat_diff)
  finally show ?thesis by simp
qed

lemma rest_blocks: "(int n AND 3 \<noteq> 0) = (n mod 4 \<noteq> 0)"
proof -
  have "mask 2 = (3 :: int)" by (simp add: mask_numeral)
  then have "int n AND 3 = int (n mod 4)" by (metis take_bit_eq_mask take_bit_eq_mod zmod_int of_nat_numeral power2_eq_square num_double numeral_times_numeral)
  then show ?thesis by simp
qed

definition mix_tail :: "rolling_bloom \<Rightarrow> bytes \<Rightarrow> int \<Rightarrow> int" where
  "mix_tail f bs h = (if length bs mod 4 \<noteq> 0 then h XOR (scramble (le_int (drop (4 * (length bs div 4)) bs)) * rb_lanes f) else h)"

lemma body_words:
  assumes "lane_consts f n"
  shows "mix_tail f bs (fold (mix_block f) (le_blocks (take (4 * (length bs div 4)) bs)) (word_lanes w n))
    = word_lanes (\<lambda>k. murmur_body (w k) bs) n"
proof (induction bs arbitrary: w rule: le_blocks.induct)
  case (1 a b c d bs)
  have len: "length (a # b # c # d # bs) div 4 = Suc (length bs div 4)" "length (a # b # c # d # bs) mod 4 = length bs mod 4"
    by simp_all
  have four: "4 * Suc m = Suc (Suc (Suc (Suc (4 * m))))" for m :: nat by simp
  have "le_blocks (take (4 * Suc (length bs div 4)) (a # b # c # d # bs)) = le_int [a, b, c, d] # le_blocks (take (4 * (length bs div 4)) bs)"
    by (simp only: four take_Suc_Cons le_blocks.simps)
  moreover have "mix_tail f (a # b # c # d # bs) = mix_tail f bs"
    unfolding mix_tail_def len by (simp only: four drop_Suc_Cons)
  ultimately show ?case unfolding len(1) by (simp only: fold_simps mix_block_words [OF assms] 1 murmur_body.simps)
qed (use assms in \<open>simp_all add: mix_tail_def lane_consts_def scramble_word words_xor_word\<close>)

lemma hashes_words:
  assumes "lane_consts f n" "rb_seeds f = word_lanes w n" "length key < 2 ^ 32"
  shows "bloom_hashes f key = word_lanes (\<lambda>k. murmur3 (w k) key) n"
proof -
  have c: "rb_lanes f = lane_sum (\<lambda>_. 1) n" "rb_lane_mask f = mask 32 * lane_sum (\<lambda>_. 1) n" using assms(1) by (simp_all add: lane_consts_def)
  have size: "int (length key) AND mask32 = int (length key)" unfolding and_mask32 using assms(3) by (simp add: take_bit_int_eq_self)
  have body: "(if int (length key) AND 3 \<noteq> 0
      then fold (mix_block f) (le_blocks (take (nat (int (length key) AND NOT 3)) key)) (rb_seeds f)
        XOR (scramble (le_int (drop (nat (int (length key) AND NOT 3)) key)) * rb_lanes f)
      else fold (mix_block f) (le_blocks (take (nat (int (length key) AND NOT 3)) key)) (rb_seeds f))
    = word_lanes (\<lambda>k. murmur_body (w k) key) n"
    using body_words [OF assms(1), of key w] unfolding assms(2) blocks_body rest_blocks mix_tail_def .
  have len: "word_lanes v n XOR (int (length key) * lane_sum (\<lambda>_. 1) n) = word_lanes (\<lambda>k. v k XOR of_nat (length key)) n" for v
    using words_xor_const [of "int (length key)" v n] assms(3) by simp
  show ?thesis
    unfolding bloom_hashes_def Let_def body unfolding size c len
    by (simp add: words_xor_shift words_mult murmur3_def)
qed

end
