(* ===== verification/Rolling_Bloom_Cells.thy ===== *)
theory Rolling_Bloom_Cells
  imports Rolling_Bloom_Hashes
begin

text \<open>
  The cells of the rolling bloom filter: two bits, one in each plane, that hold the number of the
  generation that set them last.  The lemmas say what setting a cell, starting a generation and a
  query do to the cells, and that none of them raises on positions the filter computes.
\<close>

section \<open>Positions\<close>

definition fast_range :: "int \<Rightarrow> int \<Rightarrow> int" where
  "fast_range m h = h * m div 2 ^ 32"

lemma fast_range_bounds:
  assumes "0 \<le> h" "h < 2 ^ 32" "0 < m"
  shows "0 \<le> fast_range m h" "fast_range m h < m"
proof -
  have "h * m < 2 ^ 32 * m" using assms by (intro mult_strict_right_mono)
  then have "h * m < m * 2 ^ 32" by (simp only: mult.commute)
  then show "fast_range m h < m" unfolding fast_range_def by (simp add: div_less_iff_less_mult)
  have "0 \<le> h * m" using assms by simp
  then show "0 \<le> fast_range m h" unfolding fast_range_def by (simp add: pos_imp_zdiv_nonneg_iff)
qed

lemma uint32: "0 \<le> uint v" "uint v < 2 ^ 32" for v :: "32 word"
  using uint_lt2p [of v] by simp_all

definition cells_of :: "(nat \<Rightarrow> 32 word) \<Rightarrow> nat \<Rightarrow> int \<Rightarrow> bytes \<Rightarrow> (int \<times> int) list" where
  \<comment> \<open>the word and the bit each hash function picks, one at a time: Core's \<open>FastRange32\<close>\<close>
  "cells_of w n m key =
     map (\<lambda>k. let h = uint (murmur3 (w k) key) in (fast_range m h div 2, h mod 64)) [0..<n]"

definition bloom_ok :: "(nat \<Rightarrow> 32 word) \<Rightarrow> nat \<Rightarrow> nat \<Rightarrow> rolling_bloom \<Rightarrow> bool" where
  "bloom_ok w n words f \<longleftrightarrow> lane_consts f n \<and> rb_seeds f = word_lanes w n \<and> rb_index_mask f = mask 31 * lane_sum (\<lambda>_. 1) n
     \<and> rb_bit_mask f = 63 * lane_sum (\<lambda>_. 1) n \<and> rb_lane_bytes f = 8 * int n \<and> rb_words f = int words
     \<and> rb_size f = 2 * int words \<and> 0 < words \<and> 2 * int words \<le> 2 ^ 32 \<and> 0 < n"

lemma unpack_words:
  assumes "fits 32 g n"
  shows "unpack_lanes (8 * int n) (lane_sum g n) = Some (map g [0..<n])"
proof -
  have g: "fits 64 g n" using assms by (rule fits_le) simp
  have n: "nat (8 * (8 * int n)) = 64 * n" "nat (8 * int n div 8) = n" by simp_all
  have "map (\<lambda>k. take_bit 32 (drop_bit (64 * k) (lane_sum g n))) [0..<n] = map g [0..<n]"
  proof (rule map_cong [OF refl])
    fix k
    assume "k \<in> set [0..<n]"
    then have k: "k < n" by simp
    have "take_bit 32 (g k) = g k" using fitsD [OF assms k] by (simp add: take_bit_int_eq_self)
    then show "take_bit 32 (drop_bit (64 * k) (lane_sum g n)) = g k" using lane_get [OF g k, of 32] by simp
  qed
  moreover have "0 \<le> lane_sum g n" "lane_sum g n < 2 ^ (64 * n)" using lane_sum_bounds [OF g] by blast+
  ultimately show ?thesis unfolding unpack_lanes_def n by simp
qed

lemma positions_words:
  assumes ok: "bloom_ok w n words f" and key: "length key < 2 ^ 32"
  shows "bloom_positions f key = Some (cells_of w n (2 * int words) key)"
proof -
  let ?h = "\<lambda>k. uint (murmur3 (w k) key)" and ?m = "2 * int words"
  note c = ok [unfolded bloom_ok_def]
  have h: "bloom_hashes f key = lane_sum ?h n" using hashes_words [of f n w key] c key by (simp add: word_lanes_def)
  have m: "0 < ?m" "?m \<le> 2 ^ 32" using c by simp_all
  have q: "0 \<le> fast_range ?m (?h k)" "fast_range ?m (?h k) < 2 ^ 32" for k
    using fast_range_bounds [OF uint32 m(1), of "murmur3 (w k) key"] m(2) by (simp_all add: order_less_le_trans)
  have prod: "?h k * ?m \<le> (2 ^ 32 - 1) * 2 ^ 32" for k using uint32(2) [of "murmur3 (w k) key"] m by (intro mult_mono) simp_all
  have "fits 64 (\<lambda>k. ?h k * ?m) n" unfolding fits_def
  proof (intro allI impI conjI)
    show "?h k * ?m < 2 ^ 64" for k using prod [of k] by simp
  qed simp
  from lane_sum_mask_shift [OF this, of 33 31]
  have "drop_bit 33 (lane_sum ?h n * ?m) AND (mask 31 * lane_sum (\<lambda>_. 1) n)
      = lane_sum (\<lambda>k. take_bit 31 (drop_bit 33 (?h k * ?m))) n" by (simp add: lane_sum_mult)
  moreover have "take_bit 31 (drop_bit 33 (?h k * ?m)) = fast_range ?m (?h k) div 2" for k
  proof -
    have eq: "drop_bit 33 (?h k * ?m) = fast_range ?m (?h k) div 2"
      unfolding fast_range_def drop_bit_eq_div zdiv_zmult2_eq [symmetric, of 2] by simp
    have "fast_range ?m (?h k) div 2 < 2 ^ 31" using q(2) [of k] by (simp add: div_less_iff_less_mult)
    moreover have "0 \<le> fast_range ?m (?h k) div 2" using q(1) [of k] by simp
    ultimately show ?thesis unfolding eq by (simp add: take_bit_int_eq_self)
  qed
  ultimately have i: "drop_bit 33 (bloom_hashes f key * rb_size f) AND rb_index_mask f
      = lane_sum (\<lambda>k. fast_range ?m (?h k) div 2) n" using c h by simp
  have "lane_sum ?h n AND (mask 6 * lane_sum (\<lambda>_. 1) n) = lane_sum (\<lambda>k. take_bit 6 (?h k)) n"
    using lane_sum_mask_shift [OF fits_uint, of 0 6] by simp
  then have b: "bloom_hashes f key AND rb_bit_mask f = lane_sum (\<lambda>k. ?h k mod 64) n"
    using c h by (simp add: mask_numeral take_bit_eq_mod)
  have "?h k mod 64 < 2 ^ 32" for k using pos_mod_bound [of 64 "?h k"] by simp
  then have fb: "fits 32 (\<lambda>k. ?h k mod 64) n" unfolding fits_def using pos_mod_sign [of 64] by simp
  have fi: "fits 32 (\<lambda>k. fast_range ?m (?h k) div 2) n" unfolding fits_def
  proof (intro allI impI conjI)
    fix k
    show "0 \<le> fast_range ?m (?h k) div 2" using q(1) [of k] by simp
    show "fast_range ?m (?h k) div 2 < 2 ^ 32" using q(2) [of k] by (simp add: div_less_iff_less_mult)
  qed
  have lb: "rb_lane_bytes f = 8 * int n" using c by simp
  show ?thesis
    unfolding bloom_positions_def Let_def i b lb unpack_words [OF fi] unpack_words [OF fb]
    by (simp add: cells_of_def Let_def zip_map_map zip_same_conv_map)
qed

definition cell_pos :: "nat \<Rightarrow> int \<times> int \<Rightarrow> bool" where
  "cell_pos words p \<longleftrightarrow> 0 \<le> fst p \<and> fst p < int words \<and> 0 \<le> snd p \<and> snd p < 64"

lemma cells_of_pos:
  assumes p: "p \<in> set (cells_of w n (2 * int words) key)" and words: "0 < words"
  shows "cell_pos words p"
proof -
  from p obtain k where k: "p = (fast_range (2 * int words) (uint (murmur3 (w k) key)) div 2, uint (murmur3 (w k) key) mod 64)"
    unfolding cells_of_def Let_def set_map by blast
  have m: "0 < 2 * int words" using words by simp
  show ?thesis
    using fast_range_bounds [OF uint32 m, of "murmur3 (w k) key"] unfolding k cell_pos_def by (simp add: div_less_iff_less_mult)
qed

section \<open>Cells\<close>

definition planes_ok :: "nat \<Rightarrow> int list \<times> int list \<Rightarrow> bool" where
  "planes_ok words planes \<longleftrightarrow> length (fst planes) = words \<and> length (snd planes) = words
     \<and> fits 64 (\<lambda>k. fst planes ! k) words \<and> fits 64 (\<lambda>k. snd planes ! k) words"

definition cell_bits :: "int list \<times> int list \<Rightarrow> int \<times> int \<Rightarrow> bool \<times> bool" where
  "cell_bits planes p = (bit (fst planes ! nat (fst p)) (nat (snd p)), bit (snd planes ! nat (fst p)) (nat (snd p)))"

definition cell :: "int list \<times> int list \<Rightarrow> int \<times> int \<Rightarrow> int" where
  "cell planes p = of_bool (fst (cell_bits planes p)) + 2 * of_bool (snd (cell_bits planes p))"

lemma bit_put:
  fixes x :: int
  assumes "c = 0 \<or> c = 1"
  shows "bit ((x AND NOT (push_bit b 1)) OR push_bit b c) i \<longleftrightarrow> (if i = b then c = 1 else bit x i)"
  using assms by (auto simp: bit_simps bit_1_iff)

lemma bit_fits:
  fixes x :: int
  assumes "0 \<le> x" "\<And>i. b \<le> i \<Longrightarrow> \<not> bit x i"
  shows "x < 2 ^ b"
proof -
  have "take_bit b x = x"
  proof (rule bit_eqI)
    fix i
    show "bit (take_bit b x) i \<longleftrightarrow> bit x i" using assms(2) [of i] by (cases "b \<le> i") (simp_all add: bit_take_bit_iff)
  qed
  then show ?thesis by (metis take_bit_int_less_exp)
qed

lemma put_fits:
  fixes x :: int
  assumes "0 \<le> x" "x < 2 ^ 64" "c = 0 \<or> c = 1" "b < 64"
  shows "0 \<le> (x AND NOT (push_bit b 1)) OR push_bit b c" "(x AND NOT (push_bit b 1)) OR push_bit b c < 2 ^ 64"
proof -
  show nn: "0 \<le> (x AND NOT (push_bit b 1)) OR push_bit b c" using assms(1,3) by auto
  have "\<not> bit ((x AND NOT (push_bit b 1)) OR push_bit b c) i" if "64 \<le> i" for i
    unfolding bit_put [OF assms(3)] using that assms(4) high_bits [OF assms(1,2), of i] by simp
  from bit_fits [OF nn this] show "(x AND NOT (push_bit b 1)) OR push_bit b c < 2 ^ 64" .
qed

definition gen_num :: "int \<Rightarrow> bool" where
  "gen_num g \<longleftrightarrow> g = 1 \<or> g = 2 \<or> g = 3"

lemma gen_bits:
  assumes "gen_num g"
  shows "g AND 1 = of_bool (g \<noteq> 2)" "drop_bit 1 g = of_bool (g \<noteq> 1)"
  using assms by (auto simp: gen_num_def drop_bit_eq_div and_one_eq)

lemma plane_put:
  assumes "fits 64 (\<lambda>k. xs ! k) words" "length xs = words" "i < words" "0 \<le> v" "v < 2 ^ 64"
  shows "fits 64 (\<lambda>k. xs[i := v] ! k) words" "length (xs[i := v]) = words"
  using assms by (auto simp: fits_def nth_list_update)

lemma set_cell_spec:
  assumes pl: "planes_ok words planes" and p: "cell_pos words p" and g: "gen_num g"
  shows "\<exists>planes'. set_cell g p planes = Some planes' \<and> planes_ok words planes'
    \<and> (\<forall>q. cell_pos words q \<longrightarrow> cell planes' q = (if q = p then g else cell planes q))"
proof -
  obtain index b where pb: "p = (index, b)" by (cases p)
  obtain lo hi where lh: "planes = (lo, hi)" by (cases planes)
  let ?i = "nat index" and ?b = "nat b"
  have i: "0 \<le> index" "?i < words" "?b < 64" and len: "length lo = words" "length hi = words"
    and f: "fits 64 (\<lambda>k. lo ! k) words" "fits 64 (\<lambda>k. hi ! k) words"
    using pl p by (auto simp: pb lh planes_ok_def cell_pos_def)
  let ?put = "\<lambda>x c. (x AND NOT (push_bit ?b 1)) OR push_bit ?b c"
  have c: "(of_bool (g \<noteq> 2) :: int) = 0 \<or> (of_bool (g \<noteq> 2) :: int) = 1" "(of_bool (g \<noteq> 1) :: int) = 0 \<or> (of_bool (g \<noteq> 1) :: int) = 1" by auto
  let ?lo = "lo[?i := ?put (lo ! ?i) (of_bool (g \<noteq> 2))]" and ?hi = "hi[?i := ?put (hi ! ?i) (of_bool (g \<noteq> 1))]"
  have fl: "0 \<le> ?put (lo ! ?i) (of_bool (g \<noteq> 2))" "?put (lo ! ?i) (of_bool (g \<noteq> 2)) < 2 ^ 64"
    by (rule put_fits [OF fitsD [OF f(1) i(2)] c(1) i(3)])+
  have fh: "0 \<le> ?put (hi ! ?i) (of_bool (g \<noteq> 1))" "?put (hi ! ?i) (of_bool (g \<noteq> 1)) < 2 ^ 64"
    by (rule put_fits [OF fitsD [OF f(2) i(2)] c(2) i(3)])+
  have in_range: "index < int words" using i(1,2) by simp
  have nth: "py_nth lo index = Some (lo ! ?i)" "py_nth hi index = Some (hi ! ?i)"
    using i(1) in_range len by (simp_all add: py_simps)
  have set_lo: "array_set lo index (?put (lo ! ?i) (of_bool (g \<noteq> 2))) = Some ?lo"
    unfolding array_set_def using i(1) in_range len fl by simp
  have set_hi: "array_set hi index (?put (hi ! ?i) (of_bool (g \<noteq> 1))) = Some ?hi"
    unfolding array_set_def using i(1) in_range len fh by simp
  have "set_cell g p planes = Some (?lo, ?hi)"
    unfolding set_cell_def pb lh gen_bits [OF g] prod.case Let_def nth Option.bind.bind_lunit set_lo set_hi ..
  moreover have "planes_ok words (?lo, ?hi)"
    using plane_put [OF f(1) len(1) i(2) fl] plane_put [OF f(2) len(2) i(2) fh] by (simp add: planes_ok_def)
  moreover have "cell (?lo, ?hi) q = (if q = p then g else cell planes q)" if q: "cell_pos words q" for q
  proof (cases "nat (fst q) = ?i")
    case True
    have fq: "fst q = index" using True q i(1) in_range by (auto simp: cell_pos_def)
    have same: "q = p \<longleftrightarrow> nat (snd q) = ?b" using q p fq by (auto simp: cell_pos_def pb prod_eq_iff)
    show ?thesis
      unfolding cell_def cell_bits_def fst_conv snd_conv True nth_list_update_eq [OF i(2) [folded len(1)]] nth_list_update_eq [OF i(2) [folded len(2)]]
        bit_put [OF c(1)] bit_put [OF c(2)] same lh
      using g by (auto simp: gen_num_def)
  next
    case False
    then show ?thesis unfolding cell_def cell_bits_def lh using pb by (auto simp: nth_list_update)
  qed
  ultimately show ?thesis by blast
qed

lemma set_cells_spec:
  assumes "planes_ok words planes" "\<forall>p\<in>set ps. cell_pos words p" "gen_num g"
  shows "\<exists>planes'. fold_opt (set_cell g) ps planes = Some planes' \<and> planes_ok words planes'
    \<and> (\<forall>q. cell_pos words q \<longrightarrow> cell planes' q = (if q \<in> set ps then g else cell planes q))"
  using assms
proof (induction ps arbitrary: planes)
  case (Cons p ps)
  obtain pl1 where pl1: "set_cell g p planes = Some pl1" "planes_ok words pl1"
    "\<forall>q. cell_pos words q \<longrightarrow> cell pl1 q = (if q = p then g else cell planes q)"
    using set_cell_spec [OF Cons.prems(1) _ Cons.prems(3)] Cons.prems(2) by (metis list.set_intros(1))
  obtain pl2 where "fold_opt (set_cell g) ps pl1 = Some pl2" "planes_ok words pl2"
    "\<forall>q. cell_pos words q \<longrightarrow> cell pl2 q = (if q \<in> set ps then g else cell pl1 q)"
    using Cons.IH [OF pl1(2) _ Cons.prems(3)] Cons.prems(2) by auto
  with pl1 show ?case by auto
qed simp

section \<open>Starting a generation\<close>

lemma bit_plane:
  assumes "fits 64 (\<lambda>k. xs ! k) words" "length xs = words" "b < 64"
  shows "bit (plane_int xs) (b + 64 * k) \<longleftrightarrow> k < words \<and> bit (xs ! k) b"
  unfolding plane_int_def assms(2) bit_lane_sum [OF assms(1)] lane_at [OF assms(3)] ..

lemma words_of_masked:
  assumes f: "fits 64 (\<lambda>k. xs ! k) words" "length xs = words"
  shows "\<exists>ys. words_of (int words) (plane_int xs AND m) = Some ys \<and> length ys = words \<and> fits 64 (\<lambda>k. ys ! k) words
    \<and> (\<forall>k b. k < words \<longrightarrow> b < 64 \<longrightarrow> bit (ys ! k) b = (bit (xs ! k) b \<and> bit m (b + 64 * k)))"
proof -
  let ?x = "plane_int xs AND m"
  have pl: "0 \<le> plane_int xs" "plane_int xs < 2 ^ (64 * words)"
    using lane_sum_bounds [OF f(1)] by (simp_all add: plane_int_def f(2))
  have nn: "0 \<le> ?x" using pl(1) by simp
  have "?x < 2 ^ (64 * words)"
    by (rule bit_fits [OF nn]) (use high_bits [OF pl] in \<open>auto simp: bit_and_iff\<close>)
  moreover have n: "nat (64 * int words) = 64 * words" by simp
  ultimately have run: "words_of (int words) ?x = Some (map (\<lambda>k. take_bit 64 (drop_bit (64 * k) ?x)) [0..<words])"
    unfolding words_of_def n using nn by simp
  let ?ys = "map (\<lambda>k. take_bit 64 (drop_bit (64 * k) ?x)) [0..<words]"
  have "bit (?ys ! k) b = (bit (xs ! k) b \<and> bit m (b + 64 * k))" if "k < words" "b < 64" for k b
    using that bit_plane [OF f that(2), of k] by (simp add: bit_take_bit_iff bit_drop_bit_eq bit_and_iff add.commute)
  moreover have "fits 64 (\<lambda>k. ?ys ! k) words"
    unfolding fits_def
  proof (intro allI impI conjI)
    fix k
    assume k: "k < words"
    then have y: "?ys ! k = take_bit 64 (drop_bit (64 * k) ?x)" by simp
    show "0 \<le> ?ys ! k" unfolding y by (rule take_bit_nonnegative)
    show "?ys ! k < 2 ^ 64" unfolding y by (rule take_bit_int_less_exp)
  qed
  ultimately show ?thesis using run by (intro exI [of _ ?ys]) simp
qed

lemma bit_minus_of_bool: "bit (- (of_bool b) :: int) i = b"
  by simp

lemma next_generation_spec:
  assumes pl: "planes_ok words planes" and w: "rb_words f = int words" and g: "g = rb_generation f mod 3 + 1"
  shows "\<exists>planes'. next_generation planes f = Some (f\<lparr> rb_this_generation := 0, rb_generation := g \<rparr>, planes')
    \<and> planes_ok words planes' \<and> (\<forall>q. cell_pos words q \<longrightarrow> cell planes' q = (if cell planes q = g then 0 else cell planes q))"
proof -
  have num: "gen_num g" unfolding g gen_num_def by presburger
  let ?lo = "plane_int (fst planes)" and ?hi = "plane_int (snd planes)"
  let ?keep = "(?lo XOR - (g AND 1)) OR (?hi XOR - drop_bit 1 g)"
  have parts: "fits 64 (\<lambda>k. fst planes ! k) words" "length (fst planes) = words"
    "fits 64 (\<lambda>k. snd planes ! k) words" "length (snd planes) = words" using pl by (simp_all add: planes_ok_def)
  have keep: "bit ?keep (b + 64 * k) \<longleftrightarrow> (bit (fst planes ! k) b \<noteq> (g \<noteq> 2)) \<or> (bit (snd planes ! k) b \<noteq> (g \<noteq> 1))"
    if "k < words" "b < 64" for k b
    unfolding gen_bits [OF num] bit_or_iff bit_xor_iff bit_minus_of_bool bit_plane [OF parts(1,2) that(2)] bit_plane [OF parts(3,4) that(2)]
    using that(1) by blast
  obtain ls where ls: "words_of (int words) (?lo AND ?keep) = Some ls" "length ls = words" "fits 64 (\<lambda>k. ls ! k) words"
    "\<And>k b. k < words \<Longrightarrow> b < 64 \<Longrightarrow> bit (ls ! k) b = (bit (fst planes ! k) b \<and> bit ?keep (b + 64 * k))"
    using words_of_masked [OF parts(1,2), of ?keep] by blast
  obtain hs where hs: "words_of (int words) (?hi AND ?keep) = Some hs" "length hs = words" "fits 64 (\<lambda>k. hs ! k) words"
    "\<And>k b. k < words \<Longrightarrow> b < 64 \<Longrightarrow> bit (hs ! k) b = (bit (snd planes ! k) b \<and> bit ?keep (b + 64 * k))"
    using words_of_masked [OF parts(3,4), of ?keep] by blast
  have "next_generation planes f = Some (f\<lparr> rb_this_generation := 0, rb_generation := g \<rparr>, ls, hs)"
    unfolding next_generation_def g [symmetric] Let_def w ls(1) hs(1) Option.bind.bind_lunit ..
  moreover have "planes_ok words (ls, hs)" using ls(2,3) hs(2,3) by (simp add: planes_ok_def)
  moreover have "cell (ls, hs) q = (if cell planes q = g then 0 else cell planes q)" if q: "cell_pos words q" for q
  proof -
    have k: "nat (fst q) < words" "nat (snd q) < 64" using q by (auto simp: cell_pos_def)
    show ?thesis
      unfolding cell_def cell_bits_def fst_conv snd_conv ls(4) [OF k] hs(4) [OF k] keep [OF k]
      using num by (auto simp: gen_num_def)
  qed
  ultimately show ?thesis by blast
qed

section \<open>Queries\<close>

lemma all_set_spec:
  assumes "planes_ok words planes" "\<forall>p\<in>set ps. cell_pos words p"
  shows "all_set planes ps = Some (\<forall>p\<in>set ps. cell planes p \<noteq> 0)"
  using assms(2)
proof (induction ps)
  case (Cons p ps)
  obtain index b where p: "p = (index, b)" by (cases p)
  have i: "0 \<le> index" "nat index < words" using Cons.prems by (auto simp: p cell_pos_def)
  have len: "length (fst planes) = words" "length (snd planes) = words" using assms(1) by (simp_all add: planes_ok_def)
  have nth: "py_nth (fst planes) index = Some (fst planes ! nat index)" "py_nth (snd planes) index = Some (snd planes ! nat index)"
    using i len by (simp_all add: py_simps)
  have "drop_bit (nat b) (x OR y) AND 1 \<noteq> 0 \<longleftrightarrow> bit x (nat b) \<or> bit y (nat b)" for x y :: int
    by (simp add: and_one_eq mod2_eq_if bit_iff_odd_drop_bit even_or_iff)
  then show ?case using Cons nth by (simp add: p cell_def cell_bits_def)
qed simp

end
