(* ===== verification/Rolling_Bloom_Properties.thy ===== *)
theory Rolling_Bloom_Properties
  imports Rolling_Bloom_Cells
begin

text \<open>
  The properties of the rolling bloom filter: its positions are those of the plain hash functions,
  its answers are exactly about the keys of the last three generations, and so the latest keys
  are always found.
\<close>

section \<open>Generations\<close>

fun last_writer :: "(bytes \<Rightarrow> (int \<times> int) list) \<Rightarrow> bytes list \<Rightarrow> int \<times> int \<Rightarrow> nat option" where
  \<comment> \<open>the number of the last key that set a position, the keys being given latest first\<close>
  "last_writer pos [] p = None"
| "last_writer pos (k # ks) p = (if p \<in> set (pos k) then Some (length ks) else last_writer pos ks p)"

definition mark :: "nat \<Rightarrow> nat \<Rightarrow> nat option \<Rightarrow> int" where
  "mark pg c writer = (case writer of None \<Rightarrow> 0 | Some i \<Rightarrow> if c \<le> i div pg + 2 then int (i div pg mod 3) + 1 else 0)"

lemma last_writer_less: "last_writer pos ks p = Some i \<Longrightarrow> i < length ks"
  by (induction ks) (auto split: if_splits)

lemma mark_advance:
  assumes "\<And>i. writer = Some i \<Longrightarrow> i div pg \<le> c"
  shows "mark pg (Suc c) writer = (if mark pg c writer = int (Suc c mod 3) + 1 then 0 else mark pg c writer)"
proof (cases writer)
  case None
  then show ?thesis by (simp add: mark_def)
next
  case (Some i)
  obtain d where d: "d = i div pg" by simp
  have "d \<le> c" using assms Some by (simp add: d)
  then consider "c = d" | "c = Suc d" | "c = Suc (Suc d)" | "d + 2 < c" by linarith
  then show ?thesis
  proof cases
    case 1
    have "d mod 3 \<noteq> Suc d mod 3" by presburger
    with 1 show ?thesis by (simp add: mark_def Some flip: d)
  next
    case 2
    have "d mod 3 \<noteq> Suc (Suc d) mod 3" by presburger
    with 2 show ?thesis by (simp add: mark_def Some flip: d)
  next
    case 3
    have "d mod 3 = Suc (Suc (Suc d)) mod 3" by presburger
    with 3 show ?thesis by (simp add: mark_def Some flip: d)
  next
    case 4
    have "int (Suc c mod 3) + 1 \<noteq> 0" by linarith
    with 4 show ?thesis by (simp add: mark_def Some flip: d)
  qed
qed

definition gens_ok :: "(nat \<Rightarrow> 32 word) \<Rightarrow> nat \<Rightarrow> nat \<Rightarrow> nat \<Rightarrow> bytes list \<Rightarrow> rolling_bloom \<Rightarrow> bool" where
  "gens_ok w n words pg ks f \<longleftrightarrow> bloom_ok w n words f \<and> rb_per_generation f = int pg \<and> 0 < pg
     \<and> rb_generation f = int ((length ks - 1) div pg mod 3) + 1
     \<and> rb_this_generation f = (if ks = [] then 0 else int ((length ks - 1) mod pg) + 1)
     \<and> (case rb_planes f of None \<Rightarrow> ks = []
        | Some pl \<Rightarrow> ks \<noteq> [] \<and> planes_ok words pl
            \<and> (\<forall>q. cell_pos words q \<longrightarrow> cell pl q = mark pg ((length ks - 1) div pg) (last_writer (cells_of w n (2 * int words)) ks q)))"

lemma no_cells: "cell (replicate words 0, replicate words 0) q = 0" if "cell_pos words q"
proof -
  have "nat (fst q) < words" using that by (auto simp: cell_pos_def)
  then show ?thesis by (simp add: cell_def cell_bits_def)
qed

text \<open>The planes a key is written to: those before it, or those of a generation just begun.\<close>

lemma planes_for_next:
  assumes ok: "gens_ok w n words pg ks f"
  shows "\<exists>f1 pl1. (if rb_this_generation f = rb_per_generation f
        then next_generation (case rb_planes f of None \<Rightarrow> (replicate (nat (rb_words f)) 0, replicate (nat (rb_words f)) 0) | Some pl \<Rightarrow> pl) f
        else Some (f, case rb_planes f of None \<Rightarrow> (replicate (nat (rb_words f)) 0, replicate (nat (rb_words f)) 0) | Some pl \<Rightarrow> pl)) = Some (f1, pl1)
    \<and> planes_ok words pl1 \<and> bloom_ok w n words f1 \<and> rb_per_generation f1 = int pg
    \<and> rb_generation f1 = int (length ks div pg mod 3) + 1 \<and> rb_this_generation f1 = int (length ks mod pg)
    \<and> (\<forall>q. cell_pos words q \<longrightarrow> cell pl1 q = mark pg (length ks div pg) (last_writer (cells_of w n (2 * int words)) ks q))"
proof (cases ks)
  case Nil
  have pl: "planes_ok words (replicate words 0, replicate words 0)" by (simp add: planes_ok_def fits_def)
  have f: "rb_planes f = None" "rb_words f = int words" "rb_per_generation f = int pg" "0 < pg" "rb_generation f = 1"
    "rb_this_generation f = 0" "bloom_ok w n words f"
    using ok Nil by (auto simp: gens_ok_def bloom_ok_def split: option.splits)
  then show ?thesis using pl no_cells Nil by (intro exI [of _ f] exI [of _ "(replicate words 0, replicate words 0)"]) (simp add: mark_def)
next
  case (Cons k ks')
  let ?m = "length ks'" and ?pos = "cells_of w n (2 * int words)"
  have len: "length ks = Suc ?m" "length ks - 1 = ?m" using Cons by simp_all
  obtain pl where f: "rb_planes f = Some pl" "planes_ok words pl" "rb_words f = int words" "rb_per_generation f = int pg" "0 < pg"
    "rb_generation f = int (?m div pg mod 3) + 1" "rb_this_generation f = int (?m mod pg) + 1" "bloom_ok w n words f"
    "\<forall>q. cell_pos words q \<longrightarrow> cell pl q = mark pg (?m div pg) (last_writer ?pos ks q)"
    using ok Cons by (auto simp: gens_ok_def bloom_ok_def split: option.splits)
  show ?thesis
  proof (cases "Suc (?m mod pg) = pg")
    case True
    then have next_gen: "rb_this_generation f = rb_per_generation f" using f(4,7) by linarith
    have arith: "length ks div pg = Suc (?m div pg)" "length ks mod pg = 0" using True by (simp_all add: len(1) div_Suc mod_Suc)
    have num: "rb_generation f mod 3 + 1 = int (Suc (?m div pg) mod 3) + 1" unfolding f(6) by (simp add: of_nat_mod) presburger
    obtain pl1 where pl1: "next_generation pl f = Some (f\<lparr> rb_this_generation := 0, rb_generation := int (Suc (?m div pg) mod 3) + 1 \<rparr>, pl1)"
      "planes_ok words pl1" "\<forall>q. cell_pos words q \<longrightarrow> cell pl1 q = (if cell pl q = int (Suc (?m div pg) mod 3) + 1 then 0 else cell pl q)"
      using next_generation_spec [OF f(2,3) num [symmetric]] by blast
    have "cell pl1 q = mark pg (length ks div pg) (last_writer ?pos ks q)" if q: "cell_pos words q" for q
    proof -
      have "i div pg \<le> ?m div pg" if "last_writer ?pos ks q = Some i" for i
        using last_writer_less [OF that] len(1) by (intro div_le_mono) simp
      note advance = mark_advance [OF this]
      have "cell pl1 q = (if cell pl q = int (Suc (?m div pg) mod 3) + 1 then 0 else cell pl q)" using pl1(3) q by blast
      moreover have "cell pl q = mark pg (?m div pg) (last_writer ?pos ks q)" using f(9) q by blast
      ultimately show ?thesis unfolding arith(1) using advance by simp
    qed
    then show ?thesis
      using pl1(1,2) f(1,4,8) next_gen arith
      by (intro exI [of _ "f\<lparr> rb_this_generation := 0, rb_generation := int (Suc (?m div pg) mod 3) + 1 \<rparr>"] exI [of _ pl1])
        (simp add: bloom_ok_def lane_consts_def)
  next
    case False
    then have same: "rb_this_generation f \<noteq> rb_per_generation f" using f(4,7) by linarith
    have arith: "length ks div pg = ?m div pg" "length ks mod pg = Suc (?m mod pg)" using False by (simp_all add: len(1) div_Suc mod_Suc)
    show ?thesis using f same arith by (intro exI [of _ f] exI [of _ pl]) simp
  qed
qed

lemma bloom_add_ok:
  assumes ok: "gens_ok w n words pg ks f" and key: "length key < 2 ^ 32"
  shows "\<exists>f'. bloom_add key f = Some f' \<and> gens_ok w n words pg (key # ks) f'"
proof -
  let ?pos = "cells_of w n (2 * int words)"
  obtain f1 pl1 where f1: "(if rb_this_generation f = rb_per_generation f
        then next_generation (case rb_planes f of None \<Rightarrow> (replicate (nat (rb_words f)) 0, replicate (nat (rb_words f)) 0) | Some pl \<Rightarrow> pl) f
        else Some (f, case rb_planes f of None \<Rightarrow> (replicate (nat (rb_words f)) 0, replicate (nat (rb_words f)) 0) | Some pl \<Rightarrow> pl)) = Some (f1, pl1)"
    "planes_ok words pl1" "bloom_ok w n words f1" "rb_per_generation f1 = int pg"
    "rb_generation f1 = int (length ks div pg mod 3) + 1" "rb_this_generation f1 = int (length ks mod pg)"
    "\<forall>q. cell_pos words q \<longrightarrow> cell pl1 q = mark pg (length ks div pg) (last_writer ?pos ks q)"
    using planes_for_next [OF ok] by blast
  let ?f2 = "f1\<lparr> rb_this_generation := rb_this_generation f1 + 1 \<rparr>"
  have ok2: "bloom_ok w n words ?f2" using f1(3) by (simp add: bloom_ok_def lane_consts_def)
  have words: "0 < words" using f1(3) by (simp add: bloom_ok_def)
  have num: "gen_num (rb_generation f1)" unfolding f1(5) gen_num_def by linarith
  have pos: "\<forall>p\<in>set (?pos key). cell_pos words p" using cells_of_pos words by blast
  obtain pl2 where pl2: "fold_opt (set_cell (rb_generation f1)) (?pos key) pl1 = Some pl2" "planes_ok words pl2"
    "\<forall>q. cell_pos words q \<longrightarrow> cell pl2 q = (if q \<in> set (?pos key) then rb_generation f1 else cell pl1 q)"
    using set_cells_spec [OF f1(2) pos num] by blast
  have "bloom_add key f = Some (?f2\<lparr> rb_planes := Some pl2 \<rparr>)"
    unfolding bloom_add_def Let_def f1(1) using positions_words [OF ok2 key] pl2(1) by simp
  moreover have "gens_ok w n words pg (key # ks) (?f2\<lparr> rb_planes := Some pl2 \<rparr>)"
  proof -
    have "cell pl2 q = mark pg (length ks div pg) (last_writer ?pos (key # ks) q)" if q: "cell_pos words q" for q
    proof -
      have "cell pl2 q = (if q \<in> set (?pos key) then rb_generation f1 else cell pl1 q)" using pl2(3) q by blast
      moreover have "cell pl1 q = mark pg (length ks div pg) (last_writer ?pos ks q)" using f1(7) q by blast
      moreover have "mark pg (length ks div pg) (Some (length ks)) = rb_generation f1" by (simp add: mark_def f1(5))
      ultimately show ?thesis by simp
    qed
    then show ?thesis
      using f1(3-6) pl2(2) ok by (simp add: gens_ok_def bloom_ok_def lane_consts_def)
  qed
  ultimately show ?thesis by blast
qed

lemma bloom_run:
  assumes "gens_ok w n words pg ks f" "\<forall>k\<in>set keys. length k < 2 ^ 32"
  shows "\<exists>f'. fold_opt bloom_add keys f = Some f' \<and> gens_ok w n words pg (rev keys @ ks) f'"
  using assms
proof (induction keys arbitrary: ks f)
  case (Cons k keys)
  obtain f1 where f1: "bloom_add k f = Some f1" "gens_ok w n words pg (k # ks) f1" using bloom_add_ok [OF Cons.prems(1)] Cons.prems(2) by auto
  from Cons.IH [OF f1(2)] Cons.prems(2) f1(1) show ?case by auto
qed simp

section \<open>Answers\<close>

lemma last_writer_recent:
  "(\<exists>i. last_writer pos (rev keys) p = Some i \<and> b \<le> i) \<longleftrightarrow> (\<exists>k\<in>set (drop b keys). p \<in> set (pos k))"
proof (induction keys rule: rev_induct)
  case (snoc k keys)
  show ?case
  proof (cases "b \<le> length keys")
    case True
    then show ?thesis using snoc by auto
  next
    case False
    moreover have "i < length keys" if "last_writer pos (rev keys) p = Some i" for i using last_writer_less [OF that] by simp
    ultimately show ?thesis by (auto simp: not_le)
  qed
qed simp

lemma mark_recent:
  assumes "0 < pg"
  shows "mark pg c writer \<noteq> 0 \<longleftrightarrow> (\<exists>i. writer = Some i \<and> pg * (c - 2) \<le> i)"
proof -
  have "c \<le> i div pg + 2 \<longleftrightarrow> pg * (c - 2) \<le> i" for i
    using assms less_eq_div_iff_mult_less_eq [of pg "c - 2" i] by (simp add: mult.commute) linarith
  then show ?thesis by (auto simp: mark_def split: option.split)
qed

lemma contains_spec:
  assumes ok: "gens_ok w n words pg (rev keys) f" and key: "length key < 2 ^ 32"
  shows "bloom_contains key f = Some (\<forall>p\<in>set (cells_of w n (2 * int words) key).
    \<exists>k\<in>set (drop (pg * ((length keys - 1) div pg - 2)) keys). p \<in> set (cells_of w n (2 * int words) k))"
proof (cases "rb_planes f")
  case None
  then have "keys = []" "0 < n" using ok by (auto simp: gens_ok_def bloom_ok_def)
  then have "\<not> (\<forall>p\<in>set (cells_of w n (2 * int words) key). \<exists>k\<in>set (drop (pg * ((length keys - 1) div pg - 2)) keys). p \<in> set (cells_of w n (2 * int words) k))"
    by (auto simp: cells_of_def)
  with None show ?thesis by (simp add: bloom_contains_def)
next
  case (Some pl)
  let ?pos = "cells_of w n (2 * int words)"
  have pl: "bloom_ok w n words f" "planes_ok words pl" "0 < pg"
    "\<forall>q. cell_pos words q \<longrightarrow> cell pl q = mark pg ((length keys - 1) div pg) (last_writer ?pos (rev keys) q)"
    using ok Some by (auto simp: gens_ok_def)
  have words: "0 < words" using pl(1) by (simp add: bloom_ok_def)
  have pos: "\<forall>p\<in>set (?pos key). cell_pos words p" using cells_of_pos words by blast
  have "bloom_contains key f = Some (\<forall>p\<in>set (?pos key). cell pl p \<noteq> 0)"
    using Some positions_words [OF pl(1) key] all_set_spec [OF pl(2) pos] by (simp add: bloom_contains_def)
  moreover have "cell pl p \<noteq> 0 \<longleftrightarrow> (\<exists>k\<in>set (drop (pg * ((length keys - 1) div pg - 2)) keys). p \<in> set (?pos k))"
    if "p \<in> set (?pos key)" for p
  proof -
    have "cell pl p = mark pg ((length keys - 1) div pg) (last_writer ?pos (rev keys) p)" using pl(4) pos that by blast
    then show ?thesis using mark_recent [OF pl(3)] last_writer_recent [of ?pos keys p] by auto
  qed
  ultimately show ?thesis by simp
qed

definition tweak_seed :: "int \<Rightarrow> nat \<Rightarrow> 32 word" where
  "tweak_seed tweak k = word_of_int (int k * 0xFBA4C795 + tweak)"

definition hash_count :: "int \<Rightarrow> nat" where
  "hash_count rounded = nat (max 1 (min rounded 50))"

lemma new_bloom_ok:
  assumes "0 < filter_bits" "filter_bits \<le> 2 ^ 37" "0 < n_elements"
  shows "gens_ok (tweak_seed tweak) (hash_count rounded) (nat ((filter_bits + 63) div 64)) (nat ((n_elements + 1) div 2)) []
    (new_bloom n_elements rounded filter_bits tweak)"
proof -
  let ?n = "hash_count rounded" and ?words = "(filter_bits + 63) div 64"
  have n: "max 1 (min rounded 50) = int ?n" "0 < ?n" "nat (8 * int ?n div 8) = ?n" by (simp_all add: hash_count_def)
  have words: "0 < ?words" "2 * ?words \<le> 2 ^ 32" using assms by (simp_all add: zdiv_mono1 div_less_iff_less_mult pos_imp_zdiv_pos_iff)
  have "lane_sum (\<lambda>k. (int k * 0xFBA4C795 + tweak) AND mask32) ?n = word_lanes (tweak_seed tweak) ?n"
    unfolding word_lanes_def
    by (rule lane_sum_cong) (simp add: and_mask32 tweak_seed_def uint_word_of_int_eq flip: of_int_add of_int_mult)
  moreover have "drop_bit 1 mask32 = mask 31" by (simp add: mask32_def mask_numeral)
  ultimately show ?thesis
    using words assms(3) n by (simp add: gens_ok_def bloom_ok_def new_bloom_def Let_def set_tweak_def lane_consts_def mask32_mask)
qed

lemma bloom_reset_new:
  assumes "gens_ok w n words pg ks f"
  shows "gens_ok (tweak_seed tweak) n words pg [] (bloom_reset tweak f)"
proof -
  have ok: "bloom_ok w n words f" and n: "nat (rb_lane_bytes f div 8) = n" using assms by (simp_all add: gens_ok_def bloom_ok_def)
  have "lane_sum (\<lambda>k. (int k * 0xFBA4C795 + tweak) AND mask32) n = word_lanes (tweak_seed tweak) n"
    unfolding word_lanes_def
    by (rule lane_sum_cong) (simp add: and_mask32 tweak_seed_def uint_word_of_int_eq flip: of_int_add of_int_mult)
  then show ?thesis
    using assms n by (simp add: gens_ok_def bloom_ok_def lane_consts_def bloom_reset_def set_tweak_def)
qed

lemma bloom_run_new:
  assumes "0 < n_elements" "0 < filter_bits" "filter_bits \<le> 2 ^ 37" "\<forall>k\<in>set keys. length k < 2 ^ 32"
  shows "\<exists>f. fold_opt bloom_add keys (new_bloom n_elements rounded filter_bits tweak) = Some f
    \<and> gens_ok (tweak_seed tweak) (hash_count rounded) (nat ((filter_bits + 63) div 64)) (nat ((n_elements + 1) div 2)) (rev keys) f"
  using bloom_run [OF new_bloom_ok [OF assms(2,3,1)] assms(4)] by simp

definition recent :: "nat \<Rightarrow> 'a list \<Rightarrow> 'a list" where
  \<comment> \<open>what was inserted in the last three generations of \<open>pg\<close> insertions\<close>
  "recent pg keys = drop (pg * ((length keys - 1) div pg - 2)) keys"

lemma recent_bounds:
  assumes "0 < pg"
  shows "length (recent pg keys) \<le> 3 * pg" "n \<le> 2 * pg \<Longrightarrow> set (drop (length keys - n) keys) \<subseteq> set (recent pg keys)"
proof -
  let ?m = "length keys - 1" let ?c = "?m div pg"
  have m: "?m mod pg + pg * ?c = ?m" "?m mod pg < pg" using assms by (simp_all add: mod_mult_div_eq)
  have dist: "pg * (?c - 2) = pg * ?c - 2 * pg" by (simp add: diff_mult_distrib2 mult.commute)
  show "length (recent pg keys) \<le> 3 * pg" unfolding recent_def length_drop dist using m by linarith
  assume n: "n \<le> 2 * pg"
  have "pg * (?c - 2) \<le> length keys - n" unfolding dist using m(1) n by linarith
  then show "set (drop (length keys - n) keys) \<subseteq> set (recent pg keys)" unfolding recent_def by (rule set_drop_subset_set_drop)
qed

section \<open>The properties\<close>

text \<open>
  C28.  The positions of a key, computed with every hash function in a lane of one integer, are
  those of MurmurHash3 on 32-bit words run once per seed, reduced by \<open>FastRange32\<close>: no carry,
  shift or product reaches another lane, on any key and in any state of the filter.
\<close>

theorem bloom_positions_murmur:
  assumes "0 < n_elements" "0 < filter_bits" "filter_bits \<le> 2 ^ 37"
    and "\<forall>k\<in>set keys. length k < 2 ^ 32" "length key < 2 ^ 32"
  shows "\<exists>f. fold_opt bloom_add keys (new_bloom n_elements rounded filter_bits tweak) = Some f
    \<and> bloom_positions f key = Some (map (\<lambda>k. let h = uint (murmur3 (tweak_seed tweak k) key)
          in (fast_range (2 * ((filter_bits + 63) div 64)) h div 2, h mod 64)) [0..<hash_count rounded])"
proof -
  obtain f where f: "fold_opt bloom_add keys (new_bloom n_elements rounded filter_bits tweak) = Some f"
    "gens_ok (tweak_seed tweak) (hash_count rounded) (nat ((filter_bits + 63) div 64)) (nat ((n_elements + 1) div 2)) (rev keys) f"
    using bloom_run_new [OF assms(1-4)] by blast
  have "int (nat ((filter_bits + 63) div 64)) = (filter_bits + 63) div 64" using assms(2) by simp
  with positions_words [of _ _ _ f, OF _ assms(5)] f show ?thesis by (auto simp: gens_ok_def cells_of_def)
qed

theorem bloom_positions_murmur_witness:
  "\<exists>f. fold_opt bloom_add [[1], [2, 3, 4, 5, 6]] (new_bloom 2 3 100 7) = Some f
    \<and> bloom_positions f [9, 8, 7, 6, 5] = Some (map (\<lambda>k. let h = uint (murmur3 (tweak_seed 7 k) [9, 8, 7, 6, 5])
          in (fast_range 4 h div 2, h mod 64)) [0..<3])"
  using bloom_positions_murmur [of 2 100 "[[1], [2, 3, 4, 5, 6]]" "[9, 8, 7, 6, 5]" 3 7] by (simp add: hash_count_def)

text \<open>
  C29.  No insertion or query raises, and a query answers exactly whether each position of the key
  was set by a key of the last three generations, which are at most three times half the size
  of the filter: what was inserted before is forgotten.
\<close>

theorem bloom_answers:
  assumes "0 < n_elements" "0 < filter_bits" "filter_bits \<le> 2 ^ 37"
    and "\<forall>k\<in>set keys. length k < 2 ^ 32" "length key < 2 ^ 32"
  shows "\<exists>f. fold_opt bloom_add keys (new_bloom n_elements rounded filter_bits tweak) = Some f
    \<and> bloom_contains key f = Some (\<forall>p\<in>set (cells_of (tweak_seed tweak) (hash_count rounded) (2 * ((filter_bits + 63) div 64)) key).
        \<exists>k\<in>set (recent (nat ((n_elements + 1) div 2)) keys).
          p \<in> set (cells_of (tweak_seed tweak) (hash_count rounded) (2 * ((filter_bits + 63) div 64)) k))
    \<and> length (recent (nat ((n_elements + 1) div 2)) keys) \<le> 3 * nat ((n_elements + 1) div 2)"
proof -
  obtain f where f: "fold_opt bloom_add keys (new_bloom n_elements rounded filter_bits tweak) = Some f"
    "gens_ok (tweak_seed tweak) (hash_count rounded) (nat ((filter_bits + 63) div 64)) (nat ((n_elements + 1) div 2)) (rev keys) f"
    using bloom_run_new [OF assms(1-4)] by blast
  have words: "int (nat ((filter_bits + 63) div 64)) = (filter_bits + 63) div 64" using assms(2) by simp
  have "0 < nat ((n_elements + 1) div 2)" using assms(1) by simp
  from recent_bounds(1) [OF this] contains_spec [OF f(2) assms(5)] f(1) show ?thesis unfolding words recent_def by blast
qed

theorem bloom_answers_witness:
  "\<exists>f. fold_opt bloom_add [[1], [2], [3]] (new_bloom 2 1 100 7) = Some f
    \<and> bloom_contains [2] f = Some (\<forall>p\<in>set (cells_of (tweak_seed 7) 1 4 [2]). \<exists>k\<in>set [[1], [2], [3]]. p \<in> set (cells_of (tweak_seed 7) 1 4 k))"
proof -
  have "hash_count 1 = 1" "recent 1 [[1], [2], [3 :: 8 word]] = [[1], [2], [3]]" by (simp_all add: hash_count_def recent_def)
  with bloom_answers [of 2 100 "[[1], [2], [3]]" "[2]" 1 7] show ?thesis by simp
qed

text \<open>
  C30.  The latest \<open>n_elements\<close> keys are always found, however many were inserted before.
\<close>

theorem bloom_finds_latest:
  assumes "0 < n_elements" "0 < filter_bits" "filter_bits \<le> 2 ^ 37"
    and "\<forall>k\<in>set keys. length k < 2 ^ 32" and key: "key \<in> set (drop (length keys - nat n_elements) keys)"
  shows "\<exists>f. fold_opt bloom_add keys (new_bloom n_elements rounded filter_bits tweak) = Some f \<and> bloom_contains key f = Some True"
proof -
  obtain f where f: "fold_opt bloom_add keys (new_bloom n_elements rounded filter_bits tweak) = Some f"
    "gens_ok (tweak_seed tweak) (hash_count rounded) (nat ((filter_bits + 63) div 64)) (nat ((n_elements + 1) div 2)) (rev keys) f"
    using bloom_run_new [OF assms(1-4)] by blast
  have len: "length key < 2 ^ 32" using key assms(4) in_set_dropD by metis
  have "0 < nat ((n_elements + 1) div 2)" "nat n_elements \<le> 2 * nat ((n_elements + 1) div 2)" using assms(1) by linarith+
  from recent_bounds(2) [OF this, of keys] key have "key \<in> set (recent (nat ((n_elements + 1) div 2)) keys)" by blast
  then have "bloom_contains key f = Some True" using contains_spec [OF f(2) len] unfolding recent_def by auto
  with f(1) show ?thesis by blast
qed

theorem bloom_finds_latest_witness:
  "\<exists>f. fold_opt bloom_add [[1], [2], [3], [4], [5]] (new_bloom 2 3 100 7) = Some f \<and> bloom_contains [4] f = Some True"
  using bloom_finds_latest [of 2 100 "[[1], [2], [3], [4], [5]]" "[4]" 3 7] by simp

end
