(* ===== verification/Peer_Eviction.thy ===== *)
theory Peer_Eviction
  imports Prelude "HOL-Library.Product_Lexorder" "HOL-Library.Multiset"
begin

text \<open>
  The selection of \<open>p2p/eviction.py\<close>: which inbound peer a full node disconnects to make room.
  \<open>list.sort\<close> is the stable \<open>sort_key\<close>; a tuple of a key is compared in lexicographic order, with
  \<open>False\<close> below \<open>True\<close>.  The minimum ping is \<open>None\<close> where it is infinite, no ping having been
  answered.  The loop over the disadvantaged networks changes their counts in place: it returns
  them.
\<close>

section \<open>Candidates\<close>

datatype network = UNROUTABLE | IPV4 | IPV6 | ONION | I2P | CJDNS | INTERNAL | MAX_NETWORK

record eviction_candidate =
  ec_id :: int
  ec_connected :: int
  ec_min_ping_time :: "real option"
  ec_last_block_time :: int
  ec_last_tx_time :: int
  ec_relevant_services :: bool
  ec_relay_txs :: bool
  ec_bloom_filter :: bool
  ec_keyed_net_group :: int
  ec_prefer_evict :: bool
  ec_is_local :: bool
  ec_network :: network
  ec_noban :: bool
  ec_inbound :: bool

definition erase_last_k ::
  "('a \<Rightarrow> 'k::linorder) \<Rightarrow> int \<Rightarrow> ('a \<Rightarrow> bool) \<Rightarrow> 'a list \<Rightarrow> 'a list" where
  "erase_last_k key k predicate candidates =
     (let sorted = sort_key key candidates;
          start = int (length sorted) - min k (int (length sorted))
      in take (nat start) sorted @ filter (\<lambda>c. \<not> predicate c) (drop (nat start) sorted))"

definition reverse_connected :: "eviction_candidate \<Rightarrow> int" where
  "reverse_connected c = - ec_connected c"

definition net_group_keyed :: "eviction_candidate \<Rightarrow> int" where
  "net_group_keyed c = ec_keyed_net_group c"

definition reverse_min_ping :: "eviction_candidate \<Rightarrow> bool \<times> real" where
  \<comment> \<open>the negative of the ping, minus infinity before every other\<close>
  "reverse_min_ping c = (case ec_min_ping_time c of None \<Rightarrow> (False, 0) | Some t \<Rightarrow> (True, - t))"

definition block_time_key :: "eviction_candidate \<Rightarrow> int \<times> bool \<times> int" where
  "block_time_key c = (ec_last_block_time c, ec_relevant_services c, - ec_connected c)"

definition tx_time_key :: "eviction_candidate \<Rightarrow> int \<times> bool \<times> bool \<times> int" where
  "tx_time_key c = (ec_last_tx_time c, ec_relay_txs c, \<not> ec_bloom_filter c, - ec_connected c)"

definition block_relay_only_time :: "eviction_candidate \<Rightarrow> bool \<times> int \<times> bool \<times> int" where
  "block_relay_only_time c = (\<not> ec_relay_txs c, ec_last_block_time c, ec_relevant_services c, - ec_connected c)"

section \<open>The disadvantaged networks\<close>

record eviction_net =
  en_is_local :: bool
  en_id :: network
  en_count :: int

definition net_holds :: "eviction_net \<Rightarrow> eviction_candidate \<Rightarrow> bool" where
  "net_holds n c = (if en_is_local n then ec_is_local c else ec_network c = en_id n)"

definition network_time :: "eviction_net \<Rightarrow> eviction_candidate \<Rightarrow> bool \<times> bool \<times> int" where
  "network_time n c = (en_is_local n \<and> ec_is_local c, ec_network c = en_id n, - ec_connected c)"

definition disadvantaged :: "eviction_candidate list \<Rightarrow> eviction_net list" where
  "disadvantaged candidates =
     (let networks = [\<lparr> en_is_local = False, en_id = CJDNS, en_count = 0 \<rparr>, \<lparr> en_is_local = False, en_id = I2P, en_count = 0 \<rparr>,
                      \<lparr> en_is_local = True, en_id = MAX_NETWORK, en_count = 0 \<rparr>, \<lparr> en_is_local = False, en_id = ONION, en_count = 0 \<rparr>];
          counted = map (\<lambda>n. n\<lparr> en_count := int (length (filter (net_holds n) candidates)) \<rparr>) networks
      in sort_key en_count counted)"

fun protect_pass ::
  "int \<Rightarrow> int \<Rightarrow> eviction_net list \<Rightarrow> eviction_candidate list \<times> int \<times> bool
     \<Rightarrow> eviction_net list \<times> eviction_candidate list \<times> int \<times> bool" where
  \<comment> \<open>the \<open>for\<close> loop: \<open>limit\<close> is \<open>max_protect_by_network\<close>, the flag \<open>protected_at_least_one\<close>\<close>
  "protect_pass limit per_network [] s = ([], s)"
| "protect_pass limit per_network (n # ns) (candidates, num_protected, once) =
     (if en_count n = 0 then
        let (ns', s) = protect_pass limit per_network ns (candidates, num_protected, once) in (n # ns', s)
      else
        let rest = erase_last_k (network_time n) per_network (net_holds n) candidates;
            delta = int (length candidates) - int (length rest)
        in if delta \<noteq> 0 then
             if num_protected + delta \<ge> limit then (n # ns, rest, num_protected + delta, True)
             else let (ns', s) = protect_pass limit per_network ns (rest, num_protected + delta, True)
                  in (n\<lparr> en_count := en_count n - delta \<rparr> # ns', s)
           else let (ns', s) = protect_pass limit per_network ns (rest, num_protected, once) in (n # ns', s))"

partial_function (option) protect_loop ::
  "int \<Rightarrow> eviction_net list \<Rightarrow> eviction_candidate list \<Rightarrow> int \<Rightarrow> (eviction_candidate list \<times> int) option" where
  "protect_loop limit networks candidates num_protected =
     (if num_protected < limit then
        let num_networks = int (length (filter (\<lambda>n. en_count n \<noteq> 0) networks))
        in if num_networks = 0 then Some (candidates, num_protected)
           else
             let per_network = max ((limit - num_protected) div num_networks) 1;
                 (networks', rest, num, once) = protect_pass limit per_network networks (candidates, num_protected, False)
             in if \<not> once then Some (rest, num) else protect_loop limit networks' rest num
      else Some (candidates, num_protected))"

declare protect_loop.simps [code]

definition protect_eviction_candidates_by_ratio :: "eviction_candidate list \<Rightarrow> eviction_candidate list option" where
  "protect_eviction_candidates_by_ratio candidates =
     (let total = int (length candidates) div 2
      in do {
        (rest, num_protected) \<leftarrow> protect_loop (total div 2) (disadvantaged candidates) candidates 0;
        Some (erase_last_k reverse_connected (total - num_protected) (\<lambda>_. True) rest)
      })"

section \<open>The choice\<close>

record eviction_choice =
  ch_groups :: "int \<rightharpoonup> eviction_candidate list"
  ch_connections :: int
  ch_time :: int
  ch_group :: int

definition count_group :: "eviction_candidate \<Rightarrow> eviction_choice \<Rightarrow> eviction_choice" where
  "count_group c s =
     (let group = (case ch_groups s (ec_keyed_net_group c) of None \<Rightarrow> [] | Some g \<Rightarrow> g) @ [c];
          s1 = s\<lparr> ch_groups := (ch_groups s)(ec_keyed_net_group c \<mapsto> group) \<rparr>;
          group_time = ec_connected (hd group)
      in if int (length group) > ch_connections s
            \<or> (int (length group) = ch_connections s \<and> group_time > ch_time s)
         then s1\<lparr> ch_connections := int (length group), ch_time := group_time, ch_group := ec_keyed_net_group c \<rparr>
         else s1)"

definition select_node_to_evict :: "eviction_candidate list \<Rightarrow> int option option" where
  \<comment> \<open>the inner option is what is returned: \<open>None\<close> where every candidate is protected\<close>
  "select_node_to_evict candidates =
     do {
       let r0 = filter (\<lambda>c. \<not> ec_noban c \<and> ec_inbound c) candidates;
       let r1 = erase_last_k net_group_keyed 4 (\<lambda>_. True) r0;
       let r2 = erase_last_k reverse_min_ping 8 (\<lambda>_. True) r1;
       let r3 = erase_last_k tx_time_key 4 (\<lambda>_. True) r2;
       let r4 = erase_last_k block_relay_only_time 8 (\<lambda>c. \<not> ec_relay_txs c \<and> ec_relevant_services c) r3;
       let r5 = erase_last_k block_time_key 4 (\<lambda>_. True) r4;
       r6 \<leftarrow> protect_eviction_candidates_by_ratio r5;
       case r6 of
         [] \<Rightarrow> Some None
       | first # _ \<Rightarrow> do {
           let remaining = (if \<exists>c\<in>set r6. ec_prefer_evict c then filter ec_prefer_evict r6 else r6);
           head \<leftarrow> py_nth remaining 0;
           let s = fold count_group remaining
                     \<lparr> ch_groups = Map.empty, ch_connections = 0, ch_time = 0, ch_group = ec_keyed_net_group head \<rparr>;
           group \<leftarrow> ch_groups s (ch_group s);
           chosen \<leftarrow> py_nth group 0;
           Some (Some (ec_id chosen))
         }
     }"

end
