(* ===== verification/Peer_Eviction_Proofs.thy ===== *)
theory Peer_Eviction_Proofs
  imports Peer_Eviction
begin

text \<open>
  What is proved of the eviction of an inbound peer: every step of the protection takes out the
  last of an order, the loop over the networks ends within its quarter, and the choice is the
  youngest of the largest network group.
\<close>

section \<open>One step of the protection\<close>

lemma mset_split: "mset (sort_key key cs) = mset (take n (sort_key key cs)) + mset (drop n (sort_key key cs))"
  by (metis append_take_drop_id mset_append)

lemma erase_last_k_protects:
  assumes "0 \<le> k"
  shows "\<exists>ds. mset cs = mset (erase_last_k key k P cs) + mset ds \<and> int (length ds) \<le> k \<and> (\<forall>d\<in>set ds. P d)"
proof -
  let ?s = "sort_key key cs" let ?start = "nat (int (length ?s) - min k (int (length ?s)))"
  let ?ds = "filter P (drop ?start ?s)"
  have "mset (drop ?start ?s) = mset (filter (\<lambda>c. \<not> P c) (drop ?start ?s)) + mset ?ds" by (simp add: multiset_partition)
  then have "mset cs = mset (erase_last_k key k P cs) + mset ?ds"
    using mset_split [of key cs ?start] unfolding erase_last_k_def Let_def by (simp only: mset_sort mset_append ac_simps)
  moreover have "length (drop ?start ?s) \<le> nat k" using assms by simp
  then have "int (length ?ds) \<le> k" using length_filter_le [of P "drop ?start ?s"] assms by linarith
  ultimately show ?thesis by (intro exI [of _ ?ds]) simp
qed

lemma erase_last_k_takes:
  assumes "0 \<le> k"
  shows "\<exists>ds. mset cs = mset (erase_last_k key k (\<lambda>_. True) cs) + mset ds \<and> int (length ds) = min k (int (length cs))
    \<and> (\<forall>c\<in>set (erase_last_k key k (\<lambda>_. True) cs). \<forall>d\<in>set ds. key c \<le> key d)
    \<and> sorted (map key (erase_last_k key k (\<lambda>_. True) cs))"
proof -
  let ?s = "sort_key key cs" let ?start = "nat (int (length ?s) - min k (int (length ?s)))"
  have r: "erase_last_k key k (\<lambda>_. True) cs = take ?start ?s" by (simp add: erase_last_k_def Let_def)
  have "mset cs = mset (take ?start ?s) + mset (drop ?start ?s)"
    using mset_split [of key cs ?start] by (simp only: mset_sort)
  moreover have "int (length (drop ?start ?s)) = min k (int (length cs))" using assms by simp
  moreover have srt: "sorted (map key (take ?start ?s @ drop ?start ?s))" by simp
  then have "\<forall>c\<in>set (take ?start ?s). \<forall>d\<in>set (drop ?start ?s). key c \<le> key d" "sorted (map key (take ?start ?s))"
    unfolding map_append sorted_append by auto
  ultimately show ?thesis unfolding r by blast
qed

section \<open>The protection by network\<close>

definition disadv :: "eviction_candidate \<Rightarrow> bool" where
  "disadv c \<longleftrightarrow> ec_is_local c \<or> ec_network c = CJDNS \<or> ec_network c = I2P \<or> ec_network c = ONION"

definition nets_ok :: "eviction_net list \<Rightarrow> bool" where
  "nets_ok ns \<longleftrightarrow> (\<forall>n\<in>set ns. \<forall>c. net_holds n c \<longrightarrow> disadv c)"

definition nonzero :: "eviction_net list \<Rightarrow> int" where
  "nonzero ns = int (length (filter (\<lambda>n. en_count n \<noteq> 0) ns))"

definition took :: "eviction_candidate list \<Rightarrow> eviction_candidate list \<Rightarrow> int \<Rightarrow> bool" where
  "took cs rest k \<longleftrightarrow> (\<exists>ds. mset cs = mset rest + mset ds \<and> int (length ds) = k \<and> (\<forall>d\<in>set ds. disadv d))"

lemma took_refl: "took cs cs 0"
  by (simp add: took_def)

lemma took_trans: "took cs r1 k1 \<Longrightarrow> took r1 r2 k2 \<Longrightarrow> took cs r2 (k1 + k2)"
proof -
  assume "took cs r1 k1" "took r1 r2 k2"
  then obtain d1 d2 where "mset cs = mset r1 + mset d1" "int (length d1) = k1" "\<forall>d\<in>set d1. disadv d"
    "mset r1 = mset r2 + mset d2" "int (length d2) = k2" "\<forall>d\<in>set d2. disadv d" unfolding took_def by blast
  then show ?thesis unfolding took_def by (intro exI [of _ "d2 @ d1"]) auto
qed

lemma protect_pass_spec:
  assumes "protect_pass limit per ns (cs, num, once) = (ns', rest, num', once')" "nets_ok ns" "1 \<le> per" "num < limit"
    and "per = 1 \<or> num + per * nonzero ns \<le> limit"
  shows "nets_ok ns' \<and> num \<le> num' \<and> num' \<le> limit \<and> took cs rest (num' - num) \<and> (once' \<longrightarrow> once \<or> num < num')"
  using assms
proof (induction ns arbitrary: cs num once ns' rest num' once')
  case Nil
  then show ?case by (simp add: took_refl nets_ok_def)
next
  case (Cons n ns)
  have ok: "nets_ok ns" "\<And>c. net_holds n c \<Longrightarrow> disadv c" using Cons.prems(2) by (auto simp: nets_ok_def)
  have count: "nets_ok (n\<lparr> en_count := k \<rparr> # ms)" if "nets_ok ms" for k ms
    using that ok(2) by (simp add: nets_ok_def net_holds_def)
  show ?case
  proof (cases "en_count n = 0")
    case True
    obtain ms where ms: "protect_pass limit per ns (cs, num, once) = (ms, rest, num', once')" "ns' = n # ms"
      using Cons.prems(1) True by (auto split: prod.splits)
    have "per = 1 \<or> num + per * nonzero ns \<le> limit" using Cons.prems(5) True by (simp add: nonzero_def)
    from Cons.IH [OF ms(1) ok(1) Cons.prems(3,4) this] ms(2) ok(2) show ?thesis by (simp add: nets_ok_def)
  next
    case False
    let ?rest = "erase_last_k (network_time n) per (net_holds n) cs"
    let ?delta = "int (length cs) - int (length ?rest)"
    obtain ds where ds: "mset cs = mset ?rest + mset ds" "int (length ds) \<le> per" "\<forall>d\<in>set ds. net_holds n d"
      using erase_last_k_protects [of per cs "network_time n" "net_holds n"] Cons.prems(3) by auto
    have len: "?delta = int (length ds)" using arg_cong [OF ds(1), of size] by simp
    then have delta: "0 \<le> ?delta" "?delta \<le> per" using ds(2) by simp_all
    have tk: "took cs ?rest ?delta"
      unfolding took_def by (intro exI [of _ ds] conjI ds(1) len [symmetric]) (use ds(3) ok(2) in simp)
    have bound: "num + ?delta \<le> limit" "per = 1 \<or> num + ?delta + per * nonzero ns \<le> limit"
    proof -
      have nz: "nonzero (n # ns) = nonzero ns + 1" "0 \<le> nonzero ns" using False by (simp_all add: nonzero_def)
      have "per = 1 \<or> num + per + per * nonzero ns \<le> limit" using Cons.prems(5) by (simp add: nz(1) algebra_simps)
      then show "num + ?delta \<le> limit"
      proof
        assume "num + per + per * nonzero ns \<le> limit"
        moreover have "0 \<le> per * nonzero ns" using nz(2) Cons.prems(3) by simp
        ultimately show ?thesis using delta(2) by linarith
      qed (use delta(2) Cons.prems(4) in linarith)
      show "per = 1 \<or> num + ?delta + per * nonzero ns \<le> limit"
        using \<open>per = 1 \<or> num + per + per * nonzero ns \<le> limit\<close>
      proof
        assume "num + per + per * nonzero ns \<le> limit"
        then show ?thesis using delta(2) by linarith
      qed simp
    qed
    consider (stop) "?delta \<noteq> 0" "limit \<le> num + ?delta" | (go) "?delta \<noteq> 0" "num + ?delta < limit" | (none) "?delta = 0" by linarith
    then show ?thesis
    proof cases
      case stop
      then have "ns' = n # ns" "rest = ?rest" "num' = num + ?delta" "once'" using Cons.prems(1) False by (auto simp: Let_def)
      with tk delta bound stop Cons.prems(2) show ?thesis by auto
    next
      case go
      obtain ms where ms: "protect_pass limit per ns (?rest, num + ?delta, True) = (ms, rest, num', once')"
        "ns' = n\<lparr> en_count := en_count n - ?delta \<rparr> # ms"
        using Cons.prems(1) False go by (auto simp: Let_def split: prod.splits)
      note ih = Cons.IH [OF ms(1) ok(1) Cons.prems(3) go(2) bound(2)]
      have "num' - num = ?delta + (num' - (num + ?delta))" by simp
      then have "took cs rest (num' - num)" using took_trans [OF tk] ih by metis
      with ih ms(2) count delta go(1) show ?thesis by auto
    next
      case none
      obtain ms where ms: "protect_pass limit per ns (?rest, num, once) = (ms, rest, num', once')" "ns' = n # ms"
        using Cons.prems(1) False none by (auto simp: Let_def split: prod.splits)
      have b: "per = 1 \<or> num + per * nonzero ns \<le> limit" using bound(2) none by simp
      note ih = Cons.IH [OF ms(1) ok(1) Cons.prems(3,4) b]
      have "took cs rest (num' - num)" using took_trans [OF tk [unfolded none]] ih by fastforce
      with ih ms(2) ok(2) show ?thesis by (simp add: nets_ok_def)
    qed
  qed
qed

lemma protect_loop_spec:
  assumes "nets_ok ns" "num \<le> limit"
  shows "\<exists>rest num'. protect_loop limit ns cs num = Some (rest, num') \<and> num \<le> num' \<and> num' \<le> limit \<and> took cs rest (num' - num)"
  using assms
proof (induction "nat (limit - num)" arbitrary: ns cs num rule: less_induct)
  case less
  show ?case
  proof (cases "num < limit \<and> nonzero ns \<noteq> 0")
    case False
    then have "protect_loop limit ns cs num = Some (cs, num)" by (auto simp: protect_loop.simps [of limit ns] nonzero_def Let_def)
    then show ?thesis using less.prems(2) took_refl by auto
  next
    case True
    let ?per = "max ((limit - num) div nonzero ns) 1"
    have nz: "0 < nonzero ns" using True by (simp add: nonzero_def)
    obtain ns' rest num' once where pass: "protect_pass limit ?per ns (cs, num, False) = (ns', rest, num', once)"
      by (metis prod_cases4)
    have "?per = 1 \<or> num + ?per * nonzero ns \<le> limit"
    proof (cases "(limit - num) div nonzero ns \<le> 1")
      case False
      then have "?per = (limit - num) div nonzero ns" by simp
      moreover have "(limit - num) div nonzero ns * nonzero ns \<le> limit - num"
        using nz by (simp add: minus_mod_eq_div_mult [symmetric])
      ultimately show ?thesis by simp
    qed simp
    note sp = protect_pass_spec [OF pass less.prems(1) _ _ this]
    have sp: "nets_ok ns'" "num \<le> num'" "num' \<le> limit" "took cs rest (num' - num)" "once \<longrightarrow> num < num'" using sp True by simp_all
    have step: "protect_loop limit ns cs num = (if \<not> once then Some (rest, num') else protect_loop limit ns' rest num')"
      using True pass by (simp add: protect_loop.simps [of limit ns] nonzero_def [symmetric] Let_def)
    show ?thesis
    proof (cases once)
      case False
      with step sp show ?thesis by simp
    next
      case True
      then have "nat (limit - num') < nat (limit - num)" using sp(5) \<open>num < limit \<and> nonzero ns \<noteq> 0\<close> by simp
      from less.hyps [OF this sp(1,3)] obtain r m where r: "protect_loop limit ns' rest num' = Some (r, m)" "num' \<le> m" "m \<le> limit"
        "took rest r (m - num')" by blast
      have "took cs r (m - num)" using took_trans [OF sp(4) r(4)] by simp
      with step True r sp(2) show ?thesis by simp
    qed
  qed
qed

lemma disadvantaged_ok: "nets_ok (disadvantaged cs)"
  by (auto simp: nets_ok_def disadvantaged_def Let_def net_holds_def disadv_def)

lemma protect_spec:
  "\<exists>rest nets uptime. protect_eviction_candidates_by_ratio cs = Some rest \<and> mset cs = mset rest + mset nets + mset uptime
    \<and> length nets + length uptime = length cs div 2 \<and> length nets \<le> length cs div 4 \<and> (\<forall>d\<in>set nets. disadv d)
    \<and> (\<forall>c\<in>set rest. \<forall>d\<in>set uptime. ec_connected d \<le> ec_connected c) \<and> sorted (map reverse_connected rest)"
proof -
  let ?total = "int (length cs) div 2"
  obtain r num where loop: "protect_loop (?total div 2) (disadvantaged cs) cs 0 = Some (r, num)" "0 \<le> num" "num \<le> ?total div 2"
    "took cs r num" using protect_loop_spec [OF disadvantaged_ok [of cs], of 0 "?total div 2" cs] by auto
  obtain nets where nets: "mset cs = mset r + mset nets" "int (length nets) = num" "\<forall>d\<in>set nets. disadv d"
    using loop(4) by (auto simp: took_def)
  have "0 \<le> ?total - num" using loop(3) by simp
  from erase_last_k_takes [OF this, of r reverse_connected] obtain uptime where up:
    "mset r = mset (erase_last_k reverse_connected (?total - num) (\<lambda>_. True) r) + mset uptime"
    "int (length uptime) = min (?total - num) (int (length r))"
    "\<forall>c\<in>set (erase_last_k reverse_connected (?total - num) (\<lambda>_. True) r). \<forall>d\<in>set uptime. reverse_connected c \<le> reverse_connected d"
    "sorted (map reverse_connected (erase_last_k reverse_connected (?total - num) (\<lambda>_. True) r))" by blast
  have "int (length cs) = int (length r) + num" using arg_cong [OF nets(1), of size] nets(2) by simp
  then have "int (length uptime) = ?total - num" using up(2) loop(2) by simp
  then have "int (length nets + length uptime) = int (length cs div 2)" using nets(2) by (simp add: zdiv_int)
  then have "length nets + length uptime = length cs div 2" by (simp only: of_nat_eq_iff)
  moreover have "int (length nets) \<le> int (length cs div 4)" using loop(3) nets(2) by (simp add: zdiv_int)
  moreover have "protect_eviction_candidates_by_ratio cs = Some (erase_last_k reverse_connected (?total - num) (\<lambda>_. True) r)"
    unfolding protect_eviction_candidates_by_ratio_def Let_def using loop(1) by simp
  moreover have "mset cs = mset (erase_last_k reverse_connected (?total - num) (\<lambda>_. True) r) + mset nets + mset uptime"
    unfolding nets(1) up(1) by (simp only: ac_simps)
  ultimately show ?thesis using nets(3) up(3,4)
    by (intro exI [of _ "erase_last_k reverse_connected (?total - num) (\<lambda>_. True) r"] exI [of _ nets] exI [of _ uptime])
      (simp add: reverse_connected_def)
qed

section \<open>The choice of a group\<close>

definition grp :: "eviction_candidate list \<Rightarrow> int \<Rightarrow> eviction_candidate list" where
  "grp xs g = filter (\<lambda>c. ec_keyed_net_group c = g) xs"

definition below :: "eviction_candidate list \<Rightarrow> int \<Rightarrow> int \<Rightarrow> int \<Rightarrow> bool" where
  "below xs g n t \<longleftrightarrow> int (length (grp xs g)) < n \<or> (int (length (grp xs g)) = n \<and> ec_connected (hd (grp xs g)) \<le> t)"

definition chose :: "eviction_candidate list \<Rightarrow> eviction_choice \<Rightarrow> bool" where
  "chose xs s \<longleftrightarrow> (\<forall>g. ch_groups s g = (if grp xs g = [] then None else Some (grp xs g)))
     \<and> ch_connections s = int (length (grp xs (ch_group s)))
     \<and> (xs \<noteq> [] \<longrightarrow> grp xs (ch_group s) \<noteq> [] \<and> ch_time s = ec_connected (hd (grp xs (ch_group s)))
          \<and> (\<forall>c\<in>set xs. below xs (ec_keyed_net_group c) (ch_connections s) (ch_time s)))"

lemma grp_snoc: "grp (xs @ [c]) g = (if ec_keyed_net_group c = g then grp xs g @ [c] else grp xs g)"
  by (simp add: grp_def)

lemma count_group_step:
  assumes "(case ch_groups s (ec_keyed_net_group c) of None \<Rightarrow> [] | Some g \<Rightarrow> g) @ [c] = g"
  shows "ch_groups (count_group c s) = (ch_groups s)(ec_keyed_net_group c \<mapsto> g)"
    and "int (length g) > ch_connections s \<or> (int (length g) = ch_connections s \<and> ec_connected (hd g) > ch_time s)
      \<Longrightarrow> ch_connections (count_group c s) = int (length g) \<and> ch_time (count_group c s) = ec_connected (hd g)
        \<and> ch_group (count_group c s) = ec_keyed_net_group c"
    and "\<not> (int (length g) > ch_connections s \<or> (int (length g) = ch_connections s \<and> ec_connected (hd g) > ch_time s))
      \<Longrightarrow> ch_connections (count_group c s) = ch_connections s \<and> ch_time (count_group c s) = ch_time s
        \<and> ch_group (count_group c s) = ch_group s"
  unfolding count_group_def Let_def assms by simp_all

lemma count_group_chose:
  assumes "chose xs s"
  shows "chose (xs @ [c]) (count_group c s)"
proof -
  let ?k = "ec_keyed_net_group c"
  let ?g = "grp xs ?k @ [c]" and ?s = "count_group c s"
  have groups: "\<And>g. ch_groups s g = (if grp xs g = [] then None else Some (grp xs g))"
    and conns: "ch_connections s = int (length (grp xs (ch_group s)))"
    and lead: "xs \<noteq> [] \<Longrightarrow> grp xs (ch_group s) \<noteq> []" "xs \<noteq> [] \<Longrightarrow> ch_time s = ec_connected (hd (grp xs (ch_group s)))"
      "\<And>d. d \<in> set xs \<Longrightarrow> below xs (ec_keyed_net_group d) (ch_connections s) (ch_time s)"
    using assms by (auto simp: chose_def)
  have new: "(case ch_groups s ?k of None \<Rightarrow> [] | Some g \<Rightarrow> g) @ [c] = ?g" by (simp add: groups)
  have all: "ch_groups ?s g = (if grp (xs @ [c]) g = [] then None else Some (grp (xs @ [c]) g))" for g
    unfolding count_group_step(1) [OF new] by (simp add: grp_snoc groups)
  have mem: "ec_keyed_net_group d = ?k \<or> d \<in> set xs" if "d \<in> set (xs @ [c])" for d using that by auto
  show ?thesis
  proof (cases "int (length ?g) > ch_connections s \<or> (int (length ?g) = ch_connections s \<and> ec_connected (hd ?g) > ch_time s)")
    case True
    then have st: "ch_connections ?s = int (length ?g)" "ch_time ?s = ec_connected (hd ?g)" "ch_group ?s = ?k"
      using count_group_step(2) [OF new] by blast+
    have "below (xs @ [c]) (ec_keyed_net_group d) (int (length ?g)) (ec_connected (hd ?g))" if d: "d \<in> set (xs @ [c])" for d
    proof (cases "ec_keyed_net_group d = ?k")
      case False
      then have "below xs (ec_keyed_net_group d) (ch_connections s) (ch_time s)" using mem [OF d] lead(3) by blast
      then show ?thesis using True False unfolding below_def grp_snoc by (simp del: length_append hd_append2) linarith
    qed (simp add: below_def grp_snoc)
    then show ?thesis using all st by (simp add: chose_def grp_snoc)
  next
    case False
    then have st: "ch_connections ?s = ch_connections s" "ch_time ?s = ch_time s" "ch_group ?s = ch_group s"
      using count_group_step(3) [OF new] by blast+
    have other: "?k \<noteq> ch_group s" using False conns by auto
    have ne: "xs \<noteq> []" using False conns by (auto simp: grp_def)
    have "below (xs @ [c]) (ec_keyed_net_group d) (ch_connections s) (ch_time s)" if d: "d \<in> set (xs @ [c])" for d
    proof (cases "ec_keyed_net_group d = ?k")
      case True
      then show ?thesis using False unfolding below_def grp_snoc by simp linarith
    next
      case False
      then have "below xs (ec_keyed_net_group d) (ch_connections s) (ch_time s)" using mem [OF d] lead(3) by blast
      with False show ?thesis by (simp add: below_def grp_snoc)
    qed
    then show ?thesis using all st conns lead(1,2) [OF ne] other by (simp add: chose_def grp_snoc)
  qed
qed

lemma count_groups:
  assumes "s0 = \<lparr> ch_groups = Map.empty, ch_connections = 0, ch_time = 0, ch_group = k \<rparr>"
  shows "chose xs (fold count_group xs s0)"
proof (induction xs rule: rev_induct)
  case Nil
  then show ?case by (simp add: chose_def grp_def assms)
next
  case (snoc c xs)
  then show ?case using count_group_chose by simp
qed

text \<open>The youngest of the largest group: a group is in the order the peers are in, youngest first.\<close>

lemma chosen_group:
  assumes ch: "chose xs s" and ne: "xs \<noteq> []" and srt: "sorted (map reverse_connected xs)"
  shows "\<exists>c. ch_groups s (ch_group s) = Some (grp xs (ch_group s)) \<and> py_nth (grp xs (ch_group s)) 0 = Some c \<and> c \<in> set xs
    \<and> (\<forall>d\<in>set xs. length (grp xs (ec_keyed_net_group d)) < length (grp xs (ec_keyed_net_group c))
        \<or> (length (grp xs (ec_keyed_net_group d)) = length (grp xs (ec_keyed_net_group c)) \<and> ec_connected d \<le> ec_connected c))"
proof -
  let ?g = "grp xs (ch_group s)"
  have lead: "?g \<noteq> []" "ch_connections s = int (length ?g)" "ch_time s = ec_connected (hd ?g)"
    "\<And>d. d \<in> set xs \<Longrightarrow> below xs (ec_keyed_net_group d) (ch_connections s) (ch_time s)" "ch_groups s (ch_group s) = Some ?g"
    using ch ne by (auto simp: chose_def)
  obtain c cs where g: "?g = c # cs" using lead(1) by (cases ?g) auto
  have c: "c \<in> set xs" "ec_keyed_net_group c = ch_group s"
  proof -
    have "c \<in> set ?g" by (simp add: g)
    then show "c \<in> set xs" "ec_keyed_net_group c = ch_group s" by (simp_all add: grp_def)
  qed
  have young: "ec_connected d \<le> ec_connected (hd (grp xs (ec_keyed_net_group d)))" if d: "d \<in> set xs" for d
  proof -
    have "sorted (map reverse_connected (grp xs (ec_keyed_net_group d)))" unfolding grp_def by (rule sorted_filter [OF srt])
    moreover have "d \<in> set (grp xs (ec_keyed_net_group d))" using d by (simp add: grp_def)
    ultimately show ?thesis by (cases "grp xs (ec_keyed_net_group d)") (auto simp: reverse_connected_def)
  qed
  have "length (grp xs (ec_keyed_net_group d)) < length (grp xs (ec_keyed_net_group c))
      \<or> (length (grp xs (ec_keyed_net_group d)) = length (grp xs (ec_keyed_net_group c)) \<and> ec_connected d \<le> ec_connected c)"
    if d: "d \<in> set xs" for d
    using lead(4) [OF d] young [OF d] unfolding below_def lead(2,3) c(2) by (auto simp: g)
  moreover have "py_nth ?g 0 = Some c" by (simp add: g py_simps)
  ultimately show ?thesis using lead(5) c(1) by blast
qed

end
