(* ===== verification/Peer_Eviction_Properties.thy ===== *)
theory Peer_Eviction_Properties
  imports Peer_Eviction_Proofs
begin

text \<open>
  The eviction of an inbound peer: it always returns, whom it can never choose, and which of the
  others it chooses.
\<close>

section \<open>The steps before the protection by uptime\<close>

definition eligible :: "eviction_candidate list \<Rightarrow> eviction_candidate list" where
  "eligible cs = filter (\<lambda>c. \<not> ec_noban c \<and> ec_inbound c) cs"

definition erased :: "eviction_candidate list \<Rightarrow> eviction_candidate list" where
  \<comment> \<open>what the five steps by one characteristic each leave\<close>
  "erased cs =
     erase_last_k block_time_key 4 (\<lambda>_. True)
      (erase_last_k block_relay_only_time 8 (\<lambda>c. \<not> ec_relay_txs c \<and> ec_relevant_services c)
        (erase_last_k tx_time_key 4 (\<lambda>_. True)
          (erase_last_k reverse_min_ping 8 (\<lambda>_. True)
            (erase_last_k net_group_keyed 4 (\<lambda>_. True) (eligible cs)))))"

lemma erase_last_k_prefers:
  "\<exists>ds. mset cs = mset (erase_last_k key k P cs) + mset ds \<and> length ds \<le> nat k \<and> (\<forall>d\<in>set ds. P d)
    \<and> (\<forall>c\<in>set (erase_last_k key k P cs). P c \<longrightarrow> (\<forall>d\<in>set ds. key c \<le> key d))"
proof -
  let ?s = "sort_key key cs" let ?start = "nat (int (length ?s) - min k (int (length ?s)))"
  let ?ds = "filter P (drop ?start ?s)"
  have r: "erase_last_k key k P cs = take ?start ?s @ filter (\<lambda>c. \<not> P c) (drop ?start ?s)" by (simp add: erase_last_k_def Let_def)
  have "mset (drop ?start ?s) = mset (filter (\<lambda>c. \<not> P c) (drop ?start ?s)) + mset ?ds" by (simp add: multiset_partition)
  then have "mset cs = mset (erase_last_k key k P cs) + mset ?ds"
    using mset_split [of key cs ?start] unfolding r by (simp only: mset_sort mset_append ac_simps)
  moreover have "sorted (map key (take ?start ?s @ drop ?start ?s))" by simp
  then have "\<forall>c\<in>set (take ?start ?s). \<forall>d\<in>set (drop ?start ?s). key c \<le> key d" unfolding map_append sorted_append by auto
  then have "\<forall>c\<in>set (erase_last_k key k P cs). P c \<longrightarrow> (\<forall>d\<in>set ?ds. key c \<le> key d)" unfolding r by auto
  moreover have "length (drop ?start ?s) \<le> nat k" by simp
  then have "length ?ds \<le> nat k" using length_filter_le [of P "drop ?start ?s"] by linarith
  ultimately show ?thesis by (intro exI [of _ ?ds]) simp
qed

lemma erase_last_k_all:
  assumes "0 \<le> k"
  obtains ds where "mset cs = mset (erase_last_k key k (\<lambda>_. True) cs) + mset ds"
    "length ds \<le> nat k" "erase_last_k key k (\<lambda>_. True) cs \<noteq> [] \<Longrightarrow> length ds = nat k"
    "\<And>c d. c \<in> set (erase_last_k key k (\<lambda>_. True) cs) \<Longrightarrow> d \<in> set ds \<Longrightarrow> key c \<le> key d"
proof -
  let ?r = "erase_last_k key k (\<lambda>_. True) cs"
  obtain ds where ds: "mset cs = mset ?r + mset ds" "int (length ds) = min k (int (length cs))"
    "\<forall>c\<in>set ?r. \<forall>d\<in>set ds. key c \<le> key d"
    using erase_last_k_takes [OF assms, of cs key] by blast
  have len: "length cs = length ?r + length ds" using arg_cong [OF ds(1), of size] by simp
  have "length ds \<le> nat k" using ds(2) assms by linarith
  moreover have "length ds = nat k" if "?r \<noteq> []"
  proof -
    have "0 < length ?r" using that by simp
    then show ?thesis using len ds(2) assms by linarith
  qed
  ultimately show thesis using that [OF ds(1)] ds(3) by blast
qed

lemma part_subset: "mset xs = mset ys + mset zs \<Longrightarrow> set ys \<subseteq> set xs"
  by (metis mset_subset_eq_add_left set_mset_mono set_mset_mset)

lemma erased_spec:
  "\<exists>group ping txs relay blocks.
     mset (eligible cs) = mset (erased cs) + mset blocks + mset relay + mset txs + mset ping + mset group
     \<and> length group \<le> 4 \<and> length ping \<le> 8 \<and> length txs \<le> 4 \<and> length relay \<le> 8 \<and> length blocks \<le> 4
     \<and> (erased cs \<noteq> [] \<longrightarrow> length group = 4 \<and> length ping = 8 \<and> length txs = 4 \<and> length blocks = 4)
     \<and> (\<forall>d\<in>set relay. \<not> ec_relay_txs d \<and> ec_relevant_services d)
     \<and> (\<forall>c\<in>set (erased cs). (\<forall>d\<in>set group. ec_keyed_net_group c \<le> ec_keyed_net_group d)
          \<and> (\<forall>d\<in>set ping. reverse_min_ping c \<le> reverse_min_ping d) \<and> (\<forall>d\<in>set txs. tx_time_key c \<le> tx_time_key d)
          \<and> (\<not> ec_relay_txs c \<and> ec_relevant_services c \<longrightarrow> (\<forall>d\<in>set relay. block_relay_only_time c \<le> block_relay_only_time d))
          \<and> (\<forall>d\<in>set blocks. block_time_key c \<le> block_time_key d))"
proof -
  let ?P = "\<lambda>c. \<not> ec_relay_txs c \<and> ec_relevant_services c"
  let ?r1 = "erase_last_k net_group_keyed 4 (\<lambda>_. True) (eligible cs)"
  let ?r2 = "erase_last_k reverse_min_ping 8 (\<lambda>_. True) ?r1"
  let ?r3 = "erase_last_k tx_time_key 4 (\<lambda>_. True) ?r2"
  let ?r4 = "erase_last_k block_relay_only_time 8 ?P ?r3"
  have r: "erased cs = erase_last_k block_time_key 4 (\<lambda>_. True) ?r4" unfolding erased_def ..
  obtain group where g: "mset (eligible cs) = mset ?r1 + mset group" "length group \<le> nat 4" "?r1 \<noteq> [] \<Longrightarrow> length group = nat 4"
    "\<And>c d. c \<in> set ?r1 \<Longrightarrow> d \<in> set group \<Longrightarrow> net_group_keyed c \<le> net_group_keyed d"
    by (rule erase_last_k_all [of 4 "eligible cs" net_group_keyed]) simp_all
  obtain ping where p: "mset ?r1 = mset ?r2 + mset ping" "length ping \<le> nat 8" "?r2 \<noteq> [] \<Longrightarrow> length ping = nat 8"
    "\<And>c d. c \<in> set ?r2 \<Longrightarrow> d \<in> set ping \<Longrightarrow> reverse_min_ping c \<le> reverse_min_ping d"
    by (rule erase_last_k_all [of 8 ?r1 reverse_min_ping]) simp_all
  obtain txs where t: "mset ?r2 = mset ?r3 + mset txs" "length txs \<le> nat 4" "?r3 \<noteq> [] \<Longrightarrow> length txs = nat 4"
    "\<And>c d. c \<in> set ?r3 \<Longrightarrow> d \<in> set txs \<Longrightarrow> tx_time_key c \<le> tx_time_key d"
    by (rule erase_last_k_all [of 4 ?r2 tx_time_key]) simp_all
  obtain relay where b: "mset ?r3 = mset ?r4 + mset relay" "length relay \<le> nat 8" "\<forall>d\<in>set relay. ?P d"
    "\<forall>c\<in>set ?r4. ?P c \<longrightarrow> (\<forall>d\<in>set relay. block_relay_only_time c \<le> block_relay_only_time d)"
    using erase_last_k_prefers [of ?r3 block_relay_only_time 8 ?P] by blast
  obtain blocks where k: "mset ?r4 = mset (erased cs) + mset blocks" "length blocks \<le> nat 4" "erased cs \<noteq> [] \<Longrightarrow> length blocks = nat 4"
    "\<And>c d. c \<in> set (erased cs) \<Longrightarrow> d \<in> set blocks \<Longrightarrow> block_time_key c \<le> block_time_key d"
    unfolding r by (rule erase_last_k_all [of 4 ?r4 block_time_key]) simp_all
  have sub: "set (erased cs) \<subseteq> set ?r4" "set ?r4 \<subseteq> set ?r3" "set ?r3 \<subseteq> set ?r2" "set ?r2 \<subseteq> set ?r1"
    by (rule part_subset [OF k(1)], rule part_subset [OF b(1)], rule part_subset [OF t(1)], rule part_subset [OF p(1)])
  then have ne: "?r4 \<noteq> []" "?r3 \<noteq> []" "?r2 \<noteq> []" "?r1 \<noteq> []" if "erased cs \<noteq> []" using that by auto
  have split: "mset (eligible cs) = mset (erased cs) + mset blocks + mset relay + mset txs + mset ping + mset group"
    unfolding g(1) p(1) t(1) b(1) k(1) ..
  have full: "erased cs \<noteq> [] \<longrightarrow> length group = 4 \<and> length ping = 8 \<and> length txs = 4 \<and> length blocks = 4"
    using g(3) p(3) t(3) k(3) ne by simp
  have order: "(\<forall>d\<in>set group. ec_keyed_net_group c \<le> ec_keyed_net_group d)
      \<and> (\<forall>d\<in>set ping. reverse_min_ping c \<le> reverse_min_ping d) \<and> (\<forall>d\<in>set txs. tx_time_key c \<le> tx_time_key d)
      \<and> (?P c \<longrightarrow> (\<forall>d\<in>set relay. block_relay_only_time c \<le> block_relay_only_time d))
      \<and> (\<forall>d\<in>set blocks. block_time_key c \<le> block_time_key d)" if c: "c \<in> set (erased cs)" for c
  proof -
    have "c \<in> set ?r4" "c \<in> set ?r3" "c \<in> set ?r2" "c \<in> set ?r1" using c sub by blast+
    then show ?thesis using g(4) p(4) t(4) b(4) k(4) c unfolding net_group_keyed_def by blast
  qed
  have lens: "length group \<le> 4" "length ping \<le> 8" "length txs \<le> 4" "length relay \<le> 8" "length blocks \<le> 4"
    using g(2) p(2) t(2) b(2) k(2) by simp_all
  note orders = ballI [of "set (erased cs)", OF order]
  show ?thesis
    by (rule exI [of _ group], rule exI [of _ ping], rule exI [of _ txs], rule exI [of _ relay], rule exI [of _ blocks])
      (rule conjI split lens full b(3) orders | assumption)+
qed

section \<open>The selection\<close>

definition preferred :: "eviction_candidate list \<Rightarrow> eviction_candidate list" where
  \<comment> \<open>the peers preferred for eviction, all of them where none is\<close>
  "preferred cs = (if \<exists>c\<in>set cs. ec_prefer_evict c then filter ec_prefer_evict cs else cs)"

lemma select_steps:
  assumes "protect_eviction_candidates_by_ratio (erased cs) = Some rest" "sorted (map reverse_connected rest)"
  shows "rest = [] \<Longrightarrow> select_node_to_evict cs = Some None"
    and "rest \<noteq> [] \<Longrightarrow> \<exists>c\<in>set (preferred rest). select_node_to_evict cs = Some (Some (ec_id c))
      \<and> (\<forall>d\<in>set (preferred rest).
           length (grp (preferred rest) (ec_keyed_net_group d)) < length (grp (preferred rest) (ec_keyed_net_group c))
           \<or> (length (grp (preferred rest) (ec_keyed_net_group d)) = length (grp (preferred rest) (ec_keyed_net_group c))
               \<and> ec_connected d \<le> ec_connected c))"
proof -
  have step: "select_node_to_evict cs = (case rest of [] \<Rightarrow> Some None | first # _ \<Rightarrow> do {
      head \<leftarrow> py_nth (preferred rest) 0;
      let s = fold count_group (preferred rest)
            \<lparr> ch_groups = Map.empty, ch_connections = 0, ch_time = 0, ch_group = ec_keyed_net_group head \<rparr>;
      group \<leftarrow> ch_groups s (ch_group s);
      chosen \<leftarrow> py_nth group 0;
      Some (Some (ec_id chosen)) })"
    using assms(1) unfolding select_node_to_evict_def Let_def eligible_def [symmetric] erased_def preferred_def
    by (simp cong: list.case_cong)
  show "rest = [] \<Longrightarrow> select_node_to_evict cs = Some None" by (simp add: step)
  assume ne: "rest \<noteq> []"
  have pne: "preferred rest \<noteq> []" using ne by (auto simp: preferred_def filter_empty_conv)
  have srt: "sorted (map reverse_connected (preferred rest))"
    using assms(2) sorted_filter [OF assms(2), of ec_prefer_evict] by (simp add: preferred_def)
  let ?s = "fold count_group (preferred rest)
    \<lparr> ch_groups = Map.empty, ch_connections = 0, ch_time = 0, ch_group = ec_keyed_net_group (preferred rest ! 0) \<rparr>"
  obtain c where c: "ch_groups ?s (ch_group ?s) = Some (grp (preferred rest) (ch_group ?s))"
    "py_nth (grp (preferred rest) (ch_group ?s)) 0 = Some c" "c \<in> set (preferred rest)"
    "\<forall>d\<in>set (preferred rest).
       length (grp (preferred rest) (ec_keyed_net_group d)) < length (grp (preferred rest) (ec_keyed_net_group c))
       \<or> (length (grp (preferred rest) (ec_keyed_net_group d)) = length (grp (preferred rest) (ec_keyed_net_group c))
           \<and> ec_connected d \<le> ec_connected c)"
    using chosen_group [OF count_groups [OF refl] pne srt] by blast
  have "py_nth (preferred rest) 0 = Some (preferred rest ! 0)" using pne by (simp add: py_simps)
  then have "select_node_to_evict cs = Some (Some (ec_id c))" using ne c(1,2) by (cases rest) (simp_all add: step)
  then show "\<exists>c\<in>set (preferred rest). select_node_to_evict cs = Some (Some (ec_id c))
      \<and> (\<forall>d\<in>set (preferred rest).
           length (grp (preferred rest) (ec_keyed_net_group d)) < length (grp (preferred rest) (ec_keyed_net_group c))
           \<or> (length (grp (preferred rest) (ec_keyed_net_group d)) = length (grp (preferred rest) (ec_keyed_net_group c))
               \<and> ec_connected d \<le> ec_connected c))"
    using c(3,4) by blast
qed

lemma erased_length:
  shows "length (erased cs) \<le> length (eligible cs)"
    and "length (eligible cs) \<le> length (erased cs) + 28"
    and "erased cs \<noteq> [] \<Longrightarrow> length (erased cs) + 20 \<le> length (eligible cs)"
proof -
  obtain group ping txs relay blocks where
    part: "mset (eligible cs) = mset (erased cs) + mset blocks + mset relay + mset txs + mset ping + mset group"
    and le: "length group \<le> 4" "length ping \<le> 8" "length txs \<le> 4" "length relay \<le> 8" "length blocks \<le> 4"
    and full: "erased cs \<noteq> [] \<longrightarrow> length group = 4 \<and> length ping = 8 \<and> length txs = 4 \<and> length blocks = 4"
    using erased_spec [of cs] by (elim exE conjE) (rule that)
  have len: "length (eligible cs)
      = length (erased cs) + length blocks + length relay + length txs + length ping + length group"
    using arg_cong [OF part, of size] by simp
  show "length (erased cs) \<le> length (eligible cs)" "length (eligible cs) \<le> length (erased cs) + 28"
    using len le by simp_all
  show "length (erased cs) + 20 \<le> length (eligible cs)" if "erased cs \<noteq> []" using len full that by simp
qed

text \<open>Selecting a peer always returns, whatever the candidates: the loop that protects the disadvantaged
  networks ends, and no list is read out of range.  With at most twenty candidates that are inbound
  and not exempt every one of them is protected; with more than twenty-eight one of them is chosen.\<close>
lemma eviction_returns:
  "\<exists>r. select_node_to_evict cs = Some r
     \<and> (length (filter (\<lambda>c. \<not> ec_noban c \<and> ec_inbound c) cs) \<le> 20 \<longrightarrow> r = None)
     \<and> (length (filter (\<lambda>c. \<not> ec_noban c \<and> ec_inbound c) cs) > 28 \<longrightarrow> r \<noteq> None)"
proof -
  obtain rest nets uptime where pr: "protect_eviction_candidates_by_ratio (erased cs) = Some rest"
    and part: "mset (erased cs) = mset rest + mset nets + mset uptime"
    and half: "length nets + length uptime = length (erased cs) div 2"
    and srt: "sorted (map reverse_connected rest)"
    using protect_spec [of "erased cs"] by (elim exE conjE) (rule that)
  have "length (erased cs) = length rest + length nets + length uptime" using arg_cong [OF part, of size] by simp
  then have empty: "rest = [] \<longleftrightarrow> erased cs = []" using half
    by (simp only: length_0_conv [symmetric]) linarith
  show ?thesis
  proof (cases "rest = []")
    case True
    then have "length (eligible cs) \<le> 28" using erased_length(2) [of cs] empty by simp
    with True show ?thesis using select_steps(1) [OF pr srt] by (simp add: eligible_def)
  next
    case False
    then have "20 < length (eligible cs)" using erased_length(3) [of cs] empty by (cases "erased cs") auto
    with False show ?thesis using select_steps(2) [OF pr srt] by (auto simp: eligible_def)
  qed
qed

definition plain_candidate :: "nat \<Rightarrow> eviction_candidate" where
  "plain_candidate n = \<lparr> ec_id = int n, ec_connected = int n, ec_min_ping_time = None, ec_last_block_time = 0,
     ec_last_tx_time = 0, ec_relevant_services = True, ec_relay_txs = True, ec_bloom_filter = False,
     ec_keyed_net_group = int (n mod 3), ec_prefer_evict = False, ec_is_local = False, ec_network = IPV4,
     ec_noban = False, ec_inbound = True \<rparr>"

lemma eviction_returns_witness:
  "select_node_to_evict (replicate 20 (plain_candidate 1)) = Some None
   \<and> (\<exists>i. select_node_to_evict (replicate 29 (plain_candidate 1)) = Some (Some i))"
proof -
  have plain: "filter (\<lambda>c. \<not> ec_noban c \<and> ec_inbound c) (replicate n (plain_candidate 1)) = replicate n (plain_candidate 1)" for n
    by (simp add: filter_replicate plain_candidate_def)
  have "(20::nat) \<le> 20" "(29::nat) > 28" by simp_all
  then show ?thesis
    using eviction_returns [of "replicate 20 (plain_candidate 1)"] eviction_returns [of "replicate 29 (plain_candidate 1)"]
    unfolding plain length_replicate by blast
qed



end
