(* ===== verification/Net_Groups.thy ===== *)
theory Net_Groups
  imports Peer_Eviction "HOL-Library.Word"
begin

unbundle bit_operations_syntax

text \<open>
  The classes and the groups of addresses of \<open>p2p/eviction.py\<close>.  An \<open>IPv4Address\<close> is a word of 32
  bits and an \<open>IPv6Address\<close> one of 128; a network of \<open>ipaddress\<close> is its base and the length of its
  prefix, and never holds an address of the other version.  \<open>None\<close> is an exception.  What the code
  takes from \<open>btclib.p2p.addrv2\<close>, the identifiers of \<open>BIP155Network\<close>, \<open>can_addrv1\<close> and whether
  \<open>network_address\<close> raises, is the record \<open>addr_lib\<close>.
\<close>

section \<open>Addresses and ranges\<close>

datatype ip = V4 "32 word" | V6 "128 word"

datatype ip_network = Net4 "32 word" nat | Net6 "128 word" nat

fun in_net :: "ip \<Rightarrow> ip_network \<Rightarrow> bool" where
  "in_net (V4 a) (Net4 base len) \<longleftrightarrow> a AND push_bit (32 - len) (mask len) = base"
| "in_net (V6 a) (Net6 base len) \<longleftrightarrow> a AND push_bit (128 - len) (mask len) = base"
| "in_net _ _ \<longleftrightarrow> False"

definition octets4 :: "32 word \<Rightarrow> 8 word list" where
  "octets4 a = map (\<lambda>i. ucast (drop_bit (8 * (3 - i)) a)) [0..<4]"

definition octets6 :: "128 word \<Rightarrow> 8 word list" where
  "octets6 a = map (\<lambda>i. ucast (drop_bit (8 * (15 - i)) a)) [0..<16]"

fun packed :: "ip \<Rightarrow> 8 word list" where
  "packed (V4 a) = octets4 a"
| "packed (V6 a) = octets6 a"

definition ipv4_address :: "8 word list \<Rightarrow> 32 word option" where
  \<comment> \<open>\<open>IPv4Address\<close> of octets, four of them or an exception\<close>
  "ipv4_address bs = (if length bs = 4 then Some (fold (\<lambda>b a. push_bit 8 a OR ucast b) bs 0) else None)"

definition ipv6_address :: "8 word list \<Rightarrow> 128 word option" where
  "ipv6_address bs = (if length bs = 16 then Some (fold (\<lambda>b a. push_bit 8 a OR ucast b) bs 0) else None)"

definition ipv4_mapped :: "128 word \<Rightarrow> 32 word option" where
  "ipv4_mapped a = (if drop_bit 32 a = 0xFFFF then Some (ucast a) else None)"

definition unmapped :: "128 word \<Rightarrow> ip" where
  \<comment> \<open>\<open>ip.ipv4_mapped or ip\<close>: an \<open>IPv4Address\<close> is true, whatever its value\<close>
  "unmapped a = (case ipv4_mapped a of Some v \<Rightarrow> V4 v | None \<Rightarrow> V6 a)"

definition local_nets :: "ip_network list" where
  "local_nets = [Net4 0x7F000000 8, Net4 0 8, Net6 1 128]"

definition invalid_nets :: "ip_network list" where
  "invalid_nets = [Net4 0 32, Net4 0xFFFFFFFF 32, Net6 0 128,
     Net6 0x20010DB8000000000000000000000000 32, Net6 0x3FFF0000000000000000000000000000 20]"

definition unroutable_nets :: "ip_network list" where
  "unroutable_nets = [Net4 0x0A000000 8, Net4 0xAC100000 12, Net4 0xC0A80000 16, Net4 0xC6120000 15, Net4 0xA9FE0000 16,
     Net4 0x64400000 10, Net4 0xC0000200 24, Net4 0xC6336400 24, Net4 0xCB007100 24,
     Net6 0xFE800000000000000000000000000000 64, Net6 0xFC000000000000000000000000000000 7,
     Net6 0x20010010000000000000000000000000 28, Net6 0x20010020000000000000000000000000 28]"

definition siit_net :: ip_network where
  "siit_net = Net6 0xFFFF000000000000 96"

definition nat64_net :: ip_network where
  "nat64_net = Net6 0x0064FF9B000000000000000000000000 96"

definition six_to_four_net :: ip_network where
  "six_to_four_net = Net6 0x20020000000000000000000000000000 16"

definition teredo_net :: ip_network where
  "teredo_net = Net6 0x20010000000000000000000000000000 32"

definition he_net :: ip_network where
  "he_net = Net6 0x20010470000000000000000000000000 32"

definition internal_net :: ip_network where
  "internal_net = Net6 0xFD6B88C0872400000000000000000000 48"

definition torv2_net :: ip_network where
  "torv2_net = Net6 0xFD87D87EEB4300000000000000000000 48"

section \<open>Valid, routable and local\<close>

record network_address_v2 =
  na_network_id :: int
  na_address :: "8 word list"

record addr_lib =
  al_ipv4 :: int
  al_ipv6 :: int
  al_torv3 :: int
  al_i2p :: int
  al_cjdns :: int
  al_can_addrv1 :: "network_address_v2 \<Rightarrow> bool"
  al_network_address_raises :: "network_address_v2 \<Rightarrow> bool"

definition ip_of :: "addr_lib \<Rightarrow> network_address_v2 \<Rightarrow> ip option" where
  "ip_of lib address =
     (if \<not> al_can_addrv1 lib address \<and> al_network_address_raises lib address then None
      else if na_network_id address = al_ipv4 lib then map_option V4 (ipv4_address (na_address address))
      else map_option unmapped (ipv6_address (na_address address)))"

definition valid_ip :: "ip \<Rightarrow> bool" where
  "valid_ip ip \<longleftrightarrow> (\<forall>net\<in>set invalid_nets. \<not> in_net ip net)"

definition routable_ip :: "ip \<Rightarrow> bool" where
  "routable_ip ip \<longleftrightarrow> valid_ip ip \<and> (\<forall>net\<in>set (local_nets @ unroutable_nets). \<not> in_net ip net)"

fun linked_ipv4 :: "ip \<Rightarrow> 32 word option" where
  \<comment> \<open>the octets taken are always four: \<open>IPv4Address\<close> does not raise\<close>
  "linked_ipv4 (V4 a) = Some a"
| "linked_ipv4 (V6 a) =
     (if in_net (V6 a) siit_net \<or> in_net (V6 a) nat64_net then ipv4_address (drop 12 (octets6 a))
      else if in_net (V6 a) six_to_four_net then ipv4_address (take 4 (drop 2 (octets6 a)))
      else if in_net (V6 a) teredo_net then ipv4_address (map (\<lambda>b. b XOR 0xFF) (drop 12 (octets6 a)))
      else None)"

definition is_internal :: "128 word \<Rightarrow> bool" where
  "is_internal a \<longleftrightarrow> in_net (V6 a) internal_net"

definition is_valid :: "128 word \<Rightarrow> bool" where
  "is_valid a = (if is_internal a \<or> in_net (V6 a) torv2_net then False else valid_ip (unmapped a))"

definition is_local :: "addr_lib \<Rightarrow> network_address_v2 \<Rightarrow> bool option" where
  "is_local lib address = do { ip \<leftarrow> ip_of lib address; Some (\<exists>net\<in>set local_nets. in_net ip net) }"

definition is_routable :: "addr_lib \<Rightarrow> network_address_v2 \<Rightarrow> bool option" where
  "is_routable lib address =
     (if al_can_addrv1 lib address then map_option routable_ip (ip_of lib address)
      else if na_network_id address = al_torv3 lib \<or> na_network_id address = al_i2p lib then Some True
      else if na_network_id address = al_cjdns lib
           then do { first \<leftarrow> py_nth (na_address address) 0; Some (first = 0xFC) }
      else Some False)"

section \<open>Classes and groups\<close>

definition ip_net_class :: "ip \<Rightarrow> network" where
  "ip_net_class ip =
     (if in_net ip internal_net then INTERNAL
      else if \<not> routable_ip ip then UNROUTABLE
      else if linked_ipv4 ip \<noteq> None then IPV4
      else IPV6)"

definition net_class :: "addr_lib \<Rightarrow> network_address_v2 \<Rightarrow> network option" where
  "net_class lib address = map_option ip_net_class (ip_of lib address)"

definition network_of_id :: "addr_lib \<Rightarrow> int \<Rightarrow> network option" where
  "network_of_id lib i =
     [al_ipv4 lib \<mapsto> IPV4, al_ipv6 lib \<mapsto> IPV6, al_torv3 lib \<mapsto> ONION, al_i2p lib \<mapsto> I2P, al_cjdns lib \<mapsto> CJDNS] i"

definition get_network :: "addr_lib \<Rightarrow> network_address_v2 \<Rightarrow> network option" where
  "get_network lib address = do {
     internal \<leftarrow> (if al_can_addrv1 lib address then do { ip \<leftarrow> ip_of lib address; Some (in_net ip internal_net) } else Some False);
     if internal then Some INTERNAL
     else do {
       routable \<leftarrow> is_routable lib address;
       if \<not> routable then Some UNROUTABLE else network_of_id lib (na_network_id address)
     }
   }"

fun network_byte :: "network \<Rightarrow> 8 word" where
  \<comment> \<open>the value of the member, as \<open>bytes\<close> takes it\<close>
  "network_byte UNROUTABLE = 0"
| "network_byte IPV4 = 1"
| "network_byte IPV6 = 2"
| "network_byte ONION = 3"
| "network_byte I2P = 4"
| "network_byte CJDNS = 5"
| "network_byte INTERNAL = 6"
| "network_byte MAX_NETWORK = 7"

definition overlay_group :: "addr_lib \<Rightarrow> network_address_v2 \<Rightarrow> 8 word list option" where
  "overlay_group lib address = do {
     network \<leftarrow> get_network lib address;
     if network \<notin> {ONION, I2P, CJDNS} then Some [network_byte network]
     else do {
       let bits = (if network = CJDNS then 12 else 4 :: nat);
       let whole = bits div 8;
       let rest = bits mod 8;
       octet \<leftarrow> py_nth (na_address address) (int whole);
       Some ([network_byte network] @ take whole (na_address address) @ [octet OR mask (8 - rest)])
     }
   }"

definition net_group :: "addr_lib \<Rightarrow> network_address_v2 \<Rightarrow> 8 word list option" where
  "net_group lib address =
     (if \<not> al_can_addrv1 lib address then overlay_group lib address
      else do {
        ip \<leftarrow> ip_of lib address;
        let net = ip_net_class ip;
        let group = [network_byte net];
        if net = INTERNAL then Some (group @ drop 6 (packed ip))
        else if net = UNROUTABLE then Some group
        else case linked_ipv4 ip of
          Some ipv4 \<Rightarrow> Some (group @ take 2 (octets4 ipv4))
        | None \<Rightarrow>
            if in_net ip he_net then do {
              fifth \<leftarrow> py_nth (packed ip) 4;
              Some (group @ take 4 (packed ip) @ [fifth OR 0x0F])
            }
            else Some (group @ take 4 (packed ip))
      })"

definition keyed_net_group ::
  "addr_lib \<Rightarrow> (8 word list \<Rightarrow> 8 word list \<Rightarrow> 8 word list) \<Rightarrow> 8 word list \<Rightarrow> network_address_v2 \<Rightarrow> int option" where
  \<comment> \<open>\<open>blake2b\<close> is the digest of eight octets of \<open>hashlib\<close> with the person of the code, by data and key\<close>
  "keyed_net_group lib blake2b key address = do {
     group \<leftarrow> net_group lib address;
     Some (foldr (\<lambda>b v. uint b + 256 * v) (blake2b group key) 0)
   }"

end
