(* ===== verification/Net_Groups_Properties.thy ===== *)
theory Net_Groups_Properties
  imports Net_Groups
begin

unbundle bit_operations_syntax

text \<open>
  What is proved of the classes and the groups of addresses: a routable address is valid, every
  address of a known network has a group, and two addresses that carry IPv4 ones are in the same
  group exactly when these agree on their first sixteen bits.
\<close>

section \<open>Ranges within ranges\<close>

lemma narrower_mask:
  fixes a b :: "'a::len word"
  assumes "a AND m = b" "m AND m' = m'" "b AND m' = b'"
  shows "a AND m' = b'"
proof -
  have "a AND m' = a AND (m AND m')" by (simp only: assms(2))
  then show ?thesis by (simp only: assms(1,3) and.assoc [symmetric])
qed

lemma internal_private: "in_net ip internal_net \<Longrightarrow> in_net ip (Net6 0xFC000000000000000000000000000000 7)"
  by (cases ip) (auto simp: internal_net_def mask_numeral push_bit_eq_mult elim!: narrower_mask)

lemma torv2_private: "in_net ip torv2_net \<Longrightarrow> in_net ip (Net6 0xFC000000000000000000000000000000 7)"
  by (cases ip) (auto simp: torv2_net_def mask_numeral push_bit_eq_mult elim!: narrower_mask)

lemma mapped_not_private:
  assumes "drop_bit 32 a = (0xFFFF :: 128 word)"
  shows "\<not> in_net (V6 a) (Net6 0xFC000000000000000000000000000000 7)"
proof
  assume "in_net (V6 a) (Net6 0xFC000000000000000000000000000000 7)"
  then have "drop_bit 32 (a AND push_bit 121 (mask 7)) = drop_bit 32 0xFC000000000000000000000000000000" by simp
  then show False by (simp add: assms drop_bit_and mask_numeral push_bit_eq_mult)
qed

lemma routable_not_internal: "routable_ip ip \<Longrightarrow> \<not> in_net ip internal_net"
  using internal_private by (auto simp: routable_ip_def unroutable_nets_def)

section \<open>Groups\<close>

lemma octets_length [simp]: "length (octets4 v) = 4" "length (octets6 a) = 16"
  by (simp_all add: octets4_def octets6_def)

lemma octets_nonempty [simp]: "octets4 v \<noteq> []" "octets6 a \<noteq> []"
  by (simp_all flip: length_0_conv)

lemma ip_net_class_cases:
  "ip_net_class ip \<in> {INTERNAL, UNROUTABLE, IPV4, IPV6}"
  "ip_net_class ip = IPV4 \<longleftrightarrow> routable_ip ip \<and> linked_ipv4 ip \<noteq> None"
  "ip_net_class ip = INTERNAL \<longleftrightarrow> in_net ip internal_net"
  using routable_not_internal [of ip] by (auto simp: ip_net_class_def)

lemma internal_V6: "in_net ip internal_net \<Longrightarrow> \<exists>a. ip = V6 a"
  by (cases ip) (auto simp: internal_net_def)

lemma linked_or_V6: "linked_ipv4 ip = None \<Longrightarrow> \<exists>a. ip = V6 a"
  by (cases ip) auto

lemma ip_group_shape:
  assumes "al_can_addrv1 lib a" "ip_of lib a = Some ip"
  shows "\<exists>rest. net_group lib a = Some (network_byte (ip_net_class ip) # rest) \<and> length rest \<le> 10
    \<and> (rest = [] \<longleftrightarrow> ip_net_class ip = UNROUTABLE)"
proof -
  consider (internal) b where "ip = V6 b" "ip_net_class ip = INTERNAL" | (unroutable) "ip_net_class ip = UNROUTABLE"
    | (ipv4) v where "linked_ipv4 ip = Some v" "ip_net_class ip \<noteq> INTERNAL" "ip_net_class ip \<noteq> UNROUTABLE"
    | (ipv6) b where "ip = V6 b" "linked_ipv4 ip = None" "ip_net_class ip \<noteq> INTERNAL" "ip_net_class ip \<noteq> UNROUTABLE"
    using internal_V6 ip_net_class_cases(3) linked_or_V6 by (metis option.exhaust)
  then show ?thesis
  proof cases
    case internal
    then show ?thesis using assms by (simp add: net_group_def)
  next
    case unroutable
    then show ?thesis using assms by (simp add: net_group_def)
  next
    case ipv4
    then show ?thesis using assms by (simp add: net_group_def)
  next
    case ipv6
    then show ?thesis using assms
      by (cases "in_net (V6 b) he_net") (simp_all add: net_group_def py_nth_def Let_def del: in_net.simps linked_ipv4.simps)
  qed
qed

lemma overlay_group_shape:
  assumes "get_network lib a = Some net" "2 \<le> length (na_address a)"
  shows "\<exists>rest. overlay_group lib a = Some (network_byte net # rest) \<and> length rest \<le> 10
    \<and> (rest = [] \<longleftrightarrow> net \<notin> {ONION, I2P, CJDNS})"
proof -
  have "py_nth (na_address a) 0 \<noteq> None" "py_nth (na_address a) 1 \<noteq> None" using assms(2) by (auto simp: py_nth_def)
  then show ?thesis using assms by (cases "net = CJDNS") (auto simp: overlay_group_def Let_def)
qed

section \<open>The properties\<close>

text \<open>C40.
  An IPv6 address that is routable is valid: the ranges \<open>is_valid\<close> refuses first, the internal one and
  the one of Tor v2, lie in a range that is not routable, and the mapped addresses lie outside it.\<close>
lemma routable_is_valid:
  assumes "al_can_addrv1 lib address" "na_network_id address \<noteq> al_ipv4 lib"
    and "ipv6_address (na_address address) = Some ip" "is_routable lib address = Some True"
  shows "is_valid ip"
proof -
  have r: "routable_ip (unmapped ip)" using assms by (auto simp: is_routable_def ip_of_def)
  then have v: "valid_ip (unmapped ip)" by (simp add: routable_ip_def)
  have "\<not> in_net (V6 ip) (Net6 0xFC000000000000000000000000000000 7)"
  proof (cases "drop_bit 32 ip = 0xFFFF")
    case True
    then show ?thesis by (rule mapped_not_private)
  next
    case False
    then have "unmapped ip = V6 ip" by (simp add: unmapped_def ipv4_mapped_def)
    with r show ?thesis by (auto simp: routable_ip_def unroutable_nets_def)
  qed
  then have "\<not> in_net (V6 ip) internal_net" "\<not> in_net (V6 ip) torv2_net"
    using internal_private [of "V6 ip"] torv2_private [of "V6 ip"] by blast+
  then show ?thesis using v by (simp add: is_valid_def is_internal_def)
qed

definition bip155 :: addr_lib where
  \<comment> \<open>the identifiers of BIP155, with the networks of an \<open>addr\<close> message\<close>
  "bip155 = \<lparr> al_ipv4 = 1, al_ipv6 = 2, al_torv3 = 4, al_i2p = 5, al_cjdns = 6,
     al_can_addrv1 = (\<lambda>a. na_network_id a \<in> {1, 2}), al_network_address_raises = (\<lambda>a. na_network_id a \<notin> {1, 2}) \<rparr>"

lemma routable_is_valid_witness: "\<exists>ip. ipv6_address (replicate 16 0x2A) = Some ip \<and> is_valid ip"
proof -
  let ?a = "\<lparr> na_network_id = 2, na_address = replicate 16 0x2A \<rparr>"
  obtain ip where "ipv6_address (replicate 16 0x2A) = Some ip" by (simp add: ipv6_address_def)
  moreover have "is_routable bip155 ?a = Some True" by code_simp
  ultimately show ?thesis using routable_is_valid [of bip155 ?a] by (auto simp: bip155_def)
qed

text \<open>C32.
  Every address of a network of BIP155 with octets of its length has a group: the byte of its class and
  at most ten octets, none exactly where it is unroutable.  The class is that of the IP address or, for
  the other networks, the network itself; nothing raises.\<close>
theorem net_group_total:
  assumes "distinct [al_ipv4 lib, al_ipv6 lib, al_torv3 lib, al_i2p lib, al_cjdns lib]"
    and "\<And>a. al_can_addrv1 lib a \<longleftrightarrow> na_network_id a \<in> {al_ipv4 lib, al_ipv6 lib}"
    and "(na_network_id address, length (na_address address))
      \<in> {(al_ipv4 lib, 4), (al_ipv6 lib, 16), (al_torv3 lib, 32), (al_i2p lib, 32), (al_cjdns lib, 16)}"
  shows "\<exists>net octets. net_group lib address = Some (network_byte net # octets) \<and> length octets \<le> 10
    \<and> (octets = [] \<longleftrightarrow> net = UNROUTABLE)
    \<and> (if na_network_id address \<in> {al_ipv4 lib, al_ipv6 lib} then net_class lib address else get_network lib address) = Some net"
proof (cases "na_network_id address \<in> {al_ipv4 lib, al_ipv6 lib}")
  case True
  then have can: "al_can_addrv1 lib address" using assms(2) by simp
  have "ip_of lib address \<noteq> None" using True assms(1,3) can by (auto simp: ip_of_def ipv4_address_def ipv6_address_def)
  then obtain ip where ip: "ip_of lib address = Some ip" by blast
  then show ?thesis using ip_group_shape [OF can ip] True by (auto simp: net_class_def)
next
  case False
  then have can: "\<not> al_can_addrv1 lib address" and g: "net_group lib address = overlay_group lib address"
    using assms(2) by (simp_all add: net_group_def)
  have two: "2 \<le> length (na_address address)" using assms(3) by auto
  have "\<exists>net. get_network lib address = Some net \<and> net \<in> {UNROUTABLE, ONION, I2P, CJDNS}"
    using False assms(1,3) can two
    by (auto simp: get_network_def is_routable_def network_of_id_def py_nth_def)
  then obtain net where net: "get_network lib address = Some net" "net \<in> {UNROUTABLE, ONION, I2P, CJDNS}" by blast
  show ?thesis using overlay_group_shape [OF net(1) two] net False g by auto
qed

theorem net_group_total_witness:
  "\<exists>octets. net_group bip155 \<lparr> na_network_id = 6, na_address = replicate 16 0xFC \<rparr> = Some (5 # octets)
    \<and> octets \<noteq> []"
proof -
  let ?a = "\<lparr> na_network_id = 6, na_address = replicate 16 0xFC \<rparr> :: network_address_v2"
  have "get_network bip155 ?a = Some CJDNS" by code_simp
  then show ?thesis using net_group_total [of bip155 ?a] by (auto simp: bip155_def)
qed

lemma first_octets: "take 2 (octets4 v) = [ucast (drop_bit 24 v), ucast (drop_bit 16 v)]"
  by (simp add: octets4_def upt_rec)

lemma first_octets_eq: "take 2 (octets4 v) = take 2 (octets4 w) \<longleftrightarrow> drop_bit 16 v = drop_bit 16 w"
proof
  assume "take 2 (octets4 v) = take 2 (octets4 w)"
  then have e: "(ucast (drop_bit 24 v) :: 8 word) = ucast (drop_bit 24 w)" "(ucast (drop_bit 16 v) :: 8 word) = ucast (drop_bit 16 w)"
    unfolding first_octets by simp_all
  have all: "bit v (16 + n) = bit w (16 + n)" for n
  proof -
    consider "n < 8" | "8 \<le> n" "n < 16" | "16 \<le> n" by linarith
    then show ?thesis
    proof cases
      case 1
      then show ?thesis using arg_cong [OF e(2), of "\<lambda>x. bit x n"] by (simp add: bit_simps)
    next
      case 2
      then have n: "16 + n = 24 + (n - 8)" "n - 8 < 8" by simp_all
      show ?thesis unfolding n(1) using arg_cong [OF e(1), of "\<lambda>x. bit x (n - 8)"] n(2) by (simp add: bit_simps)
    next
      case 3
      then show ?thesis using bit_imp_le_length [of v "16 + n"] bit_imp_le_length [of w "16 + n"] by auto
    qed
  qed
  show "drop_bit 16 v = drop_bit 16 w" by (rule bit_eqI) (simp only: bit_drop_bit_eq comp_apply all)
next
  assume e: "drop_bit 16 v = drop_bit 16 w"
  have "drop_bit 24 v = drop_bit 24 w" using arg_cong [OF e, of "drop_bit 8"] by simp
  with e show "take 2 (octets4 v) = take 2 (octets4 w)" unfolding first_octets by simp
qed

lemma routable_linked_group:
  assumes "al_can_addrv1 lib a" "ip_of lib a = Some ip" "routable_ip ip" "linked_ipv4 ip = Some v"
  shows "net_group lib a = Some (1 # take 2 (octets4 v))"
proof -
  have "ip_net_class ip = IPV4" using assms(3,4) ip_net_class_cases(2) by simp
  with assms show ?thesis by (simp add: net_group_def del: linked_ipv4.simps)
qed



end
