(* ===== verification/Feerates.thy ===== *)
theory Feerates
  imports Prelude Complex_Main
begin

text \<open>
  Fees by size, and the diagrams they make: \<open>FeeFrac\<close>, \<open>feerate_compare\<close> and \<open>compare_chunks\<close> of
  \<open>cluster_linearize.py\<close>.  The two sides of a comparison are \<open>False\<close> and \<open>True\<close> for 0 and 1; the
  position \<open>next_index\<close> reached in a list of chunks is the part of the list that is left.
\<close>

section \<open>The comparison of feerates\<close>

record fee_frac =
  ff_fee :: int
  ff_size :: int

definition feerate_compare :: "fee_frac \<Rightarrow> fee_frac \<Rightarrow> int" where
  "feerate_compare a b =
     (let cross_a = ff_fee a * ff_size b; cross_b = ff_fee b * ff_size a
      in of_bool (cross_a > cross_b) - of_bool (cross_a < cross_b))"

lemma feerate_compare_sgn:
  "feerate_compare a b > 0 \<longleftrightarrow> ff_fee a * ff_size b > ff_fee b * ff_size a"
  "feerate_compare a b < 0 \<longleftrightarrow> ff_fee a * ff_size b < ff_fee b * ff_size a"
  by (auto simp: feerate_compare_def Let_def)

section \<open>The comparison of diagrams\<close>

record diagram_walk =
  dw_rest :: "bool \<Rightarrow> fee_frac list"
  dw_accum :: "bool \<Rightarrow> fee_frac"
  dw_better :: "bool \<Rightarrow> bool"

definition next_point :: "bool \<Rightarrow> diagram_walk \<Rightarrow> fee_frac option" where
  "next_point dia w =
     (case dw_rest w dia of
        [] \<Rightarrow> None
      | c # _ \<Rightarrow> Some \<lparr> ff_fee = ff_fee (dw_accum w dia) + ff_fee c, ff_size = ff_size (dw_accum w dia) + ff_size c \<rparr>)"

definition advance_point :: "bool \<Rightarrow> diagram_walk \<Rightarrow> diagram_walk option" where
  "advance_point dia w =
     do {
       p \<leftarrow> next_point dia w;
       Some (w\<lparr> dw_accum := (dw_accum w)(dia := p), dw_rest := (dw_rest w)(dia := tl (dw_rest w dia)) \<rparr>)
     }"

definition slope_from :: "fee_frac \<Rightarrow> fee_frac \<Rightarrow> fee_frac" where
  "slope_from a p = \<lparr> ff_fee = ff_fee p - ff_fee a, ff_size = ff_size p - ff_size a \<rparr>"

partial_function (option) compare_walk :: "diagram_walk \<Rightarrow> int option option" where
  \<comment> \<open>the inner option is what is returned\<close>
  "compare_walk w =
     (let done0 = (dw_rest w False = []); done1 = (dw_rest w True = [])
      in if done0 \<and> done1 then Some (Some (of_bool (dw_better w False) - of_bool (dw_better w True)))
         else do {
           side \<leftarrow> (if done0 \<or> done1 then Some done0
                    else do { p0 \<leftarrow> next_point False w; p1 \<leftarrow> next_point True w; Some (ff_size p0 > ff_size p1) });
           p \<leftarrow> next_point side w;
           let a = dw_accum w (\<not> side);
           (cmp, w1) \<leftarrow> (if done0 \<or> done1 then Some (feerate_compare (slope_from a p) \<lparr> ff_fee = 0, ff_size = 1 \<rparr>, w)
                        else do {
                          b \<leftarrow> next_point (\<not> side) w;
                          w1 \<leftarrow> (if ff_size b = ff_size p then advance_point (\<not> side) w else Some w);
                          Some (feerate_compare (slope_from a p) (slope_from a b), w1)
                        });
           let better1 = (if cmp > 0 then (dw_better w1)(side := True) else dw_better w1);
           let better2 = (if cmp < 0 then better1(\<not> side := True) else better1);
           w3 \<leftarrow> advance_point side (w1\<lparr> dw_better := better2 \<rparr>);
           if dw_better w3 False \<and> dw_better w3 True then Some None else compare_walk w3
         })"

declare compare_walk.simps [code]

definition compare_chunks :: "fee_frac list \<Rightarrow> fee_frac list \<Rightarrow> int option option" where
  "compare_chunks chunks0 chunks1 =
     compare_walk \<lparr> dw_rest = (\<lambda>dia. if dia then chunks1 else chunks0),
                    dw_accum = (\<lambda>_. \<lparr> ff_fee = 0, ff_size = 0 \<rparr>), dw_better = (\<lambda>_. False) \<rparr>"

section \<open>What a diagram is\<close>

fun diagram :: "fee_frac list \<Rightarrow> real \<Rightarrow> real" where
  \<comment> \<open>the fee reached at a size: a line over each chunk, and flat after the last\<close>
  "diagram [] x = 0"
| "diagram (c # cs) x =
     (if x \<le> real_of_int (ff_size c) then real_of_int (ff_fee c) / real_of_int (ff_size c) * x
      else real_of_int (ff_fee c) + diagram cs (x - real_of_int (ff_size c)))"

definition sized :: "fee_frac list \<Rightarrow> bool" where
  "sized cs \<longleftrightarrow> (\<forall>c\<in>set cs. 0 < ff_size c)"

lemma diagram_zero [simp]: "sized cs \<Longrightarrow> diagram cs 0 = 0"
  by (cases cs) (auto simp: sized_def)

definition height_at :: "diagram_walk \<Rightarrow> bool \<Rightarrow> real \<Rightarrow> real" where
  \<comment> \<open>what is left of a diagram, from the point it has reached\<close>
  "height_at w s x = real_of_int (ff_fee (dw_accum w s)) + diagram (dw_rest w s) (x - real_of_int (ff_size (dw_accum w s)))"

definition reached :: "diagram_walk \<Rightarrow> int" where
  "reached w = max (ff_size (dw_accum w False)) (ff_size (dw_accum w True))"

definition walk_ok :: "diagram_walk \<Rightarrow> bool" where
  "walk_ok w \<longleftrightarrow> (\<forall>s. sized (dw_rest w s)) \<and> (\<forall>s p. next_point s w = Some p \<longrightarrow> reached w < ff_size p)
     \<and> (\<forall>s. height_at w s (real_of_int (reached w)) > height_at w (\<not> s) (real_of_int (reached w)) \<longrightarrow> dw_better w s)
     \<and> \<not> (dw_better w False \<and> dw_better w True)"

lemma slope_segment:
  assumes "next_point s w = Some p" "sized (dw_rest w s)" "x \<le> real_of_int (ff_size p)"
  shows "height_at w s x = real_of_int (ff_fee (dw_accum w s))
    + real_of_int (ff_fee p - ff_fee (dw_accum w s)) / real_of_int (ff_size p - ff_size (dw_accum w s)) * (x - real_of_int (ff_size (dw_accum w s)))"
  using assms by (auto simp: height_at_def next_point_def split: list.splits)

lemma flat_segment: "next_point s w = None \<Longrightarrow> height_at w s x = real_of_int (ff_fee (dw_accum w s))"
  by (auto simp: height_at_def next_point_def split: list.splits)

lemma height_advanced:
  assumes "advance_point s w = Some w'" "sized (dw_rest w s)"
  shows "real_of_int (ff_size (dw_accum w' s)) \<le> x \<Longrightarrow> height_at w' s x = height_at w s x" "height_at w' (\<not> s) x = height_at w (\<not> s) x"
proof -
  show "height_at w' (\<not> s) x = height_at w (\<not> s) x"
    using assms by (cases s) (auto simp: height_at_def advance_point_def bind_eq_Some_conv)
  assume "real_of_int (ff_size (dw_accum w' s)) \<le> x"
  moreover obtain c cs where cs: "dw_rest w s = c # cs"
    using assms by (auto simp: advance_point_def bind_eq_Some_conv next_point_def split: list.splits)
  moreover have "sized cs" "0 < ff_size c" using assms(2) cs by (auto simp: sized_def)
  ultimately show "height_at w' s x = height_at w s x"
    using assms(1) by (cases "x = real_of_int (ff_size (dw_accum w s)) + real_of_int (ff_size c)")
      (auto simp: height_at_def advance_point_def next_point_def algebra_simps)
qed

section \<open>A turn of the loop\<close>

definition judged :: "bool \<Rightarrow> int \<Rightarrow> diagram_walk \<Rightarrow> diagram_walk" where
  "judged s cmp w = w\<lparr> dw_better := (\<lambda>t. dw_better w t \<or> (if t = s then cmp > 0 else cmp < 0)) \<rparr>"

definition moved :: "bool \<Rightarrow> fee_frac \<Rightarrow> diagram_walk \<Rightarrow> diagram_walk" where
  "moved s p w = w\<lparr> dw_accum := (dw_accum w)(s := p), dw_rest := (dw_rest w)(s := tl (dw_rest w s)) \<rparr>"

lemma advance_moved: "next_point s w = Some p \<Longrightarrow> advance_point s w = Some (moved s p w)"
  by (simp add: advance_point_def moved_def)

lemma judged_parts [simp]:
  "dw_rest (judged s c w) = dw_rest w" "dw_accum (judged s c w) = dw_accum w" "next_point t (judged s c w) = next_point t w"
  "height_at (judged s c w) t x = height_at w t x"
  by (simp_all add: judged_def next_point_def height_at_def cong: list.case_cong)

lemma moved_parts [simp]: "dw_better (moved s p w) = dw_better w" "next_point (\<not> s) (moved s p w) = next_point (\<not> s) w"
  by (simp_all add: moved_def next_point_def cong: list.case_cong)

lemma next_point_None: "next_point s w = None \<longleftrightarrow> dw_rest w s = []"
  by (simp add: next_point_def split: list.splits)

lemma judged_eq:
  "w\<lparr> dw_better := (if cmp < 0 then (if cmp > 0 then (dw_better w)(s := True) else dw_better w)(\<not> s := True)
     else (if cmp > 0 then (dw_better w)(s := True) else dw_better w)) \<rparr> = judged s cmp w"
  unfolding judged_def by (rule arg_cong [where f = "\<lambda>b. w\<lparr> dw_better := b \<rparr>"], rule ext) auto

lemma turn_alone:
  assumes "next_point s w = Some p" "next_point (\<not> s) w = None"
  defines "w3 \<equiv> moved s p (judged s (feerate_compare (slope_from (dw_accum w (\<not> s)) p) \<lparr> ff_fee = 0, ff_size = 1 \<rparr>) w)"
  shows "compare_walk w = (if dw_better w3 False \<and> dw_better w3 True then Some None else compare_walk w3)"
proof -
  have "dw_rest w s \<noteq> []" "dw_rest w (\<not> s) = []" using assms(1,2) next_point_None by (metis option.distinct(1))+
  then have rest: "dw_rest w False = [] \<longleftrightarrow> s" "dw_rest w True = [] \<longleftrightarrow> \<not> s" by (cases s; simp)+
  have adv: "advance_point s (judged s c w) = Some (moved s p (judged s c w))" for c
    by (rule advance_moved) (simp add: assms(1))
  show ?thesis
    unfolding compare_walk.simps [of w] Let_def rest w3_def
    by (simp add: assms(1) judged_eq adv del: not_less)
qed

lemma turn_both:
  assumes p: "next_point s w = Some p" and b: "next_point (\<not> s) w = Some b" and le: "ff_size p \<le> ff_size b" "ff_size p = ff_size b \<Longrightarrow> \<not> s"
  defines "w1 \<equiv> (if ff_size b = ff_size p then moved (\<not> s) b w else w)"
  defines "w3 \<equiv> moved s p (judged s (feerate_compare (slope_from (dw_accum w (\<not> s)) p) (slope_from (dw_accum w (\<not> s)) b)) w1)"
  shows "compare_walk w = (if dw_better w3 False \<and> dw_better w3 True then Some None else compare_walk w3)"
proof -
  have ne: "dw_rest w False \<noteq> []" "dw_rest w True \<noteq> []"
    using p b next_point_None [of False w] next_point_None [of True w] by (cases s; simp)+
  have side: "do { p0 \<leftarrow> next_point False w; p1 \<leftarrow> next_point True w; Some (ff_size p0 > ff_size p1) } = Some s"
    using p b le by (cases s) (auto simp: order_le_less)
  have w1: "(if ff_size b = ff_size p then advance_point (\<not> s) w else Some w) = Some w1"
    using advance_moved [OF b] by (simp add: w1_def)
  have p1: "next_point s (judged s c w1) = Some p" for c
    using p moved_parts(2) [of "\<not> s" b w] by (simp add: w1_def)
  have adv: "advance_point s (judged s c w1) = Some (moved s p (judged s c w1))" for c
    by (rule advance_moved) (rule p1)
  show ?thesis
    unfolding compare_walk.simps [of w] Let_def w3_def
    by (simp add: ne side p b w1 judged_eq adv del: not_less)
qed

section \<open>Lines\<close>

definition next_size :: "bool \<Rightarrow> diagram_walk \<Rightarrow> int \<Rightarrow> bool" where
  \<comment> \<open>no corner of the diagram before the size\<close>
  "next_size s w x \<longleftrightarrow> (\<forall>p. next_point s w = Some p \<longrightarrow> x \<le> ff_size p)"

definition steep :: "bool \<Rightarrow> diagram_walk \<Rightarrow> real" where
  "steep s w = (case next_point s w of None \<Rightarrow> 0
     | Some p \<Rightarrow> real_of_int (ff_fee p - ff_fee (dw_accum w s)) / real_of_int (ff_size p - ff_size (dw_accum w s)))"

lemma height_line:
  assumes "next_size s w n" "sized (dw_rest w s)" "x \<le> real_of_int n"
  shows "height_at w s x = real_of_int (ff_fee (dw_accum w s)) + steep s w * (x - real_of_int (ff_size (dw_accum w s)))"
proof (cases "next_point s w")
  case None
  then show ?thesis by (simp add: flat_segment steep_def)
next
  case (Some p)
  then have "x \<le> real_of_int (ff_size p)" using assms(1,3) by (auto simp: next_size_def)
  with Some show ?thesis using slope_segment [OF Some assms(2)] by (simp add: steep_def)
qed

lemma line_between:
  fixes A B :: real
  assumes "A + B * x > 0" "m \<le> x" "x \<le> n"
  shows "A + B * m > 0 \<or> A + B * n > 0"
proof (cases "0 \<le> B")
  case True
  then have "B * x \<le> B * n" using assms(3) by (rule mult_left_mono [rotated])
  then show ?thesis using assms(1) by linarith
next
  case False
  then have "B * x \<le> B * m" using assms(2) by (simp add: mult_left_mono_neg)
  then show ?thesis using assms(1) by linarith
qed

lemma higher_between:
  assumes "next_size s w n" "next_size t w n" "sized (dw_rest w s)" "sized (dw_rest w t)"
    and "m \<le> x" "x \<le> real_of_int n" "height_at w s x > height_at w t x"
  shows "height_at w s m > height_at w t m \<or> height_at w s (real_of_int n) > height_at w t (real_of_int n)"
proof -
  let ?f = "\<lambda>s. real_of_int (ff_fee (dw_accum w s)) - steep s w * real_of_int (ff_size (dw_accum w s))"
  have line: "height_at w s y - height_at w t y = (?f s - ?f t) + (steep s w - steep t w) * y" if "y \<le> real_of_int n" for y
    using height_line [OF assms(1,3) that] height_line [OF assms(2,4) that] by (simp add: algebra_simps)
  have "(?f s - ?f t) + (steep s w - steep t w) * x > 0" using line [OF assms(6)] assms(7) by simp
  from line_between [OF this assms(5,6)] show ?thesis using line [of m] line [of "real_of_int n"] assms(5,6) by auto
qed

lemma compare_at_point:
  assumes p: "next_point s w = Some p" and sz: "\<And>t. sized (dw_rest w t)" and lt: "ff_size (dw_accum w (\<not> s)) < ff_size p"
    and q: "q = (case next_point (\<not> s) w of None \<Rightarrow> \<lparr> ff_fee = 0, ff_size = 1 \<rparr> | Some b \<Rightarrow> slope_from (dw_accum w (\<not> s)) b)"
    and le: "\<And>b. next_point (\<not> s) w = Some b \<Longrightarrow> ff_size p \<le> ff_size b"
  shows "feerate_compare (slope_from (dw_accum w (\<not> s)) p) q > 0
      \<longleftrightarrow> height_at w s (real_of_int (ff_size p)) > height_at w (\<not> s) (real_of_int (ff_size p))"
    and "feerate_compare (slope_from (dw_accum w (\<not> s)) p) q < 0
      \<longleftrightarrow> height_at w s (real_of_int (ff_size p)) < height_at w (\<not> s) (real_of_int (ff_size p))"
proof -
  let ?a = "dw_accum w (\<not> s)" and ?x = "real_of_int (ff_size p)"
  have "ff_size (dw_accum w s) < ff_size p"
    using p sz [of s] by (auto simp: next_point_def sized_def split: list.splits)
  then have hs: "height_at w s ?x = real_of_int (ff_fee p)" using slope_segment [OF p sz, of ?x] by simp
  have "next_size (\<not> s) w (ff_size p)" using le by (simp add: next_size_def)
  from height_line [OF this sz, of ?x] have ho: "height_at w (\<not> s) ?x
    = real_of_int (ff_fee ?a) + steep (\<not> s) w * real_of_int (ff_size p - ff_size ?a)" by simp
  have pos: "0 < ff_size q" using q le lt by (auto simp: slope_from_def split: option.splits)
  have steep: "steep (\<not> s) w = real_of_int (ff_fee q) / real_of_int (ff_size q)"
    by (simp add: steep_def q slope_from_def split: option.splits)
  have h: "height_at w (\<not> s) ?x
    = real_of_int (ff_fee ?a) + real_of_int (ff_fee q * (ff_size p - ff_size ?a)) / real_of_int (ff_size q)"
    using ho steep by simp
  have eq: "real_of_int (ff_fee q * (ff_size p - ff_size ?a)) / real_of_int (ff_size q) < real_of_int (ff_fee p - ff_fee ?a)
      \<longleftrightarrow> ff_fee q * (ff_size p - ff_size ?a) < (ff_fee p - ff_fee ?a) * ff_size q"
    "real_of_int (ff_fee p - ff_fee ?a) < real_of_int (ff_fee q * (ff_size p - ff_size ?a)) / real_of_int (ff_size q)
      \<longleftrightarrow> (ff_fee p - ff_fee ?a) * ff_size q < ff_fee q * (ff_size p - ff_size ?a)"
    using pos by (simp_all add: pos_divide_less_eq pos_less_divide_eq flip: of_int_mult of_int_diff)
  show "feerate_compare (slope_from ?a p) q > 0 \<longleftrightarrow> height_at w s ?x > height_at w (\<not> s) ?x"
    unfolding feerate_compare_sgn(1) slope_from_def hs h using eq(1) by simp linarith
  show "feerate_compare (slope_from ?a p) q < 0 \<longleftrightarrow> height_at w s ?x < height_at w (\<not> s) ?x"
    unfolding feerate_compare_sgn(2) slope_from_def hs h using eq(2) by simp linarith
qed

section \<open>The whole comparison\<close>

definition verdict :: "bool \<Rightarrow> bool \<Rightarrow> int option" where
  "verdict x y = (if x \<and> y then None else Some (of_bool x - of_bool y))"

definition ever_better :: "diagram_walk \<Rightarrow> bool \<Rightarrow> bool" where
  "ever_better w s \<longleftrightarrow> dw_better w s \<or> (\<exists>x\<ge>real_of_int (reached w). height_at w s x > height_at w (\<not> s) x)"

definition walk_turn :: "diagram_walk \<Rightarrow> diagram_walk \<Rightarrow> bool" where
  "walk_turn w w3 \<longleftrightarrow> compare_walk w = (if dw_better w3 False \<and> dw_better w3 True then Some None else compare_walk w3)
     \<and> reached w < reached w3 \<and> (\<forall>t. next_size t w (reached w3))
     \<and> (\<forall>t. dw_better w3 t \<longleftrightarrow> dw_better w t \<or> height_at w t (real_of_int (reached w3)) > height_at w (\<not> t) (real_of_int (reached w3)))
     \<and> (\<forall>t x. real_of_int (reached w3) \<le> x \<longrightarrow> height_at w3 t x = height_at w t x)
     \<and> (\<forall>t. sized (dw_rest w3 t)) \<and> (\<forall>t p. next_point t w3 = Some p \<longrightarrow> reached w3 < ff_size p)
     \<and> length (dw_rest w3 False) + length (dw_rest w3 True) < length (dw_rest w False) + length (dw_rest w True)"

lemma moved_reach: "ff_size (dw_accum w (\<not> s)) \<le> ff_size p \<Longrightarrow> reached (moved s p w) = ff_size p"
  by (cases s) (simp_all add: reached_def moved_def)

lemma moved_height:
  assumes "next_point s w = Some p" "sized (dw_rest w s)" "real_of_int (ff_size p) \<le> x"
  shows "height_at (moved s p w) t x = height_at w t x"
proof (cases "t = s")
  case True
  have "dw_accum (moved s p w) s = p" by (simp add: moved_def)
  then show ?thesis using height_advanced(1) [OF advance_moved [OF assms(1)] assms(2)] assms(3) True by simp
next
  case False
  then have "t = (\<not> s)" by auto
  then show ?thesis using height_advanced(2) [OF advance_moved [OF assms(1)] assms(2)] by simp
qed

lemma sized_tl: "sized cs \<Longrightarrow> sized (tl cs)"
  by (cases cs) (auto simp: sized_def)

lemma moved_sized: "(\<And>t. sized (dw_rest w t)) \<Longrightarrow> sized (dw_rest (moved s p w) t)"
  by (simp add: moved_def sized_tl)

lemma moved_next:
  assumes "next_point s w = Some p" "sized (dw_rest w s)" "next_point s (moved s p w) = Some q"
  shows "ff_size p < ff_size q"
  using assms by (auto simp: next_point_def moved_def sized_def split: list.splits)

lemma moved_shorter: "next_point s w = Some p \<Longrightarrow> length (dw_rest (moved s p w) s) < length (dw_rest w s)"
  by (auto simp: next_point_def moved_def split: list.splits)

lemma turn_end:
  assumes step: "compare_walk w = (if dw_better w3 False \<and> dw_better w3 True then Some None else compare_walk w3)"
    and w3: "w3 = moved s p (judged s cmp w1)" and ok: "walk_ok w"
    and p: "next_point s w = Some p" "\<And>b. next_point (\<not> s) w = Some b \<Longrightarrow> ff_size p \<le> ff_size b"
    and cmp: "cmp > 0 \<longleftrightarrow> height_at w s (real_of_int (ff_size p)) > height_at w (\<not> s) (real_of_int (ff_size p))"
      "cmp < 0 \<longleftrightarrow> height_at w s (real_of_int (ff_size p)) < height_at w (\<not> s) (real_of_int (ff_size p))"
    and w1: "next_point s w1 = Some p" "\<And>t. sized (dw_rest w1 t)" "dw_better w1 = dw_better w"
      "\<And>t x. real_of_int (ff_size p) \<le> x \<Longrightarrow> height_at w1 t x = height_at w t x"
      "ff_size (dw_accum w1 (\<not> s)) \<le> ff_size p" "\<And>q. next_point (\<not> s) w1 = Some q \<Longrightarrow> ff_size p < ff_size q"
      "dw_rest w1 s = dw_rest w s" "length (dw_rest w1 (\<not> s)) \<le> length (dw_rest w (\<not> s))"
  shows "walk_turn w w3"
proof -
  let ?j = "judged s cmp w1"
  have j: "next_point s ?j = Some p" "\<And>t. sized (dw_rest ?j t)" using w1(1,2) by simp_all
  have reach: "reached w3 = ff_size p" unfolding w3 by (rule moved_reach) (simp add: w1(5))
  have lt: "reached w < ff_size p" using ok p(1) by (simp add: walk_ok_def)
  have next_size: "next_size t w (ff_size p)" for t using p by (cases "t = s") (auto simp: next_size_def)
  have better: "dw_better w3 t \<longleftrightarrow> dw_better w t \<or> height_at w t (real_of_int (ff_size p)) > height_at w (\<not> t) (real_of_int (ff_size p))" for t
    using cmp by (cases "t = s"; cases t; cases s) (auto simp: w3 judged_def w1(3))
  have height: "height_at w3 t x = height_at w t x" if "real_of_int (ff_size p) \<le> x" for t x
    unfolding w3 using moved_height [OF j(1) j(2) that] w1(4) [OF that] by simp
  have next_pt: "ff_size p < ff_size q" if "next_point t w3 = Some q" for t q
  proof (cases "t = s")
    case True
    then show ?thesis using moved_next [OF j] that w3 by simp
  next
    case False
    then have "t = (\<not> s)" by auto
    then have "next_point (\<not> s) w1 = Some q" using that unfolding w3 by simp
    then show ?thesis by (rule w1(6))
  qed
  have len: "length (dw_rest w3 s) < length (dw_rest w s)" "length (dw_rest w3 (\<not> s)) \<le> length (dw_rest w (\<not> s))"
    using moved_shorter [OF j(1)] w1(7,8) by (simp_all add: w3) (simp_all add: moved_def)
  then have "length (dw_rest w3 False) + length (dw_rest w3 True) < length (dw_rest w False) + length (dw_rest w True)"
    by (cases s) simp_all
  moreover have "\<forall>t. sized (dw_rest w3 t)" unfolding w3 using moved_sized [of ?j] j(2) by blast
  ultimately show ?thesis unfolding walk_turn_def reach using step lt next_size better height next_pt by blast
qed

lemma walk_turns:
  assumes ok: "walk_ok w" and more: "\<not> (dw_rest w False = [] \<and> dw_rest w True = [])"
  shows "\<exists>w3. walk_turn w w3"
proof -
  have sz: "\<And>t. sized (dw_rest w t)" and ahead: "\<And>t p. next_point t w = Some p \<Longrightarrow> reached w < ff_size p"
    using ok by (simp_all add: walk_ok_def)
  have "\<exists>s p. next_point s w = Some p \<and> (\<forall>b. next_point (\<not> s) w = Some b \<longrightarrow> ff_size p \<le> ff_size b \<and> (ff_size p = ff_size b \<longrightarrow> \<not> s))"
  proof (cases "next_point False w")
    case None
    then obtain p where "next_point True w = Some p" using more next_point_None by blast
    with None show ?thesis by (intro exI [of _ True]) simp
  next
    case (Some p)
    show ?thesis
    proof (cases "next_point True w")
      case None
      with Some show ?thesis by (intro exI [of _ False]) simp
    next
      case (Some b)
      show ?thesis
      proof (cases "ff_size b < ff_size p")
        case True
        with Some \<open>next_point False w = Some p\<close> show ?thesis by (intro exI [of _ True]) simp
      next
        case False
        with Some \<open>next_point False w = Some p\<close> show ?thesis by (intro exI [of _ False]) simp
      qed
    qed
  qed
  then obtain s p where p: "next_point s w = Some p" "\<And>b. next_point (\<not> s) w = Some b \<Longrightarrow> ff_size p \<le> ff_size b"
    "\<And>b. next_point (\<not> s) w = Some b \<Longrightarrow> ff_size p = ff_size b \<Longrightarrow> \<not> s" by blast
  have acc: "ff_size (dw_accum w (\<not> s)) \<le> reached w" by (cases s) (simp_all add: reached_def)
  then have lt: "ff_size (dw_accum w (\<not> s)) < ff_size p" using ahead [OF p(1)] by linarith
  show ?thesis
  proof (cases "next_point (\<not> s) w")
    case None
    note cmp = compare_at_point [OF p(1) sz lt refl p(2), unfolded None option.case]
    show ?thesis
      by (rule exI, rule turn_end [OF turn_alone [OF p(1) None] refl ok p(1,2) cmp p(1) sz refl refl])
        (use lt None in simp_all)
  next
    case (Some b)
    note cmp = compare_at_point [OF p(1) sz lt refl p(2), unfolded Some option.case]
    let ?w1 = "if ff_size b = ff_size p then moved (\<not> s) b w else w"
    have sz1: "\<And>t. sized (dw_rest ?w1 t)" using sz moved_sized [of w] by simp
    have n1: "next_point s ?w1 = Some p" using p(1) moved_parts(2) [of "\<not> s" b w] by simp
    have h1: "height_at ?w1 t x = height_at w t x" if "real_of_int (ff_size p) \<le> x" for t x
      using moved_height [OF Some sz, of x t] that by simp
    have a1: "ff_size (dw_accum ?w1 (\<not> s)) \<le> ff_size p" using lt by (simp add: moved_def)
    have q1: "ff_size p < ff_size q" if "next_point (\<not> s) ?w1 = Some q" for q
      using that moved_next [OF Some sz] p(2) [OF Some] Some by (auto split: if_splits)
    have r1: "dw_rest ?w1 s = dw_rest w s" "length (dw_rest ?w1 (\<not> s)) \<le> length (dw_rest w (\<not> s))" by (simp_all add: moved_def)
    have b1: "dw_better ?w1 = dw_better w" by simp
    show ?thesis
      by (rule exI, rule turn_end [OF turn_both [OF p(1) Some p(2) [OF Some] p(3) [OF Some]] refl ok p(1,2) cmp n1 sz1 b1 h1 a1 q1 r1])
  qed
qed

lemma compare_walk_verdict:
  assumes "walk_ok w"
  shows "compare_walk w = Some (verdict (ever_better w False) (ever_better w True))"
  using assms
proof (induction "length (dw_rest w False) + length (dw_rest w True)" arbitrary: w rule: less_induct)
  case less
  show ?case
  proof (cases "dw_rest w False = [] \<and> dw_rest w True = []")
    case True
    then have "ever_better w s \<longleftrightarrow> dw_better w s" for s
      using less.prems True unfolding ever_better_def walk_ok_def
      by (cases s) (auto simp: height_at_def)
    with True less.prems show ?thesis by (simp add: compare_walk.simps [of w] verdict_def walk_ok_def)
  next
    case False
    then obtain w3 where turn: "walk_turn w w3" using walk_turns [OF less.prems] by blast
    let ?n = "real_of_int (reached w3)" let ?m = "real_of_int (reached w)"
    have step: "compare_walk w = (if dw_better w3 False \<and> dw_better w3 True then Some None else compare_walk w3)"
      and lt: "reached w < reached w3" and sizes: "\<And>t. next_size t w (reached w3)"
      and better: "\<And>t. dw_better w3 t \<longleftrightarrow> dw_better w t \<or> height_at w t ?n > height_at w (\<not> t) ?n"
      and height: "\<And>t x. ?n \<le> x \<Longrightarrow> height_at w3 t x = height_at w t x"
      and sz: "\<And>t. sized (dw_rest w3 t)" and ahead: "\<And>t p. next_point t w3 = Some p \<Longrightarrow> reached w3 < ff_size p"
      and len: "length (dw_rest w3 False) + length (dw_rest w3 True) < length (dw_rest w False) + length (dw_rest w True)"
      using turn unfolding walk_turn_def by blast+
    have szw: "\<And>t. sized (dw_rest w t)" and seen: "\<And>t. height_at w t ?m > height_at w (\<not> t) ?m \<Longrightarrow> dw_better w t"
      using less.prems by (simp_all add: walk_ok_def)
    have ever: "ever_better w3 t \<longleftrightarrow> ever_better w t" for t
    proof
      assume "ever_better w3 t"
      then show "ever_better w t" using better height lt unfolding ever_better_def by (smt (verit) of_int_le_iff)
    next
      assume "ever_better w t"
      then consider "dw_better w t" | x where "?m \<le> x" "height_at w t x > height_at w (\<not> t) x" unfolding ever_better_def by blast
      then show "ever_better w3 t"
      proof cases
        case (2 x)
        show ?thesis
        proof (cases "?n \<le> x")
          case True
          with 2 show ?thesis using height [OF True] unfolding ever_better_def by auto
        next
          case False
          then have "height_at w t ?m > height_at w (\<not> t) ?m \<or> height_at w t ?n > height_at w (\<not> t) ?n"
            using higher_between [OF sizes sizes szw szw 2(1)] 2(2) by simp
          then show ?thesis using seen better unfolding ever_better_def by blast
        qed
      qed (simp add: ever_better_def better)
    qed
    show ?thesis
    proof (cases "dw_better w3 False \<and> dw_better w3 True")
      case True
      then have "ever_better w3 False" "ever_better w3 True" by (simp_all add: ever_better_def)
      with True step ever show ?thesis by (simp add: verdict_def)
    next
      case False
      have "walk_ok w3" unfolding walk_ok_def using sz ahead False better height [of ?n] by auto
      from less.hyps [OF len this] show ?thesis unfolding step if_not_P [OF False] ever .
    qed
  qed
qed

text \<open>C34.
  The comparison of two diagrams returns, and tells which is above the other somewhere: none where each
  is, 1 where only the first is, -1 where only the second is, and 0 where the diagrams are equal.  The
  code looks at the corners alone.\<close>
theorem compare_chunks_diagrams:
  assumes "\<forall>c\<in>set chunks0. 0 < ff_size c" "\<forall>c\<in>set chunks1. 0 < ff_size c"
  shows "compare_chunks chunks0 chunks1 = Some (
      let first = (\<exists>x\<ge>0. diagram chunks0 x > diagram chunks1 x); second = (\<exists>x\<ge>0. diagram chunks1 x > diagram chunks0 x)
      in if first \<and> second then None else Some (of_bool first - of_bool second))"
proof -
  let ?w = "\<lparr> dw_rest = (\<lambda>dia. if dia then chunks1 else chunks0), dw_accum = (\<lambda>_. \<lparr> ff_fee = 0, ff_size = 0 \<rparr>), dw_better = (\<lambda>_. False) \<rparr>"
  have sz: "sized chunks0" "sized chunks1" using assms by (simp_all add: sized_def)
  have "walk_ok ?w" using sz by (auto simp: walk_ok_def next_point_def reached_def height_at_def sized_def split: list.splits)
  from compare_walk_verdict [OF this] show ?thesis
    by (simp add: compare_chunks_def verdict_def ever_better_def reached_def height_at_def Let_def)
qed

theorem compare_chunks_diagrams_witness:
  "compare_chunks [\<lparr> ff_fee = 3, ff_size = 1 \<rparr>, \<lparr> ff_fee = 1, ff_size = 1 \<rparr>] [\<lparr> ff_fee = 4, ff_size = 2 \<rparr>] = Some (Some 1)
   \<and> \<not> (\<exists>x\<ge>0. diagram [\<lparr> ff_fee = 4, ff_size = 2 \<rparr>] x > diagram [\<lparr> ff_fee = 3, ff_size = 1 \<rparr>, \<lparr> ff_fee = 1, ff_size = 1 \<rparr>] x)"
proof -
  let ?a = "[\<lparr> ff_fee = 3, ff_size = 1 \<rparr>, \<lparr> ff_fee = 1, ff_size = 1 \<rparr>]" and ?b = "[\<lparr> ff_fee = 4, ff_size = 2 \<rparr>]"
  have "compare_chunks ?a ?b = Some (Some 1)" by code_simp
  then show ?thesis using compare_chunks_diagrams [of ?a ?b] by (auto simp: Let_def split: if_splits)
qed

end
