(* ===== verification/Dep_Graph.thy ===== *)
theory Dep_Graph
  imports Feerates Bit_Masks "HOL-Library.Product_Lexorder"
begin

unbundle bit_operations_syntax

text \<open>
  \<open>DepGraph\<close> of \<open>cluster_linearize.py\<close>: the fees, sizes, ancestors and descendants of the transactions
  of a cluster, each at its position, a set of them being an integer used as a mask.  An index out of
  range, a shift by a negative count and a pop of an empty list raise: they are \<open>None\<close>.
\<close>

section \<open>Lists by index\<close>

definition py_set :: "'a list \<Rightarrow> int \<Rightarrow> 'a \<Rightarrow> 'a list option" where
  \<comment> \<open>\<open>xs[i] = v\<close>\<close>
  "py_set xs i v =
     (let n = int (length xs); j = (if i < 0 then n + i else i)
      in if 0 \<le> j \<and> j < n then Some (xs[nat j := v]) else None)"

lemma py_set_at [py_simps]: "i < length xs \<Longrightarrow> py_set xs (int i) v = Some (xs[i := v])"
  by (simp add: py_set_def Let_def)

lemma py_nth_at [py_simps]: "i < length xs \<Longrightarrow> py_nth xs (int i) = Some (xs ! i)"
  by (simp add: py_nth_def Let_def)

definition shift_one :: "int \<Rightarrow> int option" where
  \<comment> \<open>\<open>1 << i\<close>\<close>
  "shift_one i = (if i < 0 then None else Some (push_bit (nat i) 1))"

lemma shift_one_at [py_simps]: "shift_one (int i) = Some (push_bit i 1)"
  by (simp add: shift_one_def)

fun all_opt :: "('a \<Rightarrow> bool option) \<Rightarrow> 'a list \<Rightarrow> bool option" where
  \<comment> \<open>\<open>all\<close> of a generator, which stops at the first that is false\<close>
  "all_opt P [] = Some True"
| "all_opt P (x # xs) = do { b \<leftarrow> P x; if b then all_opt P xs else Some False }"

definition mask_holds :: "int \<Rightarrow> int \<Rightarrow> bool" where
  \<comment> \<open>\<open>mask >> i & 1\<close>\<close>
  "mask_holds m i \<longleftrightarrow> drop_bit (nat i) m AND 1 \<noteq> 0"

lemma mask_holds_at: "mask_holds m (int i) \<longleftrightarrow> i \<in> bit_set m"
  using drop_bit_odd [of i m] by (auto simp: mask_holds_def bit_set_def)

section \<open>The graph\<close>

record dep_graph =
  dg_fees :: "int list"
  dg_sizes :: "int list"
  dg_ancestors :: "int list"
  dg_descendants :: "int list"
  dg_positions :: int

definition new_dep_graph :: dep_graph where
  "new_dep_graph = \<lparr> dg_fees = [], dg_sizes = [], dg_ancestors = [], dg_descendants = [], dg_positions = 0 \<rparr>"

definition position_range :: "dep_graph \<Rightarrow> int" where
  "position_range g = int (length (dg_fees g))"

definition tx_count :: "dep_graph \<Rightarrow> int" where
  "tx_count g = bit_count (dg_positions g)"

definition dg_feerate :: "dep_graph \<Rightarrow> int \<Rightarrow> fee_frac option" where
  "dg_feerate g i = do { f \<leftarrow> py_nth (dg_fees g) i; s \<leftarrow> py_nth (dg_sizes g) i; Some \<lparr> ff_fee = f, ff_size = s \<rparr> }"

definition set_fee :: "int \<Rightarrow> int \<Rightarrow> dep_graph \<Rightarrow> dep_graph option" where
  "set_fee i fee g = do { fees \<leftarrow> py_set (dg_fees g) i fee; Some (g\<lparr> dg_fees := fees \<rparr>) }"

definition add_transaction :: "fee_frac \<Rightarrow> dep_graph \<Rightarrow> (dep_graph \<times> int) option" where
  "add_transaction feerate g =
     (let i = bit_length (NOT (dg_positions g) AND (dg_positions g + 1)) - 1
      in do {
        one \<leftarrow> shift_one i;
        g1 \<leftarrow> (if i = int (length (dg_fees g))
               then Some (g\<lparr> dg_fees := dg_fees g @ [ff_fee feerate], dg_sizes := dg_sizes g @ [ff_size feerate],
                             dg_ancestors := dg_ancestors g @ [one], dg_descendants := dg_descendants g @ [one] \<rparr>)
               else do {
                 fees \<leftarrow> py_set (dg_fees g) i (ff_fee feerate);
                 sizes \<leftarrow> py_set (dg_sizes g) i (ff_size feerate);
                 anc \<leftarrow> py_set (dg_ancestors g) i one;
                 des \<leftarrow> py_set (dg_descendants g) i one;
                 Some (g\<lparr> dg_fees := fees, dg_sizes := sizes, dg_ancestors := anc, dg_descendants := des \<rparr>)
               });
        Some (g1\<lparr> dg_positions := dg_positions g OR one \<rparr>, i)
      })"

function trim_positions :: "dep_graph \<Rightarrow> dep_graph option" where
  "trim_positions g =
     (if dg_fees g \<noteq> [] \<and> \<not> mask_holds (dg_positions g) (int (length (dg_fees g)) - 1)
      then if dg_sizes g = [] \<or> dg_ancestors g = [] \<or> dg_descendants g = [] then None
           else trim_positions (g\<lparr> dg_fees := butlast (dg_fees g), dg_sizes := butlast (dg_sizes g),
                                   dg_ancestors := butlast (dg_ancestors g), dg_descendants := butlast (dg_descendants g) \<rparr>)
      else Some g)"
  by pat_completeness auto
termination
  by (relation "measure (\<lambda>g. length (dg_fees g))") auto

declare trim_positions.simps [simp del]

definition restrict_at :: "int \<Rightarrow> dep_graph \<Rightarrow> dep_graph option" where
  "restrict_at i g =
     do {
       a \<leftarrow> py_nth (dg_ancestors g) i;
       anc \<leftarrow> py_set (dg_ancestors g) i (a AND dg_positions g);
       d \<leftarrow> py_nth (dg_descendants g) i;
       des \<leftarrow> py_set (dg_descendants g) i (d AND dg_positions g);
       Some (g\<lparr> dg_ancestors := anc, dg_descendants := des \<rparr>)
     }"

definition remove_transactions :: "int \<Rightarrow> dep_graph \<Rightarrow> dep_graph option" where
  "remove_transactions delete g =
     do {
       g1 \<leftarrow> trim_positions (g\<lparr> dg_positions := dg_positions g AND NOT delete \<rparr>);
       fold_opt restrict_at (map int [0..<length (dg_fees g1)]) g1
     }"

definition union_at :: "int list \<Rightarrow> int \<Rightarrow> int \<Rightarrow> int option" where
  "union_at masks i acc = do { m \<leftarrow> py_nth masks i; Some (acc OR m) }"

definition widen_descendants :: "int \<Rightarrow> int \<Rightarrow> dep_graph \<Rightarrow> dep_graph option" where
  "widen_descendants m i g =
     do { d \<leftarrow> py_nth (dg_descendants g) i; des \<leftarrow> py_set (dg_descendants g) i (d OR m); Some (g\<lparr> dg_descendants := des \<rparr>) }"

definition widen_ancestors :: "int \<Rightarrow> int \<Rightarrow> dep_graph \<Rightarrow> dep_graph option" where
  "widen_ancestors m i g =
     do { a \<leftarrow> py_nth (dg_ancestors g) i; anc \<leftarrow> py_set (dg_ancestors g) i (a OR m); Some (g\<lparr> dg_ancestors := anc \<rparr>) }"

definition add_dependencies :: "int \<Rightarrow> int \<Rightarrow> dep_graph \<Rightarrow> dep_graph option" where
  "add_dependencies parents child g =
     do {
       child_ancestors \<leftarrow> py_nth (dg_ancestors g) child;
       found \<leftarrow> fold_opt (union_at (dg_ancestors g)) (bits_of (parents AND NOT child_ancestors)) 0;
       let parent_ancestors = found AND NOT child_ancestors;
       if parent_ancestors = 0 then Some g
       else do {
         child_des \<leftarrow> py_nth (dg_descendants g) child;
         g1 \<leftarrow> fold_opt (widen_descendants child_des) (bits_of parent_ancestors) g;
         fold_opt (widen_ancestors parent_ancestors) (bits_of child_des) g1
       }
     }"

definition reduce_parent :: "int list \<Rightarrow> int \<Rightarrow> int \<Rightarrow> int option" where
  "reduce_parent ancestors parent parents =
     (if mask_holds parents parent then do {
        a \<leftarrow> py_nth ancestors parent;
        one \<leftarrow> shift_one parent;
        Some ((parents AND NOT a) OR one)
      }
      else Some parents)"

definition reduced_parents :: "int \<Rightarrow> dep_graph \<Rightarrow> int option" where
  "reduced_parents i g =
     do {
       a \<leftarrow> py_nth (dg_ancestors g) i;
       one \<leftarrow> shift_one i;
       let parents = a AND NOT one;
       fold_opt (reduce_parent (dg_ancestors g)) (bits_of parents) parents
     }"

definition remap_place :: "dep_graph \<Rightarrow> int list \<Rightarrow> int \<Rightarrow> dep_graph \<Rightarrow> dep_graph option" where
  "remap_place depgraph mapping i new =
     do {
       j \<leftarrow> py_nth mapping i;
       one \<leftarrow> shift_one j;
       anc \<leftarrow> py_set (dg_ancestors new) j one;
       des \<leftarrow> py_set (dg_descendants new) j one;
       fee \<leftarrow> py_nth (dg_fees depgraph) i;
       fees \<leftarrow> py_set (dg_fees new) j fee;
       size \<leftarrow> py_nth (dg_sizes depgraph) i;
       sizes \<leftarrow> py_set (dg_sizes new) j size;
       Some (new\<lparr> dg_ancestors := anc, dg_descendants := des, dg_positions := dg_positions new OR one,
                  dg_fees := fees, dg_sizes := sizes \<rparr>)
     }"

definition map_position :: "int list \<Rightarrow> int \<Rightarrow> int \<Rightarrow> int option" where
  "map_position mapping j acc = do { k \<leftarrow> py_nth mapping j; one \<leftarrow> shift_one k; Some (acc OR one) }"

definition remap_parents :: "dep_graph \<Rightarrow> int list \<Rightarrow> int \<Rightarrow> dep_graph \<Rightarrow> dep_graph option" where
  "remap_parents depgraph mapping i new =
     do {
       reduced \<leftarrow> reduced_parents i depgraph;
       parents \<leftarrow> fold_opt (map_position mapping) (bits_of reduced) 0;
       j \<leftarrow> py_nth mapping i;
       add_dependencies parents j new
     }"

definition remapped :: "dep_graph \<Rightarrow> int list \<Rightarrow> int \<Rightarrow> dep_graph option" where
  "remapped depgraph mapping pos_range =
     (let blank = replicate (nat pos_range) 0
      in do {
        new \<leftarrow> fold_opt (remap_place depgraph mapping) (bits_of (dg_positions depgraph))
                 \<lparr> dg_fees = blank, dg_sizes = blank, dg_ancestors = blank, dg_descendants = blank, dg_positions = 0 \<rparr>;
        fold_opt (remap_parents depgraph mapping) (bits_of (dg_positions depgraph)) new
      })"

definition reach_from :: "dep_graph \<Rightarrow> int \<Rightarrow> int \<Rightarrow> int option" where
  "reach_from g i acc =
     do { d \<leftarrow> py_nth (dg_descendants g) i; a \<leftarrow> py_nth (dg_ancestors g) i; Some (acc OR (d OR a)) }"

partial_function (option) component_loop :: "dep_graph \<Rightarrow> int \<Rightarrow> int \<Rightarrow> int \<Rightarrow> int option" where
  "component_loop g todo to_add ret =
     (if to_add = 0 then Some ret
      else do {
        reached \<leftarrow> fold_opt (reach_from g) (bits_of to_add) ret;
        let ret' = reached AND todo;
        component_loop g todo (ret' AND NOT ret) ret'
      })"

declare component_loop.simps [code]

definition connected_component :: "int \<Rightarrow> int \<Rightarrow> dep_graph \<Rightarrow> int option" where
  "connected_component todo tx g = do { one \<leftarrow> shift_one tx; component_loop g todo one 0 }"

definition find_connected_component :: "int \<Rightarrow> dep_graph \<Rightarrow> int option" where
  "find_connected_component todo g = (if todo \<noteq> 0 then connected_component todo (first_position todo) g else Some 0)"

definition is_connected :: "int option \<Rightarrow> dep_graph \<Rightarrow> bool option" where
  "is_connected chosen g =
     (let todo = (case chosen of None \<Rightarrow> dg_positions g | Some m \<Rightarrow> m)
      in do { c \<leftarrow> find_connected_component todo g; Some (c = todo) })"

definition append_topo :: "int list \<Rightarrow> int \<Rightarrow> dep_graph \<Rightarrow> int list option" where
  "append_topo linearization select g =
     do {
       keyed \<leftarrow> those (map (\<lambda>i. do { a \<leftarrow> py_nth (dg_ancestors g) i; Some ((bit_count a, i), i) }) (bits_of select));
       Some (linearization @ map snd (sort_key fst keyed))
     }"

definition is_acyclic :: "dep_graph \<Rightarrow> bool option" where
  "is_acyclic g =
     all_opt (\<lambda>i. do {
       a \<leftarrow> py_nth (dg_ancestors g) i;
       d \<leftarrow> py_nth (dg_descendants g) i;
       one \<leftarrow> shift_one i;
       Some (a AND d = one)
     }) (bits_of (dg_positions g))"

end
