(* ===== verification/Dep_Graph_Proofs.thy ===== *)
theory Dep_Graph_Proofs
  imports Dep_Graph
begin

unbundle bit_operations_syntax

text \<open>
  What is proved of the dependency graph of a cluster: its masks are the ancestors and descendants
  of a relation that is reflexive and transitive, and each operation is one step on that relation.
\<close>

section \<open>The invariant\<close>

definition pos :: "dep_graph \<Rightarrow> nat set" where
  "pos g = bit_set (dg_positions g)"

definition anc :: "dep_graph \<Rightarrow> nat \<Rightarrow> nat set" where
  "anc g i = bit_set (dg_ancestors g ! i)"

definition des :: "dep_graph \<Rightarrow> nat \<Rightarrow> nat set" where
  "des g i = bit_set (dg_descendants g ! i)"

definition ancestry :: "dep_graph \<Rightarrow> (nat \<times> nat) set" where
  \<comment> \<open>the ancestor first; a transaction is its own ancestor\<close>
  "ancestry g = {(j, i). i \<in> pos g \<and> j \<in> anc g i}"

definition dg_shape :: "dep_graph \<Rightarrow> bool" where
  "dg_shape g \<longleftrightarrow> length (dg_sizes g) = length (dg_fees g) \<and> length (dg_ancestors g) = length (dg_fees g)
     \<and> length (dg_descendants g) = length (dg_fees g) \<and> 0 \<le> dg_positions g \<and> pos g \<subseteq> {..<length (dg_fees g)}
     \<and> (\<forall>m\<in>set (dg_ancestors g) \<union> set (dg_descendants g). 0 \<le> m)"

definition dg_ok :: "dep_graph \<Rightarrow> bool" where
  "dg_ok g \<longleftrightarrow> dg_shape g \<and> (dg_fees g \<noteq> [] \<longrightarrow> length (dg_fees g) - 1 \<in> pos g)
     \<and> (\<forall>i\<in>pos g. i \<in> anc g i \<and> anc g i \<subseteq> pos g \<and> des g i = {k \<in> pos g. i \<in> anc g k}) \<and> trans (ancestry g)"

lemma dg_okD:
  assumes "dg_ok g"
  shows "dg_shape g" "dg_fees g \<noteq> [] \<Longrightarrow> length (dg_fees g) - 1 \<in> pos g" "i \<in> pos g \<Longrightarrow> i \<in> anc g i" "i \<in> pos g \<Longrightarrow> anc g i \<subseteq> pos g"
    "i \<in> pos g \<Longrightarrow> des g i = {k \<in> pos g. i \<in> anc g k}" "trans (ancestry g)"
  using assms by (simp_all add: dg_ok_def)

lemma dg_okI:
  assumes "dg_shape g" "dg_fees g \<noteq> [] \<Longrightarrow> length (dg_fees g) - 1 \<in> pos g" "\<And>i. i \<in> pos g \<Longrightarrow> i \<in> anc g i"
    "\<And>i. i \<in> pos g \<Longrightarrow> anc g i \<subseteq> pos g" "\<And>i. i \<in> pos g \<Longrightarrow> des g i = {k \<in> pos g. i \<in> anc g k}" "trans (ancestry g)"
  shows "dg_ok g"
  using assms by (simp add: dg_ok_def)

lemma dg_shapeD:
  assumes "dg_shape g"
  shows "length (dg_sizes g) = length (dg_fees g)" "length (dg_ancestors g) = length (dg_fees g)"
    "length (dg_descendants g) = length (dg_fees g)" "0 \<le> dg_positions g" "i \<in> pos g \<Longrightarrow> i < length (dg_fees g)"
    "i < length (dg_fees g) \<Longrightarrow> 0 \<le> dg_ancestors g ! i" "i < length (dg_fees g) \<Longrightarrow> 0 \<le> dg_descendants g ! i"
  using assms by (auto simp: dg_shape_def)

lemma above_iff: "(j, i) \<in> ancestry g \<longleftrightarrow> i \<in> pos g \<and> j \<in> anc g i"
  by (simp add: ancestry_def)

lemma des_above: "dg_ok g \<Longrightarrow> i \<in> pos g \<Longrightarrow> k \<in> des g i \<longleftrightarrow> (i, k) \<in> ancestry g"
  using dg_okD(5) by (auto simp: above_iff)

lemma above_refl: "dg_ok g \<Longrightarrow> i \<in> pos g \<Longrightarrow> (i, i) \<in> ancestry g"
  using dg_okD(3) by (simp add: above_iff)

lemma above_pos: "dg_ok g \<Longrightarrow> (j, i) \<in> ancestry g \<Longrightarrow> j \<in> pos g \<and> i \<in> pos g"
  using dg_okD(4) by (auto simp: above_iff)

lemma new_dep_graph_ok: "dg_ok new_dep_graph" "ancestry new_dep_graph = {}" "pos new_dep_graph = {}"
  by (simp_all add: dg_ok_def dg_shape_def new_dep_graph_def pos_def ancestry_def bit_set_ops)

section \<open>Loops over the positions of a mask\<close>

lemma union_all:
  assumes "\<And>m. m \<in> set masks \<Longrightarrow> 0 \<le> m" "\<And>i. i \<in> set xs \<Longrightarrow> \<exists>k<length masks. i = int k" "0 \<le> acc"
  shows "\<exists>r. fold_opt (union_at masks) xs acc = Some r \<and> 0 \<le> r \<and> bit_set r = bit_set acc \<union> (\<Union>i\<in>set xs. bit_set (masks ! nat i))"
  using assms(2,3)
proof (induction xs arbitrary: acc)
  case Nil
  then show ?case by simp
next
  case (Cons x xs)
  obtain k where k: "k < length masks" "x = int k" using Cons.prems(1) by auto
  then have "0 \<le> masks ! k" using assms(1) by simp
  then have "0 \<le> acc OR masks ! k" using Cons.prems(2) by simp
  from Cons.IH [OF _ this] obtain r where r: "fold_opt (union_at masks) xs (acc OR masks ! k) = Some r" "0 \<le> r"
    "bit_set r = bit_set (acc OR masks ! k) \<union> (\<Union>i\<in>set xs. bit_set (masks ! nat i))" using Cons.prems(1) by auto
  moreover have "union_at masks x acc = Some (acc OR masks ! k)" using k by (simp add: union_at_def py_simps)
  ultimately show ?case using k by (auto simp: bit_set_ops)
qed

definition widen_list :: "int \<Rightarrow> int list \<Rightarrow> int list \<Rightarrow> int list" where
  "widen_list m xs ds = map (\<lambda>i. if int i \<in> set xs then ds ! i OR m else ds ! i) [0..<length ds]"

lemma widen_list_Cons:
  assumes "k < length ds" "int k \<notin> set xs"
  shows "widen_list m xs (ds[k := ds ! k OR m]) = widen_list m (int k # xs) ds"
  using assms by (auto simp: widen_list_def nth_list_update intro!: nth_equalityI)

lemma widen_descendants_all:
  assumes "distinct xs" "\<And>i. i \<in> set xs \<Longrightarrow> \<exists>k<length (dg_descendants g). i = int k"
  shows "fold_opt (widen_descendants m) xs g = Some (g\<lparr> dg_descendants := widen_list m xs (dg_descendants g) \<rparr>)"
  using assms
proof (induction xs arbitrary: g)
  case Nil
  then show ?case by (simp add: widen_list_def map_nth)
next
  case (Cons x xs)
  obtain k where k: "k < length (dg_descendants g)" "x = int k" using Cons.prems(2) by auto
  have "widen_descendants m x g = Some (g\<lparr> dg_descendants := (dg_descendants g)[k := dg_descendants g ! k OR m] \<rparr>)"
    using k by (simp add: widen_descendants_def py_simps)
  then show ?case using Cons.IH [of "g\<lparr> dg_descendants := (dg_descendants g)[k := dg_descendants g ! k OR m] \<rparr>"] Cons.prems k widen_list_Cons [of k "dg_descendants g" xs m]
    by simp
qed

lemma widen_ancestors_all:
  assumes "distinct xs" "\<And>i. i \<in> set xs \<Longrightarrow> \<exists>k<length (dg_ancestors g). i = int k"
  shows "fold_opt (widen_ancestors m) xs g = Some (g\<lparr> dg_ancestors := widen_list m xs (dg_ancestors g) \<rparr>)"
  using assms
proof (induction xs arbitrary: g)
  case Nil
  then show ?case by (simp add: widen_list_def map_nth)
next
  case (Cons x xs)
  obtain k where k: "k < length (dg_ancestors g)" "x = int k" using Cons.prems(2) by auto
  have "widen_ancestors m x g = Some (g\<lparr> dg_ancestors := (dg_ancestors g)[k := dg_ancestors g ! k OR m] \<rparr>)"
    using k by (simp add: widen_ancestors_def py_simps)
  then show ?case using Cons.IH [of "g\<lparr> dg_ancestors := (dg_ancestors g)[k := dg_ancestors g ! k OR m] \<rparr>"] Cons.prems k widen_list_Cons [of k "dg_ancestors g" xs m]
    by simp
qed

lemma widen_list_nth: "i < length ds \<Longrightarrow> bit_set (widen_list m xs ds ! i) = bit_set (ds ! i) \<union> (if int i \<in> set xs then bit_set m else {})"
  by (simp add: widen_list_def bit_set_ops)

lemma widen_list_shape: "length (widen_list m xs ds) = length ds" "0 \<le> m \<Longrightarrow> \<forall>d\<in>set ds. 0 \<le> d \<Longrightarrow> \<forall>d\<in>set (widen_list m xs ds). 0 \<le> d"
  by (auto simp: widen_list_def)

section \<open>A dependency\<close>

lemma closure_edges:
  assumes "trans A" "\<And>p. p \<in> P \<Longrightarrow> (p, p) \<in> A" "(c, c) \<in> A"
  shows "(A \<union> P \<times> {c})\<^sup>+ = A \<union> {(x, y). (\<exists>p\<in>P. (x, p) \<in> A) \<and> (c, y) \<in> A}"
proof
  let ?R = "A \<union> {(x, y). (\<exists>p\<in>P. (x, p) \<in> A) \<and> (c, y) \<in> A}"
  have "trans ?R" using assms(1) by (auto intro!: transI dest: transD)
  moreover have "A \<union> P \<times> {c} \<subseteq> ?R" using assms(2,3) by auto
  ultimately show "(A \<union> P \<times> {c})\<^sup>+ \<subseteq> ?R" using trancl_id [of ?R] trancl_mono [of _ "A \<union> P \<times> {c}" ?R] by blast
next
  show "A \<union> {(x, y). (\<exists>p\<in>P. (x, p) \<in> A) \<and> (c, y) \<in> A} \<subseteq> (A \<union> P \<times> {c})\<^sup>+"
  proof
    fix z
    assume "z \<in> A \<union> {(x, y). (\<exists>p\<in>P. (x, p) \<in> A) \<and> (c, y) \<in> A}"
    then consider "z \<in> A" | x y p where "z = (x, y)" "p \<in> P" "(x, p) \<in> A" "(c, y) \<in> A" by auto
    then show "z \<in> (A \<union> P \<times> {c})\<^sup>+"
    proof cases
      case 2
      then have "(x, p) \<in> (A \<union> P \<times> {c})\<^sup>+" "(p, c) \<in> A \<union> P \<times> {c}" "(c, y) \<in> A \<union> P \<times> {c}" by auto
      then show ?thesis using 2(1) by (metis trancl.trancl_into_trancl)
    qed (cases z; auto)
  qed
qed

lemma positions_in_range: "dg_shape g \<Longrightarrow> bit_set m \<subseteq> pos g \<Longrightarrow> 0 \<le> m \<Longrightarrow> i \<in> set (bits_of m) \<Longrightarrow> \<exists>k<length (dg_fees g). i = int k"
  using bits_of_sorted(2) [of m] dg_shapeD(5) by fastforce

lemma widened_graph:
  assumes ok: "dg_ok g" and c: "c \<in> pos g" and P: "P \<subseteq> pos g" and pa: "0 \<le> pa" "bit_set pa = (\<Union>p\<in>P. anc g p) - anc g c"
    and cd: "0 \<le> cd" "bit_set cd = des g c"
  defines "g' \<equiv> g\<lparr> dg_descendants := widen_list cd (bits_of pa) (dg_descendants g), dg_ancestors := widen_list pa (bits_of cd) (dg_ancestors g) \<rparr>"
  shows "dg_ok g' \<and> ancestry g' = (ancestry g \<union> P \<times> {c})\<^sup>+"
proof -
  note sh = dg_shapeD [OF dg_okD(1) [OF ok]]
  have p': "pos g' = pos g" by (simp add: g'_def pos_def)
  have a': "anc g' i = anc g i \<union> (if i \<in> des g c then (\<Union>p\<in>P. anc g p) - anc g c else {})" if "i \<in> pos g" for i
    using that sh(2,5) by (simp add: g'_def anc_def widen_list_nth bits_of_sorted(2) [OF cd(1)] cd(2) pa(2) [unfolded anc_def] image_iff)
  have d': "des g' i = des g i \<union> (if i \<in> (\<Union>p\<in>P. anc g p) - anc g c then des g c else {})" if "i \<in> pos g" for i
    using that sh(3,5) by (simp add: g'_def des_def widen_list_nth bits_of_sorted(2) [OF pa(1)] cd(2) [unfolded des_def] pa(2) image_iff)
  have dc: "i \<in> des g c \<longleftrightarrow> (c, i) \<in> ancestry g" for i by (rule des_above [OF ok c])
  have ac: "j \<in> anc g i \<longleftrightarrow> (j, i) \<in> ancestry g" if "i \<in> pos g" for i j using that by (simp add: above_iff)
  have up: "j \<in> (\<Union>p\<in>P. anc g p) \<longleftrightarrow> (\<exists>p\<in>P. (j, p) \<in> ancestry g)" for j using ac P by blast
  have closure: "(ancestry g \<union> P \<times> {c})\<^sup>+ = ancestry g \<union> {(x, y). (\<exists>p\<in>P. (x, p) \<in> ancestry g) \<and> (c, y) \<in> ancestry g}"
    by (rule closure_edges [OF dg_okD(6) [OF ok]]) (use above_refl [OF ok] P c in auto)
  have tr: "(x, z) \<in> ancestry g" if "(x, y) \<in> ancestry g" "(y, z) \<in> ancestry g" for x y z using transD [OF dg_okD(6) [OF ok]] that by blast
  have ab: "(j, i) \<in> ancestry g' \<longleftrightarrow> (j, i) \<in> ancestry g \<union> {(x, y). (\<exists>p\<in>P. (x, p) \<in> ancestry g) \<and> (c, y) \<in> ancestry g}" for i j
  proof (cases "i \<in> pos g")
    case True
    then show ?thesis unfolding above_iff [of j i g'] p' a' [OF True] using dc ac [OF True] up ac [OF c] tr by auto
  next
    case False
    then have "(j, i) \<notin> ancestry g'" "(j, i) \<notin> ancestry g" "(c, i) \<notin> ancestry g" by (simp_all add: above_iff p')
    then show ?thesis by simp
  qed
  then have eq: "ancestry g' = (ancestry g \<union> P \<times> {c})\<^sup>+" unfolding closure by auto
  have nonneg: "\<forall>m\<in>set (dg_ancestors g). 0 \<le> m" "\<forall>m\<in>set (dg_descendants g). 0 \<le> m"
    using dg_okD(1) [OF ok] by (simp_all add: dg_shape_def)
  have "dg_ancestors g' = widen_list pa (bits_of cd) (dg_ancestors g)" "dg_descendants g' = widen_list cd (bits_of pa) (dg_descendants g)"
    by (simp_all add: g'_def)
  then have "\<forall>m\<in>set (dg_ancestors g'). 0 \<le> m" "\<forall>m\<in>set (dg_descendants g'). 0 \<le> m"
    using widen_list_shape(2) [OF pa(1) nonneg(1)] widen_list_shape(2) [OF cd(1) nonneg(2)] by simp_all
  then have shape: "dg_shape g'"
    using dg_okD(1) [OF ok] p' unfolding dg_shape_def by (simp add: g'_def widen_list_shape(1) ball_Un)
  have "dg_ok g'"
  proof (rule dg_okI [OF shape])
    show "length (dg_fees g') - 1 \<in> pos g'" if "dg_fees g' \<noteq> []" using that dg_okD(2) [OF ok] p' by (simp add: g'_def)
    show "i \<in> anc g' i" if "i \<in> pos g'" for i using that p' a' dg_okD(3) [OF ok] by simp
    show "anc g' i \<subseteq> pos g'" if "i \<in> pos g'" for i
    proof -
      have "(\<Union>p\<in>P. anc g p) \<subseteq> pos g" using dg_okD(4) [OF ok] P by blast
      then show ?thesis using that dg_okD(4) [OF ok, of i] a' [of i] unfolding p' by auto
    qed
    show "des g' i = {k \<in> pos g'. i \<in> anc g' k}" if "i \<in> pos g'" for i
    proof -
      have i: "i \<in> pos g" using that p' by simp
      have "k \<in> des g' i \<longleftrightarrow> k \<in> pos g \<and> i \<in> anc g' k" for k
      proof
        assume "k \<in> des g' i"
        then consider "(i, k) \<in> ancestry g" | "i \<in> (\<Union>p\<in>P. anc g p) - anc g c" "k \<in> des g c"
          using d' [OF i] des_above [OF ok i] by (auto split: if_splits)
        then show "k \<in> pos g \<and> i \<in> anc g' k"
        proof cases
          case 1
          then have "k \<in> pos g" "i \<in> anc g k" by (simp_all add: above_iff)
          then show ?thesis using a' [of k] by simp
        next
          case 2
          then have "k \<in> pos g" using dc by (simp add: above_iff)
          then show ?thesis using a' [of k] 2 by simp
        qed
      next
        assume k: "k \<in> pos g \<and> i \<in> anc g' k"
        then show "k \<in> des g' i" using a' [of k] d' [OF i] des_above [OF ok i] by (auto simp: above_iff split: if_splits)
      qed
      then show ?thesis using p' by auto
    qed
    show "trans (ancestry g')" unfolding eq by (rule trans_trancl)
  qed
  with eq show ?thesis by simp
qed

lemma add_dependencies_ok:
  assumes ok: "dg_ok g" and c: "c \<in> pos g" and P: "0 \<le> parents" "bit_set parents \<subseteq> pos g"
  shows "\<exists>g'. add_dependencies parents (int c) g = Some g' \<and> dg_ok g' \<and> ancestry g' = (ancestry g \<union> bit_set parents \<times> {c})\<^sup>+
    \<and> pos g' = pos g \<and> dg_fees g' = dg_fees g \<and> dg_sizes g' = dg_sizes g \<and> dg_positions g' = dg_positions g"
proof -
  note sh = dg_shapeD [OF dg_okD(1) [OF ok]]
  have cl: "c < length (dg_fees g)" using sh(5) c by simp
  obtain ca where ca_def: "ca = dg_ancestors g ! c" by blast
  obtain cd where cd_def: "cd = dg_descendants g ! c" by blast
  have ca: "0 \<le> ca" "bit_set ca = anc g c" using sh(6) cl by (simp_all add: ca_def anc_def)
  have cd: "0 \<le> cd" "bit_set cd = des g c" using sh(7) cl by (simp_all add: cd_def des_def)
  have ask: "0 \<le> parents AND NOT ca" "bit_set (parents AND NOT ca) \<subseteq> pos g" using P by (auto simp: bit_set_ops)
  have range: "\<exists>k<length (dg_ancestors g). i = int k" if "i \<in> set (bits_of (parents AND NOT ca))" for i
    using positions_in_range [OF dg_okD(1) [OF ok] ask(2,1) that] sh(2) by simp
  have nn: "0 \<le> m" if "m \<in> set (dg_ancestors g)" for m using dg_okD(1) [OF ok] that by (simp add: dg_shape_def)
  obtain r where r: "fold_opt (union_at (dg_ancestors g)) (bits_of (parents AND NOT ca)) 0 = Some r" "0 \<le> r"
    "bit_set r = bit_set 0 \<union> (\<Union>i\<in>set (bits_of (parents AND NOT ca)). bit_set (dg_ancestors g ! nat i))"
    using union_all [of "dg_ancestors g" "bits_of (parents AND NOT ca)" 0, OF nn range] by auto
  obtain pa where pa_def: "pa = r AND NOT ca" by blast
  have pa0: "0 \<le> pa" using r(2) by (simp add: pa_def)
  have up: "anc g p \<subseteq> anc g c" if "p \<in> anc g c" for p
    using that dg_okD(4) [OF ok c] transD [OF dg_okD(6) [OF ok]] c by (auto simp: above_iff)
  have "bit_set r = (\<Union>p\<in>bit_set parents - anc g c. anc g p)"
    using r(3) by (simp add: bits_of_sorted(2) [OF ask(1)] bit_set_ops ca(2) Diff_eq) (simp add: anc_def)
  then have pa: "bit_set pa = (\<Union>p\<in>bit_set parents. anc g p) - anc g c"
    unfolding pa_def bit_set_ops ca(2) using up by blast
  have start: "add_dependencies parents (int c) g = (if pa = 0 then Some g else do {
      g1 \<leftarrow> fold_opt (widen_descendants cd) (bits_of pa) g; fold_opt (widen_ancestors pa) (bits_of cd) g1 })"
    using cl sh(2,3) r(1) by (simp add: add_dependencies_def py_simps pa_def ca_def cd_def Let_def)
  show ?thesis
  proof (cases "pa = 0")
    case True
    then have "(\<Union>p\<in>bit_set parents. anc g p) \<subseteq> anc g c" using pa by (auto simp: bit_set_ops)
    moreover have closure: "(ancestry g \<union> bit_set parents \<times> {c})\<^sup>+
        = ancestry g \<union> {(x, y). (\<exists>p\<in>bit_set parents. (x, p) \<in> ancestry g) \<and> (c, y) \<in> ancestry g}"
      by (rule closure_edges [OF dg_okD(6) [OF ok]]) (use above_refl [OF ok] P c in auto)
    ultimately have "(ancestry g \<union> bit_set parents \<times> {c})\<^sup>+ = ancestry g"
      using c transD [OF dg_okD(6) [OF ok]] by (auto simp: above_iff)
    with True ok start show ?thesis by simp
  next
    case False
    have "(\<Union>p\<in>bit_set parents. anc g p) \<subseteq> pos g" using dg_okD(4) [OF ok] P(2) by blast
    then have "bit_set pa \<subseteq> pos g" "bit_set cd \<subseteq> pos g" unfolding pa cd(2) dg_okD(5) [OF ok c] by blast+
    then have range: "\<And>i. i \<in> set (bits_of pa) \<Longrightarrow> \<exists>k<length (dg_descendants g). i = int k"
      "\<And>i. i \<in> set (bits_of cd) \<Longrightarrow> \<exists>k<length (dg_ancestors g). i = int k"
      using positions_in_range [OF dg_okD(1) [OF ok]] pa0 cd(1) sh(2,3) by simp_all
    let ?g1 = "g\<lparr> dg_descendants := widen_list cd (bits_of pa) (dg_descendants g) \<rparr>"
    let ?g' = "g\<lparr> dg_descendants := widen_list cd (bits_of pa) (dg_descendants g), dg_ancestors := widen_list pa (bits_of cd) (dg_ancestors g) \<rparr>"
    have "fold_opt (widen_descendants cd) (bits_of pa) g = Some ?g1"
      by (rule widen_descendants_all [OF bits_of_distinct [OF pa0] range(1)])
    moreover have "fold_opt (widen_ancestors pa) (bits_of cd) ?g1 = Some ?g'"
      using widen_ancestors_all [OF bits_of_distinct [OF cd(1)], of ?g1] range(2) by simp
    ultimately have "add_dependencies parents (int c) g = Some ?g'" using start False by simp
    moreover have "pos ?g' = pos g" by (simp add: pos_def)
    ultimately show ?thesis using widened_graph [OF ok c P(2) pa0 pa cd] by simp
  qed
qed

end
