(* ===== verification/Dep_Graph_Changes.thy ===== *)
theory Dep_Graph_Changes
  imports Dep_Graph_Proofs
begin

unbundle bit_operations_syntax

text \<open>
  Transactions added to a cluster and removed from it: a new one takes the lowest free position and
  is related to itself alone, removed ones leave the relation restricted to the others.
\<close>

section \<open>The lowest free position\<close>

lemma free_position:
  fixes p :: int
  assumes "0 \<le> p"
  shows "\<exists>b. bit_length (NOT p AND (p + 1)) - 1 = int b \<and> b \<notin> bit_set p \<and> {..<b} \<subseteq> bit_set p"
proof -
  have e: "NOT p AND (p + 1) = (p + 1) AND - (p + 1)" by (simp add: not_int_def and.commute)
  have neg: "bit (- (p + 1)) i \<longleftrightarrow> \<not> bit p i" for i
  proof -
    have "- (p + 1) = NOT p" by (simp add: not_int_def)
    then show ?thesis by (simp add: bit_not_iff)
  qed
  obtain b where b: "(p + 1) AND - (p + 1) = 2 ^ b" "bit (p + 1) b" "\<forall>i<b. \<not> bit (p + 1) i"
    using lowest_bit [of "p + 1"] assms by auto
  have "bit ((p + 1) AND - (p + 1)) b" unfolding b(1) by (simp add: bit_exp_iff)
  then have out: "b \<notin> bit_set p" using neg by (simp add: bit_and_iff bit_set_def)
  have "take_bit b (p + 1) = 0" using b(3) by (intro bit_eqI) (simp add: bit_take_bit_iff)
  then have "take_bit b (- (p + 1)) = 0" using take_bit_minus [of b "p + 1"] by simp
  then have "\<not> bit (- (p + 1)) i" if "i < b" for i using that bit_take_bit_iff [of b "- (p + 1)" i] by simp
  then have "{..<b} \<subseteq> bit_set p" using neg by (auto simp: bit_set_def)
  with out show ?thesis unfolding e b(1) by (intro exI [of _ b]) (simp add: bit_length_power)
qed

lemma free_within:
  assumes "dg_shape g" "b \<notin> pos g" "{..<b} \<subseteq> pos g"
  shows "b \<le> length (dg_fees g)"
proof (rule ccontr)
  assume "\<not> b \<le> length (dg_fees g)"
  then have "length (dg_fees g) \<in> pos g" using assms(3) by auto
  then show False using dg_shapeD(5) [OF assms(1)] by blast
qed

section \<open>A new transaction\<close>

lemma placed_graph:
  assumes ok: "dg_ok g" and b: "b \<notin> pos g" "b < length fees"
    and len: "length sizes = length fees" "length ancs = length fees" "length dess = length fees" "length (dg_fees g) \<le> length fees"
    and old: "\<And>i. i \<in> pos g \<Longrightarrow> ancs ! i = dg_ancestors g ! i" "\<And>i. i \<in> pos g \<Longrightarrow> dess ! i = dg_descendants g ! i"
    and new: "ancs ! b = push_bit b 1" "dess ! b = push_bit b 1"
    and nonneg: "\<forall>m\<in>set ancs \<union> set dess. 0 \<le> m" and last: "length fees - 1 \<in> insert b (pos g)"
  defines "g' \<equiv> \<lparr> dg_fees = fees, dg_sizes = sizes, dg_ancestors = ancs, dg_descendants = dess, dg_positions = dg_positions g OR push_bit b 1 \<rparr>"
  shows "dg_ok g' \<and> ancestry g' = insert (b, b) (ancestry g) \<and> pos g' = insert b (pos g)"
proof -
  have p': "pos g' = insert b (pos g)" by (simp add: g'_def pos_def bit_set_ops)
  have a': "anc g' i = (if i = b then {b} else anc g i)" "des g' i = (if i = b then {b} else des g i)" if "i \<in> pos g'" for i
    using that p' old new by (auto simp: g'_def anc_def des_def bit_set_ops)
  have ab: "ancestry g' = insert (b, b) (ancestry g)"
  proof -
    have "(j, i) \<in> ancestry g' \<longleftrightarrow> (j, i) \<in> insert (b, b) (ancestry g)" for j i
      by (cases "i = b") (use p' a'(1) [of i] b(1) in \<open>auto simp: above_iff\<close>)
    then show ?thesis by auto
  qed
  have nb: "b \<notin> anc g i" "b \<notin> des g i" if "i \<in> pos g" for i
    using dg_okD(4,5) [OF ok that] b(1) by auto
  have "dg_shape g'"
    using dg_okD(1) [OF ok] p' len b(2) nonneg unfolding dg_shape_def by (auto simp: g'_def)
  then have "dg_ok g'"
  proof (rule dg_okI)
    show "length (dg_fees g') - 1 \<in> pos g'" using last p' by (simp add: g'_def)
    show "i \<in> anc g' i" if "i \<in> pos g'" for i using that a' p' dg_okD(3) [OF ok] by auto
    show "anc g' i \<subseteq> pos g'" if "i \<in> pos g'" for i
      using that a'(1) [OF that] p' dg_okD(4) [OF ok, of i] by (cases "i = b") auto
    show "des g' i = {k \<in> pos g'. i \<in> anc g' k}" if "i \<in> pos g'" for i
    proof (cases "i = b")
      case True
      have "k \<in> pos g' \<and> b \<in> anc g' k \<longleftrightarrow> k = b" for k using p' a'(1) [of k] nb(1) [of k] b(1) by (cases "k = b") auto
      then show ?thesis using True a'(2) [OF that] by auto
    next
      case False
      then have i: "i \<in> pos g" using that p' by simp
      have "k \<in> pos g' \<and> i \<in> anc g' k \<longleftrightarrow> k \<in> pos g \<and> i \<in> anc g k" for k using p' a'(1) [of k] False b(1) by (cases "k = b") auto
      then show ?thesis using False a'(2) [OF that] dg_okD(5) [OF ok i] by auto
    qed
    show "trans (ancestry g')"
      unfolding ab using dg_okD(6) [OF ok] above_pos [OF ok] b(1) by (intro transI) (auto dest: transD)
  qed
  with ab p' show ?thesis by simp
qed

lemma add_transaction_ok:
  assumes ok: "dg_ok g"
  shows "\<exists>g' b. add_transaction f g = Some (g', int b) \<and> b \<notin> pos g \<and> {..<b} \<subseteq> pos g \<and> dg_ok g' \<and> pos g' = insert b (pos g)
    \<and> ancestry g' = insert (b, b) (ancestry g) \<and> dg_fees g' ! b = ff_fee f \<and> dg_sizes g' ! b = ff_size f
    \<and> (\<forall>i\<in>pos g. dg_fees g' ! i = dg_fees g ! i \<and> dg_sizes g' ! i = dg_sizes g ! i)"
proof -
  note sh = dg_shapeD [OF dg_okD(1) [OF ok]]
  obtain b where b: "bit_length (NOT (dg_positions g) AND (dg_positions g + 1)) - 1 = int b" "b \<notin> pos g" "{..<b} \<subseteq> pos g"
    using free_position [OF sh(4)] by (auto simp: pos_def)
  have le: "b \<le> length (dg_fees g)" by (rule free_within [OF dg_okD(1) [OF ok] b(2,3)])
  have nonneg: "\<forall>m\<in>set (dg_ancestors g) \<union> set (dg_descendants g). 0 \<le> m" using dg_okD(1) [OF ok] by (simp add: dg_shape_def)
  show ?thesis
  proof (cases "b = length (dg_fees g)")
    case True
    let ?g = "\<lparr> dg_fees = dg_fees g @ [ff_fee f], dg_sizes = dg_sizes g @ [ff_size f],
      dg_ancestors = dg_ancestors g @ [push_bit b 1], dg_descendants = dg_descendants g @ [push_bit b 1],
      dg_positions = dg_positions g OR push_bit b 1 \<rparr>"
    have "add_transaction f g = Some (?g, int b)" using True by (simp add: add_transaction_def b(1) py_simps Let_def)
    moreover have "dg_ok ?g \<and> ancestry ?g = insert (b, b) (ancestry g) \<and> pos ?g = insert b (pos g)"
      by (rule placed_graph [OF ok b(2)]) (use True sh nonneg in \<open>auto simp: nth_append\<close>)
    ultimately show ?thesis using b(2,3) True sh by (intro exI [of _ ?g] exI [of _ b]) (auto simp: nth_append)
  next
    case False
    then have lt: "b < length (dg_fees g)" using le by simp
    then have "dg_fees g \<noteq> []" by auto
    then have last: "length (dg_fees g) - 1 \<in> pos g" by (rule dg_okD(2) [OF ok])
    let ?g = "\<lparr> dg_fees = (dg_fees g)[b := ff_fee f], dg_sizes = (dg_sizes g)[b := ff_size f],
      dg_ancestors = (dg_ancestors g)[b := push_bit b 1], dg_descendants = (dg_descendants g)[b := push_bit b 1],
      dg_positions = dg_positions g OR push_bit b 1 \<rparr>"
    have "add_transaction f g = Some (?g, int b)" using lt sh(1-3) False by (simp add: add_transaction_def b(1) py_simps Let_def)
    moreover have "\<forall>m\<in>set ((dg_ancestors g)[b := push_bit b 1]) \<union> set ((dg_descendants g)[b := push_bit b 1]). 0 \<le> m"
      using nonneg set_update_subset_insert [of "dg_ancestors g" b "push_bit b 1"] set_update_subset_insert [of "dg_descendants g" b "push_bit b 1"]
      by auto
    then have "dg_ok ?g \<and> ancestry ?g = insert (b, b) (ancestry g) \<and> pos ?g = insert b (pos g)"
      by (intro placed_graph [OF ok b(2)]) (use lt sh(1-3) b(2) last in \<open>auto simp: nth_list_update\<close>)
    moreover have "dg_fees ?g ! b = ff_fee f" "dg_sizes ?g ! b = ff_size f" using lt sh(1) by simp_all
    moreover have "\<forall>i\<in>pos g. dg_fees ?g ! i = dg_fees g ! i \<and> dg_sizes ?g ! i = dg_sizes g ! i"
      unfolding dep_graph.simps by (intro ballI conjI nth_list_update_neq) (use b(2) in auto)
    ultimately show ?thesis using b(2,3) by (intro exI [of _ ?g] exI [of _ b]) blast
  qed
qed

lemma set_fee_ok:
  assumes ok: "dg_ok g" and i: "i \<in> pos g"
  shows "\<exists>g'. set_fee (int i) fee g = Some g' \<and> dg_ok g' \<and> pos g' = pos g \<and> ancestry g' = ancestry g \<and> dg_sizes g' = dg_sizes g
    \<and> dg_fees g' = (dg_fees g)[i := fee]"
proof -
  let ?g = "g\<lparr> dg_fees := (dg_fees g)[i := fee] \<rparr>"
  have same: "pos ?g = pos g" "\<And>i. anc ?g i = anc g i" "\<And>i. des ?g i = des g i" by (simp_all add: pos_def anc_def des_def)
  have "ancestry ?g = ancestry g" by (simp add: ancestry_def same)
  moreover have "dg_ok ?g" using ok by (simp add: dg_ok_def dg_shape_def same ancestry_def)
  moreover have "set_fee (int i) fee g = Some ?g" using dg_shapeD(5) [OF dg_okD(1) [OF ok] i] by (simp add: set_fee_def py_simps)
  ultimately show ?thesis using same(1) by simp
qed

section \<open>Removal\<close>

lemma trim_positions_takes:
  assumes "length (dg_sizes g) = length (dg_fees g)" "length (dg_ancestors g) = length (dg_fees g)" "length (dg_descendants g) = length (dg_fees g)"
  shows "\<exists>n\<le>length (dg_fees g). trim_positions g = Some (g\<lparr> dg_fees := take n (dg_fees g), dg_sizes := take n (dg_sizes g),
      dg_ancestors := take n (dg_ancestors g), dg_descendants := take n (dg_descendants g) \<rparr>)
    \<and> (\<forall>i. n \<le> i \<and> i < length (dg_fees g) \<longrightarrow> i \<notin> pos g) \<and> (0 < n \<longrightarrow> n - 1 \<in> pos g)"
  using assms
proof (induction "length (dg_fees g)" arbitrary: g)
  case 0
  then show ?case by (simp add: trim_positions.simps)
next
  case (Suc k)
  have last: "mask_holds (dg_positions g) (int (length (dg_fees g)) - 1) \<longleftrightarrow> k \<in> pos g"
    using mask_holds_at [of "dg_positions g" k] Suc.hyps(2) [symmetric] by (simp add: pos_def)
  show ?case
  proof (cases "k \<in> pos g")
    case True
    then have "trim_positions g = Some g" using last by (simp add: trim_positions.simps)
    then show ?thesis using True Suc.hyps(2) [symmetric] Suc.prems by (intro exI [of _ "Suc k"]) auto
  next
    case False
    let ?g = "g\<lparr> dg_fees := butlast (dg_fees g), dg_sizes := butlast (dg_sizes g),
      dg_ancestors := butlast (dg_ancestors g), dg_descendants := butlast (dg_descendants g) \<rparr>"
    have ne: "dg_fees g \<noteq> []" "dg_sizes g \<noteq> []" "dg_ancestors g \<noteq> []" "dg_descendants g \<noteq> []"
      using Suc.hyps(2) Suc.prems by auto
    then have step: "trim_positions g = trim_positions ?g" using False last by (simp add: trim_positions.simps [of g])
    have pg: "pos ?g = pos g" by (simp add: pos_def)
    have "k = length (dg_fees ?g)" using Suc.hyps(2) by simp
    from Suc.hyps(1) [OF this] obtain n where n: "n \<le> k"
      "trim_positions ?g = Some (?g\<lparr> dg_fees := take n (dg_fees ?g), dg_sizes := take n (dg_sizes ?g),
        dg_ancestors := take n (dg_ancestors ?g), dg_descendants := take n (dg_descendants ?g) \<rparr>)"
      "\<forall>i. n \<le> i \<and> i < k \<longrightarrow> i \<notin> pos g" "0 < n \<longrightarrow> n - 1 \<in> pos g"
      using Suc.prems Suc.hyps(2) [symmetric] pg by auto
    have "take n (butlast xs) = take n xs" if "length xs = Suc k" for xs :: "int list"
      using that n(1) by (simp add: butlast_conv_take)
    then have "trim_positions g = Some (g\<lparr> dg_fees := take n (dg_fees g), dg_sizes := take n (dg_sizes g),
        dg_ancestors := take n (dg_ancestors g), dg_descendants := take n (dg_descendants g) \<rparr>)"
      using step n(2) Suc.hyps(2) [symmetric] Suc.prems by simp
    moreover have "\<forall>i. n \<le> i \<and> i < Suc k \<longrightarrow> i \<notin> pos g" using n(3) False less_Suc_eq by auto
    ultimately show ?thesis using n(1,4) Suc.hyps(2) [symmetric] by (intro exI [of _ n]) simp
  qed
qed

lemma restrict_all:
  assumes "length (dg_ancestors g) = n" "length (dg_descendants g) = n" "k \<le> n"
  shows "fold_opt restrict_at (map int [0..<k]) g
    = Some (g\<lparr> dg_ancestors := map (\<lambda>i. if i < k then dg_ancestors g ! i AND dg_positions g else dg_ancestors g ! i) [0..<n],
               dg_descendants := map (\<lambda>i. if i < k then dg_descendants g ! i AND dg_positions g else dg_descendants g ! i) [0..<n] \<rparr>)"
  using assms(3)
proof (induction k)
  case 0
  have "map ((!) xs) [0..<n] = xs" if "length xs = n" for xs :: "int list" using that map_nth by blast
  then show ?case using assms(1,2) by simp
next
  case (Suc k)
  have k: "k < n" using Suc.prems by simp
  have upd: "(map (\<lambda>i. if i < k then xs ! i AND m else xs ! i) [0..<n])[k := xs ! k AND m]
      = map (\<lambda>i. if i < Suc k then xs ! i AND m else xs ! i) [0..<n]" for xs :: "int list" and m
    using k by (intro nth_equalityI) (auto simp: nth_list_update)
  show ?case
    using Suc k upd by (simp add: fold_opt_append restrict_at_def py_simps Let_def)
qed

lemma remove_transactions_ok:
  assumes ok: "dg_ok g" and d: "0 \<le> delete"
  shows "\<exists>g'. remove_transactions delete g = Some g' \<and> dg_ok g' \<and> pos g' = pos g - bit_set delete
    \<and> ancestry g' = ancestry g \<inter> pos g' \<times> pos g'
    \<and> (\<forall>i\<in>pos g'. dg_fees g' ! i = dg_fees g ! i \<and> dg_sizes g' ! i = dg_sizes g ! i)"
proof -
  note sh = dg_shapeD [OF dg_okD(1) [OF ok]]
  let ?p = "dg_positions g AND NOT delete" let ?g0 = "g\<lparr> dg_positions := ?p \<rparr>"
  have p0: "pos ?g0 = pos g - bit_set delete" "bit_set ?p = pos g - bit_set delete" by (auto simp: pos_def bit_set_ops)
  have p: "0 \<le> ?p" using sh(4) by simp
  obtain n where n: "n \<le> length (dg_fees g)" "trim_positions ?g0 = Some (?g0\<lparr> dg_fees := take n (dg_fees g), dg_sizes := take n (dg_sizes g),
      dg_ancestors := take n (dg_ancestors g), dg_descendants := take n (dg_descendants g) \<rparr>)"
    "\<And>i. n \<le> i \<Longrightarrow> i < length (dg_fees g) \<Longrightarrow> i \<notin> pos ?g0" "0 < n \<Longrightarrow> n - 1 \<in> pos ?g0"
    using trim_positions_takes [of ?g0] sh(1-3) by auto
  obtain g1 where g1_def: "g1 = ?g0\<lparr> dg_fees := take n (dg_fees g), dg_sizes := take n (dg_sizes g),
      dg_ancestors := take n (dg_ancestors g), dg_descendants := take n (dg_descendants g) \<rparr>" by blast
  obtain g' where g'_def: "g' = \<lparr> dg_fees = take n (dg_fees g), dg_sizes = take n (dg_sizes g),
    dg_ancestors = map (\<lambda>i. dg_ancestors g ! i AND ?p) [0..<n], dg_descendants = map (\<lambda>i. dg_descendants g ! i AND ?p) [0..<n],
    dg_positions = ?p \<rparr>" by blast
  have lens: "length (dg_ancestors g1) = n" "length (dg_descendants g1) = n" "length (dg_fees g1) = n" using n(1) sh(2,3) by (simp_all add: g1_def)
  have e: "map (\<lambda>i. if i < n then take n xs ! i AND m else take n xs ! i) [0..<n] = map (\<lambda>i. xs ! i AND m) [0..<n]" for xs :: "int list" and m
    by simp
  have "fold_opt restrict_at (map int [0..<n]) g1 = Some g'"
    unfolding restrict_all [OF lens(1,2) order.refl] by (simp add: g1_def g'_def e)
  then have run: "remove_transactions delete g = Some g'"
    using n(2) lens(3) by (simp add: remove_transactions_def g1_def [symmetric])
  have p': "pos g' = pos g - bit_set delete" using p0(2) by (simp add: g'_def pos_def)
  have lt: "i < n" if "i \<in> pos g'" for i using that n(3) [of i] sh(5) [of i] p' p0(1) by force
  have a': "anc g' i = anc g i \<inter> pos g'" "des g' i = des g i \<inter> pos g'" if "i \<in> pos g'" for i
    using lt [OF that] p0(2) p' by (simp_all add: g'_def anc_def des_def bit_set_ops(2))
  have ab: "ancestry g' = ancestry g \<inter> pos g' \<times> pos g'"
  proof -
    have "(j, i) \<in> ancestry g' \<longleftrightarrow> (j, i) \<in> ancestry g \<inter> pos g' \<times> pos g'" for j i
      using a'(1) [of i] p' by (cases "i \<in> pos g'") (auto simp: above_iff)
    then show ?thesis by auto
  qed
  have "0 \<le> dg_ancestors g ! i AND ?p" "0 \<le> dg_descendants g ! i AND ?p" for i using p by simp_all
  then have "dg_shape g'" using n(1) sh(1) p lt unfolding dg_shape_def by (auto simp: g'_def)
  then have "dg_ok g'"
  proof (rule dg_okI)
    show "length (dg_fees g') - 1 \<in> pos g'" if "dg_fees g' \<noteq> []"
      using that n(1,4) p' p0(1) by (auto simp: g'_def min_def)
    show "i \<in> anc g' i" if "i \<in> pos g'" for i using that a'(1) [OF that] dg_okD(3) [OF ok] p' by simp
    show "anc g' i \<subseteq> pos g'" if "i \<in> pos g'" for i using a'(1) [OF that] by simp
    show "des g' i = {k \<in> pos g'. i \<in> anc g' k}" if "i \<in> pos g'" for i
    proof -
      have "i \<in> pos g" using that p' by simp
      then have "k \<in> des g i \<longleftrightarrow> k \<in> pos g \<and> i \<in> anc g k" for k using dg_okD(5) [OF ok] by simp
      then show ?thesis unfolding a'(2) [OF that] using that p' a'(1) by auto
    qed
    show "trans (ancestry g')" unfolding ab using dg_okD(6) [OF ok] by (intro transI) (auto dest: transD)
  qed
  moreover have "\<forall>i\<in>pos g'. dg_fees g' ! i = dg_fees g ! i \<and> dg_sizes g' ! i = dg_sizes g ! i" using lt by (simp add: g'_def)
  ultimately show ?thesis using run p' ab by blast
qed

end
