(* ===== verification/Dep_Graph_Walks.thy ===== *)
theory Dep_Graph_Walks
  imports Dep_Graph_Changes "HOL-Library.Multiset"
begin

unbundle bit_operations_syntax

text \<open>
  What is read off the graph of a cluster: whether it has a cycle, the parents that are not ancestors of
  another, whose closure is the graph again, the connected components, and an order with the parents
  first.
\<close>

section \<open>Cycles\<close>

lemma all_opt_ok: "(\<And>x. x \<in> set xs \<Longrightarrow> P x = Some (Q x)) \<Longrightarrow> all_opt P xs = Some (\<forall>x\<in>set xs. Q x)"
  by (induction xs) auto

lemma pos_bits: "dg_shape g \<Longrightarrow> set (bits_of (dg_positions g)) = int ` pos g"
  using bits_of_sorted(2) dg_shapeD(4) by (simp add: pos_def)

definition acyclic_graph :: "dep_graph \<Rightarrow> bool" where
  "acyclic_graph g \<longleftrightarrow> (\<forall>i j. (i, j) \<in> ancestry g \<longrightarrow> (j, i) \<in> ancestry g \<longrightarrow> i = j)"

lemma only_member: "i \<in> A \<Longrightarrow> A = {i} \<longleftrightarrow> (\<forall>j. j \<in> A \<longrightarrow> i = j)"
  by auto

lemma is_acyclic_ok:
  assumes ok: "dg_ok g"
  shows "is_acyclic g = Some (acyclic_graph g)"
proof -
  note sh = dg_shapeD [OF dg_okD(1) [OF ok]]
  obtain Q where Q_def: "Q = (\<lambda>x. dg_ancestors g ! nat x AND dg_descendants g ! nat x = push_bit (nat x) 1)" by blast
  have body: "do { a \<leftarrow> py_nth (dg_ancestors g) x; d \<leftarrow> py_nth (dg_descendants g) x; one \<leftarrow> shift_one x; Some (a AND d = one) } = Some (Q x)"
    if "x \<in> set (bits_of (dg_positions g))" for x
  proof -
    have "x \<in> int ` pos g" using that pos_bits [OF dg_okD(1) [OF ok]] by simp
    then obtain i where i: "i \<in> pos g" "x = int i" by blast
    then have "i < length (dg_fees g)" using sh(5) by simp
    then show ?thesis using sh(2,3) by (simp add: i(2) Q_def py_simps)
  qed
  have Q: "Q (int i) \<longleftrightarrow> (\<forall>j. (j, i) \<in> ancestry g \<longrightarrow> (i, j) \<in> ancestry g \<longrightarrow> i = j)" if i: "i \<in> pos g" for i
  proof -
    have "Q (int i) \<longleftrightarrow> anc g i \<inter> des g i = {i}"
      unfolding Q_def by (simp only: nat_int flip: bit_set_eq) (simp only: bit_set_ops anc_def des_def)
    moreover have "i \<in> anc g i \<inter> des g i" using dg_okD(3,5) [OF ok i] i by simp
    then have "anc g i \<inter> des g i = {i} \<longleftrightarrow> (\<forall>j. j \<in> anc g i \<inter> des g i \<longrightarrow> i = j)" by (rule only_member)
    moreover have "j \<in> anc g i \<inter> des g i \<longleftrightarrow> (j, i) \<in> ancestry g \<and> (i, j) \<in> ancestry g" for j
      using des_above [OF ok i, of j] i by (simp add: above_iff)
    ultimately show ?thesis by blast
  qed
  have "is_acyclic g = Some (\<forall>x\<in>set (bits_of (dg_positions g)). Q x)" unfolding is_acyclic_def by (rule all_opt_ok [OF body])
  also have "(\<forall>x\<in>set (bits_of (dg_positions g)). Q x) \<longleftrightarrow> acyclic_graph g"
    unfolding pos_bits [OF dg_okD(1) [OF ok]] acyclic_graph_def using Q above_pos [OF ok] by (auto simp: ball_simps)
  finally show ?thesis .
qed

section \<open>The reduced parents\<close>

definition strict_parents :: "dep_graph \<Rightarrow> nat \<Rightarrow> nat set" where
  "strict_parents g i = anc g i - {i}"

definition nearest :: "dep_graph \<Rightarrow> nat \<Rightarrow> nat set" where
  "nearest g i = {p \<in> strict_parents g i. \<forall>q\<in>strict_parents g i. q \<noteq> p \<longrightarrow> p \<notin> anc g q}"

lemma reduce_parents_all:
  assumes ok: "dg_ok g" and ac: "acyclic_graph g" and S: "S \<subseteq> pos g"
    and xs: "set (ys @ xs) \<subseteq> int ` S" and cur: "0 \<le> cur" "bit_set cur = {p \<in> S. \<forall>q\<in>S. int q \<in> set ys \<longrightarrow> q \<noteq> p \<longrightarrow> p \<notin> anc g q}"
  shows "\<exists>r. fold_opt (reduce_parent (dg_ancestors g)) xs cur = Some r \<and> 0 \<le> r
    \<and> bit_set r = {p \<in> S. \<forall>q\<in>S. int q \<in> set (ys @ xs) \<longrightarrow> q \<noteq> p \<longrightarrow> p \<notin> anc g q}"
  using xs cur
proof (induction xs arbitrary: ys cur)
  case Nil
  then show ?case by simp
next
  case (Cons x xs)
  note sh = dg_shapeD [OF dg_okD(1) [OF ok]]
  obtain i where i: "i \<in> S" "x = int i" using Cons.prems(1) by auto
  then have ip: "i \<in> pos g" using S by blast
  have tr: "p \<in> anc g q" if "p \<in> anc g r" "r \<in> anc g q" "q \<in> S" for p q r
    using that S dg_okD(4) [OF ok, of q] transD [OF dg_okD(6) [OF ok], of p r q] by (auto simp: above_iff)
  have anti: "p = q" if "p \<in> anc g q" "q \<in> anc g p" "p \<in> S" "q \<in> S" for p q
    using that S ac by (auto simp: acyclic_graph_def above_iff)
  let ?want = "{p \<in> S. \<forall>q\<in>S. int q \<in> set (ys @ [x]) \<longrightarrow> q \<noteq> p \<longrightarrow> p \<notin> anc g q}"
  have "\<exists>c. reduce_parent (dg_ancestors g) x cur = Some c \<and> 0 \<le> c \<and> bit_set c = ?want"
  proof (cases "i \<in> bit_set cur")
    case True
    let ?c = "(cur AND NOT (dg_ancestors g ! i)) OR push_bit i 1"
    have "reduce_parent (dg_ancestors g) x cur = Some ?c"
      using True i(2) sh(2) sh(5) [OF ip] by (simp add: reduce_parent_def mask_holds_at py_simps)
    moreover have "0 \<le> ?c" using Cons.prems(2) by simp
    moreover have "bit_set ?c = (bit_set cur - anc g i) \<union> {i}" by (simp only: bit_set_ops anc_def Diff_eq)
    moreover have "(bit_set cur - anc g i) \<union> {i} = ?want" using True i dg_okD(3) [OF ok ip] unfolding Cons.prems(3) by auto
    ultimately show ?thesis by blast
  next
    case False
    then obtain q where q: "q \<in> S" "int q \<in> set ys" "q \<noteq> i" "i \<in> anc g q" using i(1) unfolding Cons.prems(3) by blast
    have "reduce_parent (dg_ancestors g) x cur = Some cur" using False i(2) by (simp add: reduce_parent_def mask_holds_at)
    moreover have "bit_set cur = ?want"
    proof -
      have "p \<notin> anc g i" if "p \<in> bit_set cur" "i \<noteq> p" for p
      proof
        assume p: "p \<in> anc g i"
        then have "p \<in> anc g q" using tr [OF p q(4,1)] by simp
        moreover have "p \<noteq> q" using anti [of q i] p q i(1) by blast
        ultimately show False using that(1) q(1,2) unfolding Cons.prems(3) by auto
      qed
      then have "bit_set cur = {p \<in> bit_set cur. i \<noteq> p \<longrightarrow> p \<notin> anc g i}" by blast
      also have "\<dots> = ?want"
      proof -
        have "int q \<in> set (ys @ [x]) \<longleftrightarrow> int q \<in> set ys \<or> q = i" for q using i(2) by auto
        then show ?thesis unfolding Cons.prems(3) using i(1) by blast
      qed
      finally show ?thesis .
    qed
    ultimately show ?thesis using Cons.prems(2) by blast
  qed
  then obtain c where c: "reduce_parent (dg_ancestors g) x cur = Some c" "0 \<le> c" "bit_set c = ?want" by blast
  have "set ((ys @ [x]) @ xs) \<subseteq> int ` S" using Cons.prems(1) by simp
  from Cons.IH [OF this c(2,3)] c(1) show ?case by simp
qed

lemma reduced_parents_ok:
  assumes ok: "dg_ok g" and ac: "acyclic_graph g" and i: "i \<in> pos g"
  shows "\<exists>r. reduced_parents (int i) g = Some r \<and> 0 \<le> r \<and> bit_set r = nearest g i"
proof -
  note sh = dg_shapeD [OF dg_okD(1) [OF ok]]
  have lt: "i < length (dg_fees g)" using sh(5) [OF i] .
  let ?m = "dg_ancestors g ! i AND NOT (push_bit i 1)"
  have m: "0 \<le> ?m" using sh(6) [OF lt] by simp
  have S: "bit_set ?m = strict_parents g i" by (simp only: bit_set_ops strict_parents_def anc_def Diff_eq)
  have sub: "strict_parents g i \<subseteq> pos g" using dg_okD(4) [OF ok i] by (auto simp: strict_parents_def)
  have bits: "set ([] @ bits_of ?m) \<subseteq> int ` strict_parents g i" using bits_of_sorted(2) [OF m] S by simp
  have start: "bit_set ?m = {p \<in> strict_parents g i. \<forall>q\<in>strict_parents g i. int q \<in> set [] \<longrightarrow> q \<noteq> p \<longrightarrow> p \<notin> anc g q}" using S by simp
  from reduce_parents_all [OF ok ac sub bits m start] obtain r where
    r: "fold_opt (reduce_parent (dg_ancestors g)) (bits_of ?m) ?m = Some r" "0 \<le> r"
      "bit_set r = {p \<in> strict_parents g i. \<forall>q\<in>strict_parents g i. int q \<in> set ([] @ bits_of ?m) \<longrightarrow> q \<noteq> p \<longrightarrow> p \<notin> anc g q}" by blast
  have "bit_set r = nearest g i" unfolding r(3) nearest_def using bits_of_sorted(2) [OF m] S by auto
  moreover have "reduced_parents (int i) g = Some r" using r(1) lt sh(2) by (simp add: reduced_parents_def py_simps Let_def)
  ultimately show ?thesis using r(2) by blast
qed

definition parent_edges :: "dep_graph \<Rightarrow> (nat \<times> nat) set" where
  "parent_edges g = {(p, i). i \<in> pos g \<and> p \<in> nearest g i}"

lemma parent_edges_above: "parent_edges g \<subseteq> ancestry g"
  by (auto simp: parent_edges_def nearest_def strict_parents_def above_iff)

lemma anc_finite: "dg_ok g \<Longrightarrow> i \<in> pos g \<Longrightarrow> finite (anc g i)"
  unfolding anc_def using dg_shapeD(5,6) [OF dg_okD(1)] bit_set_finite by blast

lemma anc_grows:
  assumes ok: "dg_ok g" and ac: "acyclic_graph g" and "(p, i) \<in> ancestry g" "p \<noteq> i"
  shows "card (anc g p) < card (anc g i)"
proof (rule psubset_card_mono)
  have i: "i \<in> pos g" "p \<in> pos g" using above_pos [OF ok assms(3)] by simp_all
  show "finite (anc g i)" by (rule anc_finite [OF ok i(1)])
  have "(i, p) \<notin> ancestry g" using ac assms(3,4) by (auto simp: acyclic_graph_def)
  moreover have "anc g p \<subseteq> anc g i"
    using transD [OF dg_okD(6) [OF ok] _ assms(3)] i by (auto simp: above_iff)
  ultimately show "anc g p \<subset> anc g i" using dg_okD(3) [OF ok i(1)] i by (auto simp: above_iff)
qed

lemma above_from_parents:
  assumes ok: "dg_ok g" and ac: "acyclic_graph g"
  shows "(j, i) \<in> ancestry g \<Longrightarrow> (j, i) \<in> (parent_edges g)\<^sup>*"
proof (induction "card (anc g i)" arbitrary: i rule: less_induct)
  case less
  show ?case
  proof (cases "j = i")
    case False
    have i: "i \<in> pos g" using less.prems by (simp add: above_iff)
    let ?Q = "{q \<in> strict_parents g i. j \<in> anc g q}"
    have sub: "strict_parents g i \<subseteq> pos g" using dg_okD(4) [OF ok i] by (auto simp: strict_parents_def)
    have "j \<in> ?Q" using less.prems False sub dg_okD(3) [OF ok] by (auto simp: strict_parents_def above_iff)
    moreover have "finite ?Q" using anc_finite [OF ok i] by (auto simp: strict_parents_def)
    ultimately have fin: "finite ((\<lambda>q. card (anc g q)) ` ?Q)" "(\<lambda>q. card (anc g q)) ` ?Q \<noteq> {}" by blast+
    obtain q where q: "q \<in> ?Q" "card (anc g q) = Max ((\<lambda>q. card (anc g q)) ` ?Q)" using Max_in [OF fin] by force
    have most: "card (anc g r) \<le> card (anc g q)" if "r \<in> ?Q" for r unfolding q(2) by (rule Max_ge [OF fin(1)]) (use that in blast)
    have "q \<in> nearest g i"
    proof -
      have "q \<notin> anc g r" if r: "r \<in> strict_parents g i" "r \<noteq> q" for r
      proof
        assume "q \<in> anc g r"
        then have qr: "(q, r) \<in> ancestry g" using r sub by (auto simp: above_iff)
        then have "j \<in> anc g r" using q(1) sub transD [OF dg_okD(6) [OF ok], of j q r] by (auto simp: above_iff)
        then show False using most [of r] r anc_grows [OF ok ac qr] by auto
      qed
      then show ?thesis using q(1) by (auto simp: nearest_def)
    qed
    then have edge: "(q, i) \<in> parent_edges g" using i by (simp add: parent_edges_def)
    have "(q, i) \<in> ancestry g" "q \<noteq> i" using q(1) i by (auto simp: strict_parents_def above_iff)
    then have "card (anc g q) < card (anc g i)" by (rule anc_grows [OF ok ac])
    moreover have "(j, q) \<in> ancestry g" using q(1) sub by (auto simp: above_iff)
    ultimately have "(j, q) \<in> (parent_edges g)\<^sup>*" by (rule less.hyps)
    then show ?thesis using edge by (rule rtrancl_into_rtrancl)
  qed simp
qed

section \<open>Connected components\<close>

definition related :: "dep_graph \<Rightarrow> nat set \<Rightarrow> (nat \<times> nat) set" where
  "related g S = {(i, j). i \<in> S \<and> j \<in> S \<and> ((i, j) \<in> ancestry g \<or> (j, i) \<in> ancestry g)}"

lemma reach_all:
  assumes ok: "dg_ok g" and xs: "set xs \<subseteq> int ` pos g" and acc: "0 \<le> acc"
  shows "\<exists>r. fold_opt (reach_from g) xs acc = Some r \<and> 0 \<le> r \<and> bit_set r = bit_set acc \<union> {j. \<exists>i. int i \<in> set xs \<and> ((i, j) \<in> ancestry g \<or> (j, i) \<in> ancestry g)}"
  using xs acc
proof (induction xs arbitrary: acc)
  case Nil
  then show ?case by simp
next
  case (Cons x xs)
  note sh = dg_shapeD [OF dg_okD(1) [OF ok]]
  obtain i where i: "i \<in> pos g" "x = int i" using Cons.prems(1) by auto
  let ?m = "acc OR (dg_descendants g ! i OR dg_ancestors g ! i)"
  have lt: "i < length (dg_fees g)" using sh(5) [OF i(1)] .
  have step: "reach_from g x acc = Some ?m" using lt sh(2,3) by (simp add: reach_from_def i(2) py_simps)
  have "0 \<le> ?m" using Cons.prems(2) sh(6,7) [OF lt] by simp
  from Cons.IH [OF _ this] obtain r where r: "fold_opt (reach_from g) xs ?m = Some r" "0 \<le> r"
    "bit_set r = bit_set ?m \<union> {j. \<exists>i. int i \<in> set xs \<and> ((i, j) \<in> ancestry g \<or> (j, i) \<in> ancestry g)}" using Cons.prems(1) by auto
  have m: "bit_set ?m = bit_set acc \<union> {j. (i, j) \<in> ancestry g \<or> (j, i) \<in> ancestry g}"
  proof -
    have "bit_set ?m = bit_set acc \<union> (des g i \<union> anc g i)" by (simp only: bit_set_ops des_def anc_def)
    moreover have "j \<in> des g i \<longleftrightarrow> (i, j) \<in> ancestry g" "j \<in> anc g i \<longleftrightarrow> (j, i) \<in> ancestry g" for j
      by (rule des_above [OF ok i(1)]) (simp add: above_iff i(1))
    ultimately show ?thesis by blast
  qed
  have mem: "int k \<in> set (x # xs) \<longleftrightarrow> k = i \<or> int k \<in> set xs" for k using i(2) by auto
  have split: "{j. \<exists>k. int k \<in> set (x # xs) \<and> ((k, j) \<in> ancestry g \<or> (j, k) \<in> ancestry g)}
      = {j. (i, j) \<in> ancestry g \<or> (j, i) \<in> ancestry g} \<union> {j. \<exists>k. int k \<in> set xs \<and> ((k, j) \<in> ancestry g \<or> (j, k) \<in> ancestry g)}"
    unfolding mem by (simp only: conj_disj_distribR ex_disj_distrib simp_thms Collect_disj_eq)
  have "bit_set r = bit_set acc \<union> {j. \<exists>k. int k \<in> set (x # xs) \<and> ((k, j) \<in> ancestry g \<or> (j, k) \<in> ancestry g)}"
    unfolding r(3) split m Un_assoc ..
  with step r(1,2) show ?case by simp
qed

definition reaching :: "dep_graph \<Rightarrow> nat set \<Rightarrow> nat \<Rightarrow> nat set \<Rightarrow> nat set \<Rightarrow> bool" where
  \<comment> \<open>what the loop has reached, and what it has yet to look at\<close>
  "reaching g S i new old \<longleftrightarrow> old \<subseteq> (related g S)\<^sup>* `` {i} \<and> new \<subseteq> (related g S)\<^sup>* `` {i} \<and> i \<in> old \<union> new
     \<and> (\<forall>k\<in>old - new. related g S `` {k} \<subseteq> old)"

lemma related_closed: "i \<in> S \<Longrightarrow> (related g S)\<^sup>* `` {i} \<subseteq> S"
proof
  fix k
  assume "i \<in> S" "k \<in> (related g S)\<^sup>* `` {i}"
  then have "(i, k) \<in> (related g S)\<^sup>*" by simp
  then show "k \<in> S" using \<open>i \<in> S\<close> by (induction rule: rtrancl_induct) (auto simp: related_def)
qed

lemma component_loop_ok:
  assumes ok: "dg_ok g" and S: "bit_set todo \<subseteq> pos g" "0 \<le> todo" and i: "i \<in> bit_set todo"
  shows "0 \<le> new \<Longrightarrow> 0 \<le> old \<Longrightarrow> reaching g (bit_set todo) i (bit_set new) (bit_set old)
    \<Longrightarrow> \<exists>r. component_loop g todo new old = Some r \<and> bit_set r = (related g (bit_set todo))\<^sup>* `` {i}"
proof (induction "2 * card (bit_set todo - bit_set old) + (if new = 0 then 0 else 1)" arbitrary: new old rule: less_induct)
  case less
  let ?S = "bit_set todo" let ?C = "(related g ?S)\<^sup>* `` {i}"
  have C: "?C \<subseteq> ?S" by (rule related_closed [OF i])
  have re: "bit_set old \<subseteq> ?C" "bit_set new \<subseteq> ?C" "i \<in> bit_set old \<union> bit_set new"
    "\<And>k. k \<in> bit_set old \<Longrightarrow> k \<notin> bit_set new \<Longrightarrow> related g ?S `` {k} \<subseteq> bit_set old"
    using less.prems(3) by (auto simp: reaching_def)
  show ?case
  proof (cases "new = 0")
    case True
    have "?C \<subseteq> bit_set old"
    proof
      fix k
      assume "k \<in> ?C"
      then have "(i, k) \<in> (related g ?S)\<^sup>*" by simp
      then show "k \<in> bit_set old"
        by (induction rule: rtrancl_induct) (use re(3,4) True in \<open>auto simp: bit_set_ops\<close>)
    qed
    with True re(1) show ?thesis by (simp add: component_loop.simps)
  next
    case False
    have bits: "set (bits_of new) = int ` bit_set new" by (rule bits_of_sorted(2) [OF less.prems(1)])
    have "set (bits_of new) \<subseteq> int ` pos g" unfolding bits using re(2) C S(1) by blast
    from reach_all [OF ok this less.prems(2)] obtain r where r: "fold_opt (reach_from g) (bits_of new) old = Some r" "0 \<le> r"
      "bit_set r = bit_set old \<union> {j. \<exists>i. int i \<in> set (bits_of new) \<and> ((i, j) \<in> ancestry g \<or> (j, i) \<in> ancestry g)}" by blast
    let ?old = "r AND todo" let ?new = "?old AND NOT old"
    have step: "component_loop g todo new old = component_loop g todo ?new ?old"
      using False r(1) by (simp add: component_loop.simps [of g todo new] Let_def)
    have nn: "0 \<le> ?old" "0 \<le> ?new" using r(2) by simp_all
    have old': "bit_set ?old = bit_set old \<union> related g ?S `` bit_set new"
    proof -
      have "bit_set r = bit_set old \<union> {j. \<exists>i\<in>bit_set new. (i, j) \<in> ancestry g \<or> (j, i) \<in> ancestry g}"
        unfolding r(3) bits by auto
      then show ?thesis unfolding bit_set_ops related_def using re(1,2) C by blast
    qed
    have new': "bit_set ?new = bit_set ?old - bit_set old" by (simp only: bit_set_ops Diff_eq)
    have self: "bit_set new \<subseteq> bit_set ?old"
    proof
      fix k
      assume k: "k \<in> bit_set new"
      then have "k \<in> ?S" using re(2) C by blast
      then have "(k, k) \<in> related g ?S" using above_refl [OF ok] S(1) by (auto simp: related_def)
      with k show "k \<in> bit_set ?old" unfolding old' by blast
    qed
    have "related g ?S `` bit_set new \<subseteq> ?C" using re(2) by (auto intro: rtrancl_into_rtrancl)
    then have inC: "bit_set ?old \<subseteq> ?C" unfolding old' using re(1) by blast
    have reach: "reaching g ?S i (bit_set ?new) (bit_set ?old)"
      unfolding reaching_def
    proof (intro conjI ballI)
      show "bit_set ?old \<subseteq> ?C" "bit_set ?new \<subseteq> ?C" using inC new' by blast+
      show "i \<in> bit_set ?old \<union> bit_set ?new" using re(3) self old' by blast
      fix k
      assume "k \<in> bit_set ?old - bit_set ?new"
      then have "k \<in> bit_set old" using new' by blast
      then show "related g ?S `` {k} \<subseteq> bit_set ?old" using re(4) [of k] unfolding old' by blast
    qed
    have fin: "finite ?S" by (rule bit_set_finite [OF S(2)])
    have less: "2 * card (?S - bit_set ?old) + (if ?new = 0 then 0 else 1) < 2 * card (?S - bit_set old) + (if new = 0 then 0 else 1)"
    proof (cases "?new = 0")
      case True
      have "card (?S - bit_set ?old) \<le> card (?S - bit_set old)" by (rule card_mono) (use fin old' in auto)
      with True False show ?thesis by simp
    next
      case n: False
      then obtain k where "k \<in> bit_set ?new" using bit_set_empty by blast
      then have "?S - bit_set ?old \<subset> ?S - bit_set old" using new' old' inC C by blast
      then have "card (?S - bit_set ?old) < card (?S - bit_set old)" by (rule psubset_card_mono [rotated]) (use fin in blast)
      with n False show ?thesis by simp
    qed
    from less.hyps [OF less nn(2,1) reach] show ?thesis unfolding step .
  qed
qed

lemma connected_component_ok:
  assumes "dg_ok g" "bit_set todo \<subseteq> pos g" "0 \<le> todo" "i \<in> bit_set todo"
  shows "\<exists>r. connected_component todo (int i) g = Some r \<and> bit_set r = (related g (bit_set todo))\<^sup>* `` {i}"
proof -
  have "reaching g (bit_set todo) i (bit_set (push_bit i 1)) (bit_set 0)" by (simp add: reaching_def bit_set_ops del: push_bit_of_1)
  from component_loop_ok [OF assms _ _ this] show ?thesis by (simp add: connected_component_def py_simps)
qed

section \<open>An order with the parents first\<close>

lemma those_map: "(\<And>x. x \<in> set xs \<Longrightarrow> f x = Some (h x)) \<Longrightarrow> those (map f xs) = Some (map h xs)"
  by (induction xs) simp_all

lemma int_nat_list: "(\<And>y. y \<in> set ys \<Longrightarrow> 0 \<le> y) \<Longrightarrow> map int (map nat ys) = ys"
  by (induction ys) simp_all

lemma append_topo_ok:
  assumes ok: "dg_ok g" and ac: "acyclic_graph g" and sel: "bit_set select \<subseteq> pos g" "0 \<le> select"
  shows "\<exists>ts. append_topo lin select g = Some (lin @ map int ts) \<and> distinct ts \<and> set ts = bit_set select
    \<and> (\<forall>a b. a < b \<longrightarrow> b < length ts \<longrightarrow> (ts ! b, ts ! a) \<notin> ancestry g)"
proof -
  note sh = dg_shapeD [OF dg_okD(1) [OF ok]]
  let ?key = "\<lambda>i. (bit_count (dg_ancestors g ! nat i), i)"
  let ?ks = "sort_key fst (map (\<lambda>i. (?key i, i)) (bits_of select))"
  obtain ts where ts_def: "ts = map nat (map snd ?ks)" by blast
  have bits: "set (bits_of select) = int ` bit_set select" "distinct (bits_of select)"
    using bits_of_sorted(2) bits_of_distinct sel(2) by blast+
  have "those (map (\<lambda>i. do { a \<leftarrow> py_nth (dg_ancestors g) i; Some ((bit_count a, i), i) }) (bits_of select))
      = Some (map (\<lambda>i. (?key i, i)) (bits_of select))"
  proof (rule those_map)
    fix x
    assume "x \<in> set (bits_of select)"
    then obtain i where "x = int i" "i < length (dg_ancestors g)" using bits(1) sel(1) sh(2,5) by auto
    then show "do { a \<leftarrow> py_nth (dg_ancestors g) x; Some ((bit_count a, x), x) } = Some (?key x, x)" by (simp add: py_simps)
  qed
  then have run: "append_topo lin select g = Some (lin @ map snd ?ks)" by (simp add: append_topo_def)
  have "map snd (map (\<lambda>i. (?key i, i)) (bits_of select)) = bits_of select" by (simp add: comp_def)
  moreover have "mset (map snd ?ks) = mset (map snd (map (\<lambda>i. (?key i, i)) (bits_of select)))" unfolding mset_map mset_sort ..
  ultimately have ms: "mset (map snd ?ks) = mset (bits_of select)" by (simp only:)
  have sn: "set (map snd ?ks) = int ` bit_set select" "distinct (map snd ?ks)"
    using bits mset_eq_setD [OF ms] mset_eq_imp_distinct_iff [OF ms] by (simp_all only:)
  have ints: "map int ts = map snd ?ks"
    unfolding ts_def
  proof (rule int_nat_list)
    fix y
    assume "y \<in> set (map snd ?ks)"
    then have "y \<in> int ` bit_set select" by (simp only: sn(1))
    then show "0 \<le> y" by auto
  qed
  have "distinct ts" "set ts = bit_set select"
    using sn unfolding ints [symmetric] by (auto simp: distinct_map inj_image_eq_iff)
  moreover have "(ts ! b, ts ! a) \<notin> ancestry g" if ab: "a < b" "b < length ts" for a b
  proof
    assume anc: "(ts ! b, ts ! a) \<in> ancestry g"
    have ne: "ts ! b \<noteq> ts ! a" using \<open>distinct ts\<close> ab by (simp add: nth_eq_iff_index_eq)
    then have lt: "card (anc g (ts ! b)) < card (anc g (ts ! a))" using anc_grows [OF ok ac anc] by blast
    have len: "length ts = length ?ks" by (simp add: ts_def)
    have form: "fst (?ks ! k) = ?key (int (ts ! k))" if "k < length ts" for k
    proof -
      have "?ks ! k \<in> set ?ks" using that len by (simp del: set_sort)
      then have "fst (?ks ! k) = ?key (snd (?ks ! k))" by auto
      moreover have "snd (?ks ! k) = int (ts ! k)" using arg_cong [OF ints, of "\<lambda>xs. xs ! k"] that len by simp
      ultimately show ?thesis by simp
    qed
    have "fst (?ks ! a) \<le> fst (?ks ! b)"
      using sorted_sort_key [of fst "map (\<lambda>i. (?key i, i)) (bits_of select)"] ab len sorted_nth_mono [of "map fst ?ks" a b] by simp
    then have "bit_count (dg_ancestors g ! (ts ! a)) \<le> bit_count (dg_ancestors g ! (ts ! b))"
      using form ab by (auto simp: less_eq_prod_def)
    moreover have "bit_count (dg_ancestors g ! (ts ! k)) = int (card (anc g (ts ! k)))" if "k < length ts" for k
    proof -
      have "ts ! k \<in> pos g" using that \<open>set ts = bit_set select\<close> sel(1) nth_mem by blast
      then show ?thesis unfolding anc_def using bit_count_card sh(5,6) by blast
    qed
    ultimately show False using lt ab by simp
  qed
  ultimately show ?thesis using run ints by (intro exI [of _ ts]) simp
qed

end
