(* ===== verification/Dep_Graph_Remap.thy ===== *)
theory Dep_Graph_Remap
  imports Dep_Graph_Walks
begin

unbundle bit_operations_syntax

text \<open>
  A graph moved to other positions: the transactions are placed one by one, and the reduced parents of
  each are enough to bring back the whole ancestry.
\<close>

section \<open>The placing\<close>

definition moved_to :: "int list \<Rightarrow> nat \<Rightarrow> nat" where
  "moved_to mapping i = nat (mapping ! i)"

definition maps_into :: "int list \<Rightarrow> nat \<Rightarrow> nat set \<Rightarrow> bool" where
  "maps_into mapping n S \<longleftrightarrow> (\<forall>i\<in>S. i < length mapping \<and> 0 \<le> mapping ! i \<and> nat (mapping ! i) < n) \<and> inj_on (moved_to mapping) S"

lemma maps_intoD:
  assumes "maps_into mapping n S" "i \<in> S"
  shows "py_nth mapping (int i) = Some (int (moved_to mapping i))" "moved_to mapping i < n"
  using assms by (simp_all add: maps_into_def moved_to_def py_simps)

definition placed :: "dep_graph \<Rightarrow> int list \<Rightarrow> nat \<Rightarrow> nat set \<Rightarrow> dep_graph \<Rightarrow> bool" where
  "placed g mapping n P new \<longleftrightarrow> length (dg_fees new) = n \<and> length (dg_sizes new) = n \<and> length (dg_ancestors new) = n
     \<and> length (dg_descendants new) = n \<and> 0 \<le> dg_positions new \<and> pos new = moved_to mapping ` P
     \<and> (\<forall>m\<in>set (dg_ancestors new) \<union> set (dg_descendants new). 0 \<le> m)
     \<and> (\<forall>i\<in>P. dg_ancestors new ! moved_to mapping i = push_bit (moved_to mapping i) 1
          \<and> dg_descendants new ! moved_to mapping i = push_bit (moved_to mapping i) 1
          \<and> dg_fees new ! moved_to mapping i = dg_fees g ! i \<and> dg_sizes new ! moved_to mapping i = dg_sizes g ! i)"

lemma remap_place_one:
  assumes g: "dg_shape g" and m: "maps_into mapping n S" "S \<subseteq> pos g" and pl: "placed g mapping n P new" "P \<subseteq> S" and i: "i \<in> S" "i \<notin> P"
  shows "\<exists>new'. remap_place g mapping (int i) new = Some new' \<and> placed g mapping n (insert i P) new'"
proof -
  let ?j = "moved_to mapping i"
  note at = maps_intoD [OF m(1) i(1)]
  have ig: "i < length (dg_fees g)" "i < length (dg_sizes g)" using dg_shapeD(1,5) [OF g] i(1) m(2) by auto
  have lens: "length (dg_fees new) = n" "length (dg_sizes new) = n" "length (dg_ancestors new) = n" "length (dg_descendants new) = n"
    using pl(1) by (simp_all add: placed_def)
  let ?new = "new\<lparr> dg_ancestors := (dg_ancestors new)[?j := push_bit ?j 1], dg_descendants := (dg_descendants new)[?j := push_bit ?j 1],
    dg_positions := dg_positions new OR push_bit ?j 1, dg_fees := (dg_fees new)[?j := dg_fees g ! i],
    dg_sizes := (dg_sizes new)[?j := dg_sizes g ! i] \<rparr>"
  have "remap_place g mapping (int i) new = Some ?new"
    using at ig lens by (simp add: remap_place_def py_simps del: push_bit_of_1)
  moreover have "placed g mapping n (insert i P) ?new"
  proof -
    have ne: "moved_to mapping k \<noteq> ?j" if "k \<in> P" for k
      using m(1) that i pl(2) by (auto simp: maps_into_def inj_on_def)
    have "\<forall>x\<in>set ((dg_ancestors new)[?j := push_bit ?j 1]) \<union> set ((dg_descendants new)[?j := push_bit ?j 1]). 0 \<le> x"
      using pl(1) set_update_subset_insert [of "dg_ancestors new" ?j "push_bit ?j 1"]
        set_update_subset_insert [of "dg_descendants new" ?j "push_bit ?j 1"] by (auto simp: placed_def simp del: push_bit_of_1) 
    moreover have "pos ?new = moved_to mapping ` insert i P" using pl(1) by (auto simp: placed_def pos_def bit_set_ops simp del: push_bit_of_1)
    ultimately show ?thesis
      using pl(1) ne ne [symmetric] at(2) lens unfolding placed_def by (simp add: nth_list_update del: push_bit_of_1)
  qed
  ultimately show ?thesis by blast
qed

lemma remap_place_all:
  assumes g: "dg_shape g" and m: "maps_into mapping n S" "S \<subseteq> pos g"
  shows "placed g mapping n P new \<Longrightarrow> P \<union> nat ` set xs \<subseteq> S \<Longrightarrow> distinct xs \<Longrightarrow> \<forall>x\<in>set xs. 0 \<le> x \<and> nat x \<notin> P
    \<Longrightarrow> \<exists>new'. fold_opt (remap_place g mapping) xs new = Some new' \<and> placed g mapping n (P \<union> nat ` set xs) new'"
proof (induction xs arbitrary: P new)
  case Nil
  then show ?case by simp
next
  case (Cons x xs)
  have x: "x = int (nat x)" "nat x \<in> S" "nat x \<notin> P" "P \<subseteq> S" using Cons.prems(2,4) by auto
  obtain new1 where n1: "remap_place g mapping (int (nat x)) new = Some new1" "placed g mapping n (insert (nat x) P) new1"
    using remap_place_one [OF g m Cons.prems(1) x(4,2,3)] by blast
  have "\<forall>y\<in>set xs. 0 \<le> y \<and> nat y \<notin> insert (nat x) P"
  proof
    fix y
    assume y: "y \<in> set xs"
    then have "0 \<le> y" "nat y \<notin> P" "y \<noteq> x" "0 \<le> x" using Cons.prems(3,4) by auto
    then show "0 \<le> y \<and> nat y \<notin> insert (nat x) P" by auto
  qed
  then obtain new2 where "fold_opt (remap_place g mapping) xs new1 = Some new2" "placed g mapping n (insert (nat x) P \<union> nat ` set xs) new2"
    using Cons.IH [OF n1(2)] Cons.prems(2,3) by auto
  then show ?case using n1(1) x(1) by (intro exI [of _ new2]) simp
qed

lemma placed_ok:
  assumes "placed g mapping n S new" "n = 0 \<or> n - 1 \<in> moved_to mapping ` S" "\<forall>j\<in>moved_to mapping ` S. j < n"
  shows "dg_ok new \<and> ancestry new = Id_on (moved_to mapping ` S)"
proof -
  have p: "pos new = moved_to mapping ` S" using assms(1) by (simp add: placed_def)
  have own: "anc new j = {j}" "des new j = {j}" if "j \<in> pos new" for j
    using that assms(1) unfolding p by (auto simp: placed_def anc_def des_def bit_set_ops simp del: push_bit_of_1)
  have ids: "ancestry new = Id_on (moved_to mapping ` S)" using own unfolding p by (auto simp: ancestry_def p Id_on_def)
  have "dg_shape new" using assms(1,3) p by (auto simp: dg_shape_def placed_def)
  then have "dg_ok new"
  proof (rule dg_okI)
    show "length (dg_fees new) - 1 \<in> pos new" if "dg_fees new \<noteq> []"
      using that assms(1,2) unfolding p by (auto simp: placed_def)
    show "des new j = {k \<in> pos new. j \<in> anc new k}" if "j \<in> pos new" for j using own that by auto
    show "trans (ancestry new)" unfolding ids by (auto intro: transI)
  qed (use own in auto)
  with ids show ?thesis by simp
qed

section \<open>The parents\<close>

lemma map_positions:
  assumes "maps_into mapping n S"
  shows "nat ` set xs \<subseteq> S \<Longrightarrow> \<forall>x\<in>set xs. 0 \<le> x \<Longrightarrow> 0 \<le> acc
    \<Longrightarrow> \<exists>r. fold_opt (map_position mapping) xs acc = Some r \<and> 0 \<le> r \<and> bit_set r = bit_set acc \<union> moved_to mapping ` nat ` set xs"
proof (induction xs arbitrary: acc)
  case Nil
  then show ?case by simp
next
  case (Cons x xs)
  have x: "x = int (nat x)" "nat x \<in> S" using Cons.prems by auto
  let ?acc = "acc OR push_bit (moved_to mapping (nat x)) 1"
  have step: "map_position mapping (int (nat x)) acc = Some ?acc"
    using maps_intoD(1) [OF assms x(2)] by (simp add: map_position_def py_simps del: push_bit_of_1)
  have "0 \<le> ?acc" using Cons.prems(3) by simp
  then obtain r where "fold_opt (map_position mapping) xs ?acc = Some r" "0 \<le> r" "bit_set r = bit_set ?acc \<union> moved_to mapping ` nat ` set xs"
    using Cons.IH [of ?acc] Cons.prems(1,2) by auto
  then show ?case using step x(1) by (intro exI [of _ r]) (auto simp: bit_set_ops simp del: push_bit_of_1)
qed

definition moved_edges :: "dep_graph \<Rightarrow> int list \<Rightarrow> nat set \<Rightarrow> (nat \<times> nat) set" where
  "moved_edges g mapping X = {(moved_to mapping p, moved_to mapping i) | p i. i \<in> X \<and> p \<in> nearest g i}"

lemma trancl_absorb: "(A\<^sup>+ \<union> B)\<^sup>+ = (A \<union> B)\<^sup>+"
proof
  have "A\<^sup>+ \<subseteq> (A \<union> B)\<^sup>+" by (auto intro: trancl_mono)
  then have "A\<^sup>+ \<union> B \<subseteq> (A \<union> B)\<^sup>+" by auto
  then have "x \<in> ((A \<union> B)\<^sup>+)\<^sup>+" if "x \<in> (A\<^sup>+ \<union> B)\<^sup>+" for x using that trancl_mono by blast
  then show "(A\<^sup>+ \<union> B)\<^sup>+ \<subseteq> (A \<union> B)\<^sup>+" unfolding trancl_id [OF trans_trancl] by blast
  show "(A \<union> B)\<^sup>+ \<subseteq> (A\<^sup>+ \<union> B)\<^sup>+" by (rule subsetI, erule trancl_mono) auto
qed

lemma remap_parents_all:
  assumes g: "dg_ok g" "acyclic_graph g" and m: "maps_into mapping n (pos g)"
  shows "dg_ok new \<Longrightarrow> pos new = moved_to mapping ` pos g \<Longrightarrow> ancestry new = (Id_on (moved_to mapping ` pos g) \<union> moved_edges g mapping X)\<^sup>+
      \<Longrightarrow> set xs \<subseteq> int ` pos g
    \<Longrightarrow> \<exists>new'. fold_opt (remap_parents g mapping) xs new = Some new' \<and> dg_ok new' \<and> pos new' = moved_to mapping ` pos g
      \<and> ancestry new' = (Id_on (moved_to mapping ` pos g) \<union> moved_edges g mapping (X \<union> nat ` set xs))\<^sup>+
      \<and> dg_fees new' = dg_fees new \<and> dg_sizes new' = dg_sizes new"
proof (induction xs arbitrary: X new)
  case Nil
  then show ?case by simp
next
  case (Cons x xs)
  obtain i where i: "i \<in> pos g" "x = int i" using Cons.prems(4) by auto
  let ?F = "moved_to mapping ` pos g"
  obtain r where r: "reduced_parents (int i) g = Some r" "0 \<le> r" "bit_set r = nearest g i" using reduced_parents_ok [OF g i(1)] by blast
  have sub: "nearest g i \<subseteq> pos g" using dg_okD(4) [OF g(1) i(1)] by (auto simp: nearest_def strict_parents_def)
  have bits: "nat ` set (bits_of r) = nearest g i" "\<forall>x\<in>set (bits_of r). 0 \<le> x" using bits_of_sorted(2) [OF r(2)] r(3) by (auto simp: image_image)
  obtain q where q: "fold_opt (map_position mapping) (bits_of r) 0 = Some q" "0 \<le> q" "bit_set q = moved_to mapping ` nearest g i"
    using map_positions [OF m, of "bits_of r" 0] bits sub by (auto simp: bit_set_ops)
  have "moved_to mapping i \<in> pos new" "bit_set q \<subseteq> pos new" using Cons.prems(2) i(1) q(3) sub by auto
  then obtain new1 where n1: "add_dependencies q (int (moved_to mapping i)) new = Some new1" "dg_ok new1"
    "ancestry new1 = (ancestry new \<union> bit_set q \<times> {moved_to mapping i})\<^sup>+" "pos new1 = pos new" "dg_fees new1 = dg_fees new" "dg_sizes new1 = dg_sizes new"
    using add_dependencies_ok [OF Cons.prems(1) _ q(2)] by blast
  have step: "remap_parents g mapping x new = Some new1"
    using r(1) q(1) n1(1) maps_intoD(1) [OF m i(1)] by (simp add: remap_parents_def i(2))
  have edges: "moved_edges g mapping (insert i X) = moved_edges g mapping X \<union> bit_set q \<times> {moved_to mapping i}"
    unfolding q(3) by (auto simp: moved_edges_def)
  have "ancestry new1 = (Id_on ?F \<union> moved_edges g mapping (insert i X))\<^sup>+"
    unfolding n1(3) Cons.prems(3) edges by (simp add: trancl_absorb Un_assoc)
  from Cons.IH [OF n1(2) _ this] obtain new' where "fold_opt (remap_parents g mapping) xs new1 = Some new'" "dg_ok new'" "pos new' = ?F"
    "ancestry new' = (Id_on ?F \<union> moved_edges g mapping (insert i X \<union> nat ` set xs))\<^sup>+" "dg_fees new' = dg_fees new" "dg_sizes new' = dg_sizes new"
    using n1(4-6) Cons.prems(2,4) by auto
  then show ?case using step i(2) by (intro exI [of _ new']) simp
qed

end
