(* ===== verification/Chunking.thy ===== *)
theory Chunking
  imports Dep_Graph
begin

unbundle bit_operations_syntax

text \<open>
  \<open>chunk_linearization_info\<close> of \<open>cluster_linearize.py\<close>: the chunks of an order of transactions.  The
  list \<open>chunks\<close>, used as a stack, has its last chunk at the head here.  What is proved of it: the chunks
  cut the order into pieces of feerates that never rise, and their diagram is nowhere below the
  points the order itself passes through.
\<close>

section \<open>The loop\<close>

record set_info =
  si_transactions :: int
  si_feerate :: fee_frac

fun absorb :: "int \<times> int \<times> int \<Rightarrow> (int \<times> int \<times> int) list \<Rightarrow> (int \<times> int \<times> int) \<times> (int \<times> int \<times> int) list" where
  "absorb c [] = (c, [])"
| "absorb (m, fee, siz) ((prev_mask, prev_fee, prev_size) # chunks) =
     (if fee * prev_size > prev_fee * siz
      then absorb (m OR prev_mask, fee + prev_fee, siz + prev_size) chunks
      else ((m, fee, siz), (prev_mask, prev_fee, prev_size) # chunks))"

definition chunk_step :: "dep_graph \<Rightarrow> int \<Rightarrow> (int \<times> int \<times> int) list \<Rightarrow> (int \<times> int \<times> int) list option" where
  "chunk_step g i chunks =
     do {
       one \<leftarrow> shift_one i;
       fee \<leftarrow> py_nth (dg_fees g) i;
       size \<leftarrow> py_nth (dg_sizes g) i;
       let (c, rest) = absorb (one, fee, size) chunks;
       Some (c # rest)
     }"

definition chunk_linearization_info :: "dep_graph \<Rightarrow> int list \<Rightarrow> set_info list option" where
  "chunk_linearization_info g linearization =
     do {
       chunks \<leftarrow> fold_opt (chunk_step g) linearization [];
       Some (map (\<lambda>(m, fee, size). \<lparr> si_transactions = m, si_feerate = \<lparr> ff_fee = fee, ff_size = size \<rparr> \<rparr>) (rev chunks))
     }"

definition chunk_linearization :: "dep_graph \<Rightarrow> int list \<Rightarrow> fee_frac list option" where
  "chunk_linearization g linearization =
     do { infos \<leftarrow> chunk_linearization_info g linearization; Some (map si_feerate infos) }"

section \<open>Groups of an order\<close>

definition fee_sum :: "dep_graph \<Rightarrow> int list \<Rightarrow> int" where
  "fee_sum g xs = (\<Sum>i\<leftarrow>xs. dg_fees g ! nat i)"

definition vsize_sum :: "dep_graph \<Rightarrow> int list \<Rightarrow> int" where
  "vsize_sum g xs = (\<Sum>i\<leftarrow>xs. dg_sizes g ! nat i)"

definition mask_of :: "int list \<Rightarrow> int" where
  "mask_of xs = foldr (\<lambda>i m. push_bit (nat i) 1 OR m) xs 0"

definition group_info :: "dep_graph \<Rightarrow> int list \<Rightarrow> int \<times> int \<times> int" where
  "group_info g xs = (mask_of xs, fee_sum g xs, vsize_sum g xs)"

definition below_chord :: "dep_graph \<Rightarrow> int list \<Rightarrow> bool" where
  \<comment> \<open>no part at the front of the group has a higher feerate than the group\<close>
  "below_chord g xs \<longleftrightarrow> (\<forall>k\<le>length xs. fee_sum g (take k xs) * vsize_sum g xs \<le> fee_sum g xs * vsize_sum g (take k xs))"

definition not_higher :: "dep_graph \<Rightarrow> int list \<Rightarrow> int list \<Rightarrow> bool" where
  \<comment> \<open>the first group, the later one, has no higher feerate than the second\<close>
  "not_higher g xs ys \<longleftrightarrow> fee_sum g xs * vsize_sum g ys \<le> fee_sum g ys * vsize_sum g xs"

lemma sums_append [simp]:
  "fee_sum g (xs @ ys) = fee_sum g xs + fee_sum g ys" "vsize_sum g (xs @ ys) = vsize_sum g xs + vsize_sum g ys"
  "fee_sum g [] = 0" "vsize_sum g [] = 0"
  by (simp_all add: fee_sum_def vsize_sum_def)

lemma mask_of_append: "mask_of (xs @ ys) = mask_of xs OR mask_of ys"
  by (induction xs) (simp_all add: mask_of_def or.assoc)

lemma mask_of_bits: "(\<And>i. i \<in> set xs \<Longrightarrow> 0 \<le> i) \<Longrightarrow> bit_set (mask_of xs) = nat ` set xs"
  by (induction xs) (auto simp: mask_of_def bit_set_ops simp del: push_bit_of_1)

lemma merged_chord:
  fixes f1 s1 f2 s2 f s :: int
  assumes "f1 * s2 < f2 * s1" "0 < s1" "0 < s2" "f * s1 \<le> f1 * s" "0 \<le> s"
  shows "f * (s1 + s2) \<le> (f1 + f2) * s"
proof -
  have "f1 * s2 * s \<le> f2 * s1 * s" using assms(1,5) by (intro mult_right_mono) simp_all
  moreover have "f * s1 * s2 \<le> f1 * s * s2" using assms(3,4) by (intro mult_right_mono) simp_all
  ultimately have "(f * s2) * s1 \<le> (f2 * s) * s1" by (simp add: algebra_simps)
  then have "f * s2 \<le> f2 * s" using assms(2) by simp
  with assms(4) show ?thesis by (simp add: algebra_simps)
qed

lemma merged_chord_later:
  fixes f1 s1 f2 s2 f s :: int
  assumes "f1 * s2 < f2 * s1" "0 < s1" "0 < s2" "f * s2 \<le> f2 * s" "s \<le> s2"
  shows "(f1 + f) * (s1 + s2) \<le> (f1 + f2) * (s1 + s)"
proof -
  \<comment> \<open>what is left of the second group has at least its feerate\<close>
  have rest: "f2 * (s2 - s) \<le> (f2 - f) * s2" using assms(4) by (simp add: algebra_simps)
  have "f1 * s2 * (s2 - s) \<le> f2 * s1 * (s2 - s)" using assms(1,5) by (intro mult_right_mono) simp_all
  also have "\<dots> \<le> (f2 - f) * s2 * s1" using mult_right_mono [OF rest, of s1] assms(2) by (simp add: algebra_simps)
  finally have "(f1 * (s2 - s)) * s2 \<le> ((f2 - f) * s1) * s2" by (simp add: algebra_simps)
  then have "f1 * (s2 - s) \<le> (f2 - f) * s1" using assms(3) by simp
  with rest show ?thesis by (simp add: algebra_simps)
qed

definition positive :: "dep_graph \<Rightarrow> int list \<Rightarrow> bool" where
  "positive g xs \<longleftrightarrow> (\<forall>i\<in>set xs. 0 < dg_sizes g ! nat i)"

lemma positive_sum:
  assumes "positive g xs"
  shows "0 \<le> vsize_sum g xs" "xs \<noteq> [] \<Longrightarrow> 0 < vsize_sum g xs" "vsize_sum g (take k xs) \<le> vsize_sum g xs"
proof -
  have nn: "0 \<le> vsize_sum g ys" if "positive g ys" for ys
    using that by (auto simp: positive_def vsize_sum_def intro!: sum_list_nonneg) (simp add: order_less_imp_le)
  show "0 \<le> vsize_sum g xs" by (rule nn [OF assms])
  show "0 < vsize_sum g xs" if "xs \<noteq> []"
  proof (cases xs)
    case (Cons y ys)
    then have "0 \<le> vsize_sum g ys" "0 < dg_sizes g ! nat y" using assms nn by (auto simp: positive_def)
    with Cons show ?thesis by (simp add: vsize_sum_def)
  qed (use that in simp)
  have "0 \<le> vsize_sum g (drop k xs)" using assms by (intro nn) (auto simp: positive_def dest: in_set_dropD)
  moreover have "vsize_sum g xs = vsize_sum g (take k xs) + vsize_sum g (drop k xs)" by (simp flip: sums_append)
  ultimately show "vsize_sum g (take k xs) \<le> vsize_sum g xs" by simp
qed

lemma below_chord_append:
  assumes "below_chord g xs" "below_chord g ys" "positive g xs" "positive g ys" "xs \<noteq> []" "ys \<noteq> []"
    and "fee_sum g xs * vsize_sum g ys < fee_sum g ys * vsize_sum g xs"
  shows "below_chord g (xs @ ys)"
  unfolding below_chord_def
proof (intro allI impI)
  fix k
  assume "k \<le> length (xs @ ys)"
  note s = positive_sum(2) [OF assms(3,5)] positive_sum(2) [OF assms(4,6)]
  show "fee_sum g (take k (xs @ ys)) * vsize_sum g (xs @ ys) \<le> fee_sum g (xs @ ys) * vsize_sum g (take k (xs @ ys))"
  proof (cases "k \<le> length xs")
    case True
    then have "fee_sum g (take k xs) * vsize_sum g xs \<le> fee_sum g xs * vsize_sum g (take k xs)" using assms(1) by (simp add: below_chord_def)
    moreover have "0 \<le> vsize_sum g (take k xs)" using assms(3) by (intro positive_sum(1)) (auto simp: positive_def dest: in_set_takeD)
    ultimately show ?thesis using merged_chord [OF assms(7) s] True by simp
  next
    case False
    then obtain j where j: "k = length xs + j" "j \<le> length ys" using \<open>k \<le> length (xs @ ys)\<close> by (metis add_le_cancel_left le_iff_add length_append nat_le_linear)
    then have "fee_sum g (take j ys) * vsize_sum g ys \<le> fee_sum g ys * vsize_sum g (take j ys)" using assms(2) by (simp add: below_chord_def)
    from merged_chord_later [OF assms(7) s this positive_sum(3) [OF assms(4)]] show ?thesis using j by simp
  qed
qed

section \<open>The stack\<close>

definition stack_ok :: "dep_graph \<Rightarrow> int list list \<Rightarrow> bool" where
  "stack_ok g gs \<longleftrightarrow> (\<forall>xs\<in>set gs. xs \<noteq> [] \<and> positive g xs \<and> below_chord g xs) \<and> successively (not_higher g) gs"

lemma absorb_groups:
  assumes "stack_ok g gs" "xs \<noteq> []" "positive g xs" "below_chord g xs"
  shows "\<exists>ys hs. absorb (group_info g xs) (map (group_info g) gs) = (group_info g ys, map (group_info g) hs)
    \<and> stack_ok g (ys # hs) \<and> concat (rev hs) @ ys = concat (rev gs) @ xs"
  using assms
proof (induction gs arbitrary: xs)
  case Nil
  then show ?case by (intro exI [of _ xs] exI [of _ "[]"]) (simp add: stack_ok_def)
next
  case (Cons p gs)
  have p: "p \<noteq> []" "positive g p" "below_chord g p" "stack_ok g gs" using Cons.prems(1) by (auto simp: stack_ok_def successively_Cons)
  show ?case
  proof (cases "fee_sum g xs * vsize_sum g p > fee_sum g p * vsize_sum g xs")
    case True
    have "below_chord g (p @ xs)" by (rule below_chord_append [OF p(3) Cons.prems(4) p(2) Cons.prems(3) p(1) Cons.prems(2) True])
    moreover have "positive g (p @ xs)" using p(2) Cons.prems(3) by (auto simp: positive_def)
    ultimately obtain ys hs where ih: "absorb (group_info g (p @ xs)) (map (group_info g) gs) = (group_info g ys, map (group_info g) hs)"
      "stack_ok g (ys # hs)" "concat (rev hs) @ ys = concat (rev gs) @ p @ xs" using Cons.IH [OF p(4), of "p @ xs"] p(1) by auto
    have "absorb (group_info g xs) (map (group_info g) (p # gs)) = absorb (group_info g (p @ xs)) (map (group_info g) gs)"
      using True by (simp add: group_info_def mask_of_append or.commute add.commute)
    with ih show ?thesis by (intro exI [of _ ys] exI [of _ hs]) simp
  next
    case False
    then have "absorb (group_info g xs) (map (group_info g) (p # gs)) = (group_info g xs, map (group_info g) (p # gs))"
      by (simp add: group_info_def)
    moreover have "stack_ok g (xs # p # gs)" using Cons.prems False by (auto simp: stack_ok_def not_higher_def)
    ultimately show ?thesis by (intro exI [of _ xs] exI [of _ "p # gs"]) simp
  qed
qed

definition in_graph :: "dep_graph \<Rightarrow> int list \<Rightarrow> bool" where
  "in_graph g xs \<longleftrightarrow> (\<forall>i\<in>set xs. 0 \<le> i \<and> nat i < length (dg_fees g) \<and> nat i < length (dg_sizes g))"

lemma chunk_groups:
  assumes "in_graph g lin" "positive g lin"
  shows "\<exists>gs. fold_opt (chunk_step g) lin [] = Some (map (group_info g) gs) \<and> stack_ok g gs \<and> concat (rev gs) = lin"
  using assms
proof (induction lin rule: rev_induct)
  case Nil
  then show ?case by (intro exI [of _ "[]"]) (simp add: stack_ok_def)
next
  case (snoc i lin)
  have i: "0 \<le> i" "nat i < length (dg_fees g)" "nat i < length (dg_sizes g)" "0 < dg_sizes g ! nat i"
    using snoc.prems by (auto simp: in_graph_def positive_def)
  obtain gs where gs: "fold_opt (chunk_step g) lin [] = Some (map (group_info g) gs)" "stack_ok g gs" "concat (rev gs) = lin"
    using snoc by (auto simp: in_graph_def positive_def)
  have info: "group_info g [i] = (push_bit (nat i) 1, dg_fees g ! nat i, dg_sizes g ! nat i)"
    by (simp add: group_info_def mask_of_def fee_sum_def vsize_sum_def)
  have "below_chord g [i]" "positive g [i]" using i by (auto simp: below_chord_def positive_def le_Suc_eq fee_sum_def vsize_sum_def)
  then obtain ys hs where ab: "absorb (group_info g [i]) (map (group_info g) gs) = (group_info g ys, map (group_info g) hs)"
    "stack_ok g (ys # hs)" "concat (rev hs) @ ys = concat (rev gs) @ [i]" using absorb_groups [OF gs(2), of "[i]"] by auto
  have "chunk_step g i (map (group_info g) gs) = Some (map (group_info g) (ys # hs))"
    using i ab(1) unfolding info by (simp add: chunk_step_def shift_one_def py_simps)
  then show ?case using gs(1,3) ab(2,3) by (intro exI [of _ "ys # hs"]) (simp add: fold_opt_append)
qed

section \<open>The diagram of the chunks\<close>

definition group_feerate :: "dep_graph \<Rightarrow> int list \<Rightarrow> fee_frac" where
  "group_feerate g xs = \<lparr> ff_fee = fee_sum g xs, ff_size = vsize_sum g xs \<rparr>"

lemma group_feerate_parts [simp]: "ff_fee (group_feerate g xs) = fee_sum g xs" "ff_size (group_feerate g xs) = vsize_sum g xs"
  by (simp_all add: group_feerate_def)

lemma chord_height:
  assumes "below_chord g xs" "0 < vsize_sum g xs" "k \<le> length xs"
  shows "real_of_int (fee_sum g (take k xs)) \<le> real_of_int (fee_sum g xs) / real_of_int (vsize_sum g xs) * real_of_int (vsize_sum g (take k xs))"
proof -
  have "fee_sum g (take k xs) * vsize_sum g xs \<le> fee_sum g xs * vsize_sum g (take k xs)" using assms(1,3) by (simp add: below_chord_def)
  then have "real_of_int (fee_sum g (take k xs)) * real_of_int (vsize_sum g xs) \<le> real_of_int (fee_sum g xs) * real_of_int (vsize_sum g (take k xs))"
    by (simp flip: of_int_mult)
  then show ?thesis using assms(2) by (simp add: pos_le_divide_eq)
qed

lemma diagram_over_groups:
  assumes "\<forall>xs\<in>set gs. xs \<noteq> [] \<and> positive g xs \<and> below_chord g xs" "k \<le> length (concat gs)"
  shows "real_of_int (fee_sum g (take k (concat gs))) \<le> diagram (map (group_feerate g) gs) (real_of_int (vsize_sum g (take k (concat gs))))"
  using assms
proof (induction gs arbitrary: k)
  case Nil
  then show ?case by simp
next
  case (Cons xs gs)
  have xs: "positive g xs" "below_chord g xs" "0 < vsize_sum g xs" using Cons.prems(1) positive_sum(2) [of g xs] by auto
  show ?case
  proof (cases "k \<le> length xs")
    case True
    then show ?thesis using chord_height [OF xs(2,3) True] positive_sum(3) [OF xs(1), of k] by simp
  next
    case False
    obtain j where j_def: "j = k - length xs" by blast
    have j: "0 < j" "j \<le> length (concat gs)" "take k (concat (xs # gs)) = xs @ take j (concat gs)"
      using False Cons.prems(2) by (simp_all add: j_def)
    have "positive g (take j (concat gs))" using Cons.prems(1) by (auto simp: positive_def dest!: in_set_takeD)
    moreover have "length (take j (concat gs)) = j" using j(2) by simp
    then have "take j (concat gs) \<noteq> []" using j(1) by (metis length_greater_0_conv)
    ultimately have "0 < vsize_sum g (take j (concat gs))" by (rule positive_sum(2))
    then show ?thesis using Cons.IH [OF _ j(2)] Cons.prems(1) unfolding j(3) by simp
  qed
qed

lemma diagram_at_group:
  assumes "\<forall>xs\<in>set gs. xs \<noteq> [] \<and> positive g xs"
  shows "diagram (map (group_feerate g) gs) (real_of_int (vsize_sum g (concat (take j gs)))) = real_of_int (fee_sum g (concat (take j gs)))"
  using assms
proof (induction gs arbitrary: j)
  case Nil
  then show ?case by simp
next
  case (Cons xs gs)
  have s: "0 < vsize_sum g xs" using Cons.prems positive_sum(2) [of g xs] by auto
  show ?case
  proof (cases j)
    case 0
    with s show ?thesis by simp
  next
    case (Suc i)
    have rest: "positive g (concat (take i gs))" using Cons.prems by (auto simp: positive_def dest!: in_set_takeD)
    have ih: "diagram (map (group_feerate g) gs) (real_of_int (vsize_sum g (concat (take i gs)))) = real_of_int (fee_sum g (concat (take i gs)))"
      using Cons by simp
    show ?thesis
    proof (cases "concat (take i gs) = []")
      case True
      have "vsize_sum g (concat (take i gs)) = 0" "fee_sum g (concat (take i gs)) = 0" unfolding True by simp_all
      then show ?thesis using Suc s by simp
    next
      case False
      then have "0 < vsize_sum g (concat (take i gs))" by (rule positive_sum(2) [OF rest])
      then show ?thesis using Suc s ih by simp
    qed
  qed
qed

text \<open>C35.
  The chunks of an order cut it into pieces, each given with its transactions, its fee and its size, whose
  feerates never rise.  Their diagram starts each piece at the point the order reaches there, and no point
  the order passes through, inside a piece either, lies above it.\<close>
theorem chunks_of_order:
  assumes "\<forall>i\<in>set lin. 0 \<le> i \<and> nat i < length (dg_fees g) \<and> nat i < length (dg_sizes g) \<and> 0 < dg_sizes g ! nat i"
  shows "\<exists>pieces chunks. chunk_linearization_info g lin = Some chunks \<and> concat pieces = lin \<and> [] \<notin> set pieces
    \<and> map (\<lambda>c. bit_set (si_transactions c)) chunks = map (\<lambda>xs. nat ` set xs) pieces
    \<and> map si_feerate chunks = map (\<lambda>xs. \<lparr> ff_fee = \<Sum>i\<leftarrow>xs. dg_fees g ! nat i, ff_size = \<Sum>i\<leftarrow>xs. dg_sizes g ! nat i \<rparr>) pieces
    \<and> successively (\<lambda>c d. feerate_compare (si_feerate c) (si_feerate d) \<ge> 0) chunks
    \<and> (\<forall>j\<le>length pieces. diagram (map si_feerate chunks) (real_of_int (\<Sum>i\<leftarrow>concat (take j pieces). dg_sizes g ! nat i))
         = real_of_int (\<Sum>i\<leftarrow>concat (take j pieces). dg_fees g ! nat i))
    \<and> (\<forall>k\<le>length lin. real_of_int (\<Sum>i\<leftarrow>take k lin. dg_fees g ! nat i)
         \<le> diagram (map si_feerate chunks) (real_of_int (\<Sum>i\<leftarrow>take k lin. dg_sizes g ! nat i)))"
proof -
  have lin: "in_graph g lin" "positive g lin" using assms by (auto simp: in_graph_def positive_def)
  obtain gs where gs: "fold_opt (chunk_step g) lin [] = Some (map (group_info g) gs)" "stack_ok g gs" "concat (rev gs) = lin"
    using chunk_groups [OF lin] by blast
  obtain pieces where pieces_def: "pieces = rev gs" by blast
  obtain chunks where chunks_def: "chunks = map (\<lambda>xs. \<lparr> si_transactions = mask_of xs, si_feerate = group_feerate g xs \<rparr>) pieces" by blast
  have run: "chunk_linearization_info g lin = Some chunks"
    using gs(1) by (simp add: chunk_linearization_info_def chunks_def pieces_def rev_map group_info_def group_feerate_def comp_def)
  have each: "\<forall>xs\<in>set pieces. xs \<noteq> [] \<and> positive g xs \<and> below_chord g xs" and desc: "successively (\<lambda>xs ys. not_higher g ys xs) pieces"
    using gs(2) by (simp_all add: stack_ok_def pieces_def successively_rev)
  have cut: "concat pieces = lin" using gs(3) by (simp add: pieces_def)
  have "0 \<le> i" if "xs \<in> set pieces" "i \<in> set xs" for xs i using that assms cut by auto
  then have masks: "map (\<lambda>c. bit_set (si_transactions c)) chunks = map (\<lambda>xs. nat ` set xs) pieces"
    using mask_of_bits by (simp add: chunks_def)
  have fees: "map si_feerate chunks = map (group_feerate g) pieces" by (simp add: chunks_def comp_def)
  have "successively (\<lambda>c d. feerate_compare (si_feerate c) (si_feerate d) \<ge> 0) chunks"
    using desc unfolding chunks_def successively_map
    by (rule successively_mono) (auto simp: not_higher_def group_feerate_def feerate_compare_def Let_def)
  moreover have "[] \<notin> set pieces" using each by blast
  moreover have "\<forall>j\<le>length pieces. diagram (map si_feerate chunks) (real_of_int (\<Sum>i\<leftarrow>concat (take j pieces). dg_sizes g ! nat i))
       = real_of_int (\<Sum>i\<leftarrow>concat (take j pieces). dg_fees g ! nat i)"
    unfolding fees using diagram_at_group [of pieces g, unfolded vsize_sum_def fee_sum_def] each by blast
  moreover have "\<forall>k\<le>length lin. real_of_int (\<Sum>i\<leftarrow>take k lin. dg_fees g ! nat i)
       \<le> diagram (map si_feerate chunks) (real_of_int (\<Sum>i\<leftarrow>take k lin. dg_sizes g ! nat i))"
    unfolding fees cut [symmetric] using diagram_over_groups [OF each, unfolded vsize_sum_def fee_sum_def] by blast
  ultimately show ?thesis using run cut masks fees
    by (intro exI [of _ pieces] exI [of _ chunks]) (simp add: group_feerate_def [abs_def] fee_sum_def vsize_sum_def)
qed

theorem chunks_of_order_witness:
  "\<exists>chunks. chunk_linearization_info
      \<lparr> dg_fees = [1, 9, 2], dg_sizes = [1, 1, 2], dg_ancestors = [1, 3, 4], dg_descendants = [3, 2, 4], dg_positions = 7 \<rparr> [0, 1, 2]
    = Some chunks \<and> map si_feerate chunks = [\<lparr> ff_fee = 10, ff_size = 2 \<rparr>, \<lparr> ff_fee = 2, ff_size = 2 \<rparr>]
    \<and> diagram (map si_feerate chunks) 1 \<ge> 1"
proof -
  let ?g = "\<lparr> dg_fees = [1, 9, 2], dg_sizes = [1, 1, 2], dg_ancestors = [1, 3, 4], dg_descendants = [3, 2, 4], dg_positions = 7 \<rparr> :: dep_graph"
  obtain chunks where c: "chunk_linearization_info ?g [0, 1, 2] = Some chunks"
    "\<forall>k\<le>3. real_of_int (\<Sum>i\<leftarrow>take k [0, 1, 2]. dg_fees ?g ! nat i)
       \<le> diagram (map si_feerate chunks) (real_of_int (\<Sum>i\<leftarrow>take k [0, 1, 2]. dg_sizes ?g ! nat i))"
    using chunks_of_order [of "[0, 1, 2]" ?g] by auto
  have "chunk_linearization ?g [0, 1, 2] = Some [\<lparr> ff_fee = 10, ff_size = 2 \<rparr>, \<lparr> ff_fee = 2, ff_size = 2 \<rparr>]" by code_simp
  then have "map si_feerate chunks = [\<lparr> ff_fee = 10, ff_size = 2 \<rparr>, \<lparr> ff_fee = 2, ff_size = 2 \<rparr>]" using c(1) by (simp add: chunk_linearization_def)
  with c(1) spec [OF c(2), of 1] show ?thesis by simp
qed

end
