(* ===== verification/Cluster_Properties.thy ===== *)
theory Cluster_Properties
  imports Dep_Graph_Remap Chunking
begin

unbundle bit_operations_syntax

text \<open>
  The properties of the dependency graph of a cluster: it is a fee and a size for each transaction and a
  reflexive and transitive relation on them, through every sequence of its operations; moving it to other
  positions changes nothing but the positions; its components and its orders are those of the relation.
\<close>

section \<open>What a graph stands for\<close>

datatype dep_op = AddTransaction fee_frac | SetFee nat int | RemoveTransactions int | AddDependencies int nat

fun dep_step :: "dep_op \<Rightarrow> dep_graph \<Rightarrow> dep_graph option" where
  "dep_step (AddTransaction f) g = do { (g', _) \<leftarrow> add_transaction f g; Some g' }"
| "dep_step (SetFee i fee) g = set_fee (int i) fee g"
| "dep_step (RemoveTransactions m) g = remove_transactions m g"
| "dep_step (AddDependencies parents child) g = add_dependencies parents (int child) g"

record spec_graph =
  sg_txs :: "nat \<rightharpoonup> fee_frac"
  sg_above :: "(nat \<times> nat) set"

fun spec_step :: "dep_op \<Rightarrow> spec_graph \<Rightarrow> spec_graph" where
  "spec_step (AddTransaction f) s =
     (let i = (LEAST i. i \<notin> dom (sg_txs s)) in \<lparr> sg_txs = (sg_txs s)(i \<mapsto> f), sg_above = insert (i, i) (sg_above s) \<rparr>)"
| "spec_step (SetFee i fee) s = s\<lparr> sg_txs := (sg_txs s)(i := map_option (\<lambda>f. f\<lparr> ff_fee := fee \<rparr>) (sg_txs s i)) \<rparr>"
| "spec_step (RemoveTransactions m) s =
     (let left = dom (sg_txs s) - bit_set m in \<lparr> sg_txs = sg_txs s |` left, sg_above = sg_above s \<inter> left \<times> left \<rparr>)"
| "spec_step (AddDependencies parents child) s = s\<lparr> sg_above := (sg_above s \<union> bit_set parents \<times> {child})\<^sup>+ \<rparr>"

fun op_allowed :: "dep_op \<Rightarrow> spec_graph \<Rightarrow> bool" where
  \<comment> \<open>positions in use, and masks that are not negative\<close>
  "op_allowed (AddTransaction f) s \<longleftrightarrow> True"
| "op_allowed (SetFee i fee) s \<longleftrightarrow> i \<in> dom (sg_txs s)"
| "op_allowed (RemoveTransactions m) s \<longleftrightarrow> 0 \<le> m"
| "op_allowed (AddDependencies parents child) s \<longleftrightarrow> 0 \<le> parents \<and> bit_set parents \<subseteq> dom (sg_txs s) \<and> child \<in> dom (sg_txs s)"

fun ops_allowed :: "dep_op list \<Rightarrow> spec_graph \<Rightarrow> bool" where
  "ops_allowed [] s \<longleftrightarrow> True"
| "ops_allowed (x # xs) s \<longleftrightarrow> op_allowed x s \<and> ops_allowed xs (spec_step x s)"

definition graph_spec :: "dep_graph \<Rightarrow> spec_graph" where
  "graph_spec g =
     \<lparr> sg_txs = (\<lambda>i. if i \<in> bit_set (dg_positions g) then Some \<lparr> ff_fee = dg_fees g ! i, ff_size = dg_sizes g ! i \<rparr> else None),
       sg_above = {(j, i). i \<in> bit_set (dg_positions g) \<and> j \<in> bit_set (dg_ancestors g ! i)} \<rparr>"

lemma graph_spec_parts:
  "sg_txs (graph_spec g) = (\<lambda>i. if i \<in> pos g then Some \<lparr> ff_fee = dg_fees g ! i, ff_size = dg_sizes g ! i \<rparr> else None)"
  "sg_above (graph_spec g) = ancestry g" "dom (sg_txs (graph_spec g)) = pos g"
  by (auto simp: graph_spec_def pos_def ancestry_def anc_def split: if_splits)

lemma spec_graph_eqI: "sg_txs s = sg_txs t \<Longrightarrow> sg_above s = sg_above t \<Longrightarrow> s = (t :: spec_graph)"
  by simp

lemma dep_step_spec:
  assumes ok: "dg_ok g" and op: "op_allowed x (graph_spec g)"
  shows "\<exists>g'. dep_step x g = Some g' \<and> dg_ok g' \<and> graph_spec g' = spec_step x (graph_spec g)"
proof (cases x)
  case (AddTransaction f)
  obtain g' b where g': "add_transaction f g = Some (g', int b)" "b \<notin> pos g" "{..<b} \<subseteq> pos g" "dg_ok g'" "pos g' = insert b (pos g)"
    "ancestry g' = insert (b, b) (ancestry g)" "dg_fees g' ! b = ff_fee f" "dg_sizes g' ! b = ff_size f"
    "\<forall>i\<in>pos g. dg_fees g' ! i = dg_fees g ! i \<and> dg_sizes g' ! i = dg_sizes g ! i"
    using add_transaction_ok [OF ok] by blast
  have least: "(LEAST i. i \<notin> dom (sg_txs (graph_spec g))) = b"
    unfolding graph_spec_parts(3)
  proof (rule Least_equality)
    show "b \<le> y" if "y \<notin> pos g" for y using that g'(3) by (meson lessThan_iff not_le subsetD)
  qed (rule g'(2))
  have "graph_spec g' = spec_step x (graph_spec g)"
    unfolding AddTransaction spec_step.simps Let_def least
    by (rule spec_graph_eqI) (use g'(2,5-9) in \<open>auto simp: graph_spec_parts fun_eq_iff\<close>)
  with g'(1,4) AddTransaction show ?thesis by simp
next
  case (SetFee i fee)
  then have i: "i \<in> pos g" using op by (simp add: graph_spec_parts(3))
  obtain g' where g': "set_fee (int i) fee g = Some g'" "dg_ok g'" "pos g' = pos g" "ancestry g' = ancestry g" "dg_sizes g' = dg_sizes g"
    "dg_fees g' = (dg_fees g)[i := fee]" using set_fee_ok [OF ok i] by blast
  have "i < length (dg_fees g)" using dg_shapeD(5) [OF dg_okD(1) [OF ok] i] .
  then have "graph_spec g' = spec_step x (graph_spec g)"
    unfolding SetFee spec_step.simps
    by (intro spec_graph_eqI) (use g'(3-6) i in \<open>auto simp: graph_spec_parts fun_eq_iff nth_list_update\<close>)
  with g'(1,2) SetFee show ?thesis by simp
next
  case (RemoveTransactions m)
  then have m: "0 \<le> m" using op by simp
  obtain g' where g': "remove_transactions m g = Some g'" "dg_ok g'" "pos g' = pos g - bit_set m" "ancestry g' = ancestry g \<inter> pos g' \<times> pos g'"
    "\<forall>i\<in>pos g'. dg_fees g' ! i = dg_fees g ! i \<and> dg_sizes g' ! i = dg_sizes g ! i" using remove_transactions_ok [OF ok m] by blast
  have "graph_spec g' = spec_step x (graph_spec g)"
    unfolding RemoveTransactions spec_step.simps Let_def
    by (rule spec_graph_eqI) (use g'(3-5) in \<open>auto simp: graph_spec_parts fun_eq_iff restrict_map_def\<close>)
  with g'(1,2) RemoveTransactions show ?thesis by simp
next
  case (AddDependencies parents child)
  then have p: "child \<in> pos g" "0 \<le> parents" "bit_set parents \<subseteq> pos g" using op by (simp_all add: graph_spec_parts(3))
  obtain g' where g': "add_dependencies parents (int child) g = Some g'" "dg_ok g'" "ancestry g' = (ancestry g \<union> bit_set parents \<times> {child})\<^sup>+"
    "pos g' = pos g" "dg_fees g' = dg_fees g" "dg_sizes g' = dg_sizes g" using add_dependencies_ok [OF ok p] by blast
  have "graph_spec g' = spec_step x (graph_spec g)"
    unfolding AddDependencies spec_step.simps
    by (rule spec_graph_eqI) (use g'(3-6) in \<open>auto simp: graph_spec_parts fun_eq_iff\<close>)
  with g'(1,2) AddDependencies show ?thesis by simp
qed

lemma dep_steps_spec:
  assumes "dg_ok g" "ops_allowed xs (graph_spec g)"
  shows "\<exists>g'. fold_opt dep_step xs g = Some g' \<and> dg_ok g' \<and> graph_spec g' = fold spec_step xs (graph_spec g)"
  using assms
proof (induction xs arbitrary: g)
  case (Cons x xs)
  then obtain g1 where g1: "dep_step x g = Some g1" "dg_ok g1" "graph_spec g1 = spec_step x (graph_spec g)" using dep_step_spec by (metis ops_allowed.simps(2))
  then obtain g' where "fold_opt dep_step xs g1 = Some g'" "dg_ok g'" "graph_spec g' = fold spec_step xs (graph_spec g1)" using Cons by (metis ops_allowed.simps(2))
  then show ?case using g1 by simp
qed simp

text \<open>C36.
  Through every sequence of operations on positions in use, the graph of a cluster raises nothing and is
  a fee and a size for each position in use and the ancestry of its transactions: a new transaction takes
  the lowest free position, removing some restricts the ancestry to the others, a grandparent staying an
  ancestor, and a dependency adds what follows from it and nothing else.\<close>
theorem dep_graph_refines:
  assumes "ops_allowed ops \<lparr> sg_txs = Map.empty, sg_above = {} \<rparr>"
  shows "\<exists>g. fold_opt dep_step ops new_dep_graph = Some g
    \<and> graph_spec g = fold spec_step ops \<lparr> sg_txs = Map.empty, sg_above = {} \<rparr>"
proof -
  have "graph_spec new_dep_graph = \<lparr> sg_txs = Map.empty, sg_above = {} \<rparr>"
    by (simp add: graph_spec_def new_dep_graph_def bit_set_ops)
  with dep_steps_spec [OF new_dep_graph_ok(1)] assms show ?thesis by metis
qed

definition demo_ops :: "dep_op list" where
  "demo_ops = [AddTransaction \<lparr> ff_fee = 5, ff_size = 1 \<rparr>, AddTransaction \<lparr> ff_fee = 3, ff_size = 1 \<rparr>, AddDependencies 1 1]"

lemma demo_ops_allowed: "ops_allowed demo_ops \<lparr> sg_txs = Map.empty, sg_above = {} \<rparr>"
proof -
  have l: "(LEAST i. 0 < (i::nat)) = 1" by (rule Least_equality) auto
  have b: "bit_set 1 = {0}" by (auto simp: bit_set_def bit_1_iff)
  show ?thesis by (simp add: demo_ops_def Let_def l b)
qed

theorem dep_graph_refines_witness:
  "\<exists>g. fold_opt dep_step demo_ops new_dep_graph = Some g
    \<and> graph_spec g = fold spec_step demo_ops \<lparr> sg_txs = Map.empty, sg_above = {} \<rparr>"
  by (rule dep_graph_refines [OF demo_ops_allowed])

section \<open>Other positions\<close>

lemma moved_closure:
  assumes ok: "dg_ok g" and ac: "acyclic_graph g" and inj: "inj_on (moved_to mapping) (pos g)"
  shows "(Id_on (moved_to mapping ` pos g) \<union> moved_edges g mapping (pos g))\<^sup>+ = map_prod (moved_to mapping) (moved_to mapping) ` ancestry g"
proof
  let ?f = "moved_to mapping" let ?R = "Id_on (?f ` pos g) \<union> moved_edges g mapping (pos g)" let ?M = "map_prod ?f ?f ` ancestry g"
  have "trans ?M"
  proof (rule transI)
    fix x y z
    assume xy: "(x, y) \<in> ?M" and yz: "(y, z) \<in> ?M"
    obtain u where "(x, y) = map_prod ?f ?f u" "u \<in> ancestry g" using xy by (rule imageE)
    moreover obtain v where "(y, z) = map_prod ?f ?f v" "v \<in> ancestry g" using yz by (rule imageE)
    moreover obtain a b c d where "u = (a, b)" "v = (c, d)" by (cases u; cases v) blast
    ultimately have h: "x = ?f a" "y = ?f b" "(a, b) \<in> ancestry g" "y = ?f c" "z = ?f d" "(c, d) \<in> ancestry g" by simp_all
    then have "b \<in> pos g" "c \<in> pos g" "?f b = ?f c" using above_pos [OF ok] by auto
    then have "b = c" using inj by (auto simp: inj_on_def)
    then have "(a, d) \<in> ancestry g" using transD [OF dg_okD(6) [OF ok]] h by blast
    then show "(x, z) \<in> ?M" using h by force
  qed
  moreover have "?R \<subseteq> ?M"
    using above_refl [OF ok] parent_edges_above [of g] by (auto simp: moved_edges_def parent_edges_def Id_on_def map_prod_def image_iff)
  ultimately show "?R\<^sup>+ \<subseteq> ?M" using trancl_mono [of _ ?R ?M] trancl_id [of ?M] by blast
  show "?M \<subseteq> ?R\<^sup>+"
  proof
    fix z
    assume "z \<in> ?M"
    then obtain j i where z: "z = (?f j, ?f i)" "(j, i) \<in> ancestry g" by auto
    then have j: "j \<in> pos g" using above_pos [OF ok] by blast
    have "(j, i) \<in> (parent_edges g)\<^sup>*" by (rule above_from_parents [OF ok ac z(2)])
    then have "(?f j, ?f i) \<in> ?R\<^sup>+"
    proof (induction rule: rtrancl_induct)
      case base
      then show ?case using j by auto
    next
      case (step k i)
      then have "(?f k, ?f i) \<in> ?R" by (auto simp: moved_edges_def parent_edges_def)
      then show ?case by (rule trancl.trancl_into_trancl [OF step.IH])
    qed
    with z show "z \<in> ?R\<^sup>+" by simp
  qed
qed

lemma remapped_ok:
  assumes ok: "dg_ok g" and ac: "acyclic_graph g" and m: "maps_into mapping n (pos g)" "n = 0 \<or> n - 1 \<in> moved_to mapping ` pos g"
  shows "\<exists>g'. remapped g mapping (int n) = Some g' \<and> dg_ok g' \<and> pos g' = moved_to mapping ` pos g
    \<and> ancestry g' = map_prod (moved_to mapping) (moved_to mapping) ` ancestry g
    \<and> (\<forall>i\<in>pos g. dg_fees g' ! moved_to mapping i = dg_fees g ! i \<and> dg_sizes g' ! moved_to mapping i = dg_sizes g ! i)
    \<and> length (dg_fees g') = n"
proof -
  let ?blank = "replicate n (0 :: int)"
  let ?start = "\<lparr> dg_fees = ?blank, dg_sizes = ?blank, dg_ancestors = ?blank, dg_descendants = ?blank, dg_positions = 0 \<rparr>"
  let ?xs = "bits_of (dg_positions g)"
  note sh = dg_okD(1) [OF ok]
  have bits: "set ?xs = int ` pos g" "distinct ?xs" using pos_bits [OF sh] bits_of_distinct dg_shapeD(4) [OF sh] by blast+
  have start: "placed g mapping n {} ?start" by (auto simp: placed_def pos_def bit_set_ops)
  have im: "nat ` set ?xs = pos g" unfolding bits(1) by (simp add: image_image)
  obtain new where new: "fold_opt (remap_place g mapping) ?xs ?start = Some new" "placed g mapping n (pos g) new"
    using remap_place_all [OF sh m(1) order.refl start, of ?xs] bits im by auto
  have nok: "dg_ok new" "ancestry new = Id_on (moved_to mapping ` pos g)"
    using placed_ok [OF new(2) m(2)] m(1) by (auto simp: maps_into_def moved_to_def)
  have pn: "pos new = moved_to mapping ` pos g" using new(2) by (simp add: placed_def)
  have "trans (Id_on (moved_to mapping ` pos g))" by (auto intro: transI)
  then have an: "ancestry new = (Id_on (moved_to mapping ` pos g) \<union> moved_edges g mapping {})\<^sup>+"
    using nok(2) by (simp add: moved_edges_def trancl_id)
  have "set ?xs \<subseteq> int ` pos g" using bits(1) by simp
  from remap_parents_all [OF ok ac m(1) nok(1) pn an this] obtain g' where
    g': "fold_opt (remap_parents g mapping) ?xs new = Some g'" "dg_ok g'" "pos g' = moved_to mapping ` pos g"
      "ancestry g' = (Id_on (moved_to mapping ` pos g) \<union> moved_edges g mapping ({} \<union> nat ` set ?xs))\<^sup>+"
      "dg_fees g' = dg_fees new" "dg_sizes g' = dg_sizes new" by blast
  have "remapped g mapping (int n) = Some g'" using new(1) g'(1) by (simp add: remapped_def Let_def)
  moreover have "inj_on (moved_to mapping) (pos g)" using m(1) by (simp add: maps_into_def)
  then have "ancestry g' = map_prod (moved_to mapping) (moved_to mapping) ` ancestry g"
    using g'(4) moved_closure [OF ok ac] im by simp
  moreover have "\<forall>i\<in>pos g. dg_fees g' ! moved_to mapping i = dg_fees g ! i \<and> dg_sizes g' ! moved_to mapping i = dg_sizes g ! i"
    using new(2) g'(5,6) by (simp add: placed_def)
  moreover have "length (dg_fees g') = n" using new(2) g'(5) by (simp add: placed_def)
  ultimately show ?thesis using g'(2,3) by blast
qed


lemma reached_graph:
  assumes "ops_allowed ops \<lparr> sg_txs = Map.empty, sg_above = {} \<rparr>" "fold_opt dep_step ops new_dep_graph = Some g"
  shows "dg_ok g"
proof -
  have "graph_spec new_dep_graph = \<lparr> sg_txs = Map.empty, sg_above = {} \<rparr>"
    by (simp add: graph_spec_def new_dep_graph_def bit_set_ops)
  with dep_steps_spec [OF new_dep_graph_ok(1)] assms show ?thesis by (metis option.inject)
qed

definition move_spec :: "(nat \<Rightarrow> nat) \<Rightarrow> spec_graph \<Rightarrow> spec_graph" where
  \<comment> \<open>the same graph with every position moved\<close>
  "move_spec f s =
     \<lparr> sg_txs = (\<lambda>j. if j \<in> f ` dom (sg_txs s) then sg_txs s (the_inv_into (dom (sg_txs s)) f j) else None),
       sg_above = map_prod f f ` sg_above s \<rparr>"

lemma move_spec_at:
  assumes "inj_on f (dom (sg_txs s))" "i \<in> dom (sg_txs s)"
  shows "sg_txs (move_spec f s) (f i) = sg_txs s i"
  using assms by (simp add: move_spec_def the_inv_into_f_f)

text \<open>C37.
  Moving an acyclic graph to other positions, no two of them the same and the last of the range in use,
  raises nothing and gives the same graph under the other positions: every transaction keeps its fee,
  its size, and its ancestors, although only the parents that no other parent implies are handed over.\<close>
theorem remapped_isomorphic:
  assumes "ops_allowed ops \<lparr> sg_txs = Map.empty, sg_above = {} \<rparr>" "fold_opt dep_step ops new_dep_graph = Some g"
    and "is_acyclic g = Some True"
    and "\<forall>i\<in>dom (sg_txs (graph_spec g)). i < length mapping \<and> 0 \<le> mapping ! i \<and> nat (mapping ! i) < n"
    and "inj_on (\<lambda>i. nat (mapping ! i)) (dom (sg_txs (graph_spec g)))"
    and "n = 0 \<or> n - 1 \<in> (\<lambda>i. nat (mapping ! i)) ` dom (sg_txs (graph_spec g))"
  shows "\<exists>g'. remapped g mapping (int n) = Some g' \<and> position_range g' = int n
    \<and> graph_spec g' = move_spec (\<lambda>i. nat (mapping ! i)) (graph_spec g)"
proof -
  have f: "(\<lambda>i. nat (mapping ! i)) = moved_to mapping" by (simp add: moved_to_def fun_eq_iff)
  have ok: "dg_ok g" by (rule reached_graph [OF assms(1,2)])
  have ac: "acyclic_graph g" using is_acyclic_ok [OF ok] assms(3) by simp
  have m: "maps_into mapping n (pos g)" "n = 0 \<or> n - 1 \<in> moved_to mapping ` pos g"
    using assms(4-6) unfolding f graph_spec_parts(3) maps_into_def by blast+
  obtain g' where g': "remapped g mapping (int n) = Some g'" "dg_ok g'" "pos g' = moved_to mapping ` pos g"
    "ancestry g' = map_prod (moved_to mapping) (moved_to mapping) ` ancestry g"
    "\<forall>i\<in>pos g. dg_fees g' ! moved_to mapping i = dg_fees g ! i \<and> dg_sizes g' ! moved_to mapping i = dg_sizes g ! i"
    "length (dg_fees g') = n"
    using remapped_ok [OF ok ac m] by blast
  have inj: "inj_on (moved_to mapping) (pos g)" using m(1) by (simp add: maps_into_def)
  have "sg_txs (graph_spec g') j = sg_txs (move_spec (moved_to mapping) (graph_spec g)) j" for j
  proof (cases "j \<in> moved_to mapping ` pos g")
    case True
    then obtain i where i: "i \<in> pos g" "j = moved_to mapping i" by blast
    have "sg_txs (move_spec (moved_to mapping) (graph_spec g)) j = sg_txs (graph_spec g) i"
      unfolding i(2) using move_spec_at [of "moved_to mapping" "graph_spec g" i] inj i(1) unfolding graph_spec_parts(3) by blast
    also have "\<dots> = sg_txs (graph_spec g') j" using i True g'(3,5) by (simp add: graph_spec_parts(1))
    finally show ?thesis by (rule sym)
  next
    case False
    then have "sg_txs (graph_spec g') j = None" using g'(3) by (simp add: graph_spec_parts(1))
    moreover have "sg_txs (move_spec (moved_to mapping) (graph_spec g)) j = None"
      using False unfolding move_spec_def graph_spec_parts(3) by simp
    ultimately show ?thesis by (rule trans_sym)
  qed
  moreover have "sg_above (graph_spec g') = sg_above (move_spec (moved_to mapping) (graph_spec g))"
    using g'(4) by (simp add: graph_spec_parts(2) move_spec_def)
  ultimately have "graph_spec g' = move_spec (moved_to mapping) (graph_spec g)" by (intro spec_graph_eqI ext)
  with g'(1,6) show ?thesis unfolding f position_range_def by blast
qed

definition demo_graph :: dep_graph where
  "demo_graph = \<lparr> dg_fees = [5, 3], dg_sizes = [1, 1], dg_ancestors = [1, 3], dg_descendants = [3, 2], dg_positions = 3 \<rparr>"

lemma bit_set_three: "bit_set 3 = {0, 1}"
proof -
  have "(3 :: int) = push_bit 0 1 OR push_bit 1 1" by simp
  then show ?thesis by (simp only: bit_set_ops) auto
qed

lemma demo_graph_reached: "fold_opt dep_step demo_ops new_dep_graph = Some demo_graph"
  by code_simp

lemma demo_graph_acyclic: "is_acyclic demo_graph = Some True"
  by code_simp

lemma demo_graph_dom: "dom (sg_txs (graph_spec demo_graph)) = {0, 1}"
  unfolding graph_spec_parts(3) by (simp add: pos_def demo_graph_def bit_set_three)

theorem remapped_isomorphic_witness:
  "\<exists>g'. remapped demo_graph [2, 0] (int 3) = Some g' \<and> position_range g' = int 3
    \<and> graph_spec g' = move_spec (\<lambda>i. nat ([2, 0] ! i)) (graph_spec demo_graph)"
  by (rule remapped_isomorphic [OF demo_ops_allowed demo_graph_reached demo_graph_acyclic]) (simp_all add: demo_graph_dom inj_on_def)

section \<open>Components and orders\<close>

definition neighbours :: "nat set \<Rightarrow> dep_graph \<Rightarrow> (nat \<times> nat) set" where
  \<comment> \<open>transactions among some of which one is an ancestor of the other\<close>
  "neighbours S g = {(i, j). i \<in> S \<and> j \<in> S \<and> ((i, j) \<in> sg_above (graph_spec g) \<or> (j, i) \<in> sg_above (graph_spec g))}"

lemma neighbours_related: "neighbours S g = related g S"
  by (simp add: neighbours_def related_def graph_spec_parts(2))

text \<open>C38.
  For any transactions of a cluster the search for a connected component ends, and its answer is what
  the lowest of them is linked with by ancestors and descendants among them; they are called connected
  exactly where each of them is linked with every other.\<close>
theorem connected_components:
  assumes "ops_allowed ops \<lparr> sg_txs = Map.empty, sg_above = {} \<rparr>" "fold_opt dep_step ops new_dep_graph = Some g"
    and "0 < todo" "bit_set todo \<subseteq> dom (sg_txs (graph_spec g))"
  shows "\<exists>c. find_connected_component todo g = Some c
      \<and> bit_set c = (neighbours (bit_set todo) g)\<^sup>* `` {LEAST i. i \<in> bit_set todo}
      \<and> is_connected (Some todo) g = Some (\<forall>i\<in>bit_set todo. \<forall>j\<in>bit_set todo. (i, j) \<in> (neighbours (bit_set todo) g)\<^sup>*)"
proof -
  let ?S = "bit_set todo" let ?R = "related g ?S"
  have ok: "dg_ok g" by (rule reached_graph [OF assms(1,2)])
  obtain b where b: "first_position todo = int b" "b \<in> ?S" using first_position_lowest(1) [OF assms(3)] by blast
  have least: "(LEAST i. i \<in> ?S) = b"
    by (rule Least_equality [where P = "\<lambda>i. i \<in> ?S", OF b(2)]) (use first_position_below [OF assms(3)] b(1) in simp)
  obtain c where c: "connected_component todo (int b) g = Some c" "bit_set c = ?R\<^sup>* `` {b}"
    using connected_component_ok [OF ok _ _ b(2)] assms(3,4) unfolding graph_spec_parts(3) by auto
  have run: "find_connected_component todo g = Some c" using assms(3) b(1) c(1) by (simp add: find_connected_component_def)
  have sym: "sym ?R" by (auto simp: related_def sym_def)
  have sub: "?R\<^sup>* `` {b} \<subseteq> ?S" by (rule related_closed [OF b(2)])
  have "c = todo \<longleftrightarrow> ?R\<^sup>* `` {b} = ?S" unfolding c(2) [symmetric] bit_set_eq ..
  also have "\<dots> \<longleftrightarrow> (\<forall>i\<in>?S. \<forall>j\<in>?S. (i, j) \<in> ?R\<^sup>*)"
  proof
    assume all: "?R\<^sup>* `` {b} = ?S"
    show "\<forall>i\<in>?S. \<forall>j\<in>?S. (i, j) \<in> ?R\<^sup>*"
    proof (intro ballI)
      fix i j
      assume "i \<in> ?S" "j \<in> ?S"
      then have "(b, i) \<in> ?R\<^sup>*" "(b, j) \<in> ?R\<^sup>*" using equalityD2 [OF all] by blast+
      then show "(i, j) \<in> ?R\<^sup>*" using symD [OF sym_rtrancl [OF sym]] rtrancl_trans by metis
    qed
  next
    assume "\<forall>i\<in>?S. \<forall>j\<in>?S. (i, j) \<in> ?R\<^sup>*"
    then show "?R\<^sup>* `` {b} = ?S" using sub b(2) by blast
  qed
  finally have "is_connected (Some todo) g = Some (\<forall>i\<in>?S. \<forall>j\<in>?S. (i, j) \<in> ?R\<^sup>*)" using run by (simp add: is_connected_def)
  then show ?thesis unfolding neighbours_related least using run c(2) by blast
qed

theorem connected_components_witness:
  "\<exists>c. find_connected_component 3 demo_graph = Some c
      \<and> bit_set c = (neighbours (bit_set 3) demo_graph)\<^sup>* `` {LEAST i. i \<in> bit_set 3}
      \<and> is_connected (Some 3) demo_graph = Some (\<forall>i\<in>bit_set 3. \<forall>j\<in>bit_set 3. (i, j) \<in> (neighbours (bit_set 3) demo_graph)\<^sup>*)"
  by (rule connected_components [OF demo_ops_allowed demo_graph_reached])
    (simp_all add: demo_graph_dom bit_set_three)

text \<open>Ordering some transactions of an acyclic cluster by their counts of ancestors appends each of them
  once, and no transaction before one of its ancestors.\<close>
lemma append_topo_orders:
  assumes "ops_allowed ops \<lparr> sg_txs = Map.empty, sg_above = {} \<rparr>" "fold_opt dep_step ops new_dep_graph = Some g"
    and "is_acyclic g = Some True" "0 \<le> select" "bit_set select \<subseteq> dom (sg_txs (graph_spec g))"
  shows "\<exists>ts. append_topo lin select g = Some (lin @ map int ts) \<and> distinct ts \<and> set ts = bit_set select
    \<and> sorted_wrt (\<lambda>i j. (j, i) \<notin> sg_above (graph_spec g)) ts"
proof -
  have ok: "dg_ok g" by (rule reached_graph [OF assms(1,2)])
  have ac: "acyclic_graph g" using is_acyclic_ok [OF ok] assms(3) by simp
  obtain ts where "append_topo lin select g = Some (lin @ map int ts)" "distinct ts" "set ts = bit_set select"
    "\<forall>a b. a < b \<longrightarrow> b < length ts \<longrightarrow> (ts ! b, ts ! a) \<notin> ancestry g"
    using append_topo_ok [OF ok ac _ assms(4)] assms(5) unfolding graph_spec_parts(3) by blast
  then show ?thesis by (auto simp: graph_spec_parts(2) sorted_wrt_iff_nth_less)
qed

lemma append_topo_orders_witness:
  "\<exists>ts. append_topo [] 3 demo_graph = Some ([] @ map int ts) \<and> distinct ts \<and> set ts = bit_set 3
    \<and> sorted_wrt (\<lambda>i j. (j, i) \<notin> sg_above (graph_spec demo_graph)) ts"
  by (rule append_topo_orders [OF demo_ops_allowed demo_graph_reached demo_graph_acyclic]) (simp_all add: demo_graph_dom bit_set_three)

end
