(* ===== verification/Spec2Isabelle.thy ===== *)
theory Spec2Isabelle
  imports
    Store_Properties
    Index_Properties
    Version_Bits_Properties
    Chain_Sync_Properties
    Utxo_Properties
    Block_Store_Properties
    Filter_Properties
    Availability_Properties
    Orphanage_Properties
    Tx_Request_Properties
    Rolling_Bloom_Properties
    Peer_Eviction_Properties
    Net_Groups_Properties
    Cluster_Properties
begin

text \<open>
  A verification development for btclib-node, a Bitcoin full node in Python.

  \<^bold>\<open>The program.\<close>  The node (\<open>src/src/btclib_node\<close>) keeps five kinds of state.  \<open>db.py\<close> is an ordered
  store of octets by octets; over it \<open>chainstate/block_index.py\<close> keeps every header and which chain of
  them is the best and which is active, \<open>chainstate/utxo_index.py\<close> the coins a spend may refer to, and
  \<open>block_db/__init__.py\<close> the blocks themselves and what undoes them, \<open>chainstate/filter_index.py\<close> a
  filter of each block for light clients.
  A pass of \<open>main.py\<close> connects and disconnects blocks by calling the last four.  Beside them stand what
  the node knows of its peers: the blocks one has and is asked for (\<open>p2p/block_availability.py\<close>),
  whether it keeps up (\<open>p2p/chain_sync.py\<close>), the transactions it announced (\<open>txrequest.py\<close>,
  \<open>orphanage.py\<close>), the ones it is known to know (\<open>rolling_bloom.py\<close>), and which peer makes room for
  another (\<open>p2p/eviction.py\<close>).  \<open>versionbits.py\<close> reads the block index for signals of unknown rules.

  \<^bold>\<open>Conventions\<close> (Prelude).  \<open>bytes\<close> is a list of 8-bit words and an \<open>int\<close> unbounded; a record of Python is
  a record, an object shared through several tables is an entry of a heap under its own number, and a
  dict whose order is seen is an association list.  Every operation that can raise is a function to an
  \<open>option\<close>, \<open>None\<close> standing for KeyError, IndexError and the like and for not returning, so that a
  theorem that the result is \<open>Some\<close> excludes both; the exceptions the program raises on purpose are the
  datatype \<open>exc\<close>, on the left of a sum.  A loop that could go on for ever is a \<open>partial_function\<close>, and
  that it returns is proved: the walks of the block index under its invariant (heights fall, or the
  list of the open branches shrinks), the trimming of the orphanage (each turn drops an announcement),
  the events of the request tracker (each turn drops an event or completes a request), the protection by
  network (each turn protects at least one peer), the periods of the version bits (heights fall), the
  set bits of a version, the walk along two diagrams (a chunk is passed each turn), the search for a
  component (what is reached grows).  No fuel is used.

  \<^bold>\<open>Key-value store\<close>, \<open>db.py\<close>: Key_Value_Store models a column family as its pairs in ascending key
  order, with the closed flag and the pending batch, and Store_Properties shows that a prefix walk
  answers the pairs with the prefix, that a prefix delete removes them, and that a batch is all of its
  writes or none.  What its clients rely on, a get after a put, is the locale \<open>put_get_store\<close>,
  interpreted as \<open>kv\<close>.

  \<^bold>\<open>Block index\<close>, \<open>chainstate/block_index.py\<close>: Block_Index models the state and every operation.
  Block_Tree is the interface of a tree of headers, the locale \<open>block_tree\<close>, interpreted as \<open>tree\<close> in
  Index_Ancestor, where the skip pointers, fork points and locators are proved.  Index_Chains and
  Index_Headers hold the invariant \<open>index_ok\<close> and \<open>add_headers\<close> under it, Index_Status, Index_Rebuild
  and Index_Marks \<open>invalidate\<close> and \<open>reconsider\<close>, Index_Reach the steps \<open>index_step\<close> and the indexes they
  reach, Index_Load the opening of a datadir; Index_Properties states the properties.  btclib, the proof
  of work, the targets, the median time, the work and the wire format of a header, is the record
  \<open>btclib\<close>; that a header has positive work and is read back from its octets are hypotheses.

  \<^bold>\<open>Version bits\<close>, \<open>versionbits.py\<close>: Version_Bits models the states of a bit and their cache,
  Version_Bits_Proofs that the cached answers are those of a recursion that caches nothing, and
  Version_Bits_Properties the history of an unknown bit.

  \<^bold>\<open>Chain sync\<close>, \<open>p2p/chain_sync.py\<close>: Chain_Sync models the timeout, the drop for insufficient work and
  the protection of four peers; what is sent to a peer is a value returned.  Chain_Sync_Properties shows
  that only a peer that was asked and stayed behind is stopped.

  \<^bold>\<open>UTXO index\<close>, \<open>chainstate/utxo_index.py\<close>, the coin and undo block of \<open>block_db/__init__.py\<close> and the
  exemptions of \<open>chainstate/muhash.py\<close>: Utxo_Index models the staged changes, the undo log and the wire
  formats.  Utxo_View is the abstract specification, a map from outpoints to coins, and the refinement of
  every operation to a step on it; Utxo_Undo, Utxo_Rollback and Utxo_Flush prove that a disconnected
  block, a failed trial and a flush bring back or keep that map; Utxo_Properties states it.  The formats
  of outpoints and outputs, compact sizes and the running commitment are the record \<open>utxo_lib\<close>, with the
  round trips of the formats and the commutation of the commitment as hypotheses.

  \<^bold>\<open>Block store\<close>, \<open>block_db/__init__.py\<close> and \<open>stored_block.py\<close>: Block_Store models \<open>BlockDB\<close>, its directory
  a map from file names to octets beside the records of a database.  Block_Store_Files holds the invariant
  \<open>bs_ok\<close>, records, files and memory in step, and what is held under a hash; Block_Store_Writes,
  Block_Store_Prunes and Block_Store_Load keep it through the writes, the reads and prunings, and the
  opening of a directory left behind; Block_Store_Properties shows every sequence of operations to be one on
  a map from hashes to octets, and what a stop in the middle of an append costs.  The parsing of blocks,
  headers and sizes is the record \<open>block_lib\<close>, with the round trip of sizes as a hypothesis.

  \<^bold>\<open>Compact filter index\<close>, \<open>chainstate/filter_index.py\<close>: Filter_Index models \<open>FilterIndex\<close>, the filters
  held and stored, the locator and the catch-up over the block index and the block store.  Filter_Chains
  holds the invariant \<open>fi_ok\<close>, every header chained onto the one of its parent, and its preservation;
  Filter_Properties shows that catching up covers the active chain from any locator and that the invariant
  holds through every run, a trial rolled back leaving no trace.

  \<^bold>\<open>Block availability\<close>, \<open>p2p/block_availability.py\<close>: Block_Availability models what a peer has, the walk
  for the blocks to ask it for and the queues of blocks in flight; Block_Download proves the walk equal to
  a filter of the peer's chain, Availability_Properties states it.

  \<^bold>\<open>Orphanage\<close>, \<open>orphanage.py\<close>: Orphanage models \<open>TxOrphanage\<close>, Nested_Dict its two indexes by the locale
  \<open>pair_index\<close>, interpreted as \<open>nested\<close>, Orphanage_Index the invariant, Orphanage_Limits the loop that
  restores the limits, Orphanage_Operations and Orphanage_Properties every sequence of operations.  The
  random choice of an announcer, the order of a set and \<open>MAX_STANDARD_TX_WEIGHT\<close> are arguments.

  \<^bold>\<open>Transaction requests\<close>, \<open>txrequest.py\<close>: Tx_Request models \<open>TxRequestTracker\<close>; Tx_Request_Tables,
  Tx_Request_Selection, Tx_Request_Time and Tx_Request_Moves hold the parts of its invariant (the tables,
  the one selected announcement, the events) with the moves that keep them, Tx_Request_Loop the loop that
  brings it to a time, Tx_Request_Operations and Tx_Request_Properties every sequence of calls.
  \<open>siphash\<close> is an argument, any function.

  \<^bold>\<open>Rolling bloom filter\<close>, \<open>rolling_bloom.py\<close>: Rolling_Bloom models the filter with every hash function in
  a lane of one integer, Lanes proves what arithmetic does lane by lane, Rolling_Bloom_Hashes that the
  lanes are MurmurHash3 on 32-bit words, Rolling_Bloom_Cells what an insertion and a new generation do,
  Rolling_Bloom_Properties what is found.  The rounded results of the two logarithms of the constructor and
  the random tweak are arguments.

  \<^bold>\<open>Peer eviction\<close>, \<open>p2p/eviction.py\<close>: Peer_Eviction models the selection, Peer_Eviction_Proofs its steps,
  Peer_Eviction_Properties whom it can choose; Net_Groups models the classes and groups of addresses on
  words of 32 and 128 bits, Net_Groups_Properties what is proved of them.  The identifiers of BIP155 and
  \<open>can_addrv1\<close> are the record \<open>addr_lib\<close>, the keyed BLAKE2b an argument.

  \<^bold>\<open>Cluster linearization\<close>, \<open>cluster_linearize.py\<close>: Feerates models the comparison of two feerate diagrams and
  proves it that of the diagrams as functions, Dep_Graph the dependency graph of a cluster, a set of
  transactions being a mask (Bit_Masks).  Dep_Graph_Proofs holds its invariant, the masks standing for a
  reflexive and transitive ancestry, with the operations that add to it, Dep_Graph_Changes the new
  transactions and the removed ones, Dep_Graph_Walks the acyclic graphs, the nearest parents, the
  components and the order by ancestors, Dep_Graph_Remap the move to other positions.  Chunking proves
  the chunks of an order the least concave diagram over it, Cluster_Properties that every sequence of
  operations is the one on an abstract graph.

  \<^bold>\<open>Not modelled.\<close>  The log lines and warnings of the modelled files; \<open>check_unknown_activations\<close> of
  \<open>versionbits.py\<close>, which raises and clears a warning; the walk behind \<open>gettxoutsetinfo\<close> and the octets of
  the commitment (\<open>CoinStats\<close>); of \<open>cluster_linearize.py\<close> the random draws, the spanning forest and
  \<open>post_linearize\<close>.  Of the rest of the program: sockets, processes, files, the command line,
  the JSON-RPC methods and the handlers of messages are input and output around the state modelled here;
  the script interpreter and signatures are btclib; the fee estimator rests on floating-point rounding.
\<close>

end
